(* ===== verification/Prelude.thy ===== *)
theory Prelude
  imports Main "HOL-Library.Word"
begin

text \<open>
  The vocabulary shared by every component of the BSD/386 kernel development: the widths of the
  machine's integers (the i386 of the port: 8-bit \<open>u_char\<close>, 16-bit \<open>u_short\<close>, 32-bit \<open>int\<close> and
  \<open>long\<close>), the error numbers of \<^verbatim>\<open>sys/errno.h\<close>, the reachable states of a step relation, a
  loop run with fuel, and three interfaces that components state their contracts with:
  \<^item> \<open>invariant_system\<close>: an invariant that holds at the start and is kept by every step;
  \<^item> \<open>ranked_loop\<close>: a loop body that decreases a rank under an invariant, so the loop returns;
  \<^item> \<open>codec\<close>: an encoder with a decoder that is its left inverse on the valid values.
\<close>

unbundle bit_operations_syntax

section \<open>Machine integers\<close>

type_synonym u8 = "8 word"
type_synonym u16 = "16 word"
type_synonym u32 = "32 word"

text \<open>
  C's division and remainder of signed integers truncate towards zero.
\<close>

definition cdiv :: "int \<Rightarrow> int \<Rightarrow> int" where
  "cdiv a b = sgn a * sgn b * (\<bar>a\<bar> div \<bar>b\<bar>)"

definition cmod :: "int \<Rightarrow> int \<Rightarrow> int" where
  "cmod a b = a - cdiv a b * b"

text \<open>A signed 32-bit result: the value that is stored when a sum or product leaves the range.\<close>

definition s32 :: "int \<Rightarrow> int" where
  "s32 x = (x + 2147483648) mod 4294967296 - 2147483648"

lemma s32_id [simp]: "- 2147483648 \<le> x \<Longrightarrow> x < 2147483648 \<Longrightarrow> s32 x = x"
  by (simp add: s32_def)

lemma s32_range: "- 2147483648 \<le> s32 x" "s32 x < 2147483648"
  using pos_mod_bound [of 4294967296 "x + 2147483648"] pos_mod_sign [of 4294967296 "x + 2147483648"]
  by (simp_all add: s32_def)

section \<open>Error numbers\<close>

datatype errno = EPERM | ENOENT | ESRCH | EINTR | EBADF | EDEADLK | ENOMEM | EACCES | EFAULT
  | EEXIST | EINVAL | EMFILE | EAGAIN | ENAMETOOLONG | ENETDOWN | EAFNOSUPPORT | ENOBUFS
  | ENODEV | ENFILE | EOPNOTSUPP | E2BIG | ENOSPC | EIO

text \<open>A system call that fails returns \<open>Inl\<close> of its error number.\<close>

type_synonym 'a result = "errno + 'a"

section \<open>Automation shared by the components\<close>

named_theorems code_labels \<open>numeric values of instruction and option codes\<close>
named_theorems ranges \<open>facts that bound a value\<close>

section \<open>Loops with fuel\<close>

text \<open>
  A C loop is a body that either goes on with a new state (\<open>Inl\<close>) or leaves with a result
  (\<open>Inr\<close>). Running out of fuel is \<open>None\<close>.
\<close>

fun run_fuel :: "('s \<Rightarrow> 's + 'r) \<Rightarrow> nat \<Rightarrow> 's \<Rightarrow> 'r option" where
  "run_fuel body 0 s = None"
| "run_fuel body (Suc n) s = (case body s of Inl s' \<Rightarrow> run_fuel body n s' | Inr r \<Rightarrow> Some r)"

lemma run_fuel_Suc: "run_fuel body n s = Some r \<Longrightarrow> run_fuel body (Suc n) s = Some r"
  by (induction body n s rule: run_fuel.induct) (auto split: sum.splits)

lemma run_fuel_mono:
  assumes "run_fuel body n s = Some r" and "n \<le> m"
  shows "run_fuel body m s = Some r"
  using assms(2)
proof (induction m rule: dec_induct)
  case base
  show ?case by (rule assms(1))
next
  case (step m)
  from step.IH show ?case by (rule run_fuel_Suc)
qed

lemma run_fuel_stuck:
  assumes "\<And>s. P s \<Longrightarrow> \<exists>s'. body s = Inl s' \<and> P s'" and "P s"
  shows "run_fuel body n s = None"
  using assms(2)
proof (induction n arbitrary: s)
  case (Suc n)
  then obtain s' where "body s = Inl s'" and "P s'" using assms(1) by blast
  with Suc.IH show ?case by simp
qed simp

lemma run_fuel_inv:
  assumes "\<And>s s'. P s \<Longrightarrow> body s = Inl s' \<Longrightarrow> P s'" and "\<And>s r. P s \<Longrightarrow> body s = Inr r \<Longrightarrow> Q r"
    and "P s" and "run_fuel body n s = Some r"
  shows "Q r"
  using assms(3,4)
proof (induction n arbitrary: s)
  case (Suc n)
  then show ?case using assms(1,2) by (cases "body s") fastforce+
qed simp

locale ranked_loop =
  fixes body :: "'s \<Rightarrow> 's + 'r"
    and inv :: "'s \<Rightarrow> bool"
    and rank :: "'s \<Rightarrow> nat"
    and good :: "'r \<Rightarrow> bool"
  assumes body_next: "inv s \<Longrightarrow> body s = Inl s' \<Longrightarrow> inv s' \<and> rank s' < rank s"
    and body_done: "inv s \<Longrightarrow> body s = Inr r \<Longrightarrow> good r"
begin

lemma run_returns:
  assumes "inv s" and "rank s < n"
  shows "\<exists>r. run_fuel body n s = Some r \<and> good r"
  using assms
proof (induction n arbitrary: s)
  case (Suc n)
  show ?case
  proof (cases "body s")
    case (Inl s')
    from body_next [OF Suc.prems(1) Inl] Suc.prems(2) have "inv s'" and "rank s' < n"
      by simp_all
    with Suc.IH Inl show ?thesis by simp
  next
    case (Inr r)
    with Suc.prems body_done show ?thesis by simp
  qed
qed simp

lemma run_result_good: "inv s \<Longrightarrow> run_fuel body n s = Some r \<Longrightarrow> good r"
proof (induction n arbitrary: s)
  case (Suc n)
  then show ?case by (auto split: sum.splits dest: body_next body_done)
qed simp

end

section \<open>Reachable states\<close>

inductive reach :: "('s \<Rightarrow> bool) \<Rightarrow> ('s \<Rightarrow> 's \<Rightarrow> bool) \<Rightarrow> 's \<Rightarrow> bool"
  for init :: "'s \<Rightarrow> bool" and step :: "'s \<Rightarrow> 's \<Rightarrow> bool" where
  reach_init: "init s \<Longrightarrow> reach init step s"
| reach_step: "reach init step s \<Longrightarrow> step s t \<Longrightarrow> reach init step t"

locale invariant_system =
  fixes init :: "'s \<Rightarrow> bool"
    and step :: "'s \<Rightarrow> 's \<Rightarrow> bool"
    and inv :: "'s \<Rightarrow> bool"
  assumes inv_init: "init s \<Longrightarrow> inv s"
    and inv_step: "inv s \<Longrightarrow> step s t \<Longrightarrow> inv t"
begin

lemma reach_inv: "reach init step s \<Longrightarrow> inv s"
  by (induction rule: reach.induct) (auto intro: inv_init inv_step)

end

section \<open>Encoders and decoders\<close>

locale codec =
  fixes enc :: "'a \<Rightarrow> 'b" and dec :: "'b \<Rightarrow> 'a" and valid :: "'a \<Rightarrow> bool"
  assumes dec_enc: "valid x \<Longrightarrow> dec (enc x) = x"
begin

lemma enc_inj: "valid x \<Longrightarrow> valid y \<Longrightarrow> enc x = enc y \<Longrightarrow> x = y"
  by (metis dec_enc)

end

section \<open>Lists\<close>

lemma tl_list_update0 [simp]: "tl (xs[0 := x]) = tl xs"
  by (cases xs) simp_all

section \<open>Words\<close>

lemma unat_bound32: "unat (w :: u32) < 4294967296"
  using unsigned_less [of w, where ?'a = nat] by simp

lemma sint_mod32: "sint (w :: u32) = (int (unat w) + 2147483648) mod 4294967296 - 2147483648"
  using int_word_sint [of "uint w", where ?'a = 32] by simp

lemma sint_small: "unat (w :: u32) < 2147483648 \<Longrightarrow> sint w = int (unat w)"
  unfolding sint_mod32 using mod_pos_pos_trivial [of "int (unat w) + 2147483648" 4294967296]
  by linarith

lemma sint_big:
  assumes "2147483648 \<le> unat (w :: u32)"
  shows "sint w = int (unat w) - 4294967296"
proof -
  have "(int (unat w) + 2147483648) mod 4294967296 = (int (unat w) - 2147483648) mod 4294967296"
    using mod_add_self2 [of "int (unat w) - 2147483648" 4294967296]
    by (simp add: algebra_simps)
  also have "\<dots> = int (unat w) - 2147483648"
    using assms unat_bound32 [of w] by (intro mod_pos_pos_trivial) linarith+
  finally show ?thesis by (simp add: sint_mod32)
qed

lemma sint_nonneg_unat: "0 \<le> sint (w :: u32) \<Longrightarrow> sint w = int (unat w)"
  using sint_small [of w] sint_big [of w] unat_bound32 [of w] by linarith

lemma sint_range32: "- 2147483648 \<le> sint (w :: u32)" "sint (w :: u32) < 2147483648"
  using sint_small [of w] sint_big [of w] unat_bound32 [of w] by linarith+

end
