(* ===== verification/Bpf.thy ===== *)
theory Bpf
  imports Prelude
begin

text \<open>
  The Berkeley packet filter, \<^verbatim>\<open>sys/net/bpf_filter.c\<close> with the instruction encoding of
  \<^verbatim>\<open>sys/net/bpf.h\<close>, as the kernel compiles it on the i386 (\<^verbatim>\<open>KERNEL\<close> defined,
  \<^verbatim>\<open>BPF_ALIGN\<close> not defined).

  The interpreter reads memory through pointers that a filter program controls. The model makes
  every access that leaves its object an explicit outcome (\<open>Fault\<close>), so that the theorems say
  which programs never cause one: an instruction fetched outside the program (\<open>BadPC\<close>), a scratch
  word outside \<^verbatim>\<open>mem\<close> (\<open>BadMem\<close>), a packet byte outside the data (\<open>BadRead\<close>), a division by
  zero (\<open>DivZero\<close>). A packet is a flat buffer, or a chain of mbufs of which only the
  \<^verbatim>\<open>m_len\<close> valid bytes are data. The contents of the uninitialised locals \<^verbatim>\<open>A\<close>, \<^verbatim>\<open>X\<close> and
  \<^verbatim>\<open>mem\<close> are part of the initial state. A shift takes its count modulo 32, as the i386 does.
\<close>

section \<open>Instruction encoding\<close>

definition BPF_LD :: u16 where [code_labels]: "BPF_LD = 0x00"
definition BPF_LDX :: u16 where [code_labels]: "BPF_LDX = 0x01"
definition BPF_ST :: u16 where [code_labels]: "BPF_ST = 0x02"
definition BPF_STX :: u16 where [code_labels]: "BPF_STX = 0x03"
definition BPF_ALU :: u16 where [code_labels]: "BPF_ALU = 0x04"
definition BPF_JMP :: u16 where [code_labels]: "BPF_JMP = 0x05"
definition BPF_RET :: u16 where [code_labels]: "BPF_RET = 0x06"
definition BPF_MISC :: u16 where [code_labels]: "BPF_MISC = 0x07"

definition BPF_W :: u16 where [code_labels]: "BPF_W = 0x00"
definition BPF_H :: u16 where [code_labels]: "BPF_H = 0x08"
definition BPF_B :: u16 where [code_labels]: "BPF_B = 0x10"

definition BPF_IMM :: u16 where [code_labels]: "BPF_IMM = 0x00"
definition BPF_ABS :: u16 where [code_labels]: "BPF_ABS = 0x20"
definition BPF_IND :: u16 where [code_labels]: "BPF_IND = 0x40"
definition BPF_MEM :: u16 where [code_labels]: "BPF_MEM = 0x60"
definition BPF_LEN :: u16 where [code_labels]: "BPF_LEN = 0x80"
definition BPF_MSH :: u16 where [code_labels]: "BPF_MSH = 0xa0"

definition BPF_ADD :: u16 where [code_labels]: "BPF_ADD = 0x00"
definition BPF_SUB :: u16 where [code_labels]: "BPF_SUB = 0x10"
definition BPF_MUL :: u16 where [code_labels]: "BPF_MUL = 0x20"
definition BPF_DIV :: u16 where [code_labels]: "BPF_DIV = 0x30"
definition BPF_OR :: u16 where [code_labels]: "BPF_OR = 0x40"
definition BPF_AND :: u16 where [code_labels]: "BPF_AND = 0x50"
definition BPF_LSH :: u16 where [code_labels]: "BPF_LSH = 0x60"
definition BPF_RSH :: u16 where [code_labels]: "BPF_RSH = 0x70"
definition BPF_NEG :: u16 where [code_labels]: "BPF_NEG = 0x80"

definition BPF_JA :: u16 where [code_labels]: "BPF_JA = 0x00"
definition BPF_JEQ :: u16 where [code_labels]: "BPF_JEQ = 0x10"
definition BPF_JGT :: u16 where [code_labels]: "BPF_JGT = 0x20"
definition BPF_JGE :: u16 where [code_labels]: "BPF_JGE = 0x30"
definition BPF_JSET :: u16 where [code_labels]: "BPF_JSET = 0x40"

definition BPF_K :: u16 where [code_labels]: "BPF_K = 0x00"
definition BPF_X :: u16 where [code_labels]: "BPF_X = 0x08"
definition BPF_A :: u16 where [code_labels]: "BPF_A = 0x10"
definition BPF_TAX :: u16 where [code_labels]: "BPF_TAX = 0x00"
definition BPF_TXA :: u16 where [code_labels]: "BPF_TXA = 0x80"

definition BPF_CLASS :: "u16 \<Rightarrow> u16" where [code_labels]: "BPF_CLASS c = c AND 0x07"
definition BPF_OP :: "u16 \<Rightarrow> u16" where [code_labels]: "BPF_OP c = c AND 0xf0"

definition BPF_MEMWORDS :: int where [code_labels]: "BPF_MEMWORDS = 16"

text \<open>\<^verbatim>\<open>struct bpf_insn\<close>; the signed \<^verbatim>\<open>long k\<close> is kept as its 32 bits.\<close>

record bpf_insn =
  insn_code :: u16
  insn_jt :: u8
  insn_jf :: u8
  insn_k :: u32

text \<open>One constructor for each case label of the interpreter's switch.\<close>

datatype bpf_case =
    RET_K | RET_A
  | LD_W_ABS | LD_H_ABS | LD_B_ABS | LD_W_LEN | LDX_W_LEN
  | LD_W_IND | LD_H_IND | LD_B_IND | LDX_MSH_B
  | LD_IMM | LDX_IMM | LD_MEM | LDX_MEM | ST_M | STX_M
  | JMP_JA | JGT_K | JGE_K | JEQ_K | JSET_K | JGT_X | JGE_X | JEQ_X | JSET_X
  | ADD_X | SUB_X | MUL_X | DIV_X | AND_X | OR_X | LSH_X | RSH_X
  | ADD_K | SUB_K | MUL_K | DIV_K | AND_K | OR_K | LSH_K | RSH_K
  | ALU_NEG | MISC_TAX | MISC_TXA

definition bpf_cases :: "(u16 \<times> bpf_case) list" where
  "bpf_cases = [
    (BPF_RET OR BPF_K, RET_K), (BPF_RET OR BPF_A, RET_A),
    (BPF_LD OR BPF_W OR BPF_ABS, LD_W_ABS), (BPF_LD OR BPF_H OR BPF_ABS, LD_H_ABS),
    (BPF_LD OR BPF_B OR BPF_ABS, LD_B_ABS), (BPF_LD OR BPF_W OR BPF_LEN, LD_W_LEN),
    (BPF_LDX OR BPF_W OR BPF_LEN, LDX_W_LEN), (BPF_LD OR BPF_W OR BPF_IND, LD_W_IND),
    (BPF_LD OR BPF_H OR BPF_IND, LD_H_IND), (BPF_LD OR BPF_B OR BPF_IND, LD_B_IND),
    (BPF_LDX OR BPF_MSH OR BPF_B, LDX_MSH_B), (BPF_LD OR BPF_IMM, LD_IMM),
    (BPF_LDX OR BPF_IMM, LDX_IMM), (BPF_LD OR BPF_MEM, LD_MEM), (BPF_LDX OR BPF_MEM, LDX_MEM),
    (BPF_ST, ST_M), (BPF_STX, STX_M), (BPF_JMP OR BPF_JA, JMP_JA),
    (BPF_JMP OR BPF_JGT OR BPF_K, JGT_K), (BPF_JMP OR BPF_JGE OR BPF_K, JGE_K),
    (BPF_JMP OR BPF_JEQ OR BPF_K, JEQ_K), (BPF_JMP OR BPF_JSET OR BPF_K, JSET_K),
    (BPF_JMP OR BPF_JGT OR BPF_X, JGT_X), (BPF_JMP OR BPF_JGE OR BPF_X, JGE_X),
    (BPF_JMP OR BPF_JEQ OR BPF_X, JEQ_X), (BPF_JMP OR BPF_JSET OR BPF_X, JSET_X),
    (BPF_ALU OR BPF_ADD OR BPF_X, ADD_X), (BPF_ALU OR BPF_SUB OR BPF_X, SUB_X),
    (BPF_ALU OR BPF_MUL OR BPF_X, MUL_X), (BPF_ALU OR BPF_DIV OR BPF_X, DIV_X),
    (BPF_ALU OR BPF_AND OR BPF_X, AND_X), (BPF_ALU OR BPF_OR OR BPF_X, OR_X),
    (BPF_ALU OR BPF_LSH OR BPF_X, LSH_X), (BPF_ALU OR BPF_RSH OR BPF_X, RSH_X),
    (BPF_ALU OR BPF_ADD OR BPF_K, ADD_K), (BPF_ALU OR BPF_SUB OR BPF_K, SUB_K),
    (BPF_ALU OR BPF_MUL OR BPF_K, MUL_K), (BPF_ALU OR BPF_DIV OR BPF_K, DIV_K),
    (BPF_ALU OR BPF_AND OR BPF_K, AND_K), (BPF_ALU OR BPF_OR OR BPF_K, OR_K),
    (BPF_ALU OR BPF_LSH OR BPF_K, LSH_K), (BPF_ALU OR BPF_RSH OR BPF_K, RSH_K),
    (BPF_ALU OR BPF_NEG, ALU_NEG), (BPF_MISC OR BPF_TAX, MISC_TAX),
    (BPF_MISC OR BPF_TXA, MISC_TXA)]"

definition bpf_decode :: "u16 \<Rightarrow> bpf_case option" where
  "bpf_decode c = map_of bpf_cases c"

section \<open>Packets\<close>

datatype bpf_pkt = Flat "u8 list" | Chain "u8 list list"

text \<open>A byte of an object of known length: \<open>None\<close> is an access outside it.\<close>

definition byte_at :: "u8 list \<Rightarrow> int \<Rightarrow> u8 option" where
  "byte_at b i = (if 0 \<le> i \<and> i < int (length b) then Some (b ! nat i) else None)"

definition be16 :: "u8 \<Rightarrow> u8 \<Rightarrow> u32" where
  "be16 a b = push_bit 8 (ucast a) OR ucast b"

definition be32 :: "u8 \<Rightarrow> u8 \<Rightarrow> u8 \<Rightarrow> u8 \<Rightarrow> u32" where
  "be32 a b c d =
     push_bit 24 (ucast a) OR push_bit 16 (ucast b) OR push_bit 8 (ucast c) OR ucast d"

definition half_of :: "u8 option \<Rightarrow> u8 option \<Rightarrow> u32 option" where
  "half_of a b = (case (a, b) of (Some a, Some b) \<Rightarrow> Some (be16 a b) | _ \<Rightarrow> None)"

definition word_of :: "u8 option \<Rightarrow> u8 option \<Rightarrow> u8 option \<Rightarrow> u8 option \<Rightarrow> u32 option" where
  "word_of a b c d = (case (a, b, c, d) of
     (Some a, Some b, Some c, Some d) \<Rightarrow> Some (be32 a b c d) | _ \<Rightarrow> None)"

definition EXTRACT_SHORT :: "u8 list \<Rightarrow> int \<Rightarrow> u32 option" where
  "EXTRACT_SHORT b i = half_of (byte_at b i) (byte_at b (i + 1))"

definition EXTRACT_LONG :: "u8 list \<Rightarrow> int \<Rightarrow> u32 option" where
  "EXTRACT_LONG b i =
     word_of (byte_at b i) (byte_at b (i + 1)) (byte_at b (i + 2)) (byte_at b (i + 3))"

text \<open>
  The walk of \<^verbatim>\<open>MINDEX\<close> and of the two extractors: the mbuf that holds offset \<open>k\<close>, the
  mbufs after it, and the offset within it; \<open>None\<close> when the chain ends first. The comparison is
  signed, so a negative offset stays in the first mbuf.
\<close>

fun mindex :: "u8 list list \<Rightarrow> int \<Rightarrow> (u8 list \<times> u8 list list \<times> int) option" where
  "mindex [] i = None"
| "mindex (b # ms) i =
     (if i \<ge> int (length b) then mindex ms (i - int (length b)) else Some (b, ms, i))"

text \<open>What an extractor gives: a value, \<open>*err = 1\<close>, or an access outside an mbuf.\<close>

datatype mread = MVal u32 | MErr | MFault

definition mval :: "u32 option \<Rightarrow> mread" where
  "mval v = (case v of Some w \<Rightarrow> MVal w | None \<Rightarrow> MFault)"

text \<open>
  \<^verbatim>\<open>cp\<close> already points at offset \<open>k\<close> of the mbuf's data when the straddling cases index
  it with \<open>k\<close> once more; the model keeps that.
\<close>

definition m_xword :: "u8 list list \<Rightarrow> int \<Rightarrow> mread" where
  "m_xword m k0 = (if m = [] then MFault else
     (case mindex m k0 of
        None \<Rightarrow> MErr
      | Some (b, rest, k) \<Rightarrow>
          (let len = int (length b); cp = (\<lambda>i. byte_at b (k + i)) in
           if len - k \<ge> 4 then mval (EXTRACT_LONG b k)
           else (case rest of
                   [] \<Rightarrow> MErr
                 | m0 # _ \<Rightarrow>
                     (let np = byte_at m0 in
                      if int (length m0) + len - k < 4 then MErr
                      else if len - k = 1 then mval (word_of (cp k) (np 0) (np 1) (np 2))
                      else if len - k = 2 then mval (word_of (cp k) (cp (k + 1)) (np 0) (np 1))
                      else mval (word_of (cp k) (cp (k + 1)) (cp (k + 2)) (np 0)))))))"

definition m_xhalf :: "u8 list list \<Rightarrow> int \<Rightarrow> mread" where
  "m_xhalf m k0 = (if m = [] then MFault else
     (case mindex m k0 of
        None \<Rightarrow> MErr
      | Some (b, rest, k) \<Rightarrow>
          (let len = int (length b); cp = (\<lambda>i. byte_at b (k + i)) in
           if len - k \<ge> 2 then mval (EXTRACT_SHORT b k)
           else (case rest of
                   [] \<Rightarrow> MErr
                 | m0 # _ \<Rightarrow> mval (half_of (cp k) (byte_at m0 0))))))"

text \<open>\<^verbatim>\<open>MINDEX\<close> followed by a byte access; the filter returns 0 at the end of the chain.\<close>

definition m_xbyte :: "u8 list list \<Rightarrow> int \<Rightarrow> (u8 \<Rightarrow> u32) \<Rightarrow> mread" where
  "m_xbyte m k0 cast = (if m = [] then MFault else
     (case mindex m k0 of
        None \<Rightarrow> MErr
      | Some (b, _, k) \<Rightarrow> mval (map_option cast (byte_at b k))))"

section \<open>The interpreter\<close>

datatype bpf_fault = BadPC | BadMem | BadRead | DivZero

datatype bpf_out = Return u32 | Fault bpf_fault

record bpf_state =
  st_pc :: int
  st_A :: u32
  st_X :: u32
  st_mem :: "u32 list"

type_synonym bpf_next = "bpf_state + bpf_out"

definition of_mread :: "mread \<Rightarrow> (u32 \<Rightarrow> bpf_state) \<Rightarrow> bpf_next \<Rightarrow> bpf_next" where
  "of_mread r upd err = (case r of
     MVal v \<Rightarrow> Inl (upd v) | MErr \<Rightarrow> err | MFault \<Rightarrow> Inr (Fault BadRead))"

definition of_read :: "u32 option \<Rightarrow> (u32 \<Rightarrow> bpf_state) \<Rightarrow> bpf_next" where
  "of_read r upd = (case r of Some v \<Rightarrow> Inl (upd v) | None \<Rightarrow> Inr (Fault BadRead))"

text \<open>
  A packet load: \<open>over\<close> is the length test, \<open>flat\<close> the access to a flat buffer, \<open>chain\<close> the
  access to an mbuf chain (reached only with \<^verbatim>\<open>buflen\<close> 0), \<open>err\<close> what happens when the chain
  is too short.
\<close>

definition bpf_load :: "bpf_pkt \<Rightarrow> u32 \<Rightarrow> bool \<Rightarrow> (u8 list \<Rightarrow> u32 option) \<Rightarrow>
    (u8 list list \<Rightarrow> mread) \<Rightarrow> bpf_next \<Rightarrow> (u32 \<Rightarrow> bpf_state) \<Rightarrow> bpf_next" where
  "bpf_load p buflen over flat chain err upd =
     (if over then
        (if buflen \<noteq> 0 then Inr (Return 0)
         else (case p of Chain m \<Rightarrow> of_mread (chain m) upd err | Flat _ \<Rightarrow> Inr (Fault BadRead)))
      else (case p of Flat b \<Rightarrow> of_read (flat b) upd | Chain _ \<Rightarrow> Inr (Fault BadRead)))"

definition jump :: "bpf_state \<Rightarrow> int \<Rightarrow> bpf_next" where
  "jump s off = Inl (s\<lparr>st_pc := st_pc s + off\<rparr>)"

definition branch :: "bpf_insn \<Rightarrow> bpf_state \<Rightarrow> bool \<Rightarrow> bpf_next" where
  "branch i s c = jump s (uint (if c then insn_jt i else insn_jf i))"

definition mem_ok :: "u32 \<Rightarrow> bool" where
  "mem_ok k \<longleftrightarrow> 0 \<le> sint k \<and> sint k < BPF_MEMWORDS"

definition shl32 :: "u32 \<Rightarrow> u32 \<Rightarrow> u32" where
  "shl32 a n = push_bit (unat n mod 32) a"

definition shr32 :: "u32 \<Rightarrow> u32 \<Rightarrow> u32" where
  "shr32 a n = drop_bit (unat n mod 32) a"

fun bpf_exec :: "bpf_case \<Rightarrow> bpf_insn \<Rightarrow> bpf_pkt \<Rightarrow> u32 \<Rightarrow> u32 \<Rightarrow> bpf_state \<Rightarrow> bpf_next" where
  "bpf_exec RET_K i p wirelen buflen s = Inr (Return (insn_k i))"
| "bpf_exec RET_A i p wirelen buflen s = Inr (Return (st_A s))"
| "bpf_exec LD_W_ABS i p wirelen buflen s = (let k = insn_k i in
     bpf_load p buflen (k + 4 > buflen) (\<lambda>b. EXTRACT_LONG b (sint k)) (\<lambda>m. m_xword m (sint k))
       (Inr (Return 0)) (\<lambda>v. s\<lparr>st_A := v\<rparr>))"
| "bpf_exec LD_H_ABS i p wirelen buflen s = (let k = insn_k i in
     bpf_load p buflen (k + 2 > buflen) (\<lambda>b. EXTRACT_SHORT b (sint k)) (\<lambda>m. m_xhalf m (sint k))
       (Inl (s\<lparr>st_A := 0\<rparr>)) (\<lambda>v. s\<lparr>st_A := v\<rparr>))"
| "bpf_exec LD_B_ABS i p wirelen buflen s = (let k = insn_k i in
     bpf_load p buflen (k \<ge> buflen) (\<lambda>b. map_option ucast (byte_at b (sint k)))
       (\<lambda>m. m_xbyte m (sint k) ucast) (Inr (Return 0)) (\<lambda>v. s\<lparr>st_A := v\<rparr>))"
| "bpf_exec LD_W_LEN i p wirelen buflen s = Inl (s\<lparr>st_A := wirelen\<rparr>)"
| "bpf_exec LDX_W_LEN i p wirelen buflen s = Inl (s\<lparr>st_X := wirelen\<rparr>)"
| "bpf_exec LD_W_IND i p wirelen buflen s = (let k = st_X s + insn_k i in
     bpf_load p buflen (k + 4 > buflen) (\<lambda>b. EXTRACT_LONG b (sint k)) (\<lambda>m. m_xword m (sint k))
       (Inr (Return 0)) (\<lambda>v. s\<lparr>st_A := v\<rparr>))"
| "bpf_exec LD_H_IND i p wirelen buflen s = (let k = st_X s + insn_k i in
     bpf_load p buflen (k + 2 > buflen) (\<lambda>b. EXTRACT_SHORT b (sint k)) (\<lambda>m. m_xhalf m (sint k))
       (Inr (Return 0)) (\<lambda>v. s\<lparr>st_A := v\<rparr>))"
| "bpf_exec LD_B_IND i p wirelen buflen s = (let k = st_X s + insn_k i in
     bpf_load p buflen (k \<ge> buflen) (\<lambda>b. map_option ucast (byte_at b (sint k)))
       (\<lambda>m. m_xbyte m (sint k) scast) (Inr (Return 0)) (\<lambda>v. s\<lparr>st_A := v\<rparr>))"
| "bpf_exec LDX_MSH_B i p wirelen buflen s = (let k = insn_k i; msh = (\<lambda>c. push_bit 2 (c AND 0xf)) in
     bpf_load p buflen (k \<ge> buflen) (\<lambda>b. map_option (\<lambda>c. msh (ucast c)) (byte_at b (sint k)))
       (\<lambda>m. m_xbyte m (sint k) (\<lambda>c. msh (scast c))) (Inr (Return 0)) (\<lambda>v. s\<lparr>st_X := v\<rparr>))"
| "bpf_exec LD_IMM i p wirelen buflen s = Inl (s\<lparr>st_A := insn_k i\<rparr>)"
| "bpf_exec LDX_IMM i p wirelen buflen s = Inl (s\<lparr>st_X := insn_k i\<rparr>)"
| "bpf_exec LD_MEM i p wirelen buflen s =
     (if mem_ok (insn_k i) then Inl (s\<lparr>st_A := st_mem s ! unat (insn_k i)\<rparr>) else Inr (Fault BadMem))"
| "bpf_exec LDX_MEM i p wirelen buflen s =
     (if mem_ok (insn_k i) then Inl (s\<lparr>st_X := st_mem s ! unat (insn_k i)\<rparr>) else Inr (Fault BadMem))"
| "bpf_exec ST_M i p wirelen buflen s =
     (if mem_ok (insn_k i) then Inl (s\<lparr>st_mem := (st_mem s)[unat (insn_k i) := st_A s]\<rparr>)
      else Inr (Fault BadMem))"
| "bpf_exec STX_M i p wirelen buflen s =
     (if mem_ok (insn_k i) then Inl (s\<lparr>st_mem := (st_mem s)[unat (insn_k i) := st_X s]\<rparr>)
      else Inr (Fault BadMem))"
| "bpf_exec JMP_JA i p wirelen buflen s = jump s (sint (insn_k i))"
| "bpf_exec JGT_K i p wirelen buflen s = branch i s (st_A s > insn_k i)"
| "bpf_exec JGE_K i p wirelen buflen s = branch i s (st_A s \<ge> insn_k i)"
| "bpf_exec JEQ_K i p wirelen buflen s = branch i s (st_A s = insn_k i)"
| "bpf_exec JSET_K i p wirelen buflen s = branch i s (st_A s AND insn_k i \<noteq> 0)"
| "bpf_exec JGT_X i p wirelen buflen s = branch i s (st_A s > st_X s)"
| "bpf_exec JGE_X i p wirelen buflen s = branch i s (st_A s \<ge> st_X s)"
| "bpf_exec JEQ_X i p wirelen buflen s = branch i s (st_A s = st_X s)"
| "bpf_exec JSET_X i p wirelen buflen s = branch i s (st_A s AND st_X s \<noteq> 0)"
| "bpf_exec ADD_X i p wirelen buflen s = Inl (s\<lparr>st_A := st_A s + st_X s\<rparr>)"
| "bpf_exec SUB_X i p wirelen buflen s = Inl (s\<lparr>st_A := st_A s - st_X s\<rparr>)"
| "bpf_exec MUL_X i p wirelen buflen s = Inl (s\<lparr>st_A := st_A s * st_X s\<rparr>)"
| "bpf_exec DIV_X i p wirelen buflen s =
     (if st_X s = 0 then Inr (Return 0) else Inl (s\<lparr>st_A := st_A s div st_X s\<rparr>))"
| "bpf_exec AND_X i p wirelen buflen s = Inl (s\<lparr>st_A := st_A s AND st_X s\<rparr>)"
| "bpf_exec OR_X i p wirelen buflen s = Inl (s\<lparr>st_A := st_A s OR st_X s\<rparr>)"
| "bpf_exec LSH_X i p wirelen buflen s = Inl (s\<lparr>st_A := shl32 (st_A s) (st_X s)\<rparr>)"
| "bpf_exec RSH_X i p wirelen buflen s = Inl (s\<lparr>st_A := shr32 (st_A s) (st_X s)\<rparr>)"
| "bpf_exec ADD_K i p wirelen buflen s = Inl (s\<lparr>st_A := st_A s + insn_k i\<rparr>)"
| "bpf_exec SUB_K i p wirelen buflen s = Inl (s\<lparr>st_A := st_A s - insn_k i\<rparr>)"
| "bpf_exec MUL_K i p wirelen buflen s = Inl (s\<lparr>st_A := st_A s * insn_k i\<rparr>)"
| "bpf_exec DIV_K i p wirelen buflen s =
     (if insn_k i = 0 then Inr (Fault DivZero) else Inl (s\<lparr>st_A := st_A s div insn_k i\<rparr>))"
| "bpf_exec AND_K i p wirelen buflen s = Inl (s\<lparr>st_A := st_A s AND insn_k i\<rparr>)"
| "bpf_exec OR_K i p wirelen buflen s = Inl (s\<lparr>st_A := st_A s OR insn_k i\<rparr>)"
| "bpf_exec LSH_K i p wirelen buflen s = Inl (s\<lparr>st_A := shl32 (st_A s) (insn_k i)\<rparr>)"
| "bpf_exec RSH_K i p wirelen buflen s = Inl (s\<lparr>st_A := shr32 (st_A s) (insn_k i)\<rparr>)"
| "bpf_exec ALU_NEG i p wirelen buflen s = Inl (s\<lparr>st_A := - st_A s\<rparr>)"
| "bpf_exec MISC_TAX i p wirelen buflen s = Inl (s\<lparr>st_X := st_A s\<rparr>)"
| "bpf_exec MISC_TXA i p wirelen buflen s = Inl (s\<lparr>st_A := st_X s\<rparr>)"

text \<open>
  One turn of \<^verbatim>\<open>while (1) { ++pc; switch (pc->code) ... }\<close>; \<open>st_pc\<close> is the index of the
  instruction about to run. An unknown code is the switch's default: the filter returns 0.
\<close>

definition bpf_turn :: "bpf_insn list \<Rightarrow> bpf_pkt \<Rightarrow> u32 \<Rightarrow> u32 \<Rightarrow> bpf_state \<Rightarrow> bpf_next" where
  "bpf_turn f p wirelen buflen s =
     (if 0 \<le> st_pc s \<and> st_pc s < int (length f) then
        (let i = f ! nat (st_pc s) in
         case bpf_decode (insn_code i) of
           None \<Rightarrow> Inr (Return 0)
         | Some c \<Rightarrow>
             (case bpf_exec c i p wirelen buflen s of
                Inl s' \<Rightarrow> Inl (s'\<lparr>st_pc := st_pc s' + 1\<rparr>)
              | Inr r \<Rightarrow> Inr r))
      else Inr (Fault BadPC))"

text \<open>
  \<^verbatim>\<open>bpf_filter\<close>, with fuel: a null program accepts everything; the locals start as \<open>s0\<close>.
\<close>

definition bpf_filter :: "nat \<Rightarrow> bpf_insn list option \<Rightarrow> bpf_pkt \<Rightarrow> u32 \<Rightarrow> u32 \<Rightarrow> bpf_state \<Rightarrow>
    bpf_out option" where
  "bpf_filter fuel pc p wirelen buflen s0 = (case pc of
     None \<Rightarrow> Some (Return (-1))
   | Some f \<Rightarrow> run_fuel (bpf_turn f p wirelen buflen) fuel (s0\<lparr>st_pc := 0\<rparr>))"

section \<open>The validator\<close>

text \<open>
  The body of the loop of \<^verbatim>\<open>bpf_validate\<close> at index \<open>i\<close>: true when it does not return 0. The
  sums are 32-bit \<^verbatim>\<open>int\<close> sums and the comparisons are signed.
\<close>

definition bpf_check :: "nat \<Rightarrow> nat \<Rightarrow> bpf_insn \<Rightarrow> bool" where
  "bpf_check len i p =
     (let from = of_nat i + 1 :: u32; c = insn_code p in
      \<not> (BPF_CLASS c = BPF_JMP \<and>
          (if BPF_OP c = BPF_JA then sint (from + insn_k p) \<ge> int len
           else sint (from + ucast (insn_jt p)) \<ge> int len \<or> sint (from + ucast (insn_jf p)) \<ge> int len)) \<and>
      \<not> ((BPF_CLASS c = BPF_ST \<or> (BPF_CLASS c = BPF_LD \<and> c AND 0xe0 = BPF_MEM)) \<and>
          (sint (insn_k p) \<ge> BPF_MEMWORDS \<or> sint (insn_k p) < 0)) \<and>
      \<not> (c = BPF_ALU OR BPF_DIV OR BPF_K \<and> insn_k p = 0))"

text \<open>
  \<open>None\<close> is the read of \<^verbatim>\<open>f[len - 1]\<close> with \<^verbatim>\<open>len\<close> 0.
\<close>

definition bpf_validate :: "bpf_insn list \<Rightarrow> bool option" where
  "bpf_validate f =
     (if \<forall>i \<in> set [0..<length f]. bpf_check (length f) i (f ! i) then
        (if f = [] then None else Some (BPF_CLASS (insn_code (last f)) = BPF_RET))
      else Some False)"

section \<open>What the validator guarantees\<close>


definition is_branch :: "bpf_case \<Rightarrow> bool" where
  "is_branch c \<longleftrightarrow> c \<in> {JGT_K, JGE_K, JEQ_K, JSET_K, JGT_X, JGE_X, JEQ_X, JSET_X}"

definition is_pkt_load :: "bpf_case \<Rightarrow> bool" where
  "is_pkt_load c \<longleftrightarrow> c \<in> {LD_W_ABS, LD_H_ABS, LD_B_ABS, LD_W_IND, LD_H_IND, LD_B_IND, LDX_MSH_B}"

lemma bpf_cases_labels: "list_all (\<lambda>(c, x).
    (x = JMP_JA \<longrightarrow> BPF_CLASS c = BPF_JMP \<and> BPF_OP c = BPF_JA) \<and>
    (is_branch x \<longrightarrow> BPF_CLASS c = BPF_JMP \<and> BPF_OP c \<noteq> BPF_JA) \<and>
    (x = LD_MEM \<longrightarrow> BPF_CLASS c = BPF_LD \<and> c AND 0xe0 = BPF_MEM) \<and>
    (x = ST_M \<longrightarrow> BPF_CLASS c = BPF_ST) \<and>
    (x = DIV_K \<longrightarrow> c = BPF_ALU OR BPF_DIV OR BPF_K) \<and>
    (BPF_CLASS c = BPF_RET \<longrightarrow> x = RET_K \<or> x = RET_A)) bpf_cases"
  by code_simp

lemma bpf_cases_distinct: "distinct (map fst bpf_cases) \<and> distinct (map snd bpf_cases)"
  by code_simp

lemma bpf_decode_labels:
  assumes "bpf_decode c = Some x"
  shows "x = JMP_JA \<Longrightarrow> BPF_CLASS c = BPF_JMP \<and> BPF_OP c = BPF_JA"
    and "is_branch x \<Longrightarrow> BPF_CLASS c = BPF_JMP \<and> BPF_OP c \<noteq> BPF_JA"
    and "x = LD_MEM \<Longrightarrow> BPF_CLASS c = BPF_LD \<and> c AND 0xe0 = BPF_MEM"
    and "x = ST_M \<Longrightarrow> BPF_CLASS c = BPF_ST"
    and "x = DIV_K \<Longrightarrow> c = BPF_ALU OR BPF_DIV OR BPF_K"
    and "BPF_CLASS c = BPF_RET \<Longrightarrow> x = RET_K \<or> x = RET_A"
proof -
  have "(c, x) \<in> set bpf_cases" using assms by (simp add: bpf_decode_def map_of_SomeD)
  with bpf_cases_labels show
    "x = JMP_JA \<Longrightarrow> BPF_CLASS c = BPF_JMP \<and> BPF_OP c = BPF_JA"
    "is_branch x \<Longrightarrow> BPF_CLASS c = BPF_JMP \<and> BPF_OP c \<noteq> BPF_JA"
    "x = LD_MEM \<Longrightarrow> BPF_CLASS c = BPF_LD \<and> c AND 0xe0 = BPF_MEM"
    "x = ST_M \<Longrightarrow> BPF_CLASS c = BPF_ST"
    "x = DIV_K \<Longrightarrow> c = BPF_ALU OR BPF_DIV OR BPF_K"
    "BPF_CLASS c = BPF_RET \<Longrightarrow> x = RET_K \<or> x = RET_A"
    unfolding list_all_iff by blast+
qed

lemma bpf_exec_load:
  assumes "is_pkt_load c" and "bpf_exec c i p wl bl s = r"
  shows "r = Inr (Return 0) \<or> r = Inr (Fault BadRead) \<or>
         (\<exists>v. r = Inl (s\<lparr>st_A := v\<rparr>)) \<or> (\<exists>v. r = Inl (s\<lparr>st_X := v\<rparr>))"
  using assms unfolding is_pkt_load_def
  by (cases c) (auto simp: Let_def bpf_load_def of_mread_def of_read_def
      split: if_splits bpf_pkt.splits mread.splits option.splits)

lemma bpf_exec_next:
  assumes "bpf_exec c i p wl bl s = Inl s'"
  shows "length (st_mem s') = length (st_mem s) \<and> c \<noteq> RET_K \<and> c \<noteq> RET_A \<and>
     (c = JMP_JA \<and> st_pc s' = st_pc s + sint (insn_k i)
      \<or> is_branch c \<and> (st_pc s' = st_pc s + uint (insn_jt i) \<or> st_pc s' = st_pc s + uint (insn_jf i))
      \<or> c \<noteq> JMP_JA \<and> \<not> is_branch c \<and> st_pc s' = st_pc s)"
proof (cases "is_pkt_load c")
  case True
  from bpf_exec_load [OF True assms] True show ?thesis
    by (auto simp: is_pkt_load_def is_branch_def)
next
  case False
  with assms show ?thesis
    by (cases c) (auto simp: is_pkt_load_def is_branch_def jump_def branch_def split: if_splits)
qed

lemma bpf_exec_fault:
  assumes "bpf_exec c i p wl bl s = Inr (Fault e)"
  shows "(e = BadRead \<and> is_pkt_load c) \<or> (e = DivZero \<and> c = DIV_K \<and> insn_k i = 0) \<or>
     (e = BadMem \<and> c \<in> {LD_MEM, LDX_MEM, ST_M, STX_M} \<and> \<not> mem_ok (insn_k i))"
proof (cases "is_pkt_load c")
  case True
  from bpf_exec_load [OF True assms] True show ?thesis by auto
next
  case False
  with assms show ?thesis
    by (cases c) (auto simp: is_pkt_load_def jump_def branch_def split: if_splits)
qed


definition BPF_MAXINSNS :: nat where "BPF_MAXINSNS = 512"

definition forward_ja :: "bpf_insn list \<Rightarrow> bool" where
  "forward_ja f \<longleftrightarrow> (\<forall>i < length f. bpf_decode (insn_code (f ! i)) = Some JMP_JA \<longrightarrow>
     0 \<le> sint (insn_k (f ! i)) \<and> int i + 1 + sint (insn_k (f ! i)) < 2147483648)"

definition bpf_accepted :: "bpf_insn list \<Rightarrow> bool" where
  "bpf_accepted f \<longleftrightarrow> bpf_validate f = Some True \<and> length f \<le> BPF_MAXINSNS \<and> forward_ja f"

definition bpf_inv :: "bpf_insn list \<Rightarrow> bpf_state \<Rightarrow> bool" where
  "bpf_inv f s \<longleftrightarrow> bpf_accepted f \<and> 0 \<le> st_pc s \<and> st_pc s < int (length f)"

definition bpf_rank :: "bpf_insn list \<Rightarrow> bpf_state \<Rightarrow> nat" where
  "bpf_rank f s = length f - Suc (nat (st_pc s))"

lemma bpf_validate_check:
  assumes "bpf_validate f = Some True" and "i < length f"
  shows "bpf_check (length f) i (f ! i)"
  using assms by (auto simp: bpf_validate_def split: if_splits)

lemma bpf_validate_last:
  assumes "bpf_validate f = Some True"
  shows "f \<noteq> [] \<and> BPF_CLASS (insn_code (last f)) = BPF_RET"
  using assms by (auto simp: bpf_validate_def split: if_splits)

lemma from_plus_u8:
  assumes "i < 512"
  shows "sint (of_nat i + 1 + ucast (j :: u8) :: u32) = int i + 1 + uint j"
proof -
  have j: "unat j < 256" using unsigned_less [of j, where ?'a = nat] by simp
  have "unat (ucast j :: u32) = unat j"
    using j by (simp add: unsigned_ucast_eq take_bit_nat_eq_self)
  then have "unat (of_nat i + 1 + ucast j :: u32) = i + 1 + unat j"
    using assms j by (simp add: unat_word_ariths unat_of_nat)
  with assms j show ?thesis by (subst sint_small) simp_all
qed

lemma from_plus_k:
  assumes "i < 512" and "0 \<le> sint k" and "int i + 1 + sint k < 2147483648"
  shows "sint (of_nat i + 1 + k :: u32) = int i + 1 + sint k"
proof -
  have k: "sint k = int (unat k)" using assms(2) by (rule sint_nonneg_unat)
  then have lt: "i + 1 + unat k < 2147483648" using assms(3) by linarith
  then have "unat (of_nat i + 1 + k :: u32) = i + 1 + unat k"
    using assms(1) by (simp add: unat_word_ariths unat_of_nat)
  with lt k show ?thesis by (subst sint_small) simp_all
qed

text \<open>Every instruction of an accepted program keeps control inside the program and moves forward.\<close>

lemma bpf_turn_next:
  assumes inv: "bpf_inv f s" and step: "bpf_turn f p wl bl s = Inl s'"
  shows "bpf_inv f s' \<and> st_pc s < st_pc s' \<and> length (st_mem s') = length (st_mem s)"
proof -
  define n where "n = nat (st_pc s)"
  have n: "n < length f" "st_pc s = int n" "n < 512"
    using inv by (auto simp: bpf_inv_def bpf_accepted_def BPF_MAXINSNS_def n_def)
  have acc: "bpf_accepted f" and v: "bpf_validate f = Some True"
    using inv by (auto simp: bpf_inv_def bpf_accepted_def)
  let ?i = "f ! n"
  obtain c t where dec: "bpf_decode (insn_code ?i) = Some c"
    and ex: "bpf_exec c ?i p wl bl s = Inl t" and s': "s' = t\<lparr>st_pc := st_pc t + 1\<rparr>"
    using step n by (auto simp: bpf_turn_def Let_def split: option.splits sum.splits if_splits)
  have chk: "bpf_check (length f) n ?i" using v n(1) by (rule bpf_validate_check)
  have notlast: "Suc n < length f"
  proof (rule ccontr)
    assume "\<not> Suc n < length f"
    with n(1) have "?i = last f"
      by (metis Suc_lessI diff_Suc_1 last_conv_nth list.size(3) not_less_zero)
    with bpf_validate_last [OF v] bpf_decode_labels(6) [OF dec] bpf_exec_next [OF ex] show False
      by auto
  qed
  have "st_pc s \<le> st_pc t \<and> st_pc t + 1 < int (length f)"
    using bpf_exec_next [OF ex]
  proof (elim conjE disjE)
    assume c: "c = JMP_JA" and pc: "st_pc t = st_pc s + sint (insn_k ?i)"
    have "0 \<le> sint (insn_k ?i)" "int n + 1 + sint (insn_k ?i) < 2147483648"
      using acc n(1) dec c by (auto simp: bpf_accepted_def forward_ja_def)
    with from_plus_k [OF n(3)] chk bpf_decode_labels(1) [OF dec c] pc n(2) show ?thesis
      by (auto simp: bpf_check_def Let_def)
  next
    assume c: "is_branch c" and pc: "st_pc t = st_pc s + uint (insn_jt ?i)"
    from from_plus_u8 [OF n(3)] chk bpf_decode_labels(2) [OF dec c] pc n(2) show ?thesis
      by (auto simp: bpf_check_def Let_def)
  next
    assume c: "is_branch c" and pc: "st_pc t = st_pc s + uint (insn_jf ?i)"
    from from_plus_u8 [OF n(3)] chk bpf_decode_labels(2) [OF dec c] pc n(2) show ?thesis
      by (auto simp: bpf_check_def Let_def)
  next
    assume "st_pc t = st_pc s"
    with notlast n(2) show ?thesis by simp
  qed
  with s' acc n bpf_exec_next [OF ex] show ?thesis by (auto simp: bpf_inv_def)
qed

lemma bpf_turn_fault:
  assumes inv: "bpf_inv f s" and step: "bpf_turn f p wl bl s = Inr (Fault e)"
  shows "\<exists>i < length f. \<exists>c. bpf_decode (insn_code (f ! i)) = Some c \<and>
     (e = BadRead \<and> is_pkt_load c \<or> e = BadMem \<and> c \<in> {LDX_MEM, STX_M} \<and> \<not> mem_ok (insn_k (f ! i)))"
proof -
  define n where "n = nat (st_pc s)"
  have n: "n < length f" "st_pc s = int n" and v: "bpf_validate f = Some True"
    using inv by (auto simp: bpf_inv_def bpf_accepted_def n_def)
  let ?i = "f ! n"
  obtain c where dec: "bpf_decode (insn_code ?i) = Some c"
    and ex: "bpf_exec c ?i p wl bl s = Inr (Fault e)"
    using step n by (auto simp: bpf_turn_def Let_def split: option.splits sum.splits if_splits)
  have chk: "bpf_check (length f) n ?i" using v n(1) by (rule bpf_validate_check)
  from bpf_exec_fault [OF ex] bpf_decode_labels(3,4,5) [OF dec] chk
  have "e = BadRead \<and> is_pkt_load c \<or> e = BadMem \<and> c \<in> {LDX_MEM, STX_M} \<and> \<not> mem_ok (insn_k ?i)"
    by (auto simp: bpf_check_def Let_def mem_ok_def)
  with n(1) dec show ?thesis by blast
qed

interpretation bpf_loop: ranked_loop "bpf_turn f p wirelen buflen" "bpf_inv f" "bpf_rank f"
  "\<lambda>r. \<forall>e. r = Fault e \<longrightarrow> (\<exists>i < length f. \<exists>c. bpf_decode (insn_code (f ! i)) = Some c \<and>
     (e = BadRead \<and> is_pkt_load c \<or> e = BadMem \<and> c \<in> {LDX_MEM, STX_M} \<and> \<not> mem_ok (insn_k (f ! i))))"
  for f p wirelen buflen
proof
  fix s s' assume a: "bpf_inv f s" "bpf_turn f p wirelen buflen s = Inl s'"
  from bpf_turn_next [OF a] a(1) show "bpf_inv f s' \<and> bpf_rank f s' < bpf_rank f s"
    by (auto simp: bpf_inv_def bpf_rank_def intro!: diff_less_mono2)
next
  fix s r assume "bpf_inv f s" "bpf_turn f p wirelen buflen s = Inr r"
  then show "\<forall>e. r = Fault e \<longrightarrow> (\<exists>i < length f. \<exists>c. bpf_decode (insn_code (f ! i)) = Some c \<and>
     (e = BadRead \<and> is_pkt_load c \<or> e = BadMem \<and> c \<in> {LDX_MEM, STX_M} \<and> \<not> mem_ok (insn_k (f ! i))))"
    using bpf_turn_fault by blast
qed

definition bpf_mem_bounded :: "bpf_insn list \<Rightarrow> bool" where
  "bpf_mem_bounded f \<longleftrightarrow> (\<forall>i < length f. \<forall>c. bpf_decode (insn_code (f ! i)) = Some c \<longrightarrow>
     c = LDX_MEM \<or> c = STX_M \<longrightarrow> mem_ok (insn_k (f ! i)))"

definition bpf_abs_loads :: "bpf_insn list \<Rightarrow> bool" where
  "bpf_abs_loads f \<longleftrightarrow> (\<forall>i < length f. \<forall>c. bpf_decode (insn_code (f ! i)) = Some c \<longrightarrow> is_pkt_load c \<longrightarrow>
     c \<in> {LD_W_ABS, LD_H_ABS, LD_B_ABS, LDX_MSH_B} \<and> unat (insn_k (f ! i)) < 2147483640)"

lemma unat_plus_small:
  "unat (k :: u32) < 2147483640 \<Longrightarrow> unat (k + 4) = unat k + 4 \<and> unat (k + 2) = unat k + 2"
  by (simp add: unat_word_ariths)

lemma bpf_abs_load_flat:
  assumes "c \<in> {LD_W_ABS, LD_H_ABS, LD_B_ABS, LDX_MSH_B}" and "unat (insn_k i) < 2147483640"
    and "bl \<noteq> 0" and "unat bl \<le> length b"
  shows "bpf_exec c i (Flat b) wl bl s \<noteq> Inr (Fault e)"
proof -
  have k: "sint (insn_k i) = int (unat (insn_k i))" using assms(2) by (intro sint_small) simp
  have le: "unat (insn_k i) < length b" if "insn_k i < bl"
    using that assms(4) by (simp add: word_less_nat_alt)
  have le4: "unat (insn_k i) + 4 \<le> length b" if "insn_k i + 4 \<le> bl"
    using that assms(4) unat_plus_small [OF assms(2)] by (simp add: word_le_nat_alt)
  have le2: "unat (insn_k i) + 2 \<le> length b" if "insn_k i + 2 \<le> bl"
    using that assms(4) unat_plus_small [OF assms(2)] by (simp add: word_le_nat_alt)
  from assms(1,3) le le2 le4 show ?thesis
    by (auto simp: Let_def bpf_load_def of_read_def k byte_at_def EXTRACT_LONG_def
        EXTRACT_SHORT_def word_of_def half_of_def not_less not_le split: if_splits option.splits simp del: of_nat_unat)
qed


definition bpf_flat_inv :: "bpf_insn list \<Rightarrow> u8 list \<Rightarrow> u32 \<Rightarrow> bpf_state \<Rightarrow> bool" where
  "bpf_flat_inv f b bl s \<longleftrightarrow> bpf_inv f s \<and> bpf_mem_bounded f \<and> bpf_abs_loads f \<and>
     bl \<noteq> 0 \<and> unat bl \<le> length b"

lemma bpf_flat_turn_done:
  assumes inv: "bpf_flat_inv f b bl s" and step: "bpf_turn f (Flat b) wl bl s = Inr r"
  shows "\<exists>v. r = Return v"
proof (cases r)
  case (Fault e)
  define n where "n = nat (st_pc s)"
  have n: "n < length f" "st_pc s = int n" and v: "bpf_validate f = Some True"
    using inv by (auto simp: bpf_flat_inv_def bpf_inv_def bpf_accepted_def n_def)
  obtain c where dec: "bpf_decode (insn_code (f ! n)) = Some c"
    and ex: "bpf_exec c (f ! n) (Flat b) wl bl s = Inr (Fault e)"
    using step n Fault by (auto simp: bpf_turn_def Let_def split: option.splits sum.splits if_splits)
  have chk: "bpf_check (length f) n (f ! n)" using v n(1) by (rule bpf_validate_check)
  have mem: "c = LDX_MEM \<or> c = STX_M \<Longrightarrow> mem_ok (insn_k (f ! n))"
    and abs: "is_pkt_load c \<Longrightarrow>
      c \<in> {LD_W_ABS, LD_H_ABS, LD_B_ABS, LDX_MSH_B} \<and> unat (insn_k (f ! n)) < 2147483640"
    and bl: "bl \<noteq> 0" "unat bl \<le> length b"
    using inv n(1) dec by (auto simp: bpf_flat_inv_def bpf_mem_bounded_def bpf_abs_loads_def)
  have "\<not> is_pkt_load c"
    using abs bpf_abs_load_flat [OF _ _ bl] ex by blast
  with bpf_exec_fault [OF ex] bpf_decode_labels(3,4,5) [OF dec] chk mem show ?thesis
    by (auto simp: bpf_check_def Let_def mem_ok_def)
qed simp

interpretation bpf_flat_loop: ranked_loop "bpf_turn f (Flat b) wirelen buflen"
  "bpf_flat_inv f b buflen" "bpf_rank f" "\<lambda>r. \<exists>v. r = Return v"
  for f b wirelen buflen
proof
  fix s s' assume a: "bpf_flat_inv f b buflen s" "bpf_turn f (Flat b) wirelen buflen s = Inl s'"
  then have "bpf_inv f s" by (simp add: bpf_flat_inv_def)
  from bpf_loop.body_next [OF this a(2)] a(1)
  show "bpf_flat_inv f b buflen s' \<and> bpf_rank f s' < bpf_rank f s" by (simp add: bpf_flat_inv_def)
qed (rule bpf_flat_turn_done)

lemma bpf_start:
  assumes "bpf_accepted f"
  shows "bpf_inv f (s\<lparr>st_pc := 0\<rparr>) \<and> bpf_rank f (s\<lparr>st_pc := 0\<rparr>) < length f"
  using assms bpf_validate_last [of f] by (auto simp: bpf_inv_def bpf_rank_def bpf_accepted_def)

section \<open>Properties\<close>

text \<open>
  Property C5. A program that \<^verbatim>\<open>bpf_validate\<close> accepts, of at most \<^verbatim>\<open>BPF_MAXINSNS\<close>
  instructions and whose unconditional jumps go forward, returns after at most as many turns as
  it has instructions, on every packet and from every state of the locals. It never fetches an
  instruction outside the program and never divides by zero; the only faults left are a packet
  load, or an index register load or store with an address outside the scratch memory.
\<close>

theorem bpf_validated_returns:
  assumes "bpf_validate f = Some True" and "length f \<le> BPF_MAXINSNS" and "forward_ja f"
    and "length f \<le> fuel"
  shows "\<exists>r. bpf_filter fuel (Some f) p wirelen buflen s0 = Some r \<and>
    (\<forall>e. r = Fault e \<longrightarrow> (\<exists>i < length f. \<exists>c. bpf_decode (insn_code (f ! i)) = Some c \<and>
      (e = BadRead \<and> is_pkt_load c \<or> e = BadMem \<and> c \<in> {LDX_MEM, STX_M} \<and> \<not> mem_ok (insn_k (f ! i)))))"
proof -
  have "bpf_accepted f" using assms by (simp add: bpf_accepted_def)
  from bpf_start [OF this, of s0] assms(4)
  have "bpf_inv f (s0\<lparr>st_pc := 0\<rparr>)" and "bpf_rank f (s0\<lparr>st_pc := 0\<rparr>) < fuel" by auto
  from bpf_loop.run_returns [OF this, of p wirelen buflen] show ?thesis
    by (simp add: bpf_filter_def)
qed

definition stmt :: "u16 \<Rightarrow> u32 \<Rightarrow> bpf_insn" where
  "stmt c k = \<lparr>insn_code = c, insn_jt = 0, insn_jf = 0, insn_k = k\<rparr>"

definition example_filter :: "bpf_insn list" where
  "example_filter =
    [stmt 0x28 12, \<lparr>insn_code = 0x15, insn_jt = 0, insn_jf = 1, insn_k = 0x800\<rparr>, stmt 0x06 68, stmt 0x06 0]"

definition example_state :: bpf_state where
  "example_state = \<lparr>st_pc = 0, st_A = 0, st_X = 0, st_mem = replicate 16 0\<rparr>"

lemma example_accepted:
  "bpf_validate example_filter = Some True \<and> length example_filter \<le> BPF_MAXINSNS \<and>
   forward_ja example_filter"
  by code_simp

theorem bpf_validated_returns_witness:
  "\<exists>r. bpf_filter 4 (Some example_filter) (Flat (replicate 60 0)) 60 60 example_state = Some r"
proof -
  have "length example_filter \<le> 4" by (simp add: example_filter_def)
  with bpf_validated_returns [of example_filter 4] example_accepted show ?thesis by blast
qed

text \<open>
  Property C6. On a flat buffer that holds at least the \<^verbatim>\<open>buflen\<close> bytes it claims, with \<^verbatim>\<open>buflen\<close> not 0 (which
  means an mbuf chain), an accepted program of at most \<^verbatim>\<open>BPF_MAXINSNS\<close> instructions whose unconditional jumps
  go forward, whose packet loads are absolute with offsets below \<open>2\<^sup>3\<^sup>1 - 8\<close>, and whose index
  register memory accesses are in range, always returns a value: no memory access leaves the
  program, the scratch memory or the packet. Programs outside these conditions are accepted too, and
  fault or loop (\<open>bpf_word_load_wraps\<close>, \<open>bpf_validate_accepts_loop\<close>).
\<close>

theorem bpf_flat_safe:
  assumes "bpf_validate f = Some True" and "length f \<le> BPF_MAXINSNS" and "forward_ja f"
    and "bpf_mem_bounded f" and "bpf_abs_loads f"
    and "buflen \<noteq> 0" and "unat buflen \<le> length b" and "length f \<le> fuel"
  shows "\<exists>v. bpf_filter fuel (Some f) (Flat b) wirelen buflen s0 = Some (Return v)"
proof -
  have acc: "bpf_accepted f" using assms by (simp add: bpf_accepted_def)
  from bpf_start [OF acc, of s0] assms
  have "bpf_flat_inv f b buflen (s0\<lparr>st_pc := 0\<rparr>)" and "bpf_rank f (s0\<lparr>st_pc := 0\<rparr>) < fuel"
    by (auto simp: bpf_flat_inv_def)
  from bpf_flat_loop.run_returns [OF this, of wirelen] show ?thesis
    by (auto simp: bpf_filter_def)
qed

lemma example_bounded: "bpf_mem_bounded example_filter \<and> bpf_abs_loads example_filter"
proof -
  have "list_all (\<lambda>i. case bpf_decode (insn_code i) of None \<Rightarrow> True | Some c \<Rightarrow>
      c \<noteq> LDX_MEM \<and> c \<noteq> STX_M \<and> (is_pkt_load c \<longrightarrow>
       (c = LD_W_ABS \<or> c = LD_H_ABS) \<and> unat (insn_k i) < 2147483640)) example_filter"
    by (simp add: example_filter_def stmt_def bpf_decode_def bpf_cases_def code_labels is_pkt_load_def)
  then show ?thesis
    by (auto simp: bpf_mem_bounded_def bpf_abs_loads_def list_all_length split: option.splits)
qed

theorem bpf_flat_safe_witness:
  "\<exists>v. bpf_filter 4 (Some example_filter) (Flat (replicate 60 0)) 60 60 example_state
     = Some (Return v)"
proof -
  have "length example_filter \<le> 4" by (simp add: example_filter_def)
  with bpf_flat_safe [of example_filter 60 "replicate 60 0" 4] example_accepted example_bounded
  show ?thesis by simp
qed

lemma mindex_prefix:
  "j < length b \<Longrightarrow> mindex (pre @ b # post) (int (length (concat pre)) + int j) = Some (b, post, int j)"
  by (induction pre) (auto simp: algebra_simps)

lemma byte_at_append: "0 \<le> i \<Longrightarrow> byte_at (pre @ b) (int (length pre) + i) = byte_at b i"
  by (auto simp: byte_at_def nth_append nat_add_distrib)

lemma byte_at_prefix: "0 \<le> i \<Longrightarrow> i < int (length b) \<Longrightarrow> byte_at (b @ c) i = byte_at b i"
  by (auto simp: byte_at_def nth_append nat_less_iff)

lemma EXTRACT_LONG_append:
  "0 \<le> i \<Longrightarrow> EXTRACT_LONG (pre @ b) (int (length pre) + i) = EXTRACT_LONG b i"
  by (simp add: EXTRACT_LONG_def byte_at_append add.assoc)

lemma EXTRACT_LONG_Some: "0 \<le> i \<Longrightarrow> i + 4 \<le> int (length b) \<Longrightarrow> \<exists>w. EXTRACT_LONG b i = Some w"
  by (simp add: EXTRACT_LONG_def byte_at_def word_of_def)

text \<open>
  \<^verbatim>\<open>m_xword\<close> gives the big-endian word at an offset of the chain's data when
  the word lies inside one mbuf, or when it starts at the first byte of an mbuf and ends in the
  next one.
\<close>

lemma m_xword_concat:
  assumes "m = pre @ b # post" and "j < length b"
    and "j + 4 \<le> length b \<or> j = 0 \<and> post \<noteq> [] \<and> 4 \<le> length b + length (hd post)"
  shows "\<exists>w. EXTRACT_LONG (concat m) (int (length (concat pre) + j)) = Some w \<and>
             m_xword m (int (length (concat pre) + j)) = MVal w"
proof -
  have idx: "EXTRACT_LONG (concat m) (int (length (concat pre) + j)) = EXTRACT_LONG (b @ concat post) (int j)"
    using EXTRACT_LONG_append [of "int j" "concat pre" "b @ concat post"] assms(1) by simp
  have len: "int j + 4 \<le> int (length (b @ concat post))"
    using assms(3) by (cases post) auto
  then obtain w where w: "EXTRACT_LONG (b @ concat post) (int j) = Some w"
    using EXTRACT_LONG_Some [of "int j" "b @ concat post"] by auto
  have "m_xword m (int (length (concat pre) + j)) = MVal w"
  proof (cases "j + 4 \<le> length b")
    case True
    then have "EXTRACT_LONG b (int j) = Some w"
      using w by (simp add: EXTRACT_LONG_def byte_at_prefix)
    with True assms(1,2) show ?thesis
      by (simp add: m_xword_def mindex_prefix mval_def)
  next
    case False
    then obtain m0 ms where post: "post = m0 # ms" and j: "j = 0" and l: "4 \<le> length b + length m0"
      and b: "length b < 4"
      using assms(3) by (cases post) auto
    have tail: "byte_at (b @ m0 @ concat ms) i = byte_at m0 (i - int (length b))"
      if "int (length b) \<le> i" "i < int (length b + length m0)" for i
      using that byte_at_append [of "i - int (length b)" b "m0 @ concat ms"]
        byte_at_prefix [of "i - int (length b)" m0 "concat ms"] by simp
    have ix: "mindex (pre @ b # m0 # ms) (int (length (concat pre))) = Some (b, m0 # ms, 0)"
      using mindex_prefix [of 0 b pre] assms(2) j by simp
    have m0: "m0 \<noteq> []" using l b by auto
    consider "length b = 1" | "length b = 2" | "length b = 3" using b assms(2) by linarith
    then show ?thesis
    proof cases
      case 1
      with w post j l m0 tail [of 1] tail [of 2] tail [of 3] show ?thesis
        by (simp add: m_xword_def assms(1) ix Let_def mval_def
            EXTRACT_LONG_def byte_at_prefix)
    next
      case 2
      with w post j l m0 tail [of 2] tail [of 3] show ?thesis
        by (simp add: m_xword_def assms(1) ix Let_def mval_def
            EXTRACT_LONG_def byte_at_prefix)
    next
      case 3
      with w post j l m0 tail [of 3] show ?thesis
        by (simp add: m_xword_def assms(1) ix Let_def mval_def
            EXTRACT_LONG_def byte_at_prefix)
    qed
  qed
  with idx w show ?thesis by simp
qed

theorem m_xword_concat_example:
  "\<exists>w. EXTRACT_LONG (concat [[7], [1, 2], [3, 4, 5]]) 1 = Some w \<and> m_xword [[7], [1, 2], [3, 4, 5]] 1 = MVal w"
  using m_xword_concat [of "[[7], [1, 2], [3, 4, 5]]" "[[7]]" "[1, 2]" "[[3, 4, 5]]" 0] by simp

text \<open>
  When the word starts after the first byte of an mbuf and ends in the next one, the
  straddling cases of \<^verbatim>\<open>m_xword\<close> index the data pointer with the offset a second time and
  read past the mbuf's valid bytes, whatever the packet.
\<close>

lemma m_xword_straddle_fault:
  assumes "0 < j" and "j < length b" and "length b < j + 4" and "j + 4 \<le> length b + length m0"
  shows "m_xword (pre @ b # m0 # post) (int (length (concat pre) + j)) = MFault"
proof -
  have out: "byte_at b i = None" if "int (length b) \<le> i" for i
    using that by (simp add: byte_at_def)
  consider "length b = j + 1" | "length b = j + 2" | "length b = j + 3" using assms by linarith
  moreover have "m0 \<noteq> []" using assms by auto
  ultimately show ?thesis
    using assms out
    by cases (simp_all add: m_xword_def mindex_prefix Let_def mval_def word_of_def split: option.splits)
qed

theorem m_xword_straddle_fault_example: "m_xword [[1, 2], [3, 4, 5]] 1 = MFault"
  using m_xword_straddle_fault [of 1 "[1, 2]" "[3, 4, 5]" "[]" "[]"] by simp

definition ja_loop :: "bpf_insn list" where
  "ja_loop = [stmt (BPF_JMP OR BPF_JA) (-1), stmt (BPF_RET OR BPF_K) 0]"

text \<open>
  The validator's promise that each jump be forward does not hold for unconditional
  jumps: it accepts a program whose first instruction jumps to itself, and the interpreter then
  never returns, whatever the packet, the fuel and the initial locals.
\<close>

lemma bpf_validate_accepts_loop:
  "bpf_validate ja_loop = Some True \<and> bpf_filter fuel (Some ja_loop) p wirelen buflen s0 = None"
proof -
  have v: "bpf_validate ja_loop = Some True" by code_simp
  have dec: "bpf_decode (BPF_JMP OR BPF_JA) = Some JMP_JA" by code_simp
  have "run_fuel (bpf_turn ja_loop p wirelen buflen) fuel (s0\<lparr>st_pc := 0\<rparr>) = None"
  proof (rule run_fuel_stuck [where P = "\<lambda>s. st_pc s = 0"])
    fix s :: bpf_state assume "st_pc s = 0"
    with dec show "\<exists>s'. bpf_turn ja_loop p wirelen buflen s = Inl s' \<and> st_pc s' = 0"
      by (auto simp: bpf_turn_def ja_loop_def stmt_def Let_def jump_def)
  qed simp
  with v show ?thesis by (simp add: bpf_filter_def)
qed

text \<open>
  The validator checks the scratch memory address of \<^verbatim>\<open>BPF_LD|BPF_MEM\<close> and
  \<^verbatim>\<open>BPF_ST\<close> only: for every address outside the memory it accepts the program that loads the
  index register from it, or stores the index register to it, and running it leaves \<^verbatim>\<open>mem\<close>.
\<close>

lemma bpf_validate_misses_index_memory:
  assumes "\<not> mem_ok k" and "code = BPF_LDX OR BPF_MEM \<or> code = BPF_STX"
  shows "bpf_validate [stmt code k, stmt (BPF_RET OR BPF_K) 0] = Some True \<and>
    bpf_filter 1 (Some [stmt code k, stmt (BPF_RET OR BPF_K) 0]) p wirelen buflen s0 = Some (Fault BadMem)"
proof -
  have dec: "bpf_decode (BPF_LDX OR BPF_MEM) = Some LDX_MEM" "bpf_decode BPF_STX = Some STX_M"
    by code_simp+
  have "bpf_validate [stmt code k, stmt (BPF_RET OR BPF_K) 0] = Some True"
    using assms(2) by (auto simp: bpf_validate_def bpf_check_def stmt_def Let_def code_labels upt_rec)
  moreover have "bpf_filter 1 (Some [stmt code k, stmt (BPF_RET OR BPF_K) 0]) p wirelen buflen s0
      = Some (Fault BadMem)"
    using assms dec by (auto simp: bpf_filter_def bpf_turn_def stmt_def Let_def)
  ultimately show ?thesis by simp
qed

theorem bpf_validate_misses_index_memory_example:
  "bpf_validate [stmt (BPF_LDX OR BPF_MEM) 16, stmt (BPF_RET OR BPF_K) 0] = Some True"
proof -
  have "\<not> mem_ok 16" by (simp add: mem_ok_def code_labels)
  with bpf_validate_misses_index_memory [of 16 "BPF_LDX OR BPF_MEM"] show ?thesis by simp
qed

text \<open>
  The length test of a word load adds the width in 32 bits, so it wraps for the four
  largest offsets: with such an offset an accepted program reads before the start of every flat
  buffer that holds at least as many bytes as the wrapped sum.
\<close>

lemma bpf_word_load_wraps:
  assumes "4294967292 \<le> unat k" and "unat k + 4 \<le> 4294967296 + unat buflen"
  shows "bpf_validate [stmt (BPF_LD OR BPF_W OR BPF_ABS) k, stmt (BPF_RET OR BPF_A) 0] = Some True \<and>
    bpf_filter 1 (Some [stmt (BPF_LD OR BPF_W OR BPF_ABS) k, stmt (BPF_RET OR BPF_A) 0])
      (Flat b) wirelen buflen s0 = Some (Fault BadRead)"
proof -
  have dec: "bpf_decode (BPF_LD OR BPF_W OR BPF_ABS) = Some LD_W_ABS" by code_simp
  have neg: "sint k < 0" using assms(1) sint_big [of k] unat_bound32 [of k] by linarith
  have "unat (k + 4) = (unat k + 4) mod 4294967296" by (simp add: unat_word_ariths)
  also have "\<dots> = unat k + 4 - 4294967296"
    using assms(1) unat_bound32 [of k] by (subst le_mod_geq) auto
  finally have "\<not> buflen < k + 4" using assms(2) by (simp add: word_less_nat_alt)
  with neg dec have "bpf_filter 1 (Some [stmt (BPF_LD OR BPF_W OR BPF_ABS) k, stmt (BPF_RET OR BPF_A) 0])
      (Flat b) wirelen buflen s0 = Some (Fault BadRead)"
    by (simp add: bpf_filter_def bpf_turn_def stmt_def bpf_load_def of_read_def EXTRACT_LONG_def
        byte_at_def word_of_def)
  moreover have "bpf_validate [stmt (BPF_LD OR BPF_W OR BPF_ABS) k, stmt (BPF_RET OR BPF_A) 0] = Some True"
    by (auto simp: bpf_validate_def bpf_check_def stmt_def Let_def code_labels upt_rec)
  ultimately show ?thesis by simp
qed

lemma bpf_word_load_wraps_example:
  "bpf_filter 1 (Some [stmt (BPF_LD OR BPF_W OR BPF_ABS) (-4), stmt (BPF_RET OR BPF_A) 0])
     (Flat (replicate 60 0)) 60 60 example_state = Some (Fault BadRead)"
  using bpf_word_load_wraps [of "-4" 60 "replicate 60 0" 60 example_state] by simp

end
