(* ===== verification/Cred.thy ===== *)
theory Cred
  imports Prelude
begin

text \<open>
  User and group identities, the credential part of \<^verbatim>\<open>sys/kern/kern_prot.c\<close> (built with
  \<^verbatim>\<open>COMPAT_43\<close>) over \<^verbatim>\<open>struct ucred\<close> of \<^verbatim>\<open>sys/sys/ucred.h\<close> and \<^verbatim>\<open>struct pcred\<close> of
  \<^verbatim>\<open>sys/sys/proc.h\<close>.

  A \<^verbatim>\<open>ucred\<close> is shared by the processes and open files that inherit it and carries a 16-bit
  reference count; a process that changes its identity must not change what the others see. The
  model keeps the sharing: credentials live at addresses of a heap, a process holds the address
  of one, and \<^verbatim>\<open>crcopy\<close> makes a private copy when the count is above one. The address that
  \<^verbatim>\<open>MALLOC\<close> returns is an argument. What \<^verbatim>\<open>copyin\<close> delivers from user memory, or the error it
  fails with, is an argument as well.
\<close>

section \<open>Credentials and processes\<close>

definition NGROUPS :: nat where "NGROUPS = 16"

definition ASU :: u16 where "ASU = 2"

record ucred =
  cr_ref :: u16
  cr_uid :: int
  cr_ngroups :: int
  cr_groups :: "int list"

record pcred =
  pc_ucred :: nat
  p_ruid :: int
  p_svuid :: int
  p_rgid :: int
  p_svgid :: int

record cproc =
  p_cred :: pcred
  p_acflag :: u16

type_synonym cred_heap = "nat \<Rightarrow> ucred option"

record kcred =
  kc_heap :: cred_heap
  kc_proc :: "nat \<Rightarrow> cproc option"

definition proc_at :: "kcred \<Rightarrow> nat \<Rightarrow> cproc" where
  "proc_at k p = the (kc_proc k p)"

text \<open>\<^verbatim>\<open>p->p_ucred\<close>, that is \<^verbatim>\<open>p->p_cred->pc_ucred\<close>, dereferenced.\<close>

definition p_ucred :: "kcred \<Rightarrow> nat \<Rightarrow> ucred" where
  "p_ucred k p = the (kc_heap k (pc_ucred (p_cred (proc_at k p))))"

section \<open>Reference-counted credentials\<close>

definition zero_cred :: ucred where
  "zero_cred = \<lparr>cr_ref = 0, cr_uid = 0, cr_ngroups = 0, cr_groups = replicate NGROUPS 0\<rparr>"

definition crget :: "nat \<Rightarrow> cred_heap \<Rightarrow> cred_heap" where
  "crget new h = h(new \<mapsto> zero_cred\<lparr>cr_ref := 1\<rparr>)"

definition crfree :: "nat \<Rightarrow> cred_heap \<Rightarrow> cred_heap" where
  "crfree a h = (let r = cr_ref (the (h a)) - 1 in
     if r \<noteq> 0 then h(a \<mapsto> (the (h a))\<lparr>cr_ref := r\<rparr>) else h(a := None))"

definition crcopy :: "nat \<Rightarrow> nat \<Rightarrow> cred_heap \<Rightarrow> nat \<times> cred_heap" where
  "crcopy new cr h =
     (if cr_ref (the (h cr)) = 1 then (cr, h)
      else (let h1 = crget new h;
                h2 = h1(new \<mapsto> the (h1 cr));
                h3 = crfree cr h2
            in (new, h3(new \<mapsto> (the (h3 new))\<lparr>cr_ref := 1\<rparr>))))"

definition crdup :: "nat \<Rightarrow> nat \<Rightarrow> cred_heap \<Rightarrow> cred_heap" where
  "crdup new cr h = (let h1 = crget new h; h2 = h1(new \<mapsto> the (h1 cr))
     in h2(new \<mapsto> (the (h2 new))\<lparr>cr_ref := 1\<rparr>))"

definition crhold :: "nat \<Rightarrow> cred_heap \<Rightarrow> cred_heap" where
  "crhold cr h = h(cr \<mapsto> (the (h cr))\<lparr>cr_ref := cr_ref (the (h cr)) + 1\<rparr>)"

section \<open>Privilege and group membership\<close>

text \<open>The error, if any, and the new accounting flags.\<close>

definition suser :: "ucred \<Rightarrow> u16 \<Rightarrow> errno option \<times> u16" where
  "suser cred acflag =
     (if cr_uid cred = 0 then (None, acflag OR ASU) else (Some EPERM, acflag))"

fun member_upto :: "int \<Rightarrow> int list \<Rightarrow> nat \<Rightarrow> bool" where
  "member_upto gid gs 0 = False"
| "member_upto gid [] (Suc n) = False"
| "member_upto gid (g # gs) (Suc n) = (if g = gid then True else member_upto gid gs n)"

definition groupmember :: "int \<Rightarrow> ucred \<Rightarrow> bool" where
  "groupmember gid cred = member_upto gid (cr_groups cred) (nat (cr_ngroups cred))"

section \<open>System calls\<close>

text \<open>
  \<^verbatim>\<open>suser(pc->pc_ucred, &p->p_acflag)\<close>, evaluated only when \<open>needed\<close>: the error and the state
  with the accounting flag set.
\<close>

definition need_suser :: "bool \<Rightarrow> nat \<Rightarrow> kcred \<Rightarrow> errno option \<times> kcred" where
  "need_suser needed p k =
     (if \<not> needed then (None, k)
      else (case suser (p_ucred k p) (p_acflag (proc_at k p)) of
              (e, fl) \<Rightarrow> (e, k\<lparr>kc_proc := (kc_proc k)(p \<mapsto> (proc_at k p)\<lparr>p_acflag := fl\<rparr>)\<rparr>)))"

text \<open>
  \<^verbatim>\<open>pc->pc_ucred = crcopy(pc->pc_ucred)\<close> and then assignments to the private copy and to
  the \<^verbatim>\<open>pcred\<close>.
\<close>

definition change_cred :: "nat \<Rightarrow> nat \<Rightarrow> (ucred \<Rightarrow> ucred) \<Rightarrow> (pcred \<Rightarrow> pcred) \<Rightarrow> kcred \<Rightarrow> kcred" where
  "change_cred new p g f k =
     (let pr = proc_at k p; (a, h) = crcopy new (pc_ucred (p_cred pr)) (kc_heap k) in
      k\<lparr>kc_heap := h(a \<mapsto> g (the (h a))),
        kc_proc := (kc_proc k)(p \<mapsto> pr\<lparr>p_cred := f ((p_cred pr)\<lparr>pc_ucred := a\<rparr>)\<rparr>)\<rparr>)"

definition set_group0 :: "int \<Rightarrow> ucred \<Rightarrow> ucred" where
  "set_group0 g c = c\<lparr>cr_groups := (cr_groups c)[0 := g]\<rparr>"

definition getuid :: "nat \<Rightarrow> kcred \<Rightarrow> int \<times> int" where
  "getuid p k = (p_ruid (p_cred (proc_at k p)), cr_uid (p_ucred k p))"

definition geteuid :: "nat \<Rightarrow> kcred \<Rightarrow> int" where
  "geteuid p k = cr_uid (p_ucred k p)"

definition getgid :: "nat \<Rightarrow> kcred \<Rightarrow> int \<times> int" where
  "getgid p k = (p_rgid (p_cred (proc_at k p)), cr_groups (p_ucred k p) ! 0)"

definition getegid :: "nat \<Rightarrow> kcred \<Rightarrow> int" where
  "getegid p k = cr_groups (p_ucred k p) ! 0"

text \<open>
  The count and, unless the caller only asks for it, the groups given to \<^verbatim>\<open>copyout\<close>, which may
  fail with \<open>copyout\<close>.
\<close>

definition getgroups :: "nat \<Rightarrow> nat \<Rightarrow> errno option \<Rightarrow> kcred \<Rightarrow> errno + int \<times> int list" where
  "getgroups p gidsetsize copyout k =
     (let c = p_ucred k p in
      if gidsetsize = 0 then Inr (cr_ngroups c, [])
      else if int gidsetsize < cr_ngroups c then Inl EINVAL
      else (case copyout of
              Some e \<Rightarrow> Inl e
            | None \<Rightarrow> Inr (cr_ngroups c, take (nat (cr_ngroups c)) (cr_groups c))))"

definition setuid :: "nat \<Rightarrow> nat \<Rightarrow> int \<Rightarrow> kcred \<Rightarrow> errno option \<times> kcred" where
  "setuid new p uid k =
     (case need_suser (uid \<noteq> p_ruid (p_cred (proc_at k p))) p k of
        (Some e, k') \<Rightarrow> (Some e, k')
      | (None, k') \<Rightarrow> (None, change_cred new p (\<lambda>c. c\<lparr>cr_uid := uid\<rparr>)
                              (\<lambda>pc. pc\<lparr>p_ruid := uid, p_svuid := uid\<rparr>) k'))"

definition seteuid :: "nat \<Rightarrow> nat \<Rightarrow> int \<Rightarrow> kcred \<Rightarrow> errno option \<times> kcred" where
  "seteuid new p euid k =
     (let pc = p_cred (proc_at k p) in
      case need_suser (euid \<noteq> p_ruid pc \<and> euid \<noteq> p_svuid pc) p k of
        (Some e, k') \<Rightarrow> (Some e, k')
      | (None, k') \<Rightarrow> (None, change_cred new p (\<lambda>c. c\<lparr>cr_uid := euid\<rparr>) id k'))"

definition setgid :: "nat \<Rightarrow> nat \<Rightarrow> int \<Rightarrow> kcred \<Rightarrow> errno option \<times> kcred" where
  "setgid new p gid k =
     (case need_suser (gid \<noteq> p_rgid (p_cred (proc_at k p))) p k of
        (Some e, k') \<Rightarrow> (Some e, k')
      | (None, k') \<Rightarrow> (None, change_cred new p (set_group0 gid)
                              (\<lambda>pc. pc\<lparr>p_rgid := gid, p_svgid := gid\<rparr>) k'))"

definition setegid :: "nat \<Rightarrow> nat \<Rightarrow> int \<Rightarrow> kcred \<Rightarrow> errno option \<times> kcred" where
  "setegid new p egid k =
     (let pc = p_cred (proc_at k p) in
      case need_suser (egid \<noteq> p_rgid pc \<and> egid \<noteq> p_svgid pc) p k of
        (Some e, k') \<Rightarrow> (Some e, k')
      | (None, k') \<Rightarrow> (None, change_cred new p (set_group0 egid) id k'))"

definition osetreuid :: "nat \<Rightarrow> nat \<Rightarrow> int \<Rightarrow> int \<Rightarrow> kcred \<Rightarrow> errno option \<times> kcred" where
  "osetreuid new p uruid ueuid k =
     (let pc = p_cred (proc_at k p);
          ruid = (if uruid = -1 then p_ruid pc else uruid) in
      case need_suser (ruid \<noteq> p_ruid pc \<and> ruid \<noteq> cr_uid (p_ucred k p)) p k of
        (Some e, k') \<Rightarrow> (Some e, k')
      | (None, k') \<Rightarrow>
          (let euid = (if ueuid = -1 then cr_uid (p_ucred k p) else ueuid) in
           case need_suser (euid \<noteq> cr_uid (p_ucred k p) \<and> euid \<noteq> p_ruid pc \<and> euid \<noteq> p_svuid pc) p k' of
             (Some e, k'') \<Rightarrow> (Some e, k'')
           | (None, k'') \<Rightarrow> (None, change_cred new p (\<lambda>c. c\<lparr>cr_uid := euid\<rparr>)
                                    (\<lambda>pc. pc\<lparr>p_ruid := ruid\<rparr>) k'')))"

definition osetregid :: "nat \<Rightarrow> nat \<Rightarrow> int \<Rightarrow> int \<Rightarrow> kcred \<Rightarrow> errno option \<times> kcred" where
  "osetregid new p urgid uegid k =
     (let pc = p_cred (proc_at k p); g0 = cr_groups (p_ucred k p) ! 0;
          rgid = (if urgid = -1 then p_rgid pc else urgid) in
      case need_suser (rgid \<noteq> p_rgid pc \<and> rgid \<noteq> g0) p k of
        (Some e, k') \<Rightarrow> (Some e, k')
      | (None, k') \<Rightarrow>
          (let egid = (if uegid = -1 then g0 else uegid) in
           case need_suser (egid \<noteq> g0 \<and> egid \<noteq> p_rgid pc \<and> egid \<noteq> p_svgid pc) p k' of
             (Some e, k'') \<Rightarrow> (Some e, k'')
           | (None, k'') \<Rightarrow> (None, change_cred new p (set_group0 egid)
                                    (\<lambda>pc. pc\<lparr>p_rgid := rgid\<rparr>) k'')))"

definition setgroups :: "nat \<Rightarrow> nat \<Rightarrow> nat \<Rightarrow> (errno + int list) \<Rightarrow> kcred \<Rightarrow> errno option \<times> kcred" where
  "setgroups new p gidsetsize copyin k =
     (case need_suser True p k of
        (Some e, k') \<Rightarrow> (Some e, k')
      | (None, k') \<Rightarrow>
          if gidsetsize > NGROUPS \<or> gidsetsize < 1 then (Some EINVAL, k')
          else (case copyin of
                  Inl e \<Rightarrow> (Some e, k')
                | Inr gs \<Rightarrow> (None, change_cred new p
                     (\<lambda>c. c\<lparr>cr_ngroups := int gidsetsize,
                            cr_groups := take gidsetsize gs @ drop gidsetsize (cr_groups c)\<rparr>) id k')))"

text \<open>
  The credential part of \<^verbatim>\<open>fork\<close> (\<^verbatim>\<open>sys/kern/kern_fork.c\<close>): the child copies the parent's
  \<^verbatim>\<open>pcred\<close> and takes a reference to the same \<^verbatim>\<open>ucred\<close>.
\<close>

definition fork_cred :: "nat \<Rightarrow> nat \<Rightarrow> kcred \<Rightarrow> kcred" where
  "fork_cred p1 p2 k = k\<lparr>kc_proc := (kc_proc k)(p2 \<mapsto> \<lparr>p_cred = p_cred (proc_at k p1), p_acflag = 0\<rparr>),
     kc_heap := crhold (pc_ucred (p_cred (proc_at k p1))) (kc_heap k)\<rparr>"

section \<open>The reference-count invariant\<close>

text \<open>
  The processes that hold a credential; \<open>held\<close> counts the references of the rest of the kernel
  (open files).
\<close>

definition holders :: "kcred \<Rightarrow> nat \<Rightarrow> nat set" where
  "holders k a = {q. \<exists>pr. kc_proc k q = Some pr \<and> pc_ucred (p_cred pr) = a}"

definition cred_inv :: "(nat \<Rightarrow> nat) \<Rightarrow> kcred \<Rightarrow> bool" where
  "cred_inv held k \<longleftrightarrow> finite (dom (kc_proc k)) \<and>
     (\<forall>a. case kc_heap k a of
        None \<Rightarrow> holders k a = {} \<and> held a = 0
      | Some c \<Rightarrow> unat (cr_ref c) = card (holders k a) + held a \<and> 0 < card (holders k a) + held a \<and>
                  length (cr_groups c) = NGROUPS)"

text \<open>What a process can observe of its identity.\<close>

definition ids_of :: "kcred \<Rightarrow> nat \<Rightarrow> int \<times> int \<times> int list \<times> int \<times> int \<times> int \<times> int" where
  "ids_of k q = (let c = p_ucred k q; pc = p_cred (proc_at k q) in
     (cr_uid c, cr_ngroups c, cr_groups c, p_ruid pc, p_svuid pc, p_rgid pc, p_svgid pc))"

lemma finite_holders: "cred_inv held k \<Longrightarrow> finite (holders k a)"
  by (rule finite_subset [of _ "dom (kc_proc k)"]) (auto simp: cred_inv_def holders_def)

lemma cred_invD:
  assumes "cred_inv held k" and "kc_heap k a = Some c"
  shows "unat (cr_ref c) = card (holders k a) + held a" and "0 < card (holders k a) + held a"
    and "length (cr_groups c) = NGROUPS"
  using assms by (auto simp: cred_inv_def dest!: spec [of _ a])

lemma cred_inv_NoneD:
  assumes "cred_inv held k" and "kc_heap k a = None"
  shows "holders k a = {}" and "held a = 0"
  using assms by (auto simp: cred_inv_def dest!: spec [of _ a])

lemma cred_inv_proc:
  assumes "cred_inv held k" and "kc_proc k p = Some pr"
  shows "\<exists>c. kc_heap k (pc_ucred (p_cred pr)) = Some c"
proof (cases "kc_heap k (pc_ucred (p_cred pr))")
  case None
  with assms(1) have "holders k (pc_ucred (p_cred pr)) = {}" by (rule cred_inv_NoneD)
  with assms(2) show ?thesis by (auto simp: holders_def)
qed simp

lemma holders_upd:
  assumes "kc_proc k p = Some pr" and "kc_proc k' = (kc_proc k)(p \<mapsto> pr')"
  shows "holders k' a = (if pc_ucred (p_cred pr') = a then insert p (holders k a)
                         else holders k a - {p})"
  using assms by (auto simp: holders_def)

text \<open>
  The copy-on-write step: the process ends up with a credential of its own, every other process
  keeps what it had, and the counts stay exact.
\<close>

lemma crcopy_shared:
  assumes "h cr = Some c" and "cr_ref c \<noteq> 1" and "h new = None" and "cr_ref c - 1 \<noteq> 0"
  shows "crcopy new cr h = (new, h(cr \<mapsto> c\<lparr>cr_ref := cr_ref c - 1\<rparr>, new \<mapsto> c\<lparr>cr_ref := 1\<rparr>))"
proof -
  have "new \<noteq> cr" using assms(1,3) by auto
  with assms show ?thesis
    by (auto simp: crcopy_def crget_def crfree_def Let_def fun_eq_iff)
qed

lemma crcopy_private: "h cr = Some c \<Longrightarrow> cr_ref c = 1 \<Longrightarrow> crcopy new cr h = (cr, h)"
  by (simp add: crcopy_def)

lemma holder_card:
  assumes "cred_inv held k" and "kc_proc k p = Some pr"
  shows "p \<in> holders k (pc_ucred (p_cred pr))" and "0 < card (holders k (pc_ucred (p_cred pr)))"
proof -
  show p: "p \<in> holders k (pc_ucred (p_cred pr))" using assms(2) by (auto simp: holders_def)
  then show "0 < card (holders k (pc_ucred (p_cred pr)))"
    using finite_holders [OF assms(1)] card_gt_0_iff by blast
qed

lemma unat_pred: "0 < unat (w :: u16) \<Longrightarrow> unat (w - 1) = unat w - 1"
  by (metis unat_minus_one unat_0 less_irrefl)

lemma sole_holder:
  assumes "cred_inv held k" and "kc_proc k p = Some pr"
    and "kc_heap k (pc_ucred (p_cred pr)) = Some c" and "cr_ref c = 1"
  shows "holders k (pc_ucred (p_cred pr)) = {p}" and "held (pc_ucred (p_cred pr)) = 0"
proof -
  let ?a = "pc_ucred (p_cred pr)"
  have "card (holders k ?a) + held ?a = 1"
    using cred_invD(1) [OF assms(1,3)] assms(4) by simp
  with holder_card [OF assms(1,2)] have "card (holders k ?a) = 1" and h: "held ?a = 0"
    by linarith+
  with holder_card(1) [OF assms(1,2)] show "holders k ?a = {p}"
    by (metis card_1_singletonE singletonD)
  show "held ?a = 0" by (rule h)
qed

lemma change_cred_private:
  assumes "kc_proc k p = Some pr" and "kc_heap k (pc_ucred (p_cred pr)) = Some c" and "cr_ref c = 1"
  shows "change_cred new p g f k = k\<lparr>kc_heap := (kc_heap k)(pc_ucred (p_cred pr) \<mapsto> g c),
    kc_proc := (kc_proc k)(p \<mapsto> pr\<lparr>p_cred := f (p_cred pr)\<rparr>)\<rparr>"
  using assms by (simp add: change_cred_def proc_at_def crcopy_private)

lemma change_cred_shared:
  assumes "kc_proc k p = Some pr" and "kc_heap k (pc_ucred (p_cred pr)) = Some c" and "cr_ref c \<noteq> 1"
    and "kc_heap k new = None" and "cr_ref c - 1 \<noteq> 0"
  shows "change_cred new p g f k = k\<lparr>kc_heap := (kc_heap k)
      (pc_ucred (p_cred pr) \<mapsto> c\<lparr>cr_ref := cr_ref c - 1\<rparr>, new \<mapsto> g (c\<lparr>cr_ref := 1\<rparr>)),
    kc_proc := (kc_proc k)(p \<mapsto> pr\<lparr>p_cred := f ((p_cred pr)\<lparr>pc_ucred := new\<rparr>)\<rparr>)\<rparr>"
  using assms by (simp add: change_cred_def proc_at_def crcopy_shared)

lemma shared_pred:
  assumes "cred_inv held k" and "kc_proc k p = Some pr"
    and "kc_heap k (pc_ucred (p_cred pr)) = Some c" and "cr_ref c \<noteq> 1"
  shows "cr_ref c - 1 \<noteq> 0" and "unat (cr_ref c - 1) = unat (cr_ref c) - 1"
proof -
  have "0 < unat (cr_ref c)"
    using cred_invD(1) [OF assms(1,3)] holder_card(2) [OF assms(1,2)] by simp
  then show "unat (cr_ref c - 1) = unat (cr_ref c) - 1" by (rule unat_pred)
  show "cr_ref c - 1 \<noteq> 0" using assms(4) by simp
qed

text \<open>The assignments of the system calls keep the count, the number of groups and the address.\<close>

definition id_change :: "(ucred \<Rightarrow> ucred) \<Rightarrow> (pcred \<Rightarrow> pcred) \<Rightarrow> bool" where
  "id_change g f \<longleftrightarrow> (\<forall>x. cr_ref (g x) = cr_ref x) \<and> (\<forall>x. g (x\<lparr>cr_ref := 1\<rparr>) = (g x)\<lparr>cr_ref := 1\<rparr>) \<and>
     (\<forall>x. length (cr_groups x) = NGROUPS \<longrightarrow> length (cr_groups (g x)) = NGROUPS) \<and>
     (\<forall>y. pc_ucred (f y) = pc_ucred y) \<and> (\<forall>y a. f (y\<lparr>pc_ucred := a\<rparr>) = (f y)\<lparr>pc_ucred := a\<rparr>)"

lemma change_cred_inv:
  assumes inv: "cred_inv held k" and p: "kc_proc k p = Some pr" and new: "kc_heap k new = None"
    and gf: "id_change g f"
  shows "cred_inv held (change_cred new p g f k)"
proof -
  obtain c where c: "kc_heap k (pc_ucred (p_cred pr)) = Some c"
    using cred_inv_proc [OF inv p] by blast
  let ?a = "pc_ucred (p_cred pr)" and ?k = "change_cred new p g f k"
  have fin: "finite (dom (kc_proc ?k))"
    using inv by (simp add: change_cred_def cred_inv_def Let_def case_prod_beta)
  show ?thesis
  proof (cases "cr_ref c = 1")
    case True
    note k = change_cred_private [OF p c True]
    have ho: "holders ?k b = holders k b" for b
      using holders_upd [OF p, of ?k, unfolded k, simplified, OF refl] gf p
      by (auto simp: k id_change_def holders_def)
    show ?thesis
      using inv fin gf cred_invD [OF inv c] unfolding cred_inv_def ho
      by (auto simp: k id_change_def)
  next
    case False
    note sp = shared_pred [OF inv p c False]
    note k = change_cred_shared [OF p c False new sp(1)]
    have nw: "new \<noteq> ?a" "holders k new = {}" "held new = 0"
      using new c cred_inv_NoneD [OF inv new] by auto
    have ho: "holders ?k b = (if b = new then insert p (holders k b) else holders k b - {p})" for b
      using gf p by (auto simp: k id_change_def holders_def)
    have hk: "kc_heap ?k = (kc_heap k)(?a \<mapsto> c\<lparr>cr_ref := cr_ref c - 1\<rparr>, new \<mapsto> g (c\<lparr>cr_ref := 1\<rparr>))"
      by (simp add: k)
    have ca: "card (holders k ?a - {p}) = card (holders k ?a) - 1"
      using holder_card(1) [OF inv p] by (simp add: finite_holders [OF inv])
    have ne: "unat (cr_ref c) \<noteq> 1" using False by (simp add: word_unat_eq_iff)
    have oth: "holders k b - {p} = holders k b" if "b \<noteq> ?a" for b
      using that p by (auto simp: holders_def)
    show ?thesis
      unfolding cred_inv_def
    proof (intro conjI allI fin)
      fix b
      show "case kc_heap ?k b of
          None \<Rightarrow> holders ?k b = {} \<and> held b = 0
        | Some c' \<Rightarrow> unat (cr_ref c') = card (holders ?k b) + held b \<and>
            0 < card (holders ?k b) + held b \<and> length (cr_groups c') = NGROUPS"
      proof (cases "b = new \<or> b = ?a")
        case True
        with nw gf cred_invD [OF inv c] sp ca ne holder_card [OF inv p] show ?thesis
          by (auto simp: hk ho id_change_def)
      next
        case b: False
        then have hb: "kc_heap ?k b = kc_heap k b" and hob: "holders ?k b = holders k b"
          using oth [of b] by (simp_all add: hk ho)
        show ?thesis unfolding hb hob using inv by (simp only: cred_inv_def)
      qed
    qed
  qed
qed

lemma change_cred_self:
  assumes inv: "cred_inv held k" and p: "kc_proc k p = Some pr" and new: "kc_heap k new = None"
    and gf: "id_change g f"
  shows "p_ucred (change_cred new p g f k) p = (g (p_ucred k p))\<lparr>cr_ref := 1\<rparr> \<and>
    (\<exists>a. p_cred (proc_at (change_cred new p g f k) p) = (f (p_cred pr))\<lparr>pc_ucred := a\<rparr>)"
proof -
  obtain c where c: "kc_heap k (pc_ucred (p_cred pr)) = Some c"
    using cred_inv_proc [OF inv p] by blast
  show ?thesis
  proof (cases "cr_ref c = 1")
    case True
    have "c = c\<lparr>cr_ref := 1\<rparr>" using True by (cases c) simp
    then have "g c = (g c)\<lparr>cr_ref := 1\<rparr>" using gf unfolding id_change_def by metis
    moreover have "\<exists>a. y = y\<lparr>pc_ucred := a\<rparr>" for y :: pcred
      by (rule exI [of _ "pc_ucred y"]) simp
    ultimately show ?thesis
      using p c gf by (simp add: change_cred_private [OF p c True] p_ucred_def proc_at_def id_change_def)
  next
    case False
    from p c gf show ?thesis
      by (auto simp: change_cred_shared [OF p c False new shared_pred(1) [OF inv p c False]]
          p_ucred_def proc_at_def id_change_def)
  qed
qed

lemma change_cred_others:
  assumes inv: "cred_inv held k" and p: "kc_proc k p = Some pr" and new: "kc_heap k new = None"
    and gf: "id_change g f" and q: "kc_proc k q = Some qr" "q \<noteq> p"
  shows "ids_of (change_cred new p g f k) q = ids_of k q"
proof -
  obtain c where c: "kc_heap k (pc_ucred (p_cred pr)) = Some c"
    using cred_inv_proc [OF inv p] by blast
  show ?thesis
  proof (cases "cr_ref c = 1")
    case True
    have "pc_ucred (p_cred qr) \<noteq> pc_ucred (p_cred pr)"
      using sole_holder(1) [OF inv p c True] q by (auto simp: holders_def)
    with q show ?thesis
      by (simp add: change_cred_private [OF p c True] ids_of_def p_ucred_def proc_at_def)
  next
    case False
    have "pc_ucred (p_cred qr) \<noteq> new"
      using cred_inv_NoneD(1) [OF inv new] q by (auto simp: holders_def)
    with q c show ?thesis
      by (auto simp: change_cred_shared [OF p c False new shared_pred(1) [OF inv p c False]]
          ids_of_def p_ucred_def proc_at_def Let_def)
  qed
qed

section \<open>The system calls\<close>

text \<open>
  The identity-changing calls of one process, as one step relation: each successful or failing
  call is a step. \<open>new\<close> is the address the allocator may hand out; it is not in use.
\<close>

inductive id_call :: "nat \<Rightarrow> kcred \<Rightarrow> kcred \<Rightarrow> bool" for p :: nat where
  call_setuid: "kc_heap k new = None \<Longrightarrow> setuid new p uid k = (e, k') \<Longrightarrow> id_call p k k'"
| call_seteuid: "kc_heap k new = None \<Longrightarrow> seteuid new p uid k = (e, k') \<Longrightarrow> id_call p k k'"
| call_setgid: "kc_heap k new = None \<Longrightarrow> setgid new p gid k = (e, k') \<Longrightarrow> id_call p k k'"
| call_setegid: "kc_heap k new = None \<Longrightarrow> setegid new p gid k = (e, k') \<Longrightarrow> id_call p k k'"
| call_osetreuid: "kc_heap k new = None \<Longrightarrow> osetreuid new p uid uid' k = (e, k') \<Longrightarrow> id_call p k k'"
| call_osetregid: "kc_heap k new = None \<Longrightarrow> osetregid new p gid gid' k = (e, k') \<Longrightarrow> id_call p k k'"
| call_setgroups: "kc_heap k new = None \<Longrightarrow> (\<And>gs. src = Inr gs \<Longrightarrow> length gs = n) \<Longrightarrow>
     setgroups new p n src k = (e, k') \<Longrightarrow> id_call p k k'"

lemma need_suser_state:
  assumes "need_suser b p k = (e, k')" and "kc_proc k p = Some pr"
  shows "kc_heap k' = kc_heap k" and "\<exists>fl. kc_proc k' = (kc_proc k)(p \<mapsto> pr\<lparr>p_acflag := fl\<rparr>)"
    and "e = None \<and> b \<longrightarrow> cr_uid (p_ucred k p) = 0" and "e = None \<or> e = Some EPERM"
proof -
  show "\<exists>fl. kc_proc k' = (kc_proc k)(p \<mapsto> pr\<lparr>p_acflag := fl\<rparr>)"
    using assms
    by (intro exI [of _ "if b \<and> cr_uid (p_ucred k p) = 0 then p_acflag pr OR ASU else p_acflag pr"])
      (auto simp: need_suser_def suser_def proc_at_def map_upd_triv split: if_splits)
  show "kc_heap k' = kc_heap k" "e = None \<and> b \<longrightarrow> cr_uid (p_ucred k p) = 0"
    "e = None \<or> e = Some EPERM"
    using assms by (auto simp: need_suser_def suser_def split: if_splits)
qed

text \<open>A change of the accounting flags changes nothing else.\<close>

lemma acflag_frame:
  assumes "kc_heap k' = kc_heap k" and "kc_proc k' = (kc_proc k)(p \<mapsto> pr\<lparr>p_acflag := fl\<rparr>)"
    and "kc_proc k p = Some pr"
  shows "cred_inv held k' = cred_inv held k" and "ids_of k' q = ids_of k q"
    and "p_ucred k' q = p_ucred k q" and "p_cred (proc_at k' q) = p_cred (proc_at k q)"
    and "kc_proc k' p = Some (pr\<lparr>p_acflag := fl\<rparr>)"
proof -
  have h: "holders k' = holders k"
    using assms(2,3) by (auto simp: holders_def fun_eq_iff)
  have d: "dom (kc_proc k') = dom (kc_proc k)" using assms(2,3) by auto
  show "cred_inv held k' = cred_inv held k" 
    unfolding cred_inv_def h d assms(1) ..
  show pc: "p_cred (proc_at k' q) = p_cred (proc_at k q)" using assms(2,3) by (simp add: proc_at_def)
  then show u: "p_ucred k' q = p_ucred k q" using assms(1) by (simp add: p_ucred_def)
  show "ids_of k' q = ids_of k q" by (simp add: ids_of_def pc u)
  show "kc_proc k' p = Some (pr\<lparr>p_acflag := fl\<rparr>)" using assms(2) by simp
qed

text \<open>
  Every call either leaves all identities and counts alone, or performs one \<open>change_cred\<close> whose
  new identifiers are covered by the rule of the call.
\<close>

definition uids :: "kcred \<Rightarrow> nat \<Rightarrow> int set" where
  "uids k p = {cr_uid (p_ucred k p), p_ruid (p_cred (proc_at k p)), p_svuid (p_cred (proc_at k p))}"

definition gids :: "kcred \<Rightarrow> nat \<Rightarrow> int set" where
  "gids k p = {cr_groups (p_ucred k p) ! 0, p_rgid (p_cred (proc_at k p)), p_svgid (p_cred (proc_at k p))}"

definition legal_change :: "ucred \<Rightarrow> pcred \<Rightarrow> (ucred \<Rightarrow> ucred) \<Rightarrow> (pcred \<Rightarrow> pcred) \<Rightarrow> bool" where
  "legal_change c pc g f \<longleftrightarrow> (cr_uid c \<noteq> 0 \<longrightarrow>
     {cr_uid (g c), p_ruid (f pc), p_svuid (f pc)} \<subseteq> {cr_uid c, p_ruid pc, p_svuid pc} \<and>
     {cr_groups (g c) ! 0, p_rgid (f pc), p_svgid (f pc)} \<subseteq> {cr_groups c ! 0, p_rgid pc, p_svgid pc} \<and>
     cr_ngroups (g c) = cr_ngroups c \<and> tl (cr_groups (g c)) = tl (cr_groups c))"

lemma id_change_intros [intro]:
  "id_change (\<lambda>c. c\<lparr>cr_uid := u\<rparr>) id"
  "id_change (\<lambda>c. c\<lparr>cr_uid := u\<rparr>) (\<lambda>pc. pc\<lparr>p_ruid := v\<rparr>)"
  "id_change (\<lambda>c. c\<lparr>cr_uid := u\<rparr>) (\<lambda>pc. pc\<lparr>p_ruid := v, p_svuid := w\<rparr>)"
  "id_change (set_group0 g) id"
  "id_change (set_group0 g) (\<lambda>pc. pc\<lparr>p_rgid := v\<rparr>)"
  "id_change (set_group0 g) (\<lambda>pc. pc\<lparr>p_rgid := v, p_svgid := w\<rparr>)"
  "length gs \<le> 16 \<Longrightarrow>
     id_change (\<lambda>c. c\<lparr>cr_ngroups := m, cr_groups := gs @ drop (length gs) (cr_groups c)\<rparr>) id"
  by (auto simp: id_change_def set_group0_def NGROUPS_def)

definition flag_change :: "nat \<Rightarrow> kcred \<Rightarrow> kcred \<Rightarrow> bool" where
  "flag_change p k k' \<longleftrightarrow> kc_heap k' = kc_heap k \<and>
     (\<exists>fl. kc_proc k' = (kc_proc k)(p \<mapsto> (proc_at k p)\<lparr>p_acflag := fl\<rparr>))"

lemma need_suser_flag:
  assumes "need_suser b p k = (e, k')" and "kc_proc k p = Some pr"
  shows "flag_change p k k'"
  using need_suser_state(1,2) [OF assms] assms(2) by (simp add: flag_change_def proc_at_def)

lemma flag_change_trans:
  "kc_proc k p = Some pr \<Longrightarrow> flag_change p k k' \<Longrightarrow> flag_change p k' k'' \<Longrightarrow> flag_change p k k''"
  by (auto simp: flag_change_def proc_at_def)

lemma flag_change_frame:
  assumes "flag_change p k k'" and "kc_proc k p = Some pr"
  shows "cred_inv held k' = cred_inv held k" and "ids_of k' q = ids_of k q"
    and "p_ucred k' q = p_ucred k q" and "p_cred (proc_at k' q) = p_cred (proc_at k q)"
    and "\<exists>pr'. kc_proc k' p = Some pr' \<and> p_cred pr' = p_cred pr"
    and "kc_heap k' = kc_heap k" and "q \<noteq> p \<Longrightarrow> kc_proc k' q = kc_proc k q"
  using assms acflag_frame [where k = k and k' = k' and p = p and pr = pr] by (auto simp: flag_change_def proc_at_def)

text \<open>The shape of every identity call.\<close>

definition call_shape :: "nat \<Rightarrow> kcred \<Rightarrow> kcred \<Rightarrow> bool" where
  "call_shape p k k' \<longleftrightarrow> (\<exists>k1. flag_change p k k1 \<and> (k' = k1 \<or>
     (\<exists>new g f. k' = change_cred new p g f k1 \<and> kc_heap k1 new = None \<and> id_change g f \<and>
        (length (cr_groups (p_ucred k p)) = NGROUPS \<longrightarrow>
           legal_change (p_ucred k p) (p_cred (proc_at k p)) g f))))"

lemma call_shapeI:
  assumes "flag_change p k k1" and "kc_heap k new = None" and "id_change g f"
    and "length (cr_groups (p_ucred k p)) = NGROUPS \<Longrightarrow>
           legal_change (p_ucred k p) (p_cred (proc_at k p)) g f"
  shows "call_shape p k (change_cred new p g f k1)"
proof -
  have "kc_heap k1 new = None" using assms(1,2) by (simp add: flag_change_def)
  with assms show ?thesis unfolding call_shape_def by blast
qed

lemma call_shape_flag: "flag_change p k k' \<Longrightarrow> call_shape p k k'"
  by (auto simp: call_shape_def)

lemmas legal_simps = legal_change_def set_group0_def NGROUPS_def nth_append

lemma id_call_shape:
  assumes "id_call p k k'" and p: "kc_proc k p = Some pr"
  shows "call_shape p k k'"
  using assms(1)
proof cases
  case (call_setuid new uid e)
  obtain e1 k1 where n: "need_suser (uid \<noteq> p_ruid (p_cred (proc_at k p))) p k = (e1, k1)"
    by (cases "need_suser (uid \<noteq> p_ruid (p_cred (proc_at k p))) p k")
  show ?thesis
    using call_setuid n need_suser_state(3) [OF n p] need_suser_flag [OF n p]
    by (auto simp: setuid_def legal_simps split: option.splits intro!: call_shapeI intro: call_shape_flag)
next
  case (call_seteuid new uid e)
  let ?b = "uid \<noteq> p_ruid (p_cred (proc_at k p)) \<and> uid \<noteq> p_svuid (p_cred (proc_at k p))"
  obtain e1 k1 where n: "need_suser ?b p k = (e1, k1)" by (cases "need_suser ?b p k")
  show ?thesis
    using call_seteuid n need_suser_state(3) [OF n p] need_suser_flag [OF n p]
    by (auto simp: seteuid_def Let_def legal_simps split: option.splits intro!: call_shapeI intro: call_shape_flag)
next
  case (call_setgid new gid e)
  obtain e1 k1 where n: "need_suser (gid \<noteq> p_rgid (p_cred (proc_at k p))) p k = (e1, k1)"
    by (cases "need_suser (gid \<noteq> p_rgid (p_cred (proc_at k p))) p k")
  show ?thesis
    using call_setgid n need_suser_state(3) [OF n p] need_suser_flag [OF n p]
    by (auto simp: setgid_def legal_simps split: option.splits intro!: call_shapeI intro: call_shape_flag)
next
  case (call_setegid new gid e)
  let ?b = "gid \<noteq> p_rgid (p_cred (proc_at k p)) \<and> gid \<noteq> p_svgid (p_cred (proc_at k p))"
  obtain e1 k1 where n: "need_suser ?b p k = (e1, k1)" by (cases "need_suser ?b p k")
  show ?thesis
    using call_setegid n need_suser_state(3) [OF n p] need_suser_flag [OF n p]
    by (auto simp: setegid_def Let_def legal_simps split: option.splits intro!: call_shapeI intro: call_shape_flag)
next
  case (call_setgroups new src n e)
  obtain e1 k1 where ns: "need_suser True p k = (e1, k1)" by (cases "need_suser True p k")
  show ?thesis
    using call_setgroups ns need_suser_state(3) [OF ns p] need_suser_flag [OF ns p]
    by (auto simp: setgroups_def legal_simps split: option.splits sum.splits if_splits
        intro!: call_shapeI intro: call_shape_flag)
next
  case (call_osetreuid new uid uid' e)
  let ?pc = "p_cred (proc_at k p)" and ?u = "cr_uid (p_ucred k p)"
  define r eu where "r = (if uid = -1 then p_ruid ?pc else uid)" and "eu = (if uid' = -1 then ?u else uid')"
  let ?b1 = "r \<noteq> p_ruid ?pc \<and> r \<noteq> ?u" and ?b2 = "eu \<noteq> ?u \<and> eu \<noteq> p_ruid ?pc \<and> eu \<noteq> p_svuid ?pc"
  obtain e1 k1 where n1: "need_suser ?b1 p k = (e1, k1)" by (cases "need_suser ?b1 p k")
  note f1 = need_suser_flag [OF n1 p]
  obtain pr1 where p1: "kc_proc k1 p = Some pr1" using flag_change_frame(5) [OF f1 p] by blast
  obtain e2 k2 where n2: "need_suser ?b2 p k1 = (e2, k2)" by (cases "need_suser ?b2 p k1")
  have f2: "flag_change p k k2" using flag_change_trans [OF p f1 need_suser_flag [OF n2 p1]] .
  have u2: "e2 = None \<and> ?b2 \<longrightarrow> ?u = 0"
    using need_suser_state(3) [OF n2 p1] flag_change_frame(3) [OF f1 p] by simp
  note u1 = need_suser_state(3) [OF n1 p]
  have "k' = k1 \<or> k' = k2 \<or> e1 = None \<and> e2 = None \<and>
      k' = change_cred new p (\<lambda>c. c\<lparr>cr_uid := eu\<rparr>) (\<lambda>pc. pc\<lparr>p_ruid := r\<rparr>) k2"
    using call_osetreuid(2) n1 n2 unfolding osetreuid_def Let_def r_def [symmetric] eu_def [symmetric]
    by (simp split: option.splits)
  moreover have "call_shape p k (change_cred new p (\<lambda>c. c\<lparr>cr_uid := eu\<rparr>) (\<lambda>pc. pc\<lparr>p_ruid := r\<rparr>) k2)"
    if "e1 = None \<and> e2 = None"
  proof (rule call_shapeI [OF f2 call_osetreuid(1)])
    show "legal_change (p_ucred k p) ?pc (\<lambda>c. c\<lparr>cr_uid := eu\<rparr>) (\<lambda>pc. pc\<lparr>p_ruid := r\<rparr>)"
      using that u1 u2 by (simp add: legal_change_def) blast
  qed auto
  ultimately show ?thesis using f1 f2 call_shape_flag by blast
next
  case (call_osetregid new gid gid' e)
  let ?pc = "p_cred (proc_at k p)" and ?g = "cr_groups (p_ucred k p) ! 0"
  define r eu where "r = (if gid = -1 then p_rgid ?pc else gid)" and "eu = (if gid' = -1 then ?g else gid')"
  let ?b1 = "r \<noteq> p_rgid ?pc \<and> r \<noteq> ?g" and ?b2 = "eu \<noteq> ?g \<and> eu \<noteq> p_rgid ?pc \<and> eu \<noteq> p_svgid ?pc"
  obtain e1 k1 where n1: "need_suser ?b1 p k = (e1, k1)" by (cases "need_suser ?b1 p k")
  note f1 = need_suser_flag [OF n1 p]
  obtain pr1 where p1: "kc_proc k1 p = Some pr1" using flag_change_frame(5) [OF f1 p] by blast
  obtain e2 k2 where n2: "need_suser ?b2 p k1 = (e2, k2)" by (cases "need_suser ?b2 p k1")
  have f2: "flag_change p k k2" using flag_change_trans [OF p f1 need_suser_flag [OF n2 p1]] .
  have u2: "e2 = None \<and> ?b2 \<longrightarrow> cr_uid (p_ucred k p) = 0"
    using need_suser_state(3) [OF n2 p1] flag_change_frame(3) [OF f1 p] by simp
  note u1 = need_suser_state(3) [OF n1 p]
  have "k' = k1 \<or> k' = k2 \<or> e1 = None \<and> e2 = None \<and>
      k' = change_cred new p (set_group0 eu) (\<lambda>pc. pc\<lparr>p_rgid := r\<rparr>) k2"
    using call_osetregid(2) n1 n2 unfolding osetregid_def Let_def r_def [symmetric] eu_def [symmetric]
    by (simp split: option.splits)
  moreover have "call_shape p k (change_cred new p (set_group0 eu) (\<lambda>pc. pc\<lparr>p_rgid := r\<rparr>) k2)"
    if "e1 = None \<and> e2 = None"
  proof (rule call_shapeI [OF f2 call_osetregid(1)])
    assume l: "length (cr_groups (p_ucred k p)) = NGROUPS"
    then have "(cr_groups (p_ucred k p))[0 := x] ! 0 = x" for x by (simp add: NGROUPS_def)
    then show "legal_change (p_ucred k p) ?pc (set_group0 eu) (\<lambda>pc. pc\<lparr>p_rgid := r\<rparr>)"
      using that u1 u2 by (simp add: legal_change_def set_group0_def) blast
  qed auto
  ultimately show ?thesis using f1 f2 call_shape_flag by blast
qed


section \<open>Isolation and privilege\<close>

lemma call_shape_inv:
  assumes "call_shape p k k'" and "cred_inv held k" and "kc_proc k p = Some pr"
  shows "cred_inv held k' \<and> (\<exists>pr'. kc_proc k' p = Some pr')"
proof -
  from assms(1) obtain k1 where f: "flag_change p k k1" and
    k': "k' = k1 \<or> (\<exists>new g f. k' = change_cred new p g f k1 \<and> kc_heap k1 new = None \<and> id_change g f)"
    by (auto simp: call_shape_def)
  obtain pr1 where p1: "kc_proc k1 p = Some pr1" using flag_change_frame(5) [OF f assms(3)] by blast
  have i1: "cred_inv held k1" using flag_change_frame(1) [OF f assms(3)] assms(2) by simp
  from k' p1 i1 change_cred_inv [OF i1 p1] show ?thesis
    by (auto simp: change_cred_def Let_def case_prod_beta)
qed

lemma call_shape_others:
  assumes "call_shape p k k'" and "cred_inv held k" and "kc_proc k p = Some pr"
    and "kc_proc k q = Some qr" and "q \<noteq> p"
  shows "ids_of k' q = ids_of k q"
proof -
  from assms(1) obtain k1 where f: "flag_change p k k1" and
    k': "k' = k1 \<or> (\<exists>new g f. k' = change_cred new p g f k1 \<and> kc_heap k1 new = None \<and> id_change g f)"
    by (auto simp: call_shape_def)
  note fr = flag_change_frame [OF f assms(3)]
  obtain pr1 where p1: "kc_proc k1 p = Some pr1" using fr(5) by blast
  have i1: "cred_inv held k1" using fr(1) assms(2) by simp
  have "kc_proc k1 q = Some qr" using fr(7) [OF assms(5)] assms(4) by simp
  with k' fr(2) [of q] change_cred_others [OF i1 p1 _ _ _ assms(5)] show ?thesis by auto
qed

text \<open>What an unprivileged process keeps: its set of identities never grows.\<close>

definition unpriv_inv :: "(nat \<Rightarrow> nat) \<Rightarrow> nat \<Rightarrow> int set \<Rightarrow> int set \<Rightarrow> int \<times> int list \<Rightarrow> kcred \<Rightarrow> bool" where
  "unpriv_inv held p U G rest k \<longleftrightarrow> cred_inv held k \<and> kc_proc k p \<noteq> None \<and> 0 \<notin> U \<and>
     uids k p \<subseteq> U \<and> gids k p \<subseteq> G \<and> (cr_ngroups (p_ucred k p), tl (cr_groups (p_ucred k p))) = rest"

lemma p_ucred_groups:
  assumes "cred_inv held k" and "kc_proc k p = Some pr"
  shows "length (cr_groups (p_ucred k p)) = NGROUPS"
proof -
  obtain c where c: "kc_heap k (pc_ucred (p_cred pr)) = Some c"
    using cred_inv_proc [OF assms] by blast
  from cred_invD(3) [OF assms(1) c] c assms(2) show ?thesis by (simp add: p_ucred_def proc_at_def)
qed

lemma unpriv_step:
  assumes inv: "unpriv_inv held p U G rest k" and call: "id_call p k k'"
  shows "unpriv_inv held p U G rest k'"
proof -
  obtain pr where p: "kc_proc k p = Some pr" and ci: "cred_inv held k"
    using inv by (auto simp: unpriv_inv_def)
  note sh = id_call_shape [OF call p]
  from sh obtain k1 where f: "flag_change p k k1" and
    k': "k' = k1 \<or> (\<exists>new g f. k' = change_cred new p g f k1 \<and> kc_heap k1 new = None \<and> id_change g f \<and>
        legal_change (p_ucred k p) (p_cred (proc_at k p)) g f)"
    using p_ucred_groups [OF ci p] by (auto simp: call_shape_def)
  note fr = flag_change_frame [OF f p]
  obtain pr1 where p1: "kc_proc k1 p = Some pr1" and pc1: "p_cred pr1 = p_cred pr" using fr(5) by blast
  have i1: "cred_inv held k1" using fr(1) ci by simp
  have nz: "cr_uid (p_ucred k p) \<noteq> 0" using inv by (auto simp: unpriv_inv_def uids_def)
  have keep: "uids k' p \<subseteq> uids k p \<and> gids k' p \<subseteq> gids k p \<and>
      (cr_ngroups (p_ucred k' p), tl (cr_groups (p_ucred k' p))) =
      (cr_ngroups (p_ucred k p), tl (cr_groups (p_ucred k p)))"
    using k'
  proof (elim disjE exE conjE)
    assume "k' = k1"
    then show ?thesis using fr(3,4) [of p] by (simp add: uids_def gids_def)
  next
    fix new g f
    assume e: "k' = change_cred new p g f k1" "kc_heap k1 new = None" "id_change g f"
      and l: "legal_change (p_ucred k p) (p_cred (proc_at k p)) g f"
    from change_cred_self [OF i1 p1 e(2,3)] pc1 fr(3) [of p] p obtain a where
      u: "p_ucred k' p = (g (p_ucred k p))\<lparr>cr_ref := 1\<rparr>" and
      c: "p_cred (proc_at k' p) = (f (p_cred (proc_at k p)))\<lparr>pc_ucred := a\<rparr>"
      by (auto simp: e(1) proc_at_def)
    from l nz show ?thesis by (simp add: legal_change_def uids_def gids_def u c)
  qed
  with inv call_shape_inv [OF sh ci p] show ?thesis by (auto simp: unpriv_inv_def)
qed

interpretation unpriv: invariant_system "\<lambda>k. k = k0 \<and> unpriv_inv held p U G rest k0" "id_call p"
  "unpriv_inv held p U G rest" for k0 held p U G rest
  by unfold_locales (auto intro: unpriv_step)

interpretation counted: invariant_system "\<lambda>k. k = k0 \<and> cred_inv held k0 \<and> (\<forall>p \<in> P. kc_proc k0 p \<noteq> None)"
  "\<lambda>k k'. \<exists>p \<in> P. id_call p k k'" "\<lambda>k. cred_inv held k \<and> (\<forall>p \<in> P. kc_proc k p \<noteq> None)" for k0 held P
proof
  fix k k' assume a: "cred_inv held k \<and> (\<forall>p \<in> P. kc_proc k p \<noteq> None)" "\<exists>p \<in> P. id_call p k k'"
  then obtain p pr where p: "p \<in> P" "id_call p k k'" "kc_proc k p = Some pr" by blast
  note sh = id_call_shape [OF p(2,3)]
  have "kc_proc k' q \<noteq> None" if "kc_proc k q \<noteq> None" for q
    using sh that by (auto simp: call_shape_def flag_change_def change_cred_def Let_def case_prod_beta)
  with call_shape_inv [OF sh _ p(3)] a show "cred_inv held k' \<and> (\<forall>p \<in> P. kc_proc k' p \<noteq> None)" by blast
qed auto


section \<open>Properties\<close>

text \<open>
  Property C8. Copy on write isolates processes: whatever identity call a process makes, with
  whatever arguments and whether it succeeds or fails, no other process sees any of its own user
  ids, group ids or supplementary groups change, even when both share one credential structure.
\<close>

theorem setid_isolated:
  assumes "cred_inv held k" and "kc_proc k p = Some pr" and "kc_proc k q = Some qr" and "q \<noteq> p"
    and "id_call p k k'"
  shows "ids_of k' q = ids_of k q"
  using call_shape_others [OF id_call_shape [OF assms(5,2)] assms(1,2,3,4)] .

definition ex_cred :: "int \<Rightarrow> u16 \<Rightarrow> ucred" where
  "ex_cred u r = \<lparr>cr_ref = r, cr_uid = u, cr_ngroups = 1, cr_groups = replicate NGROUPS 10\<rparr>"

definition ex_proc :: "int \<Rightarrow> cproc" where
  "ex_proc u = \<lparr>p_cred = \<lparr>pc_ucred = 0, p_ruid = u, p_svuid = u, p_rgid = 10, p_svgid = 10\<rparr>, p_acflag = 0\<rparr>"

definition ex_kernel :: "int \<Rightarrow> kcred" where
  "ex_kernel u = \<lparr>kc_heap = [0 \<mapsto> ex_cred u 2], kc_proc = [0 \<mapsto> ex_proc u, 1 \<mapsto> ex_proc u]\<rparr>"

lemma ex_kernel_inv: "cred_inv (\<lambda>_. 0) (ex_kernel u)"
proof -
  have "holders (ex_kernel u) a = (if a = 0 then {0, 1} else {})" for a
    by (auto simp: holders_def ex_kernel_def ex_proc_def split: if_splits)
  then show ?thesis
    by (auto simp: cred_inv_def ex_kernel_def ex_cred_def)
qed

theorem setid_isolated_witness:
  "ids_of (snd (setuid 5 0 100 (ex_kernel 0))) 1 = ids_of (ex_kernel 0) 1"
proof -
  have "id_call 0 (ex_kernel 0) (snd (setuid 5 0 100 (ex_kernel 0)))"
    by (rule call_setuid [where new = 5 and uid = 100 and e = "fst (setuid 5 0 100 (ex_kernel 0))"])
      (simp_all add: ex_kernel_def)
  from setid_isolated [OF ex_kernel_inv _ _ _ this, of "ex_proc 0" 1 "ex_proc 0"] show ?thesis
    by (simp add: ex_kernel_def)
qed

text \<open>
  Property C7. A process none of whose user ids is 0 can never acquire an identity it did not
  start with: after any sequence of identity calls its real, effective and saved user ids are
  among the three it started with, the same for its group ids, and its supplementary groups
  beyond the first are unchanged.
\<close>

theorem unprivileged_confined:
  assumes "cred_inv held k0" and "kc_proc k0 p = Some pr" and "0 \<notin> uids k0 p"
    and "reach (\<lambda>k. k = k0) (id_call p) k"
  shows "uids k p \<subseteq> uids k0 p \<and> gids k p \<subseteq> gids k0 p \<and>
    cr_ngroups (p_ucred k p) = cr_ngroups (p_ucred k0 p) \<and>
    tl (cr_groups (p_ucred k p)) = tl (cr_groups (p_ucred k0 p))"
proof -
  let ?rest = "(cr_ngroups (p_ucred k0 p), tl (cr_groups (p_ucred k0 p)))"
  have "unpriv_inv held p (uids k0 p) (gids k0 p) ?rest k0"
    using assms(1-3) by (auto simp: unpriv_inv_def)
  then have "unpriv_inv held p (uids k0 p) (gids k0 p) ?rest k"
    using unpriv.reach_inv [of k0 held p "uids k0 p" "gids k0 p" ?rest k] assms(4) by simp
  then show ?thesis by (auto simp: unpriv_inv_def)
qed

theorem unprivileged_confined_witness:
  "uids (snd (seteuid 5 0 100 (ex_kernel 100))) 0 \<subseteq> uids (ex_kernel 100) 0"
proof -
  have "id_call 0 (ex_kernel 100) (snd (seteuid 5 0 100 (ex_kernel 100)))"
    by (rule call_seteuid [where new = 5 and uid = 100 and e = "fst (seteuid 5 0 100 (ex_kernel 100))"])
      (simp_all add: ex_kernel_def)
  then have r: "reach (\<lambda>k. k = ex_kernel 100) (id_call 0) (snd (seteuid 5 0 100 (ex_kernel 100)))"
    by (intro reach_step [OF reach_init]) auto
  have "0 \<notin> uids (ex_kernel 100) 0"
    by (simp add: uids_def ex_kernel_def ex_proc_def ex_cred_def p_ucred_def proc_at_def)
  with unprivileged_confined [OF ex_kernel_inv _ _ r, of "ex_proc 100"] show ?thesis
    by (simp add: ex_kernel_def)
qed

lemma setuid_success:
  assumes "cred_inv held k" and "kc_proc k p = Some pr" and "kc_heap k new = None"
    and "setuid new p uid k = (None, k')"
  shows "uids k' p = {uid} \<and> cred_inv held k' \<and> (\<exists>pr'. kc_proc k' p = Some pr')"
proof -
  obtain k1 where n: "need_suser (uid \<noteq> p_ruid (p_cred (proc_at k p))) p k = (None, k1)"
    and k': "k' = change_cred new p (\<lambda>c. c\<lparr>cr_uid := uid\<rparr>) (\<lambda>pc. pc\<lparr>p_ruid := uid, p_svuid := uid\<rparr>) k1"
    using assms(4) by (auto simp: setuid_def split: prod.splits option.splits)
  note fr = flag_change_frame [OF need_suser_flag [OF n assms(2)] assms(2)]
  obtain pr1 where p1: "kc_proc k1 p = Some pr1" using fr(5) by blast
  have i1: "cred_inv held k1" and h1: "kc_heap k1 new = None" using fr(1,6) assms(1,3) by simp_all
  from change_cred_self [OF i1 p1 h1 id_change_intros(3), of uid uid uid]
  have "uids k' p = {uid}" by (auto simp: k' uids_def)
  moreover have "id_call p k k'" using assms(3,4) by (rule call_setuid)
  ultimately show ?thesis
    using call_shape_inv [OF id_call_shape [OF _ assms(2)] assms(1,2)] by blast
qed

text \<open>
  Property C9. Giving up privilege with \<^verbatim>\<open>setuid\<close> is permanent: once a call of \<^verbatim>\<open>setuid\<close> with a
  user id other than 0 has succeeded, the process has that id as its real, effective and saved
  user id after every further sequence of identity calls.
\<close>

theorem setuid_drop_permanent:
  assumes "cred_inv held k" and "kc_proc k p = Some pr" and "kc_heap k new = None"
    and "setuid new p uid k = (None, k0)" and "uid \<noteq> 0"
    and "reach (\<lambda>k. k = k0) (id_call p) k'"
  shows "uids k' p = {uid}"
proof -
  from setuid_success [OF assms(1-4)] obtain pr0 where u0: "uids k0 p = {uid}"
    and i0: "cred_inv held k0" and p0: "kc_proc k0 p = Some pr0" by blast
  let ?rest = "(cr_ngroups (p_ucred k0 p), tl (cr_groups (p_ucred k0 p)))"
  have "unpriv_inv held p {uid} (gids k0 p) ?rest k0"
    using u0 i0 p0 assms(5) by (auto simp: unpriv_inv_def)
  then have "unpriv_inv held p {uid} (gids k0 p) ?rest k'"
    using unpriv.reach_inv [of k0 held p "{uid}" "gids k0 p" ?rest k'] assms(6) by simp
  then show ?thesis by (auto simp: unpriv_inv_def uids_def)
qed

theorem setuid_drop_permanent_witness:
  "\<exists>k0. setuid 5 0 100 (ex_kernel 0) = (None, k0) \<and> uids k0 0 = {100}"
proof -
  obtain k0 where k0: "setuid 5 0 100 (ex_kernel 0) = (None, k0)"
    by (simp add: setuid_def need_suser_def suser_def ex_kernel_def ex_proc_def ex_cred_def
        proc_at_def p_ucred_def)
  have "reach (\<lambda>k. k = k0) (id_call 0) k0" by (rule reach_init) simp
  from setuid_drop_permanent [OF ex_kernel_inv _ _ k0 _ this, of "ex_proc 0"] k0 show ?thesis
    by (simp add: ex_kernel_def)
qed

text \<open>
  Property C10. The reference counts stay exact in every state reachable by identity calls of any
  set of processes, in any interleaving: each credential's count is the number of processes and
  open files that hold it, and no process holds a freed one.
\<close>

theorem cred_counts_exact:
  assumes "cred_inv held k0" and "\<forall>p \<in> P. kc_proc k0 p \<noteq> None"
    and "reach (\<lambda>k. k = k0) (\<lambda>k k'. \<exists>p \<in> P. id_call p k k') k"
  shows "cred_inv held k"
  using counted.reach_inv [of k0 held P k] assms by simp

theorem cred_counts_exact_witness: "cred_inv (\<lambda>_. 0) (snd (setuid 5 0 100 (ex_kernel 0)))"
proof -
  have "id_call 0 (ex_kernel 0) (snd (setuid 5 0 100 (ex_kernel 0)))"
    by (rule call_setuid [where new = 5 and uid = 100 and e = "fst (setuid 5 0 100 (ex_kernel 0))"])
      (simp_all add: ex_kernel_def)
  then have "reach (\<lambda>k. k = ex_kernel 0) (\<lambda>k k'. \<exists>p \<in> {0, 1}. id_call p k k')
      (snd (setuid 5 0 100 (ex_kernel 0)))"
    by (intro reach_step [OF reach_init]) auto
  with cred_counts_exact [OF ex_kernel_inv, of "{0, 1}"] show ?thesis by (simp add: ex_kernel_def)
qed

text \<open>
  \<^verbatim>\<open>fork\<close> shares the parent's credential with the child: as long as the 16-bit
  reference count has room, the counts stay exact, the child has the parent's identity and no
  other process changes.
\<close>

lemma fork_cred_shares:
  assumes inv: "cred_inv held k" and p1: "kc_proc k p1 = Some pr" and p2: "kc_proc k p2 = None"
    and room: "unat (cr_ref (p_ucred k p1)) < 65535"
  shows "cred_inv held (fork_cred p1 p2 k) \<and> ids_of (fork_cred p1 p2 k) p2 = ids_of k p1 \<and>
    (\<forall>q. q \<noteq> p2 \<longrightarrow> ids_of (fork_cred p1 p2 k) q = ids_of k q)"
proof (intro conjI allI impI)
  let ?a = "pc_ucred (p_cred pr)" and ?k = "fork_cred p1 p2 k"
  obtain c where c: "kc_heap k ?a = Some c" using cred_inv_proc [OF inv p1] by blast
  have hk: "kc_heap ?k = (kc_heap k)(?a \<mapsto> c\<lparr>cr_ref := cr_ref c + 1\<rparr>)"
    using p1 c by (simp add: fork_cred_def crhold_def proc_at_def)
  have ho: "holders ?k b = (if b = ?a then insert p2 (holders k b) else holders k b)" for b
    using p1 p2 by (auto simp: fork_cred_def holders_def proc_at_def split: if_splits)
  have r: "unat (cr_ref c + 1) = unat (cr_ref c) + 1"
    using room c p1 by (simp add: p_ucred_def proc_at_def unat_word_ariths)
  have np: "p2 \<notin> holders k ?a" using p2 by (auto simp: holders_def)
  show "cred_inv held ?k"
    unfolding cred_inv_def
  proof (intro conjI allI)
    show "finite (dom (kc_proc ?k))" using inv by (simp add: fork_cred_def cred_inv_def)
    fix b
    show "case kc_heap ?k b of None \<Rightarrow> holders ?k b = {} \<and> held b = 0
      | Some c' \<Rightarrow> unat (cr_ref c') = card (holders ?k b) + held b \<and>
          0 < card (holders ?k b) + held b \<and> length (cr_groups c') = NGROUPS"
    proof (cases "b = ?a")
      case True
      with cred_invD [OF inv c] r np finite_holders [OF inv, of ?a] show ?thesis by (simp add: hk ho)
    next
      case False
      then have hb: "kc_heap ?k b = kc_heap k b" and hob: "holders ?k b = holders k b"
        by (simp_all add: hk ho)
      show ?thesis unfolding hb hob using inv by (simp only: cred_inv_def)
    qed
  qed
  show "ids_of ?k p2 = ids_of k p1"
    using p1 c hk by (auto simp: ids_of_def p_ucred_def proc_at_def fork_cred_def crhold_def Let_def)
  fix q assume "q \<noteq> p2"
  then show "ids_of ?k q = ids_of k q"
    using p1 c by (auto simp: ids_of_def p_ucred_def proc_at_def fork_cred_def crhold_def Let_def)
qed

theorem fork_cred_shares_example:
  "cred_inv (\<lambda>_. 0) (fork_cred 0 2 (ex_kernel 100)) \<and>
   ids_of (fork_cred 0 2 (ex_kernel 100)) 2 = ids_of (ex_kernel 100) 0"
  using fork_cred_shares [OF ex_kernel_inv, of 100 0 "ex_proc 100" 2]
  by (simp add: ex_kernel_def p_ucred_def proc_at_def ex_proc_def ex_cred_def)

lemma groupmember_iff:
  "groupmember gid c \<longleftrightarrow> gid \<in> set (take (nat (cr_ngroups c)) (cr_groups c))"
proof -
  have "member_upto gid gs n \<longleftrightarrow> gid \<in> set (take n gs)" for gs n
    by (induction gid gs n rule: member_upto.induct) auto
  then show ?thesis by (simp add: groupmember_def)
qed

end
