(* ===== verification/Lockf.thy ===== *)
theory Lockf
  imports Prelude
begin

text \<open>
  Advisory byte-range locks, \<^verbatim>\<open>sys/ufs/ufs_lockf.c\<close> with \<^verbatim>\<open>struct lockf\<close> of
  \<^verbatim>\<open>sys/ufs/lockf.h\<close>.

  The locks granted on an inode are a list, linked by \<^verbatim>\<open>lf_next\<close>; \<open>lf_addr\<close> is the address of
  the structure. The pointer \<^verbatim>\<open>prev\<close> of the C code is the boundary between the part of the list
  that was passed and the part still to be looked at: every function below takes the part from its
  \<^verbatim>\<open>lf\<close> or \<^verbatim>\<open>block\<close> argument on and gives the part that replaces it. The list of requests blocked
  by a lock, linked by \<^verbatim>\<open>lf_block\<close>, is the list of their addresses. A request that sleeps keeps
  in \<^verbatim>\<open>lf_next\<close> the address of the lock that blocked it, null once it was woken. The address that
  \<^verbatim>\<open>MALLOC\<close> returns for a split is an argument. An \<^verbatim>\<open>off_t\<close> is 32 bits: the one addition the code
  does to an offset wraps.
\<close>

section \<open>Locks\<close>

datatype ltype = F_RDLCK | F_UNLCK | F_WRLCK

record lockf =
  lf_addr :: nat
  lf_posix :: bool
  lf_flock :: bool
  lf_wait :: bool
  lf_type :: ltype
  lf_start :: int
  lf_end :: int
  lf_id :: nat
  lf_block :: "nat list"

definition off_succ :: "int \<Rightarrow> int" where
  "off_succ x = (if x = 2147483647 then - 2147483648 else x + 1)"

datatype whose = SELF | OTHERS

text \<open>How the lock \<open>lf\<close> overlaps the request, when it does: the case number, 6 for the panic.\<close>

definition lf_ovcase :: "lockf \<Rightarrow> lockf \<Rightarrow> nat" where
  "lf_ovcase lock lf =
     (let start = lf_start lock; end' = lf_end lock in
      if lf_start lf = start \<and> lf_end lf = end' then 1
      else if lf_start lf \<le> start \<and> end' \<noteq> -1 \<and> (lf_end lf \<ge> end' \<or> lf_end lf = -1) then 2
      else if start \<le> lf_start lf \<and> (end' = -1 \<or> (lf_end lf \<noteq> -1 \<and> end' \<ge> lf_end lf)) then 3
      else if lf_start lf < start \<and> (lf_end lf \<ge> start \<or> lf_end lf = -1) then 4
      else if lf_start lf > start \<and> end' \<noteq> -1 \<and> (lf_end lf > end' \<or> lf_end lf = -1) then 5
      else 6)"

text \<open>Walk the list to the first overlapping lock: the case number, the locks that were passed, and
  the rest, whose head is the overlap in the cases 1 to 6.\<close>

fun lf_findoverlap :: "lockf \<Rightarrow> whose \<Rightarrow> lockf list \<Rightarrow> nat \<times> lockf list \<times> lockf list" where
  "lf_findoverlap lock type [] = (0, [], [])"
| "lf_findoverlap lock type (lf # ls) =
     (let start = lf_start lock; end' = lf_end lock;
          next = (case lf_findoverlap lock type ls of (c, passed, rest) \<Rightarrow> (c, lf # passed, rest)) in
      if (type = SELF \<and> lf_id lf \<noteq> lf_id lock) \<or> (type = OTHERS \<and> lf_id lf = lf_id lock) then next
      else if (lf_end lf \<noteq> -1 \<and> start > lf_end lf) \<or> (end' \<noteq> -1 \<and> lf_start lf > end') then
        (if type = SELF \<and> end' \<noteq> -1 \<and> lf_start lf > end' then (0, [], lf # ls) else next)
      else (lf_ovcase lock lf, [], lf # ls))"

lemma lf_findoverlap_split:
  "lf_findoverlap lock w ls = (c, passed, rest) \<Longrightarrow> ls = passed @ rest \<and> (c \<noteq> 0 \<longrightarrow> rest \<noteq> [])"
  by (induction lock w ls arbitrary: c passed rest rule: lf_findoverlap.induct)
    (auto simp: Let_def split: if_splits prod.splits)

lemma lf_findoverlap_shorter:
  "(c, passed, ov # rest) = lf_findoverlap lock w ls \<Longrightarrow> length rest < length ls"
  by (drule sym, drule lf_findoverlap_split) simp

text \<open>The first lock of another owner that blocks the request.\<close>

function lf_getblock :: "lockf \<Rightarrow> lockf list \<Rightarrow> lockf option" where
  "lf_getblock lock ls = (case lf_findoverlap lock OTHERS ls of
     (c, passed, []) \<Rightarrow> None
   | (c, passed, ov # rest) \<Rightarrow>
       if c = 0 then None
       else if lf_type lock = F_WRLCK \<or> lf_type ov = F_WRLCK then Some ov
       else lf_getblock lock rest)"
  by pat_completeness auto
termination
  by (relation "measure (\<lambda>(lock, ls). length ls)") (auto dest: lf_findoverlap_shorter)

text \<open>\<^verbatim>\<open>struct flock\<close> as \<^verbatim>\<open>lf_getlock\<close> fills it; \<open>None\<close> for the fields it leaves alone.\<close>

record flock_info =
  l_type :: ltype
  l_range :: "(int \<times> int) option"
  l_pid :: "int option"

definition lf_getlock :: "(nat \<Rightarrow> int) \<Rightarrow> lockf \<Rightarrow> lockf list \<Rightarrow> flock_info" where
  "lf_getlock pid_of lock ls = (case lf_getblock lock ls of
     Some block \<Rightarrow> \<lparr>l_type = lf_type block,
       l_range = Some (lf_start block, if lf_end block = -1 then 0 else lf_end block - lf_start block + 1),
       l_pid = Some (if lf_posix block then pid_of (lf_id block) else -1)\<rparr>
   | None \<Rightarrow> \<lparr>l_type = F_UNLCK, l_range = None, l_pid = None\<rparr>)"

definition lf_addblock :: "lockf \<Rightarrow> nat list \<Rightarrow> lockf" where
  "lf_addblock lock blocked = lock\<lparr>lf_block := lf_block lock @ blocked\<rparr>"

text \<open>
  \<^verbatim>\<open>lf_wakelock\<close>: the requests that are woken, and the lock with an empty blocked list.
\<close>

definition lf_wakelock :: "lockf \<Rightarrow> nat list \<times> lockf" where
  "lf_wakelock lk = (lf_block lk, lk\<lparr>lf_block := []\<rparr>)"

text \<open>
  What follows \<open>lock1\<close>'s predecessor after the split. In the first case the code links \<open>lock2\<close>
  in front of \<open>lock1\<close> without changing the predecessor.
\<close>

definition lf_split :: "nat \<Rightarrow> lockf \<Rightarrow> lockf \<Rightarrow> lockf list" where
  "lf_split new lock1 lock2 =
     (if lf_start lock1 = lf_start lock2 then [lock1\<lparr>lf_start := off_succ (lf_end lock2)\<rparr>]
      else if lf_end lock1 = lf_end lock2 then [lock1\<lparr>lf_end := lf_start lock2 - 1\<rparr>, lock2]
      else [lock1\<lparr>lf_end := lf_start lock2 - 1\<rparr>, lock2,
            lock1\<lparr>lf_addr := new, lf_start := off_succ (lf_end lock2), lf_block := []\<rparr>])"

text \<open>
  \<^verbatim>\<open>lf_clearlock\<close> on the list from \<^verbatim>\<open>lf\<close> on: the new list and the requests woken. In case 2 the
  split links the unlock request in after the overlap and the code unlinks it again.
\<close>

function lf_clearlock :: "nat \<Rightarrow> lockf \<Rightarrow> lockf list \<Rightarrow> lockf list \<times> nat list" where
  "lf_clearlock new unlock ls = (case lf_findoverlap unlock SELF ls of
     (c, passed, []) \<Rightarrow> (passed, [])
   | (c, passed, ov # rest) \<Rightarrow>
       if c = 0 then (passed @ ov # rest, [])
       else (case lf_wakelock ov of (woken, ov') \<Rightarrow>
         if c = 1 then (passed @ rest, woken)
         else if c = 2 then
           (if lf_start ov' = lf_start unlock
            then (passed @ ov'\<lparr>lf_start := off_succ (lf_end unlock)\<rparr> # rest, woken)
            else (passed @ (case lf_split new ov' unlock of
                     l1 # l2 # fs \<Rightarrow> l1 # fs | frag \<Rightarrow> frag) @ rest, woken))
         else if c = 3 then
           (case lf_clearlock new unlock rest of (ls', w) \<Rightarrow> (passed @ ls', woken @ w))
         else if c = 4 then
           (case lf_clearlock new unlock rest of (ls', w) \<Rightarrow>
              (passed @ ov'\<lparr>lf_end := lf_start unlock - 1\<rparr> # ls', woken @ w))
         else if c = 5 then (passed @ ov'\<lparr>lf_start := off_succ (lf_end unlock)\<rparr> # rest, woken)
         else (ls, [])))"
  by pat_completeness auto
termination
  by (relation "measure (\<lambda>(new, unlock, ls). length ls)") (auto dest: lf_findoverlap_shorter)

text \<open>
  The second half of \<^verbatim>\<open>lf_setlock\<close>, from the comment \<open>No blocks!!\<close> on: the list from \<^verbatim>\<open>block\<close>
  on, the requests that end up blocked on the new lock, and the requests woken. \<open>needtolink\<close> is
  the flag of that name. A lock that was linked in an earlier turn keeps collecting blocked
  requests; \<open>lf_setlock_grant\<close> stores them when the loop is over.
\<close>

function lf_insert :: "nat \<Rightarrow> lockf \<Rightarrow> bool \<Rightarrow> lockf list \<Rightarrow> lockf list \<times> nat list \<times> nat list" where
  "lf_insert new lock needtolink ls = (case lf_findoverlap lock SELF ls of
     (c, passed, []) \<Rightarrow> (if needtolink then passed @ [lock] else passed, lf_block lock, [])
   | (c, passed, ov # rest) \<Rightarrow>
       if c = 0 then
         (if needtolink then passed @ lock # ov # rest else passed @ ov # rest, lf_block lock, [])
       else if c = 1 then
         (if lf_type lock = F_RDLCK \<and> lf_type ov = F_WRLCK
          then (case lf_wakelock ov of (w, ov') \<Rightarrow>
                  (passed @ ov'\<lparr>lf_type := lf_type lock\<rparr> # rest, lf_block lock, w))
          else (passed @ ov\<lparr>lf_type := lf_type lock\<rparr> # rest, lf_block lock, []))
       else if c = 2 then
         (if lf_type ov = lf_type lock then (passed @ ov # rest, lf_block lock, [])
          else (case lf_wakelock ov of (w, ov') \<Rightarrow>
            (if lf_start ov' = lf_start lock
             then (passed @ lock # ov'\<lparr>lf_start := off_succ (lf_end lock)\<rparr> # rest, lf_block lock, w)
             else (passed @ lf_split new ov' lock @ rest, lf_block lock, w))))
       else if c = 3 then
         (let (lock', w) = (if lf_type lock = F_RDLCK \<and> lf_type ov = F_WRLCK
                            then (lock, fst (lf_wakelock ov))
                            else (lf_addblock (lock\<lparr>lf_block := lf_block ov\<rparr>) (lf_block lock), [])) in
          case lf_insert new lock' False rest of (ls', b, w') \<Rightarrow>
            (if needtolink then passed @ lock' # ls' else passed @ ls', b, w @ w'))
       else if c = 4 then
         (case lf_wakelock ov of (w, ov') \<Rightarrow>
            (case lf_insert new lock False rest of (ls', b, w') \<Rightarrow>
              (passed @ ov'\<lparr>lf_end := lf_start lock - 1\<rparr> # lock # ls', b, w @ w')))
       else if c = 5 then
         (case lf_wakelock ov of (w, ov') \<Rightarrow>
            ((if needtolink then passed @ lock # ov'\<lparr>lf_start := off_succ (lf_end lock)\<rparr> # rest
              else passed @ ov'\<lparr>lf_start := off_succ (lf_end lock)\<rparr> # rest), lf_block lock, w))
       else (ls, lf_block lock, []))"
  by pat_completeness auto
termination
  by (relation "measure (\<lambda>(new, lock, n, ls). length ls)") (auto dest: lf_findoverlap_shorter)

definition lf_setlock_grant :: "nat \<Rightarrow> lockf \<Rightarrow> lockf list \<Rightarrow> lockf list \<times> nat list" where
  "lf_setlock_grant new lock ls = (case lf_insert new lock True ls of (ls', b, w) \<Rightarrow>
     (map (\<lambda>l. if lf_addr l = lf_addr lock then l\<lparr>lf_block := b\<rparr> else l) ls', w))"

section \<open>Sleeping and waking\<close>

text \<open>
  All the locks of the system: the list of each inode and the requests that sleep, by address, with
  their inode and their \<^verbatim>\<open>lf_next\<close>. The wait channels belong to \<^verbatim>\<open>kern_synch.c\<close>, which is not part of
  the repository: \<open>wchan p\<close>, an argument, is \<^verbatim>\<open>p_wchan\<close> of the process \<open>p\<close> when it sleeps with the
  message \<^verbatim>\<open>lockstr\<close>. When \<^verbatim>\<open>tsleep\<close> returns is a step of its own.
\<close>

record sleeper =
  sl_lock :: lockf
  sl_inode :: nat
  sl_next :: "nat option"

record locks =
  i_lockf :: "nat \<Rightarrow> lockf list"
  sleepers :: "nat \<Rightarrow> sleeper option"

definition maxlockdepth :: nat where "maxlockdepth = 50"

text \<open>The lock structure at an address: granted on some inode of \<open>inodes\<close>, or a sleeping request.\<close>

definition lock_at :: "nat list \<Rightarrow> locks \<Rightarrow> nat \<Rightarrow> lockf option" where
  "lock_at inodes s a = (case List.find (\<lambda>l. lf_addr l = a) (concat (map (i_lockf s) inodes)) of
     Some l \<Rightarrow> Some l
   | None \<Rightarrow> map_option sl_lock (sleepers s a))"

datatype dl_result = NoDeadlock | Deadlock | Dangling

text \<open>
  The deadlock scan: \<open>n\<close> turns are left, \<open>wproc\<close> is the process looked at. A wait channel or a
  blocking lock whose structure is gone is \<open>Dangling\<close>: the code would read freed memory.
\<close>

fun lf_deadlock :: "(nat \<Rightarrow> nat option) \<Rightarrow> nat list \<Rightarrow> locks \<Rightarrow> nat \<Rightarrow> nat \<Rightarrow> nat \<Rightarrow> dl_result" where
  "lf_deadlock wchan inodes s me wproc 0 = NoDeadlock"
| "lf_deadlock wchan inodes s me wproc (Suc n) = (case wchan wproc of
     None \<Rightarrow> NoDeadlock
   | Some a \<Rightarrow> (case sleepers s a of
       None \<Rightarrow> Dangling
     | Some sl \<Rightarrow> (case sl_next sl of
         None \<Rightarrow> Dangling
       | Some b \<Rightarrow> (case lock_at inodes s b of
           None \<Rightarrow> Dangling
         | Some waitblock \<Rightarrow>
             if \<not> lf_posix waitblock then NoDeadlock
             else if lf_id waitblock = me then Deadlock
             else lf_deadlock wchan inodes s me (lf_id waitblock) n))))"

text \<open>\<^verbatim>\<open>lf_wakelock\<close>'s effect on the requests it wakes: \<^verbatim>\<open>lf_next\<close> becomes null.\<close>

definition wake :: "nat list \<Rightarrow> locks \<Rightarrow> locks" where
  "wake w s = s\<lparr>sleepers := (\<lambda>a. if a \<in> set w then map_option (\<lambda>sl. sl\<lparr>sl_next := None\<rparr>) (sleepers s a)
                                 else sleepers s a)\<rparr>"

definition lf_unlock :: "nat \<Rightarrow> nat \<Rightarrow> lockf \<Rightarrow> locks \<Rightarrow> locks" where
  "lf_unlock new ino unlock s = (case lf_clearlock new unlock (i_lockf s ino) of
     (ls, w) \<Rightarrow> wake w (s\<lparr>i_lockf := (i_lockf s)(ino := ls)\<rparr>))"

datatype lf_out = Granted | Failed errno | Asleep | Corrupt

text \<open>One turn of the blocking loop of \<^verbatim>\<open>lf_setlock\<close>, up to \<^verbatim>\<open>tsleep\<close> or to the grant.\<close>

definition lf_setlock :: "(nat \<Rightarrow> nat option) \<Rightarrow> nat list \<Rightarrow> nat \<Rightarrow> nat \<Rightarrow> lockf \<Rightarrow> locks \<Rightarrow> lf_out \<times> locks" where
  "lf_setlock wchan inodes new ino lock s = (case lf_getblock lock (i_lockf s ino) of
     None \<Rightarrow>
       (case lf_setlock_grant new lock (i_lockf s ino) of (ls, w) \<Rightarrow>
          (Granted, wake w (s\<lparr>i_lockf := (i_lockf s)(ino := ls)\<rparr>)))
   | Some block \<Rightarrow>
       if \<not> lf_wait lock then (Failed EAGAIN, s)
       else
         (case (if lf_posix lock \<and> lf_posix block
                then lf_deadlock wchan inodes s (lf_id lock) (lf_id block) maxlockdepth else NoDeadlock) of
            Deadlock \<Rightarrow> (Failed EDEADLK, s)
          | Dangling \<Rightarrow> (Corrupt, s)
          | NoDeadlock \<Rightarrow>
              (let s1 = (if lf_flock lock \<and> lf_type lock = F_WRLCK
                         then lf_unlock new ino (lock\<lparr>lf_type := F_UNLCK\<rparr>) s else s) in
               (Asleep, s1\<lparr>i_lockf := (i_lockf s1)(ino := map (\<lambda>l. if lf_addr l = lf_addr block
                              then lf_addblock l [lf_addr lock] else l) (i_lockf s1 ino)),
                           sleepers := (sleepers s1)(lf_addr lock \<mapsto>
                              \<lparr>sl_lock = lock, sl_inode = ino, sl_next = Some (lf_addr block)\<rparr>)\<rparr>))))"

text \<open>The process with the request at address \<open>a\<close> runs again.\<close>

definition get_up :: "nat \<Rightarrow> locks \<Rightarrow> locks" where
  "get_up a s = s\<lparr>sleepers := (sleepers s)(a := None)\<rparr>"

text \<open>
  \<^verbatim>\<open>tsleep\<close> returned an error: take the request off the blocked list it is still on. When the lock
  that blocked it is no longer on the inode's list, the walk starts in freed memory.
\<close>

definition lf_interrupted :: "errno \<Rightarrow> nat \<Rightarrow> sleeper \<Rightarrow> locks \<Rightarrow> lf_out \<times> locks" where
  "lf_interrupted err a sl s = (let s1 = get_up a s; ino = sl_inode sl in
     case sl_next sl of
       None \<Rightarrow> (Failed err, s1)
     | Some b \<Rightarrow>
         if b \<in> lf_addr ` set (i_lockf s1 ino) then
           (Failed err, s1\<lparr>i_lockf := (i_lockf s1)(ino := map (\<lambda>l. if lf_addr l = b
              then l\<lparr>lf_block := removeAll a (lf_block l)\<rparr> else l) (i_lockf s1 ino))\<rparr>)
         else (Corrupt, s1))"

section \<open>Ranges\<close>

text \<open>
  The ranges the callers may pass (\<open>legal_range\<close>): from a byte that is not negative to the end of file
  (\<open>-1\<close>) or to any byte from there on, the last \<^verbatim>\<open>off_t\<close>, 2147483647, included: neither
  \<^verbatim>\<open>lf_advlock\<close> nor fcntl(2) has a further bound. The ranges the theorems are about (\<open>safe_range\<close>) leave
  out that last byte as the end of a range. The exclusion is needed: \<^verbatim>\<open>lf_split\<close> and \<^verbatim>\<open>lf_clearlock\<close>
  compute \<^verbatim>\<open>lf_end + 1\<close>, which wraps there (\<^verbatim>\<open>ufs_lockf.c:613\<close>); the lemmas \<open>lf_split_end_wraps\<close> and
  \<open>legal_ranges_break_exclusion\<close> below show what the code does then.
\<close>

definition legal_range :: "lockf \<Rightarrow> bool" where
  "legal_range l \<longleftrightarrow> 0 \<le> lf_start l \<and> lf_start l \<le> 2147483647 \<and>
     (lf_end l = -1 \<or> lf_start l \<le> lf_end l \<and> lf_end l \<le> 2147483647)"

definition safe_range :: "lockf \<Rightarrow> bool" where
  "safe_range l \<longleftrightarrow> 0 \<le> lf_start l \<and> lf_start l \<le> 2147483647 \<and>
     (lf_end l = -1 \<or> lf_start l \<le> lf_end l \<and> lf_end l < 2147483647)"

definition covers :: "lockf \<Rightarrow> int \<Rightarrow> bool" where
  "covers l b \<longleftrightarrow> lf_start l \<le> b \<and> (lf_end l = -1 \<or> b \<le> lf_end l)"

definition overlaps :: "lockf \<Rightarrow> lockf \<Rightarrow> bool" where
  "overlaps a b \<longleftrightarrow> (lf_end b = -1 \<or> lf_start a \<le> lf_end b) \<and> (lf_end a = -1 \<or> lf_start b \<le> lf_end a)"

definition conflict :: "lockf \<Rightarrow> lockf \<Rightarrow> bool" where
  "conflict a b \<longleftrightarrow> lf_id a \<noteq> lf_id b \<and> overlaps a b \<and> (lf_type a = F_WRLCK \<or> lf_type b = F_WRLCK)"

definition ends_before :: "lockf \<Rightarrow> lockf \<Rightarrow> bool" where
  "ends_before a b \<longleftrightarrow> lf_end a \<noteq> -1 \<and> lf_end a < lf_start b"

text \<open>The list of an inode: the locks of one owner are disjoint and in ascending order.\<close>

definition own_before :: "lockf \<Rightarrow> lockf \<Rightarrow> bool" where
  "own_before a b \<longleftrightarrow> (lf_id a = lf_id b \<longrightarrow> ends_before a b)"

definition wf_locks :: "lockf list \<Rightarrow> bool" where
  "wf_locks ls \<longleftrightarrow> list_all safe_range ls \<and> sorted_wrt own_before ls"

text \<open>The owner \<open>i\<close> has the byte \<open>b\<close> locked with type \<open>t\<close>.\<close>

definition holds :: "lockf list \<Rightarrow> nat \<Rightarrow> int \<Rightarrow> ltype \<Rightarrow> bool" where
  "holds ls i b t \<longleftrightarrow> list_ex (\<lambda>l. lf_id l = i \<and> covers l b \<and> lf_type l = t) ls"

lemma holds_simps [simp]:
  "\<not> holds [] i b t"
  "holds (l # ls) i b t \<longleftrightarrow> lf_id l = i \<and> covers l b \<and> lf_type l = t \<or> holds ls i b t"
  "holds (as @ bs) i b t \<longleftrightarrow> holds as i b t \<or> holds bs i b t"
  by (simp_all add: holds_def)

lemma holds_iff: "holds ls i b t \<longleftrightarrow> (\<exists>l \<in> set ls. lf_id l = i \<and> covers l b \<and> lf_type l = t)"
  by (auto simp: holds_def list_ex_iff)

lemma wf_locks_simps [simp]:
  "wf_locks []"
  "wf_locks (l # ls) \<longleftrightarrow> safe_range l \<and> wf_locks ls \<and> (\<forall>m \<in> set ls. own_before l m)"
  "wf_locks (as @ bs) \<longleftrightarrow> wf_locks as \<and> wf_locks bs \<and> (\<forall>l \<in> set as. \<forall>m \<in> set bs. own_before l m)"
  by (auto simp: wf_locks_def sorted_wrt_append)

lemma wf_locks_valid: "wf_locks ls \<Longrightarrow> l \<in> set ls \<Longrightarrow> safe_range l"
  by (simp add: wf_locks_def list_all_iff)

lemma overlaps_byte:
  assumes "safe_range a" and "safe_range b"
  shows "overlaps a b \<longleftrightarrow> (\<exists>x. covers a x \<and> covers b x)"
proof
  assume "overlaps a b"
  then have "covers a (max (lf_start a) (lf_start b)) \<and> covers b (max (lf_start a) (lf_start b))"
    using assms by (auto simp: overlaps_def covers_def safe_range_def)
  then show "\<exists>x. covers a x \<and> covers b x" by blast
next
  assume "\<exists>x. covers a x \<and> covers b x"
  then show "overlaps a b" by (auto simp: overlaps_def covers_def)
qed

text \<open>The geometry behind the case numbers of \<^verbatim>\<open>lf_findoverlap\<close>.\<close>

definition ov_case :: "nat \<Rightarrow> lockf \<Rightarrow> lockf \<Rightarrow> bool" where
  "ov_case c lock ov \<longleftrightarrow>
     c = 1 \<and> lf_start ov = lf_start lock \<and> lf_end ov = lf_end lock
   \<or> c = 2 \<and> lf_start ov \<le> lf_start lock \<and> lf_end lock \<noteq> -1
       \<and> (lf_end ov \<ge> lf_end lock \<or> lf_end ov = -1)
       \<and> \<not> (lf_start ov = lf_start lock \<and> lf_end ov = lf_end lock)
   \<or> c = 3 \<and> lf_start lock \<le> lf_start ov
       \<and> (lf_end lock = -1 \<or> lf_end ov \<noteq> -1 \<and> lf_end ov \<le> lf_end lock)
   \<or> c = 4 \<and> lf_start ov < lf_start lock \<and> (lf_start lock \<le> lf_end ov \<or> lf_end ov = -1)
       \<and> (lf_end lock = -1 \<or> lf_end ov \<noteq> -1 \<and> lf_end ov < lf_end lock)
   \<or> c = 5 \<and> lf_start lock < lf_start ov \<and> lf_end lock \<noteq> -1 \<and> lf_start ov \<le> lf_end lock
       \<and> (lf_end lock < lf_end ov \<or> lf_end ov = -1)"

lemma lf_ovcase_geometry:
  assumes "overlaps lock lf" and "safe_range lock" and "safe_range lf"
  shows "ov_case (lf_ovcase lock lf) lock lf" and "lf_ovcase lock lf \<noteq> 0"
proof -
  show "ov_case (lf_ovcase lock lf) lock lf"
    using assms unfolding lf_ovcase_def Let_def ov_case_def overlaps_def safe_range_def
    by (simp split: if_split) linarith
  show "lf_ovcase lock lf \<noteq> 0" by (simp add: lf_ovcase_def Let_def)
qed

lemma findoverlap_self:
  assumes "lf_findoverlap lock SELF ls = (c, passed, rest)" and "safe_range lock" and "wf_locks ls"
  shows "(\<forall>l \<in> set passed. lf_id l = lf_id lock \<longrightarrow> ends_before l lock) \<and>
    (if c = 0 then rest = [] \<or> lf_id (hd rest) = lf_id lock \<and> ends_before lock (hd rest)
     else lf_id (hd rest) = lf_id lock \<and> ov_case c lock (hd rest))"
  using assms
proof (induction ls arbitrary: c passed rest)
  case (Cons lf ls)
  obtain c' p r where r: "lf_findoverlap lock SELF ls = (c', p, r)"
    by (metis prod.exhaust)
  from Cons.prems have v: "safe_range lf" and wf: "wf_locks ls" by simp_all
  note IH = Cons.IH [OF r Cons.prems(2) wf]
  consider (other) "lf_id lf \<noteq> lf_id lock" | (ov) "lf_id lf = lf_id lock" "overlaps lock lf"
    | (stop) "lf_id lf = lf_id lock" "ends_before lock lf"
    | (past) "lf_id lf = lf_id lock" "\<not> overlaps lock lf" "\<not> ends_before lock lf"
    by blast
  then show ?case
  proof cases
    case other
    then have "c = c'" "passed = lf # p" "rest = r" using Cons.prems(1) r by (simp_all add: Let_def)
    with IH other show ?thesis by simp
  next
    case ov
    then have "c = lf_ovcase lock lf" "passed = []" "rest = lf # ls"
      using Cons.prems(1) by (auto simp: overlaps_def Let_def split: if_splits)
    with ov lf_ovcase_geometry [OF ov(2) Cons.prems(2) v] show ?thesis by simp
  next
    case stop
    then have "c = 0" "passed = []" "rest = lf # ls"
      using Cons.prems(1) by (auto simp: ends_before_def Let_def split: if_splits)
    with stop show ?thesis by simp
  next
    case past
    then have "c = c'" "passed = lf # p" "rest = r" and "ends_before lf lock"
      using Cons.prems(1) r by (auto simp: overlaps_def ends_before_def Let_def split: if_splits)
    with IH show ?thesis by simp
  qed
qed simp

lemma findoverlap_others:
  assumes "lf_findoverlap lock OTHERS ls = (c, passed, rest)" and "safe_range lock"
    and "list_all safe_range ls"
  shows "(\<forall>l \<in> set passed. lf_id l = lf_id lock \<or> \<not> overlaps lock l) \<and>
    (if c = 0 then rest = []
     else lf_id (hd rest) \<noteq> lf_id lock \<and> overlaps lock (hd rest) \<and> ov_case c lock (hd rest))"
  using assms
proof (induction ls arbitrary: c passed rest)
  case (Cons lf ls)
  obtain c' p r where r: "lf_findoverlap lock OTHERS ls = (c', p, r)"
    by (metis prod.exhaust)
  from Cons.prems have v: "safe_range lf" and all: "list_all safe_range ls" by simp_all
  show ?case
  proof (cases "lf_id lf \<noteq> lf_id lock \<and> overlaps lock lf")
    case True
    then have "c = lf_ovcase lock lf" "passed = []" "rest = lf # ls"
      using Cons.prems(1) by (auto simp: overlaps_def Let_def split: if_splits)
    with True lf_ovcase_geometry [OF _ Cons.prems(2) v] show ?thesis by simp
  next
    case False
    then have "c = c'" "passed = lf # p" "rest = r"
      using Cons.prems(1) r by (auto simp: overlaps_def Let_def split: if_splits)
    with False Cons.IH [OF r Cons.prems(2) all] show ?thesis by auto
  qed
qed simp

text \<open>The blocked lists play no part in what is locked.\<close>

lemma map_block_range:
  fixes g :: "lockf \<Rightarrow> lockf"
  assumes "\<And>l. lf_id (g l) = lf_id l \<and> lf_type (g l) = lf_type l \<and> lf_start (g l) = lf_start l \<and> lf_end (g l) = lf_end l"
  shows "wf_locks (map g ls) = wf_locks ls" and "holds (map g ls) = holds ls"
proof -
  have "own_before (g a) (g b) = own_before a b" and "safe_range (g a) = safe_range a"
    and "covers (g a) = covers a" for a b
    using assms by (simp_all add: own_before_def ends_before_def safe_range_def covers_def fun_eq_iff)
  then show "wf_locks (map g ls) = wf_locks ls" and "holds (map g ls) = holds ls"
    using assms by (simp_all add: wf_locks_def sorted_wrt_map list_all_iff holds_iff fun_eq_iff)
qed

section \<open>Blocking locks\<close>

lemma getblock_spec:
  assumes "safe_range lock" and "list_all safe_range ls"
  shows "case lf_getblock lock ls of
      None \<Rightarrow> \<forall>l \<in> set ls. \<not> conflict lock l
    | Some b \<Rightarrow> b \<in> set ls \<and> conflict lock b"
  using assms
proof (induction ls rule: measure_induct_rule [of length])
  case (less ls)
  obtain c p r where f: "lf_findoverlap lock OTHERS ls = (c, p, r)" by (metis prod.exhaust)
  note split = lf_findoverlap_split [OF f] and fo = findoverlap_others [OF f less.prems]
  have nop: "\<forall>l \<in> set p. \<not> conflict lock l" using fo by (auto simp: conflict_def)
  show ?case
  proof (cases r)
    case Nil
    then have "lf_getblock lock ls = None" using f by simp
    with nop split Nil show ?thesis by simp
  next
    case (Cons ov rest)
    with fo have c: "c \<noteq> 0" and ov: "lf_id ov \<noteq> lf_id lock" "overlaps lock ov"
      by (auto split: if_splits)
    show ?thesis
    proof (cases "lf_type lock = F_WRLCK \<or> lf_type ov = F_WRLCK")
      case True
      then have "lf_getblock lock ls = Some ov" using f Cons c by simp
      with True ov split Cons show ?thesis by (auto simp: conflict_def)
    next
      case False
      then have eq: "lf_getblock lock ls = lf_getblock lock rest" using f Cons c by simp
      from split Cons have ls: "ls = p @ ov # rest" by simp
      have "case lf_getblock lock rest of None \<Rightarrow> \<forall>l \<in> set rest. \<not> conflict lock l
          | Some b \<Rightarrow> b \<in> set rest \<and> conflict lock b"
        using less.IH [of rest] less.prems ls by simp
      then show ?thesis unfolding eq using nop False ls by (auto simp: conflict_def split: option.splits)
    qed
  qed
qed

section \<open>Cutting a range out\<close>

text \<open>\<open>l'\<close> is what is left of \<open>l\<close>, or a part of it.\<close>

definition shrunk :: "lockf \<Rightarrow> lockf \<Rightarrow> bool" where
  "shrunk l l' \<longleftrightarrow> lf_id l' = lf_id l \<and> lf_type l' = lf_type l \<and> lf_start l \<le> lf_start l' \<and>
     (lf_end l = -1 \<or> lf_end l' \<noteq> -1 \<and> lf_end l' \<le> lf_end l)"

text \<open>\<open>ls'\<close> is \<open>ls\<close> without the range of \<open>lock\<close>, for the owner of \<open>lock\<close> only.\<close>

definition cut :: "lockf \<Rightarrow> lockf list \<Rightarrow> lockf list \<Rightarrow> bool" where
  "cut lock ls ls' \<longleftrightarrow> wf_locks ls' \<and> (\<forall>l' \<in> set ls'. \<exists>l \<in> set ls. shrunk l l') \<and>
     (\<forall>l' \<in> set ls'. lf_id l' = lf_id lock \<longrightarrow> ends_before l' lock \<or> ends_before lock l') \<and>
     (\<forall>i b t. holds ls i b t \<longrightarrow> i = lf_id lock \<and> covers lock b \<or> holds ls' i b t)"

lemma shrunk_before: "shrunk l l' \<Longrightarrow> shrunk m m' \<Longrightarrow> own_before l m \<Longrightarrow> own_before l' m'"
  by (auto simp: shrunk_def own_before_def ends_before_def)

lemma shrunk_covers: "shrunk l l' \<Longrightarrow> covers l' b \<Longrightarrow> covers l b"
  by (auto simp: shrunk_def covers_def)

lemma shrunk_refl [simp]: "shrunk l l"
  by (simp add: shrunk_def)

lemma cut_holds:
  assumes "cut lock ls ls'"
  shows "holds ls' i b t \<longleftrightarrow> holds ls i b t \<and> \<not> (i = lf_id lock \<and> covers lock b)"
proof
  assume "holds ls' i b t"
  then obtain l' where l': "l' \<in> set ls'" "lf_id l' = i" "covers l' b" "lf_type l' = t"
    by (auto simp: holds_iff)
  with assms obtain l where l: "l \<in> set ls" "shrunk l l'" by (auto simp: cut_def)
  then have "lf_id l = i" "lf_type l = t" and "covers l b"
    using l' shrunk_covers [OF l(2) l'(3)] l(2) by (simp_all add: shrunk_def)
  moreover have "\<not> (i = lf_id lock \<and> covers lock b)"
    using assms l' by (fastforce simp: cut_def ends_before_def covers_def)
  ultimately show "holds ls i b t \<and> \<not> (i = lf_id lock \<and> covers lock b)"
    using l(1) by (auto simp: holds_iff)
next
  assume "holds ls i b t \<and> \<not> (i = lf_id lock \<and> covers lock b)"
  with assms show "holds ls' i b t" unfolding cut_def by blast
qed

lemma cut_append:
  assumes "cut lock as as'" and "cut lock bs bs'" and "wf_locks (as @ bs)"
  shows "cut lock (as @ bs) (as' @ bs')"
proof -
  have "own_before l' m'" if "l' \<in> set as'" and "m' \<in> set bs'" for l' m'
  proof -
    from that assms(1,2) obtain l m where "l \<in> set as" "shrunk l l'" "m \<in> set bs" "shrunk m m'"
      unfolding cut_def by blast
    with assms(3) shrunk_before [of l l' m m'] show ?thesis by simp
  qed
  then show ?thesis using assms unfolding cut_def by fastforce
qed

lemma cut_id:
  "wf_locks ls \<Longrightarrow> \<forall>l \<in> set ls. lf_id l = lf_id lock \<longrightarrow> ends_before l lock \<or> ends_before lock l
    \<Longrightarrow> cut lock ls ls"
  unfolding cut_def using shrunk_refl by blast

lemma cut_Nil: "cut lock [] []"
  by (rule cut_id) simp_all

lemma off_succ_valid: "safe_range l \<Longrightarrow> lf_end l \<noteq> -1 \<Longrightarrow> off_succ (lf_end l) = lf_end l + 1"
  by (auto simp: safe_range_def off_succ_def)

lemmas range_defs = own_before_def ends_before_def shrunk_def covers_def safe_range_def

text \<open>What an overlapping lock leaves outside the range, in each of the five cases.\<close>

lemma ov_case_geometry:
  assumes "ov_case c lock ov" and "lf_id ov = lf_id lock" and "safe_range lock" and "safe_range ov"
  shows "c = 1 \<or> c = 3 \<Longrightarrow> cut lock [ov] []"
    and "c = 2 \<Longrightarrow> lf_start ov = lf_start lock \<Longrightarrow> cut lock [ov] [ov\<lparr>lf_start := off_succ (lf_end lock)\<rparr>]"
    and "c = 4 \<Longrightarrow> cut lock [ov] [ov\<lparr>lf_end := lf_start lock - 1\<rparr>]"
    and "c = 5 \<Longrightarrow> cut lock [ov] [ov\<lparr>lf_start := off_succ (lf_end lock)\<rparr>]"
    and "c = 2 \<Longrightarrow> lf_start ov \<noteq> lf_start lock \<Longrightarrow> lf_end ov = lf_end lock \<Longrightarrow>
      cut lock [ov] [ov\<lparr>lf_end := lf_start lock - 1\<rparr>]"
    and "c = 2 \<Longrightarrow> lf_start ov \<noteq> lf_start lock \<Longrightarrow> lf_end ov \<noteq> lf_end lock \<Longrightarrow>
      cut lock [ov] [ov\<lparr>lf_end := lf_start lock - 1\<rparr>,
        ov\<lparr>lf_addr := new, lf_start := off_succ (lf_end lock), lf_block := []\<rparr>]"
  using assms off_succ_valid [OF assms(3)]
  by (auto simp: cut_def ov_case_def range_defs)

lemma cut_block [simp]:
  "cut lock [ov\<lparr>lf_block := bs\<rparr>] ls' = cut lock [ov] ls'"
  "cut (lock\<lparr>lf_block := bs\<rparr>) ls ls' = cut lock ls ls'"
  by (simp_all add: cut_def range_defs)

lemma ov_case_block [simp]:
  "ov_case c lock (ov\<lparr>lf_block := bs\<rparr>) = ov_case c lock ov"
  by (simp add: ov_case_def)

lemma safe_range_block [simp]: "safe_range (l\<lparr>lf_block := bs\<rparr>) = safe_range l"
  by (simp add: safe_range_def)

text \<open>One turn of a loop over the overlaps: the locks passed, the overlap and the rest.\<close>

lemma cut_turn:
  assumes f: "lf_findoverlap lock SELF ls = (c, p, ov # rest)" and "safe_range lock" and "wf_locks ls"
    and ov: "cut lock [ov] ov'" and rest: "cut lock rest rest'"
  shows "cut lock ls (p @ ov' @ rest')"
proof -
  from lf_findoverlap_split [OF f] have ls: "ls = p @ [ov] @ rest" by simp
  have "cut lock p p"
    using findoverlap_self [OF f assms(2,3)] assms(3) ls by (intro cut_id) auto
  moreover have "cut lock ([ov] @ rest) (ov' @ rest')"
    using assms(3) ls by (intro cut_append ov rest) simp
  ultimately show ?thesis using cut_append [of lock p p "[ov] @ rest"] assms(3) ls by simp
qed

text \<open>Where a loop over the overlaps ends, the rest has nothing left to cut.\<close>

lemma cut_rest:
  assumes f: "lf_findoverlap lock SELF ls = (c, p, ov # rest)" and "safe_range lock" and "wf_locks ls"
    and "c = 1 \<or> c = 2 \<or> c = 5"
  shows "cut lock rest rest" and "\<forall>l \<in> set rest. lf_id l = lf_id lock \<longrightarrow> ends_before lock l"
proof -
  have "lf_id ov = lf_id lock" and g: "ov_case c lock ov"
    using findoverlap_self [OF f assms(2,3)] assms(4) by auto
  moreover have "\<forall>l \<in> set rest. own_before ov l" and "safe_range ov" and wf: "wf_locks rest"
    using lf_findoverlap_split [OF f] assms(3) by auto
  ultimately show "\<forall>l \<in> set rest. lf_id l = lf_id lock \<longrightarrow> ends_before lock l"
    using assms(4) by (auto simp: own_before_def ends_before_def ov_case_def safe_range_def)
  then show "cut lock rest rest" by (intro cut_id wf) blast
qed

lemma cut_stop:
  assumes f: "lf_findoverlap lock SELF ls = (0, p, rest)" and "safe_range lock" and "wf_locks ls"
  shows "cut lock ls ls" and "\<forall>l \<in> set rest. lf_id l = lf_id lock \<longrightarrow> ends_before lock l"
    and "\<forall>l \<in> set p. lf_id l = lf_id lock \<longrightarrow> ends_before l lock"
proof -
  from lf_findoverlap_split [OF f] have ls: "ls = p @ rest" by simp
  from findoverlap_self [OF f assms(2,3)]
  have r: "rest = [] \<or> lf_id (hd rest) = lf_id lock \<and> ends_before lock (hd rest)"
    and p: "\<forall>l \<in> set p. lf_id l = lf_id lock \<longrightarrow> ends_before l lock" by simp_all
  have v: "\<forall>l \<in> set rest. safe_range l" using assms(3) ls wf_locks_valid by auto
  show q: "\<forall>l \<in> set rest. lf_id l = lf_id lock \<longrightarrow> ends_before lock l"
  proof (cases rest)
    case (Cons h hs)
    with r assms(3) ls v show ?thesis
      by (auto simp: own_before_def ends_before_def safe_range_def)
  qed simp
  show "\<forall>l \<in> set p. lf_id l = lf_id lock \<longrightarrow> ends_before l lock" by (rule p)
  show "cut lock ls ls" using p q ls assms(3) by (intro cut_id) auto
qed

lemma clearlock_cut:
  assumes "lf_clearlock new unlock ls = (ls', w)" and "safe_range unlock" and "wf_locks ls"
  shows "cut unlock ls ls'"
  using assms
proof (induction ls arbitrary: ls' w rule: measure_induct_rule [of length])
  case (less ls)
  obtain c p r where f: "lf_findoverlap unlock SELF ls = (c, p, r)" by (metis prod.exhaust)
  show ?case
  proof (cases "c = 0")
    case True
    then have "ls' = ls"
      using less.prems(1) f lf_findoverlap_split [OF f] by (auto split: list.splits)
    with cut_stop [OF f [unfolded True] less.prems(2,3)] show ?thesis by simp
  next
    case False
    then obtain ov rest where r: "r = ov # rest"
      using lf_findoverlap_split [OF f] by (cases r) auto
    note f = f [unfolded r]
    note fo = findoverlap_self [OF f less.prems(2,3)] and ls = lf_findoverlap_split [OF f]
    have own: "lf_id ov = lf_id unlock" and g: "ov_case c unlock ov" and v: "safe_range ov"
      using fo ls False less.prems(3) by auto
    have own': "lf_id (ov\<lparr>lf_block := []\<rparr>) = lf_id unlock" using own by simp
    note geo = ov_case_geometry [of c unlock "ov\<lparr>lf_block := []\<rparr>", unfolded cut_block ov_case_block safe_range_block, OF g own' less.prems(2) v]
    note turn = cut_turn [OF f less.prems(2,3)]
    note last = turn [OF _ cut_rest(1) [OF f less.prems(2,3)]]
    have len: "length rest < length ls" using ls by simp
    obtain rs w' where rec: "lf_clearlock new unlock rest = (rs, w')" by (metis prod.exhaust)
    have rest: "cut unlock rest rs" using less.IH [OF len rec less.prems(2)] ls less.prems(3) by simp
    consider "c = 1" | "c = 2" | "c = 3" | "c = 4" | "c = 5" using g by (auto simp: ov_case_def)
    then show ?thesis
    proof cases
      case 1
      then show ?thesis using less.prems(1) f last [OF geo(1)] by (simp add: lf_wakelock_def)
    next
      case 2
      consider "lf_start ov = lf_start unlock" | "lf_start ov \<noteq> lf_start unlock" "lf_end ov = lf_end unlock"
        | "lf_start ov \<noteq> lf_start unlock" "lf_end ov \<noteq> lf_end unlock" by blast
      then show ?thesis
      proof cases
        case 1
        then show ?thesis using less.prems(1) f last [OF geo(2)] 2 by (simp add: lf_wakelock_def)
      next
        case c22: 2
        then show ?thesis using less.prems(1) f last [OF geo(5)] 2 by (simp add: lf_wakelock_def lf_split_def)
      next
        case 3
        then show ?thesis using less.prems(1) f last [OF geo(6) [of new]] 2
          by (simp add: lf_wakelock_def lf_split_def)
      qed
    next
      case 3
      then show ?thesis using less.prems(1) f turn [OF geo(1) rest] rec by (simp add: lf_wakelock_def)
    next
      case 4
      then show ?thesis using less.prems(1) f turn [OF geo(3) rest] rec by (simp add: lf_wakelock_def)
    next
      case 5
      then show ?thesis using less.prems(1) f last [OF geo(4)] by (simp add: lf_wakelock_def)
    qed
  qed
qed

section \<open>Granting a lock\<close>

lemma insert_linked_cut:
  assumes "lf_insert new lock False ls = (ls', b, w)" and "safe_range lock" and "wf_locks ls"
    and "\<forall>l \<in> set ls. lf_id l = lf_id lock \<longrightarrow> lf_start lock < lf_start l"
  shows "cut lock ls ls'"
  using assms
proof (induction ls arbitrary: lock ls' b w rule: measure_induct_rule [of length])
  case (less ls)
  obtain c p r where f: "lf_findoverlap lock SELF ls = (c, p, r)" by (metis prod.exhaust)
  show ?case
  proof (cases "c = 0")
    case True
    then have "ls' = ls"
      using less.prems(1) f lf_findoverlap_split [OF f] by (auto split: list.splits)
    with cut_stop [OF f [unfolded True] less.prems(2,3)] show ?thesis by simp
  next
    case False
    then obtain ov rest where r: "r = ov # rest"
      using lf_findoverlap_split [OF f] by (cases r) auto
    note f = f [unfolded r]
    note fo = findoverlap_self [OF f less.prems(2,3)] and ls = lf_findoverlap_split [OF f]
    have own: "lf_id ov = lf_id lock" and g: "ov_case c lock ov" and v: "safe_range ov"
      and start: "lf_start lock < lf_start ov"
      using fo ls False less.prems(3,4) by auto
    then have c: "c = 3 \<or> c = 5" by (auto simp: ov_case_def)
    note turn = cut_turn [OF f less.prems(2,3)]
    show ?thesis
    proof (cases "c = 3")
      case True
      define lock' where "lock' = (if lf_type lock = F_RDLCK \<and> lf_type ov = F_WRLCK then lock
        else lf_addblock (lock\<lparr>lf_block := lf_block ov\<rparr>) (lf_block lock))"
      obtain rs b' w' where rec: "lf_insert new lock' False rest = (rs, b', w')" by (metis prod.exhaust)
      have "length rest < length ls" using ls by simp
      moreover have "safe_range lock'" "lf_id lock' = lf_id lock" "lf_start lock' = lf_start lock"
        using less.prems(2) by (simp_all add: lock'_def lf_addblock_def)
      ultimately have "cut lock' rest rs"
        using less.IH [OF _ rec] ls less.prems(3,4) by auto
      then have rest: "cut lock rest rs" by (simp add: lock'_def lf_addblock_def split: if_splits)
      have "ls' = p @ rs"
        using less.prems(1) f True rec by (auto simp: lock'_def split: if_splits)
      with turn [OF ov_case_geometry(1) [OF g own less.prems(2) v] rest] True show ?thesis by simp
    next
      case False
      with c have c: "c = 5" by simp
      have "cut lock [ov] [ov\<lparr>lf_block := [], lf_start := off_succ (lf_end lock)\<rparr>]"
        using ov_case_geometry(4) [of c lock "ov\<lparr>lf_block := []\<rparr>"] g own v less.prems(2) c by simp
      from turn [OF this cut_rest(1) [OF f less.prems(2,3)]] c less.prems(1) f show ?thesis
        by (simp add: lf_wakelock_def)
    qed
  qed
qed

text \<open>\<open>ls'\<close> is \<open>ls\<close> with the range of \<open>lock\<close> given to its owner, and nothing else changed.\<close>

definition put :: "lockf \<Rightarrow> lockf list \<Rightarrow> lockf list \<Rightarrow> bool" where
  "put lock ls ls' \<longleftrightarrow> wf_locks ls' \<and> (\<forall>i b t. holds ls' i b t \<longleftrightarrow>
     (if i = lf_id lock \<and> covers lock b then t = lf_type lock else holds ls i b t))"

lemma put_link:
  assumes cut: "cut lock ls (as @ bs)" and "safe_range lock"
    and as: "\<forall>l \<in> set as. lf_id l = lf_id lock \<longrightarrow> lf_start l < lf_start lock"
    and bs: "\<forall>l \<in> set bs. lf_id l = lf_id lock \<longrightarrow> lf_start lock \<le> lf_start l"
    and k: "lf_id k = lf_id lock" "lf_type k = lf_type lock" "lf_start k = lf_start lock" "lf_end k = lf_end lock"
  shows "put lock ls (as @ k # bs)"
proof -
  from cut have wf: "wf_locks (as @ bs)"
    and apart: "\<forall>l \<in> set (as @ bs). lf_id l = lf_id lock \<longrightarrow> ends_before l lock \<or> ends_before lock l"
    by (auto simp: cut_def)
  from wf have "\<forall>l \<in> set (as @ bs). safe_range l" using wf_locks_valid by blast
  with apart as have "\<forall>l \<in> set as. own_before l k"
    using k assms(2) by (fastforce simp: own_before_def ends_before_def safe_range_def)
  moreover have "\<forall>l \<in> set bs. own_before k l"
    using \<open>\<forall>l \<in> set (as @ bs). safe_range l\<close> apart bs k assms(2)
    by (fastforce simp: own_before_def ends_before_def safe_range_def)
  moreover have "safe_range k" using k assms(2) by (simp add: safe_range_def)
  ultimately have "wf_locks (as @ k # bs)" using wf by auto
  moreover have "covers k = covers lock" using k by (simp add: covers_def fun_eq_iff)
  ultimately show ?thesis
    using cut_holds [OF cut] k by (auto simp: put_def)
qed

lemma put_block [simp]:
  "put (lock\<lparr>lf_block := bs\<rparr>) ls ls' = put lock ls ls'"
  by (simp add: put_def covers_def)

text \<open>The request lies inside a lock of the same owner and type: nothing changes.\<close>

lemma put_contained:
  assumes wf: "wf_locks (p @ ov # rest)" and "lf_id ov = lf_id lock" and "lf_type ov = lf_type lock"
    and g: "ov_case 2 lock ov" and "safe_range lock"
  shows "put lock (p @ ov # rest) (p @ ov # rest)"
proof -
  have own: "t = lf_type lock" if "holds (p @ ov # rest) (lf_id lock) b t" and "covers lock b" for b t
  proof -
    from that(1) obtain l where l: "l \<in> set (p @ ov # rest)" "lf_id l = lf_id lock" "covers l b" "lf_type l = t"
      by (auto simp: holds_iff)
    have "covers ov b" using g that(2) by (auto simp: ov_case_def covers_def)
    with l wf assms(2) have "l = ov"
      by (fastforce simp: own_before_def ends_before_def covers_def)
    with l assms(3) show ?thesis by simp
  qed
  have "covers ov b" if "covers lock b" for b
    using g that by (auto simp: ov_case_def covers_def)
  with own wf assms(2,3) show ?thesis by (auto simp: put_def)
qed

text \<open>What a turn of the loop knows of the list around an overlap.\<close>

lemma turn_facts:
  assumes f: "lf_findoverlap lock SELF ls = (c, p, ov # rest)" and "c \<noteq> 0"
    and val: "safe_range lock" and wf: "wf_locks ls"
  shows "lf_id ov = lf_id lock" and "ov_case c lock ov" and "safe_range ov" and "wf_locks rest"
    and "\<forall>l \<in> set rest. own_before ov l" and "ls = p @ ov # rest"
  using findoverlap_self [OF f val wf] lf_findoverlap_split [OF f] wf assms(2) by auto

lemma passed_start:
  assumes f: "lf_findoverlap lock SELF ls = (c, p, r)" and val: "safe_range lock" and wf: "wf_locks ls"
  shows "\<forall>l \<in> set p. lf_id l = lf_id lock \<longrightarrow> lf_start l < lf_start lock"
proof -
  have "\<forall>l \<in> set p. safe_range l" using wf lf_findoverlap_split [OF f] wf_locks_valid by auto
  with findoverlap_self [OF f val wf] show ?thesis
    using val by (fastforce simp: ends_before_def safe_range_def)
qed

lemma ends_before_start: "safe_range lock \<Longrightarrow> ends_before lock l \<Longrightarrow> lf_start lock \<le> lf_start l"
  by (auto simp: ends_before_def safe_range_def)

lemma off_succ_start: "safe_range lock \<Longrightarrow> lf_end lock \<noteq> -1 \<Longrightarrow> lf_start lock \<le> off_succ (lf_end lock)"
  using off_succ_valid [of lock] by (auto simp: safe_range_def)

lemma insert_put_inside:
  assumes ins: "lf_insert new lock True ls = (ls', b, w)" and val: "safe_range lock" and wf: "wf_locks ls"
    and f: "lf_findoverlap lock SELF ls = (2, p, ov # rest)"
  shows "put lock ls ls'"
proof -
  let ?ov = "ov\<lparr>lf_block := []\<rparr>"
  let ?right = "?ov\<lparr>lf_start := off_succ (lf_end lock)\<rparr>" and ?left = "?ov\<lparr>lf_end := lf_start lock - 1\<rparr>"
  let ?split = "ov\<lparr>lf_addr := new, lf_start := off_succ (lf_end lock), lf_block := []\<rparr>"
  note facts = turn_facts [OF f _ val wf, simplified]
  have own: "lf_id ?ov = lf_id lock" and g: "ov_case 2 lock ?ov" and v: "safe_range ?ov"
    using facts by simp_all
  note last = cut_turn [OF f val wf _ cut_rest(1) [OF f val wf]]
  note geo = ov_case_geometry [OF g own val v, unfolded cut_block]
  have e: "lf_end lock \<noteq> -1" and low: "lf_start ov \<le> lf_start lock" using g by (auto simp: ov_case_def)
  have rest: "\<forall>l \<in> set rest. lf_id l = lf_id lock \<longrightarrow> lf_start lock \<le> lf_start l"
    using cut_rest(2) [OF f val wf] ends_before_start [OF val] by simp
  note link = put_link [OF _ val, of ls] and side = passed_start [OF f val wf] rest off_succ_start [OF val e] low
  consider (same) "lf_type ov = lf_type lock"
    | (start) "lf_type ov \<noteq> lf_type lock" "lf_start ov = lf_start lock"
    | (tail) "lf_type ov \<noteq> lf_type lock" "lf_start ov \<noteq> lf_start lock" "lf_end ov = lf_end lock"
    | (mid) "lf_type ov \<noteq> lf_type lock" "lf_start ov \<noteq> lf_start lock" "lf_end ov \<noteq> lf_end lock" by blast
  then show ?thesis
  proof cases
    case same
    then show ?thesis using put_contained [of p ov rest lock] ins f wf val facts by simp
  next
    case start
    have "put lock ls (p @ lock # ?right # rest)"
      using last [OF geo(2)] side start by (intro link) auto
    then show ?thesis using ins f start by (simp add: lf_wakelock_def)
  next
    case tail
    have "put lock ls ((p @ [?left]) @ lock # rest)" using last [OF geo(5)] side tail by (intro link) auto
    then show ?thesis using ins f tail by (simp add: lf_wakelock_def lf_split_def)
  next
    case mid
    have "put lock ls ((p @ [?left]) @ lock # ?split # rest)" using last [OF geo(6) [of new]] side mid by (intro link) auto
    then show ?thesis using ins f mid by (simp add: lf_wakelock_def lf_split_def)
  qed
qed

lemma insert_put_more:
  assumes ins: "lf_insert new lock True ls = (ls', b, w)" and val: "safe_range lock" and wf: "wf_locks ls"
    and f: "lf_findoverlap lock SELF ls = (c, p, ov # rest)" and c: "c = 3 \<or> c = 4"
  shows "put lock ls ls'"
proof -
  define lock' where "lock' = (if c = 4 \<or> lf_type lock = F_RDLCK \<and> lf_type ov = F_WRLCK then lock
    else lf_addblock (lock\<lparr>lf_block := lf_block ov\<rparr>) (lf_block lock))"
  have eqs: "lf_id lock' = lf_id lock" "lf_type lock' = lf_type lock" "lf_start lock' = lf_start lock"
    "lf_end lock' = lf_end lock" by (simp_all add: lock'_def lf_addblock_def)
  have "c \<noteq> 0" using c by auto
  note facts = turn_facts [OF f this val wf]
  have low: "\<forall>l \<in> set rest. lf_id l = lf_id lock \<longrightarrow> lf_start lock < lf_start l"
    using facts c by (auto simp: ov_case_def own_before_def ends_before_def safe_range_def)
  obtain rs b' w' where rec: "lf_insert new lock' False rest = (rs, b', w')" by (metis prod.exhaust)
  have "cut lock' rest rs"
    using insert_linked_cut [OF rec] val eqs facts(4) low by (simp add: safe_range_def)
  then have cr: "cut lock rest rs" by (simp add: lock'_def lf_addblock_def split: if_splits)
  have rs: "\<forall>l \<in> set rs. lf_id l = lf_id lock \<longrightarrow> lf_start lock \<le> lf_start l"
    using cr low by (fastforce simp: cut_def shrunk_def)
  note turn = cut_turn [OF f val wf _ cr] and link = put_link [OF _ val, of ls]
  show ?thesis
  proof (cases "c = 3")
    case True
    have "put lock ls (p @ lock' # rs)"
      using turn [OF ov_case_geometry(1) [OF facts(2,1) val facts(3)]] True eqs rs passed_start [OF f val wf]
      by (intro link) auto
    moreover have "ls' = p @ lock' # rs"
      using ins f True rec by (auto simp: lock'_def split: if_splits)
    ultimately show ?thesis by simp
  next
    case False
    with c have c: "c = 4" by simp
    let ?left = "ov\<lparr>lf_block := [], lf_end := lf_start lock - 1\<rparr>"
    have "cut lock [ov] [?left]"
      using ov_case_geometry(3) [of c lock "ov\<lparr>lf_block := []\<rparr>"] facts val c by simp
    from turn [OF this] have "put lock ls ((p @ [?left]) @ lock # rs)"
      using facts(2) c rs passed_start [OF f val wf] by (intro link) (auto simp: ov_case_def)
    then show ?thesis using ins f c rec by (simp add: lock'_def lf_wakelock_def)
  qed
qed

lemma insert_put:
  assumes ins: "lf_insert new lock True ls = (ls', b, w)" and val: "safe_range lock" and wf: "wf_locks ls"
  shows "put lock ls ls'"
proof -
  obtain c p r where f: "lf_findoverlap lock SELF ls = (c, p, r)" by (metis prod.exhaust)
  note p = passed_start [OF f val wf] and link = put_link [OF _ val, of ls]
  show ?thesis
  proof (cases "c = 0")
    case True
    note stop = cut_stop [OF f [unfolded True] val wf]
    have "put lock ls (p @ lock # r)"
      using stop p ends_before_start [OF val] lf_findoverlap_split [OF f] by (intro link) auto
    then show ?thesis using ins f True by (auto split: list.splits)
  next
    case False
    then obtain ov rest where r: "r = ov # rest"
      using lf_findoverlap_split [OF f] by (cases r) auto
    note f = f [unfolded r]
    note facts = turn_facts [OF f False val wf]
    note last = cut_turn [OF f val wf _ cut_rest(1) [OF f val wf]]
    have rest: "\<forall>l \<in> set rest. lf_id l = lf_id lock \<longrightarrow> lf_start lock \<le> lf_start l" if "c = 1 \<or> c = 5"
      using cut_rest(2) [OF f val wf] ends_before_start [OF val] that by auto
    consider "c = 1" | "c = 5" | "c = 2" | "c = 3 \<or> c = 4" using facts(2) by (auto simp: ov_case_def)
    then show ?thesis
    proof cases
      case 1
      obtain k where "ls' = p @ k # rest" and k: "lf_id k = lf_id lock" "lf_type k = lf_type lock"
          "lf_start k = lf_start lock" "lf_end k = lf_end lock"
        using ins f 1 facts by (auto simp: lf_wakelock_def ov_case_def split: if_splits)
      moreover have "put lock ls (p @ k # rest)"
        using last [OF ov_case_geometry(1) [OF facts(2,1) val facts(3)]] rest p k 1 by (intro link) auto
      ultimately show ?thesis by simp
    next
      case 2
      let ?right = "ov\<lparr>lf_block := [], lf_start := off_succ (lf_end lock)\<rparr>"
      have "lf_start lock \<le> off_succ (lf_end lock)"
        using facts(2) 2 by (intro off_succ_start val) (auto simp: ov_case_def)
      moreover have "cut lock [ov] [?right]"
        using ov_case_geometry(4) [of c lock "ov\<lparr>lf_block := []\<rparr>"] facts val 2 by simp
      moreover note last [OF this]
      ultimately have "put lock ls (p @ lock # ?right # rest)"
        using rest p 2 by (intro link) auto
      then show ?thesis using ins f 2 by (simp add: lf_wakelock_def)
    qed (use insert_put_inside [OF ins val wf] insert_put_more [OF ins val wf] f in auto)
  qed
qed

lemma grant_put:
  assumes "lf_setlock_grant new lock ls = (ls', w)" and "safe_range lock" and "wf_locks ls"
  shows "put lock ls ls'"
proof -
  obtain ks b where i: "lf_insert new lock True ls = (ks, b, w)"
    and ls': "ls' = map (\<lambda>l. if lf_addr l = lf_addr lock then l\<lparr>lf_block := b\<rparr> else l) ks"
    using assms(1) by (auto simp: lf_setlock_grant_def split: prod.splits)
  from insert_put [OF i assms(2,3)] show ?thesis
    by (simp add: put_def ls' map_block_range)
qed

section \<open>Waiting requests\<close>

text \<open>A request in conflict with \<open>l\<close> is in conflict with \<open>l'\<close> too.\<close>

definition dominates :: "lockf \<Rightarrow> lockf \<Rightarrow> bool" where
  "dominates l l' \<longleftrightarrow> lf_id l' = lf_id l \<and> lf_start l' \<le> lf_start l \<and>
     (lf_end l' = -1 \<or> lf_end l \<noteq> -1 \<and> lf_end l \<le> lf_end l') \<and>
     (lf_type l = F_WRLCK \<longrightarrow> lf_type l' = F_WRLCK)"

lemma dominates_conflict: "conflict k l \<Longrightarrow> dominates l l' \<Longrightarrow> conflict k l'"
  by (auto simp: dominates_def conflict_def overlaps_def)

lemma dominates_refl [simp]: "dominates l l" "dominates l (l\<lparr>lf_block := bs\<rparr>)"
  by (simp_all add: dominates_def)

lemma dominates_block [simp]: "dominates l (l'\<lparr>lf_block := bs\<rparr>) = dominates l l'"
  by (simp add: dominates_def)

text \<open>Every request blocked on a lock of the list is woken, or blocked on a lock that dominates it.\<close>

definition keeps :: "lockf list \<Rightarrow> lockf list \<Rightarrow> nat list \<Rightarrow> bool" where
  "keeps ls ls' w \<longleftrightarrow> (\<forall>l \<in> set ls. \<forall>a \<in> set (lf_block l).
     a \<in> set w \<or> (\<exists>l' \<in> set ls'. a \<in> set (lf_block l') \<and> dominates l l'))"

lemma keeps_append: "keeps as as' w \<Longrightarrow> keeps bs bs' w' \<Longrightarrow> keeps (as @ bs) (as' @ bs') (w @ w')"
  unfolding keeps_def by fastforce

lemma keeps_refl [simp]: "keeps ls ls w"
  unfolding keeps_def by fastforce

lemma keeps_woken: "set (lf_block l) \<subseteq> set w \<Longrightarrow> keeps [l] ls' w"
  unfolding keeps_def by auto

lemma keeps_more: "keeps ls ls' w \<Longrightarrow> set ls' \<subseteq> set ls'' \<Longrightarrow> set w \<subseteq> set w' \<Longrightarrow> keeps ls ls'' w'"
  unfolding keeps_def by blast

lemma keeps_turn:
  assumes "keeps [ov] os wo" and "keeps rest rs wr" and "set (p @ os @ rs) \<subseteq> set ls'"
    and "set wo \<subseteq> set w" and "set wr \<subseteq> set w"
  shows "keeps (p @ ov # rest) ls' w"
proof -
  have "keeps (p @ [ov] @ rest) (p @ os @ rs) ([] @ wo @ wr)"
    by (intro keeps_append keeps_refl assms(1,2))
  then have "keeps (p @ ov # rest) (p @ os @ rs) (wo @ wr)" by simp
  then show ?thesis by (rule keeps_more) (use assms(3-5) in auto)
qed

lemma clearlock_keeps:
  "lf_clearlock new unlock ls = (ls', w) \<Longrightarrow> keeps ls ls' w"
proof (induction ls arbitrary: ls' w rule: measure_induct_rule [of length])
  case (less ls)
  obtain c p r where f: "lf_findoverlap unlock SELF ls = (c, p, r)" by (metis prod.exhaust)
  note ls = lf_findoverlap_split [OF f]
  show ?case
  proof (cases r)
    case Nil
    with ls f less.prems show ?thesis by simp
  next
    case (Cons ov rest)
    with ls have ls': "ls = p @ ov # rest" by simp
    obtain rs w' where rec: "lf_clearlock new unlock rest = (rs, w')" by (metis prod.exhaust)
    from less.IH [OF _ rec] ls' have IH: "keeps rest rs w'" by simp
    have wo: "keeps [ov] [] (lf_block ov)" by (rule keeps_woken) simp
    note turn = keeps_turn [OF wo IH] and last = keeps_turn [OF wo keeps_refl [of rest "[]"]]
    show ?thesis
    proof (cases "c = 3 \<or> c = 4")
      case True
      then show ?thesis using less.prems f Cons rec ls'
        by (intro turn [of p, folded ls']) (auto simp: lf_wakelock_def split: if_splits)
    next
      case False
      then have "ls' = ls \<or> set (p @ rest) \<subseteq> set ls' \<and> w = lf_block ov"
        using less.prems f Cons ls' by (auto simp: lf_wakelock_def split: if_splits list.splits)
      then show ?thesis
        using last [of p ls' w, folded ls'] by auto
    qed
  qed
qed

text \<open>
  One turn of the loop that adds the lock, for the blocked lists: the overlap stays with its list,
  nothing changes, the overlap's list is woken, or the new lock takes it over and goes on.
\<close>

lemma insert_turn:
  assumes ins: "lf_insert new lock n ls = (ls', b, w)" and "lf_type lock \<noteq> F_UNLCK"
    and f: "lf_findoverlap lock SELF ls = (c, p, ov # rest)" and g: "ov_case c lock ov"
    and id: "lf_id ov = lf_id lock"
  obtains (stay) k where "c = 1" "ls' = p @ k # rest" "lf_block k = lf_block ov" "dominates ov k" "b = lf_block lock"
  | (inside) "ls' = ls" "b = lf_block lock"
  | (woken) "set (p @ rest) \<subseteq> set ls'" "w = lf_block ov" "b = lf_block lock"
  | (taken) lock' rs w' where "c = 3" "dominates ov lock" "lock' = lf_addblock (lock\<lparr>lf_block := lf_block ov\<rparr>) (lf_block lock)"
      "lf_insert new lock' False rest = (rs, b, w')" "set (p @ rs) \<subseteq> set ls'" "w = w'"
  | (more) rs w' where "lf_insert new lock False rest = (rs, b, w')" "set (p @ rs) \<subseteq> set ls'" "w = lf_block ov @ w'"
proof -
  have "c = 1 \<or> c = 2 \<or> c = 3 \<or> c = 4 \<or> c = 5" using g by (auto simp: ov_case_def)
  then show ?thesis
  proof (elim disjE)
    assume c: "c = 1"
    show ?thesis
    proof (cases "lf_type lock = F_RDLCK \<and> lf_type ov = F_WRLCK")
      case True
      then show ?thesis using ins f c by (intro woken) (auto simp: lf_wakelock_def)
    next
      case False
      then show ?thesis using ins f c assms(2)
        by (cases "lf_type lock"; intro stay [of "ov\<lparr>lf_type := lf_type lock\<rparr>"]) (auto simp: dominates_def)
    qed
  next
    assume "c = 2"
    then have "ls' = ls \<and> b = lf_block lock \<or> set (p @ rest) \<subseteq> set ls' \<and> w = lf_block ov \<and> b = lf_block lock"
      using ins f lf_findoverlap_split [OF f] by (auto simp: lf_wakelock_def lf_split_def split: if_splits)
    with inside woken show ?thesis by blast
  next
    assume c: "c = 3"
    show ?thesis
    proof (cases "lf_type lock = F_RDLCK \<and> lf_type ov = F_WRLCK")
      case True
      obtain rs b' w' where "lf_insert new lock False rest = (rs, b', w')" by (metis prod.exhaust)
      with True show ?thesis
        using ins f c by (intro more [of rs w']) (auto simp: lf_wakelock_def split: if_splits)
    next
      case False
      then have "dominates ov lock"
        using g c id assms(2) by (cases "lf_type lock") (auto simp: dominates_def ov_case_def)
      moreover obtain rs b' w' where "lf_insert new (lf_addblock (lock\<lparr>lf_block := lf_block ov\<rparr>) (lf_block lock)) False rest = (rs, b', w')"
        by (metis prod.exhaust)
      ultimately show ?thesis
        using False ins f c by (intro taken [of _ rs w']) (auto split: if_splits)
    qed
  next
    assume c: "c = 4"
    obtain rs b' w' where "lf_insert new lock False rest = (rs, b', w')" by (metis prod.exhaust)
    then show ?thesis using ins f c by (intro more [of rs w']) (auto simp: lf_wakelock_def)
  next
    assume "c = 5"
    then show ?thesis using ins f by (intro woken) (auto simp: lf_wakelock_def split: if_splits)
  qed
qed

lemma insert_keeps:
  assumes "lf_insert new lock n ls = (ls', b, w)" and "safe_range lock" and "wf_locks ls"
    and "lf_type lock \<noteq> F_UNLCK"
  shows "keeps ls (lock\<lparr>lf_block := b\<rparr> # ls') w \<and> set (lf_block lock) \<subseteq> set b"
  using assms
proof (induction ls arbitrary: lock n ls' b w rule: measure_induct_rule [of length])
  case (less ls)
  obtain c p r where f: "lf_findoverlap lock SELF ls = (c, p, r)" by (metis prod.exhaust)
  note ls = lf_findoverlap_split [OF f]
  have same: "keeps ls (lock\<lparr>lf_block := b\<rparr> # ls') w" if "set ls \<subseteq> set ls'"
    by (rule keeps_more [OF keeps_refl [of ls w]]) (use that in auto)
  show ?case
  proof (cases "c = 0")
    case True
    with ls f less.prems(1) have "set ls \<subseteq> set ls'" "b = lf_block lock"
      by (auto split: list.splits if_splits)
    with same show ?thesis by simp
  next
    case False
    with ls obtain ov rest where r: "r = ov # rest" by (cases r) auto
    note f = f [unfolded r] and facts = turn_facts [OF f [unfolded r] False less.prems(2,3)]
    have len: "length rest < length ls" using facts(6) by simp
    have wo: "keeps [ov] [] (lf_block ov)" by (rule keeps_woken) simp
    from less.prems(1,4) f facts(2,1) show ?thesis
    proof (cases rule: insert_turn)
      case (stay k)
      then have "keeps [ov] [k] []" by (simp add: keeps_def)
      from keeps_turn [OF this keeps_refl [of rest "[]"], of p "lock\<lparr>lf_block := b\<rparr> # ls'" w] stay facts(6)
      show ?thesis by auto
    next
      case inside
      with same show ?thesis by simp
    next
      case woken
      with keeps_turn [OF wo keeps_refl [of rest "[]"], of p "lock\<lparr>lf_block := b\<rparr> # ls'" w] facts(6) show ?thesis by auto
    next
      case (taken lock' rs w')
      then have IH: "keeps rest (lock'\<lparr>lf_block := b\<rparr> # rs) w' \<and> set (lf_block lock') \<subseteq> set b"
        using less.IH [OF len taken(4)] facts(4) less.prems(2,4) by (simp add: lf_addblock_def)
      then have "keeps [ov] [lock\<lparr>lf_block := b\<rparr>] []"
        using taken by (auto simp: keeps_def lf_addblock_def)
      from keeps_turn [OF this IH [THEN conjunct1], of p "lock\<lparr>lf_block := b\<rparr> # ls'" w] taken facts(6) IH show ?thesis
        by (auto simp: lf_addblock_def)
    next
      case (more rs w')
      then have IH: "keeps rest (lock\<lparr>lf_block := b\<rparr> # rs) w' \<and> set (lf_block lock) \<subseteq> set b"
        using less.IH [OF len more(1)] facts(4) less.prems(2,4) by simp
      with keeps_turn [OF wo IH [THEN conjunct1], of p "lock\<lparr>lf_block := b\<rparr> # ls'" w] more facts(6) show ?thesis by auto
    qed
  qed
qed

text \<open>The addresses on the list, and where the new lock's blocked list ends up.\<close>

lemma insert_addrs:
  assumes "lf_insert new lock n ls = (ls', b, w)"
  shows "lf_addr ` set ls' \<subseteq> insert new (insert (lf_addr lock) (lf_addr ` set ls))"
  using assms
proof (induction ls arbitrary: lock n ls' b w rule: measure_induct_rule [of length])
  case (less ls)
  obtain c p r where f: "lf_findoverlap lock SELF ls = (c, p, r)" by (metis prod.exhaust)
  note ls = lf_findoverlap_split [OF f]
  show ?case
  proof (cases r)
    case Nil
    with ls f less.prems show ?thesis by (auto split: if_splits)
  next
    case (Cons ov rest)
    define lock' where "lock' = lf_addblock (lock\<lparr>lf_block := lf_block ov\<rparr>) (lf_block lock)"
    obtain rs b1 w1 rs' b2 w2 where rec: "lf_insert new lock False rest = (rs, b1, w1)"
        "lf_insert new lock' False rest = (rs', b2, w2)" by (metis prod.exhaust)
    have "lf_addr ` set (rs @ rs') \<subseteq> insert new (insert (lf_addr lock) (lf_addr ` set rest))"
      using less.IH [OF _ rec(1)] less.IH [OF _ rec(2)] ls Cons by (auto simp: lock'_def lf_addblock_def)
    then show ?thesis
      using ls f less.prems [unfolded lf_insert.simps [of new lock n ls]] Cons rec
      by (auto simp: lf_wakelock_def lf_split_def lock'_def [symmetric] simp del: lf_insert.simps split: if_splits)
        (auto simp: lock'_def lf_addblock_def)
  qed
qed

lemma insert_own_block:
  assumes "lf_insert new lock n ls = (ls', b, w)" and "\<forall>l \<in> set ls. lf_addr l \<noteq> lf_addr lock" and "new \<noteq> lf_addr lock"
  shows "set (lf_block lock) \<subseteq> set b \<and> (\<forall>l \<in> set ls'. lf_addr l = lf_addr lock \<longrightarrow> set (lf_block l) \<subseteq> set b)"
  using assms
proof (induction ls arbitrary: lock n ls' b w rule: measure_induct_rule [of length])
  case (less ls)
  obtain c p r where f: "lf_findoverlap lock SELF ls = (c, p, r)" by (metis prod.exhaust)
  note ls = lf_findoverlap_split [OF f]
  show ?case
  proof (cases r)
    case Nil
    with ls f less.prems show ?thesis by (auto split: if_splits)
  next
    case (Cons ov rest)
    define lock' where "lock' = lf_addblock (lock\<lparr>lf_block := lf_block ov\<rparr>) (lf_block lock)"
    have eq: "lf_addr lock' = lf_addr lock" "set (lf_block lock) \<subseteq> set (lf_block lock')"
      by (auto simp: lock'_def lf_addblock_def)
    obtain rs b1 w1 rs' b2 w2 where rec: "lf_insert new lock False rest = (rs, b1, w1)"
        "lf_insert new lock' False rest = (rs', b2, w2)" by (metis prod.exhaust)
    have len: "length rest < length ls" and out: "\<forall>l \<in> set p. lf_addr l \<noteq> lf_addr lock" "lf_addr ov \<noteq> lf_addr lock"
      "\<forall>l \<in> set rest. lf_addr l \<noteq> lf_addr lock" using ls Cons less.prems(2) by auto
    note IH = less.IH [OF len rec(1) out(3) less.prems(3)]
      less.IH [OF len rec(2), unfolded eq, OF out(3) less.prems(3)]
    define ok where "ok = (\<lambda>b (l :: lockf). lf_addr l = lf_addr lock \<longrightarrow> set (lf_block l) \<subseteq> set b)"
    have oks: "\<forall>l \<in> set p. ok x l" "\<forall>l \<in> set rest. ok x l" "lf_addr l = lf_addr ov \<Longrightarrow> ok x l"
      "lf_addr l = new \<Longrightarrow> ok x l" "\<forall>l \<in> set ls. ok x l" for x l using out less.prems(2,3) by (auto simp: ok_def)
    have rs: "\<forall>l \<in> set rs. ok b1 l" "\<forall>l \<in> set rs'. ok b2 l" "set (lf_block lock) \<subseteq> set b1" "ok b1 lock"
      "set (lf_block lock) \<subseteq> set b2" "ok b2 lock'" "ok (lf_block lock) lock"
      using IH eq by (auto simp: ok_def)
    have "set (lf_block lock) \<subseteq> set b \<and> (\<forall>l \<in> set ls'. ok b l)"
      using f less.prems(1) [unfolded lf_insert.simps [of new lock n ls]] Cons rec rs
      by (auto simp: lf_wakelock_def lf_split_def lock'_def [symmetric] oks ball_Un simp del: lf_insert.simps
          dest: bspec [OF oks(1)] bspec [OF oks(2)] bspec [OF oks(5)] split: if_splits)
    then show ?thesis by (simp add: ok_def)
  qed
qed

lemma insert_linked:
  assumes "lf_insert new lock True ls = (ls', b, w)" and "lf_block lock = []" and "b \<noteq> []"
  shows "\<exists>k \<in> set ls'. lf_addr k = lf_addr lock \<and> dominates lock k"
proof -
  obtain c p r where f: "lf_findoverlap lock SELF ls = (c, p, r)" by (metis prod.exhaust)
  show ?thesis
  proof (cases r)
    case (Cons ov rest)
    define lock' where "lock' = lf_addblock (lock\<lparr>lf_block := lf_block ov\<rparr>) (lf_block lock)"
    have "lf_addr lock' = lf_addr lock" "dominates lock lock'" by (simp_all add: lock'_def lf_addblock_def)
    then show ?thesis
      using f assms(1) [unfolded lf_insert.simps [of new lock True ls]] Cons assms(2,3)
      by (auto simp: lf_wakelock_def lock'_def lf_addblock_def simp del: lf_insert.simps split: if_splits prod.splits)
  qed (use assms f in simp)
qed

lemma grant_keeps:
  assumes "lf_setlock_grant new lock ls = (ls', w)" and "safe_range lock" and "wf_locks ls"
    and "lf_type lock \<noteq> F_UNLCK" and "lf_block lock = []"
    and "\<forall>l \<in> set ls. lf_addr l \<noteq> lf_addr lock" and "new \<noteq> lf_addr lock"
  shows "keeps ls ls' w"
    and "lf_addr ` set ls' \<subseteq> insert new (insert (lf_addr lock) (lf_addr ` set ls))"
proof -
  let ?g = "\<lambda>b l. if lf_addr l = lf_addr lock then l\<lparr>lf_block := b\<rparr> else l"
  obtain ks b where i: "lf_insert new lock True ls = (ks, b, w)" and ls': "ls' = map (?g b) ks"
    using assms(1) by (auto simp: lf_setlock_grant_def split: prod.splits)
  have "a \<in> set w \<or> (\<exists>l' \<in> set ls'. a \<in> set (lf_block l') \<and> dominates l l')"
    if "l \<in> set ls" and "a \<in> set (lf_block l)" for l a
  proof -
    from insert_keeps [OF i assms(2-4)] that
    consider "a \<in> set w" | "a \<in> set b" "dominates l lock"
      | k where "k \<in> set ks" "a \<in> set (lf_block k)" "dominates l k"
      unfolding keeps_def by fastforce
    then show ?thesis
    proof cases
      case 2
      then obtain k where "k \<in> set ks" "lf_addr k = lf_addr lock" "dominates lock k"
        using insert_linked [OF i assms(5)] by (cases b) auto
      moreover from this 2 have "dominates l (k\<lparr>lf_block := b\<rparr>)" by (auto simp: dominates_def)
      moreover have "k\<lparr>lf_block := b\<rparr> \<in> set ls'" using calculation unfolding ls' by force
      ultimately show ?thesis using 2(1) by force
    next
      case 3
      then have "a \<in> set (lf_block (?g b k))" and "dominates l (?g b k)"
        using insert_own_block [OF i assms(6,7)] by auto
      with 3(1) show ?thesis unfolding ls' by auto
    qed simp
  qed
  then show "keeps ls ls' w" by (simp add: keeps_def)
  have "map lf_addr ls' = map lf_addr ks" unfolding ls' by simp
  then have "lf_addr ` set ls' = lf_addr ` set ks" by (metis set_map)
  with insert_addrs [OF i] show "lf_addr ` set ls' \<subseteq> insert new (insert (lf_addr lock) (lf_addr ` set ls))"
    by simp
qed

lemma clearlock_addrs:
  "lf_clearlock new unlock ls = (ls', w) \<Longrightarrow> lf_addr ` set ls' \<subseteq> insert new (lf_addr ` set ls)"
proof (induction ls arbitrary: ls' w rule: measure_induct_rule [of length])
  case (less ls)
  obtain c p r where f: "lf_findoverlap unlock SELF ls = (c, p, r)" by (metis prod.exhaust)
  note ls = lf_findoverlap_split [OF f]
  show ?case
  proof (cases r)
    case Nil
    with ls f less.prems show ?thesis by auto
  next
    case (Cons ov rest)
    obtain rs w1 where rec: "lf_clearlock new unlock rest = (rs, w1)" by (metis prod.exhaust)
    have "lf_addr ` set rs \<subseteq> insert new (lf_addr ` set rest)"
      using less.IH [OF _ rec] ls Cons by simp
    then show ?thesis
      using ls f less.prems [unfolded lf_clearlock.simps [of new unlock ls]] Cons rec
      by (auto simp: lf_wakelock_def lf_split_def simp del: lf_clearlock.simps split: if_splits) blast+
  qed
qed

lemma clearlock_others:
  assumes "lf_clearlock new unlock ls = (ls', w)" and "safe_range unlock" and "wf_locks ls"
    and "l \<in> set ls" and "lf_id l \<noteq> lf_id unlock"
  shows "l \<in> set ls'"
  using assms
proof (induction ls arbitrary: ls' w rule: measure_induct_rule [of length])
  case (less ls)
  obtain c p r where f: "lf_findoverlap unlock SELF ls = (c, p, r)" by (metis prod.exhaust)
  note ls = lf_findoverlap_split [OF f]
  show ?case
  proof (cases "c = 0")
    case True
    with ls f less.prems show ?thesis by (auto split: list.splits)
  next
    case False
    with ls obtain ov rest where r: "r = ov # rest" by (cases r) auto
    note f = f [unfolded r] and facts = turn_facts [OF f [unfolded r] False less.prems(2,3)]
    obtain rs w1 where rec: "lf_clearlock new unlock rest = (rs, w1)" by (metis prod.exhaust)
    have "l \<in> set p \<or> l \<in> set rest" using facts(1,6) less.prems(4,5) by auto
    moreover have "l \<in> set rs" if "l \<in> set rest"
      using less.IH [OF _ rec less.prems(2) facts(4) that less.prems(5)] facts(6) by simp
    ultimately show ?thesis
      using f less.prems(1) [unfolded lf_clearlock.simps [of new unlock ls]] rec less.prems(4)
      by (auto simp: lf_wakelock_def simp del: lf_clearlock.simps split: if_splits)
  qed
qed

section \<open>The lock manager as a state machine\<close>

declare lf_getblock.simps [simp del] lf_clearlock.simps [simp del] lf_insert.simps [simp del]

definition exclusive :: "lockf list \<Rightarrow> bool" where
  "exclusive ls \<longleftrightarrow> (\<forall>i j b t. holds ls i b F_WRLCK \<longrightarrow> holds ls j b t \<longrightarrow> i = j)"

definition fresh :: "locks \<Rightarrow> nat \<Rightarrow> bool" where
  "fresh s a \<longleftrightarrow> sleepers s a = None \<and> (\<forall>ino. \<forall>l \<in> set (i_lockf s ino). lf_addr l \<noteq> a)"

text \<open>
  A new request, a woken request that is tried again, a request that is interrupted, and an unlock,
  of any process on any inode, with ranges that satisfy \<open>R\<close> (\<open>safe_range\<close> in the theorems). \<^verbatim>\<open>MALLOC\<close>
  gives addresses that are not in use. A turn that reads freed memory has no next state.
\<close>

inductive lf_step :: "(lockf \<Rightarrow> bool) \<Rightarrow> locks \<Rightarrow> locks \<Rightarrow> bool" for R where
  request: "R lock \<Longrightarrow> lf_type lock \<noteq> F_UNLCK \<Longrightarrow> lf_block lock = [] \<Longrightarrow> fresh s (lf_addr lock) \<Longrightarrow>
    fresh s new \<Longrightarrow> new \<noteq> lf_addr lock \<Longrightarrow> lf_setlock wchan inodes new ino lock s = (out, t) \<Longrightarrow>
    out \<noteq> Corrupt \<Longrightarrow> lf_step R s t"
| retry: "sleepers s a = Some sl \<Longrightarrow> sl_next sl = None \<Longrightarrow> fresh s new \<Longrightarrow>
    lf_setlock wchan inodes new (sl_inode sl) (sl_lock sl) (get_up a s) = (out, t) \<Longrightarrow>
    out \<noteq> Corrupt \<Longrightarrow> lf_step R s t"
| interrupt: "sleepers s a = Some sl \<Longrightarrow> lf_interrupted err a sl s = (out, t) \<Longrightarrow> out \<noteq> Corrupt \<Longrightarrow> lf_step R s t"
| unlock: "R lock \<Longrightarrow> fresh s new \<Longrightarrow> lf_step R s (lf_unlock new ino lock s)"

definition lf_init :: "locks \<Rightarrow> bool" where
  "lf_init s \<longleftrightarrow> (\<forall>ino. i_lockf s ino = []) \<and> (\<forall>a. sleepers s a = None)"

text \<open>A sleeping request that was not woken is on the blocked list of a lock that conflicts with it.\<close>

definition sleeper_ok :: "locks \<Rightarrow> nat \<Rightarrow> sleeper \<Rightarrow> bool" where
  "sleeper_ok s a sl \<longleftrightarrow> lf_addr (sl_lock sl) = a \<and> lf_block (sl_lock sl) = [] \<and> safe_range (sl_lock sl) \<and>
     lf_type (sl_lock sl) \<noteq> F_UNLCK \<and> (\<forall>ino. \<forall>l \<in> set (i_lockf s ino). lf_addr l \<noteq> a) \<and>
     (sl_next sl \<noteq> None \<longrightarrow>
        (\<exists>l \<in> set (i_lockf s (sl_inode sl)). a \<in> set (lf_block l) \<and> conflict (sl_lock sl) l))"

definition lf_inv :: "locks \<Rightarrow> bool" where
  "lf_inv s \<longleftrightarrow> (\<forall>ino. wf_locks (i_lockf s ino) \<and> exclusive (i_lockf s ino)) \<and>
     (\<forall>a sl. sleepers s a = Some sl \<longrightarrow> sleeper_ok s a sl)"

lemma exclusiveD: "exclusive ls \<Longrightarrow> holds ls i b F_WRLCK \<Longrightarrow> holds ls j b t \<Longrightarrow> i = j"
  unfolding exclusive_def by blast

lemma put_exclusive:
  assumes "put lock ls ls'" and "exclusive ls" and "\<forall>l \<in> set ls. \<not> conflict lock l"
  shows "exclusive ls'"
proof -
  have free: "\<not> (lf_type lock = F_WRLCK \<or> t = F_WRLCK)" if "holds ls j b t" "covers lock b" "j \<noteq> lf_id lock" for j b t
    using that assms(3) by (fastforce simp: holds_iff conflict_def overlaps_def covers_def)
  have "i = j" if h: "holds ls' i b F_WRLCK" "holds ls' j b t" for i j b t
  proof -
    have eq: "holds ls' k b u = (if k = lf_id lock \<and> covers lock b then u = lf_type lock else holds ls k b u)" for k u
      using assms(1) by (simp add: put_def)
    show ?thesis
      using h free [of _ b] exclusiveD [OF assms(2)] unfolding eq by (metis (full_types))
  qed
  then show ?thesis by (auto simp: exclusive_def)
qed

lemma cut_exclusive: "cut lock ls ls' \<Longrightarrow> exclusive ls \<Longrightarrow> exclusive ls'"
  unfolding exclusive_def cut_holds by blast

lemma keeps_blocked:
  "keeps ls ls' w \<Longrightarrow> l \<in> set ls \<Longrightarrow> a \<in> set (lf_block l) \<Longrightarrow> conflict k l \<Longrightarrow> a \<notin> set w \<Longrightarrow>
    \<exists>l' \<in> set ls'. a \<in> set (lf_block l') \<and> conflict k l'"
  unfolding keeps_def using dominates_conflict by blast

lemma inv_update:
  assumes "lf_inv s" and "wf_locks ls'" and "exclusive ls'" and "keeps (i_lockf s ino) ls' w"
    and "\<And>l. l \<in> set ls' \<Longrightarrow> sleepers s (lf_addr l) \<noteq> None \<Longrightarrow> lf_addr l \<in> lf_addr ` set (i_lockf s ino)"
  shows "lf_inv (wake w (s\<lparr>i_lockf := (i_lockf s)(ino := ls')\<rparr>))"
proof -
  have "sleeper_ok (wake w (s\<lparr>i_lockf := (i_lockf s)(ino := ls')\<rparr>)) a sl'"
    if sl': "sleepers (wake w (s\<lparr>i_lockf := (i_lockf s)(ino := ls')\<rparr>)) a = Some sl'" for a sl'
  proof -
    obtain sl where sl: "sleepers s a = Some sl" "sl' = (if a \<in> set w then sl\<lparr>sl_next := None\<rparr> else sl)"
      using sl' by (auto simp: wake_def split: if_splits)
    with assms(1) have ok: "sleeper_ok s a sl" by (simp add: lf_inv_def)
    have "\<forall>l \<in> set ls'. lf_addr l \<noteq> a"
      using assms(5) sl(1) ok by (fastforce simp: sleeper_ok_def)
    with ok sl(2) keeps_blocked [OF assms(4)] show ?thesis
      by (auto simp: sleeper_ok_def wake_def)
  qed
  with assms(1-3) show ?thesis by (simp add: lf_inv_def) (simp add: wake_def)
qed

lemma inv_unlock:
  assumes "lf_inv s" and "safe_range lock" and "sleepers s new = None"
  shows "lf_inv (lf_unlock new ino lock s)"
proof -
  obtain ls' w where c: "lf_clearlock new lock (i_lockf s ino) = (ls', w)" by (metis prod.exhaust)
  have wf: "wf_locks (i_lockf s ino)" and ex: "exclusive (i_lockf s ino)" using assms(1) by (simp_all add: lf_inv_def)
  note cut = clearlock_cut [OF c assms(2) wf]
  have "lf_inv (wake w (s\<lparr>i_lockf := (i_lockf s)(ino := ls')\<rparr>))"
    using assms(1) cut_exclusive [OF cut ex] cut clearlock_keeps [OF c] clearlock_addrs [OF c] assms(3)
    by (intro inv_update) (auto simp: cut_def)
  then show ?thesis by (simp add: lf_unlock_def c)
qed

lemma inv_get_up: "lf_inv s \<Longrightarrow> lf_inv (get_up a s)"
  by (auto simp: lf_inv_def get_up_def sleeper_ok_def)

lemma keeps_map:
  assumes "\<And>l. l \<in> set ls \<Longrightarrow> set (lf_block l) \<subseteq> set (lf_block (g l)) \<and> dominates l (g l)"
  shows "keeps ls (map g ls) w"
  unfolding keeps_def using assms by (auto simp: subset_iff)

lemma inv_grant:
  assumes "lf_inv s" and "safe_range lock" and "lf_type lock \<noteq> F_UNLCK" and "lf_block lock = []"
    and "fresh s (lf_addr lock)" and "sleepers s new = None" and "new \<noteq> lf_addr lock"
    and nob: "lf_getblock lock (i_lockf s ino) = None"
    and g: "lf_setlock_grant new lock (i_lockf s ino) = (ls', w)"
  shows "lf_inv (wake w (s\<lparr>i_lockf := (i_lockf s)(ino := ls')\<rparr>))"
proof -
  have wf: "wf_locks (i_lockf s ino)" and ex: "exclusive (i_lockf s ino)" using assms(1) by (simp_all add: lf_inv_def)
  have "\<forall>l \<in> set (i_lockf s ino). \<not> conflict lock l"
    using getblock_spec [OF assms(2), of "i_lockf s ino"] wf nob by (simp add: wf_locks_def)
  with grant_put [OF g assms(2) wf] ex have "wf_locks ls'" "exclusive ls'"
    using put_exclusive by (auto simp: put_def)
  moreover have "\<forall>l \<in> set (i_lockf s ino). lf_addr l \<noteq> lf_addr lock" using assms(5) by (simp add: fresh_def)
  note gk = grant_keeps [OF g assms(2) wf assms(3,4) this assms(7)]
  ultimately show ?thesis
    using assms(1) gk(1) by (rule_tac inv_update) (use gk(2) assms(5,6) in \<open>auto simp: fresh_def\<close>)
qed

lemma inv_sleep:
  assumes inv: "lf_inv s" and val: "safe_range lock" and "lf_type lock \<noteq> F_UNLCK" and "lf_block lock = []"
    and fr: "fresh s (lf_addr lock)" and block: "block \<in> set (i_lockf s ino)" "conflict lock block"
  shows "lf_inv (s\<lparr>i_lockf := (i_lockf s)(ino := map (\<lambda>l. if lf_addr l = lf_addr block
      then lf_addblock l [lf_addr lock] else l) (i_lockf s ino)),
    sleepers := (sleepers s)(lf_addr lock \<mapsto> \<lparr>sl_lock = lock, sl_inode = ino, sl_next = Some (lf_addr block)\<rparr>)\<rparr>)"
  (is "lf_inv (s\<lparr>i_lockf := (i_lockf s)(ino := map ?g ?ls), sleepers := ?sl\<rparr>)")
proof -
  have keep: "keeps ?ls (map ?g ?ls) []"
    by (rule keeps_map) (auto simp: lf_addblock_def)
  have eqs: "wf_locks (map ?g ?ls) = wf_locks ?ls" "holds (map ?g ?ls) = holds ?ls"
    by (rule map_block_range; simp add: lf_addblock_def)+
  have "lf_inv (wake [] (s\<lparr>i_lockf := (i_lockf s)(ino := map ?g ?ls)\<rparr>))"
    using inv keep eqs block(1) by (intro inv_update) (auto simp: lf_inv_def exclusive_def lf_addblock_def)
  then have i1: "lf_inv (s\<lparr>i_lockf := (i_lockf s)(ino := map ?g ?ls)\<rparr>)" by (simp add: wake_def)
  have "lf_addr lock \<in> set (lf_block (?g block))" "conflict lock (?g block)" "?g block \<in> set (map ?g ?ls)"
    using block by (auto simp: lf_addblock_def conflict_def overlaps_def)
  then have "\<exists>l \<in> set (map ?g ?ls). lf_addr lock \<in> set (lf_block l) \<and> conflict lock l" by blast
  moreover have "\<forall>i. \<forall>l \<in> set (((i_lockf s)(ino := map ?g ?ls)) i). lf_addr l \<noteq> lf_addr lock"
    using fr by (auto simp: fresh_def lf_addblock_def)
  ultimately show ?thesis
    using i1 assms(2-4) by (simp add: lf_inv_def sleeper_ok_def)
qed

lemma unlock_others:
  assumes "lf_inv s" and "safe_range lock" and "b \<in> set (i_lockf s ino)" and "lf_id b \<noteq> lf_id lock"
    and "fresh s a" and "new \<noteq> a"
  shows "b \<in> set (i_lockf (lf_unlock new ino lock s) ino)" and "fresh (lf_unlock new ino lock s) a"
proof -
  obtain ls' w where c: "lf_clearlock new lock (i_lockf s ino) = (ls', w)" by (metis prod.exhaust)
  have "wf_locks (i_lockf s ino)" using assms(1) by (simp add: lf_inv_def)
  from clearlock_others [OF c assms(2) this assms(3,4)]
  show "b \<in> set (i_lockf (lf_unlock new ino lock s) ino)" by (simp add: lf_unlock_def c wake_def)
  show "fresh (lf_unlock new ino lock s) a"
    using clearlock_addrs [OF c] assms(5,6) by (fastforce simp: fresh_def lf_unlock_def c wake_def)
qed

lemma inv_setlock:
  assumes inv: "lf_inv s" and val: "safe_range lock" and ty: "lf_type lock \<noteq> F_UNLCK" "lf_block lock = []"
    and fr: "fresh s (lf_addr lock)" and new: "fresh s new" "new \<noteq> lf_addr lock"
    and set: "lf_setlock wchan inodes new ino lock s = (out, t)"
  shows "lf_inv t"
proof (cases "lf_getblock lock (i_lockf s ino)")
  case None
  obtain ls' w where g: "lf_setlock_grant new lock (i_lockf s ino) = (ls', w)" by (metis prod.exhaust)
  with set None have "t = wake w (s\<lparr>i_lockf := (i_lockf s)(ino := ls')\<rparr>)" by (simp add: lf_setlock_def)
  with inv_grant [OF inv val ty fr _ new(2) None g] new(1) show ?thesis by (simp add: fresh_def)
next
  case (Some block)
  have "wf_locks (i_lockf s ino)" using inv by (simp add: lf_inv_def)
  then have block: "block \<in> set (i_lockf s ino)" "conflict lock block"
    using getblock_spec [OF val, of "i_lockf s ino"] Some by (simp_all add: wf_locks_def)
  let ?u = "lf_unlock new ino (lock\<lparr>lf_type := F_UNLCK\<rparr>) s"
  have u: "lf_inv ?u" using inv_unlock [OF inv] new(1) val by (simp add: fresh_def safe_range_def)
  have ub: "block \<in> set (i_lockf ?u ino)" "fresh ?u (lf_addr lock)"
    using unlock_others [OF inv _ block(1) _ fr new(2), of "lock\<lparr>lf_type := F_UNLCK\<rparr>"] block(2) val
    by (simp_all add: conflict_def safe_range_def)
  note sleep = inv_sleep [OF inv val ty fr block] inv_sleep [OF u val ty ub(2,1) block(2)]
  from set Some sleep inv show ?thesis
    by (auto simp: lf_setlock_def Let_def split: if_splits dl_result.splits)
qed

lemma inv_interrupted:
  assumes inv: "lf_inv s" and sl: "sleepers s a = Some sl" and int: "lf_interrupted err a sl s = (out, t)"
  shows "lf_inv t"
proof (cases "sl_next sl")
  case None
  with int inv_get_up [OF inv] show ?thesis by (auto simp: lf_interrupted_def)
next
  case (Some b)
  let ?g = "\<lambda>l. if lf_addr l = b then l\<lparr>lf_block := removeAll a (lf_block l)\<rparr> else l"
  let ?t = "(get_up a s)\<lparr>i_lockf := (i_lockf (get_up a s))(sl_inode sl := map ?g (i_lockf (get_up a s) (sl_inode sl)))\<rparr>"
  have t: "t = get_up a s \<or> t = ?t"
    using int Some by (auto simp: lf_interrupted_def Let_def split: if_splits)
  have eqs: "wf_locks (map ?g ls) = wf_locks ls" "holds (map ?g ls) = holds ls" for ls
    by (rule map_block_range; simp)+
  have "sleeper_ok ?t a' sl'" if "sleepers ?t a' = Some sl'" for a' sl'
  proof -
    from that have a': "a' \<noteq> a" and "sleepers s a' = Some sl'" by (auto simp: get_up_def split: if_splits)
    with inv have ok: "sleeper_ok s a' sl'" by (simp add: lf_inv_def)
    have "\<exists>l' \<in> set (map ?g ls). a' \<in> set (lf_block l') \<and> conflict k l'"
      if l: "l \<in> set ls" "a' \<in> set (lf_block l)" "conflict k l" for k l ls
    proof
      show "?g l \<in> set (map ?g ls)" unfolding set_map using l(1) by (rule imageI)
      show "a' \<in> set (lf_block (?g l)) \<and> conflict k (?g l)"
        using l a' by (auto simp: conflict_def overlaps_def)
    qed
    with ok have "sl_next sl' \<noteq> None \<Longrightarrow>
        \<exists>l \<in> set (i_lockf ?t (sl_inode sl')). a' \<in> set (lf_block l) \<and> conflict (sl_lock sl') l"
      by (cases "sl_inode sl' = sl_inode sl") (auto simp: sleeper_ok_def get_up_def simp del: set_map)
    moreover have "\<forall>i. \<forall>l \<in> set (i_lockf ?t i). lf_addr l \<noteq> a'"
      using ok by (auto simp: sleeper_ok_def get_up_def)
    ultimately show ?thesis using ok unfolding sleeper_ok_def by blast
  qed
  moreover have "exclusive (map ?g ls) = exclusive ls" for ls by (simp add: exclusive_def eqs)
  then have "\<forall>i. wf_locks (i_lockf ?t i) \<and> exclusive (i_lockf ?t i)"
    using inv eqs by (simp add: lf_inv_def get_up_def)
  ultimately have "lf_inv ?t" by (simp add: lf_inv_def)
  with t inv_get_up [OF inv] show ?thesis by auto
qed

interpretation lockf: invariant_system lf_init "lf_step safe_range" lf_inv
proof
  show "lf_inv s" if "lf_init s" for s
    using that by (simp add: lf_init_def lf_inv_def exclusive_def)
next
  show "lf_inv t" if inv: "lf_inv s" and step: "lf_step safe_range s t" for s t
    using step
  proof cases
    case (request lock new wchan inodes ino out)
    with inv_setlock [OF inv] show ?thesis by blast
  next
    case (retry a sl new wchan inodes out)
    have ok: "sleeper_ok s a sl" using inv retry(1) by (simp add: lf_inv_def)
    then have "fresh (get_up a s) (lf_addr (sl_lock sl))" "fresh (get_up a s) new" "new \<noteq> lf_addr (sl_lock sl)"
      using retry(1,3) by (auto simp: fresh_def get_up_def sleeper_ok_def)
    with inv_setlock [OF inv_get_up [OF inv]] ok retry(4) show ?thesis by (auto simp: sleeper_ok_def)
  next
    case (interrupt a sl err out)
    with inv_interrupted [OF inv] show ?thesis by blast
  next
    case (unlock lock new ino)
    with inv_unlock [OF inv] show ?thesis by (simp add: fresh_def)
  qed
qed

section \<open>Properties\<close>

text \<open>States for the concrete runs: no locks, and a request of the process \<open>who\<close> that may wait.\<close>

definition locks0 :: locks where
  "locks0 = \<lparr>i_lockf = \<lambda>_. [], sleepers = \<lambda>_. None\<rparr>"

definition posix_lock :: "nat \<Rightarrow> nat \<Rightarrow> ltype \<Rightarrow> int \<Rightarrow> int \<Rightarrow> lockf" where
  "posix_lock addr who ty st en = \<lparr>lf_addr = addr, lf_posix = True, lf_flock = False, lf_wait = True,
     lf_type = ty, lf_start = st, lf_end = en, lf_id = who, lf_block = []\<rparr>"

lemmas lockf_run = locks0_def posix_lock_def lf_setlock_def lf_setlock_grant_def lf_getblock.simps
  lf_insert.simps lf_clearlock.simps lf_ovcase_def wake_def lf_wakelock_def lf_addblock_def lf_split_def
  off_succ_def Let_def

text \<open>A write lock of process 1 on bytes 10 to 19 of inode 7, and process 2 that waits for it.\<close>

definition locks1 :: locks where
  "locks1 = snd (lf_setlock (\<lambda>_. None) [7] 90 7 (posix_lock 1 1 F_WRLCK 10 19) locks0)"

definition locks2 :: locks where
  "locks2 = snd (lf_setlock (\<lambda>_. None) [7] 91 7 (posix_lock 2 2 F_WRLCK 15 15) locks1)"

lemma locks1_eq: "locks1 = locks0\<lparr>i_lockf := (i_lockf locks0)(7 := [posix_lock 1 1 F_WRLCK 10 19])\<rparr>"
  by (simp add: locks1_def lockf_run)

lemma locks2_eq: "locks2 = locks0\<lparr>
    i_lockf := (i_lockf locks0)(7 := [(posix_lock 1 1 F_WRLCK 10 19)\<lparr>lf_block := [2]\<rparr>]),
    sleepers := (sleepers locks0)(2 \<mapsto> \<lparr>sl_lock = posix_lock 2 2 F_WRLCK 15 15, sl_inode = 7, sl_next = Some 1\<rparr>)\<rparr>"
  by (simp add: locks2_def locks1_eq lockf_run maxlockdepth_def eval_nat_numeral)

lemma reach_locks2: "reach lf_init (lf_step safe_range) locks2"
proof -
  have "reach lf_init (lf_step safe_range) locks0" by (rule reach_init) (simp add: lf_init_def locks0_def)
  moreover have "lf_step safe_range locks0 locks1"
    unfolding locks1_def
    by (rule request [of _ "posix_lock 1 1 F_WRLCK 10 19" _ 90 "\<lambda>_. None" "[7]" 7 Granted])
      (simp_all add: fresh_def safe_range_def lockf_run)
  moreover have "lf_step safe_range locks1 locks2"
    unfolding locks2_def
    by (rule request [of _ "posix_lock 2 2 F_WRLCK 15 15" _ 91 "\<lambda>_. None" "[7]" 7 Asleep])
      (simp_all add: fresh_def safe_range_def locks1_eq lockf_run maxlockdepth_def eval_nat_numeral)
  ultimately show ?thesis by (blast intro: reach_step)
qed

text \<open>
  Property C1. Mutual exclusion: whatever sequence of requests, retries after a wakeup, interrupted
  sleeps and unlocks brought the system here, a byte that one owner has locked for writing is locked
  by no other owner. The requests and unlocks of the run have ranges that go to the end of file or end
  before byte 2147483647 (\<open>safe_range\<close>; without the bound the statement fails, see
  \<open>legal_ranges_break_exclusion\<close>), and no turn of it reads freed memory.
\<close>

theorem lockf_mutual_exclusion:
  assumes "reach lf_init (lf_step safe_range) s"
    and "holds (i_lockf s ino) i b F_WRLCK" and "holds (i_lockf s ino) j b t"
  shows "i = j"
  using lockf.reach_inv [OF assms(1)] assms(2,3) exclusiveD [of "i_lockf s ino"] unfolding lf_inv_def by blast

theorem lockf_mutual_exclusion_witness:
  "reach lf_init (lf_step safe_range) locks2 \<and> holds (i_lockf locks2 7) 1 12 F_WRLCK \<and> \<not> holds (i_lockf locks2 7) 2 12 F_RDLCK"
proof -
  have h: "holds (i_lockf locks2 7) 1 12 F_WRLCK" by (simp add: locks2_eq posix_lock_def covers_def)
  then have "\<not> holds (i_lockf locks2 7) 2 12 F_RDLCK"
    using lockf_mutual_exclusion [OF reach_locks2 h, of 2 F_RDLCK] by auto
  with h reach_locks2 show ?thesis by blast
qed

text \<open>
  Property C2. No lost wakeup: in every reachable state a request that sleeps and was not woken yet is
  on the blocked list of a granted lock of its inode that still conflicts with it, so that the release
  of that lock wakes it. This includes the lists that a lock takes over from the locks it swallows. The
  ranges of the run go to the end of file or end before byte 2147483647, and no turn of it reads freed
  memory.
\<close>

theorem lockf_no_lost_wakeup:
  assumes "reach lf_init (lf_step safe_range) s" and "sleepers s a = Some sl" and "sl_next sl \<noteq> None"
  shows "\<exists>l \<in> set (i_lockf s (sl_inode sl)). a \<in> set (lf_block l) \<and> conflict (sl_lock sl) l"
  using lockf.reach_inv [OF assms(1)] assms(2,3) by (auto simp: lf_inv_def sleeper_ok_def)

theorem lockf_no_lost_wakeup_witness:
  "sleepers locks2 2 = Some \<lparr>sl_lock = posix_lock 2 2 F_WRLCK 15 15, sl_inode = 7, sl_next = Some 1\<rparr> \<and>
   (\<exists>l \<in> set (i_lockf locks2 7). 2 \<in> set (lf_block l) \<and> conflict (posix_lock 2 2 F_WRLCK 15 15) l)"
  using lockf_no_lost_wakeup [OF reach_locks2, of 2] by (simp add: locks2_eq)

text \<open>
  Property C3. A granted request gives its owner exactly the bytes of its range with its type, by
  extending, splitting, shrinking, merging and replacing the locks the owner already has; every other
  byte and every other owner keeps its lock, and the list stays well formed. The range asked for and
  the ranges of the locks on the list go to the end of file or end before byte 2147483647
  (\<open>safe_range\<close>); \<open>lf_split_end_wraps\<close> is the code's behaviour at that byte.
\<close>

theorem lf_setlock_grant_bytes:
  assumes "safe_range lock" and "wf_locks ls" and "lf_setlock_grant new lock ls = (ls', w)"
  shows "wf_locks ls' \<and> (\<forall>i b t. holds ls' i b t \<longleftrightarrow>
    (if i = lf_id lock \<and> covers lock b then t = lf_type lock else holds ls i b t))"
  using grant_put [OF assms(3,1,2)] by (simp add: put_def)

theorem lf_setlock_grant_bytes_witness:
  "lf_setlock_grant 9 (posix_lock 3 1 F_RDLCK 5 24) [posix_lock 1 1 F_WRLCK 0 9, posix_lock 2 1 F_WRLCK 20 29] =
     ([posix_lock 1 1 F_WRLCK 0 4, posix_lock 3 1 F_RDLCK 5 24, posix_lock 2 1 F_WRLCK 25 29], []) \<and>
   \<not> holds (fst (lf_setlock_grant 9 (posix_lock 3 1 F_RDLCK 5 24)
     [posix_lock 1 1 F_WRLCK 0 9, posix_lock 2 1 F_WRLCK 20 29])) 1 22 F_WRLCK"
proof -
  let ?ls = "[posix_lock 1 1 F_WRLCK 0 9, posix_lock 2 1 F_WRLCK 20 29]"
  have g: "lf_setlock_grant 9 (posix_lock 3 1 F_RDLCK 5 24) ?ls =
     ([posix_lock 1 1 F_WRLCK 0 4, posix_lock 3 1 F_RDLCK 5 24, posix_lock 2 1 F_WRLCK 25 29], [])"
    by (simp add: lockf_run)
  have "safe_range (posix_lock 3 1 F_RDLCK 5 24)" "wf_locks ?ls"
    by (simp_all add: posix_lock_def safe_range_def own_before_def ends_before_def)
  from lf_setlock_grant_bytes [OF this g, THEN conjunct2, rule_format, of 1 22 F_WRLCK] g show ?thesis
    by (simp add: posix_lock_def covers_def)
qed

text \<open>
  Property C4. Releasing a range takes exactly its bytes away from the owner of the request, leaves
  every other byte and every other owner alone, and keeps the list well formed. The released range and
  the ranges of the locks on the list go to the end of file or end before byte 2147483647
  (\<open>safe_range\<close>).
\<close>

theorem lf_clearlock_bytes:
  assumes "safe_range unlock" and "wf_locks ls" and "lf_clearlock new unlock ls = (ls', w)"
  shows "wf_locks ls' \<and> (\<forall>i b t. holds ls' i b t \<longleftrightarrow>
    holds ls i b t \<and> \<not> (i = lf_id unlock \<and> covers unlock b))"
proof -
  note c = clearlock_cut [OF assms(3,1,2)]
  then have "wf_locks ls'" by (simp add: cut_def)
  with cut_holds [OF c] show ?thesis by blast
qed

theorem lf_clearlock_bytes_witness:
  "lf_clearlock 9 (posix_lock 3 1 F_UNLCK 4 6) [posix_lock 1 1 F_WRLCK 0 9] =
     ([posix_lock 1 1 F_WRLCK 0 3, posix_lock 9 1 F_WRLCK 7 9], []) \<and>
   \<not> holds (fst (lf_clearlock 9 (posix_lock 3 1 F_UNLCK 4 6) [posix_lock 1 1 F_WRLCK 0 9])) 1 5 F_WRLCK"
proof -
  have c: "lf_clearlock 9 (posix_lock 3 1 F_UNLCK 4 6) [posix_lock 1 1 F_WRLCK 0 9] =
     ([posix_lock 1 1 F_WRLCK 0 3, posix_lock 9 1 F_WRLCK 7 9], [])"
    by (simp add: lockf_run)
  have "safe_range (posix_lock 3 1 F_UNLCK 4 6)" "wf_locks [posix_lock 1 1 F_WRLCK 0 9]"
    by (simp_all add: posix_lock_def safe_range_def)
  from lf_clearlock_bytes [OF this c, THEN conjunct2, rule_format, of 1 5 F_WRLCK] c show ?thesis
    by (simp add: posix_lock_def covers_def)
qed

text \<open>
  The search for a blocking lock is exact: it finds none precisely when no byte of the
  request is locked by another owner with one of the two being a write lock, and what it finds is such
  a lock.
\<close>

lemma lf_getblock_exact:
  assumes "safe_range lock" and "wf_locks ls"
  shows "(lf_getblock lock ls = None \<longleftrightarrow>
      \<not> (\<exists>i b t. i \<noteq> lf_id lock \<and> covers lock b \<and> holds ls i b t \<and> (lf_type lock = F_WRLCK \<or> t = F_WRLCK))) \<and>
    (\<forall>blk. lf_getblock lock ls = Some blk \<longrightarrow> blk \<in> set ls \<and> lf_id blk \<noteq> lf_id lock \<and>
      (\<exists>b. covers lock b \<and> covers blk b) \<and> (lf_type lock = F_WRLCK \<or> lf_type blk = F_WRLCK))"
proof -
  have v: "list_all safe_range ls" using assms(2) by (simp add: wf_locks_def)
  have eq: "conflict lock l \<longleftrightarrow> lf_id l \<noteq> lf_id lock \<and> (\<exists>b. covers lock b \<and> covers l b) \<and>
      (lf_type lock = F_WRLCK \<or> lf_type l = F_WRLCK)" if "l \<in> set ls" for l
    using overlaps_byte [OF assms(1) wf_locks_valid [OF assms(2) that]] by (auto simp: conflict_def)
  have bytes: "(\<exists>l \<in> set ls. conflict lock l) \<longleftrightarrow>
      (\<exists>i b t. i \<noteq> lf_id lock \<and> covers lock b \<and> holds ls i b t \<and> (lf_type lock = F_WRLCK \<or> t = F_WRLCK))"
    using eq unfolding holds_iff by blast
  have "lf_getblock lock ls = None \<longleftrightarrow> \<not> (\<exists>l \<in> set ls. conflict lock l)"
    using getblock_spec [OF assms(1) v] by (cases "lf_getblock lock ls") auto
  moreover have "blk \<in> set ls \<and> conflict lock blk" if "lf_getblock lock ls = Some blk" for blk
    using getblock_spec [OF assms(1) v] that by simp
  ultimately show ?thesis using eq unfolding bytes by blast
qed

theorem lf_getblock_exact_example:
  "lf_getblock (posix_lock 5 2 F_RDLCK 0 8) [posix_lock 1 1 F_RDLCK 0 3, posix_lock 3 3 F_WRLCK 8 8] =
     Some (posix_lock 3 3 F_WRLCK 8 8) \<and>
   (\<exists>i b t. i \<noteq> lf_id (posix_lock 5 2 F_RDLCK 0 8) \<and> covers (posix_lock 5 2 F_RDLCK 0 8) b \<and>
     holds [posix_lock 1 1 F_RDLCK 0 3, posix_lock 3 3 F_WRLCK 8 8] i b t \<and>
     (lf_type (posix_lock 5 2 F_RDLCK 0 8) = F_WRLCK \<or> t = F_WRLCK))"
proof -
  let ?l = "posix_lock 5 2 F_RDLCK 0 8" and ?ls = "[posix_lock 1 1 F_RDLCK 0 3, posix_lock 3 3 F_WRLCK 8 8]"
  have g: "lf_getblock ?l ?ls = Some (posix_lock 3 3 F_WRLCK 8 8)" by (simp add: lockf_run)
  have "safe_range ?l" "wf_locks ?ls" by (simp_all add: posix_lock_def safe_range_def own_before_def)
  from lf_getblock_exact [OF this, THEN conjunct1] g show ?thesis by (metis option.distinct(1))
qed

text \<open>
  The overlap search never reaches its panic: on every reachable list, for every request
  with a proper range, it answers one of the six documented cases.
\<close>

lemma lf_findoverlap_no_panic:
  assumes "reach lf_init (lf_step safe_range) s" and "safe_range lock"
    and "lf_findoverlap lock w (i_lockf s ino) = (c, passed, rest)"
  shows "c \<le> 5 \<and> i_lockf s ino = passed @ rest"
proof -
  have wf: "wf_locks (i_lockf s ino)" using lockf.reach_inv [OF assms(1)] by (simp add: lf_inv_def)
  have "c = 0 \<or> ov_case c lock (hd rest)"
  proof (cases w)
    case SELF
    from findoverlap_self [OF assms(3) [unfolded SELF] assms(2) wf] show ?thesis by (auto split: if_splits)
  next
    case OTHERS
    from findoverlap_others [OF assms(3) [unfolded OTHERS] assms(2)] wf show ?thesis
      by (auto simp: wf_locks_def split: if_splits)
  qed
  with lf_findoverlap_split [OF assms(3)] show ?thesis by (auto simp: ov_case_def)
qed

theorem lf_findoverlap_no_panic_example:
  "fst (lf_findoverlap (posix_lock 5 3 F_RDLCK 15 40) OTHERS (i_lockf locks2 7)) \<le> 5 \<and>
   lf_findoverlap (posix_lock 5 3 F_RDLCK 15 40) OTHERS (i_lockf locks2 7) = (4, [], i_lockf locks2 7)"
proof -
  have f: "lf_findoverlap (posix_lock 5 3 F_RDLCK 15 40) OTHERS (i_lockf locks2 7) = (4, [], i_lockf locks2 7)"
    by (simp add: locks2_eq lockf_run)
  have "safe_range (posix_lock 5 3 F_RDLCK 15 40)" by (simp add: posix_lock_def safe_range_def)
  from lf_findoverlap_no_panic [OF reach_locks2 this f] f show ?thesis by simp
qed

text \<open>
  Process 2 gets bytes 100 to 109 and waits for process 1, then process 1 grows its lock over the one
  it had, which is freed; process 2's \<^verbatim>\<open>lf_next\<close> still points to it.
\<close>

definition locks3 :: locks where
  "locks3 = snd (lf_setlock (\<lambda>_. None) [7] 92 7 (posix_lock 3 1 F_WRLCK 0 99)
     (snd (lf_setlock (\<lambda>_. None) [7] 91 7 (posix_lock 2 2 F_WRLCK 15 15)
       (snd (lf_setlock (\<lambda>_. None) [7] 90 7 (posix_lock 4 2 F_WRLCK 100 109) locks1)))))"

lemma locks3_eq: "locks3 = locks0\<lparr>
    i_lockf := (i_lockf locks0)(7 := [(posix_lock 3 1 F_WRLCK 0 99)\<lparr>lf_block := [2]\<rparr>, posix_lock 4 2 F_WRLCK 100 109]),
    sleepers := (sleepers locks0)(2 \<mapsto> \<lparr>sl_lock = posix_lock 2 2 F_WRLCK 15 15, sl_inode = 7, sl_next = Some 1\<rparr>)\<rparr>"
  by (simp add: locks3_def locks1_eq lockf_run maxlockdepth_def eval_nat_numeral fun_eq_iff)

text \<open>
  When a lock takes over the blocked list of a lock it contains, the requests on it keep
  pointing to the freed lock. In this run process 1 then asks for a byte of process 2, which waits for
  process 1: instead of the answer \<^verbatim>\<open>EDEADLK\<close> the deadlock scan reads the freed structure, and so does
  a signal that interrupts process 2.
\<close>

lemma lf_setlock_dangling_after_takeover:
  "fst (lf_setlock (\<lambda>p. if p = 2 then Some 2 else None) [7] 93 7 (posix_lock 5 1 F_WRLCK 100 100) locks3) = Corrupt \<and>
   fst (lf_interrupted EINTR 2 (the (sleepers locks3 2)) locks3) = Corrupt"
proof
  show "fst (lf_setlock (\<lambda>p. if p = 2 then Some 2 else None) [7] 93 7 (posix_lock 5 1 F_WRLCK 100 100) locks3) = Corrupt"
    by (simp add: locks3_eq lockf_run maxlockdepth_def lock_at_def eval_nat_numeral)
  show "fst (lf_interrupted EINTR 2 (the (sleepers locks3 2)) locks3) = Corrupt"
    by (simp add: locks3_eq lf_interrupted_def get_up_def lockf_run)
qed

text \<open>
  Without the bound on the range the byte accounting fails: splitting a lock to the end of
  file at a request that ends at the last \<^verbatim>\<open>off_t\<close> computes a start that wraps to a negative offset, and
  the owner then holds the same byte for reading and for writing.
\<close>

lemma lf_split_end_wraps:
  "let (ls, w) = lf_setlock_grant 9 (posix_lock 3 1 F_WRLCK 5 2147483647) [posix_lock 1 1 F_RDLCK 0 (-1)] in
   holds ls 1 10 F_WRLCK \<and> holds ls 1 10 F_RDLCK \<and> holds ls 1 (- 2147483648) F_RDLCK"
  by (simp add: lockf_run covers_def)

text \<open>
  The same at the level of the state machine: with the ranges the callers may pass, mutual exclusion
  fails. Owner 1 write-locks byte 100 to the end of file, owner 2 read-locks bytes 0 to 50, and owner 1
  asks to read from byte 200 to byte 2147483647. The split leaves owner 1 a write lock from
  \<open>-2147483648\<close> to the end of file, over the bytes of owner 2.
\<close>

definition locks4 :: locks where
  "locks4 = snd (lf_setlock (\<lambda>_. None) [7] 91 7 (posix_lock 2 2 F_RDLCK 0 50)
     (snd (lf_setlock (\<lambda>_. None) [7] 90 7 (posix_lock 1 1 F_WRLCK 100 (-1)) locks0)))"

definition locks5 :: locks where
  "locks5 = snd (lf_setlock (\<lambda>_. None) [7] 92 7 (posix_lock 3 1 F_RDLCK 200 2147483647) locks4)"

lemma locks4_eq: "locks4 = locks0\<lparr>i_lockf := (i_lockf locks0)(7 :=
    [posix_lock 1 1 F_WRLCK 100 (-1), posix_lock 2 2 F_RDLCK 0 50])\<rparr>"
  by (simp add: locks4_def lockf_run)

lemma legal_ranges_break_exclusion:
  "reach lf_init (lf_step legal_range) locks5 \<and>
   holds (i_lockf locks5 7) 1 20 F_WRLCK \<and> holds (i_lockf locks5 7) 2 20 F_RDLCK"
proof -
  let ?s = "snd (lf_setlock (\<lambda>_. None) [7] 90 7 (posix_lock 1 1 F_WRLCK 100 (-1)) locks0)"
  have "reach lf_init (lf_step legal_range) locks0" by (rule reach_init) (simp add: lf_init_def locks0_def)
  moreover have "lf_step legal_range locks0 ?s"
    by (rule request [of _ "posix_lock 1 1 F_WRLCK 100 (-1)" _ 90 "\<lambda>_. None" "[7]" 7 Granted])
      (simp_all add: fresh_def legal_range_def lockf_run)
  moreover have "lf_step legal_range ?s locks4"
    unfolding locks4_def
    by (rule request [of _ "posix_lock 2 2 F_RDLCK 0 50" _ 91 "\<lambda>_. None" "[7]" 7 Granted])
      (simp_all add: fresh_def legal_range_def lockf_run)
  moreover have "lf_step legal_range locks4 locks5"
    unfolding locks5_def
    by (rule request [of _ "posix_lock 3 1 F_RDLCK 200 2147483647" _ 92 "\<lambda>_. None" "[7]" 7 Granted])
      (simp_all add: fresh_def legal_range_def locks4_eq lockf_run)
  ultimately have "reach lf_init (lf_step legal_range) locks5" by (blast intro: reach_step)
  moreover have "holds (i_lockf locks5 7) 1 20 F_WRLCK" "holds (i_lockf locks5 7) 2 20 F_RDLCK"
    by (simp_all add: locks5_def locks4_eq lockf_run covers_def)
  ultimately show ?thesis by blast
qed

text \<open>
  A request that may not wait is never put to sleep: when another owner's lock conflicts it
  fails with \<^verbatim>\<open>EAGAIN\<close> and changes nothing; a request that fails, for this or for a deadlock, changes
  nothing; and a request with no conflict is granted at once.
\<close>

lemma lf_setlock_outcomes:
  assumes "safe_range lock" and "wf_locks (i_lockf s ino)" and "lf_setlock wchan inodes new ino lock s = (out, t)"
  shows "(out = Granted \<longleftrightarrow> (\<forall>l \<in> set (i_lockf s ino). \<not> conflict lock l)) \<and>
    (\<not> lf_wait lock \<longrightarrow> out = Granted \<or> out = Failed EAGAIN) \<and>
    (\<forall>e. out = Failed e \<longrightarrow> t = s)"
proof -
  have "list_all safe_range (i_lockf s ino)" using assms(2) by (simp add: wf_locks_def)
  note g = getblock_spec [OF assms(1) this]
  show ?thesis
  proof (cases "lf_getblock lock (i_lockf s ino)")
    case None
    with g assms(3) show ?thesis by (auto simp: lf_setlock_def split: prod.splits)
  next
    case (Some b)
    with g have "\<exists>l \<in> set (i_lockf s ino). conflict lock l" by auto
    with Some assms(3) show ?thesis
      by (auto simp: lf_setlock_def Let_def split: if_splits dl_result.splits)
  qed
qed

theorem lf_setlock_outcomes_example:
  "lf_setlock (\<lambda>_. None) [7] 91 7 ((posix_lock 2 2 F_RDLCK 19 30)\<lparr>lf_wait := False\<rparr>) locks1 = (Failed EAGAIN, locks1) \<and>
   snd (lf_setlock (\<lambda>_. None) [7] 91 7 ((posix_lock 2 2 F_RDLCK 19 30)\<lparr>lf_wait := False\<rparr>) locks1) = locks1"
proof -
  have e: "lf_setlock (\<lambda>_. None) [7] 91 7 ((posix_lock 2 2 F_RDLCK 19 30)\<lparr>lf_wait := False\<rparr>) locks1 = (Failed EAGAIN, locks1)"
    by (simp add: locks1_eq lockf_run)
  have "safe_range ((posix_lock 2 2 F_RDLCK 19 30)\<lparr>lf_wait := False\<rparr>)" "wf_locks (i_lockf locks1 7)"
    by (simp_all add: locks1_eq posix_lock_def safe_range_def)
  from lf_setlock_outcomes [OF this e] e show ?thesis by simp
qed

end
