(* ===== verification/Timers.thy ===== *)
theory Timers
  imports Cred
begin

text \<open>
  Time of day and interval timers, \<^verbatim>\<open>sys/kern/kern_time.c\<close> with the structures and macros of
  \<^verbatim>\<open>sys/sys/time.h\<close>.

  A \<^verbatim>\<open>long\<close> is 32 bits: sums and products are wrapped by \<open>s32\<close>. A user pointer is an argument:
  \<open>None\<close> when it is null, otherwise what \<^verbatim>\<open>copyin\<close> returns, or the error of \<^verbatim>\<open>copyout\<close>. The clock
  interrupt, the callout queue and the hardware clock (\<^verbatim>\<open>kern_clock.c\<close>, not part of the repository) are
  seen through the calls made to them, listed in the order they are made; \<open>hzto\<close> is an argument.
\<close>

section \<open>Structures\<close>

record timeval =
  tv_sec :: int
  tv_usec :: int

record timezone =
  tz_minuteswest :: int
  tz_dsttime :: int

record itimerval =
  it_interval :: timeval
  it_value :: timeval

record clock =
  time_of_day :: timeval
  boottime :: timeval
  tz :: timezone
  tick :: int
  tickadj :: int
  tickdelta :: int
  timedelta :: int

text \<open>The timers of a process: \<^verbatim>\<open>p_realtimer\<close>, and \<^verbatim>\<open>p_stats->p_timer\<close> by index.\<close>

record ptimers =
  p_realtimer :: itimerval
  p_timer :: "nat \<Rightarrow> itimerval"

datatype kcall = Resettodr | Untimeout | Timeout int | Psignal_SIGALRM

type_synonym 'a user_in = "'a result option"
type_synonym user_out = "errno option option"

definition ITIMER_REAL :: nat where [code_labels]: "ITIMER_REAL = 0"
definition ITIMER_VIRTUAL :: nat where [code_labels]: "ITIMER_VIRTUAL = 1"
definition ITIMER_PROF :: nat where [code_labels]: "ITIMER_PROF = 2"

definition timerisset :: "timeval \<Rightarrow> bool" where
  "timerisset tv \<longleftrightarrow> tv_sec tv \<noteq> 0 \<or> tv_usec tv \<noteq> 0"

definition timercmp :: "timeval \<Rightarrow> timeval \<Rightarrow> (int \<Rightarrow> int \<Rightarrow> bool) \<Rightarrow> bool" where
  "timercmp t u cmp \<longleftrightarrow> cmp (tv_sec t) (tv_sec u) \<or> tv_sec t = tv_sec u \<and> cmp (tv_usec t) (tv_usec u)"

definition timerclear :: timeval where
  "timerclear = \<lparr>tv_sec = 0, tv_usec = 0\<rparr>"

section \<open>Arithmetic\<close>

definition timevalfix :: "timeval \<Rightarrow> timeval" where
  "timevalfix t =
     (let t1 = (if tv_usec t < 0
                then t\<lparr>tv_sec := s32 (tv_sec t - 1), tv_usec := s32 (tv_usec t + 1000000)\<rparr> else t) in
      if tv_usec t1 \<ge> 1000000
      then t1\<lparr>tv_sec := s32 (tv_sec t1 + 1), tv_usec := s32 (tv_usec t1 - 1000000)\<rparr> else t1)"

definition timevaladd :: "timeval \<Rightarrow> timeval \<Rightarrow> timeval" where
  "timevaladd t1 t2 = timevalfix \<lparr>tv_sec = s32 (tv_sec t1 + tv_sec t2), tv_usec = s32 (tv_usec t1 + tv_usec t2)\<rparr>"

definition timevalsub :: "timeval \<Rightarrow> timeval \<Rightarrow> timeval" where
  "timevalsub t1 t2 = timevalfix \<lparr>tv_sec = s32 (tv_sec t1 - tv_sec t2), tv_usec = s32 (tv_usec t1 - tv_usec t2)\<rparr>"

text \<open>\<^verbatim>\<open>itimerfix\<close>: the value to load, rounded up to the resolution \<open>res\<close> of the clock.\<close>

definition itimerfix :: "int \<Rightarrow> timeval \<Rightarrow> timeval result" where
  "itimerfix res tv =
     (if tv_sec tv < 0 \<or> tv_sec tv > 100000000 \<or> tv_usec tv < 0 \<or> tv_usec tv \<ge> 1000000 then Inl EINVAL
      else if tv_sec tv = 0 \<and> tv_usec tv \<noteq> 0 \<and> tv_usec tv < res then Inr (tv\<lparr>tv_usec := res\<rparr>)
      else Inr tv)"

text \<open>
  \<^verbatim>\<open>itimerdecr\<close>: the code from the label \<^verbatim>\<open>expire\<close> on, and the whole. The result is 1 while the timer
  runs and 0 when it expired.
\<close>

definition itimer_expire :: "itimerval \<Rightarrow> int \<Rightarrow> itimerval" where
  "itimer_expire itp usec =
     (if timerisset (it_interval itp)
      then (let v = (it_interval itp)\<lparr>tv_usec := s32 (tv_usec (it_interval itp) - usec)\<rparr> in
            itp\<lparr>it_value := (if tv_usec v < 0
              then v\<lparr>tv_usec := s32 (tv_usec v + 1000000), tv_sec := s32 (tv_sec v - 1)\<rparr> else v)\<rparr>)
      else itp\<lparr>it_value := (it_value itp)\<lparr>tv_usec := 0\<rparr>\<rparr>)"

definition itimerdecr :: "itimerval \<Rightarrow> int \<Rightarrow> nat \<times> itimerval" where
  "itimerdecr itp usec =
     (if tv_usec (it_value itp) < usec \<and> tv_sec (it_value itp) = 0
      then (0, itimer_expire itp (s32 (usec - tv_usec (it_value itp))))
      else
        (let v = (if tv_usec (it_value itp) < usec
                  then \<lparr>tv_sec = s32 (tv_sec (it_value itp) - 1), tv_usec = s32 (tv_usec (it_value itp) + 1000000)\<rparr>
                  else it_value itp);
             itp' = itp\<lparr>it_value := v\<lparr>tv_usec := s32 (tv_usec v - usec)\<rparr>\<rparr> in
         if timerisset (it_value itp') then (1, itp') else (0, itimer_expire itp' 0)))"

section \<open>System calls\<close>

text \<open>\<open>now\<close> is what \<^verbatim>\<open>microtime\<close> gives. The result has what was copied out.\<close>

definition gettimeofday :: "timeval \<Rightarrow> user_out \<Rightarrow> user_out \<Rightarrow> clock \<Rightarrow> errno option \<times> timeval option \<times> timezone option" where
  "gettimeofday now tp tzp clk =
     (case tp of
        Some (Some e) \<Rightarrow> (Some e, None, None)
      | _ \<Rightarrow> (let atv = (if tp = None then None else Some now) in
         case tzp of
           None \<Rightarrow> (None, atv, None)
         | Some None \<Rightarrow> (None, atv, Some (tz clk))
         | Some (Some e) \<Rightarrow> (Some e, atv, None)))"

definition settimeofday :: "ucred \<Rightarrow> u16 \<Rightarrow> timeval user_in \<Rightarrow> timezone user_in \<Rightarrow> clock \<Rightarrow>
    errno option \<times> u16 \<times> clock \<times> kcall list" where
  "settimeofday cred acflag tv tzp clk =
     (case suser cred acflag of
        (Some e, fl) \<Rightarrow> (Some e, fl, clk, [])
      | (None, fl) \<Rightarrow>
          (case tv of
             Some (Inl e) \<Rightarrow> (Some e, fl, clk, [])
           | _ \<Rightarrow>
               (let (clk1, calls) = (case tv of
                   Some (Inr atv) \<Rightarrow>
                     (clk\<lparr>boottime := (boottime clk)\<lparr>tv_sec := s32 (tv_sec (boottime clk) + s32 (tv_sec atv - tv_sec (time_of_day clk)))\<rparr>,
                          time_of_day := atv\<rparr>, [Resettodr])
                 | _ \<Rightarrow> (clk, [])) in
                case tzp of
                  None \<Rightarrow> (None, fl, clk1, calls)
                | Some (Inl e) \<Rightarrow> (Some e, fl, clk1, calls)
                | Some (Inr atz) \<Rightarrow> (None, fl, clk1\<lparr>tz := atz\<rparr>, calls))))"

definition bigadj :: int where "bigadj = 1000000"

text \<open>The old correction is copied out when \<open>olddelta\<close> is not null; that \<^verbatim>\<open>copyout\<close> may fail silently.\<close>

definition adjtime :: "ucred \<Rightarrow> u16 \<Rightarrow> timeval result \<Rightarrow> bool \<Rightarrow> clock \<Rightarrow> errno option \<times> u16 \<times> clock \<times> timeval option" where
  "adjtime cred acflag delta olddelta clk =
     (case suser cred acflag of
        (Some e, fl) \<Rightarrow> (Some e, fl, clk, None)
      | (None, fl) \<Rightarrow>
          (case delta of
             Inl e \<Rightarrow> (Some e, fl, clk, None)
           | Inr atv \<Rightarrow>
               (let ndelta = s32 (s32 (tv_sec atv * 1000000) + tv_usec atv);
                    clk1 = (if timedelta clk = 0
                            then clk\<lparr>tickdelta := (if ndelta > bigadj then 10 * tickadj clk else tickadj clk)\<rparr>
                            else clk);
                    ndelta' = (if cmod ndelta (tickdelta clk1) \<noteq> 0
                               then cdiv ndelta (tickadj clk) * tickadj clk else ndelta) in
                (None, fl, clk1\<lparr>timedelta := ndelta'\<rparr>,
                 if olddelta then Some \<lparr>tv_sec = cdiv (timedelta clk) 1000000, tv_usec = cmod (timedelta clk) 1000000\<rparr>
                 else None))))"

text \<open>The error, and the value copied out.\<close>

definition getitimer :: "nat \<Rightarrow> errno option \<Rightarrow> clock \<Rightarrow> ptimers \<Rightarrow> errno option \<times> itimerval option" where
  "getitimer which out clk p =
     (if which > ITIMER_PROF then (Some EINVAL, None)
      else
        (let aitv = (if which = ITIMER_REAL
                     then (let a = p_realtimer p in
                           if timerisset (it_value a)
                           then a\<lparr>it_value := (if timercmp (it_value a) (time_of_day clk) (<) then timerclear
                                               else timevalsub (it_value a) (time_of_day clk))\<rparr>
                           else a)
                     else p_timer p which) in
         case out of None \<Rightarrow> (None, Some aitv) | Some e \<Rightarrow> (Some e, None)))"

definition setitimer :: "(timeval \<Rightarrow> int) \<Rightarrow> nat \<Rightarrow> itimerval user_in \<Rightarrow> user_out \<Rightarrow> clock \<Rightarrow> ptimers \<Rightarrow>
    errno option \<times> itimerval option \<times> ptimers \<times> kcall list" where
  "setitimer hzto which itv oitv clk p =
     (if which > ITIMER_PROF then (Some EINVAL, None, p, [])
      else (case itv of
        Some (Inl e) \<Rightarrow> (Some e, None, p, [])
      | _ \<Rightarrow>
        (case (case oitv of None \<Rightarrow> (None, None) | Some out \<Rightarrow> getitimer which out clk p) of
           (Some e, old) \<Rightarrow> (Some e, old, p, [])
         | (None, old) \<Rightarrow>
             (case itv of
                Some (Inr aitv) \<Rightarrow>
                  (case (itimerfix (tick clk) (it_value aitv), itimerfix (tick clk) (it_interval aitv)) of
                     (Inr v, Inr i) \<Rightarrow>
                       (if which = ITIMER_REAL
                        then (let v' = (if timerisset v then timevaladd v (time_of_day clk) else v) in
                              (None, old, p\<lparr>p_realtimer := \<lparr>it_interval = i, it_value = v'\<rparr>\<rparr>,
                               Untimeout # (if timerisset v then [Timeout (hzto v')] else [])))
                        else (None, old, p\<lparr>p_timer := (p_timer p)(which := \<lparr>it_interval = i, it_value = v\<rparr>)\<rparr>, []))
                   | _ \<Rightarrow> (Some EINVAL, old, p, []))
              | _ \<Rightarrow> (None, old, p, [])))))"

text \<open>One turn of the loop of \<^verbatim>\<open>realitexpire\<close>, which has no bound of its own, and the whole with fuel.\<close>

definition realit_turn :: "timeval \<Rightarrow> timeval \<Rightarrow> timeval \<Rightarrow> timeval + timeval" where
  "realit_turn interval now v =
     (let v' = timevaladd v interval in if timercmp v' now (>) then Inr v' else Inl v')"

definition realitexpire :: "(timeval \<Rightarrow> int) \<Rightarrow> nat \<Rightarrow> clock \<Rightarrow> ptimers \<Rightarrow> (ptimers \<times> kcall list) option" where
  "realitexpire hzto fuel clk p =
     (let rt = p_realtimer p in
      if \<not> timerisset (it_interval rt) then Some (p\<lparr>p_realtimer := rt\<lparr>it_value := timerclear\<rparr>\<rparr>, [Psignal_SIGALRM])
      else map_option (\<lambda>v. (p\<lparr>p_realtimer := rt\<lparr>it_value := v\<rparr>\<rparr>, [Psignal_SIGALRM, Timeout (hzto v)]))
             (run_fuel (realit_turn (it_interval rt) (time_of_day clk)) fuel (it_value rt)))"

section \<open>Times as microseconds\<close>

definition wf_tv :: "timeval \<Rightarrow> bool" where
  "wf_tv t \<longleftrightarrow> 0 \<le> tv_sec t \<and> tv_sec t \<le> 2147483647 \<and> 0 \<le> tv_usec t \<and> tv_usec t < 1000000"

definition us :: "timeval \<Rightarrow> int" where
  "us t = tv_sec t * 1000000 + tv_usec t"

lemma us_inj: "wf_tv a \<Longrightarrow> wf_tv b \<Longrightarrow> us a = us b \<Longrightarrow> a = b"
proof -
  have "tv_sec t = us t div 1000000 \<and> tv_usec t = us t mod 1000000" if "wf_tv t" for t :: timeval
    using that by (simp add: us_def wf_tv_def)
  then show "wf_tv a \<Longrightarrow> wf_tv b \<Longrightarrow> us a = us b \<Longrightarrow> a = b" by simp
qed

lemma us_nonneg: "wf_tv t \<Longrightarrow> 0 \<le> us t"
  by (simp add: wf_tv_def us_def)

lemma timerisset_us: "wf_tv t \<Longrightarrow> timerisset t \<longleftrightarrow> 0 < us t"
  by (auto simp: timerisset_def wf_tv_def us_def)

lemma timercmp_us:
  assumes "wf_tv a" and "wf_tv b"
  shows "timercmp a b (<) \<longleftrightarrow> us a < us b" and "timercmp a b (>) \<longleftrightarrow> us b < us a"
  using assms unfolding timercmp_def wf_tv_def us_def
  by (cases "tv_sec a = tv_sec b"; cases "tv_sec a < tv_sec b"; simp; linarith)+

lemma timevaladd_us:
  assumes "wf_tv a" and "wf_tv b" and "tv_sec a + tv_sec b < 2147483647"
  shows "wf_tv (timevaladd a b)" and "us (timevaladd a b) = us a + us b"
  using assms by (auto simp: timevaladd_def timevalfix_def Let_def wf_tv_def us_def)

lemma timevalsub_us:
  assumes "wf_tv a" and "wf_tv b" and "us b \<le> us a"
  shows "wf_tv (timevalsub a b)" and "us (timevalsub a b) = us a - us b"
  using assms by (auto simp: timevalsub_def timevalfix_def Let_def wf_tv_def us_def)

lemma itimerfix_ok:
  assumes "itimerfix res t = Inr t'" and "0 < res" and "res < 1000000"
  shows "wf_tv t'" and "tv_sec t' \<le> 100000000" and "us t = 0 \<longrightarrow> t' = t" and "us t' = 0 \<or> res \<le> us t'"
  using assms by (auto simp: itimerfix_def wf_tv_def us_def split: if_splits)

section \<open>The real timer\<close>

text \<open>The loop of \<^verbatim>\<open>realitexpire\<close>: it stays on the grid of the interval and moves towards \<open>now\<close>.\<close>

definition realit_inv :: "timeval \<Rightarrow> timeval \<Rightarrow> timeval \<Rightarrow> timeval \<Rightarrow> bool" where
  "realit_inv i now v0 v \<longleftrightarrow> wf_tv i \<and> 0 < us i \<and> tv_sec i \<le> 100000000 \<and> wf_tv now \<and> wf_tv v \<and>
     tv_sec now < 2047483647 \<and> tv_sec v < 2047483647 \<and>
     (v = v0 \<or> us v \<le> us now) \<and> (\<exists>k \<ge> 0. us v = us v0 + k * us i)"

definition realit_good :: "timeval \<Rightarrow> timeval \<Rightarrow> timeval \<Rightarrow> timeval \<Rightarrow> bool" where
  "realit_good i now v0 r \<longleftrightarrow> wf_tv r \<and> us now < us r \<and> (\<exists>k \<ge> 1. us r = us v0 + k * us i) \<and>
     (us r = us v0 + us i \<or> us r - us i \<le> us now)"

definition realit_rank :: "timeval \<Rightarrow> timeval \<Rightarrow> nat" where
  "realit_rank now v = nat (us now + 1 - us v)"

interpretation realit: ranked_loop "realit_turn i now" "realit_inv i now v0" "realit_rank now" "realit_good i now v0"
  for i now v0
proof
  have add: "wf_tv (timevaladd s i)" "us (timevaladd s i) = us s + us i" if "realit_inv i now v0 s" for s
    using timevaladd_us [of s i] that by (auto simp: realit_inv_def)
  show "realit_inv i now v0 s' \<and> realit_rank now s' < realit_rank now s"
    if inv: "realit_inv i now v0 s" and turn: "realit_turn i now s = Inl s'" for s s'
  proof -
    have s': "s' = timevaladd s i" "us s' \<le> us now"
      using turn inv add [OF inv] timercmp_us(2) [of "timevaladd s i" now]
      by (auto simp: realit_turn_def Let_def realit_inv_def split: if_splits)
    from inv obtain k where "k \<ge> 0" "us s = us v0 + k * us i" by (auto simp: realit_inv_def)
    then have "\<exists>k \<ge> 0. us s' = us v0 + k * us i"
      using add [OF inv] s' by (intro exI [of _ "k + 1"]) (simp add: algebra_simps)
    moreover have "tv_sec s' < 2047483647"
      using s'(2) add(1) [OF inv] inv unfolding s'(1) realit_inv_def wf_tv_def us_def by linarith
    ultimately have "realit_inv i now v0 s'"
      using inv s' add [OF inv] by (auto simp: realit_inv_def)
    moreover have "realit_rank now s' < realit_rank now s"
      using s' add [OF inv] inv by (auto simp: realit_rank_def realit_inv_def)
    ultimately show ?thesis ..
  qed
  show "realit_good i now v0 r" if inv: "realit_inv i now v0 s" and turn: "realit_turn i now s = Inr r" for s r
  proof -
    have r: "r = timevaladd s i" "us now < us r"
      using turn inv add [OF inv] timercmp_us(2) [of "timevaladd s i" now]
      by (auto simp: realit_turn_def Let_def realit_inv_def split: if_splits)
    from inv obtain k where "k \<ge> 0" "us s = us v0 + k * us i" by (auto simp: realit_inv_def)
    then have "\<exists>k \<ge> 1. us r = us v0 + k * us i"
      using add [OF inv] r by (intro exI [of _ "k + 1"]) (simp add: algebra_simps)
    moreover have "us r = us v0 + us i \<or> us r - us i \<le> us now"
      using inv r add [OF inv] by (auto simp: realit_inv_def)
    ultimately show ?thesis using r add [OF inv] by (simp add: realit_good_def)
  qed
qed

section \<open>Truncating division\<close>

lemma cdiv_abs: "0 < t \<Longrightarrow> \<bar>cdiv n t * t\<bar> = \<bar>n\<bar> div t * t"
  by (auto simp: cdiv_def abs_mult sgn_if pos_imp_zdiv_nonneg_iff)

lemma cmod_bound:
  assumes "0 < t"
  shows "\<bar>n - cdiv n t * t\<bar> < t" and "\<bar>cdiv n t * t\<bar> \<le> \<bar>n\<bar>"
proof -
  have m: "\<bar>n\<bar> div t * t = \<bar>n\<bar> - \<bar>n\<bar> mod t" using div_mult_mod_eq [of "\<bar>n\<bar>" t] by linarith
  have b: "0 \<le> \<bar>n\<bar> mod t" "\<bar>n\<bar> mod t < t" using assms by simp_all
  show "\<bar>cdiv n t * t\<bar> \<le> \<bar>n\<bar>" using cdiv_abs [OF assms, of n] m b by linarith
  have "cdiv n t * t = sgn n * (\<bar>n\<bar> div t * t)" using assms by (simp add: cdiv_def sgn_if)
  then have "n - cdiv n t * t = sgn n * (\<bar>n\<bar> mod t)"
    unfolding m by (auto simp: sgn_if)
  then show "\<bar>n - cdiv n t * t\<bar> < t" using b by (auto simp: abs_mult sgn_if)
qed

lemma itimer_expire_us:
  assumes "wf_tv (it_interval itp)" and "0 \<le> d" and "d < 1000000" and "tv_sec (it_value itp) = 0"
    and "us (it_interval itp) = 0 \<or> d \<le> us (it_interval itp)"
  shows "it_interval (itimer_expire itp d) = it_interval itp \<and> wf_tv (it_value (itimer_expire itp d)) \<and>
    us (it_value (itimer_expire itp d)) = (if timerisset (it_interval itp) then us (it_interval itp) - d else 0)"
proof (cases "timerisset (it_interval itp)")
  case True
  then have "d \<le> us (it_interval itp)" using assms(1,5) timerisset_us by fastforce
  with True assms(1-3) show ?thesis
    by (simp add: itimer_expire_def Let_def wf_tv_def us_def)
next
  case False
  with assms(4) show ?thesis by (simp add: itimer_expire_def wf_tv_def us_def)
qed

section \<open>Properties\<close>

definition clock0 :: clock where
  "clock0 = \<lparr>time_of_day = \<lparr>tv_sec = 1000, tv_usec = 250000\<rparr>, boottime = timerclear,
     tz = \<lparr>tz_minuteswest = 0, tz_dsttime = 0\<rparr>, tick = 10000, tickadj = 5, tickdelta = 5, timedelta = 0\<rparr>"

definition ptimers0 :: ptimers where
  "ptimers0 = \<lparr>p_realtimer = \<lparr>it_interval = \<lparr>tv_sec = 0, tv_usec = 400000\<rparr>, it_value = \<lparr>tv_sec = 999, tv_usec = 0\<rparr>\<rparr>,
     p_timer = \<lambda>_. \<lparr>it_interval = timerclear, it_value = timerclear\<rparr>\<rparr>"

text \<open>
  Property C38. An expired real timer is reloaded without drift: with enough turns for the time that
  has passed, \<^verbatim>\<open>realitexpire\<close> returns, the next expiry is after the current time, it lies a whole number
  of intervals after the old one, and it is the first such time. One \<^verbatim>\<open>SIGALRM\<close> is sent, and one timeout
  is set for that time.
\<close>

theorem realitexpire_no_drift:
  assumes "wf_tv (it_interval (p_realtimer p))" and "timerisset (it_interval (p_realtimer p))"
    and "tv_sec (it_interval (p_realtimer p)) \<le> 100000000"
    and "wf_tv (it_value (p_realtimer p))" and "tv_sec (it_value (p_realtimer p)) < 2047483647"
    and "wf_tv (time_of_day clk)" and "tv_sec (time_of_day clk) < 2047483647"
    and "nat (us (time_of_day clk) + 1 - us (it_value (p_realtimer p))) < fuel"
  shows "\<exists>v. realitexpire hzto fuel clk p =
      Some (p\<lparr>p_realtimer := (p_realtimer p)\<lparr>it_value := v\<rparr>\<rparr>, [Psignal_SIGALRM, Timeout (hzto v)]) \<and>
    us (time_of_day clk) < us v \<and>
    (\<exists>k \<ge> 1. us v = us (it_value (p_realtimer p)) + k * us (it_interval (p_realtimer p))) \<and>
    (us v = us (it_value (p_realtimer p)) + us (it_interval (p_realtimer p)) \<or>
     us v - us (it_interval (p_realtimer p)) \<le> us (time_of_day clk))"
proof -
  let ?i = "it_interval (p_realtimer p)" and ?v = "it_value (p_realtimer p)" and ?now = "time_of_day clk"
  have "realit_inv ?i ?now ?v ?v"
    using assms timerisset_us by (auto simp: realit_inv_def intro: exI [of _ 0])
  moreover have "realit_rank ?now ?v < fuel" using assms(8) by (simp add: realit_rank_def)
  ultimately obtain v where "run_fuel (realit_turn ?i ?now) fuel ?v = Some v" "realit_good ?i ?now ?v v"
    using realit.run_returns by blast
  then show ?thesis using assms(2) by (auto simp: realitexpire_def Let_def realit_good_def)
qed

theorem realitexpire_no_drift_witness:
  "\<exists>v. realitexpire (\<lambda>_. 1) 1250002 clock0 ptimers0 =
      Some (ptimers0\<lparr>p_realtimer := (p_realtimer ptimers0)\<lparr>it_value := v\<rparr>\<rparr>, [Psignal_SIGALRM, Timeout 1]) \<and>
    1000250000 < us v \<and> (\<exists>k \<ge> 1. us v = 999000000 + k * 400000)"
proof -
  have "wf_tv (it_interval (p_realtimer ptimers0))" "timerisset (it_interval (p_realtimer ptimers0))"
    "tv_sec (it_interval (p_realtimer ptimers0)) \<le> 100000000"
    "wf_tv (it_value (p_realtimer ptimers0))" "tv_sec (it_value (p_realtimer ptimers0)) < 2047483647"
    "wf_tv (time_of_day clock0)" "tv_sec (time_of_day clock0) < 2047483647"
    "nat (us (time_of_day clock0) + 1 - us (it_value (p_realtimer ptimers0))) < 1250002"
    by (simp_all add: clock0_def ptimers0_def wf_tv_def timerisset_def us_def)
  from realitexpire_no_drift [OF this, of "\<lambda>_. 1"] show ?thesis
    by (simp add: clock0_def ptimers0_def us_def) blast
qed

text \<open>
  \<^verbatim>\<open>itimerdecr\<close> loses no microsecond: while the timer runs its value falls by exactly the time
  passed, and when it expires the overrun is taken off the reloaded interval; the interval is kept and
  the value stays a proper time.
\<close>

lemma itimerdecr_exact:
  assumes "wf_tv (it_value itp)" and "wf_tv (it_interval itp)" and "0 \<le> usec" and "usec < 1000000"
    and "us (it_interval itp) = 0 \<or> usec \<le> us (it_interval itp)" and "itimerdecr itp usec = (r, itp')"
  shows "it_interval itp' = it_interval itp \<and> wf_tv (it_value itp') \<and>
    (if usec < us (it_value itp) then r = 1 \<and> us (it_value itp') = us (it_value itp) - usec
     else r = 0 \<and> us (it_value itp') =
       (if timerisset (it_interval itp) then us (it_value itp) + us (it_interval itp) - usec else 0))"
proof -
  note v = assms(1) [unfolded wf_tv_def]
  consider (over) "tv_usec (it_value itp) < usec" "tv_sec (it_value itp) = 0"
    | (borrow) "tv_usec (it_value itp) < usec" "tv_sec (it_value itp) \<noteq> 0"
    | (exact) "us (it_value itp) = usec" "tv_usec (it_value itp) = usec" "tv_sec (it_value itp) = 0"
    | (runs) "usec \<le> tv_usec (it_value itp)" "usec < us (it_value itp)"
    using v assms(3) unfolding us_def by fastforce
  then show ?thesis
  proof cases
    case over
    then have "r = 0 \<and> itp' = itimer_expire itp (usec - tv_usec (it_value itp))"
      using assms(4,6) v by (simp add: itimerdecr_def)
    moreover have "us (it_value itp) = tv_usec (it_value itp)" using over by (simp add: us_def)
    moreover have "us (it_interval itp) = 0 \<or> usec - tv_usec (it_value itp) \<le> us (it_interval itp)"
      using assms(5) v by linarith
    ultimately show ?thesis
      using over itimer_expire_us [of itp "usec - tv_usec (it_value itp)"] assms(2,4) v by simp
  next
    case borrow
    then show ?thesis using assms(3,4,6) v
      by (auto simp: itimerdecr_def Let_def timerisset_def wf_tv_def us_def)
  next
    case exact
    then have "r = 0 \<and> itp' = itimer_expire (itp\<lparr>it_value := (it_value itp)\<lparr>tv_usec := 0\<rparr>\<rparr>) 0"
      using assms(4,6) v by (auto simp: itimerdecr_def Let_def timerisset_def)
    with exact itimer_expire_us [of "itp\<lparr>it_value := (it_value itp)\<lparr>tv_usec := 0\<rparr>\<rparr>" 0] assms(2) us_nonneg [OF assms(2)] show ?thesis
      by simp
  next
    case runs
    then show ?thesis using assms(3,4,6) v
      by (auto simp: itimerdecr_def Let_def timerisset_def wf_tv_def us_def)
  qed
qed

theorem itimerdecr_exact_example:
  "let t = \<lparr>it_interval = \<lparr>tv_sec = 2, tv_usec = 5\<rparr>, it_value = \<lparr>tv_sec = 0, tv_usec = 4000\<rparr>\<rparr>; (r, t') = itimerdecr t 10000 in
   r = 0 \<and> us (it_value t') = 1994005"
proof -
  let ?t = "\<lparr>it_interval = \<lparr>tv_sec = 2, tv_usec = 5\<rparr>, it_value = \<lparr>tv_sec = 0, tv_usec = 4000\<rparr>\<rparr>"
  obtain r t' where d: "itimerdecr ?t 10000 = (r, t')" by (metis prod.exhaust)
  have "wf_tv (it_value ?t)" "wf_tv (it_interval ?t)" "us (it_interval ?t) = 0 \<or> 10000 \<le> us (it_interval ?t)"
    by (simp_all add: wf_tv_def us_def)
  from itimerdecr_exact [OF this(1,2) _ _ this(3) d] have "r = 0 \<and> us (it_value t') = 1994005"
    by (simp add: us_def timerisset_def)
  then show ?thesis by (simp add: d Let_def)
qed

text \<open>
  Setting a timer and reading it back, with no time in between, gives the value and the
  interval that were set, rounded up to the clock's resolution; the real timer is kept as an absolute
  time and converted back without loss.
\<close>

lemma setitimer_getitimer:
  assumes "which \<le> ITIMER_PROF" and "0 < tick clk" and "tick clk < 1000000"
    and "wf_tv (time_of_day clk)" and "tv_sec (time_of_day clk) < 2047483647"
    and "itimerfix (tick clk) (it_value a) = Inr v" and "itimerfix (tick clk) (it_interval a) = Inr i"
    and "setitimer hzto which (Some (Inr a)) None clk p = (e, old, p', calls)"
  shows "e = None \<and> getitimer which None clk p' = (None, Some \<lparr>it_interval = i, it_value = v\<rparr>)"
proof (cases "which = ITIMER_REAL")
  case False
  then show ?thesis using assms by (auto simp: setitimer_def getitimer_def)
next
  case True
  note v = itimerfix_ok [OF assms(6,2,3)]
  let ?v = "timevaladd v (time_of_day clk)"
  have add: "wf_tv ?v" "us ?v = us v + us (time_of_day clk)"
    using timevaladd_us [OF v(1) assms(4)] v(2) assms(5) by simp_all
  have sub: "timevalsub ?v (time_of_day clk) = v"
    using timevalsub_us [OF add(1) assms(4)] add(2) us_nonneg [OF v(1)] v(1) by (intro us_inj) simp_all
  have p': "e = None \<and> p' = p\<lparr>p_realtimer := \<lparr>it_interval = i, it_value = (if timerisset v then ?v else v)\<rparr>\<rparr>"
    using assms True by (auto simp: setitimer_def Let_def)
  show ?thesis
  proof (cases "timerisset v")
    case set: True
    then have "timerisset ?v" "\<not> timercmp ?v (time_of_day clk) (<)"
      using timerisset_us add v(1) assms(4) us_nonneg [OF assms(4)] timercmp_us(1) [OF add(1) assms(4)] by simp_all
    with set p' sub True assms(1) show ?thesis by (simp add: getitimer_def Let_def)
  next
    case False
    with p' True assms(1) show ?thesis by (simp add: getitimer_def Let_def)
  qed
qed

theorem setitimer_getitimer_example:
  "let a = \<lparr>it_interval = timerclear, it_value = \<lparr>tv_sec = 0, tv_usec = 30\<rparr>\<rparr>;
       (e, old, p', calls) = setitimer (\<lambda>_. 7) ITIMER_REAL (Some (Inr a)) None clock0 ptimers0 in
   e = None \<and> getitimer ITIMER_REAL None clock0 p' =
     (None, Some \<lparr>it_interval = timerclear, it_value = \<lparr>tv_sec = 0, tv_usec = 10000\<rparr>\<rparr>)"
proof -
  let ?a = "\<lparr>it_interval = timerclear, it_value = \<lparr>tv_sec = 0, tv_usec = 30\<rparr>\<rparr>"
  obtain e old p' calls where s: "setitimer (\<lambda>_. 7) ITIMER_REAL (Some (Inr ?a)) None clock0 ptimers0 = (e, old, p', calls)"
    by (metis prod.exhaust)
  have "ITIMER_REAL \<le> ITIMER_PROF" "0 < tick clock0" "tick clock0 < 1000000" "wf_tv (time_of_day clock0)"
    "tv_sec (time_of_day clock0) < 2047483647"
    "itimerfix (tick clock0) (it_value ?a) = Inr \<lparr>tv_sec = 0, tv_usec = 10000\<rparr>"
    "itimerfix (tick clock0) (it_interval ?a) = Inr timerclear"
    by (simp_all add: clock0_def wf_tv_def itimerfix_def timerclear_def code_labels)
  from setitimer_getitimer [OF this s] show ?thesis by (simp add: s Let_def)
qed

text \<open>
  A correction within the range of the arithmetic is rounded towards zero to a multiple of
  the standard skew: what is dropped is less than one step, and a correction of at most one second that
  starts from no pending correction becomes a whole number of per-tick steps. The unapplied part of the
  old correction is reported exactly.
\<close>

lemma adjtime_rounds:
  assumes "cr_uid cred = 0" and "0 < tickadj clk" and "timedelta clk = 0"
    and "\<bar>tv_sec atv\<bar> \<le> 2146" and "\<bar>tv_usec atv\<bar> < 1000000"
    and "adjtime cred fl (Inr atv) old clk = (e, fl', clk', out)"
  shows "e = None \<and> \<bar>us atv - timedelta clk'\<bar> < tickadj clk \<and> \<bar>timedelta clk'\<bar> \<le> \<bar>us atv\<bar> \<and>
    (us atv \<le> bigadj \<longrightarrow> tickdelta clk' dvd timedelta clk') \<and>
    (old \<longrightarrow> (\<exists>o'. out = Some o' \<and> us o' = timedelta clk))"
proof -
  have n: "s32 (s32 (tv_sec atv * 1000000) + tv_usec atv) = us atv"
    using assms(4,5) by (simp add: us_def)
  have dvd: "tickadj clk dvd us atv" if "cmod (us atv) (tickadj clk) = 0"
    using that by (simp add: cmod_def) (metis dvd_triv_right)
  from assms(6) have "e = None" and out: "old \<longrightarrow> out = Some \<lparr>tv_sec = cdiv (timedelta clk) 1000000, tv_usec = cmod (timedelta clk) 1000000\<rparr>"
    and td: "tickdelta clk' = (if us atv > bigadj then 10 * tickadj clk else tickadj clk)"
    and t: "timedelta clk' = (if cmod (us atv) (tickdelta clk') \<noteq> 0 then cdiv (us atv) (tickadj clk) * tickadj clk else us atv)"
    using assms(1,3) by (auto simp: adjtime_def suser_def n Let_def)
  moreover have "us \<lparr>tv_sec = cdiv (timedelta clk) 1000000, tv_usec = cmod (timedelta clk) 1000000\<rparr> = timedelta clk"
    by (simp add: us_def cmod_def)
  moreover have "us atv \<le> bigadj \<longrightarrow> tickdelta clk' dvd timedelta clk'"
    unfolding td t using dvd by simp
  ultimately show ?thesis using cmod_bound [OF assms(2), of "us atv"] assms(2) by auto
qed

theorem adjtime_rounds_example:
  "let (e, fl, clk, out) = adjtime \<lparr>cr_ref = 1, cr_uid = 0, cr_ngroups = 1, cr_groups = [0]\<rparr> 0
        (Inr \<lparr>tv_sec = 0, tv_usec = 999998\<rparr>) True clock0 in
   e = None \<and> tickdelta clk dvd timedelta clk \<and> \<bar>999998 - timedelta clk\<bar> < 5"
proof -
  let ?c = "\<lparr>cr_ref = 1, cr_uid = 0, cr_ngroups = 1, cr_groups = [0]\<rparr>" and ?d = "\<lparr>tv_sec = 0, tv_usec = 999998\<rparr>"
  obtain e fl clk out where a: "adjtime ?c 0 (Inr ?d) True clock0 = (e, fl, clk, out)" by (metis prod.exhaust)
  have "cr_uid ?c = 0" "0 < tickadj clock0" "timedelta clock0 = 0" "\<bar>tv_sec ?d\<bar> \<le> 2146" "\<bar>tv_usec ?d\<bar> < 1000000"
    by (simp_all add: clock0_def)
  from adjtime_rounds [OF this a] have "e = None \<and> tickdelta clk dvd timedelta clk \<and> \<bar>999998 - timedelta clk\<bar> < 5"
    by (simp add: us_def bigadj_def clock0_def)
  then show ?thesis by (simp add: a Let_def)
qed

text \<open>
  Above one second the per-tick step is ten times larger but the rounding still uses the
  small step, so the pending correction need not be a multiple of the step that is applied at each tick;
  and a request beyond the range of the product is taken modulo \<open>2 ^ 32\<close> microseconds, here a request
  to move the clock 2148 seconds forward that moves it back.
\<close>

lemma adjtime_large_deltas:
  "(let (e, fl, clk, out) = adjtime \<lparr>cr_ref = 1, cr_uid = 0, cr_ngroups = 1, cr_groups = [0]\<rparr> 0
        (Inr \<lparr>tv_sec = 1, tv_usec = 5\<rparr>) False clock0 in
    e = None \<and> tickdelta clk = 50 \<and> timedelta clk = 1000005 \<and> \<not> tickdelta clk dvd timedelta clk) \<and>
   (let (e, fl, clk, out) = adjtime \<lparr>cr_ref = 1, cr_uid = 0, cr_ngroups = 1, cr_groups = [0]\<rparr> 0
        (Inr \<lparr>tv_sec = 2148, tv_usec = 0\<rparr>) False clock0 in
    e = None \<and> timedelta clk < 0)"
  by (simp add: adjtime_def suser_def clock0_def bigadj_def cmod_def cdiv_def s32_def Let_def)

end
