(* ===== verification/Dosconv.thy ===== *)
theory Dosconv
  imports Prelude
begin

text \<open>
  Conversions between Unix and DOS times and file names, \<^verbatim>\<open>sys/msdosfs/msdosfs_conv.c\<close> with the
  bit-fields of \<^verbatim>\<open>sys/msdosfs/direntry.h\<close>.

  An \<^verbatim>\<open>u_long\<close> is a natural number below \<open>2 ^ 32\<close>; a value stored in a bit-field is taken modulo the
  width of the field. The static variables that remember the last conversion are a record that every
  call takes and returns. A Unix name is a C string: the list of its bytes, with the null that a read
  at the end of the list gives; it may go on after the component that is converted, whose length is
  \<open>unlen\<close>.
\<close>

section \<open>Times\<close>

definition u_long :: "int \<Rightarrow> nat" where
  "u_long x = nat (x mod 4294967296)"

record dosdate =
  dd_day :: nat
  dd_month :: nat
  dd_year :: nat

record dostime =
  dt_2seconds :: nat
  dt_minutes :: nat
  dt_hours :: nat

definition regyear :: "nat list" where
  "regyear = [31, 28, 31, 30, 31, 30, 31, 31, 30, 31, 30, 31]"

definition leapyear :: "nat list" where
  "leapyear = [31, 29, 31, 30, 31, 30, 31, 31, 30, 31, 30, 31]"

record convstate =
  lasttime :: nat
  lastday :: nat
  lastddate :: dosdate
  lastdtime :: dostime
  lastdosdate :: dosdate
  lastseconds :: nat

definition year_length :: "nat \<Rightarrow> nat" where
  "year_length year = (if year mod 4 \<noteq> 0 then 365 else 366)"

definition year_months :: "nat \<Rightarrow> nat list" where
  "year_months year = (if year mod 4 \<noteq> 0 then regyear else leapyear)"

function year_loop :: "nat \<Rightarrow> nat \<Rightarrow> nat \<times> nat" where
  "year_loop days year =
     (let inc = year_length year in
      if days < inc then (days, year) else year_loop (days - inc) (Suc year))"
  by pat_completeness auto
termination
  by (relation "measure fst") (auto simp: year_length_def)

fun month_loop :: "nat list \<Rightarrow> nat \<Rightarrow> nat \<Rightarrow> nat \<times> nat" where
  "month_loop [] days month = (days, month)"
| "month_loop (m # ms) days month =
     (if days < m then (days, month) else month_loop ms (days - m) (Suc month))"

definition unix_to_date :: "nat \<Rightarrow> dosdate" where
  "unix_to_date days0 =
     (let (days, year) = year_loop days0 1970; (days', month) = month_loop (year_months year) days 0 in
      \<lparr>dd_day = (days' + 1) mod 32, dd_month = (month + 1) mod 16,
       dd_year = (if year < 1980 then 0 else year - 1980) mod 128\<rparr>)"

definition unix_to_time :: "nat \<Rightarrow> dostime" where
  "unix_to_time t =
     \<lparr>dt_2seconds = ((t mod 60) div 2) mod 32, dt_minutes = ((t div 60) mod 60) mod 64,
      dt_hours = ((t div (60 * 60)) mod 24) mod 32\<rparr>"

definition unix2dostime :: "int \<Rightarrow> int \<Rightarrow> convstate \<Rightarrow> dosdate \<times> dostime \<times> convstate" where
  "unix2dostime minuteswest tv_sec c =
     (let c' = (if lasttime c \<noteq> u_long tv_sec
                then (let t = u_long (tv_sec - minuteswest * 60);
                          c1 = c\<lparr>lasttime := t, lastdtime := unix_to_time t\<rparr>;
                          days = t div (24 * 60 * 60) in
                      if days \<noteq> lastday c1 then c1\<lparr>lastday := days, lastddate := unix_to_date days\<rparr> else c1)
                else c) in
      (lastddate c', lastdtime c', c'))"

definition SECONDSTO1980 :: nat where
  "SECONDSTO1980 = (8 * 365 + 2 * 366) * (24 * 60 * 60)"

fun years_days :: "nat \<Rightarrow> nat" where
  "years_days 0 = 0"
| "years_days (Suc yr) = years_days yr + year_length yr"

text \<open>The loop over the months before \<open>n\<close>; a read past the table is \<open>None\<close>.\<close>

definition months_days :: "nat list \<Rightarrow> nat \<Rightarrow> nat option" where
  "months_days months n = (if n \<le> length months then Some (sum_list (take n months)) else None)"

definition date_to_seconds :: "dosdate \<Rightarrow> nat option" where
  "date_to_seconds d =
     (let month = (if dd_month d = 0 then 1 else dd_month d) in
      map_option (\<lambda>md. u_long ((int (years_days (dd_year d)) + int md + (int (dd_day d) - 1)) * 24 * 60 * 60
                               + int SECONDSTO1980))
        (months_days (year_months (dd_year d)) (month - 1)))"

text \<open>The time, the date as it is left for the caller (a month of 0 becomes 1), and the state.\<close>

definition dos2unixtime :: "int \<Rightarrow> dosdate \<Rightarrow> dostime \<Rightarrow> convstate \<Rightarrow> (int \<times> dosdate \<times> convstate) option" where
  "dos2unixtime minuteswest d t c =
     (let seconds = dt_2seconds t * 2 + dt_minutes t * 60 + dt_hours t * 60 * 60;
          finish = (\<lambda>d' c'. (s32 (int seconds + int (lastseconds c') + minuteswest * 60), d', c')) in
      if lastdosdate c \<noteq> d
      then map_option (\<lambda>s. finish (d\<lparr>dd_month := (if dd_month d = 0 then 1 else dd_month d)\<rparr>)
                              (c\<lparr>lastdosdate := d, lastseconds := s\<rparr>)) (date_to_seconds d)
      else Some (finish d c))"

section \<open>File names\<close>

definition isupper :: "u8 \<Rightarrow> bool" where "isupper c \<longleftrightarrow> c \<ge> 65 \<and> c \<le> 90"
definition islower :: "u8 \<Rightarrow> bool" where "islower c \<longleftrightarrow> c \<ge> 97 \<and> c \<le> 122"
definition toupper :: "u8 \<Rightarrow> u8" where "toupper c = c AND NOT 32"
definition tolower :: "u8 \<Rightarrow> u8" where "tolower c = c OR 32"

definition SLOT_E5 :: u8 where "SLOT_E5 = 5"
definition SLOT_DELETED :: u8 where "SLOT_DELETED = 229"

text \<open>The bytes up to the last one that is not a blank.\<close>

definition upto_last_nonblank :: "u8 list \<Rightarrow> u8 list" where
  "upto_last_nonblank bs = rev (dropWhile (\<lambda>c. c = 32) (rev bs))"

definition fold_lower :: "u8 \<Rightarrow> u8" where "fold_lower c = (if isupper c then tolower c else c)"
definition fold_upper :: "u8 \<Rightarrow> u8" where "fold_upper c = (if islower c then toupper c else c)"

text \<open>The bytes written before the terminating null, and the length returned.\<close>

definition dos2unixfn :: "u8 list \<Rightarrow> u8 list \<times> nat" where
  "dos2unixfn dn =
     (let name = upto_last_nonblank (take 8 dn); ext = upto_last_nonblank (take 3 (drop 8 dn));
          un = map fold_lower name @ (if ext \<noteq> [] then 46 # map fold_lower ext else []) in
      (case un of [] \<Rightarrow> [] | c # cs \<Rightarrow> (if c = SLOT_E5 then SLOT_DELETED else c) # cs, length un))"

fun first_byte :: "u8 list \<Rightarrow> u8" where
  "first_byte [] = 0"
| "first_byte (c # cs) = c"

text \<open>At most \<open>i\<close> more bytes of the name, up to a dot; what is left of the string and of \<open>unlen\<close>.\<close>

fun copy_name :: "nat \<Rightarrow> u8 list \<Rightarrow> nat \<Rightarrow> u8 list \<times> u8 list \<times> nat" where
  "copy_name (Suc i) (c # un) (Suc unlen) =
     (if c \<noteq> 0 \<and> c \<noteq> 46
      then (case copy_name i un unlen of (bs, r) \<Rightarrow> (fold_upper c # bs, r))
      else ([], c # un, Suc unlen))"
| "copy_name i un unlen = ([], un, unlen)"

fun skip_name :: "u8 list \<Rightarrow> nat \<Rightarrow> u8 list \<times> nat" where
  "skip_name (c # un) (Suc unlen) = (if c \<noteq> 0 \<and> c \<noteq> 46 then skip_name un unlen else (c # un, Suc unlen))"
| "skip_name un unlen = (un, unlen)"

fun copy_ext :: "nat \<Rightarrow> u8 list \<Rightarrow> nat \<Rightarrow> u8 list" where
  "copy_ext (Suc i) (c # un) (Suc unlen) = (if c \<noteq> 0 then fold_upper c # copy_ext i un unlen else [])"
| "copy_ext i un unlen = []"

definition pad :: "nat \<Rightarrow> u8 list \<Rightarrow> u8 list" where
  "pad n bs = bs @ replicate (n - length bs) 32"

definition unix2dosfn :: "u8 list \<Rightarrow> nat \<Rightarrow> u8 list" where
  "unix2dosfn un unlen =
     (if first_byte un = 46 \<and> first_byte (drop 1 un) = 0 then pad 11 [46]
      else if first_byte un = 46 \<and> first_byte (drop 1 un) = 46 \<and> first_byte (drop 2 un) = 0 then pad 11 [46, 46]
      else
        (let (name, un1, n1) = copy_name 8 un unlen;
             dn = pad 8 name;
             dn' = (if hd dn = SLOT_DELETED then SLOT_E5 # tl dn else dn);
             (un2, n2) = skip_name un1 n1;
             un3 = (if n2 \<noteq> 0 \<and> first_byte un2 = 46 then drop 1 un2 else un2) in
         dn' @ pad 3 (copy_ext 3 un3 n2)))"

section \<open>The calendar\<close>

lemma u_long_int: "u_long (int n) = n mod 4294967296"
  unfolding u_long_def by (metis nat_int of_nat_numeral zmod_int)

lemma year_length_pos: "365 \<le> year_length y" "year_length y \<le> 366"
  by (simp_all add: year_length_def)

lemma year_loop_spec:
  "year_loop days y = (r, y') \<Longrightarrow> y \<le> y' \<and> r < year_length y' \<and> days = (\<Sum>k = y..<y'. year_length k) + r"
proof (induction days y rule: year_loop.induct)
  case (1 days y)
  show ?case
  proof (cases "days < year_length y")
    case True
    with "1.prems" show ?thesis by (simp add: Let_def)
  next
    case False
    then have "year_loop (days - year_length y) (Suc y) = (r, y')"
      using "1.prems" by (subst (asm) year_loop.simps) (simp add: Let_def del: year_loop.simps)
    with "1.IH" [OF refl] False
    have IH: "Suc y \<le> y'" "r < year_length y'" "days - year_length y = (\<Sum>k = Suc y..<y'. year_length k) + r" by auto
    then have "(\<Sum>k = y..<y'. year_length k) = year_length y + (\<Sum>k = Suc y..<y'. year_length k)"
      by (simp add: sum.atLeast_Suc_lessThan)
    with IH False show ?thesis by simp
  qed
qed

lemma years_days_sum: "years_days n = (\<Sum>k = 1980..<n + 1980. year_length k)"
proof (induction n)
  case (Suc n)
  have "year_length (n + 1980) = year_length n" using mod_mult_self1 [of n 495 4] by (simp add: year_length_def)
  moreover have "(\<Sum>k = 1980..<Suc n + 1980. year_length k) = (\<Sum>k = 1980..<n + 1980. year_length k) + year_length (n + 1980)"
    unfolding add_Suc by (rule sum.atLeastLessThan_Suc) simp
  ultimately show ?case using Suc by (simp only: years_days.simps)
qed simp

lemma decade_seventies: "(\<Sum>k = 1970..<1980. year_length k) = 3652"
proof -
  have "(\<Sum>k = 1970..<1980. year_length k) = sum_list (map year_length [1970..<1980])"
    by (simp only: interv_sum_list_conv_sum_set_nat set_upt)
  then show ?thesis by (simp add: year_length_def)
qed

text \<open>The years from 1980 on, counted from 1970 or from 1980.\<close>

lemma year_loop_1980:
  assumes "year_loop days 1970 = (r, y)" and "3652 \<le> days" and "days < 49711"
  shows "1980 \<le> y" and "y - 1980 < 128" and "days = 3652 + years_days (y - 1980) + r" and "r < year_length y"
proof -
  note spec = year_loop_spec [OF assms(1)]
  show r: "r < year_length y" using spec by simp
  have lower: "365 * (y - 1970) \<le> (\<Sum>k = 1970..<y. year_length k)"
    using sum_bounded_below [of "{1970..<y}" 365 year_length] year_length_pos(1) by simp
  show y: "1980 \<le> y"
  proof (rule ccontr)
    assume "\<not> 1980 \<le> y"
    then have "(\<Sum>k = 1970..<1980. year_length k) = (\<Sum>k = 1970..<y. year_length k) + (\<Sum>k = y..<1980. year_length k)"
      using spec by (simp add: sum.atLeastLessThan_concat)
    moreover have "year_length y \<le> (\<Sum>k = y..<1980. year_length k)"
      using \<open>\<not> 1980 \<le> y\<close> by (simp add: sum.atLeast_Suc_lessThan)
    ultimately show False using spec r decade_seventies assms(2) by linarith
  qed
  show "y - 1980 < 128" using lower spec assms(3) by linarith
  have "(\<Sum>k = 1970..<y. year_length k) = 3652 + (\<Sum>k = 1980..<y. year_length k)"
    using sum.atLeastLessThan_concat [of 1970 1980 y year_length] y decade_seventies by simp
  then show "days = 3652 + years_days (y - 1980) + r" using spec y by (simp add: years_days_sum)
qed

lemma month_loop_spec:
  "month_loop ms days m0 = (r, m) \<Longrightarrow> days < sum_list ms \<Longrightarrow>
    \<exists>k < length ms. m = m0 + k \<and> r < ms ! k \<and> days = sum_list (take k ms) + r"
proof (induction ms arbitrary: days m0)
  case (Cons a ms)
  show ?case
  proof (cases "days < a")
    case True
    with Cons.prems show ?thesis by (intro exI [of _ 0]) simp
  next
    case False
    with Cons obtain k where "k < length ms" "m = Suc m0 + k" "r < ms ! k" "days - a = sum_list (take k ms) + r"
      by fastforce
    with False show ?thesis by (intro exI [of _ "Suc k"]) simp
  qed
qed simp

lemma year_months_facts:
  "length (year_months y) = 12" "sum_list (year_months y) = year_length y" "k < 12 \<Longrightarrow> year_months y ! k \<le> 31"
proof -
  show "length (year_months y) = 12" "sum_list (year_months y) = year_length y"
    by (simp_all add: year_months_def year_length_def regyear_def leapyear_def)
  have "list_all (\<lambda>m. m \<le> 31) (year_months y)" by (simp add: year_months_def regyear_def leapyear_def)
  then show "k < 12 \<Longrightarrow> year_months y ! k \<le> 31"
    using \<open>length (year_months y) = 12\<close> by (simp add: list_all_length)
qed

lemma year_months_1980: "1980 \<le> y \<Longrightarrow> year_months (y - 1980) = year_months y"
proof -
  assume "1980 \<le> y"
  then have "y mod 4 = (y - 1980) mod 4" using mod_add_eq [of "y - 1980" 4 1980] by simp
  then show ?thesis by (simp add: year_months_def)
qed

text \<open>A date from 1980 on converts back to the first second of its day.\<close>

lemma date_roundtrip:
  assumes "3652 \<le> days" and "days < 49711"
  shows "date_to_seconds (unix_to_date days) = Some (days * 86400 mod 4294967296)"
    and "1 \<le> dd_month (unix_to_date days)"
proof -
  obtain r y where y: "year_loop days 1970 = (r, y)" by (metis prod.exhaust)
  note yr = year_loop_1980 [OF y assms]
  obtain d m where m: "month_loop (year_months y) r 0 = (d, m)" by (metis prod.exhaust)
  from month_loop_spec [OF this] yr(4) obtain k
    where k: "k < 12" "m = k" "d < year_months y ! k" "r = sum_list (take k (year_months y)) + d"
    by (auto simp: year_months_facts)
  have d: "d < 31" using k(3) year_months_facts(3) [OF k(1), of y] by linarith
  have date: "unix_to_date days = \<lparr>dd_day = d + 1, dd_month = k + 1, dd_year = y - 1980\<rparr>"
    using yr(1,2) k(1,2) d unfolding unix_to_date_def y m Let_def by (simp add: m)
  show "1 \<le> dd_month (unix_to_date days)" by (simp add: date)
  have "date_to_seconds (unix_to_date days) =
      Some (u_long (int ((years_days (y - 1980) + sum_list (take k (year_months y)) + d) * 86400 + 3652 * 86400)))"
    using k(1) unfolding date date_to_seconds_def
    by (simp add: year_months_1980 [OF yr(1)] months_days_def year_months_facts(1) SECONDSTO1980_def algebra_simps)
  also have "(years_days (y - 1980) + sum_list (take k (year_months y)) + d) * 86400 + 3652 * 86400 = days * 86400"
    using yr(3) k(4) by (simp add: algebra_simps)
  finally show "date_to_seconds (unix_to_date days) = Some (days * 86400 mod 4294967296)"
    by (simp only: u_long_int)
qed

section \<open>The remembered conversions\<close>

text \<open>What the static variables hold: they start as zeroes, and then remember the last conversion.\<close>

definition conv_ok :: "convstate \<Rightarrow> bool" where
  "conv_ok c \<longleftrightarrow> (lastday c = 0 \<or> lastddate c = unix_to_date (lastday c)) \<and>
     (dd_month (lastdosdate c) = 0 \<or> date_to_seconds (lastdosdate c) = Some (lastseconds c))"

definition conv_init :: "convstate \<Rightarrow> bool" where
  "conv_init c \<longleftrightarrow> c = \<lparr>lasttime = 0, lastday = 0, lastddate = \<lparr>dd_day = 0, dd_month = 0, dd_year = 0\<rparr>,
     lastdtime = \<lparr>dt_2seconds = 0, dt_minutes = 0, dt_hours = 0\<rparr>,
     lastdosdate = \<lparr>dd_day = 0, dd_month = 0, dd_year = 0\<rparr>, lastseconds = 0\<rparr>"

text \<open>Any conversion in either direction, in the time zone \<open>tz\<close>.\<close>

inductive conv_step :: "int \<Rightarrow> convstate \<Rightarrow> convstate \<Rightarrow> bool" for tz :: int where
  to_dos: "unix2dostime tz t c = (d, dt, c') \<Longrightarrow> conv_step tz c c'"
| to_unix: "dos2unixtime tz d dt c = Some (t, d', c') \<Longrightarrow> conv_step tz c c'"

definition conv_inv :: "convstate \<Rightarrow> bool" where
  "conv_inv c \<longleftrightarrow> conv_ok c \<and> lastdtime c = unix_to_time (lasttime c) \<and> lastday c = lasttime c div 86400"

interpretation conv: invariant_system conv_init "conv_step tz" conv_inv for tz
proof
  show "conv_inv c" if "conv_init c" for c
    using that by (simp add: conv_init_def conv_inv_def conv_ok_def unix_to_time_def)
  show "conv_inv c'" if inv: "conv_inv c" and step: "conv_step tz c c'" for c c'
    using step
  proof cases
    case (to_dos t d dt)
    with inv show ?thesis
      by (auto simp: unix2dostime_def Let_def conv_inv_def conv_ok_def split: if_splits)
  next
    case (to_unix d dt t d')
    with inv show ?thesis
      by (auto simp: dos2unixtime_def Let_def conv_inv_def conv_ok_def split: if_splits)
  qed
qed

lemma time_roundtrip:
  "dt_2seconds (unix_to_time t) * 2 + dt_minutes (unix_to_time t) * 60 + dt_hours (unix_to_time t) * 60 * 60
    + t div 86400 * 86400 = t - t mod 2"
proof -
  have a: "t = t div 60 * 60 + t mod 60" "t div 60 = t div 60 div 60 * 60 + t div 60 mod 60"
    "t div 60 div 60 = t div 60 div 60 div 24 * 24 + t div 60 div 60 mod 24"
    by (simp_all only: div_mult_mod_eq)
  have b: "t div 60 div 60 = t div 3600" "t div 3600 div 24 = t div 86400"
    by (simp_all add: div_mult2_eq [symmetric])
  have c: "t mod 60 div 2 * 2 = t mod 60 - t mod 2" using div_mult_mod_eq [of "t mod 60" 2]
    by (simp add: mod_mod_cancel)
  have d: "t mod 60 div 2 < 32" "t div 60 mod 60 < 64" "t div 3600 mod 24 < 32"
    using mod_less_divisor [of 60 t] mod_less_divisor [of 60 "t div 60"] mod_less_divisor [of 24 "t div 3600"] by linarith+
  have "t mod 2 \<le> t mod 60" using mod_less_eq_dividend [of "t mod 60" 2] by (simp add: mod_mod_cancel)
  moreover have "t = t div 86400 * 86400 + (t div 3600 mod 24) * 3600 + (t div 60 mod 60) * 60 + t mod 60"
    using a unfolding b by linarith
  moreover have "dt_2seconds (unix_to_time t) = t mod 60 div 2" "dt_minutes (unix_to_time t) = t div 60 mod 60"
    "dt_hours (unix_to_time t) = t div 3600 mod 24" using d by (simp_all add: unix_to_time_def)
  moreover have sum: "s2 * 2 + m * 60 + h * 60 * 60 + q * 86400 = n - p"
    if "n = q * 86400 + h * 3600 + m * 60 + s" "s2 * 2 = s - p" "p \<le> s" for s2 m h q n p s :: nat
    using that by simp
  ultimately show ?thesis using c by (metis sum)
qed

text \<open>
  Property C39. When the time zone is Greenwich, or the time is not equal to the local time that the last
  conversion remembered, a time from 1980 on (in local time, within 32 bits) is stored as a DOS date
  and time that convert back to the same time, rounded down to an even second of local time, whatever
  else the caches hold after a sequence of conversions. In the excluded case the code returns the
  result of another time (\<open>unix2dostime_stale\<close>).
\<close>

theorem dos_time_roundtrip:
  assumes "reach conv_init (conv_step tz) c" and "tz = 0 \<or> lasttime c \<noteq> u_long t"
    and "315532800 \<le> t - tz * 60" and "t - tz * 60 < 4294967296" and "- 2147483648 < t" and "t < 2147483648"
    and "unix2dostime tz t c = (d, dt, c')"
  shows "\<exists>c''. dos2unixtime tz d dt c' = Some (t - (t - tz * 60) mod 2, d, c'')"
proof -
  define l where "l = nat (t - tz * 60)"
  have l: "u_long (t - tz * 60) = l" "int l = t - tz * 60" using assms(3,4) by (simp_all add: l_def u_long_def)
  have "conv_step tz c c'" using assms(7) by (rule to_dos)
  with assms(1) have "conv_inv c'" "conv_inv c" by (blast intro: conv.reach_inv reach_step)+
  moreover have "lasttime c' = l" "d = lastddate c'" "dt = lastdtime c'"
    using assms(2,7) l by (auto simp: unix2dostime_def Let_def split: if_splits)
  moreover have days: "3652 \<le> l div 86400" "l div 86400 < 49711" using l(2) assms(3,4) by linarith+
  ultimately have d: "d = unix_to_date (l div 86400)" and dt: "dt = unix_to_time l" and ok: "conv_ok c'"
    by (auto simp: conv_inv_def conv_ok_def)
  have sec: "date_to_seconds d = Some (l div 86400 * 86400)" and mon: "dd_month d \<noteq> 0"
    using date_roundtrip [OF days] l(2) assms(4) unfolding d by auto
  have "dt_2seconds dt * 2 + dt_minutes dt * 60 + dt_hours dt * 60 * 60 + l div 86400 * 86400 = l - l mod 2"
    unfolding dt by (rule time_roundtrip)
  moreover have "int (l - l mod 2) + tz * 60 = t - (t - tz * 60) mod 2"
    using l(2) by (simp add: of_nat_diff zmod_int)
  moreover have "s32 (t - (t - tz * 60) mod 2) = t - (t - tz * 60) mod 2"
    using assms(5,6) pos_mod_bound [of 2 "t - tz * 60"] pos_mod_sign [of 2 "t - tz * 60"] by (intro s32_id) linarith+
  ultimately have fin: "s32 (int (dt_2seconds dt * 2 + dt_minutes dt * 60 + dt_hours dt * 60 * 60) +
      int (l div 86400 * 86400) + tz * 60) = t - (t - tz * 60) mod 2"
    by (metis of_nat_add)
  have "lastseconds c' = l div 86400 * 86400" if "lastdosdate c' = d"
    using ok sec mon that by (simp add: conv_ok_def)
  with fin sec mon show ?thesis by (auto simp: dos2unixtime_def Let_def)
qed

definition conv0 :: convstate where
  "conv0 = \<lparr>lasttime = 0, lastday = 0, lastddate = \<lparr>dd_day = 0, dd_month = 0, dd_year = 0\<rparr>,
     lastdtime = \<lparr>dt_2seconds = 0, dt_minutes = 0, dt_hours = 0\<rparr>,
     lastdosdate = \<lparr>dd_day = 0, dd_month = 0, dd_year = 0\<rparr>, lastseconds = 0\<rparr>"

theorem dos_time_roundtrip_witness:
  "\<exists>d dt c' c''. unix2dostime 300 757382401 conv0 = (d, dt, c') \<and>
     dos2unixtime 300 d dt c' = Some (757382400, d, c'')"
proof -
  obtain d dt c' where u: "unix2dostime 300 757382401 conv0 = (d, dt, c')" by (metis prod.exhaust)
  have "reach conv_init (conv_step 300) conv0" by (rule reach_init) (simp add: conv_init_def conv0_def)
  moreover have "(300 :: int) = 0 \<or> lasttime conv0 \<noteq> u_long 757382401" by (simp add: conv0_def u_long_def)
  ultimately have "\<exists>c''. dos2unixtime 300 d dt c' = Some (757382401 - (757382401 - 300 * 60) mod 2, d, c'')"
    by (rule dos_time_roundtrip) (use u in simp_all)
  with u show ?thesis by simp
qed

text \<open>
  Outside Greenwich the shortcut of \<^verbatim>\<open>unix2dostime\<close> is wrong: it compares the time asked for
  with the local time it remembered. One hour west of Greenwich, converting a time and then the time
  one hour before gives the same DOS date and time twice, an hour off for the second.
\<close>

lemma unix2dostime_stale:
  "let (d1, t1, c1) = unix2dostime 60 757382400 conv0; (d2, t2, c2) = unix2dostime 60 757378800 c1;
       (d3, t3, c3) = unix2dostime 60 757378800 conv0 in
   (d2, t2) = (d1, t1) \<and> (d2, t2) \<noteq> (d3, t3)"
proof -
  have "unix_to_time 757375200 \<noteq> unix_to_time 757378800" by (simp add: unix_to_time_def)
  then show ?thesis by (simp add: unix2dostime_def conv0_def u_long_def Let_def)
qed

text \<open>
  A directory entry with month 14 or 15, values that fit the bit-field, makes
  \<^verbatim>\<open>dos2unixtime\<close> read past the table of month lengths, whatever was converted before; months up to 13 do
  not.
\<close>

lemma dos2unixtime_month_bounds:
  "dos2unixtime tz d dt c = None \<longleftrightarrow> lastdosdate c \<noteq> d \<and> 14 \<le> dd_month d"
  by (auto simp: dos2unixtime_def date_to_seconds_def months_days_def year_months_facts Let_def split: if_splits)

section \<open>Names that fit\<close>

text \<open>
  The names a DOS directory entry can hold: one to eight bytes, and after a dot up to three more; no
  blanks, no upper case, and not starting with the byte that stands for \<open>0xe5\<close>.
\<close>

definition name_byte :: "u8 \<Rightarrow> bool" where
  "name_byte c \<longleftrightarrow> c \<noteq> 0 \<and> c \<noteq> 32 \<and> \<not> isupper c"

definition valid_name :: "u8 list \<Rightarrow> bool" where
  "valid_name un \<longleftrightarrow>
     (let base = takeWhile (\<lambda>c. c \<noteq> 46) un; ext = drop (Suc (length base)) un in
      1 \<le> length base \<and> length base \<le> 8 \<and> length ext \<le> 3 \<and> (length base < length un \<longrightarrow> ext \<noteq> []) \<and>
      list_all name_byte un \<and> hd un \<noteq> SLOT_E5)"

lemma fold_upper_facts:
  assumes "\<not> isupper c"
  shows "fold_lower (fold_upper c) = c" and "c \<noteq> 32 \<Longrightarrow> fold_upper c \<noteq> 32"
    and "fold_upper c = x \<Longrightarrow> \<not> isupper x \<Longrightarrow> c = x"
proof -
  have all: "list_all (\<lambda>k. isupper (toupper (word_of_nat k)) \<and> tolower (toupper (word_of_nat k)) = word_of_nat k \<and>
      toupper (word_of_nat k) \<noteq> 32) [97..<123]"
    by (simp add: isupper_def toupper_def tolower_def)
  have up: "isupper (toupper c) \<and> tolower (toupper c) = c \<and> toupper c \<noteq> 32" if "islower c"
  proof -
    have "unat c \<in> set [97..<123]"
      using that unfolding set_upt islower_def word_le_nat_alt atLeastLessThan_iff by simp
    from bspec [OF all [unfolded list_all_iff] this] show ?thesis by simp
  qed
  then show "fold_lower (fold_upper c) = c" "c \<noteq> 32 \<Longrightarrow> fold_upper c \<noteq> 32"
      "fold_upper c = x \<Longrightarrow> \<not> isupper x \<Longrightarrow> c = x"
    using assms by (auto simp: fold_lower_def fold_upper_def)
qed

lemma copy_name_all:
  assumes "list_all (\<lambda>c. c \<noteq> 0 \<and> c \<noteq> 46) base" and "length base \<le> i" and "length base \<le> n"
    and "rest = [] \<or> hd rest = 46"
  shows "copy_name i (base @ rest) n = (map fold_upper base, rest, n - length base)"
  using assms
proof (induction base arbitrary: i n)
  case Nil
  then show ?case by (cases "(i, rest, n)" rule: copy_name.cases) auto
next
  case (Cons c base)
  then obtain i' n' where "i = Suc i'" "n = Suc n'" by (cases i; cases n) auto
  with Cons show ?case by simp
qed

lemma copy_ext_all:
  "list_all (\<lambda>c. c \<noteq> 0) ext \<Longrightarrow> length ext \<le> i \<Longrightarrow> length ext \<le> n \<Longrightarrow> copy_ext i ext n = map fold_upper ext"
proof (induction ext arbitrary: i n)
  case Nil
  then show ?case by (cases i; cases n) simp_all
next
  case (Cons c ext)
  then obtain i' n' where "i = Suc i'" "n = Suc n'" by (cases i; cases n) auto
  with Cons show ?case by simp
qed

lemma upto_last_nonblank_pad:
  assumes "32 \<notin> set bs"
  shows "upto_last_nonblank (pad n bs) = bs"
proof -
  have "dropWhile (\<lambda>c. c = 32) (rev bs) = rev bs"
    using assms by (cases bs rule: rev_cases) auto
  then have "dropWhile (\<lambda>c. c = 32) (replicate k 32 @ rev bs) = rev bs" for k by (induction k) simp_all
  then show ?thesis by (simp add: upto_last_nonblank_def pad_def)
qed

lemma valid_name_split:
  assumes "valid_name un"
  obtains base rest where "un = base @ rest" "rest = [] \<or> (\<exists>ext. rest = 46 # ext \<and> ext \<noteq> [] \<and> length ext \<le> 3)"
    "1 \<le> length base" "length base \<le> 8" "list_all (\<lambda>c. c \<noteq> 46) base" "list_all name_byte un" "hd un \<noteq> SLOT_E5"
proof -
  let ?base = "takeWhile (\<lambda>c. c \<noteq> 46) un" and ?rest = "dropWhile (\<lambda>c. c \<noteq> 46) un"
  have un: "un = ?base @ ?rest" by simp
  have "drop (Suc (length ?base)) un = drop 1 ?rest"
    by (subst (2) un) (simp del: takeWhile_dropWhile_id)
  moreover have "?rest = [] \<or> (\<exists>ext. ?rest = 46 # ext)"
    using hd_dropWhile [of "\<lambda>c. c \<noteq> 46" un] by (cases ?rest) auto
  moreover have "length ?base < length un \<longleftrightarrow> ?rest \<noteq> []"
    using arg_cong [OF un, of length] unfolding length_append by auto
  moreover have "list_all (\<lambda>c. c \<noteq> 46) ?base" by (auto simp: list_all_iff dest: set_takeWhileD)
  ultimately show ?thesis
    using assms by (intro that [OF un]) (auto simp: valid_name_def Let_def)
qed

text \<open>The entry made for a name that fits: both parts in upper case and padded with blanks.\<close>

definition dos_first :: "u8 list \<Rightarrow> u8 list" where
  "dos_first dn = (if hd dn = SLOT_DELETED then SLOT_E5 # tl dn else dn)"

lemma unix2dosfn_fits:
  assumes "un = base @ rest" "rest = [] \<or> (\<exists>ext. rest = 46 # ext \<and> ext \<noteq> [] \<and> length ext \<le> 3)"
    "1 \<le> length base" "length base \<le> 8" "list_all (\<lambda>c. c \<noteq> 46) base" "list_all name_byte un"
  shows "unix2dosfn un (length un) = dos_first (pad 8 (map fold_upper base)) @ pad 3 (map fold_upper (drop 1 rest))"
proof -
  have hd: "first_byte un \<noteq> 46" using assms(1,3,5) by (cases base) auto
  have copy: "copy_name 8 un (length un) = (map fold_upper base, rest, length rest)"
    using copy_name_all [of base 8 "length un" rest] assms by (auto simp: list_all_iff name_byte_def)
  have "skip_name rest (length rest) = (rest, length rest)" using assms(2) by auto
  moreover have "copy_ext 3 (drop 1 rest) (length rest) = map fold_upper (drop 1 rest)"
    using assms(1,2,6) by (intro copy_ext_all) (auto simp: list_all_iff name_byte_def)
  moreover have "(if length rest \<noteq> 0 \<and> first_byte rest = 46 then drop 1 rest else rest) = drop 1 rest"
    using assms(2) by auto
  ultimately show ?thesis
    using hd unfolding unix2dosfn_def copy by (simp add: Let_def dos_first_def)
qed

interpretation dosname: codec "\<lambda>un. unix2dosfn un (length un)" "\<lambda>dn. fst (dos2unixfn dn)" valid_name
proof
  fix un
  assume "valid_name un"
  then obtain base rest where s: "un = base @ rest" "rest = [] \<or> (\<exists>ext. rest = 46 # ext \<and> ext \<noteq> [] \<and> length ext \<le> 3)"
    "1 \<le> length base" "length base \<le> 8" "list_all (\<lambda>c. c \<noteq> 46) base" "list_all name_byte un" "hd un \<noteq> SLOT_E5"
    by (rule valid_name_split)
  then obtain c cs where base: "base = c # cs" by (cases base) auto
  let ?n = "map fold_upper base" and ?e = "map fold_upper (drop 1 rest)"
  have nb: "32 \<notin> set ?n" "32 \<notin> set ?e" 
    using s(1,2,6) fold_upper_facts(2) by (auto simp: list_all_iff name_byte_def)
  have lower: "map (fold_lower \<circ> fold_upper) xs = xs" if "set xs \<subseteq> set un" for xs
    using that s(6) fold_upper_facts(1) by (intro map_idI) (auto simp: list_all_iff name_byte_def)
  define f where "f = (if fold_upper c = SLOT_DELETED then SLOT_E5 else fold_upper c)"
  have f: "f \<noteq> 32" "(if fold_lower f = SLOT_E5 then SLOT_DELETED else fold_lower f) = c"
  proof -
    have c: "\<not> isupper c" "c \<noteq> 32" "c \<noteq> SLOT_E5" using s(1,6,7) base by (auto simp: name_byte_def)
    have "\<not> isupper SLOT_DELETED" "fold_lower SLOT_E5 = SLOT_E5"
      by (simp_all add: isupper_def fold_lower_def SLOT_DELETED_def SLOT_E5_def)
    then show "f \<noteq> 32" "(if fold_lower f = SLOT_E5 then SLOT_DELETED else fold_lower f) = c"
      using c fold_upper_facts [OF c(1)] unfolding f_def by (auto simp: SLOT_E5_def)
  qed
  have dn: "unix2dosfn un (length un) = pad 8 (f # map fold_upper cs) @ pad 3 ?e"
    using unix2dosfn_fits [OF s(1-6)] by (simp add: dos_first_def base f_def pad_def)
  have "upto_last_nonblank (pad 8 (f # map fold_upper cs)) = f # map fold_upper cs"
    "upto_last_nonblank (pad 3 ?e) = ?e"
    using nb f(1) base by (auto intro!: upto_last_nonblank_pad)
  moreover have "length (pad 8 (f # map fold_upper cs)) = 8" "length (pad 3 ?e) = 3"
    using s(2,4) base by (auto simp: pad_def)
  ultimately have "fst (dos2unixfn (unix2dosfn un (length un))) =
      c # map (fold_lower \<circ> fold_upper) cs @ (if rest = [] then [] else 46 # map (fold_lower \<circ> fold_upper) (drop 1 rest))"
    using f(2) s(2) unfolding dn by (auto simp: dos2unixfn_def Let_def)
  also have "\<dots> = un"
  proof -
    have "map (fold_lower \<circ> fold_upper) cs = cs" "map (fold_lower \<circ> fold_upper) (drop 1 rest) = drop 1 rest"
      using s(1) base by (auto intro!: lower dest: in_set_dropD)
    then show ?thesis using s(1,2) base by auto
  qed
  finally show "fst (dos2unixfn (unix2dosfn un (length un))) = un" .
qed

text \<open>
  A name of the form a DOS entry can hold survives the trip: converting it to a directory
  entry and back gives the same name, including names that start with the byte \<open>0xe5\<close>, which marks a
  deleted entry; and two such names never share an entry.
\<close>

lemma dos_name_roundtrip:
  assumes "valid_name un"
  shows "fst (dos2unixfn (unix2dosfn un (length un))) = un \<and>
    (\<forall>un'. valid_name un' \<longrightarrow> unix2dosfn un (length un) = unix2dosfn un' (length un') \<longrightarrow> un = un')"
  using dosname.dec_enc [OF assms] dosname.enc_inj [OF assms] by blast

theorem dos_name_roundtrip_example:
  "unix2dosfn [229, 98, 46, 99] 4 = [5, 66, 32, 32, 32, 32, 32, 32, 67, 32, 32] \<and>
   fst (dos2unixfn [5, 66, 32, 32, 32, 32, 32, 32, 67, 32, 32]) = [229, 98, 46, 99]"
proof -
  have e: "unix2dosfn [229, 98, 46, 99] 4 = [5, 66, 32, 32, 32, 32, 32, 32, 67, 32, 32]"
    by code_simp
  have "valid_name [229, 98, 46, 99]"
    by (simp add: valid_name_def name_byte_def isupper_def SLOT_E5_def)
  from dos_name_roundtrip [OF this, THEN conjunct1] have "fst (dos2unixfn (unix2dosfn [229, 98, 46, 99] 4)) = [229, 98, 46, 99]"
    by (simp add: numeral_eq_Suc)
  with e show ?thesis by simp
qed

text \<open>
  Passing the dot does not count in \<^verbatim>\<open>unlen\<close>, so an extension of one or two letters takes one
  byte more than the component has: looking up \<^verbatim>\<open>a.d\<close> in the path \<^verbatim>\<open>a.d/x\<close> builds an entry whose extension
  contains the slash, which is not the entry of \<^verbatim>\<open>a.d\<close>.
\<close>

lemma unix2dosfn_reads_past_component:
  "unix2dosfn [97, 46, 100, 47, 120] 3 = [65, 32, 32, 32, 32, 32, 32, 32, 68, 47, 32] \<and>
   unix2dosfn [97, 46, 100] 3 = [65, 32, 32, 32, 32, 32, 32, 32, 68, 32, 32]"
  by code_simp

end
