(* ===== verification/Pgrp.thy ===== *)
theory Pgrp
  imports Prelude
begin

text \<open>
  Process groups, sessions and the allocation of process ids: \<^verbatim>\<open>sys/kern/kern_proc.c\<close>, the calls
  \<^verbatim>\<open>getpid\<close>, \<^verbatim>\<open>getppid\<close>, \<^verbatim>\<open>getpgrp\<close>, \<^verbatim>\<open>setsid\<close> and \<^verbatim>\<open>setpgid\<close> of \<^verbatim>\<open>sys/kern/kern_prot.c\<close> and the part of
  \<^verbatim>\<open>fork1\<close> of \<^verbatim>\<open>sys/kern/kern_fork.c\<close> that finds a process id and links the child in.

  Processes, groups and sessions are at addresses; freeing one leaves its contents. A linked list
  (\<^verbatim>\<open>p_nxt\<close>, the hash chains, \<^verbatim>\<open>p_pgrpnxt\<close>, \<^verbatim>\<open>p_osptr\<close>) is the list of the addresses on it. A panic is \<open>None\<close>.
  The addresses that \<^verbatim>\<open>MALLOC\<close> returns are arguments. The signals sent by \<^verbatim>\<open>psignal\<close>, which is not part of
  the repository, are listed in order.
\<close>

section \<open>Processes, groups and sessions\<close>

datatype pstat = SSLEEP | SWAIT | SRUN | SIDL | SZOMB | SSTOP

record proc =
  p_pid :: int
  p_pptr :: nat
  p_children :: "nat list"
  p_pgrp :: nat
  p_stat :: pstat
  p_sctty :: bool
  p_sexec :: bool

record pgrp =
  pg_mem :: "nat list"
  pg_session :: nat
  pg_id :: int
  pg_jobc :: int

record session =
  s_count :: int
  s_leader :: nat
  s_ttyvp :: "nat option"
  s_ttyp :: "nat option"
  s_login :: string

record ps =
  procs :: "nat \<Rightarrow> proc"
  pgrps :: "nat \<Rightarrow> pgrp"
  sessions :: "nat \<Rightarrow> session"
  allproc :: "nat list"
  zombproc :: "nat list"
  pidhash :: "int \<Rightarrow> nat list"
  pgrphash :: "int \<Rightarrow> nat list"
  pidhashmask :: int
  t_pgrp :: "nat \<Rightarrow> nat option"

datatype sig = SIGHUP | SIGCONT

definition PIDHASH :: "ps \<Rightarrow> int \<Rightarrow> int" where
  "PIDHASH s pid = pid AND pidhashmask s"

definition p_session :: "ps \<Rightarrow> nat \<Rightarrow> nat" where
  "p_session s p = pg_session (pgrps s (p_pgrp (procs s p)))"

definition p_pgid :: "ps \<Rightarrow> nat \<Rightarrow> int" where
  "p_pgid s p = pg_id (pgrps s (p_pgrp (procs s p)))"

definition SESS_LEADER :: "ps \<Rightarrow> nat \<Rightarrow> bool" where
  "SESS_LEADER s p \<longleftrightarrow> s_leader (sessions s (p_session s p)) = p"

section \<open>Process groups\<close>

text \<open>The walk of \<^verbatim>\<open>inferior\<close> to the root of the process tree, with fuel.\<close>

definition inferior_turn :: "ps \<Rightarrow> nat \<Rightarrow> nat \<Rightarrow> nat + bool" where
  "inferior_turn s curproc p =
     (if p = curproc then Inr True
      else if p_pid (procs s p) = 0 then Inr False
      else Inl (p_pptr (procs s p)))"

definition inferior :: "nat \<Rightarrow> ps \<Rightarrow> nat \<Rightarrow> nat \<Rightarrow> bool option" where
  "inferior fuel s curproc p = run_fuel (inferior_turn s curproc) fuel p"

definition pfind :: "ps \<Rightarrow> int \<Rightarrow> nat option" where
  "pfind s pid = List.find (\<lambda>p. p_pid (procs s p) = pid) (pidhash s (PIDHASH s pid))"

definition pgfind :: "ps \<Rightarrow> int \<Rightarrow> nat option" where
  "pgfind s pgid = List.find (\<lambda>g. pg_id (pgrps s g) = pgid) (pgrphash s (PIDHASH s pgid))"

definition orphanpg :: "ps \<Rightarrow> nat \<Rightarrow> (nat \<times> sig) list" where
  "orphanpg s g =
     (let mem = pg_mem (pgrps s g) in
      if list_ex (\<lambda>p. p_stat (procs s p) = SSTOP) mem
      then concat (map (\<lambda>p. [(p, SIGHUP), (p, SIGCONT)]) mem) else [])"

text \<open>One adjustment of a job control count, up or down; a count that reaches 0 orphans the group.\<close>

definition adjust :: "bool \<Rightarrow> nat \<Rightarrow> (nat \<times> sig) list \<times> ps \<Rightarrow> (nat \<times> sig) list \<times> ps" where
  "adjust entering g st = (case st of (sigs, s) \<Rightarrow>
     if entering then (sigs, s\<lparr>pgrps := (pgrps s)(g := (pgrps s g)\<lparr>pg_jobc := pg_jobc (pgrps s g) + 1\<rparr>)\<rparr>)
     else
       (let s' = s\<lparr>pgrps := (pgrps s)(g := (pgrps s g)\<lparr>pg_jobc := pg_jobc (pgrps s g) - 1\<rparr>)\<rparr> in
        (if pg_jobc (pgrps s' g) = 0 then sigs @ orphanpg s' g else sigs, s')))"

definition fixjobc :: "nat \<Rightarrow> nat \<Rightarrow> bool \<Rightarrow> (nat \<times> sig) list \<times> ps \<Rightarrow> (nat \<times> sig) list \<times> ps" where
  "fixjobc p pgrp entering st =
     (let s = snd st; mysession = pg_session (pgrps s pgrp);
          hispgrp = p_pgrp (procs s (p_pptr (procs s p)));
          st1 = (if hispgrp \<noteq> pgrp \<and> pg_session (pgrps s hispgrp) = mysession then adjust entering pgrp st else st) in
      fold (\<lambda>c st'. let h = p_pgrp (procs s c) in
              if h \<noteq> pgrp \<and> pg_session (pgrps s h) = mysession \<and> p_stat (procs s c) \<noteq> SZOMB
              then adjust entering h st' else st') (p_children (procs s p)) st1)"

definition pgdelete :: "nat \<Rightarrow> ps \<Rightarrow> ps option" where
  "pgdelete g s =
     (let pg = pgrps s g; sess = sessions s (pg_session pg);
          s1 = (case s_ttyp sess of
                  None \<Rightarrow> s
                | Some tty \<Rightarrow> if t_pgrp s tty = Some g then s\<lparr>t_pgrp := (t_pgrp s)(tty := None)\<rparr> else s);
          b = PIDHASH s (pg_id pg) in
      if g \<in> set (pgrphash s1 b)
      then Some (s1\<lparr>pgrphash := (pgrphash s1)(b := remove1 g (pgrphash s1 b)),
                    sessions := (sessions s1)(pg_session pg := sess\<lparr>s_count := s_count sess - 1\<rparr>)\<rparr>)
      else None)"

text \<open>The list of members without \<open>p\<close>, and the deletion of a group that becomes empty.\<close>

definition unlink_pgrp :: "nat \<Rightarrow> ps \<Rightarrow> ps option" where
  "unlink_pgrp p s =
     (let g = p_pgrp (procs s p); mem = pg_mem (pgrps s g) in
      if p \<in> set mem
      then (let s1 = s\<lparr>pgrps := (pgrps s)(g := (pgrps s g)\<lparr>pg_mem := remove1 p mem\<rparr>)\<rparr> in
            if remove1 p mem = [] then pgdelete g s1 else Some s1)
      else None)"

definition leavepgrp :: "nat \<Rightarrow> ps \<Rightarrow> ps option" where
  "leavepgrp p s = map_option (\<lambda>s1. s1\<lparr>procs := (procs s1)(p := (procs s1 p)\<lparr>p_pgrp := 0\<rparr>)\<rparr>) (unlink_pgrp p s)"

definition new_pgrp :: "nat \<Rightarrow> nat \<Rightarrow> nat \<Rightarrow> int \<Rightarrow> bool \<Rightarrow> ps \<Rightarrow> ps" where
  "new_pgrp ng ns p pgid mksess s =
     (let osess = p_session s p;
          s1 = (if mksess
                then s\<lparr>sessions := (sessions s)(ns := \<lparr>s_count = 1, s_leader = p, s_ttyvp = None, s_ttyp = None,
                                                     s_login = s_login (sessions s osess)\<rparr>),
                      procs := (procs s)(p := (procs s p)\<lparr>p_sctty := False\<rparr>)\<rparr>
                else s\<lparr>sessions := (sessions s)(osess := (sessions s osess)\<lparr>s_count := s_count (sessions s osess) + 1\<rparr>)\<rparr>) in
      s1\<lparr>pgrps := (pgrps s1)(ng := \<lparr>pg_mem = [], pg_session = (if mksess then ns else osess), pg_id = pgid, pg_jobc = 0\<rparr>),
         pgrphash := (pgrphash s1)(PIDHASH s pgid := ng # pgrphash s1 (PIDHASH s pgid))\<rparr>)"

definition move_pgrp :: "nat \<Rightarrow> nat \<Rightarrow> ps \<Rightarrow> ((nat \<times> sig) list \<times> ps) option" where
  "move_pgrp p g s =
     (case fixjobc p (p_pgrp (procs s p)) False (fixjobc p g True ([], s)) of (sigs, s1) \<Rightarrow>
        map_option (\<lambda>s2. (sigs, s2\<lparr>procs := (procs s2)(p := (procs s2 p)\<lparr>p_pgrp := g\<rparr>),
                                   pgrps := (pgrps s2)(g := (pgrps s2 g)\<lparr>pg_mem := p # pg_mem (pgrps s2 g)\<rparr>)\<rparr>))
          (unlink_pgrp p s1))"

definition enterpgrp :: "nat \<Rightarrow> nat \<Rightarrow> nat \<Rightarrow> int \<Rightarrow> bool \<Rightarrow> ps \<Rightarrow> ((nat \<times> sig) list \<times> ps) option" where
  "enterpgrp ng ns p pgid mksess s =
     (case pgfind s pgid of
        None \<Rightarrow> move_pgrp p ng (new_pgrp ng ns p pgid mksess s)
      | Some g \<Rightarrow> if g = p_pgrp (procs s p) then Some ([], s) else move_pgrp p g s)"

section \<open>System calls\<close>

definition getpid :: "ps \<Rightarrow> nat \<Rightarrow> int \<times> int" where
  "getpid s p = (p_pid (procs s p), p_pid (procs s (p_pptr (procs s p))))"

definition getppid :: "ps \<Rightarrow> nat \<Rightarrow> int" where
  "getppid s p = p_pid (procs s (p_pptr (procs s p)))"

definition getpgrp :: "ps \<Rightarrow> nat \<Rightarrow> int" where
  "getpgrp s p = p_pgid s p"

text \<open>The result of a call that may panic: the error or the value returned, the signals, the state.\<close>

type_synonym syscall = "(int result \<times> (nat \<times> sig) list \<times> ps) option"

definition setsid :: "nat \<Rightarrow> nat \<Rightarrow> nat \<Rightarrow> ps \<Rightarrow> syscall" where
  "setsid ng ns p s =
     (if p_pgid s p = p_pid (procs s p) \<or> pgfind s (p_pid (procs s p)) \<noteq> None then Some (Inl EPERM, [], s)
      else map_option (\<lambda>(sigs, s'). (Inr (p_pid (procs s p)), sigs, s')) (enterpgrp ng ns p (p_pid (procs s p)) True s))"

definition setpgid_target :: "nat \<Rightarrow> nat \<Rightarrow> int \<Rightarrow> ps \<Rightarrow> nat result option" where
  "setpgid_target fuel curp pid s =
     (if pid \<noteq> 0 \<and> pid \<noteq> p_pid (procs s curp)
      then (case pfind s pid of
              None \<Rightarrow> Some (Inl ESRCH)
            | Some targp \<Rightarrow> (case inferior fuel s curp targp of
                None \<Rightarrow> None
              | Some False \<Rightarrow> Some (Inl ESRCH)
              | Some True \<Rightarrow>
                  if p_session s targp \<noteq> p_session s curp then Some (Inl EPERM)
                  else if p_sexec (procs s targp) then Some (Inl EACCES)
                  else Some (Inr targp)))
      else Some (Inr curp))"

definition setpgid :: "nat \<Rightarrow> nat \<Rightarrow> nat \<Rightarrow> nat \<Rightarrow> int \<Rightarrow> int \<Rightarrow> ps \<Rightarrow> syscall" where
  "setpgid fuel ng ns curp pid pgid s = (case setpgid_target fuel curp pid s of
     None \<Rightarrow> None
   | Some (Inl e) \<Rightarrow> Some (Inl e, [], s)
   | Some (Inr targp) \<Rightarrow>
       if SESS_LEADER s targp then Some (Inl EPERM, [], s)
       else
         (let pgid' = (if pgid = 0 then p_pid (procs s targp) else pgid) in
          if pgid' \<noteq> p_pid (procs s targp) \<and>
             (case pgfind s pgid' of None \<Rightarrow> True | Some g \<Rightarrow> pg_session (pgrps s g) \<noteq> p_session s curp)
          then Some (Inl EPERM, [], s)
          else map_option (\<lambda>(sigs, s'). (Inr 0, sigs, s')) (enterpgrp ng ns targp pgid' False s)))"

section \<open>Process ids\<close>

definition PID_MAX :: int where "PID_MAX = 30000"

text \<open>
  One process of the scan of \<^verbatim>\<open>fork1\<close> for an unused id: its id and its group's id, with \<^verbatim>\<open>nextpid\<close> and
  \<^verbatim>\<open>pidchecked\<close>. \<open>Inl\<close> is the jump to \<^verbatim>\<open>retry\<close>.
\<close>

definition pid_scan1 :: "int \<times> int \<Rightarrow> int \<times> int \<Rightarrow> (int \<times> int) + (int \<times> int)" where
  "pid_scan1 ids st = (case (ids, st) of ((pid, pgid), (nextpid, pidchecked)) \<Rightarrow>
     (let hit = (pid = nextpid \<or> pgid = nextpid);
          nextpid' = (if hit then nextpid + 1 else nextpid) in
      if hit \<and> nextpid' \<ge> pidchecked then Inl (nextpid', pidchecked)
      else
        (let c1 = (if pid > nextpid' \<and> pidchecked > pid then pid else pidchecked);
             c2 = (if pgid > nextpid' \<and> c1 > pgid then pgid else c1) in
         Inr (nextpid', c2))))"

fun pid_scan :: "(int \<times> int) list \<Rightarrow> int \<times> int \<Rightarrow> (int \<times> int) + (int \<times> int)" where
  "pid_scan [] st = Inr st"
| "pid_scan (ids # rest) st = (case pid_scan1 ids st of Inl st' \<Rightarrow> Inl st' | Inr st' \<Rightarrow> pid_scan rest st')"

text \<open>The code from the label \<^verbatim>\<open>retry\<close> on. The list holds the ids of \<^verbatim>\<open>allproc\<close> and then of \<^verbatim>\<open>zombproc\<close>.\<close>

definition pid_turn :: "(int \<times> int) list \<Rightarrow> int \<times> int \<Rightarrow> (int \<times> int) + (int \<times> int)" where
  "pid_turn ids st = (case st of (nextpid, pidchecked) \<Rightarrow>
     (let (n, c) = (if nextpid \<ge> PID_MAX then (100, 0) else (nextpid, pidchecked)) in
      if n \<ge> c then pid_scan ids (n, PID_MAX) else Inr (n, c)))"

definition find_pid :: "nat \<Rightarrow> (int \<times> int) list \<Rightarrow> int \<times> int \<Rightarrow> (int \<times> int) option" where
  "find_pid fuel ids st = run_fuel (pid_turn ids) fuel (fst st + 1, snd st)"

definition all_ids :: "ps \<Rightarrow> (int \<times> int) list" where
  "all_ids s = map (\<lambda>p. (p_pid (procs s p), p_pgid s p)) (allproc s @ zombproc s)"

text \<open>
  \<^verbatim>\<open>fork1\<close>: the limits, with \<open>uid_of\<close> the effective user of a process and \<open>nproc_limit\<close> the caller's
  \<^verbatim>\<open>RLIMIT_NPROC\<close>; the id; and the child at the address \<open>p2\<close> linked into the lists. The copying of the
  address space and of the other structures is not part of this component.
\<close>

definition fork_limits :: "(nat \<Rightarrow> int) \<Rightarrow> int \<Rightarrow> int \<Rightarrow> int \<Rightarrow> nat \<Rightarrow> ps \<Rightarrow> errno option" where
  "fork_limits uid_of nprocs maxproc nproc_limit p1 s =
     (let uid = uid_of p1;
          count = (if uid \<noteq> 0 then int (length (filter (\<lambda>p. uid_of p = uid) (allproc s)))
                                  + int (length (filter (\<lambda>p. uid_of p = uid) (zombproc s))) else 0) in
      if nprocs \<ge> maxproc \<or> uid = 0 \<and> nprocs \<ge> maxproc + 1 then Some EAGAIN
      else if count > nproc_limit then Some EAGAIN
      else None)"

fun insert_after :: "nat \<Rightarrow> nat \<Rightarrow> nat list \<Rightarrow> nat list" where
  "insert_after p q [] = []"
| "insert_after p q (x # xs) = (if x = p then x # q # xs else x # insert_after p q xs)"

definition fork_link :: "nat \<Rightarrow> nat \<Rightarrow> int \<Rightarrow> ps \<Rightarrow> ps" where
  "fork_link p1 p2 pid s =
     (let g = p_pgrp (procs s p1); b = PIDHASH s pid;
          child = \<lparr>p_pid = pid, p_pptr = p1, p_children = [], p_pgrp = g, p_stat = SIDL,
                   p_sctty = (s_ttyvp (sessions s (p_session s p1)) \<noteq> None \<and> p_sctty (procs s p1)), p_sexec = False\<rparr> in
      s\<lparr>procs := (procs s)(p1 := (procs s p1)\<lparr>p_children := p2 # p_children (procs s p1)\<rparr>, p2 := child),
        pgrps := (pgrps s)(g := (pgrps s g)\<lparr>pg_mem := insert_after p1 p2 (pg_mem (pgrps s g))\<rparr>),
        allproc := p2 # allproc s,
        pidhash := (pidhash s)(b := p2 # pidhash s b)\<rparr>)"

definition fork1 :: "nat \<Rightarrow> (nat \<Rightarrow> int) \<Rightarrow> int \<Rightarrow> int \<Rightarrow> int \<Rightarrow> nat \<Rightarrow> nat \<Rightarrow> int \<times> int \<Rightarrow> ps \<Rightarrow>
    (int result \<times> (int \<times> int) \<times> ps) option" where
  "fork1 fuel uid_of nprocs maxproc nproc_limit p1 p2 pidst s =
     (case fork_limits uid_of nprocs maxproc nproc_limit p1 s of
        Some e \<Rightarrow> Some (Inl e, pidst, s)
      | None \<Rightarrow> map_option (\<lambda>(pid, checked). (Inr pid, (pid, checked), fork_link p1 p2 pid s))
                  (find_pid fuel (all_ids s) pidst))"

section \<open>The search for an unused id\<close>

definition used :: "(int \<times> int) list \<Rightarrow> int \<Rightarrow> bool" where
  "used ids x \<longleftrightarrow> list_ex (\<lambda>(pid, pgid). pid = x \<or> pgid = x) ids"

text \<open>No process has an id and a group id that are neighbours.\<close>

definition no_neighbours :: "(int \<times> int) list \<Rightarrow> bool" where
  "no_neighbours ids \<longleftrightarrow> list_all (\<lambda>(pid, pgid). pgid \<noteq> pid + 1 \<and> pid \<noteq> pgid + 1) ids"

text \<open>No id from \<open>n\<close> up to \<open>c\<close> is in use.\<close>

definition unused_range :: "(int \<times> int) list \<Rightarrow> int \<times> int \<Rightarrow> bool" where
  "unused_range ids st \<longleftrightarrow> (\<forall>x. used ids x \<longrightarrow> x < fst st \<or> snd st \<le> x)"

lemma used_append [simp]: "used (as @ bs) x \<longleftrightarrow> used as x \<or> used bs x"
  by (auto simp: used_def)

lemma used_Cons [simp]: "used ((pid, pgid) # ids) x \<longleftrightarrow> pid = x \<or> pgid = x \<or> used ids x"
  by (simp add: used_def)

lemma used_Nil [simp]: "\<not> used [] x"
  by (simp add: used_def)

lemma pid_scan1_range:
  assumes "pid_scan1 (pid, pgid) (n, c) = Inr (n', c')" and "n < c" and "unused_range done (n, c)"
    and "pgid \<noteq> pid + 1" and "pid \<noteq> pgid + 1"
  shows "n' < c' \<and> c' \<le> c \<and> n \<le> n' \<and> unused_range (done @ [(pid, pgid)]) (n', c')"
  using assms by (fastforce simp: pid_scan1_def Let_def unused_range_def split: if_splits)

lemma pid_scan_range:
  assumes "pid_scan ids (n, c) = Inr (n', c')" and "n < c" and "unused_range done (n, c)" and "no_neighbours ids"
  shows "n' < c' \<and> c' \<le> c \<and> n \<le> n' \<and> unused_range (done @ ids) (n', c')"
  using assms
proof (induction ids arbitrary: n c "done")
  case (Cons id ids)
  obtain pid pgid where id: "id = (pid, pgid)" by fastforce
  from Cons.prems(1) id obtain n1 c1 where s1: "pid_scan1 (pid, pgid) (n, c) = Inr (n1, c1)"
    and rest: "pid_scan ids (n1, c1) = Inr (n', c')" by (auto split: sum.splits)
  have "pgid \<noteq> pid + 1" "pid \<noteq> pgid + 1" "no_neighbours ids" using Cons.prems(4) id by (simp_all add: no_neighbours_def)
  with pid_scan1_range [OF s1 Cons.prems(2,3)] Cons.IH [OF rest, of "done @ [id]"] id show ?case by force
qed simp

lemma pid_scan_retry:
  assumes "pid_scan ids (n, c) = Inl (n', c')" and "n < c" and "no_neighbours ids" and "n \<le> f" and "\<not> used ids f"
  shows "n < n' \<and> n' \<le> c \<and> c' \<le> n' \<and> n' \<le> f"
  using assms
proof (induction ids arbitrary: n c)
  case (Cons id ids)
  obtain pid pgid where id: "id = (pid, pgid)" by fastforce
  show ?case
  proof (cases "pid_scan1 (pid, pgid) (n, c)")
    case (Inl st)
    with Cons.prems id have "st = (n', c')" by simp
    with Inl Cons.prems id show ?thesis by (auto simp: pid_scan1_def Let_def split: if_splits)
  next
    case (Inr st)
    obtain n1 c1 where st: "st = (n1, c1)" by fastforce
    have nn: "pgid \<noteq> pid + 1" "pid \<noteq> pgid + 1" "no_neighbours ids" using Cons.prems(3) id by (simp_all add: no_neighbours_def)
    have "n1 < c1 \<and> c1 \<le> c \<and> n \<le> n1"
      using pid_scan1_range [OF Inr [unfolded st] Cons.prems(2), of "[]"] nn by (simp add: unused_range_def)
    moreover have "n1 \<le> f" using Inr st Cons.prems(4,5) id by (auto simp: pid_scan1_def Let_def split: if_splits)
    ultimately show ?thesis using Cons.IH [of n1 c1] Cons.prems(1,5) Inr st id nn(3) by auto
  qed
qed simp

definition pid_inv :: "(int \<times> int) list \<Rightarrow> int \<Rightarrow> int \<times> int \<Rightarrow> bool" where
  "pid_inv ids f st \<longleftrightarrow> no_neighbours ids \<and> 100 \<le> f \<and> f < PID_MAX \<and> \<not> used ids f \<and>
     0 < fst st \<and> fst st \<le> PID_MAX \<and> (fst st < snd st \<longrightarrow> unused_range ids st)"

definition pid_good :: "(int \<times> int) list \<Rightarrow> int \<times> int \<Rightarrow> bool" where
  "pid_good ids st \<longleftrightarrow> 0 < fst st \<and> fst st < PID_MAX \<and> fst st < snd st \<and> unused_range ids st"

definition pid_rank :: "int \<Rightarrow> int \<times> int \<Rightarrow> nat" where
  "pid_rank f st = nat (if fst st \<le> f then f - fst st else PID_MAX - fst st + f + 1)"

text \<open>A turn that scans goes on with a larger id that passes no free one, or ends with a free range.\<close>

lemma pid_scan_turn:
  assumes "no_neighbours ids" and "\<not> used ids f" and "f < PID_MAX" and "0 < n" and "n < PID_MAX"
  shows "pid_scan ids (n, PID_MAX) = Inl st \<Longrightarrow> n < fst st \<and> fst st \<le> PID_MAX \<and> snd st \<le> fst st \<and> (n \<le> f \<longrightarrow> fst st \<le> f)"
    and "pid_scan ids (n, PID_MAX) = Inr st \<Longrightarrow> pid_good ids st"
proof -
  obtain a b where st: "st = (a, b)" by fastforce
  show "n < fst st \<and> fst st \<le> PID_MAX \<and> snd st \<le> fst st \<and> (n \<le> f \<longrightarrow> fst st \<le> f)"
    if s: "pid_scan ids (n, PID_MAX) = Inl st"
  proof -
    have "\<exists>g \<ge> n. \<not> used ids g"
    proof -
      have "finite {x. used ids x}"
        by (rule finite_subset [of _ "fst ` set ids \<union> snd ` set ids"]) (auto simp: used_def list_ex_iff image_iff, force+)
      moreover have "infinite {n..}" by (rule infinite_Ici)
      ultimately show ?thesis using finite_subset [of "{n..}" "{x. used ids x}"] by (auto simp: subset_iff)
    qed
    then obtain g where "n \<le> g" "\<not> used ids g" by blast
    with pid_scan_retry [OF s [unfolded st] assms(5,1)] assms(2) show ?thesis by (auto simp: st)
  qed
  show "pid_good ids st" if s: "pid_scan ids (n, PID_MAX) = Inr st"
    using pid_scan_range [OF s [unfolded st] assms(5), of "[]"] assms(1,4) by (auto simp: st pid_good_def unused_range_def)
qed

interpretation pid_loop: ranked_loop "pid_turn ids" "pid_inv ids f" "pid_rank f" "pid_good ids" for ids f
proof
  fix st
  assume inv: "pid_inv ids f st"
  obtain n c where st: "st = (n, c)" by fastforce
  define m where "m = (if n \<ge> PID_MAX then 100 else n)"
  have m: "0 < m" "m < PID_MAX" using inv st by (auto simp: m_def pid_inv_def PID_MAX_def)
  have turn: "pid_turn ids st = (if n < PID_MAX \<and> n < c then Inr (n, c) else pid_scan ids (m, PID_MAX))"
    using m by (auto simp: pid_turn_def st m_def)
  note scan = pid_scan_turn [of ids f m, OF _ _ _ m]
  show "pid_inv ids f st' \<and> pid_rank f st' < pid_rank f st" if "pid_turn ids st = Inl st'" for st'
  proof -
    have s: "pid_scan ids (m, PID_MAX) = Inl st'" using that turn by (auto split: if_splits)
    have "m < fst st' \<and> fst st' \<le> PID_MAX \<and> snd st' \<le> fst st' \<and> (m \<le> f \<longrightarrow> fst st' \<le> f)"
      using scan(1) [OF _ _ _ s] inv by (auto simp: pid_inv_def)
    moreover have "n \<ge> PID_MAX \<Longrightarrow> n = PID_MAX \<and> m = 100" "n < PID_MAX \<Longrightarrow> m = n"
      using inv st by (auto simp: m_def pid_inv_def)
    ultimately show ?thesis
      using inv m st by (cases "n \<ge> PID_MAX") (auto simp: pid_inv_def pid_rank_def PID_MAX_def)
  qed
  show "pid_good ids r" if "pid_turn ids st = Inr r" for r
    using that turn scan(2) inv by (auto simp: pid_inv_def pid_good_def st split: if_splits)
qed

section \<open>The invariant of groups and sessions\<close>

definition everyone :: "ps \<Rightarrow> nat set" where
  "everyone s = set (allproc s) \<union> set (zombproc s)"

abbreviation group_of :: "ps \<Rightarrow> nat \<Rightarrow> nat" where
  "group_of s p \<equiv> p_pgrp (procs s p)"

definition groups :: "ps \<Rightarrow> nat set" where
  "groups s = group_of s ` everyone s"

text \<open>The process tree: process 0 is its own parent, and parents are older in \<^verbatim>\<open>allproc\<close>.\<close>

definition family :: "ps \<Rightarrow> bool" where
  "family s \<longleftrightarrow> distinct (allproc s) \<and> set (allproc s) \<inter> set (zombproc s) = {} \<and>
     (\<forall>q \<in> everyone s. p_stat (procs s q) = SZOMB \<longleftrightarrow> q \<in> set (zombproc s)) \<and>
     (\<forall>q \<in> everyone s. p_pptr (procs s q) \<in> set (allproc s) \<and> (p_pptr (procs s q) = q \<longleftrightarrow> p_pid (procs s q) = 0)) \<and>
     (\<forall>p \<in> set (allproc s). distinct (p_children (procs s p)) \<and>
        set (p_children (procs s p)) = {c \<in> everyone s. p_pptr (procs s c) = p \<and> c \<noteq> p}) \<and>
     (\<forall>b. set (pidhash s b) \<subseteq> set (allproc s)) \<and>
     (\<forall>xs p ys. allproc s = xs @ p # ys \<longrightarrow> p_pid (procs s p) \<noteq> 0 \<longrightarrow> p_pptr (procs s p) \<in> set ys)"

text \<open>\<open>G\<close> is the set of groups that are allocated: they are what the hash table holds.\<close>

definition hashed :: "nat set \<Rightarrow> ps \<Rightarrow> bool" where
  "hashed G s \<longleftrightarrow> finite G \<and> 0 \<notin> G \<and> inj_on (\<lambda>g. pg_id (pgrps s g)) G \<and>
     (\<forall>b. distinct (pgrphash s b) \<and> set (pgrphash s b) = {g \<in> G. PIDHASH s (pg_id (pgrps s g)) = b})"

definition members :: "nat set \<Rightarrow> ps \<Rightarrow> bool" where
  "members G s \<longleftrightarrow> groups s \<subseteq> G \<and>
     (\<forall>g \<in> G. distinct (pg_mem (pgrps s g)) \<and> set (pg_mem (pgrps s g)) = {q \<in> everyone s. group_of s q = g})"

definition counts :: "nat set \<Rightarrow> ps \<Rightarrow> bool" where
  "counts G s \<longleftrightarrow> (\<forall>g \<in> G. s_count (sessions s (pg_session (pgrps s g))) =
     int (card {h \<in> G. pg_session (pgrps s h) = pg_session (pgrps s g)}))"

text \<open>The processes that qualify a group for job control: their parent is in another group of the
  same session.\<close>

definition qual :: "ps \<Rightarrow> nat \<Rightarrow> nat \<Rightarrow> bool" where
  "qual s h g \<longleftrightarrow> h \<noteq> g \<and> pg_session (pgrps s h) = pg_session (pgrps s g)"

definition qualifiers :: "ps \<Rightarrow> nat \<Rightarrow> nat set" where
  "qualifiers s g = {q \<in> set (allproc s). group_of s q = g \<and> qual s (group_of s (p_pptr (procs s q))) g}"

definition jobcs :: "nat set \<Rightarrow> ps \<Rightarrow> bool" where
  "jobcs G s \<longleftrightarrow> (\<forall>g \<in> G. pg_jobc (pgrps s g) = int (card (qualifiers s g)))"

definition pg_inv_on :: "nat set \<Rightarrow> ps \<Rightarrow> bool" where
  "pg_inv_on G s \<longleftrightarrow> family s \<and> hashed G s \<and> members G s \<and> counts G s \<and> jobcs G s"

definition pg_inv :: "ps \<Rightarrow> bool" where
  "pg_inv s \<longleftrightarrow> pg_inv_on (groups s) s"

section \<open>Job control counts\<close>

definition bump :: "(nat \<Rightarrow> int) \<Rightarrow> ps \<Rightarrow> ps" where
  "bump d s = s\<lparr>pgrps := (\<lambda>h. (pgrps s h)\<lparr>pg_jobc := pg_jobc (pgrps s h) + d h\<rparr>)\<rparr>"

lemma bump_bump: "bump d (bump e s) = bump (\<lambda>h. e h + d h) s"
  by (simp add: bump_def add.assoc)

lemma bump_0: "bump (\<lambda>h. 0) s = s"
  by (simp add: bump_def)

lemma bump_simps [simp]:
  "procs (bump d s) = procs s" "sessions (bump d s) = sessions s" "allproc (bump d s) = allproc s"
  "zombproc (bump d s) = zombproc s" "pidhash (bump d s) = pidhash s" "pgrphash (bump d s) = pgrphash s"
  "pidhashmask (bump d s) = pidhashmask s" "t_pgrp (bump d s) = t_pgrp s"
  "pg_mem (pgrps (bump d s) g) = pg_mem (pgrps s g)" "pg_id (pgrps (bump d s) g) = pg_id (pgrps s g)"
  "pg_session (pgrps (bump d s) g) = pg_session (pgrps s g)"
  "pg_jobc (pgrps (bump d s) g) = pg_jobc (pgrps s g) + d g"
  by (simp_all add: bump_def)

definition step_of :: "bool \<Rightarrow> int" where
  "step_of entering = (if entering then 1 else -1)"

lemma adjust_bump: "snd (adjust e g st) = bump (\<lambda>h. if h = g then step_of e else 0) (snd st)"
proof -
  have "(pgrps s)(g := (pgrps s g)\<lparr>pg_jobc := pg_jobc (pgrps s g) + x\<rparr>) =
      (\<lambda>h. (pgrps s h)\<lparr>pg_jobc := pg_jobc (pgrps s h) + (if h = g then x else 0)\<rparr>)" for s :: ps and x
    by (simp add: fun_eq_iff)
  from this [of _ 1] this [of _ "- 1"] show ?thesis
    by (cases st; cases e) (simp_all add: adjust_def Let_def bump_def step_of_def cong: if_cong)
qed

text \<open>The children of \<open>p\<close> that are in the group \<open>h\<close> and not zombies.\<close>

definition kids :: "ps \<Rightarrow> nat \<Rightarrow> nat \<Rightarrow> int" where
  "kids s p h = int (length (filter (\<lambda>c. group_of s c = h \<and> p_stat (procs s c) \<noteq> SZOMB) (p_children (procs s p))))"

definition delta :: "ps \<Rightarrow> nat \<Rightarrow> nat \<Rightarrow> nat \<Rightarrow> int" where
  "delta s p g h = (if h = g \<and> qual s (group_of s (p_pptr (procs s p))) g then 1 else 0) +
     (if qual s h g then kids s p h else 0)"

lemma delta_bump [simp]: "delta (bump d s) p g h = delta s p g h"
  by (simp add: delta_def qual_def kids_def)

lemma fold_adjust:
  "snd (fold (\<lambda>c st. if P c then adjust e (f c) st else st) cs st) =
     bump (\<lambda>h. step_of e * int (length (filter (\<lambda>c. f c = h \<and> P c) cs))) (snd st)"
proof (induction cs arbitrary: st)
  case (Cons c cs)
  show ?case
    by (simp add: Cons adjust_bump bump_bump)
      (auto simp: bump_def fun_eq_iff algebra_simps)
qed (simp add: bump_0)

lemma fixjobc_bump: "snd (fixjobc p g e st) = bump (\<lambda>h. step_of e * delta (snd st) p g h) (snd st)"
proof -
  let ?s = "snd st"
  let ?his = "group_of ?s (p_pptr (procs ?s p))"
  let ?P = "\<lambda>c. group_of ?s c \<noteq> g \<and> pg_session (pgrps ?s (group_of ?s c)) = pg_session (pgrps ?s g) \<and> p_stat (procs ?s c) \<noteq> SZOMB"
  have count: "int (length (filter (\<lambda>c. group_of ?s c = h \<and> ?P c) (p_children (procs ?s p)))) = (if qual ?s h g then kids ?s p h else 0)" for h
    by (cases "qual ?s h g") (auto simp: kids_def qual_def filter_empty_conv intro!: arg_cong [of _ _ length] filter_cong)
  have "snd (fixjobc p g e st) = bump (\<lambda>h. step_of e * int (length (filter (\<lambda>c. group_of ?s c = h \<and> ?P c) (p_children (procs ?s p)))))
      (snd (if qual ?s ?his g then adjust e g st else st))"
    unfolding fixjobc_def Let_def by (subst fold_adjust) (simp add: qual_def)
  also have "\<dots> = bump (\<lambda>h. step_of e * delta ?s p g h) ?s"
    unfolding count by (simp add: adjust_bump bump_bump delta_def) (auto simp: bump_def fun_eq_iff algebra_simps)
  finally show ?thesis .
qed

lemma familyD:
  assumes "family s"
  shows "q \<in> everyone s \<Longrightarrow> p_pptr (procs s q) \<in> set (allproc s)"
    and "q \<in> everyone s \<Longrightarrow> p_pptr (procs s q) = q \<longleftrightarrow> p_pid (procs s q) = 0"
    and "p \<in> set (allproc s) \<Longrightarrow> distinct (p_children (procs s p))"
    and "p \<in> set (allproc s) \<Longrightarrow> c \<in> set (p_children (procs s p)) \<longleftrightarrow> c \<in> everyone s \<and> p_pptr (procs s c) = p \<and> c \<noteq> p"
    and "q \<in> everyone s \<Longrightarrow> p_stat (procs s q) = SZOMB \<longleftrightarrow> q \<in> set (zombproc s)"
    and "set (allproc s) \<inter> set (zombproc s) = {}"
  using assms by (auto simp: family_def)

lemma family_cong:
  assumes "allproc s' = allproc s" "zombproc s' = zombproc s" "pidhash s' = pidhash s"
    and "\<And>q. p_stat (procs s' q) = p_stat (procs s q) \<and> p_pptr (procs s' q) = p_pptr (procs s q) \<and>
      p_pid (procs s' q) = p_pid (procs s q) \<and> p_children (procs s' q) = p_children (procs s q)"
  shows "family s' = family s"
  using assms by (simp add: family_def everyone_def)

lemma allproc_everyone: "p \<in> set (allproc s) \<Longrightarrow> p \<in> everyone s"
  by (simp add: everyone_def)

text \<open>The qualifiers of a group, split into \<open>p\<close>, its children and the rest.\<close>

lemma qualifiers_split:
  assumes fam: "family s" and p: "p \<in> set (allproc s)" "p_pid (procs s p) \<noteq> 0"
  shows "int (card (qualifiers s h)) =
    (if group_of s p = h \<and> qual s (group_of s (p_pptr (procs s p))) h then 1 else 0) +
    (if qual s (group_of s p) h then kids s p h else 0) +
    int (card {q \<in> qualifiers s h. q \<noteq> p \<and> p_pptr (procs s q) \<noteq> p})"
proof -
  let ?me = "{q \<in> qualifiers s h. q = p}" and ?kids = "{q \<in> qualifiers s h. q \<noteq> p \<and> p_pptr (procs s q) = p}"
    and ?rest = "{q \<in> qualifiers s h. q \<noteq> p \<and> p_pptr (procs s q) \<noteq> p}"
  have fin: "finite (qualifiers s h)" by (simp add: qualifiers_def)
  have "?me \<union> (?kids \<union> ?rest) = qualifiers s h" by auto
  moreover have "card (?me \<union> (?kids \<union> ?rest)) = card ?me + card (?kids \<union> ?rest)"
    using fin by (intro card_Un_disjoint) auto
  ultimately have "card (qualifiers s h) = card ?me + card (?kids \<union> ?rest)" by simp
  also have "card (?kids \<union> ?rest) = card ?kids + card ?rest"
    using fin by (intro card_Un_disjoint) auto
  finally have sum: "card (qualifiers s h) = card ?me + card ?kids + card ?rest" by simp
  have me: "?me = (if group_of s p = h \<and> qual s (group_of s (p_pptr (procs s p))) h then {p} else {})"
    using p(1) by (auto simp: qualifiers_def)
  have z: "c \<in> set (allproc s) \<longleftrightarrow> p_stat (procs s c) \<noteq> SZOMB" if "c \<in> everyone s" for c
    using that familyD(5,6) [OF fam] by (auto simp: everyone_def)
  have "?kids = (if qual s (group_of s p) h then
      set (filter (\<lambda>c. group_of s c = h \<and> p_stat (procs s c) \<noteq> SZOMB) (p_children (procs s p))) else {})"
    using familyD(4) [OF fam p(1)] z by (auto simp: qualifiers_def everyone_def)
  then have "int (card ?kids) = (if qual s (group_of s p) h then kids s p h else 0)"
    using familyD(3) [OF fam p(1)] by (simp add: kids_def distinct_card del: set_filter)
  with sum me show ?thesis by simp
qed

lemma qualifiers_move:
  assumes fam: "family s" and p: "p \<in> set (allproc s)" "p_pid (procs s p) \<noteq> 0"
    and s': "allproc s' = allproc s" "zombproc s' = zombproc s" "pidhash s' = pidhash s"
      "procs s' = (procs s)(p := (procs s p)\<lparr>p_pgrp := g\<rparr>)"
      "\<And>h. pg_session (pgrps s' h) = pg_session (pgrps s h)"
  shows "family s'"
    and "int (card (qualifiers s' h)) = int (card (qualifiers s h)) + delta s p g h - delta s p (group_of s p) h"
proof -
  show fam': "family s'"
    using fam by (subst family_cong [of s' s]) (simp_all add: s')
  have parent: "p_pptr (procs s p) \<noteq> p" using familyD(2) [OF fam allproc_everyone [OF p(1)]] p(2) by simp
  have q: "qual s' = qual s" by (simp add: qual_def fun_eq_iff s')
  have k: "kids s' p h = kids s p h"
    using familyD(4) [OF fam p(1)] unfolding kids_def s' by (auto intro!: arg_cong [of _ _ length] filter_cong)
  have rest: "{q \<in> qualifiers s' h. q \<noteq> p \<and> p_pptr (procs s' q) \<noteq> p} = {q \<in> qualifiers s h. q \<noteq> p \<and> p_pptr (procs s q) \<noteq> p}"
    by (auto simp: qualifiers_def q s')
  have "int (card (qualifiers s' h)) =
      (if g = h \<and> qual s (group_of s (p_pptr (procs s p))) h then 1 else 0) + (if qual s g h then kids s p h else 0) +
      int (card {q \<in> qualifiers s h. q \<noteq> p \<and> p_pptr (procs s q) \<noteq> p})"
    using qualifiers_split [OF fam', of p h] p parent unfolding rest k q by (simp add: s')
  with qualifiers_split [OF fam p, of h] show
    "int (card (qualifiers s' h)) = int (card (qualifiers s h)) + delta s p g h - delta s p (group_of s p) h"
    by (auto simp: delta_def qual_def)
qed

section \<open>Moving a process\<close>

text \<open>The groups that are left when \<open>p\<close> leaves its group.\<close>

definition remaining :: "nat set \<Rightarrow> ps \<Rightarrow> nat \<Rightarrow> nat set" where
  "remaining G s p = (if remove1 p (pg_mem (pgrps s (group_of s p))) = [] then G - {group_of s p} else G)"

lemma remaining_bump [simp]: "remaining G (bump d s) p = remaining G s p"
  by (simp add: remaining_def)

lemma hashed_cong:
  assumes "pidhashmask s' = pidhashmask s" "pgrphash s' = pgrphash s" "\<And>h. pg_id (pgrps s' h) = pg_id (pgrps s h)"
  shows "hashed G s' = hashed G s"
  using assms by (simp add: hashed_def PIDHASH_def)

lemma counts_cong:
  assumes "sessions s' = sessions s" "\<And>h. pg_session (pgrps s' h) = pg_session (pgrps s h)"
  shows "counts G s' = counts G s"
  using assms by (simp add: counts_def)

lemma members_cong:
  assumes "allproc s' = allproc s" "zombproc s' = zombproc s" "\<And>q. group_of s' q = group_of s q"
    "\<And>h. pg_mem (pgrps s' h) = pg_mem (pgrps s h)"
  shows "members G s' = members G s"
  using assms by (simp add: members_def groups_def everyone_def)

lemma hashed_remove:
  assumes "hashed G s" and "g \<in> G" and "pidhashmask s' = pidhashmask s" and "\<And>h. pg_id (pgrps s' h) = pg_id (pgrps s h)"
    and "pgrphash s' = (pgrphash s)(PIDHASH s (pg_id (pgrps s g)) := remove1 g (pgrphash s (PIDHASH s (pg_id (pgrps s g)))))"
  shows "hashed (G - {g}) s'"
  using assms by (auto simp: hashed_def PIDHASH_def inj_on_def)

lemma counts_remove:
  assumes "counts G s" and "finite G" and "g \<in> G" and "\<And>h. pg_session (pgrps s' h) = pg_session (pgrps s h)"
    and "sessions s' = (sessions s)(pg_session (pgrps s g) :=
      (sessions s (pg_session (pgrps s g)))\<lparr>s_count := s_count (sessions s (pg_session (pgrps s g))) - 1\<rparr>)"
  shows "counts (G - {g}) s'"
proof -
  have "int (card {h \<in> G - {g}. pg_session (pgrps s h) = \<sigma>}) =
      int (card {h \<in> G. pg_session (pgrps s h) = \<sigma>}) - (if pg_session (pgrps s g) = \<sigma> then 1 else 0)" for \<sigma>
  proof (cases "pg_session (pgrps s g) = \<sigma>")
    case True
    then have "{h \<in> G - {g}. pg_session (pgrps s h) = \<sigma>} = {h \<in> G. pg_session (pgrps s h) = \<sigma>} - {g}" by auto
    moreover have "g \<in> {h \<in> G. pg_session (pgrps s h) = \<sigma>}" using assms(3) True by simp
    ultimately show ?thesis
      using assms(2) True card_gt_0_iff [of "{h \<in> G. pg_session (pgrps s h) = \<sigma>}"]
      by (simp add: card_Diff_singleton of_nat_diff Suc_le_eq) fastforce
  next
    case False
    then have "{h \<in> G - {g}. pg_session (pgrps s h) = \<sigma>} = {h \<in> G. pg_session (pgrps s h) = \<sigma>}" by auto
    with False show ?thesis by simp
  qed
  with assms show ?thesis by (auto simp: counts_def)
qed

lemma pgdelete_eq:
  assumes "g \<in> set (pgrphash s (PIDHASH s (pg_id (pgrps s g))))"
  shows "\<exists>tp. pgdelete g s = Some (s\<lparr>t_pgrp := tp,
    pgrphash := (pgrphash s)(PIDHASH s (pg_id (pgrps s g)) := remove1 g (pgrphash s (PIDHASH s (pg_id (pgrps s g))))),
    sessions := (sessions s)(pg_session (pgrps s g) :=
      (sessions s (pg_session (pgrps s g)))\<lparr>s_count := s_count (sessions s (pg_session (pgrps s g))) - 1\<rparr>)\<rparr>)"
proof (cases "s_ttyp (sessions s (pg_session (pgrps s g)))")
  case None
  then show ?thesis using assms by (intro exI [of _ "t_pgrp s"]) (simp add: pgdelete_def Let_def)
next
  case (Some tty)
  show ?thesis
  proof (cases "t_pgrp s tty = Some g")
    case True
    then show ?thesis using assms Some by (intro exI [of _ "(t_pgrp s)(tty := None)"]) (simp add: pgdelete_def Let_def)
  next
    case False
    then show ?thesis using assms Some by (intro exI [of _ "t_pgrp s"]) (simp add: pgdelete_def Let_def)
  qed
qed

lemma unlink_spec:
  assumes h: "hashed G s" and m: "members G s" and c: "counts G s" and p: "p \<in> everyone s"
  shows "\<exists>s2. unlink_pgrp p s = Some s2 \<and> procs s2 = procs s \<and> allproc s2 = allproc s \<and> zombproc s2 = zombproc s \<and>
    pidhash s2 = pidhash s \<and> pidhashmask s2 = pidhashmask s \<and>
    (\<forall>\<sigma>. s_leader (sessions s2 \<sigma>) = s_leader (sessions s \<sigma>)) \<and>
    (\<forall>g. pg_id (pgrps s2 g) = pg_id (pgrps s g) \<and> pg_session (pgrps s2 g) = pg_session (pgrps s g) \<and>
      pg_jobc (pgrps s2 g) = pg_jobc (pgrps s g) \<and>
      pg_mem (pgrps s2 g) = (if g = group_of s p then remove1 p (pg_mem (pgrps s g)) else pg_mem (pgrps s g))) \<and>
    hashed (remaining G s p) s2 \<and> counts (remaining G s p) s2"
proof -
  let ?a = "group_of s p"
  let ?s1 = "s\<lparr>pgrps := (pgrps s)(?a := (pgrps s ?a)\<lparr>pg_mem := remove1 p (pg_mem (pgrps s ?a))\<rparr>)\<rparr>"
  have a: "?a \<in> G" "p \<in> set (pg_mem (pgrps s ?a))"
    using m p by (auto simp: members_def groups_def)
  have same: "hashed G ?s1" "counts G ?s1"
    using h c hashed_cong [of ?s1 s G] counts_cong [of ?s1 s G] by simp_all
  show ?thesis
  proof (cases "remove1 p (pg_mem (pgrps s ?a)) = []")
    case False
    then have "unlink_pgrp p s = Some ?s1" "remaining G s p = G" using a by (simp_all add: unlink_pgrp_def Let_def remaining_def)
    with same show ?thesis by (intro exI [of _ ?s1]) simp
  next
    case True
    have chain: "?a \<in> set (pgrphash s (PIDHASH s (pg_id (pgrps s ?a))))" using h a(1) by (simp add: hashed_def)
    obtain tp where "pgdelete ?a ?s1 = Some (?s1\<lparr>t_pgrp := tp,
        pgrphash := (pgrphash s)(PIDHASH s (pg_id (pgrps s ?a)) := remove1 ?a (pgrphash s (PIDHASH s (pg_id (pgrps s ?a))))),
        sessions := (sessions s)(pg_session (pgrps s ?a) :=
          (sessions s (pg_session (pgrps s ?a)))\<lparr>s_count := s_count (sessions s (pg_session (pgrps s ?a))) - 1\<rparr>)\<rparr>)"
      using pgdelete_eq [of ?a ?s1] chain by (auto simp: PIDHASH_def)
    then obtain s2 where s2: "pgdelete ?a ?s1 = Some s2" and fields: "procs s2 = procs s" "allproc s2 = allproc s"
      "zombproc s2 = zombproc s" "pidhash s2 = pidhash s" "pidhashmask s2 = pidhashmask s" "pgrps s2 = pgrps ?s1"
      "pgrphash s2 = (pgrphash s)(PIDHASH s (pg_id (pgrps s ?a)) := remove1 ?a (pgrphash s (PIDHASH s (pg_id (pgrps s ?a)))))"
      "sessions s2 = (sessions s)(pg_session (pgrps s ?a) :=
        (sessions s (pg_session (pgrps s ?a)))\<lparr>s_count := s_count (sessions s (pg_session (pgrps s ?a))) - 1\<rparr>)"
      by simp
    have "hashed (G - {?a}) s2" by (rule hashed_remove [OF h a(1)]) (simp_all add: fields)
    moreover have "counts (G - {?a}) s2"
      using h by (intro counts_remove [OF c _ a(1)]) (simp_all add: fields hashed_def)
    moreover have "unlink_pgrp p s = Some s2" using a True s2 by (simp add: unlink_pgrp_def Let_def)
    ultimately show ?thesis using True fields by (simp add: remaining_def)
  qed
qed

lemma members_move:
  assumes m: "members G s" and p: "p \<in> everyone s" and g: "g \<in> G" "g \<noteq> group_of s p"
    and s': "allproc s' = allproc s" "zombproc s' = zombproc s" "procs s' = (procs s)(p := (procs s p)\<lparr>p_pgrp := g\<rparr>)"
      "\<And>h. pg_mem (pgrps s' h) = (if h = group_of s p then remove1 p (pg_mem (pgrps s h))
        else if h = g then p # pg_mem (pgrps s h) else pg_mem (pgrps s h))"
  shows "members (remaining G s p) s'"
proof -
  let ?a = "group_of s p"
  have mem: "distinct (pg_mem (pgrps s h))" "set (pg_mem (pgrps s h)) = {q \<in> everyone s. group_of s q = h}" if "h \<in> G" for h
    using m that by (simp_all add: members_def)
  have a: "?a \<in> G" and G: "\<And>q. q \<in> everyone s \<Longrightarrow> group_of s q \<in> G" using m p by (auto simp: members_def groups_def)
  have ev: "everyone s' = everyone s" by (simp add: everyone_def s')
  have "group_of s' q \<in> remaining G s p" if "q \<in> everyone s" for q
  proof (cases "q = p")
    case False
    then have "q \<in> set (remove1 p (pg_mem (pgrps s ?a)))" if "group_of s q = ?a"
      using mem [OF a] that \<open>q \<in> everyone s\<close> by simp
    then have "group_of s q \<noteq> ?a" if "remove1 p (pg_mem (pgrps s ?a)) = []" using that by auto
    with False G [OF that] show ?thesis by (auto simp: remaining_def s')
  qed (use g in \<open>simp add: remaining_def s'\<close>)
  moreover have "distinct (pg_mem (pgrps s' h)) \<and> set (pg_mem (pgrps s' h)) = {q \<in> everyone s'. group_of s' q = h}"
    if "h \<in> G" for h
  proof -
    have eq: "group_of s' q = (if q = p then g else group_of s q)" for q by (simp add: s'(3))
    consider "h = ?a" | "h = g" "h \<noteq> ?a" | "h \<noteq> ?a" "h \<noteq> g" by blast
    then show ?thesis
      by cases (use mem [OF that] g(2) p in \<open>auto simp: s'(4) ev eq\<close>)
  qed
  ultimately show ?thesis by (auto simp: members_def groups_def ev remaining_def)
qed

lemma move_spec:
  assumes inv: "pg_inv_on G s" and p: "p \<in> set (allproc s)" "p_pid (procs s p) \<noteq> 0"
    and g: "g \<in> G" "g \<noteq> group_of s p"
  shows "\<exists>sigs s'. move_pgrp p g s = Some (sigs, s') \<and> pg_inv_on (remaining G s p) s' \<and>
    procs s' = (procs s)(p := (procs s p)\<lparr>p_pgrp := g\<rparr>) \<and> allproc s' = allproc s \<and> zombproc s' = zombproc s \<and>
    (\<forall>\<sigma>. s_leader (sessions s' \<sigma>) = s_leader (sessions s \<sigma>)) \<and>
    (\<forall>h. pg_id (pgrps s' h) = pg_id (pgrps s h) \<and> pg_session (pgrps s' h) = pg_session (pgrps s h))"
proof -
  let ?a = "group_of s p"
  have fam: "family s" and h: "hashed G s" and m: "members G s" and c: "counts G s" and j: "jobcs G s"
    using inv by (simp_all add: pg_inv_on_def)
  define d where "d = (\<lambda>h. delta s p g h - delta s p ?a h)"
  let ?s1 = "bump d s"
  obtain sigs where f: "fixjobc p ?a False (fixjobc p g True ([], s)) = (sigs, ?s1)"
    using fixjobc_bump [of p ?a False "fixjobc p g True ([], s)"] fixjobc_bump [of p g True "([], s)"]
    by (cases "fixjobc p ?a False (fixjobc p g True ([], s))") (simp add: bump_bump step_of_def d_def)
  have same: "hashed G ?s1" "members G ?s1" "counts G ?s1" "p \<in> everyone ?s1"
    using h m c p hashed_cong [of ?s1 s G] counts_cong [of ?s1 s G] members_cong [of ?s1 s G]
    by (simp_all add: everyone_def)
  from unlink_spec [OF same] obtain s2 where s2: "unlink_pgrp p ?s1 = Some s2"
    "procs s2 = procs s" "allproc s2 = allproc s" "zombproc s2 = zombproc s" "pidhash s2 = pidhash s"
    "pidhashmask s2 = pidhashmask s" "\<And>\<sigma>. s_leader (sessions s2 \<sigma>) = s_leader (sessions s \<sigma>)"
    and pg: "\<And>h. pg_id (pgrps s2 h) = pg_id (pgrps s h) \<and> pg_session (pgrps s2 h) = pg_session (pgrps s h) \<and>
      pg_jobc (pgrps s2 h) = pg_jobc (pgrps s h) + d h \<and>
      pg_mem (pgrps s2 h) = (if h = ?a then remove1 p (pg_mem (pgrps s h)) else pg_mem (pgrps s h))"
    and hc: "hashed (remaining G s p) s2" "counts (remaining G s p) s2"
    unfolding remaining_bump by auto
  define s' where "s' = s2\<lparr>procs := (procs s2)(p := (procs s2 p)\<lparr>p_pgrp := g\<rparr>),
    pgrps := (pgrps s2)(g := (pgrps s2 g)\<lparr>pg_mem := p # pg_mem (pgrps s2 g)\<rparr>)\<rparr>"
  have move: "move_pgrp p g s = Some (sigs, s')" by (simp add: move_pgrp_def f s2(1) s'_def)
  have sess: "pg_session (pgrps s' h) = pg_session (pgrps s h)" "pg_id (pgrps s' h) = pg_id (pgrps s h)" for h
    using pg by (simp_all add: s'_def)
  note qm = qualifiers_move [OF fam p, of s' g]
  have "family s'" by (rule qm(1)) (simp_all add: s'_def s2 pg)
  moreover have "hashed (remaining G s p) s'" "counts (remaining G s p) s'"
    using hc hashed_cong [of s' s2] counts_cong [of s' s2] by (simp_all add: s'_def)
  moreover have "members (remaining G s p) s'"
    by (rule members_move [OF m allproc_everyone [OF p(1)] g]) (use g(2) in \<open>simp_all add: s'_def s2 pg\<close>)
  moreover have "jobcs (remaining G s p) s'"
  proof -
    have "int (card (qualifiers s' h)) = int (card (qualifiers s h)) + d h" for h
      unfolding d_def add_diff_eq by (rule qm(2)) (simp_all add: s'_def s2 pg)
    moreover have "pg_jobc (pgrps s' h) = pg_jobc (pgrps s h) + d h" for h using pg by (simp add: s'_def)
    moreover have "remaining G s p \<subseteq> G" by (auto simp: remaining_def)
    ultimately show ?thesis using j by (auto simp: jobcs_def)
  qed
  ultimately show ?thesis using move sess by (auto simp: pg_inv_on_def s'_def s2)
qed

lemma pg_inv_facts:
  assumes "pg_inv_on G s"
  shows "family s" "hashed G s" "members G s" "counts G s" "jobcs G s" "finite G"
  using assms by (simp_all add: pg_inv_on_def hashed_def)

text \<open>The set of allocated groups is determined by the processes when no group is empty.\<close>

lemma groups_eq:
  assumes "members G s" and "\<And>g. g \<in> G \<Longrightarrow> pg_mem (pgrps s g) \<noteq> []"
  shows "G = groups s"
proof -
  have "g \<in> groups s" if g: "g \<in> G" for g
  proof -
    obtain q where "q \<in> set (pg_mem (pgrps s g))" using assms(2) [OF g] by (cases "pg_mem (pgrps s g)") auto
    with assms(1) g show ?thesis by (auto simp: members_def groups_def)
  qed
  with assms(1) show ?thesis by (auto simp: members_def)
qed

lemma pgfind_spec:
  assumes "hashed G s"
  shows "case pgfind s pgid of None \<Rightarrow> \<forall>g \<in> G. pg_id (pgrps s g) \<noteq> pgid
    | Some g \<Rightarrow> g \<in> G \<and> pg_id (pgrps s g) = pgid"
proof (cases "pgfind s pgid")
  case None
  then have "\<forall>g \<in> set (pgrphash s (PIDHASH s pgid)). pg_id (pgrps s g) \<noteq> pgid"
    by (auto simp: pgfind_def find_None_iff)
  with assms None show ?thesis by (auto simp: hashed_def)
next
  case (Some g)
  then have "g \<in> set (pgrphash s (PIDHASH s pgid))" "pg_id (pgrps s g) = pgid"
    by (auto simp: pgfind_def find_Some_iff)
  with assms Some show ?thesis by (simp add: hashed_def)
qed

text \<open>Addresses that \<^verbatim>\<open>MALLOC\<close> may return for a group and a session.\<close>

definition fresh_pgrp :: "ps \<Rightarrow> nat \<Rightarrow> nat \<Rightarrow> bool" where
  "fresh_pgrp s ng ns \<longleftrightarrow> ng \<noteq> 0 \<and> ng \<notin> groups s \<and> (\<forall>g \<in> groups s. pg_session (pgrps s g) \<noteq> ns)"

lemma new_pgrp_fields:
  "pgrps (new_pgrp ng ns p pgid mk s) = (pgrps s)(ng := \<lparr>pg_mem = [], pg_session = (if mk then ns else p_session s p),
     pg_id = pgid, pg_jobc = 0\<rparr>)"
  "pgrphash (new_pgrp ng ns p pgid mk s) = (pgrphash s)(PIDHASH s pgid := ng # pgrphash s (PIDHASH s pgid))"
  "allproc (new_pgrp ng ns p pgid mk s) = allproc s" "zombproc (new_pgrp ng ns p pgid mk s) = zombproc s"
  "pidhash (new_pgrp ng ns p pgid mk s) = pidhash s" "pidhashmask (new_pgrp ng ns p pgid mk s) = pidhashmask s"
  "procs (new_pgrp ng ns p pgid mk s) q = (if mk \<and> q = p then (procs s p)\<lparr>p_sctty := False\<rparr> else procs s q)"
  "sessions (new_pgrp ng ns p pgid mk s) \<sigma> = (if mk then (if \<sigma> = ns then \<lparr>s_count = 1, s_leader = p, s_ttyvp = None,
     s_ttyp = None, s_login = s_login (sessions s (p_session s p))\<rparr> else sessions s \<sigma>)
     else if \<sigma> = p_session s p then (sessions s \<sigma>)\<lparr>s_count := s_count (sessions s \<sigma>) + 1\<rparr> else sessions s \<sigma>)"
  by (simp_all add: new_pgrp_def Let_def)

lemma new_pgrp_group_of [simp]: "group_of (new_pgrp ng ns p pgid mk s) q = group_of s q"
  by (simp add: new_pgrp_fields)

lemma new_pgrp_counts:
  assumes inv: "pg_inv s" and p: "p \<in> everyone s" and fr: "fresh_pgrp s ng ns"
  shows "counts (insert ng (groups s)) (new_pgrp ng ns p pgid mk s)"
proof -
  let ?s = "new_pgrp ng ns p pgid mk s" and ?G = "insert ng (groups s)"
  let ?\<sigma> = "if mk then ns else p_session s p"
  have c: "counts (groups s) s" and fin: "finite (groups s)" using inv pg_inv_facts by (auto simp: pg_inv_def)
  have ng: "ng \<notin> groups s" using fr by (simp add: fresh_pgrp_def)
  have own: "group_of s p \<in> groups s" using p by (simp add: groups_def)
  have card: "int (card {h \<in> ?G. pg_session (pgrps ?s h) = \<sigma>}) =
      int (card {h \<in> groups s. pg_session (pgrps s h) = \<sigma>}) + (if \<sigma> = ?\<sigma> then 1 else 0)" for \<sigma>
  proof -
    have "{h \<in> ?G. pg_session (pgrps ?s h) = \<sigma>} = (if \<sigma> = ?\<sigma> then {ng} else {}) \<union> {h \<in> groups s. pg_session (pgrps s h) = \<sigma>}"
      using ng by (auto simp: new_pgrp_fields)
    then show ?thesis using fin ng by simp
  qed
  have "s_count (sessions ?s (pg_session (pgrps ?s g))) = int (card {h \<in> ?G. pg_session (pgrps ?s h) = pg_session (pgrps ?s g)})"
    if g: "g \<in> ?G" for g
  proof (cases "g = ng")
    case True
    have "card {h \<in> groups s. pg_session (pgrps s h) = ns} = 0" if mk
      using fr fin by (simp add: fresh_pgrp_def)
    moreover have "s_count (sessions s (p_session s p)) = int (card {h \<in> groups s. pg_session (pgrps s h) = p_session s p})"
      using c own by (simp add: counts_def p_session_def)
    ultimately show ?thesis using True unfolding card by (simp add: new_pgrp_fields)
  next
    case False
    with g have g: "g \<in> groups s" by simp
    have "pg_session (pgrps s g) \<noteq> ns" using fr g by (simp add: fresh_pgrp_def)
    moreover have "s_count (sessions s (pg_session (pgrps s g))) =
        int (card {h \<in> groups s. pg_session (pgrps s h) = pg_session (pgrps s g)})" using c g by (simp add: counts_def)
    ultimately show ?thesis using False unfolding card by (auto simp: new_pgrp_fields)
  qed
  then show ?thesis by (simp add: counts_def)
qed

lemma new_pgrp_inv:
  assumes inv: "pg_inv s" and p: "p \<in> everyone s" and fr: "fresh_pgrp s ng ns" and none: "pgfind s pgid = None"
  shows "pg_inv_on (insert ng (groups s)) (new_pgrp ng ns p pgid mk s)"
proof -
  let ?s = "new_pgrp ng ns p pgid mk s" and ?G = "insert ng (groups s)"
  note facts = pg_inv_facts [OF inv [unfolded pg_inv_def]]
  have ng: "ng \<notin> groups s" "ng \<noteq> 0" using fr by (simp_all add: fresh_pgrp_def)
  have new: "\<forall>g \<in> groups s. pg_id (pgrps s g) \<noteq> pgid" using pgfind_spec [OF facts(2), of pgid] none by simp
  have ev: "everyone ?s = everyone s" by (simp add: everyone_def new_pgrp_fields)
  have gr: "groups ?s = groups s" by (simp add: groups_def ev)
  have "family ?s" using facts(1) by (subst family_cong [of ?s s]) (simp_all add: new_pgrp_fields)
  moreover have "hashed ?G ?s"
    using facts(2) ng new by (auto simp: hashed_def new_pgrp_fields PIDHASH_def inj_on_def)
  moreover have "members ?G ?s"
    using facts(3) ng unfolding members_def ev gr new_pgrp_group_of by (auto simp: new_pgrp_fields groups_def)
  moreover have "jobcs ?G ?s"
  proof -
    have out: "group_of s q \<noteq> ng" if "q \<in> everyone s" for q using that ng(1) by (auto simp: groups_def)
    have par: "p_pptr (procs s q) \<in> everyone s" if "q \<in> set (allproc s)" for q
      using familyD(1) [OF facts(1) allproc_everyone [OF that]] by (rule allproc_everyone)
    have pptr: "p_pptr (procs ?s q) = p_pptr (procs s q)" for q by (simp add: new_pgrp_fields)
    have "qualifiers ?s g = (if g = ng then {} else qualifiers s g)" for g
    proof -
      have "qual ?s (group_of s (p_pptr (procs s q))) g = qual s (group_of s (p_pptr (procs s q))) g"
        if "q \<in> set (allproc s)" "g \<noteq> ng" for q
        using out [OF par [OF that(1)]] that(2) by (simp add: qual_def new_pgrp_fields)
      then show ?thesis
        using out allproc_everyone by (auto simp: qualifiers_def pptr new_pgrp_fields(3))
    qed
    then show ?thesis using facts(5) ng(1) by (auto simp: jobcs_def new_pgrp_fields)
  qed
  ultimately show ?thesis using new_pgrp_counts [OF inv p fr] by (simp add: pg_inv_on_def)
qed

lemma remaining_groups:
  assumes mem: "members G s" "members (remaining G s p) s'" and G: "G \<subseteq> insert g (groups s)"
    and p: "p \<in> everyone s" and s': "everyone s' = everyone s" "\<And>q. group_of s' q = (if q = p then g else group_of s q)"
  shows "remaining G s p = groups s'"
proof -
  let ?a = "group_of s p"
  have "x \<in> groups s'" if x: "x \<in> remaining G s p" for x
  proof -
    consider "x = g" | "x = ?a" "x \<noteq> g" | "x \<in> groups s" "x \<noteq> ?a" using x G by (auto simp: remaining_def split: if_splits)
    then obtain q where "q \<in> everyone s" "group_of s' q = x"
    proof cases
      case 1
      then show ?thesis using p s' that [of p] by simp
    next
      case 2
      then have "remove1 p (pg_mem (pgrps s ?a)) \<noteq> []" using x by (auto simp: remaining_def split: if_splits)
      then obtain q where q: "q \<in> set (remove1 p (pg_mem (pgrps s ?a)))" by (cases "remove1 p (pg_mem (pgrps s ?a))") auto
      have "?a \<in> G" using mem(1) p by (auto simp: members_def groups_def)
      with mem(1) q have "q \<noteq> p \<and> q \<in> everyone s \<and> group_of s q = ?a" by (auto simp: members_def)
      with 2 show ?thesis using that [of q] s' by simp
    next
      case 3
      then obtain q where "q \<in> everyone s" "group_of s q = x" by (auto simp: groups_def)
      moreover from this 3 have "q \<noteq> p" by auto
      ultimately show ?thesis using that [of q] s' by simp
    qed
    then show ?thesis using s'(1) by (auto simp: groups_def)
  qed
  with mem(2) show ?thesis by (auto simp: members_def)
qed

lemma enterpgrp_spec:
  assumes inv: "pg_inv s" and p: "p \<in> set (allproc s)" "p_pid (procs s p) \<noteq> 0" and fr: "fresh_pgrp s ng ns"
  shows "\<exists>sigs s'. enterpgrp ng ns p pgid mk s = Some (sigs, s') \<and> pg_inv s' \<and> p_pgid s' p = pgid \<and>
    allproc s' = allproc s \<and> zombproc s' = zombproc s \<and> (\<forall>q. q \<noteq> p \<longrightarrow> group_of s' q = group_of s q) \<and>
    p_session s' p = (case pgfind s pgid of None \<Rightarrow> if mk then ns else p_session s p | Some g \<Rightarrow> pg_session (pgrps s g)) \<and>
    (pgfind s pgid = None \<longrightarrow> mk \<longrightarrow> s_leader (sessions s' ns) = p)"
proof -
  note facts = pg_inv_facts [OF inv [unfolded pg_inv_def]] and pe = allproc_everyone [OF p(1)]
  show ?thesis
  proof (cases "pgfind s pgid")
    case None
    let ?s = "new_pgrp ng ns p pgid mk s" and ?G = "insert ng (groups s)"
    note inv1 = new_pgrp_inv [OF inv pe fr None, of mk]
    have p1: "p \<in> set (allproc ?s)" "p_pid (procs ?s p) \<noteq> 0" using p by (simp_all add: new_pgrp_fields)
    have ng: "ng \<in> ?G" "ng \<noteq> group_of ?s p" using fr pe by (auto simp: fresh_pgrp_def groups_def new_pgrp_group_of)
    from move_spec [OF inv1 p1 ng] obtain sigs s' where m: "move_pgrp p ng ?s = Some (sigs, s')"
      and i: "pg_inv_on (remaining ?G ?s p) s'" and pr: "procs s' = (procs ?s)(p := (procs ?s p)\<lparr>p_pgrp := ng\<rparr>)"
      and al: "allproc s' = allproc s" "zombproc s' = zombproc s"
      and lead: "\<And>\<sigma>. s_leader (sessions s' \<sigma>) = s_leader (sessions ?s \<sigma>)"
      and pg: "\<And>h. pg_id (pgrps s' h) = pg_id (pgrps ?s h) \<and> pg_session (pgrps s' h) = pg_session (pgrps ?s h)"
      by (auto simp: new_pgrp_fields(3,4))
    have ev: "everyone s' = everyone ?s" "everyone ?s = everyone s" by (simp_all add: everyone_def al new_pgrp_fields)
    have gr: "group_of s' q = (if q = p then ng else group_of ?s q)" for q by (simp add: pr)
    have "groups ?s = groups s" by (simp add: groups_def ev)
    then have "remaining ?G ?s p = groups s'"
      using pg_inv_facts(3) [OF inv1] pg_inv_facts(3) [OF i] pe gr
      by (intro remaining_groups [of _ _ _ _ ng]) (simp_all add: ev)
    then have "pg_inv s'" using i by (simp add: pg_inv_def)
    moreover have "p_pgid s' p = pgid" "p_session s' p = (if mk then ns else p_session s p)"
      using pg [of ng] by (simp_all add: p_pgid_def p_session_def pr new_pgrp_fields)
    moreover have "s_leader (sessions s' ns) = p" if mk using that by (simp add: lead new_pgrp_fields)
    ultimately show ?thesis using None m al gr by (simp add: enterpgrp_def new_pgrp_group_of)
  next
    case (Some g)
    then have g: "g \<in> groups s" "pg_id (pgrps s g) = pgid" using pgfind_spec [OF facts(2), of pgid] by simp_all
    show ?thesis
    proof (cases "g = group_of s p")
      case True
      then show ?thesis using Some inv g by (simp add: enterpgrp_def p_pgid_def p_session_def)
    next
      case False
      from move_spec [OF inv [unfolded pg_inv_def] p g(1) False] obtain sigs s' where m: "move_pgrp p g s = Some (sigs, s')"
        and i: "pg_inv_on (remaining (groups s) s p) s'" and pr: "procs s' = (procs s)(p := (procs s p)\<lparr>p_pgrp := g\<rparr>)"
        and al: "allproc s' = allproc s" "zombproc s' = zombproc s"
        and pg: "\<And>h. pg_id (pgrps s' h) = pg_id (pgrps s h) \<and> pg_session (pgrps s' h) = pg_session (pgrps s h)"
        by blast
      have "remaining (groups s) s p = groups s'"
        using facts(3) pg_inv_facts(3) [OF i] pe by (intro remaining_groups [of _ _ _ _ g]) (auto simp: everyone_def al pr)
      then have "pg_inv s'" using i by (simp add: pg_inv_def)
      with False Some m al pg g show ?thesis by (simp add: enterpgrp_def p_pgid_def p_session_def pr)
    qed
  qed
qed

section \<open>Descendants\<close>

text \<open>How far a process is from the end of \<^verbatim>\<open>allproc\<close>: parents are nearer.\<close>

definition age :: "ps \<Rightarrow> nat \<Rightarrow> nat" where
  "age s p = length (dropWhile (\<lambda>q. q \<noteq> p) (allproc s))"

lemma age_parent:
  assumes fam: "family s" and p: "p \<in> set (allproc s)" "p_pid (procs s p) \<noteq> 0"
  shows "age s (p_pptr (procs s p)) < age s p"
proof -
  obtain xs ys where split: "allproc s = xs @ p # ys" "p \<notin> set xs" using p(1) by (metis split_list_first)
  with fam p(2) have par: "p_pptr (procs s p) \<in> set ys" by (auto simp: family_def)
  have "distinct (allproc s)" using fam by (simp add: family_def)
  with split par have "p_pptr (procs s p) \<notin> set xs" "p_pptr (procs s p) \<noteq> p" by auto
  moreover have drop: "dropWhile (\<lambda>q. q \<noteq> r) (xs @ zs) = dropWhile (\<lambda>q. q \<noteq> r) zs" if "r \<notin> set xs" for r zs
    using that by (induction xs) auto
  ultimately have "age s (p_pptr (procs s p)) \<le> length ys" "age s p = Suc (length ys)"
    using split by (auto simp: age_def length_dropWhile_le)
  then show ?thesis by simp
qed

interpretation inferior: ranked_loop "inferior_turn s cur" "\<lambda>p. family s \<and> p \<in> set (allproc s)" "age s" "\<lambda>_. True"
  for s cur
proof
  fix p p'
  assume inv: "family s \<and> p \<in> set (allproc s)" and turn: "inferior_turn s cur p = Inl p'"
  then have "p' = p_pptr (procs s p)" "p_pid (procs s p) \<noteq> 0" by (auto simp: inferior_turn_def split: if_splits)
  with inv age_parent familyD(1) allproc_everyone
  show "(family s \<and> p' \<in> set (allproc s)) \<and> age s p' < age s p" by metis
qed simp




lemma pfind_Some: "family s \<Longrightarrow> pfind s pid = Some q \<Longrightarrow> q \<in> set (allproc s) \<and> p_pid (procs s q) = pid"
  by (auto simp: family_def pfind_def find_Some_iff) (meson nth_mem subsetD)


section \<open>Fork\<close>

lemma insert_after_mem:
  "p \<in> set xs \<Longrightarrow> set (insert_after p q xs) = insert q (set xs)"
  "p \<in> set xs \<Longrightarrow> distinct xs \<Longrightarrow> q \<notin> set xs \<Longrightarrow> distinct (insert_after p q xs)"
proof -
  show set: "p \<in> set xs \<Longrightarrow> set (insert_after p q xs) = insert q (set xs)" for xs by (induction xs) auto
  show "p \<in> set xs \<Longrightarrow> distinct xs \<Longrightarrow> q \<notin> set xs \<Longrightarrow> distinct (insert_after p q xs)"
    by (induction xs) (auto simp: set)
qed

lemma fork_link_fields:
  assumes "p1 \<noteq> p2"
  shows "procs (fork_link p1 p2 pid s) p1 = (procs s p1)\<lparr>p_children := p2 # p_children (procs s p1)\<rparr>"
    "p_pid (procs (fork_link p1 p2 pid s) p2) = pid" "p_pptr (procs (fork_link p1 p2 pid s) p2) = p1"
    "p_children (procs (fork_link p1 p2 pid s) p2) = []" "group_of (fork_link p1 p2 pid s) p2 = group_of s p1"
    "p_stat (procs (fork_link p1 p2 pid s) p2) = SIDL"
    "q \<noteq> p1 \<Longrightarrow> q \<noteq> p2 \<Longrightarrow> procs (fork_link p1 p2 pid s) q = procs s q"
    "allproc (fork_link p1 p2 pid s) = p2 # allproc s" "zombproc (fork_link p1 p2 pid s) = zombproc s"
    "pgrphash (fork_link p1 p2 pid s) = pgrphash s" "pidhashmask (fork_link p1 p2 pid s) = pidhashmask s"
    "sessions (fork_link p1 p2 pid s) = sessions s"
    "pidhash (fork_link p1 p2 pid s) = (pidhash s)(PIDHASH s pid := p2 # pidhash s (PIDHASH s pid))"
    "pgrps (fork_link p1 p2 pid s) = (pgrps s)(group_of s p1 :=
       (pgrps s (group_of s p1))\<lparr>pg_mem := insert_after p1 p2 (pg_mem (pgrps s (group_of s p1)))\<rparr>)"
  using assms by (simp_all add: fork_link_def Let_def)

lemma fork_link_old:
  assumes "p1 \<noteq> p2" and "q \<noteq> p2"
  shows "group_of (fork_link p1 p2 pid s) q = group_of s q" "p_pptr (procs (fork_link p1 p2 pid s) q) = p_pptr (procs s q)"
    "p_pid (procs (fork_link p1 p2 pid s) q) = p_pid (procs s q)" "p_stat (procs (fork_link p1 p2 pid s) q) = p_stat (procs s q)"
    "p_children (procs (fork_link p1 p2 pid s) q) = (if q = p1 then p2 # p_children (procs s q) else p_children (procs s q))"
  using assms fork_link_fields(1,7) [of p1 p2, where s = s and pid = pid] by (cases "q = p1"; simp)+

lemma fork_family:
  assumes fam: "family s" and p1: "p1 \<in> set (allproc s)" and p2: "p2 \<notin> everyone s" and pid: "pid \<noteq> 0"
  shows "family (fork_link p1 p2 pid s)"
proof -
  let ?s = "fork_link p1 p2 pid s"
  have ne: "p1 \<noteq> p2" using p1 p2 by (auto simp: everyone_def)
  note f = fork_link_fields [OF ne, where pid = pid and s = s] and old = fork_link_old [OF ne, where pid = pid and s = s]
  have ev: "everyone ?s = insert p2 (everyone s)" by (simp add: everyone_def f)
  have in_ev: "q \<noteq> p2" if "q \<in> everyone s" for q using that p2 by auto
  note D = familyD [OF fam]
  have "distinct (allproc ?s)" "set (allproc ?s) \<inter> set (zombproc ?s) = {}"
    using fam p2 by (auto simp: f family_def everyone_def)
  moreover have "p_stat (procs ?s q) = SZOMB \<longleftrightarrow> q \<in> set (zombproc ?s)" if "q \<in> everyone ?s" for q
    using that D(5) p2 in_ev unfolding ev f by (cases "q = p2") (auto simp: f old everyone_def)
  moreover have "p_pptr (procs ?s q) \<in> set (allproc ?s) \<and> (p_pptr (procs ?s q) = q \<longleftrightarrow> p_pid (procs ?s q) = 0)"
    if "q \<in> everyone ?s" for q
    using that D(1,2) p1 pid ne in_ev unfolding ev by (cases "q = p2") (auto simp: f old)
  moreover have "distinct (p_children (procs ?s p)) \<and>
      set (p_children (procs ?s p)) = {c \<in> everyone ?s. p_pptr (procs ?s c) = p \<and> c \<noteq> p}" if "p \<in> set (allproc ?s)" for p
  proof (cases "p = p2")
    case True
    have "p_pptr (procs s c) \<noteq> p2" if "c \<in> everyone s" for c using D(1) [OF that] p2 by (auto simp: everyone_def)
    then show ?thesis using True ne in_ev unfolding ev by (auto simp: f old)
  next
    case False
    with that have p: "p \<in> set (allproc s)" by (simp add: f)
    have "p2 \<notin> set (p_children (procs s p))" using D(4) [OF p] p2 by blast
    then show ?thesis using D(3) [OF p] D(4) [OF p] False in_ev unfolding ev by (auto simp: f old)
  qed
  moreover have "set (pidhash ?s b) \<subseteq> set (allproc ?s)" for b using fam by (auto simp: f family_def)
  moreover have "p_pptr (procs ?s p) \<in> set ys" if "allproc ?s = xs @ p # ys" "p_pid (procs ?s p) \<noteq> 0" for xs p ys
  proof (cases xs)
    case Nil
    with that f(3,8) p1 show ?thesis by auto
  next
    case (Cons x xs')
    with that(1) have "allproc s = xs' @ p # ys" by (simp add: f)
    moreover from this have "p \<noteq> p2" using in_ev [of p] by (auto simp: everyone_def)
    ultimately show ?thesis using fam that(2) by (auto simp: family_def old)
  qed
  ultimately show ?thesis unfolding family_def by blast
qed

lemma fork_inv:
  assumes inv: "pg_inv s" and p1: "p1 \<in> set (allproc s)" and p2: "p2 \<notin> everyone s" and pid: "pid \<noteq> 0"
  shows "pg_inv (fork_link p1 p2 pid s)"
proof -
  let ?s = "fork_link p1 p2 pid s"
  note facts = pg_inv_facts [OF inv [unfolded pg_inv_def]]
  have ne: "p1 \<noteq> p2" using p1 p2 by (auto simp: everyone_def)
  note f = fork_link_fields [OF ne, where pid = pid and s = s] and old = fork_link_old [OF ne, where pid = pid and s = s]
  have ev: "everyone ?s = insert p2 (everyone s)" by (simp add: everyone_def f)
  have gr: "group_of ?s q = (if q = p2 then group_of s p1 else group_of s q)" for q by (simp add: f old)
  have g1: "group_of s p1 \<in> groups s" using p1 by (simp add: groups_def everyone_def)
  have G: "groups ?s = groups s" using g1 p2 unfolding groups_def ev by (auto simp: gr groups_def)
  have sess: "pg_session (pgrps ?s g) = pg_session (pgrps s g)" for g by (simp add: f)
  have "hashed (groups s) ?s" "counts (groups s) ?s"
    using facts(2,4) hashed_cong [of ?s s] counts_cong [of ?s s] by (simp_all add: f)
  moreover have "members (groups s) ?s"
  proof -
    have "distinct (pg_mem (pgrps ?s g)) \<and> set (pg_mem (pgrps ?s g)) = {q \<in> everyone ?s. group_of ?s q = g}"
      if g: "g \<in> groups s" for g
    proof -
      have m: "distinct (pg_mem (pgrps s g))" "set (pg_mem (pgrps s g)) = {q \<in> everyone s. group_of s q = g}"
        using facts(3) g by (simp_all add: members_def)
      show ?thesis
      proof (cases "g = group_of s p1")
        case True
        then have "p1 \<in> set (pg_mem (pgrps s g))" "p2 \<notin> set (pg_mem (pgrps s g))" using m p1 p2 by (simp_all add: everyone_def)
        with True m p2 show ?thesis by (auto simp: f(14) insert_after_mem ev gr)
      next
        case False
        with m p2 show ?thesis by (auto simp: f(14) ev gr)
      qed
    qed
    then show ?thesis using G by (simp add: members_def)
  qed
  moreover have "jobcs (groups s) ?s"
  proof -
    have par: "p_pptr (procs s q) \<noteq> p2" if "q \<in> set (allproc s)" for q
      using familyD(1) [OF facts(1) allproc_everyone [OF that]] p2 by (auto simp: everyone_def)
    have "qualifiers ?s g = qualifiers s g" for g
    proof -
      have "p2 \<notin> qualifiers ?s g" by (auto simp: qualifiers_def f(3) gr ne qual_def)
      moreover have "q \<in> qualifiers ?s g \<longleftrightarrow> q \<in> qualifiers s g" if "q \<noteq> p2" for q
        using that par by (auto simp: qualifiers_def f(8) gr qual_def sess old(2))
      moreover have "p2 \<notin> qualifiers s g" using p2 by (simp add: qualifiers_def everyone_def)
      ultimately show ?thesis by (metis set_eqI)
    qed
    then show ?thesis using facts(5) by (simp add: jobcs_def f(14))
  qed
  ultimately show ?thesis
    using fork_family [OF facts(1) p1 p2 pid] by (simp add: pg_inv_def pg_inv_on_def G)
qed

section \<open>Sessions and groups as a state machine\<close>

text \<open>
  What a process may do: create a session, move itself or a descendant between groups, and fork. The
  process 0 is the swapper and only forks.
\<close>

inductive pg_step :: "ps \<Rightarrow> ps \<Rightarrow> bool" where
  do_setsid: "p \<in> set (allproc s) \<Longrightarrow> p_pid (procs s p) \<noteq> 0 \<Longrightarrow> fresh_pgrp s ng ns \<Longrightarrow>
    setsid ng ns p s = Some (r, sigs, t) \<Longrightarrow> pg_step s t"
| do_setpgid: "p \<in> set (allproc s) \<Longrightarrow> p_pid (procs s p) \<noteq> 0 \<Longrightarrow> fresh_pgrp s ng ns \<Longrightarrow>
    setpgid fuel ng ns p pid pgid s = Some (r, sigs, t) \<Longrightarrow> pg_step s t"
| do_fork: "p1 \<in> set (allproc s) \<Longrightarrow> p2 \<notin> everyone s \<Longrightarrow> 0 \<le> fst pidst \<Longrightarrow>
    fork1 fuel uid_of nprocs maxproc lim p1 p2 pidst s = Some (r, pidst', t) \<Longrightarrow> pg_step s t"

text \<open>At the start there is process 0, alone in group 0 of its session.\<close>

definition proc0 :: proc where
  "proc0 = \<lparr>p_pid = 0, p_pptr = 11, p_children = [], p_pgrp = 21, p_stat = SRUN, p_sctty = False, p_sexec = False\<rparr>"

definition ps0 :: ps where
  "ps0 = \<lparr>procs = \<lambda>_. proc0, pgrps = \<lambda>_. \<lparr>pg_mem = [11], pg_session = 31, pg_id = 0, pg_jobc = 0\<rparr>,
     sessions = \<lambda>_. \<lparr>s_count = 1, s_leader = 11, s_ttyvp = None, s_ttyp = None, s_login = []\<rparr>,
     allproc = [11], zombproc = [], pidhash = (\<lambda>_. [])(0 := [11]), pgrphash = (\<lambda>_. [])(0 := [21]),
     pidhashmask = 63, t_pgrp = \<lambda>_. None\<rparr>"

lemma ps0_inv: "pg_inv ps0"
proof -
  have ev: "everyone ps0 = {11}" and gr: "groups ps0 = {21}"
    by (simp_all add: ps0_def proc0_def everyone_def groups_def)
  have fam: "family ps0"
    by (auto simp: family_def ev) (auto simp: ps0_def proc0_def)
  have "hashed {21} ps0" "members {21} ps0" "counts {21} ps0" "jobcs {21} ps0"
    unfolding hashed_def members_def counts_def jobcs_def qualifiers_def ev gr
    by (auto simp: ps0_def proc0_def PIDHASH_def qual_def)
  with fam show ?thesis by (simp add: pg_inv_def pg_inv_on_def gr)
qed



lemma setpgid_target_allproc:
  assumes "family s" and "setpgid_target fuel curp pid s = Some (Inr t)" and "curp \<in> set (allproc s)"
    and "p_pid (procs s curp) \<noteq> 0"
  shows "t \<in> set (allproc s) \<and> p_pid (procs s t) \<noteq> 0 \<and> p_session s t = p_session s curp"
  using assms pfind_Some [OF assms(1), of pid]
  by (auto simp: setpgid_target_def split: if_splits option.splits bool.splits)

lemma find_pid_pos:
  assumes "find_pid fuel ids st = Some r" and "0 \<le> fst st"
  shows "0 < fst r"
proof -
  let ?out = "case_sum id id"
  have pos: "0 < fst (?out (pid_scan1 i st))" if "0 < fst st" for i st
    using that by (cases i; cases st) (simp add: pid_scan1_def Let_def)
  have scan: "0 < fst (?out (pid_scan ids st))" if "0 < fst st" for ids st
    using that
  proof (induction ids arbitrary: st)
    case (Cons i ids)
    with pos [of st i] show ?case by (cases "pid_scan1 i st") auto
  qed simp
  have turn: "0 < fst (?out (pid_turn ids st))" if "0 < fst st" for st
    using that scan by (cases st) (auto simp: pid_turn_def Let_def)
  have "0 < fst r" if "run_fuel (pid_turn ids) fuel st = Some r" "0 < fst st" for st
    using that
  proof (induction fuel arbitrary: st)
    case (Suc fuel)
    with turn [of st] show ?case by (cases "pid_turn ids st") auto
  qed simp
  with assms show ?thesis by (simp add: find_pid_def)
qed

interpretation pgrp: invariant_system "\<lambda>s. s = ps0" pg_step pg_inv
proof
  show "pg_inv s" if "s = ps0" for s using that ps0_inv by simp
  show "pg_inv t" if inv: "pg_inv s" and step: "pg_step s t" for s t
    using step
  proof cases
    case (do_setsid p ng ns r sigs)
    with inv enterpgrp_spec [OF inv do_setsid(1-3), of "p_pid (procs s p)" True] show ?thesis
      by (auto simp: setsid_def split: if_splits)
  next
    case (do_setpgid p ng ns fuel pid pgid r sigs)
    note fam = pg_inv_facts(1) [OF inv [unfolded pg_inv_def]]
    have "pg_inv t" if t: "setpgid_target fuel p pid s = Some (Inr q)" and e: "enterpgrp ng ns q g False s = Some (sigs, t)" for q g
      using enterpgrp_spec [OF inv _ _ do_setpgid(3), of q g False] setpgid_target_allproc [OF fam t do_setpgid(1,2)] e by auto
    with do_setpgid(4) inv show ?thesis
      by (auto simp: setpgid_def Let_def split: option.splits sum.splits if_splits)
  next
    case (do_fork p1 p2 pidst fuel uid_of nprocs maxproc lim r pidst')
    show ?thesis
    proof (cases "fork_limits uid_of nprocs maxproc lim p1 s")
      case None
      with do_fork(4) obtain pid c where pid: "find_pid fuel (all_ids s) pidst = Some (pid, c)" "t = fork_link p1 p2 pid s"
        by (auto simp: fork1_def)
      with find_pid_pos [OF pid(1) do_fork(3)] fork_inv [OF inv do_fork(1,2)] show ?thesis by simp
    qed (use do_fork(4) inv in \<open>simp add: fork1_def\<close>)
  qed
qed

section \<open>Properties\<close>

text \<open>Process 0 has forked process 1, at the address 12.\<close>

definition ps1 :: ps where
  "ps1 = fork_link 11 12 1 ps0"

lemma ps1_fork: "fork1 1 (\<lambda>_. 0) 1 20 10 11 12 (0, 0) ps0 = Some (Inr 1, (1, 30000), ps1)"
  by (simp add: fork1_def fork_limits_def find_pid_def pid_turn_def pid_scan1_def all_ids_def p_pgid_def PID_MAX_def
      ps1_def ps0_def proc0_def)

lemma reach_ps1: "reach (\<lambda>s. s = ps0) pg_step ps1"
proof (rule reach_step)
  show "reach (\<lambda>s. s = ps0) pg_step ps0" by (rule reach_init) simp
  show "pg_step ps0 ps1"
    by (rule do_fork [OF _ _ _ ps1_fork]) (simp_all add: ps0_def everyone_def)
qed

lemma ps1_facts: "allproc ps1 = [12, 11]" "zombproc ps1 = []" "p_pid (procs ps1 12) = 1" "group_of ps1 12 = 21"
  "group_of ps1 11 = 21" "pg_session (pgrps ps1 21) = 31" "pg_id (pgrps ps1 21) = 0" "everyone ps1 = {11, 12}" "groups ps1 = {21}"
proof -
  show "allproc ps1 = [12, 11]" "zombproc ps1 = []" "p_pid (procs ps1 12) = 1" "group_of ps1 12 = 21"
    "group_of ps1 11 = 21" "pg_session (pgrps ps1 21) = 31" "pg_id (pgrps ps1 21) = 0"
    by (simp_all add: ps1_def fork_link_def Let_def ps0_def proc0_def)
  then show "everyone ps1 = {11, 12}" "groups ps1 = {21}" by (auto simp: everyone_def groups_def)
qed

text \<open>
  Property C11. After any sequence of forks, new sessions and moves between groups: a process is on the
  member list of its group and the group is found by its id; the job control count of the group is the
  number of its processes whose parent is in another group of the same session; and the count of the
  session is the number of its groups.
\<close>

theorem pgrp_counts_exact:
  assumes "reach (\<lambda>s. s = ps0) pg_step s" and "q \<in> everyone s"
  shows "q \<in> set (pg_mem (pgrps s (p_pgrp (procs s q)))) \<and>
    pgfind s (pg_id (pgrps s (p_pgrp (procs s q)))) = Some (p_pgrp (procs s q)) \<and>
    pg_jobc (pgrps s (p_pgrp (procs s q))) = int (card (qualifiers s (p_pgrp (procs s q)))) \<and>
    s_count (sessions s (p_session s q)) = int (card {h \<in> groups s. pg_session (pgrps s h) = p_session s q})"
proof -
  let ?g = "p_pgrp (procs s q)"
  note facts = pg_inv_facts [OF pgrp.reach_inv [OF assms(1), unfolded pg_inv_def]]
  have g: "?g \<in> groups s" using assms(2) by (simp add: groups_def)
  have "pgfind s (pg_id (pgrps s ?g)) = Some ?g"
    using pgfind_spec [OF facts(2), of "pg_id (pgrps s ?g)"] facts(2) g
    by (auto simp: hashed_def inj_on_def split: option.splits)
  then show ?thesis
    using facts(3-5) g assms(2) by (simp add: members_def counts_def jobcs_def p_session_def)
qed

theorem pgrp_counts_exact_witness:
  "12 \<in> set (pg_mem (pgrps ps1 21)) \<and> pgfind ps1 0 = Some 21 \<and> pg_jobc (pgrps ps1 21) = int (card (qualifiers ps1 21))"
  using pgrp_counts_exact [OF reach_ps1, of 12] by (simp add: ps1_facts)

text \<open>
  \<^verbatim>\<open>setsid\<close> in any reachable state returns: it refuses with \<^verbatim>\<open>EPERM\<close>, changing nothing, exactly
  when the process leads its group or a group has its id; otherwise it returns the process id, and the
  process is the leader of a new session, in a new group that has its id.
\<close>

lemma setsid_new_session:
  assumes "reach (\<lambda>s. s = ps0) pg_step s" and "p \<in> set (allproc s)" and "p_pid (procs s p) \<noteq> 0" and "fresh_pgrp s ng ns"
  shows "\<exists>r sigs t. setsid ng ns p s = Some (r, sigs, t) \<and>
    (if p_pgid s p = p_pid (procs s p) \<or> pgfind s (p_pid (procs s p)) \<noteq> None then r = Inl EPERM \<and> t = s
     else r = Inr (p_pid (procs s p)) \<and> p_pgid t p = p_pid (procs s p) \<and> p_session t p = ns \<and> SESS_LEADER t p \<and>
       (\<forall>q. q \<noteq> p \<longrightarrow> p_pgrp (procs t q) = p_pgrp (procs s q)))"
  using enterpgrp_spec [OF pgrp.reach_inv [OF assms(1)] assms(2-4), of "p_pid (procs s p)" True]
  by (auto simp: setsid_def SESS_LEADER_def)

theorem setsid_new_session_example:
  "\<exists>sigs t. setsid 5 7 12 ps1 = Some (Inr 1, sigs, t) \<and> p_pgid t 12 = 1 \<and> p_session t 12 = 7 \<and> SESS_LEADER t 12"
proof -
  have "12 \<in> set (allproc ps1)" "p_pid (procs ps1 12) \<noteq> 0" "fresh_pgrp ps1 5 7"
    by (simp_all add: ps1_facts fresh_pgrp_def)
  moreover have "p_pgid ps1 12 \<noteq> p_pid (procs ps1 12)" "pgfind ps1 (p_pid (procs ps1 12)) = None"
    by (simp_all add: p_pgid_def ps1_facts) (simp add: pgfind_def PIDHASH_def ps1_def fork_link_def ps0_def proc0_def)
  ultimately show ?thesis using setsid_new_session [OF reach_ps1, of 12 5 7] by (simp add: ps1_facts) blast
qed










text \<open>
  The search for a process id returns, with at most 60002 turns of its retry loop, an id in
  range that no process and no group uses, and leaves a range of checked ids that are all unused; provided
  some id is free and no process has an id next to the id of its group.
\<close>

lemma find_pid_unused:
  assumes "no_neighbours ids" and "\<not> used ids f" and "100 \<le> f" and "f < PID_MAX"
    and "0 \<le> nextpid" and "nextpid < PID_MAX" and "unused_range ids (nextpid + 1, pidchecked)" and "60002 \<le> fuel"
  shows "\<exists>n c. find_pid fuel ids (nextpid, pidchecked) = Some (n, c) \<and> 0 < n \<and> n < PID_MAX \<and> \<not> used ids n \<and>
    unused_range ids (n + 1, c)"
proof -
  let ?st = "(nextpid + 1, pidchecked)"
  have "pid_inv ids f ?st" using assms by (simp add: pid_inv_def)
  moreover have "pid_rank f ?st < fuel" using assms(3-6,8) by (auto simp: pid_rank_def PID_MAX_def)
  ultimately obtain r where r: "run_fuel (pid_turn ids) fuel ?st = Some r" "pid_good ids r"
    using pid_loop.run_returns by blast
  obtain n c where nc: "r = (n, c)" by fastforce
  have free: "n < c" "\<And>x. used ids x \<Longrightarrow> x < n \<or> c \<le> x" and range: "0 < n" "n < PID_MAX"
    using r(2) nc by (auto simp: pid_good_def unused_range_def)
  have "\<not> used ids n" using free by force
  moreover have "unused_range ids (n + 1, c)" using free(2) by (fastforce simp: unused_range_def)
  ultimately show ?thesis using r(1) nc range by (simp add: find_pid_def)
qed

theorem find_pid_unused_example:
  "\<exists>n c. find_pid 60002 [(1, 1), (0, 0)] (1, 0) = Some (n, c) \<and> 0 < n \<and> n < PID_MAX \<and> \<not> used [(1, 1), (0, 0)] n"
proof -
  have "no_neighbours [(1, 1), (0, 0)]" "\<not> used [(1, 1), (0, 0)] 100" "(100 :: int) \<le> 100" "(100 :: int) < PID_MAX"
    "(0 :: int) \<le> 1" "(1 :: int) < PID_MAX" "unused_range [(1, 1), (0, 0)] (1 + 1, 0)" "(60002 :: nat) \<le> 60002"
    by (auto simp: no_neighbours_def PID_MAX_def unused_range_def)
  from find_pid_unused [OF this] show ?thesis by blast
qed

text \<open>
  When a process has an id next to its group's id, the search can return an id that is in
  use: with process 5 and its child 6 in group 5, and 4 the id given last, the next process gets id 6.
\<close>

lemma find_pid_duplicate:
  "find_pid 1 [(6, 5), (5, 5)] (4, 0) = Some (6, 30000) \<and> used [(6, 5), (5, 5)] 6"
  by (simp add: find_pid_def pid_turn_def pid_scan1_def PID_MAX_def)

text \<open>
  The comment of \<^verbatim>\<open>fork1\<close> reserves the last process slot for the superuser; the code does not:
  the two limits agree for every user, so an ordinary user may take the last one.
\<close>

lemma fork_last_slot:
  "fork_limits (\<lambda>_. 100) (maxproc - 1) maxproc lim p1 s =
     (if int (length (allproc s)) + int (length (zombproc s)) > lim then Some EAGAIN else None)"
  by (simp add: fork_limits_def)

end
