(* ===== verification/Ppp.thy ===== *)
theory Ppp
  imports Prelude "HOL-Library.Monad_Syntax"
begin

text \<open>
  The point-to-point protocol of the kernel: \<^verbatim>\<open>sys/net/ppp_fsm.c\<close> (the automaton shared by
  the control protocols), \<^verbatim>\<open>ppp_lcp.c\<close> (link control), \<^verbatim>\<open>ppp_ipcp.c\<close> (IP control)
  and \<^verbatim>\<open>ppp_frame.c\<close> (framing, the deferred queue and the idle timer).

  A link is one record, \<open>p2pcom\<close>, that every operation takes and returns. Reading or writing outside
  the data of an mbuf, following a null pointer and a panic are \<open>None\<close>. What the code asks of the
  rest of the kernel is the argument \<open>env\<close>: the start routine of the driver, which may take packets
  from the two send queues and set \<open>IFF_OACTIVE\<close>; \<open>in_control\<close>, which changes the address list; the
  TCP header compressor; the clock and the trap counter that magic numbers are made from; the stale
  bytes of the stack where an option is read; and the value of a function that ends without
  \<open>return\<close>. The answers of the mbuf allocator (all requests are \<open>M_DONTWAIT\<close>) are a list in the
  state, consumed one per request; requests beyond the list succeed. Pending callouts are counted
  per protocol. \<open>INET\<close> is defined and \<open>PPP_DEBUG\<close> is not, as in \<^verbatim>\<open>conf/GENERIC\<close>.
\<close>

section \<open>Protocol numbers, codes and flags\<close>

definition PPP_ADDRESS :: u8 where "PPP_ADDRESS = 0xff"
definition PPP_CONTROL :: u8 where "PPP_CONTROL = 0x03"
definition PPP_IP :: u16 where "PPP_IP = 0x0021"
definition PPP_VJC :: u16 where "PPP_VJC = 0x002d"
definition PPP_VJNC :: u16 where "PPP_VJNC = 0x002f"
definition PPP_IPCP :: u16 where "PPP_IPCP = 0x8021"
definition PPP_LCP :: u16 where "PPP_LCP = 0xc021"

lemmas proto_labels [code_labels] = PPP_ADDRESS_def PPP_CONTROL_def PPP_IP_def PPP_VJC_def
  PPP_VJNC_def PPP_IPCP_def PPP_LCP_def

definition CP_CONF_REQ :: u8 where "CP_CONF_REQ = 1"
definition CP_CONF_ACK :: u8 where "CP_CONF_ACK = 2"
definition CP_CONF_NAK :: u8 where "CP_CONF_NAK = 3"
definition CP_CONF_REJ :: u8 where "CP_CONF_REJ = 4"
definition CP_TERM_REQ :: u8 where "CP_TERM_REQ = 5"
definition CP_TERM_ACK :: u8 where "CP_TERM_ACK = 6"
definition CP_CODE_REJ :: u8 where "CP_CODE_REJ = 7"
definition LCP_PROTO_REJ :: u8 where "LCP_PROTO_REJ = 8"
definition LCP_ECHO_REQ :: u8 where "LCP_ECHO_REQ = 9"
definition LCP_ECHO_REPL :: u8 where "LCP_ECHO_REPL = 10"
definition LCP_DISC_REQ :: u8 where "LCP_DISC_REQ = 11"

lemmas cp_labels [code_labels] = CP_CONF_REQ_def CP_CONF_ACK_def CP_CONF_NAK_def CP_CONF_REJ_def
  CP_TERM_REQ_def CP_TERM_ACK_def CP_CODE_REJ_def LCP_PROTO_REJ_def LCP_ECHO_REQ_def
  LCP_ECHO_REPL_def LCP_DISC_REQ_def

definition LCP_OPT_MAXSIZE :: nat where "LCP_OPT_MAXSIZE = 34"
definition LCP_DFLT_RMU :: u16 where "LCP_DFLT_RMU = 1500"
definition LCP_MIN_RMU :: u16 where "LCP_MIN_RMU = 128"
definition HDLCMTU :: u16 where "HDLCMTU = 1500"
definition MAX_STATES :: u8 where "MAX_STATES = 16"

definition LCP_MRU :: u8 where "LCP_MRU = 1"
definition LCP_ACCM :: u8 where "LCP_ACCM = 2"
definition LCP_AP :: u8 where "LCP_AP = 3"
definition LCP_QP :: u8 where "LCP_QP = 4"
definition LCP_MAGIC :: u8 where "LCP_MAGIC = 5"
definition LCP_PFC :: u8 where "LCP_PFC = 7"
definition LCP_ACFC :: u8 where "LCP_ACFC = 8"
definition IPCP_ADDRS :: u8 where "IPCP_ADDRS = 1"
definition IPCP_CPROT :: u8 where "IPCP_CPROT = 2"
definition IPCP_ADDR :: u8 where "IPCP_ADDR = 3"

lemmas opt_labels [code_labels] = LCP_MRU_def LCP_ACCM_def LCP_AP_def LCP_QP_def LCP_MAGIC_def
  LCP_PFC_def LCP_ACFC_def IPCP_ADDRS_def IPCP_CPROT_def IPCP_ADDR_def LCP_OPT_MAXSIZE_def
  LCP_DFLT_RMU_def LCP_MIN_RMU_def HDLCMTU_def MAX_STATES_def

definition PPP_PFC :: u8 where "PPP_PFC = 0x1"
definition PPP_ACFC :: u8 where "PPP_ACFC = 0x2"
definition PPP_TCPC :: u8 where "PPP_TCPC = 0x4"
definition PPP_FTEL :: u8 where "PPP_FTEL = 0x8"

definition OPT_OK :: int where "OPT_OK = 0"
definition OPT_REJ :: int where "OPT_REJ = 1"
definition OPT_NAK :: int where "OPT_NAK = 2"
definition OPT_FATAL :: int where "OPT_FATAL = 3"

lemmas flag_labels [code_labels] = PPP_PFC_def PPP_ACFC_def PPP_TCPC_def PPP_FTEL_def OPT_OK_def
  OPT_REJ_def OPT_NAK_def OPT_FATAL_def

section \<open>The state of a link\<close>

datatype cpstate = CP_INITIAL | CP_STARTING | CP_CLOSED | CP_STOPPED | CP_CLOSING | CP_STOPPING
  | CP_REQSENT | CP_ACKRCVD | CP_ACKSENT | CP_OPENED

datatype fsmid = FSM_LCP | FSM_IPCP

record ppp_fsm =
  fsm_state :: cpstate
  fsm_id :: u8
  fsm_rej :: u16
  fsm_rc :: u16

record ppp_ioctl =
  ppp_cmap :: u32
  ppp_mru :: u16
  ppp_idletime :: u16
  ppp_flags :: u8
  ppp_maxconf :: u8
  ppp_maxterm :: u8
  ppp_timeout :: u8

text \<open>
  A packet in mbufs: the data of each mbuf of the chain, the length of the packet header, and the
  room in front of the data of the first mbuf (none in a cluster). A packet on a send queue is the
  bytes it holds.
\<close>

record mbuf =
  m_ext :: bool
  m_lead :: nat
  m_pktlen :: int
  m_segs :: "u8 list list"

abbreviation m_bytes :: "mbuf \<Rightarrow> u8 list" where
  "m_bytes m \<equiv> concat (m_segs m)"

text \<open>
  An interface address: whether its family is \<open>AF_INET\<close>, its address and that of the other end.
\<close>

record ifaddr =
  ifa_inet :: bool
  ifa_addr :: u32
  ifa_dstaddr :: "u32 option"

text \<open>
  The interface and its protocol data. \<open>p2p_mdmctl\<close> is present when the driver has a modem control
  routine, and says whether raising and dropping the line call \<open>ppp_modem\<close> back at once (as
  \<open>rnmdmctl\<close> does) or the carrier change is reported later; \<open>mdm_calls\<close> records its calls.
  \<open>p2p_ppp\<close> says that the input routine is still \<open>ppp_input\<close>.
\<close>

record p2pcom =
  if_name :: string
  if_mtu :: u16
  if_up :: bool
  if_running :: bool
  if_oactive :: bool
  if_lastchange :: "u32 \<times> u32"
  if_ibytes :: u32
  if_obytes :: u32
  if_addrlist :: "ifaddr list"
  if_snd :: "u8 list list"
  ifq_maxlen :: nat
  ifq_drops :: u32
  p2p_isnd :: "u8 list list"
  p2p_ppp :: bool
  p2p_mdmctl :: "(bool \<times> bool) option"
  mdm_calls :: "bool list"
  ppp_dflt :: ppp_ioctl
  ppp_params :: ppp_ioctl
  ppp_txcmap :: u32
  ppp_ticks :: u16
  ppp_idlecnt :: u16
  ppp_lcp :: ppp_fsm
  ppp_magic :: u32
  ppp_badmagic :: u8
  ppp_ncps :: u8
  ppp_txflags :: u8
  ppp_wdrop :: bool
  ppp_ipcp :: ppp_fsm
  ppp_ctcp :: "u8 list"
  ppp_ipdefq :: "mbuf list"
  ipintrq :: "u8 list list"
  lcp_callouts :: nat
  ipcp_callouts :: nat
  mbufs :: "bool list"

datatype sltype = TYPE_IP | TYPE_UNCOMPRESSED_TCP | TYPE_COMPRESSED_TCP

record env =
  e_start :: "u8 list list \<Rightarrow> u8 list list \<Rightarrow> (u8 list list \<times> u8 list list) \<times> bool"
  e_in_control :: "bool \<Rightarrow> u32 \<Rightarrow> ifaddr list \<Rightarrow> ifaddr list"
  e_sl_init :: "u8 list"
  e_sl_compress :: "mbuf \<Rightarrow> u8 list \<Rightarrow> sltype \<times> mbuf \<times> u8 list"
  e_sl_uncompress :: "mbuf \<Rightarrow> sltype \<Rightarrow> u8 list \<Rightarrow> mbuf option \<times> u8 list"
  e_ipq_maxlen :: nat
  e_time :: "u32 \<times> u32"
  e_trap :: u32
  e_hz :: nat
  e_stack :: "u8 list"
  e_noret :: int
  e_tsleep :: "errno option"

fun fs :: "fsmid \<Rightarrow> p2pcom \<Rightarrow> ppp_fsm" where
  "fs FSM_LCP s = ppp_lcp s"
| "fs FSM_IPCP s = ppp_ipcp s"

fun set_fs :: "fsmid \<Rightarrow> (ppp_fsm \<Rightarrow> ppp_fsm) \<Rightarrow> p2pcom \<Rightarrow> p2pcom" where
  "set_fs FSM_LCP g s = s\<lparr>ppp_lcp := g (ppp_lcp s)\<rparr>"
| "set_fs FSM_IPCP g s = s\<lparr>ppp_ipcp := g (ppp_ipcp s)\<rparr>"

abbreviation cpst :: "fsmid \<Rightarrow> p2pcom \<Rightarrow> cpstate" where
  "cpst f s \<equiv> fsm_state (fs f s)"

definition newstate :: "fsmid \<Rightarrow> cpstate \<Rightarrow> p2pcom \<Rightarrow> p2pcom" where
  "newstate f st s = set_fs f (\<lambda>x. x\<lparr>fsm_state := st\<rparr>) s"

definition set_rc :: "fsmid \<Rightarrow> u16 \<Rightarrow> p2pcom \<Rightarrow> p2pcom" where
  "set_rc f n s = set_fs f (\<lambda>x. x\<lparr>fsm_rc := n\<rparr>) s"

definition Ppp_maxconf :: "p2pcom \<Rightarrow> u16" where
  "Ppp_maxconf s = ucast (ppp_maxconf (ppp_dflt s))"

definition Ppp_maxterm :: "p2pcom \<Rightarrow> u16" where
  "Ppp_maxterm s = ucast (ppp_maxterm (ppp_dflt s))"

definition has_flag :: "u8 \<Rightarrow> u8 \<Rightarrow> bool" where
  "has_flag w b = (w AND b \<noteq> 0)"

definition set_params :: "(ppp_ioctl \<Rightarrow> ppp_ioctl) \<Rightarrow> p2pcom \<Rightarrow> p2pcom" where
  "set_params g s = s\<lparr>ppp_params := g (ppp_params s)\<rparr>"

section \<open>Callouts, mbufs and send queues\<close>

fun timeout :: "fsmid \<Rightarrow> p2pcom \<Rightarrow> p2pcom" where
  "timeout FSM_LCP s = s\<lparr>lcp_callouts := lcp_callouts s + 1\<rparr>"
| "timeout FSM_IPCP s = s\<lparr>ipcp_callouts := ipcp_callouts s + 1\<rparr>"

text \<open>\<open>untimeout\<close> removes one pending call of the function, if there is one.\<close>

fun untimeout :: "fsmid \<Rightarrow> p2pcom \<Rightarrow> p2pcom" where
  "untimeout FSM_LCP s = s\<lparr>lcp_callouts := lcp_callouts s - 1\<rparr>"
| "untimeout FSM_IPCP s = s\<lparr>ipcp_callouts := ipcp_callouts s - 1\<rparr>"

fun callouts :: "fsmid \<Rightarrow> p2pcom \<Rightarrow> nat" where
  "callouts FSM_LCP s = lcp_callouts s"
| "callouts FSM_IPCP s = ipcp_callouts s"

definition mget :: "p2pcom \<Rightarrow> bool \<times> p2pcom" where
  "mget s = (case mbufs s of [] \<Rightarrow> (True, s) | b # bs \<Rightarrow> (b, s\<lparr>mbufs := bs\<rparr>))"

definition be16 :: "u16 \<Rightarrow> u8 list" where
  "be16 w = [ucast (drop_bit 8 w), ucast w]"

definition be32 :: "u32 \<Rightarrow> u8 list" where
  "be32 w = [ucast (drop_bit 24 w), ucast (drop_bit 16 w), ucast (drop_bit 8 w), ucast w]"

definition rd16 :: "u8 list \<Rightarrow> nat \<Rightarrow> u16" where
  "rd16 b i = push_bit 8 (ucast (b ! i)) OR ucast (b ! (i + 1))"

definition rd32 :: "u8 list \<Rightarrow> nat \<Rightarrow> u32" where
  "rd32 b i = push_bit 24 (ucast (b ! i)) OR push_bit 16 (ucast (b ! (i + 1)))
     OR push_bit 8 (ucast (b ! (i + 2))) OR ucast (b ! (i + 3))"

text \<open>Storing bytes into a buffer at an index.\<close>

fun poke :: "u8 list \<Rightarrow> nat \<Rightarrow> u8 list \<Rightarrow> u8 list" where
  "poke b i [] = b"
| "poke b i (x # xs) = poke (b[i := x]) (Suc i) xs"

definition IF_QFULL2 :: "p2pcom \<Rightarrow> bool" where
  "IF_QFULL2 s = (ifq_maxlen s \<le> length (if_snd s) + length (p2p_isnd s))"

definition if_start :: "env \<Rightarrow> p2pcom \<Rightarrow> p2pcom" where
  "if_start E s = (if if_oactive s then s else
     (case e_start E (if_snd s) (p2p_isnd s) of ((q, i), a) \<Rightarrow>
        s\<lparr>if_snd := q, p2p_isnd := i, if_oactive := a\<rparr>))"

text \<open>
  Queueing a packet on the high-priority queue, as every sender of control packets but
  \<open>ppp_cp_close\<close> does; \<open>n\<close> is the length added to the statistics.
\<close>

definition if_drop :: "p2pcom \<Rightarrow> p2pcom" where
  "if_drop s = s\<lparr>ifq_drops := ifq_drops s + 1\<rparr>"

definition isnd_put :: "env \<Rightarrow> int \<Rightarrow> mbuf \<Rightarrow> p2pcom \<Rightarrow> p2pcom" where
  "isnd_put E n m s =
     if_start E (s\<lparr>if_obytes := if_obytes s + of_int n, p2p_isnd := p2p_isnd s @ [m_bytes m]\<rparr>)"

definition isnd_send :: "env \<Rightarrow> int \<Rightarrow> mbuf \<Rightarrow> p2pcom \<Rightarrow> p2pcom" where
  "isnd_send E n m s = (if IF_QFULL2 s then if_drop s else isnd_put E n m s)"

definition sendout :: "env \<Rightarrow> mbuf option \<Rightarrow> p2pcom \<Rightarrow> p2pcom" where
  "sendout E mo s = (case mo of None \<Rightarrow> s | Some m \<Rightarrow> isnd_send E (m_pktlen m) m s)"

section \<open>Composing packets\<close>

text \<open>
  \<open>M_PREPEND\<close>: the data goes in front of the first mbuf when there is room, into a new one otherwise.
\<close>

definition m_room :: "mbuf \<Rightarrow> nat" where
  "m_room m = (if m_ext m then 0 else m_lead m)"

definition M_PREPEND :: "u8 list \<Rightarrow> mbuf \<Rightarrow> p2pcom \<Rightarrow> mbuf option \<times> p2pcom" where
  "M_PREPEND h m s = (if length h \<le> m_room m
     then (Some (m\<lparr>m_lead := m_lead m - length h, m_pktlen := m_pktlen m + int (length h),
                  m_segs := (h @ hd (m_segs m)) # tl (m_segs m)\<rparr>), s)
     else (case mget s of (ok, s') \<Rightarrow>
       (if ok then Some \<lparr>m_ext = False, m_lead = 0, m_pktlen = m_pktlen m + int (length h),
                         m_segs = h # m_segs m\<rparr> else None, s')))"

definition cp_header :: "u16 \<Rightarrow> u8 \<Rightarrow> u8 \<Rightarrow> int \<Rightarrow> u8 list" where
  "cp_header type code cid len =
     [PPP_ADDRESS, PPP_CONTROL] @ be16 type @ [code, cid] @ be16 (of_int (len - 4))"

text \<open>
  \<open>x\<close> holds the extra bytes that the caller stores after the header. Without a packet the result of
  \<open>MGETHDR\<close> is used before it is tested: no mbuf is a null pointer dereference.
\<close>

definition ppp_cp_prepend ::
  "mbuf option \<Rightarrow> u16 \<Rightarrow> u8 \<Rightarrow> u8 \<Rightarrow> u8 list \<Rightarrow> p2pcom \<Rightarrow> (mbuf option \<times> p2pcom) option" where
  "ppp_cp_prepend mo type code cid x s = (case mo of
     None \<Rightarrow> (case mget s of (ok, s') \<Rightarrow> if ok then
        Some (Some \<lparr>m_ext = False, m_lead = 0, m_pktlen = int (length x) + 8,
                    m_segs = [cp_header type code cid (int (length x) + 8) @ x]\<rparr>, s') else None)
   | Some m \<Rightarrow> Some (M_PREPEND (cp_header type code cid (m_pktlen m + int (length x) + 8) @ x) m s))"

text \<open>
  An option as the bytes from \<open>po_type\<close> on: type, length, data.
\<close>

type_synonym ppp_option = "u8 list"

abbreviation po_type :: "ppp_option \<Rightarrow> u8" where "po_type o1 \<equiv> o1 ! 0"
abbreviation po_len :: "ppp_option \<Rightarrow> u8" where "po_len o1 \<equiv> o1 ! 1"
abbreviation po_s :: "ppp_option \<Rightarrow> u16" where "po_s o1 \<equiv> rd16 o1 2"
abbreviation po_l :: "ppp_option \<Rightarrow> u32" where "po_l o1 \<equiv> rd32 o1 2"

definition MLEN :: nat where "MLEN = 108"

text \<open>
  Copying the option appends to the last mbuf, or to a new one when it would reach the end of the
  buffer; the header room of a packet header (8 bytes) and the space left for the PPP headers come
  first in the first mbuf. \<open>MGET\<close> does not set the length of the new mbuf, and the code copies to
  \<open>m_data + m_len\<close> and adds to \<open>m_len\<close> all the same: the use of the uninitialised length is \<open>None\<close>. So
  is a length beyond the option buffer, which copies from outside it.
\<close>

definition addopt_seg :: "mbuf \<Rightarrow> ppp_option \<Rightarrow> p2pcom \<Rightarrow> (mbuf option \<times> p2pcom) option" where
  "addopt_seg m o1 s = (let n = unat (po_len o1); seg = last (m_segs m);
       base = (if length (m_segs m) = 1 then 8 + m_lead m else 0) in
     if MLEN \<le> length seg + n + base
     then (case mget s of (ok, s') \<Rightarrow> if ok then None else Some (None, s'))
     else Some (Some (m\<lparr>m_pktlen := m_pktlen m + int n,
                        m_segs := butlast (m_segs m) @ [seg @ take n o1]\<rparr>), s))"

definition ppp_addopt :: "mbuf option \<Rightarrow> ppp_option \<Rightarrow> p2pcom \<Rightarrow> (mbuf option \<times> p2pcom) option" where
  "ppp_addopt mo o1 s = (if LCP_OPT_MAXSIZE < unat (po_len o1) then None else
     (case mo of
        Some m \<Rightarrow> addopt_seg m o1 s
      | None \<Rightarrow> (case mget s of (ok, s') \<Rightarrow> if ok
          then addopt_seg \<lparr>m_ext = False, m_lead = 8, m_pktlen = 0, m_segs = [[]]\<rparr> o1 s'
          else Some (None, s'))))"


section \<open>Configure-Requests\<close>

text \<open>An option type in the mask of rejected options: \<open>1 << type\<close>, kept in 16 bits.\<close>

definition rejected :: "u8 \<Rightarrow> ppp_fsm \<Rightarrow> bool" where
  "rejected t x = (fsm_rej x AND push_bit (unat t) 1 \<noteq> 0)"

definition opt_if :: "bool \<Rightarrow> mbuf option \<Rightarrow> ppp_option \<Rightarrow> p2pcom \<Rightarrow> (mbuf option \<times> p2pcom) option" where
  "opt_if c mo o1 s = (if c then ppp_addopt mo o1 s else Some (mo, s))"

fun next_id :: "fsmid \<Rightarrow> p2pcom \<Rightarrow> p2pcom" where
  "next_id f s = set_fs f (\<lambda>x. x\<lparr>fsm_id := fsm_id x + 1\<rparr>) s"

definition ppp_lcp_creq :: "p2pcom \<Rightarrow> (mbuf option \<times> p2pcom) option" where
  "ppp_lcp_creq s = (let rej = (\<lambda>t. rejected t (ppp_lcp s)); p = ppp_params s in do {
     (m, s) \<leftarrow> opt_if (\<not> rej LCP_MRU) None ([LCP_MRU, 4] @ be16 (ppp_mru p)) s;
     (m, s) \<leftarrow> opt_if (\<not> rej LCP_ACCM) m ([LCP_ACCM, 6] @ be32 (ppp_cmap p)) s;
     (m, s) \<leftarrow> opt_if (\<not> rej LCP_MAGIC) m ([LCP_MAGIC, 6] @ be32 (ppp_magic s)) s;
     (m, s) \<leftarrow> opt_if (\<not> rej LCP_PFC \<and> has_flag (ppp_flags p) PPP_PFC) m [LCP_PFC, 2] s;
     (m, s) \<leftarrow> opt_if (\<not> rej LCP_ACFC \<and> has_flag (ppp_flags p) PPP_ACFC) m [LCP_ACFC, 2] s;
     ppp_cp_prepend m PPP_LCP CP_CONF_REQ (fsm_id (ppp_lcp s) + 1) [] (next_id FSM_LCP s)
   })"

definition ppp_ipcp_getaddr :: "bool \<Rightarrow> p2pcom \<Rightarrow> u32" where
  "ppp_ipcp_getaddr dst s = (case dropWhile (\<lambda>a. \<not> ifa_inet a) (if_addrlist s) of
     [] \<Rightarrow> 0
   | a # _ \<Rightarrow> if dst then (case ifa_dstaddr a of None \<Rightarrow> 0 | Some d \<Rightarrow> d) else ifa_addr a)"

definition ppp_ipcp_setaddr :: "env \<Rightarrow> u32 \<Rightarrow> bool \<Rightarrow> p2pcom \<Rightarrow> p2pcom" where
  "ppp_ipcp_setaddr E a dst s = s\<lparr>if_addrlist := e_in_control E dst a (if_addrlist s)\<rparr>"

definition ppp_ipcp_creq :: "p2pcom \<Rightarrow> (mbuf option \<times> p2pcom) option" where
  "ppp_ipcp_creq s = (let rej = (\<lambda>t. rejected t (ppp_ipcp s)) in do {
     (m, s) \<leftarrow> opt_if (\<not> rej IPCP_CPROT \<and> has_flag (ppp_flags (ppp_params s)) PPP_TCPC) None
                 ([IPCP_CPROT, 6] @ be16 PPP_VJC @ [MAX_STATES - 1, 0]) s;
     (m, s) \<leftarrow> opt_if (\<not> rej IPCP_ADDR) m ([IPCP_ADDR, 6] @ be32 (ppp_ipcp_getaddr False s)) s;
     ppp_cp_prepend m PPP_IPCP CP_CONF_REQ (fsm_id (ppp_ipcp s) + 1) [] (next_id FSM_IPCP s)
   })"

section \<open>The events Up, Down and Close\<close>

text \<open>
  The columns of \<open>ppp_fsm_tab\<close>: protocol number, Configure-Request, and (below) the actions on the
  upper and lower levels.
\<close>

fun ft_type :: "fsmid \<Rightarrow> u16" where
  "ft_type FSM_LCP = PPP_LCP"
| "ft_type FSM_IPCP = PPP_IPCP"

fun ft_creq :: "fsmid \<Rightarrow> p2pcom \<Rightarrow> (mbuf option \<times> p2pcom) option" where
  "ft_creq FSM_LCP = ppp_lcp_creq"
| "ft_creq FSM_IPCP = ppp_ipcp_creq"

definition ppp_cp_up :: "env \<Rightarrow> fsmid \<Rightarrow> p2pcom \<Rightarrow> p2pcom option" where
  "ppp_cp_up E f s = do {
     let s = set_fs f (\<lambda>x. x\<lparr>fsm_rc := Ppp_maxconf s, fsm_rej := 0\<rparr>) s;
     (m, s) \<leftarrow> ft_creq f (newstate f CP_REQSENT s);
     Some (sendout E m (timeout f s))
   }"

text \<open>
  The Down event. \<open>tld\<close> is the action of the table for the levels above; only LCP has one, and it
  sends Down to IPCP.
\<close>

definition cp_down :: "(p2pcom \<Rightarrow> p2pcom) \<Rightarrow> fsmid \<Rightarrow> p2pcom \<Rightarrow> p2pcom" where
  "cp_down tld f s = untimeout f (case cpst f s of
     CP_CLOSING \<Rightarrow> newstate f CP_INITIAL s
   | CP_CLOSED \<Rightarrow> newstate f CP_INITIAL s
   | CP_OPENED \<Rightarrow> newstate f CP_STARTING (tld s)
   | _ \<Rightarrow> newstate f CP_STARTING s)"

definition ppp_lcp_tld :: "p2pcom \<Rightarrow> p2pcom" where
  "ppp_lcp_tld s = cp_down (\<lambda>s. s) FSM_IPCP s"

fun ft_tld :: "fsmid \<Rightarrow> p2pcom \<Rightarrow> p2pcom" where
  "ft_tld FSM_LCP s = ppp_lcp_tld s"
| "ft_tld FSM_IPCP s = s"

definition ppp_cp_down :: "fsmid \<Rightarrow> p2pcom \<Rightarrow> p2pcom" where
  "ppp_cp_down f s = cp_down (ft_tld f) f s"

text \<open>
  The Close event. The Terminate-Request goes to the queue of normal priority.
\<close>

definition snd_send :: "env \<Rightarrow> mbuf \<Rightarrow> p2pcom \<Rightarrow> p2pcom" where
  "snd_send E m s = (if IF_QFULL2 s then if_drop s else
     if_start E (s\<lparr>if_obytes := if_obytes s + of_int (m_pktlen m), if_snd := if_snd s @ [m_bytes m]\<rparr>))"

definition cp_terminate :: "env \<Rightarrow> fsmid \<Rightarrow> p2pcom \<Rightarrow> p2pcom option" where
  "cp_terminate E f s = (let s = newstate f CP_CLOSING (set_rc f (Ppp_maxterm s) s);
       s = (if f = FSM_LCP then s\<lparr>ppp_txcmap := 0xffffffff\<rparr> else s) in
     case ppp_cp_prepend None (ft_type f) CP_TERM_REQ 0 [] s of
       None \<Rightarrow> None
     | Some (mo, s) \<Rightarrow> (let s = timeout f (untimeout f s) in
         case mo of Some m \<Rightarrow> Some (snd_send E m s) | None \<Rightarrow> None))"

definition ppp_cp_close :: "env \<Rightarrow> fsmid \<Rightarrow> p2pcom \<Rightarrow> p2pcom option" where
  "ppp_cp_close E f s = (case cpst f s of
     CP_STARTING \<Rightarrow> Some (newstate f CP_INITIAL s)
   | CP_STOPPED \<Rightarrow> Some (newstate f CP_CLOSED s)
   | CP_OPENED \<Rightarrow> cp_terminate E f (ft_tld f s)
   | CP_REQSENT \<Rightarrow> cp_terminate E f s
   | CP_ACKRCVD \<Rightarrow> cp_terminate E f s
   | CP_ACKSENT \<Rightarrow> cp_terminate E f s
   | CP_STOPPING \<Rightarrow> Some (newstate f CP_CLOSING s)
   | _ \<Rightarrow> Some s)"

section \<open>Output of IP packets\<close>

definition INTERACTIVE :: "int \<Rightarrow> bool" where
  "INTERACTIVE p = ([0, 513, 0, 0, 0, 21, 0, 23] ! nat (p mod 8) = p)"

definition IPTOS_LOWDELAY :: u8 where "IPTOS_LOWDELAY = 0x10"
definition IPPROTO_TCP :: u8 where "IPPROTO_TCP = 6"

text \<open>
  Whether a packet goes to the priority queue: its type of service asks for it, or it is an
  unfragmented TCP segment with an interactive port and the link has \<open>PPP_FTEL\<close>. The header is read
  from the first mbuf.
\<close>

definition ip_interactive :: "p2pcom \<Rightarrow> u8 list \<Rightarrow> bool option" where
  "ip_interactive s ip = (if length ip < 20 then None
     else if ip ! 1 = IPTOS_LOWDELAY then Some True
     else if ip ! 9 = IPPROTO_TCP \<and> rd16 ip 6 = 0 \<and> has_flag (ppp_flags (ppp_dflt s)) PPP_FTEL
     then (let k = 4 * unat (ip ! 0 AND 15) in
       if length ip < k + 4 then None
       else Some (let hl = sint (rd32 ip k) in INTERACTIVE (hl mod 65536) \<or> INTERACTIVE (hl div 65536)))
     else Some False)"

definition ppp_defer :: "mbuf \<Rightarrow> p2pcom \<Rightarrow> p2pcom" where
  "ppp_defer m s = (let q = ppp_ipdefq s in
     (if ppp_wdrop s \<or> q \<noteq> [] then s\<lparr>ppp_ipdefq := (if 10 < length q then tl q else q) @ [m]\<rparr> else s)
       \<lparr>ppp_wdrop := False\<rparr>)"

definition ppp_phdr :: "u8 \<Rightarrow> u16 \<Rightarrow> u8 list" where
  "ppp_phdr txflags type =
     (if has_flag txflags PPP_ACFC then [] else [PPP_ADDRESS, PPP_CONTROL])
     @ (if has_flag txflags PPP_PFC \<and> type AND 0xff00 = 0 then tl (be16 type) else be16 type)"

definition ppp_compress :: "env \<Rightarrow> mbuf \<Rightarrow> p2pcom \<Rightarrow> u16 \<times> mbuf \<times> p2pcom" where
  "ppp_compress E m s = (if hd (m_segs m) ! 9 = IPPROTO_TCP \<and> has_flag (ppp_txflags s) PPP_TCPC
     then (case e_sl_compress E m (ppp_ctcp s) of (t, m', c) \<Rightarrow>
       (case t of TYPE_UNCOMPRESSED_TCP \<Rightarrow> PPP_VJNC | TYPE_COMPRESSED_TCP \<Rightarrow> PPP_VJC | TYPE_IP \<Rightarrow> PPP_IP,
        m', s\<lparr>ppp_ctcp := c\<rparr>))
     else (PPP_IP, m, s))"

definition ppp_transmit :: "env \<Rightarrow> bool \<Rightarrow> int \<Rightarrow> u16 \<Rightarrow> mbuf \<Rightarrow> p2pcom \<Rightarrow> errno option \<times> p2pcom" where
  "ppp_transmit E fast len type m s = (let h = ppp_phdr (ppp_txflags s) type in
     case M_PREPEND h m s of
       (None, s) \<Rightarrow> (Some ENOBUFS, s)
     | (Some m, s) \<Rightarrow> if IF_QFULL2 s then (Some ENOBUFS, if_drop s)
         else (None, (if_start E (if fast then s\<lparr>p2p_isnd := p2p_isnd s @ [m_bytes m]\<rparr>
                                  else s\<lparr>if_snd := if_snd s @ [m_bytes m]\<rparr>))
                 \<lparr>if_obytes := if_obytes s + of_int (int (length h) + len)\<rparr>))"

definition ppp_output :: "env \<Rightarrow> bool \<Rightarrow> mbuf \<Rightarrow> p2pcom \<Rightarrow> (errno option \<times> p2pcom) option" where
  "ppp_output E inet m s = (let len = m_pktlen m in
     if \<not> if_up s then Some (Some ENETDOWN, s)
     else let s = s\<lparr>if_lastchange := e_time E\<rparr> in
     if \<not> inet then Some (Some EAFNOSUPPORT, s)
     else if cpst FSM_IPCP s \<noteq> CP_OPENED then
       (if cpst FSM_IPCP s = CP_CLOSED \<or> cpst FSM_IPCP s = CP_CLOSING
        then Some (Some EAFNOSUPPORT, s) else Some (None, ppp_defer m s))
     else (case ip_interactive s (hd (m_segs m)) of
         None \<Rightarrow> None
       | Some fast \<Rightarrow> (case ppp_compress E m s of (type, m, s) \<Rightarrow>
           Some (ppp_transmit E fast len type m (s\<lparr>ppp_idlecnt := 1\<rparr>)))))"

section \<open>Upper levels up\<close>

text \<open>
  The loop of \<open>ppp_ipcp_tlu\<close>. With IPCP opened \<open>ppp_output\<close> adds nothing to the deferred queue, so
  one more turn than its length is enough.
\<close>

fun defq_drain :: "env \<Rightarrow> nat \<Rightarrow> p2pcom \<Rightarrow> p2pcom option" where
  "defq_drain E 0 s = None"
| "defq_drain E (Suc n) s = (case ppp_ipdefq s of
     [] \<Rightarrow> Some s
   | m # q \<Rightarrow> (case ppp_output E True m (s\<lparr>ppp_ipdefq := q\<rparr>) of
        None \<Rightarrow> None
      | Some (_, s') \<Rightarrow> defq_drain E n s'))"

definition ppp_ipcp_tlu :: "env \<Rightarrow> p2pcom \<Rightarrow> p2pcom option" where
  "ppp_ipcp_tlu E s = defq_drain E (Suc (length (ppp_ipdefq s))) s"

definition ppp_lcp_tlu :: "env \<Rightarrow> p2pcom \<Rightarrow> p2pcom option" where
  "ppp_lcp_tlu E s = do {
     let s = s\<lparr>ppp_txcmap := ppp_cmap (ppp_params s), ppp_ctcp := e_sl_init E, ppp_ncps := ppp_ncps s + 1\<rparr>;
     s \<leftarrow> ppp_cp_up E FSM_IPCP s;
     Some (s\<lparr>if_running := True\<rparr>)
   }"

fun ft_tlu :: "env \<Rightarrow> fsmid \<Rightarrow> p2pcom \<Rightarrow> p2pcom option" where
  "ft_tlu E FSM_LCP s = ppp_lcp_tlu E s"
| "ft_tlu E FSM_IPCP s = ppp_ipcp_tlu E s"

section \<open>Parameters and modem events\<close>

definition ppp_defaults :: "p2pcom \<Rightarrow> p2pcom" where
  "ppp_defaults s = (if ppp_mru (ppp_dflt s) \<noteq> 0 then s else
     let d = \<lparr>ppp_cmap = 0, ppp_mru = LCP_DFLT_RMU, ppp_idletime = 0, ppp_flags = PPP_FTEL,
              ppp_maxconf = 0, ppp_maxterm = 3, ppp_timeout = 30\<rparr>;
         d = (if if_name s = ''ppp''
              then d\<lparr>ppp_maxconf := 10, ppp_flags := ppp_flags d OR (PPP_PFC OR PPP_ACFC OR PPP_TCPC)\<rparr>
              else d)
     in s\<lparr>ppp_dflt := d, ppp_params := d\<rparr>)"

definition ppp_lcp_magic :: "env \<Rightarrow> u32" where
  "ppp_lcp_magic E = (fst (e_time E) XOR snd (e_time E) XOR e_trap E) * 1192721"

definition start_ticks :: "env \<Rightarrow> p2pcom \<Rightarrow> u16" where
  "start_ticks E s = (let t = of_nat (unat (ppp_timeout (ppp_dflt s)) * e_hz E div 10) in
     if t < 2 then 2 else t)"

definition ppp_modem :: "env \<Rightarrow> bool \<Rightarrow> p2pcom \<Rightarrow> p2pcom option" where
  "ppp_modem E flag s = (if flag then
       if cpst FSM_LCP s = CP_INITIAL then Some (newstate FSM_LCP CP_CLOSED s)
       else if cpst FSM_LCP s \<noteq> CP_STARTING then Some s
       else let s = ppp_defaults s;
           s = s\<lparr>ppp_txcmap := 0xfffffff, ppp_params := ppp_dflt s, ppp_txflags := 0,
                 ppp_magic := ppp_lcp_magic E, ppp_badmagic := 0, ppp_ncps := 0, ppp_idlecnt := 0,
                 ppp_ticks := start_ticks E s\<rparr>
         in ppp_cp_up E FSM_LCP s
     else let s = ppp_cp_down FSM_LCP (s\<lparr>if_running := False\<rparr>);
         s = s\<lparr>p2p_isnd := [], if_snd := [], ppp_ipdefq := []\<rparr>
       in Some (if if_up s then newstate FSM_LCP CP_STARTING s else s))"

text \<open>
  The modem control routine of the driver: it records the call, and reports the carrier at once when
  the driver does.
\<close>

definition mdmctl :: "env \<Rightarrow> bool \<times> bool \<Rightarrow> bool \<Rightarrow> p2pcom \<Rightarrow> p2pcom option" where
  "mdmctl E d flag s = (let s = s\<lparr>mdm_calls := mdm_calls s @ [flag]\<rparr> in
     if (if flag then fst d else snd d) then ppp_modem E flag s else Some s)"

section \<open>This level finished\<close>

definition ppp_lcp_tlf :: "env \<Rightarrow> p2pcom \<Rightarrow> p2pcom option" where
  "ppp_lcp_tlf E s = (let s = s\<lparr>if_running := False\<rparr> in
     case p2p_mdmctl s of None \<Rightarrow> Some s | Some d \<Rightarrow> mdmctl E d False s)"

definition ppp_ipcp_tlf :: "env \<Rightarrow> p2pcom \<Rightarrow> p2pcom option" where
  "ppp_ipcp_tlf E s = (let s = s\<lparr>ppp_ncps := ppp_ncps s - 1\<rparr> in
     if ppp_ncps s = 0 then ppp_cp_close E FSM_LCP (s\<lparr>if_running := False\<rparr>) else Some s)"

fun ft_tlf :: "env \<Rightarrow> fsmid \<Rightarrow> p2pcom \<Rightarrow> p2pcom option" where
  "ft_tlf E FSM_LCP s = ppp_lcp_tlf E s"
| "ft_tlf E FSM_IPCP s = ppp_ipcp_tlf E s"


section \<open>Options\<close>

definition ppp_lcp_optrej :: "ppp_option \<Rightarrow> p2pcom \<Rightarrow> p2pcom" where
  "ppp_lcp_optrej o1 s =
     (if po_type o1 = LCP_MRU then set_params (\<lambda>p. p\<lparr>ppp_mru := HDLCMTU\<rparr>) s
      else if po_type o1 = LCP_PFC then set_params (\<lambda>p. p\<lparr>ppp_flags := ppp_flags p AND NOT PPP_PFC\<rparr>) s
      else if po_type o1 = LCP_ACFC then set_params (\<lambda>p. p\<lparr>ppp_flags := ppp_flags p AND NOT PPP_ACFC\<rparr>) s
      else s)"

definition ppp_lcp_optnak :: "env \<Rightarrow> ppp_option \<Rightarrow> p2pcom \<Rightarrow> p2pcom" where
  "ppp_lcp_optnak E o1 s =
     (if po_type o1 = LCP_MRU then set_params (\<lambda>p. p\<lparr>ppp_mru := po_s o1\<rparr>) s
      else if po_type o1 = LCP_ACCM then set_params (\<lambda>p. p\<lparr>ppp_cmap := ppp_cmap p OR po_l o1\<rparr>) s
      else if po_type o1 = LCP_MAGIC then
        (if ppp_magic s = po_l o1 then s\<lparr>ppp_magic := ppp_lcp_magic E\<rparr> else s)
      else s)"

text \<open>
  The answer to an option of the peer, the option as it is sent back, and the new state. An accepted
  \<open>LCP_PFC\<close> leaves the switch and ends the function without a value.
\<close>

definition ppp_lcp_opt :: "env \<Rightarrow> ppp_option \<Rightarrow> p2pcom \<Rightarrow> int \<times> ppp_option \<times> p2pcom" where
  "ppp_lcp_opt E o1 s =
     (if po_type o1 = LCP_MRU then
        (if po_len o1 \<noteq> 4 then (OPT_REJ, o1, s) else let s = s\<lparr>if_mtu := po_s o1\<rparr> in
         if sint (if_mtu s) < sint LCP_MIN_RMU then (OPT_NAK, poke o1 2 (be16 LCP_MIN_RMU), s)
         else (OPT_OK, o1, s))
      else if po_type o1 = LCP_ACCM then
        (if po_len o1 \<noteq> 6 then (OPT_REJ, o1, s) else
         let mask = po_l o1; cmap = ppp_cmap (ppp_params s) in
         if NOT mask AND cmap \<noteq> 0 then (OPT_NAK, poke o1 2 (be32 (mask OR cmap)), s)
         else (OPT_OK, o1, set_params (\<lambda>p. p\<lparr>ppp_cmap := mask\<rparr>) s))
      else if po_type o1 = LCP_AP then (OPT_REJ, o1, s)
      else if po_type o1 = LCP_QP then (OPT_REJ, o1, s)
      else if po_type o1 = LCP_MAGIC then
        (if po_len o1 \<noteq> 6 then (OPT_REJ, o1, s) else let mask = po_l o1 in
         if ppp_magic s = mask \<or> mask = 0 then
           (let n = ppp_badmagic s; s = s\<lparr>ppp_badmagic := n + 1\<rparr> in
            if 3 \<le> n then (OPT_FATAL, o1, s)
            else (OPT_NAK, poke o1 2 (be32 (ppp_lcp_magic E)), s\<lparr>ppp_magic := ppp_lcp_magic E\<rparr>))
         else (OPT_OK, o1, s))
      else if po_type o1 = LCP_PFC then
        (if po_len o1 \<noteq> 2 \<or> \<not> has_flag (ppp_flags (ppp_params s)) PPP_PFC then (OPT_REJ, o1, s)
         else (e_noret E, o1, s\<lparr>ppp_txflags := ppp_txflags s OR PPP_PFC\<rparr>))
      else if po_type o1 = LCP_ACFC then
        (if po_len o1 \<noteq> 2 \<or> \<not> has_flag (ppp_flags (ppp_params s)) PPP_ACFC then (OPT_REJ, o1, s)
         else (OPT_OK, o1, s\<lparr>ppp_txflags := ppp_txflags s OR PPP_ACFC\<rparr>))
      else (OPT_REJ, o1, s))"

definition ppp_ipcp_optrej :: "ppp_option \<Rightarrow> p2pcom \<Rightarrow> p2pcom" where
  "ppp_ipcp_optrej o1 s = (if po_type o1 = IPCP_CPROT
     then set_params (\<lambda>p. p\<lparr>ppp_flags := ppp_flags p AND NOT PPP_TCPC\<rparr>) s else s)"

definition ppp_ipcp_optnak :: "env \<Rightarrow> ppp_option \<Rightarrow> p2pcom \<Rightarrow> p2pcom option" where
  "ppp_ipcp_optnak E o1 s =
     (if po_type o1 = IPCP_CPROT then Some (if po_s o1 \<noteq> PPP_VJC
        then set_params (\<lambda>p. p\<lparr>ppp_flags := ppp_flags p AND NOT PPP_TCPC\<rparr>) s else s)
      else if po_type o1 = IPCP_ADDR then
        (let a = ppp_ipcp_getaddr False s in
         if a \<noteq> 0 then (if a \<noteq> po_l o1 then ppp_cp_close E FSM_IPCP s else Some s)
         else Some (ppp_ipcp_setaddr E (po_l o1) False s))
      else Some s)"

text \<open>
  One address of the options \<open>IPCP_ADDRS\<close> and \<open>IPCP_ADDR\<close>, at byte \<open>i\<close>: an address of ours that is
  not set is taken from the peer, another one is sent back.
\<close>

definition ipcp_addr_opt :: "env \<Rightarrow> bool \<Rightarrow> nat \<Rightarrow> ppp_option \<Rightarrow> p2pcom \<Rightarrow> bool \<times> ppp_option \<times> p2pcom" where
  "ipcp_addr_opt E dst i o1 s = (let a = ppp_ipcp_getaddr dst s; b = rd32 o1 i in
     if a = 0 then (True, o1, ppp_ipcp_setaddr E b dst s)
     else if b \<noteq> a then (False, poke o1 i (be32 a), s)
     else (True, o1, s))"

definition ipcp_cprot_opt :: "ppp_option \<Rightarrow> bool \<times> ppp_option" where
  "ipcp_cprot_opt o1 = (let ok1 = (po_s o1 = PPP_VJC);
       o2 = (if ok1 then o1 else poke o1 2 (be16 PPP_VJC)) in
     if po_len o1 = 6 then
       (let ok2 = (o2 ! 4 < MAX_STATES); o3 = (if ok2 then o2 else o2[4 := MAX_STATES - 1]);
            ok3 = (o3 ! 5 = 0); o4 = (if ok3 then o3 else o3[5 := 0])
        in (ok1 \<and> ok2 \<and> ok3, o4))
     else (ok1, o2))"

text \<open>An option of another type ends \<open>ppp_ipcp_opt\<close> without a value.\<close>

definition ppp_ipcp_opt :: "env \<Rightarrow> ppp_option \<Rightarrow> p2pcom \<Rightarrow> int \<times> ppp_option \<times> p2pcom" where
  "ppp_ipcp_opt E o1 s =
     (if po_type o1 = IPCP_ADDRS then
        (if po_len o1 \<noteq> 10 then (OPT_REJ, o1, s)
         else (case ipcp_addr_opt E True 2 o1 s of (ok1, o2, s2) \<Rightarrow>
           (case ipcp_addr_opt E False 6 o2 s2 of (ok2, o3, s3) \<Rightarrow>
              (if ok1 \<and> ok2 then OPT_OK else OPT_NAK, o3, s3))))
      else if po_type o1 = IPCP_CPROT then
        (if (po_len o1 \<noteq> 4 \<and> po_len o1 \<noteq> 6) \<or> \<not> has_flag (ppp_flags (ppp_dflt s)) PPP_TCPC
         then (OPT_REJ, o1, s)
         else (case ipcp_cprot_opt o1 of (ok, o2) \<Rightarrow>
           if ok then (OPT_OK, o2, s\<lparr>ppp_txflags := ppp_txflags s OR PPP_TCPC\<rparr>) else (OPT_NAK, o2, s)))
      else if po_type o1 = IPCP_ADDR then
        (if po_len o1 \<noteq> 6 then (OPT_REJ, o1, s)
         else (case ipcp_addr_opt E True 2 o1 s of (ok, o2, s2) \<Rightarrow>
           (if ok then OPT_OK else OPT_NAK, o2, s2)))
      else (e_noret E, o1, s))"

fun ft_opt :: "env \<Rightarrow> fsmid \<Rightarrow> ppp_option \<Rightarrow> p2pcom \<Rightarrow> int \<times> ppp_option \<times> p2pcom" where
  "ft_opt E FSM_LCP = ppp_lcp_opt E"
| "ft_opt E FSM_IPCP = ppp_ipcp_opt E"

fun ft_optrej :: "fsmid \<Rightarrow> ppp_option \<Rightarrow> p2pcom \<Rightarrow> p2pcom" where
  "ft_optrej FSM_LCP = ppp_lcp_optrej"
| "ft_optrej FSM_IPCP = ppp_ipcp_optrej"

fun ft_optnak :: "env \<Rightarrow> fsmid \<Rightarrow> ppp_option \<Rightarrow> p2pcom \<Rightarrow> p2pcom option" where
  "ft_optnak E FSM_LCP o1 s = Some (ppp_lcp_optnak E o1 s)"
| "ft_optnak E FSM_IPCP o1 s = ppp_ipcp_optnak E o1 s"

section \<open>Incoming control packets\<close>

subsection \<open>Configure-Request\<close>

text \<open>
  \<open>m_copydata\<close> of at most 34 bytes into the option buffer; bytes not copied keep what the buffer had.
\<close>

definition get_opt :: "u8 list \<Rightarrow> int \<Rightarrow> int \<Rightarrow> ppp_option \<Rightarrow> ppp_option option" where
  "get_opt b l off o1 = (let ol = nat (min (int LCP_OPT_MAXSIZE) (l - off)) in
     if length b < nat off + ol then None
     else Some (take ol (drop (nat off) b) @ drop ol o1))"

text \<open>
  One turn of the loop over the options of a Configure-Request: offset, option buffer, list of
  options to send back, counts of rejected and nak-ed options. \<open>Inr (Some (Inl s))\<close> is a fatal option.
\<close>

type_synonym optloop = "int \<times> ppp_option \<times> mbuf option \<times> nat \<times> nat \<times> p2pcom"

definition opt_back :: "int \<Rightarrow> optloop \<Rightarrow> optloop + (p2pcom + (mbuf option \<times> nat \<times> nat \<times> p2pcom)) option" where
  "opt_back r st = (case st of (off, o1, m0, rj, nk, s) \<Rightarrow>
     let (m0, rj, nk) = (if r = OPT_REJ then (if nk \<noteq> 0 then None else m0, rj + 1, nk)
                         else if r = OPT_NAK then (m0, rj, nk + 1) else (m0, rj, nk))
     in case ppp_addopt m0 o1 s of None \<Rightarrow> Inr None
        | Some (m0, s) \<Rightarrow> Inl (off, o1, m0, rj, nk, s))"

definition opt_turn :: "env \<Rightarrow> fsmid \<Rightarrow> u8 list \<Rightarrow> int \<Rightarrow> optloop
    \<Rightarrow> optloop + (p2pcom + (mbuf option \<times> nat \<times> nat \<times> p2pcom)) option" where
  "opt_turn E f b l st = (case st of (off, o1, m0, rj, nk, s) \<Rightarrow>
     if l \<le> off then Inr (Some (Inr (m0, rj, nk, s)))
     else (case get_opt b l off o1 of
        None \<Rightarrow> Inr None
      | Some o1 \<Rightarrow> (let off = off + uint (po_len o1) in
          if LCP_OPT_MAXSIZE < unat (po_len o1) then opt_back OPT_REJ (off, o1, m0, rj, nk, s)
          else (case ft_opt E f o1 s of (r, o1, s) \<Rightarrow>
            if r = OPT_OK then Inl (off, o1, m0, rj, nk, s)
            else if r = OPT_FATAL then Inr (Some (Inl s))
            else opt_back r (off, o1, m0, rj, nk, s)))))"

text \<open>
  The loop. Each turn passes at least one byte unless an option has length 0, so \<open>l + 1\<close> turns are
  enough for every other packet; \<open>None\<close> is a loop that has not ended by then.
\<close>

definition opt_loop :: "env \<Rightarrow> fsmid \<Rightarrow> u8 list \<Rightarrow> int \<Rightarrow> p2pcom
    \<Rightarrow> (p2pcom + (mbuf option \<times> nat \<times> nat \<times> p2pcom)) option option" where
  "opt_loop E f b l s = run_fuel (opt_turn E f b l) (Suc (nat l)) (0, e_stack E, None, 0, 0, s)"

text \<open>
  The resynchronisation of an opened or stopped link. The statistics count the length of the received
  packet.
\<close>

definition cp_resync :: "env \<Rightarrow> fsmid \<Rightarrow> int \<Rightarrow> p2pcom \<Rightarrow> p2pcom option" where
  "cp_resync E f n s = (let s = (if f = FSM_LCP then s\<lparr>ppp_txcmap := 0xffffffff\<rparr> else s) in
     case ft_creq f (ft_tld f s) of
       None \<Rightarrow> None
     | Some (m0, s) \<Rightarrow> (let s = timeout f s in
         Some (case m0 of None \<Rightarrow> s | Some m \<Rightarrow> isnd_send E n m s)))"

definition conf_back :: "env \<Rightarrow> fsmid \<Rightarrow> u8 \<Rightarrow> u8 \<Rightarrow> mbuf option \<Rightarrow> p2pcom \<Rightarrow> p2pcom option" where
  "conf_back E f code cid m0 s = (if m0 = None then Some s else
     (case ppp_cp_prepend m0 (ft_type f) code cid [] s of
        None \<Rightarrow> None
      | Some (m, s) \<Rightarrow> Some (sendout E m
          (if cpst f s = CP_ACKRCVD then s else newstate f CP_REQSENT s))))"

definition conf_ack_back :: "env \<Rightarrow> fsmid \<Rightarrow> u8 \<Rightarrow> mbuf \<Rightarrow> p2pcom \<Rightarrow> p2pcom option" where
  "conf_ack_back E f cid m s = (case ppp_cp_prepend (Some m) (ft_type f) CP_CONF_ACK cid [] s of
     None \<Rightarrow> None
   | Some (None, s) \<Rightarrow> Some s
   | Some (Some m, s) \<Rightarrow> if IF_QFULL2 s then Some (if_drop s)
       else (let s = isnd_put E (m_pktlen m) m s in
         if cpst f s = CP_ACKRCVD then ft_tlu E f (newstate f CP_OPENED s)
         else Some (newstate f CP_ACKSENT s)))"

definition conf_parse :: "env \<Rightarrow> fsmid \<Rightarrow> u8 \<Rightarrow> mbuf \<Rightarrow> int \<Rightarrow> p2pcom \<Rightarrow> p2pcom option" where
  "conf_parse E f cid m l s = (case opt_loop E f (m_bytes m) l s of
     Some (Some (Inl s)) \<Rightarrow> ppp_cp_close E f s
   | Some (Some (Inr (m0, rj, nk, s))) \<Rightarrow>
       if rj \<noteq> 0 then conf_back E f CP_CONF_REJ cid m0 s
       else if nk \<noteq> 0 then conf_back E f CP_CONF_NAK cid m0 s
       else conf_ack_back E f cid m s
   | _ \<Rightarrow> None)"

definition cp_conf_req :: "env \<Rightarrow> fsmid \<Rightarrow> u8 \<Rightarrow> mbuf \<Rightarrow> int \<Rightarrow> p2pcom \<Rightarrow> p2pcom option" where
  "cp_conf_req E f cid m l s = (case cpst f s of
     CP_CLOSING \<Rightarrow> Some s
   | CP_STOPPING \<Rightarrow> Some s
   | CP_CLOSED \<Rightarrow> (case ppp_cp_prepend None (ft_type f) CP_TERM_ACK cid [] s of
       None \<Rightarrow> None | Some (m, s) \<Rightarrow> Some (sendout E m s))
   | CP_STOPPED \<Rightarrow> (case cp_resync E f (m_pktlen m) (set_rc f (Ppp_maxconf s) s) of
       None \<Rightarrow> None | Some s \<Rightarrow> conf_parse E f cid m l s)
   | CP_OPENED \<Rightarrow> (case cp_resync E f (m_pktlen m) s of
       None \<Rightarrow> None | Some s \<Rightarrow> conf_parse E f cid m l s)
   | _ \<Rightarrow> conf_parse E f cid m l s)"


subsection \<open>Configure-Ack, Nak and Reject\<close>

definition cp_creq_timed :: "env \<Rightarrow> fsmid \<Rightarrow> p2pcom \<Rightarrow> p2pcom option" where
  "cp_creq_timed E f s = (case ft_creq f s of None \<Rightarrow> None
     | Some (m, s) \<Rightarrow> Some (sendout E m (timeout f s)))"

definition cp_term_ack_out :: "env \<Rightarrow> fsmid \<Rightarrow> u8 \<Rightarrow> p2pcom \<Rightarrow> p2pcom option" where
  "cp_term_ack_out E f cid s = (case ppp_cp_prepend None (ft_type f) CP_TERM_ACK cid [] s of
     None \<Rightarrow> None | Some (m, s) \<Rightarrow> Some (sendout E m s))"

definition cp_conf_ack :: "env \<Rightarrow> fsmid \<Rightarrow> u8 \<Rightarrow> p2pcom \<Rightarrow> p2pcom option" where
  "cp_conf_ack E f cid s = (if cid \<noteq> fsm_id (fs f s) then Some s
     else let s = untimeout f s in
     (case cpst f s of
        CP_CLOSED \<Rightarrow> cp_term_ack_out E f cid s
      | CP_STOPPED \<Rightarrow> cp_term_ack_out E f cid s
      | CP_REQSENT \<Rightarrow> Some (set_rc f (Ppp_maxconf s) (newstate f CP_ACKRCVD s))
      | CP_OPENED \<Rightarrow> cp_creq_timed E f (newstate f CP_REQSENT (ft_tld f s))
      | CP_ACKRCVD \<Rightarrow> cp_creq_timed E f (newstate f CP_REQSENT s)
      | CP_ACKSENT \<Rightarrow> ft_tlu E f (set_rc f (Ppp_maxconf s) (newstate f CP_OPENED s))
      | _ \<Rightarrow> Some s))"

text \<open>
  The loop over the options of a Nak (\<open>rej\<close> false) or Reject. The shift of \<open>1 << po_type\<close> takes its
  count modulo 32, as the machine does.
\<close>

definition mark_rejected :: "fsmid \<Rightarrow> u8 \<Rightarrow> p2pcom \<Rightarrow> p2pcom" where
  "mark_rejected f t s = set_fs f (\<lambda>x. x\<lparr>fsm_rej := fsm_rej x OR push_bit (unat t mod 32) 1\<rparr>) s"

definition nakrej_turn :: "env \<Rightarrow> fsmid \<Rightarrow> bool \<Rightarrow> u8 list \<Rightarrow> int \<Rightarrow> int \<times> ppp_option \<times> p2pcom
    \<Rightarrow> (int \<times> ppp_option \<times> p2pcom) + p2pcom option" where
  "nakrej_turn E f rej b l st = (case st of (off, o1, s) \<Rightarrow>
     if l \<le> off then Inr (Some s)
     else (case get_opt b l off o1 of
        None \<Rightarrow> Inr None
      | Some o1 \<Rightarrow> (let off = off + uint (po_len o1) in
          case (if rej then Some (ft_optrej f o1 (mark_rejected f (po_type o1) s)) else ft_optnak E f o1 s) of
            None \<Rightarrow> Inr None
          | Some s \<Rightarrow> Inl (off, o1, s))))"

definition nakrej_loop :: "env \<Rightarrow> fsmid \<Rightarrow> bool \<Rightarrow> u8 list \<Rightarrow> int \<Rightarrow> p2pcom \<Rightarrow> p2pcom option option" where
  "nakrej_loop E f rej b l s = run_fuel (nakrej_turn E f rej b l) (Suc (nat l)) (0, e_stack E, s)"

definition nakrej_parse :: "env \<Rightarrow> fsmid \<Rightarrow> bool \<Rightarrow> mbuf \<Rightarrow> int \<Rightarrow> p2pcom \<Rightarrow> p2pcom option" where
  "nakrej_parse E f rej m l s = (case nakrej_loop E f rej (m_bytes m) l s of
     Some (Some s) \<Rightarrow> cp_creq_timed E f s | _ \<Rightarrow> None)"

definition cp_conf_nakrej :: "env \<Rightarrow> fsmid \<Rightarrow> bool \<Rightarrow> u8 \<Rightarrow> mbuf \<Rightarrow> int \<Rightarrow> p2pcom \<Rightarrow> p2pcom option" where
  "cp_conf_nakrej E f rej cid m l s = (if cid \<noteq> fsm_id (fs f s) then Some s
     else let s = untimeout f s in
     (case cpst f s of
        CP_CLOSED \<Rightarrow> cp_term_ack_out E f cid s
      | CP_STOPPED \<Rightarrow> cp_term_ack_out E f cid s
      | CP_REQSENT \<Rightarrow> nakrej_parse E f rej m l (set_rc f (Ppp_maxconf s) s)
      | CP_ACKSENT \<Rightarrow> nakrej_parse E f rej m l (set_rc f (Ppp_maxconf s) s)
      | CP_OPENED \<Rightarrow> nakrej_parse E f rej m l (newstate f CP_REQSENT (ft_tld f s))
      | CP_ACKRCVD \<Rightarrow> nakrej_parse E f rej m l (newstate f CP_REQSENT s)
      | _ \<Rightarrow> Some s))"

subsection \<open>Terminate-Request, Terminate-Ack and the codes of LCP\<close>

definition cp_term_req :: "env \<Rightarrow> fsmid \<Rightarrow> u8 \<Rightarrow> mbuf \<Rightarrow> p2pcom \<Rightarrow> p2pcom option" where
  "cp_term_req E f cid m s =
     (let s = (case cpst f s of
                 CP_OPENED \<Rightarrow> newstate f CP_STOPPING (ft_tld f (set_rc f 1 s))
               | CP_ACKRCVD \<Rightarrow> newstate f CP_REQSENT s
               | CP_ACKSENT \<Rightarrow> newstate f CP_REQSENT s
               | _ \<Rightarrow> s);
          s = (if f = FSM_LCP then s\<lparr>ppp_txcmap := 0xffffffff\<rparr> else s)
      in case ppp_cp_prepend (Some m) (ft_type f) CP_TERM_ACK cid [] s of
           None \<Rightarrow> None | Some (m, s) \<Rightarrow> Some (sendout E m s))"

definition drop_conn :: "env \<Rightarrow> fsmid \<Rightarrow> p2pcom \<Rightarrow> p2pcom option" where
  "drop_conn E f s = ft_tlf E f (untimeout f (s\<lparr>p2p_isnd := [], if_snd := []\<rparr>))"

definition cp_term_ack :: "env \<Rightarrow> fsmid \<Rightarrow> p2pcom \<Rightarrow> p2pcom option" where
  "cp_term_ack E f s = (let s = untimeout f s in
     (case cpst f s of
        CP_OPENED \<Rightarrow> cp_creq_timed E f (ft_tld f s)
      | CP_ACKRCVD \<Rightarrow> Some (newstate f CP_REQSENT s)
      | CP_CLOSING \<Rightarrow> drop_conn E f (newstate f CP_CLOSED s)
      | CP_STOPPING \<Rightarrow> drop_conn E f (newstate f CP_STOPPED s)
      | _ \<Rightarrow> Some s))"

text \<open>
  The codes that LCP adds. \<open>None\<close> of the inner option is the \<open>-1\<close> that says the code is unknown.
  The magic number of an Echo-Reply is stored in the byte order of the machine.
\<close>

definition ppp_lcp_xcode :: "env \<Rightarrow> u8 \<Rightarrow> u8 \<Rightarrow> mbuf \<Rightarrow> p2pcom \<Rightarrow> (mbuf option option \<times> p2pcom) option" where
  "ppp_lcp_xcode E code cid m s = (let seg = hd (m_segs m) in
     if code = LCP_PROTO_REJ then
       (if length seg < 2 then None
        else if rd16 seg 0 = PPP_IP \<or> rd16 seg 0 = PPP_IPCP
        then (case ppp_cp_close E FSM_IPCP s of None \<Rightarrow> None | Some s \<Rightarrow> Some (Some None, s))
        else Some (Some None, s))
     else if code = LCP_ECHO_REQ then
       (if length seg < 4 then None
        else (case ppp_cp_prepend
                (Some (m\<lparr>m_segs := poke seg 0 (rev (be32 (ppp_magic s))) # tl (m_segs m)\<rparr>))
                PPP_LCP LCP_ECHO_REPL cid [] s of
           None \<Rightarrow> None | Some (m, s) \<Rightarrow> Some (Some m, s)))
     else if code = LCP_ECHO_REPL \<or> code = LCP_DISC_REQ then Some (Some None, s)
     else Some (None, s))"

fun ft_xcodes :: "env \<Rightarrow> fsmid \<Rightarrow> u8 \<Rightarrow> u8 \<Rightarrow> mbuf \<Rightarrow> p2pcom \<Rightarrow> (mbuf option option \<times> p2pcom) option" where
  "ft_xcodes E FSM_LCP code cid m s = ppp_lcp_xcode E code cid m s"
| "ft_xcodes E FSM_IPCP code cid m s = Some (None, s)"

text \<open>
  A code the table does not know is sent back in a Code-Reject; \<open>m0\<close> is the packet with its header.
  For LCP the pointer to the packet has been overwritten by the \<open>-1\<close> that the routine for the
  extra codes returned, and is dereferenced: \<open>None\<close>. IPCP has no such routine, and its packet is intact.
\<close>

definition cp_unknown :: "env \<Rightarrow> fsmid \<Rightarrow> u8 \<Rightarrow> u8 \<Rightarrow> mbuf \<Rightarrow> mbuf \<Rightarrow> p2pcom \<Rightarrow> p2pcom option" where
  "cp_unknown E f code cid m0 m s = (case ft_xcodes E f code cid m s of
     None \<Rightarrow> None
   | Some (Some mo, s) \<Rightarrow> Some (sendout E mo s)
   | Some (None, s) \<Rightarrow> if f = FSM_LCP then None
       else (case ppp_cp_prepend (Some m0) (ft_type f) CP_CODE_REJ 0 [] s of
         None \<Rightarrow> None | Some (mo, s) \<Rightarrow> Some (sendout E mo s)))"

subsection \<open>The input routine of the control protocols\<close>

text \<open>Advancing the data pointer of the first mbuf.\<close>

definition m_strip :: "nat \<Rightarrow> mbuf \<Rightarrow> mbuf" where
  "m_strip n m = m\<lparr>m_lead := m_lead m + n, m_pktlen := m_pktlen m - int n,
                   m_segs := drop n (hd (m_segs m)) # tl (m_segs m)\<rparr>"

text \<open>
  The truncation of a packet with an unknown protocol. The loop adds the length of the first mbuf for
  every mbuf of the chain; then the rest of the chain is freed and the first mbuf shortened by what
  the sum exceeds \<open>l\<close>. A length outside the data of that mbuf is \<open>None\<close>.
\<close>

fun trunc_off :: "int \<Rightarrow> int \<Rightarrow> int \<Rightarrow> u8 list list \<Rightarrow> int" where
  "trunc_off l n off [] = off"
| "trunc_off l n off (x # xs) = (if l \<le> off + n then off + n else trunc_off l n (off + n) xs)"

definition m_truncate :: "int \<Rightarrow> mbuf \<Rightarrow> mbuf option" where
  "m_truncate l m = (if m_pktlen m \<le> l then Some m else
     let n = int (length (hd (m_segs m))); k = n - (trunc_off l n 0 (m_segs m) - l) in
     if k < 0 \<or> n < k then None
     else Some (m\<lparr>m_pktlen := l, m_segs := [take (nat k) (hd (m_segs m))]\<rparr>))"

definition cp_proto_rej :: "env \<Rightarrow> mbuf \<Rightarrow> u16 \<Rightarrow> p2pcom \<Rightarrow> p2pcom option" where
  "cp_proto_rej E m type s = (if cpst FSM_LCP s \<noteq> CP_OPENED then Some s
     else (case m_truncate (uint (ppp_mru (ppp_params s)) - 4 + 2) m of
        None \<Rightarrow> None
      | Some m \<Rightarrow> (case ppp_cp_prepend (Some m) PPP_LCP LCP_PROTO_REJ 0 (be16 type) s of
          None \<Rightarrow> None | Some (mo, s) \<Rightarrow> Some (sendout E mo s))))"

definition cp_dispatch :: "env \<Rightarrow> fsmid \<Rightarrow> mbuf \<Rightarrow> int \<Rightarrow> p2pcom \<Rightarrow> p2pcom option" where
  "cp_dispatch E f m0 l s = (let h = hd (m_segs m0); code = h ! 0; cid = h ! 1; m = m_strip 4 m0 in
     if code = CP_CONF_REQ then cp_conf_req E f cid m l s
     else if code = CP_CONF_ACK then cp_conf_ack E f cid s
     else if code = CP_CONF_NAK then cp_conf_nakrej E f False cid m l s
     else if code = CP_CONF_REJ then cp_conf_nakrej E f True cid m l s
     else if code = CP_TERM_REQ then cp_term_req E f cid m s
     else if code = CP_TERM_ACK then cp_term_ack E f s
     else if code = CP_CODE_REJ then Some s
     else cp_unknown E f code cid m0 m s)"

definition cp_in_known :: "env \<Rightarrow> fsmid \<Rightarrow> mbuf \<Rightarrow> p2pcom \<Rightarrow> p2pcom option" where
  "cp_in_known E f m s = (let h = hd (m_segs m) in
     if length h < 4 then None
     else let l = uint (rd16 h 2) in
     if m_pktlen m < l then Some s
     else if cpst f s = CP_INITIAL \<or> cpst f s = CP_STARTING then Some s
     else cp_dispatch E f m (l - 4) s)"

definition ppp_cp_in :: "env \<Rightarrow> mbuf \<Rightarrow> u16 \<Rightarrow> p2pcom \<Rightarrow> p2pcom option" where
  "ppp_cp_in E m type s =
     (if type = PPP_LCP then cp_in_known E FSM_LCP m s
      else if type = PPP_IPCP then cp_in_known E FSM_IPCP m s
      else cp_proto_rej E m type s)"

section \<open>The restart timer\<close>

text \<open>
  The request of a timeout is used without a test: without an mbuf it is a null pointer dereference,
  unless the queue is full.
\<close>

definition timeout_send :: "env \<Rightarrow> fsmid \<Rightarrow> (mbuf option \<times> p2pcom) option \<Rightarrow> p2pcom option" where
  "timeout_send E f r = (case r of
     None \<Rightarrow> None
   | Some (mo, s) \<Rightarrow> (let s = timeout f s in
       if IF_QFULL2 s then Some (if_drop s)
       else (case mo of None \<Rightarrow> None | Some m \<Rightarrow> Some (isnd_put E (m_pktlen m) m s))))"

definition timeout_giveup :: "env \<Rightarrow> fsmid \<Rightarrow> p2pcom \<Rightarrow> p2pcom option" where
  "timeout_giveup E f s = ft_tlf E f
     (newstate f (if cpst f s = CP_CLOSING then CP_CLOSED else CP_STOPPED) (set_rc f 0 s))"

definition timeout_retry :: "env \<Rightarrow> fsmid \<Rightarrow> p2pcom \<Rightarrow> p2pcom option" where
  "timeout_retry E f s =
     (let s = (if 0 < fsm_rc (fs f s) then set_rc f (fsm_rc (fs f s) - 1) s else s) in
      case cpst f s of
        CP_CLOSING \<Rightarrow> timeout_send E f (ppp_cp_prepend None (ft_type f) CP_TERM_REQ 0 [] s)
      | CP_STOPPING \<Rightarrow> timeout_send E f (ppp_cp_prepend None (ft_type f) CP_TERM_REQ 0 [] s)
      | CP_ACKRCVD \<Rightarrow> timeout_send E f (ft_creq f (newstate f CP_REQSENT s))
      | CP_REQSENT \<Rightarrow> timeout_send E f (ft_creq f s)
      | CP_ACKSENT \<Rightarrow> timeout_send E f (ft_creq f s)
      | _ \<Rightarrow> Some s)"

definition ppp_cp_timeout :: "env \<Rightarrow> fsmid \<Rightarrow> p2pcom \<Rightarrow> p2pcom option" where
  "ppp_cp_timeout E f s = (if \<not> p2p_ppp s then Some s
     else if fsm_rc (fs f s) = 1 then timeout_giveup E f s
     else timeout_retry E f s)"

text \<open>
  The callout of \<open>ppp_lcp_timeout\<close> or \<open>ppp_ipcp_timeout\<close>: the pending call is taken off and made.
\<close>

definition fire :: "env \<Rightarrow> fsmid \<Rightarrow> p2pcom \<Rightarrow> p2pcom option" where
  "fire E f s = (if callouts f s = 0 then None else ppp_cp_timeout E f (untimeout f s))"

section \<open>Frames\<close>

text \<open>
  The input queue of IP (its software interrupt and its count of drops are not modelled).
\<close>

definition ip_enqueue :: "env \<Rightarrow> mbuf option \<Rightarrow> p2pcom \<Rightarrow> p2pcom option" where
  "ip_enqueue E mo s = (if e_ipq_maxlen E \<le> length (ipintrq s) then Some s
     else (case mo of None \<Rightarrow> None | Some m \<Rightarrow> Some (s\<lparr>ipintrq := ipintrq s @ [m_bytes m]\<rparr>)))"

definition skip_addr :: "mbuf \<Rightarrow> mbuf option" where
  "skip_addr m = (let p = hd (m_segs m) in
     if p = [] then None
     else if p ! 0 \<noteq> PPP_ADDRESS then Some m
     else if length p < 2 then None
     else Some (if p ! 1 = PPP_CONTROL then m_strip 2 m else m))"

definition take_proto :: "mbuf \<Rightarrow> (u16 \<times> mbuf) option" where
  "take_proto m = (let p = hd (m_segs m) in
     if p = [] then None
     else if p ! 0 AND 1 \<noteq> 0 then Some (ucast (p ! 0), m_strip 1 m)
     else if length p < 2 then None
     else Some (rd16 p 0, m_strip 2 m))"

definition ppp_input :: "env \<Rightarrow> mbuf \<Rightarrow> p2pcom \<Rightarrow> p2pcom option" where
  "ppp_input E m s = do {
     let s = s\<lparr>if_lastchange := e_time E, if_ibytes := if_ibytes s + of_int (m_pktlen m)\<rparr>;
     m \<leftarrow> skip_addr m;
     (type, m) \<leftarrow> take_proto m;
     if m_pktlen m \<le> 0 then Some s
     else if type = PPP_IP then ip_enqueue E (Some m) s
     else if type = PPP_VJC then
       (case e_sl_uncompress E m TYPE_COMPRESSED_TCP (ppp_ctcp s) of
          (None, c) \<Rightarrow> Some (s\<lparr>ppp_ctcp := c\<rparr>)
        | (Some m, c) \<Rightarrow> ip_enqueue E (Some m) (s\<lparr>ppp_ctcp := c\<rparr>))
     else if type = PPP_VJNC then
       (case e_sl_uncompress E m TYPE_UNCOMPRESSED_TCP (ppp_ctcp s) of
          (mo, c) \<Rightarrow> ip_enqueue E mo (s\<lparr>ppp_ctcp := c\<rparr>))
     else ppp_cp_in E m type s
   }"

section \<open>Interfaces\<close>

datatype pppioc = PPPIOCNPAR | PPPIOCGPAR | PPPIOCSPAR ppp_ioctl | PPPIOCWAIT | PPPIOC_OTHER

definition ppp_ioctl_op :: "env \<Rightarrow> pppioc \<Rightarrow> p2pcom \<Rightarrow> errno option \<times> ppp_ioctl option \<times> p2pcom" where
  "ppp_ioctl_op E cmd s = (case cmd of
     PPPIOCNPAR \<Rightarrow> if cpst FSM_LCP s = CP_OPENED then (None, Some (ppp_params s), s)
       else (let s = ppp_defaults s in (None, Some (ppp_dflt s), s))
   | PPPIOCGPAR \<Rightarrow> (let s = ppp_defaults s in (None, Some (ppp_dflt s), s))
   | PPPIOCSPAR io \<Rightarrow> if ppp_mru io < LCP_MIN_RMU \<or> ppp_timeout io < 1 \<or> ppp_maxterm io < 1
       then (Some EINVAL, None, s) else (None, None, s\<lparr>ppp_dflt := io\<rparr>)
   | PPPIOCWAIT \<Rightarrow> (e_tsleep E, None, s\<lparr>ppp_ipdefq := [], ppp_wdrop := True\<rparr>)
   | PPPIOC_OTHER \<Rightarrow> (Some EINVAL, None, s))"

text \<open>
  All links by number, the list of active PPP interfaces and the idle timer.
\<close>

record pppifs =
  links :: "nat \<Rightarrow> p2pcom"
  ppp_ifs :: "nat list"
  ppp_idletimer :: bool
  idle_callouts :: nat

definition ppp_init :: "env \<Rightarrow> nat \<Rightarrow> pppifs \<Rightarrow> pppifs option" where
  "ppp_init E i g = (let
       g = g\<lparr>ppp_ifs := i # ppp_ifs g, ppp_idletimer := True,
             idle_callouts := idle_callouts g + (if ppp_idletimer g then 0 else 1)\<rparr>;
       s = newstate FSM_IPCP CP_STARTING (newstate FSM_LCP CP_STARTING ((links g i)\<lparr>ppp_wdrop := True\<rparr>)) in
     case (case p2p_mdmctl s of Some d \<Rightarrow> mdmctl E d True s | None \<Rightarrow> ppp_modem E True s) of
       None \<Rightarrow> None
     | Some s \<Rightarrow> Some (g\<lparr>links := (links g)(i := s)\<rparr>))"

definition ppp_shutdown :: "env \<Rightarrow> nat \<Rightarrow> pppifs \<Rightarrow> pppifs option" where
  "ppp_shutdown E i g = (case ppp_cp_close E FSM_LCP (links g i) of
     None \<Rightarrow> None
   | Some s \<Rightarrow> Some (g\<lparr>links := (links g)(i := s), ppp_ifs := remove1 i (ppp_ifs g)\<rparr>))"

definition idle_tick :: "env \<Rightarrow> p2pcom \<Rightarrow> p2pcom option" where
  "idle_tick E s = (let idle = ppp_idletime (ppp_dflt s); n = ppp_idlecnt s in
     if idle = 0 \<or> \<not> (if_up s \<and> if_running s) \<or> n = 0 then Some s
     else let s = s\<lparr>ppp_idlecnt := n + 1\<rparr> in
       if idle \<le> n then ppp_cp_close E FSM_LCP s else Some s)"

fun idle_scan :: "env \<Rightarrow> nat list \<Rightarrow> (nat \<Rightarrow> p2pcom) \<Rightarrow> (nat \<Rightarrow> p2pcom) option" where
  "idle_scan E [] ls = Some ls"
| "idle_scan E (i # is) ls = (case idle_tick E (ls i) of
     None \<Rightarrow> None | Some s \<Rightarrow> idle_scan E is (ls(i := s)))"

text \<open>The callout of the idle timer.\<close>

definition ppp_idlepoll :: "env \<Rightarrow> pppifs \<Rightarrow> pppifs option" where
  "ppp_idlepoll E g = (if ppp_ifs g = [] then Some (g\<lparr>ppp_idletimer := False\<rparr>)
     else (case idle_scan E (ppp_ifs g) (links g) of
       None \<Rightarrow> None
     | Some ls \<Rightarrow> Some (g\<lparr>links := ls, idle_callouts := idle_callouts g + 1\<rparr>)))"

end
