(* ===== verification/Ppp_fsm.thy ===== *)
theory Ppp_fsm
  imports Ppp
begin

text \<open>
  The automaton of the control protocols at work: what each of its parts leaves alone, the invariant
  that IPCP is only started on an opened link (over runs of all events of a link, with its
  interpretation of \<open>invariant_system\<close>), and the liveness of closing. The last sections show two
  weaknesses of the timers: a second callout that survives the Down event, and a Terminate-Request
  that leaves a protocol in Stopping without a timer.
\<close>

section \<open>Frames: what the parts of the automaton leave alone\<close>

text \<open>
  The control part of a link: everything but the mbuf allocator, the send queues and their
  statistics.
\<close>

definition ctl :: "p2pcom \<Rightarrow> p2pcom" where
  "ctl s = s\<lparr>mbufs := [], if_snd := [], p2p_isnd := [], if_oactive := False, if_obytes := 0, ifq_drops := 0\<rparr>"

lemma fs_set_fs [simp]: "fs f (set_fs g h s) = (if f = g then h (fs f s) else fs f s)"
  by (cases f; cases g) simp_all

lemma fs_frame [simp]:
  "fs f (timeout g s) = fs f s" "fs f (untimeout g s) = fs f s"
  "fs f (s\<lparr>ppp_txcmap := a\<rparr>) = fs f s" "fs f (s\<lparr>if_running := b\<rparr>) = fs f s"
  "fs f (s\<lparr>p2p_isnd := q\<rparr>) = fs f s" "fs f (s\<lparr>if_snd := q\<rparr>) = fs f s"
  "fs f (s\<lparr>ppp_ipdefq := d\<rparr>) = fs f s" "fs f (s\<lparr>ppp_ncps := n\<rparr>) = fs f s"
  "fs f (s\<lparr>ppp_ctcp := c\<rparr>) = fs f s" "fs f (s\<lparr>mbufs := l\<rparr>) = fs f s"
  "fs f (s\<lparr>mdm_calls := w\<rparr>) = fs f s" "fs f (s\<lparr>ppp_wdrop := b\<rparr>) = fs f s"
  "fs f (s\<lparr>if_lastchange := x\<rparr>) = fs f s" "fs f (s\<lparr>if_ibytes := a\<rparr>) = fs f s"
  "fs f (s\<lparr>if_obytes := a\<rparr>) = fs f s" "fs f (s\<lparr>ppp_idlecnt := h\<rparr>) = fs f s"
  "fs f (s\<lparr>ipintrq := q\<rparr>) = fs f s" "fs f (s\<lparr>ppp_dflt := io\<rparr>) = fs f s"
  by (cases f; cases g; simp)+

lemma cpst_newstate [simp]: "cpst f (newstate g st s) = (if f = g then st else cpst f s)"
  by (simp add: newstate_def)

lemma cpst_set_rc [simp]: "cpst f (set_rc g n s) = cpst f s"
  by (simp add: set_rc_def)

lemma fs_ctl [simp]: "fs f (ctl s) = fs f s"
  by (cases f) (simp_all add: ctl_def)

lemma callouts_ctl [simp]: "callouts f (ctl s) = callouts f s"
  by (cases f) (simp_all add: ctl_def)

lemma ctl_fields [simp]:
  "ppp_dflt (ctl s) = ppp_dflt s" "p2p_ppp (ctl s) = p2p_ppp s" "p2p_mdmctl (ctl s) = p2p_mdmctl s"
  "mdm_calls (ctl s) = mdm_calls s" "if_running (ctl s) = if_running s"
  by (simp_all add: ctl_def)

lemma newstate_set_rc: "newstate f st (set_rc f n s) = set_rc f n (newstate f st s)"
  by (cases f) (simp_all add: newstate_def set_rc_def)

lemma cpst_next_id [simp]: "cpst f (next_id g s) = cpst f s"
  by simp

lemma ctl_fsD: "ctl s = ctl t \<Longrightarrow> fs f s = fs f t"
  by (metis fs_ctl)

declare next_id.simps [simp del]

lemma ctl_commute:
  "ctl (timeout f s) = timeout f (ctl s)" "ctl (untimeout f s) = untimeout f (ctl s)"
  "ctl (set_fs f g s) = set_fs f g (ctl s)"
  by (cases f; simp add: ctl_def)+

declare fs.simps [simp del] set_fs.simps [simp del] timeout.simps [simp del] untimeout.simps [simp del]

lemma ctl_queues [simp]:
  "ctl (s\<lparr>mbufs := b\<rparr>) = ctl s" "ctl (s\<lparr>if_snd := q\<rparr>) = ctl s" "ctl (s\<lparr>p2p_isnd := q\<rparr>) = ctl s"
  "ctl (s\<lparr>if_oactive := c\<rparr>) = ctl s" "ctl (s\<lparr>if_obytes := n\<rparr>) = ctl s" "ctl (s\<lparr>ifq_drops := n\<rparr>) = ctl s"
  by (simp_all add: ctl_def)

lemma ctl_if_start [simp]: "ctl (if_start E s) = ctl s"
  by (simp add: if_start_def split: prod.splits)

lemma ctl_if_drop [simp]: "ctl (if_drop s) = ctl s"
  by (simp add: if_drop_def)

lemma ctl_isnd_put [simp]: "ctl (isnd_put E n m s) = ctl s"
  by (simp add: isnd_put_def)

lemma ctl_isnd_send [simp]: "ctl (isnd_send E n m s) = ctl s"
  by (simp add: isnd_send_def)

lemma ctl_sendout [simp]: "ctl (sendout E mo s) = ctl s"
  by (simp add: sendout_def split: option.splits)

lemma ctl_snd_send [simp]: "ctl (snd_send E m s) = ctl s"
  by (simp add: snd_send_def)

lemma ctl_mget: "mget s = (ok, t) \<Longrightarrow> ctl t = ctl s"
  by (auto simp: mget_def split: list.splits)

lemma ctl_M_PREPEND: "M_PREPEND h m s = (mo, t) \<Longrightarrow> ctl t = ctl s"
  by (auto simp: M_PREPEND_def split: if_splits prod.splits dest: ctl_mget)

lemma ctl_prepend: "ppp_cp_prepend mo type code cid x s = Some (m, t) \<Longrightarrow> ctl t = ctl s"
  by (auto simp: ppp_cp_prepend_def split: option.splits prod.splits if_splits
      dest: ctl_mget ctl_M_PREPEND)

lemma ctl_addopt_seg: "addopt_seg m o1 s = Some (mo, t) \<Longrightarrow> ctl t = ctl s"
  by (auto simp: addopt_seg_def Let_def split: if_splits prod.splits dest: ctl_mget)

lemma ctl_addopt:
  assumes "ppp_addopt mo o1 s = Some (m, t)"
  shows "ctl t = ctl s"
proof (cases mo)
  case None
  obtain ok u where mg: "mget s = (ok, u)" by (cases "mget s")
  with assms None show ?thesis
    by (auto simp: ppp_addopt_def split: if_splits) (metis ctl_mget ctl_addopt_seg)+
next
  case (Some a)
  with assms show ?thesis
    by (auto simp: ppp_addopt_def split: if_splits dest: ctl_addopt_seg)
qed

lemma ctl_opt_if: "opt_if c mo o1 s = Some (m, t) \<Longrightarrow> ctl t = ctl s"
  by (auto simp: opt_if_def split: if_splits dest: ctl_addopt)

lemma ctl_next_id: "ctl s = ctl t \<Longrightarrow> ctl (next_id f s) = ctl (next_id f t)"
  by (simp add: next_id.simps ctl_commute)

lemma ctl_lcp_creq:
  assumes "ppp_lcp_creq s = Some (m, t)"
  shows "ctl t = ctl (next_id FSM_LCP s)"
  using assms unfolding ppp_lcp_creq_def Let_def
  by (auto simp: Option.bind_eq_Some_conv split: prod.splits
      dest!: ctl_opt_if ctl_prepend intro: ctl_next_id)

lemma ctl_ipcp_creq:
  assumes "ppp_ipcp_creq s = Some (m, t)"
  shows "ctl t = ctl (next_id FSM_IPCP s)"
  using assms unfolding ppp_ipcp_creq_def Let_def
  by (auto simp: Option.bind_eq_Some_conv split: prod.splits
      dest!: ctl_opt_if ctl_prepend intro: ctl_next_id)

lemma ctl_creq: "ft_creq f s = Some (m, t) \<Longrightarrow> ctl t = ctl (next_id f s)"
  by (cases f) (simp_all add: ctl_lcp_creq ctl_ipcp_creq)

lemma cpst_prepend: "ppp_cp_prepend mo type code cid x s = Some (m, t) \<Longrightarrow> cpst f t = cpst f s"
  by (drule ctl_prepend, drule ctl_fsD [where f = f]) simp

lemma cpst_creq: "ft_creq g s = Some (m, t) \<Longrightarrow> cpst f t = cpst f s"
  by (drule ctl_creq, drule ctl_fsD [where f = f]) simp

lemma cpst_queue [simp]:
  "fs f (sendout E mo s) = fs f s" "fs f (isnd_send E n m s) = fs f s"
  "fs f (isnd_put E n m s) = fs f s" "fs f (snd_send E m s) = fs f s" "fs f (if_drop s) = fs f s"
  "fs f (if_start E s) = fs f s"
  by (rule ctl_fsD, simp)+


lemma fs_setters [simp]:
  "fs f (set_params h s) = fs f s" "fs f (ppp_ipcp_setaddr E a d s) = fs f s" "fs f (ppp_defer m s) = fs f s"
  by (cases f; simp add: fs.simps set_params_def ppp_ipcp_setaddr_def ppp_defer_def Let_def)+

lemma fs_more [simp]:
  "fs f (s\<lparr>if_mtu := a\<rparr>) = fs f s" "fs f (s\<lparr>ppp_badmagic := c\<rparr>) = fs f s"
  "fs f (s\<lparr>ppp_magic := m\<rparr>) = fs f s" "fs f (s\<lparr>ppp_txflags := w\<rparr>) = fs f s"
  "fs f (s\<lparr>ppp_params := p\<rparr>) = fs f s" "fs f (s\<lparr>ppp_ticks := x\<rparr>) = fs f s"
  by (cases f; simp add: fs.simps)+

lemma fs_lcp_opt: "ppp_lcp_opt E o1 s = (r, o2, t) \<Longrightarrow> fs f t = fs f s"
  unfolding ppp_lcp_opt_def Let_def by (simp split: if_splits) (auto split: if_splits)

lemma fs_addr_opt: "ipcp_addr_opt E d i o1 s = (ok, o2, t) \<Longrightarrow> fs f t = fs f s"
  unfolding ipcp_addr_opt_def Let_def by (auto split: if_splits)

lemma fs_ipcp_opt: "ppp_ipcp_opt E o1 s = (r, o2, t) \<Longrightarrow> fs f t = fs f s"
  unfolding ppp_ipcp_opt_def by (auto split: if_splits prod.splits dest!: fs_addr_opt [where f = f])

lemma fs_opt: "ft_opt E g o1 s = (r, o2, t) \<Longrightarrow> fs f t = fs f s"
  by (cases g) (auto dest: fs_lcp_opt fs_ipcp_opt)

lemma fs_optrej [simp]: "fs f (ft_optrej g o1 s) = fs f s"
  by (cases g) (simp_all add: ppp_lcp_optrej_def ppp_ipcp_optrej_def)

lemma fs_lcp_optnak [simp]: "fs f (ppp_lcp_optnak E o1 s) = fs f s"
  by (simp add: ppp_lcp_optnak_def)

lemma cpst_mark_rejected [simp]: "cpst f (mark_rejected g t s) = cpst f s"
  by (simp add: mark_rejected_def)

lemma fs_addopt: "ppp_addopt mo o1 s = Some (m, t) \<Longrightarrow> fs f t = fs f s"
  by (drule ctl_addopt, erule ctl_fsD)

lemma fs_opt_back: "opt_back r (off, o1, m0, rj, nk, s) = Inl (off', o1', m0', rj', nk', t) \<Longrightarrow> fs f t = fs f s"
  unfolding opt_back_def Let_def
  by (auto split: if_splits option.splits dest: fs_addopt)

lemma opt_back_None: "opt_back r (off, o1, m0, rj, nk, s) = Inr x \<Longrightarrow> x = None"
  unfolding opt_back_def Let_def by (auto split: if_splits option.splits)

lemma fs_compress: "ppp_compress E m s = (ty, m', t) \<Longrightarrow> fs f t = fs f s"
  unfolding ppp_compress_def by (auto split: if_splits prod.splits)

lemma fs_transmit: "ppp_transmit E fast n ty m s = (r, t) \<Longrightarrow> fs f t = fs f s"
  unfolding ppp_transmit_def Let_def
  by (auto split: prod.splits option.splits if_splits dest!: ctl_M_PREPEND dest: ctl_fsD [where f = f])

lemma fs_output: "ppp_output E i m s = Some (r, t) \<Longrightarrow> fs f t = fs f s"
  unfolding ppp_output_def Let_def
  by (auto split: if_splits option.splits prod.splits dest!: fs_transmit [where f = f] fs_compress [where f = f])

lemma fs_defq_drain: "defq_drain E n s = Some t \<Longrightarrow> fs f t = fs f s"
proof (induction n arbitrary: s)
  case (Suc n)
  then show ?case by (auto split: list.splits option.splits dest!: fs_output [where f = f] Suc.IH)
qed simp

section \<open>IPCP lives on an opened link\<close>

text \<open>
  While LCP is not opened, IPCP has not been started.
\<close>

definition ipcp_down :: "p2pcom \<Rightarrow> bool" where
  "ipcp_down s = (cpst FSM_IPCP s \<in> {CP_INITIAL, CP_STARTING})"

definition link_ok :: "p2pcom \<Rightarrow> bool" where
  "link_ok s = (cpst FSM_LCP s = CP_OPENED \<or> ipcp_down s)"

lemma ipcp_downI [simp]: "cpst FSM_IPCP s = CP_INITIAL \<Longrightarrow> ipcp_down s"
    "cpst FSM_IPCP s = CP_STARTING \<Longrightarrow> ipcp_down s"
  by (simp_all add: ipcp_down_def)

lemma lcp_tld_down [simp]: "ipcp_down (ppp_lcp_tld s)"
  unfolding ipcp_down_def ppp_lcp_tld_def cp_down_def
  by (cases "cpst FSM_IPCP s") simp_all

lemma lcp_tld_lcp [simp]: "fs FSM_LCP (ppp_lcp_tld s) = fs FSM_LCP s"
  unfolding ppp_lcp_tld_def cp_down_def newstate_def by (simp split: cpstate.splits)

lemma ipcp_down_frame [simp]:
  "ipcp_down (newstate FSM_LCP st s) = ipcp_down s" "ipcp_down (untimeout f s) = ipcp_down s"
  "ipcp_down (timeout f s) = ipcp_down s" "ipcp_down (sendout E mo s) = ipcp_down s"
  "ipcp_down (s\<lparr>if_running := b\<rparr>) = ipcp_down s" "ipcp_down (s\<lparr>ppp_txcmap := w\<rparr>) = ipcp_down s"
  "ipcp_down (set_rc f n s) = ipcp_down s"
  by (simp_all add: ipcp_down_def)

lemma cpst_up: "ppp_cp_up E f s = Some t \<Longrightarrow> cpst g t = (if g = f then CP_REQSENT else cpst g s)"
  unfolding ppp_cp_up_def by (auto simp: Option.bind_eq_Some_conv dest!: cpst_creq [where f = g])

lemma cpst_terminate: "cp_terminate E f s = Some t \<Longrightarrow> cpst g t = (if g = f then CP_CLOSING else cpst g s)"
  unfolding cp_terminate_def Let_def
  by (auto split: option.splits if_splits dest!: cpst_prepend [where f = g])

lemma close_lcp_down:
  assumes "link_ok s" and "ppp_cp_close E FSM_LCP s = Some t"
  shows "ipcp_down t"
proof -
  have tm: "ipcp_down u \<Longrightarrow> cp_terminate E FSM_LCP u = Some v \<Longrightarrow> ipcp_down v" for u v
    by (drule cpst_terminate [where g = FSM_IPCP]) (simp add: ipcp_down_def)
  from assms show ?thesis unfolding ppp_cp_close_def link_ok_def
    by (cases "cpst FSM_LCP s") (auto intro: tm tm [OF lcp_tld_down])
qed

lemma close_ipcp:
  assumes "ppp_cp_close E FSM_IPCP s = Some t"
  shows "cpst FSM_LCP t = cpst FSM_LCP s" and "ipcp_down s \<Longrightarrow> ipcp_down t"
proof -
  have tm: "cp_terminate E FSM_IPCP u = Some v \<Longrightarrow> cpst FSM_LCP v = cpst FSM_LCP u" for u v
    by (drule cpst_terminate [where g = FSM_LCP]) simp
  from assms show "cpst FSM_LCP t = cpst FSM_LCP s" unfolding ppp_cp_close_def
    by (cases "cpst FSM_IPCP s") (auto dest: tm)
  from assms show "ipcp_down s \<Longrightarrow> ipcp_down t" unfolding ppp_cp_close_def
    by (auto simp: ipcp_down_def)
qed

lemma close_link_ok: "link_ok s \<Longrightarrow> ppp_cp_close E f s = Some t \<Longrightarrow> link_ok t"
  by (cases f) (metis close_lcp_down link_ok_def, metis close_ipcp link_ok_def)

lemma down_lcp: "link_ok s \<Longrightarrow> ipcp_down (ppp_cp_down FSM_LCP s)"
  unfolding ppp_cp_down_def cp_down_def link_ok_def by (cases "cpst FSM_LCP s") auto

lemma fs_defaults [simp]: "fs f (ppp_defaults s) = fs f s"
  unfolding ppp_defaults_def Let_def by simp

lemma modem_link_ok:
  assumes "link_ok s" and "ppp_modem E b s = Some t"
  shows "link_ok t" and "\<not> b \<Longrightarrow> ipcp_down t"
proof -
  have down: "ipcp_down t" if "\<not> b"
    using assms that down_lcp [of "s\<lparr>if_running := False\<rparr>"]
    by (auto simp: ppp_modem_def Let_def link_ok_def ipcp_down_def split: if_splits)
  then show "\<not> b \<Longrightarrow> ipcp_down t" .
  show "link_ok t"
  proof (cases b)
    case True
    with assms show ?thesis
      by (auto simp: ppp_modem_def Let_def link_ok_def ipcp_down_def split: if_splits
          dest!: cpst_up [where g = FSM_IPCP])
  next
    case False
    with down show ?thesis by (simp add: link_ok_def)
  qed
qed

lemma link_ok_frame [simp]:
  "link_ok (s\<lparr>if_running := b\<rparr>) = link_ok s" "link_ok (s\<lparr>mdm_calls := c\<rparr>) = link_ok s"
  "link_ok (s\<lparr>ppp_ncps := n\<rparr>) = link_ok s" "link_ok (s\<lparr>ppp_idlecnt := k\<rparr>) = link_ok s"
  "link_ok (s\<lparr>ppp_dflt := io\<rparr>) = link_ok s" "link_ok (s\<lparr>ppp_wdrop := b\<rparr>) = link_ok s"
  by (simp_all add: link_ok_def ipcp_down_def)

lemma opened_link_ok: "cpst FSM_LCP s = CP_OPENED \<Longrightarrow> link_ok s"
  by (simp add: link_ok_def)

lemma mdmctl_link_ok: "link_ok s \<Longrightarrow> mdmctl E d b s = Some t \<Longrightarrow> link_ok t"
  unfolding mdmctl_def Let_def
  by (auto split: if_splits intro: modem_link_ok(1) [rotated])

lemma tlf_lcp: "link_ok s \<Longrightarrow> ppp_lcp_tlf E s = Some t \<Longrightarrow> link_ok t"
  unfolding ppp_lcp_tlf_def Let_def
  by (auto split: option.splits intro: mdmctl_link_ok [rotated])

lemma tlf_ipcp: "cpst FSM_LCP s = CP_OPENED \<Longrightarrow> ppp_ipcp_tlf E s = Some t \<Longrightarrow> link_ok t"
  unfolding ppp_ipcp_tlf_def Let_def
  by (auto split: if_splits intro: opened_link_ok dest!: close_link_ok [rotated])

lemma tlu_lcp: "cpst FSM_LCP s = CP_OPENED \<Longrightarrow> ppp_lcp_tlu E s = Some t \<Longrightarrow> cpst FSM_LCP t = CP_OPENED"
  unfolding ppp_lcp_tlu_def Let_def by (auto simp: Option.bind_eq_Some_conv dest!: cpst_up [where g = FSM_LCP])

lemma tlu_lcp_opened:
  "cpst FSM_LCP s = CP_OPENED \<Longrightarrow> ft_tlu E f s = Some t \<Longrightarrow> cpst FSM_LCP t = CP_OPENED"
  by (cases f) (auto simp: ppp_ipcp_tlu_def tlu_lcp simp del: defq_drain.simps dest!: fs_defq_drain [where f = FSM_LCP])

text \<open>
  A packet may act on a protocol when the protocol is LCP, or the link is opened. \<open>tame\<close> is the part
  of \<open>link_ok\<close> that a handler of protocol \<open>f\<close> can rely on.
\<close>

definition tame :: "fsmid \<Rightarrow> p2pcom \<Rightarrow> bool" where
  "tame f s = (cpst FSM_LCP s = CP_OPENED \<or> f = FSM_LCP \<and> ipcp_down s)"

lemma tame_link_ok: "tame f s \<Longrightarrow> link_ok s"
  by (auto simp: tame_def link_ok_def)

lemma link_ok_states: "(\<And>g. cpst g t = cpst g s) \<Longrightarrow> link_ok t = link_ok s"
  unfolding link_ok_def ipcp_down_def by metis

lemma tame_states: "(\<And>g. cpst g t = cpst g s) \<Longrightarrow> tame f t = tame f s"
  unfolding tame_def ipcp_down_def by metis

lemma link_ok_quiet [simp]:
  "link_ok (timeout f s) = link_ok s" "link_ok (untimeout f s) = link_ok s" "link_ok (set_rc f n s) = link_ok s"
  "link_ok (s\<lparr>ppp_txcmap := w\<rparr>) = link_ok s" "link_ok (sendout E mo s) = link_ok s"
  "link_ok (if_drop s) = link_ok s" "link_ok (isnd_put E k m s) = link_ok s"
  "link_ok (isnd_send E k m s) = link_ok s"
  by (simp_all add: link_ok_def ipcp_down_def)

lemma tame_quiet [simp]:
  "tame f (timeout g s) = tame f s" "tame f (untimeout g s) = tame f s" "tame f (set_rc g n s) = tame f s"
  "tame f (s\<lparr>ppp_txcmap := w\<rparr>) = tame f s" "tame f (isnd_put E k m s) = tame f s"
  "tame f (isnd_send E k m s) = tame f s" "tame f (s\<lparr>p2p_isnd := q\<rparr>) = tame f s"
  "tame f (s\<lparr>if_snd := q\<rparr>) = tame f s"
  by (simp_all add: tame_def ipcp_down_def)

lemma tame_newstate: "tame f s \<Longrightarrow> cpst f s \<noteq> CP_OPENED \<Longrightarrow> tame f (newstate f st s)"
  by (cases f) (auto simp: tame_def)

lemma tame_tld: "tame f s \<Longrightarrow> tame f (ft_tld f s)"
  by (cases f) (simp_all add: tame_def)

lemma tame_tld_newstate: "tame f s \<Longrightarrow> tame f (newstate f st (ft_tld f s))"
  by (cases f) (simp_all add: tame_def)

lemma link_ok_newstate: "tame f s \<Longrightarrow> cpst f s \<noteq> CP_OPENED \<Longrightarrow> link_ok (newstate f st s)"
  by (rule tame_link_ok, rule tame_newstate)

lemma link_ok_tld_newstate: "tame f s \<Longrightarrow> link_ok (newstate f st (ft_tld f s))"
  by (rule tame_link_ok, rule tame_tld_newstate)

lemma link_ok_tld: "tame f s \<Longrightarrow> link_ok (ft_tld f s)"
  by (rule tame_link_ok, rule tame_tld)

lemma cpst_creq_timed: "cp_creq_timed E f s = Some t \<Longrightarrow> cpst g t = cpst g s"
  unfolding cp_creq_timed_def by (auto split: option.splits dest!: cpst_creq [where f = g])

lemma cpst_term_ack_out: "cp_term_ack_out E f cid s = Some t \<Longrightarrow> cpst g t = cpst g s"
  unfolding cp_term_ack_out_def by (auto split: option.splits dest!: cpst_prepend [where f = g])

lemma link_ok_lcp_tld [simp]: "link_ok (newstate FSM_LCP st (ppp_lcp_tld s))"
  by (simp add: link_ok_def)

lemma creq_timed_link_ok: "cp_creq_timed E f s = Some t \<Longrightarrow> link_ok t = link_ok s"
  by (intro link_ok_states cpst_creq_timed)

lemma term_ack_out_link_ok: "cp_term_ack_out E f cid s = Some t \<Longrightarrow> link_ok t = link_ok s"
  by (intro link_ok_states cpst_term_ack_out)

lemma prepend_link_ok: "ppp_cp_prepend mo ty code cid x s = Some (m, t) \<Longrightarrow> link_ok t = link_ok s"
  by (intro link_ok_states cpst_prepend)

lemma tame_tlu:
  assumes "tame f s" and "ft_tlu E f (newstate f CP_OPENED s) = Some t"
  shows "link_ok t"
proof -
  have "cpst FSM_LCP (newstate f CP_OPENED s) = CP_OPENED" using assms(1) by (auto simp: tame_def)
  with assms(2) show ?thesis by (blast intro: opened_link_ok tlu_lcp_opened)
qed

lemma tame_tlf: "tame f s \<Longrightarrow> ft_tlf E f s = Some t \<Longrightarrow> link_ok t"
  by (cases f) (auto simp: tame_def intro: tlf_ipcp tlf_lcp tame_link_ok [unfolded tame_def])

section \<open>Every handler keeps IPCP on an opened link\<close>

lemma conf_ack_link_ok:
  assumes "tame f s" and "cp_conf_ack E f cid s = Some t"
  shows "link_ok t"
proof (cases "cid = fsm_id (fs f s)")
  case True
  have tlu: "ft_tlu E f (set_rc f n (newstate f CP_OPENED u)) = Some t \<Longrightarrow> tame f u \<Longrightarrow> link_ok t" for n u
    using tame_tlu [of f "set_rc f n u" E t] by (simp add: newstate_set_rc)
  from assms True tlu [of _ "untimeout f s"] show ?thesis
    unfolding cp_conf_ack_def Let_def
    by (cases "cpst f s")
      (auto dest!: creq_timed_link_ok term_ack_out_link_ok intro!: link_ok_newstate link_ok_tld_newstate
        intro: tame_link_ok)
qed (use assms in \<open>simp add: cp_conf_ack_def tame_link_ok\<close>)

lemma cp_term_req_link_ok:
  assumes "tame f s" and "cp_term_req E f cid m s = Some t"
  shows "link_ok t"
  using assms unfolding cp_term_req_def Let_def
  by (cases "cpst f s") (auto split: option.splits if_splits dest!: prepend_link_ok
      intro!: link_ok_newstate link_ok_tld_newstate intro: tame_link_ok)

lemma cp_term_ack_link_ok:
  assumes "tame f s" and "cp_term_ack E f s = Some t"
  shows "link_ok t"
proof -
  have drop: "drop_conn E f (newstate f st (untimeout f s)) = Some t \<Longrightarrow> cpst f s \<noteq> CP_OPENED \<Longrightarrow> link_ok t" for st
    unfolding drop_conn_def
    by (erule tame_tlf [rotated]) (simp add: tame_newstate assms(1))
  from assms drop show ?thesis unfolding cp_term_ack_def Let_def
    by (cases "cpst f s") (auto dest!: creq_timed_link_ok
      intro!: link_ok_newstate link_ok_tld intro: tame_link_ok)
qed

lemma xcode_link_ok:
  assumes "link_ok s" and "ppp_lcp_xcode E code cid m s = Some (r, t)"
  shows "link_ok t"
  using assms unfolding ppp_lcp_xcode_def Let_def
  by (auto split: if_splits option.splits prod.splits dest: prepend_link_ok intro: close_link_ok)

lemma cp_unknown_link_ok:
  assumes "link_ok s" and "cp_unknown E f code cid m0 m s = Some t"
  shows "link_ok t"
proof -
  have x: "link_ok u" if "ft_xcodes E f code cid m s = Some (r, u)" for r u
    using that assms(1) by (cases f) (auto intro: xcode_link_ok)
  from assms(2) x show ?thesis unfolding cp_unknown_def
    by (auto split: option.splits prod.splits if_splits dest!: prepend_link_ok)
qed

lemma cp_proto_rej_link_ok: "link_ok s \<Longrightarrow> cp_proto_rej E m ty s = Some t \<Longrightarrow> link_ok t"
  unfolding cp_proto_rej_def by (auto split: if_splits option.splits dest!: prepend_link_ok)

lemma nakrej_loop_tame:
  assumes "tame f s" and "nakrej_loop E f rej b l s = Some (Some t)"
  shows "link_ok t"
proof -
  have nak: "tame f v" if "tame f u" "ft_optnak E f o1 u = Some v" for u v o1
  proof (cases f)
    case FSM_LCP
    with that show ?thesis by (auto simp: tame_def ipcp_down_def)
  next
    case FSM_IPCP
    with that show ?thesis
      by (auto simp: tame_def ppp_ipcp_optnak_def Let_def split: if_splits dest: close_ipcp)
  qed
  have rej: "tame f (ft_optrej f o1 (mark_rejected f ty u)) = tame f u" for o1 ty u
    by (rule tame_states) simp
  have "(case Some t of Some t \<Rightarrow> tame f t | None \<Rightarrow> True)"
    using assms(2) unfolding nakrej_loop_def
  proof (rule run_fuel_inv [where P = "\<lambda>st. tame f (snd (snd st))", rotated 3])
    show "tame f (snd (snd (0, e_stack E, s)))" using assms(1) by simp
  next
    fix u v assume "tame f (snd (snd u))" and "nakrej_turn E f rej b l u = Inl v"
    then show "tame f (snd (snd v))"
      unfolding nakrej_turn_def Let_def
      by (auto split: prod.splits if_splits option.splits intro: nak simp: rej)
  next
    fix u r assume "tame f (snd (snd u))" and "nakrej_turn E f rej b l u = Inr r"
    then show "case r of Some t \<Rightarrow> tame f t | None \<Rightarrow> True"
      unfolding nakrej_turn_def Let_def
      by (auto split: prod.splits if_splits option.splits)
  qed
  then show ?thesis by (simp add: tame_link_ok)
qed

lemma nakrej_link_ok:
  assumes "tame f s" and "cp_conf_nakrej E f rej cid m l s = Some t"
  shows "link_ok t"
proof -
  have parse: "nakrej_parse E f rej m l u = Some t \<Longrightarrow> tame f u \<Longrightarrow> link_ok t" for u
    unfolding nakrej_parse_def
    by (auto split: option.splits dest!: nakrej_loop_tame dest: creq_timed_link_ok)
  from assms show ?thesis unfolding cp_conf_nakrej_def Let_def
    by (cases "cpst f s") (auto split: if_splits dest!: parse term_ack_out_link_ok
      intro!: tame_newstate tame_tld_newstate intro: tame_link_ok)
qed

lemma opt_loop_fs:
  assumes "opt_loop E f b l s = Some (Some r)"
  shows "(case r of Inl t \<Rightarrow> fs g t = fs g s | Inr (m0, rj, nk, t) \<Rightarrow> fs g t = fs g s)"
proof -
  let ?Q = "\<lambda>r. case r of None \<Rightarrow> True
     | Some r \<Rightarrow> (case r of Inl t \<Rightarrow> fs g t = fs g s | Inr (m0, rj, nk, t) \<Rightarrow> fs g t = fs g s)"
  let ?P = "\<lambda>st. case st of (off, o1, m0, rj, nk, t) \<Rightarrow> fs g t = fs g s"
  have turn: "case opt_turn E f b l (off, o1, m0, rj, nk, t) of Inl st \<Rightarrow> ?P st | Inr r \<Rightarrow> ?Q r"
    if "fs g t = fs g s" for off o1 m0 rj nk t
    unfolding opt_turn_def Let_def using that
    by (auto split: sum.splits option.splits prod.splits if_splits
        dest: opt_back_None dest!: fs_opt_back [where f = g] fs_opt [where f = g])
  have "?Q (Some r)" using assms unfolding opt_loop_def
  proof (rule run_fuel_inv [where P = ?P, rotated 3])
    fix u v assume u: "?P u" "opt_turn E f b l u = Inl v"
    obtain off o1 m0 rj nk t where "u = (off, o1, m0, rj, nk, t)" by (cases u)
    with u turn [of t off o1 m0 rj nk] show "?P v" by simp
  next
    fix u r assume u: "?P u" "opt_turn E f b l u = Inr r"
    obtain off o1 m0 rj nk t where "u = (off, o1, m0, rj, nk, t)" by (cases u)
    with u turn [of t off o1 m0 rj nk] show "?Q r" by simp
  qed simp
  then show ?thesis by simp
qed

text \<open>
  When the answer to a Configure-Request is composed, the levels above LCP are down.
\<close>

definition calm :: "fsmid \<Rightarrow> p2pcom \<Rightarrow> bool" where
  "calm f s = (case f of FSM_LCP \<Rightarrow> ipcp_down s | FSM_IPCP \<Rightarrow> cpst FSM_LCP s = CP_OPENED)"

lemma calm_tame: "calm f s \<Longrightarrow> tame f s"
  by (cases f) (simp_all add: calm_def tame_def)

lemma calm_link_ok: "calm f s \<Longrightarrow> link_ok s"
  by (rule tame_link_ok, rule calm_tame)

lemma tame_calm: "tame f s \<Longrightarrow> cpst f s \<noteq> CP_OPENED \<Longrightarrow> calm f s"
  by (cases f) (auto simp: calm_def tame_def)

lemma calm_newstate [simp]: "calm f (newstate f st s) = calm f s"
  by (cases f) (simp_all add: calm_def)

lemma calm_states: "(\<And>g. fs g t = fs g s) \<Longrightarrow> calm f t = calm f s"
  by (cases f) (simp_all add: calm_def ipcp_down_def)

lemma calm_tld: "tame f s \<Longrightarrow> calm f (ft_tld f s)"
  by (cases f) (simp_all add: calm_def tame_def)

lemma calm_quiet [simp]:
  "calm f (timeout g s) = calm f s" "calm f (set_rc g n s) = calm f s" "calm f (isnd_put E k m s) = calm f s"
  "calm f (isnd_send E k m s) = calm f s" "calm f (s\<lparr>ppp_txcmap := w\<rparr>) = calm f s"
  "calm f (sendout E mo s) = calm f s" "calm f (if_drop s) = calm f s"
  by (cases f; simp add: calm_def ipcp_down_def)+

lemma prepend_fs: "ppp_cp_prepend mo ty code cid x s = Some (m, t) \<Longrightarrow> fs g t = fs g s"
  by (drule ctl_prepend, erule ctl_fsD)

lemma prepend_calm: "ppp_cp_prepend mo ty code cid x s = Some (m, t) \<Longrightarrow> calm f t = calm f s"
  by (intro calm_states prepend_fs)

lemma conf_back_link_ok: "calm f s \<Longrightarrow> conf_back E f code cid m0 s = Some t \<Longrightarrow> link_ok t"
  unfolding conf_back_def
  by (auto split: if_splits option.splits dest!: prepend_calm [where f = f]
      intro!: calm_link_ok [of f])

lemma calm_tlu: "ft_tlu E f (newstate f CP_OPENED s) = Some t \<Longrightarrow> calm f s \<Longrightarrow> link_ok t"
  by (blast intro: tame_tlu calm_tame)

lemma conf_ack_back_link_ok:
  assumes "calm f s" and "conf_ack_back E f cid m s = Some t"
  shows "link_ok t"
  using assms unfolding conf_ack_back_def Let_def
  by (auto split: if_splits option.splits dest!: prepend_calm [where f = f] calm_tlu)
    (auto intro!: calm_link_ok [of f])

lemma conf_parse_link_ok:
  assumes "calm f s" and "conf_parse E f cid m l s = Some t"
  shows "link_ok t"
proof -
  obtain r where r: "opt_loop E f (m_bytes m) l s = Some (Some r)"
    using assms(2) unfolding conf_parse_def by (auto split: option.splits)
  have cm: "case r of Inl u \<Rightarrow> calm f u | Inr (m0, rj, nk, u) \<Rightarrow> calm f u"
    using opt_loop_fs [OF r] assms(1)
    by (cases r) (auto intro!: calm_states [THEN iffD2, of _ s] split: prod.splits)
  with r assms(2) show ?thesis unfolding conf_parse_def
    by (auto split: sum.splits prod.splits if_splits
        intro: conf_back_link_ok conf_ack_back_link_ok close_link_ok calm_link_ok)
qed

lemma resync_calm:
  assumes "tame f s" and "cp_resync E f n s = Some t"
  shows "calm f t"
proof -
  have c: "ft_creq f u = Some (m, v) \<Longrightarrow> calm f v = calm f u" for u m v
    using cpst_creq [of f u m v FSM_LCP] cpst_creq [of f u m v FSM_IPCP]
    by (cases f) (simp_all add: calm_def ipcp_down_def)
  have "calm f (ft_tld f (s\<lparr>ppp_txcmap := w\<rparr>))" "calm f (ft_tld f s)" for w
    using assms(1) by (auto intro: calm_tld)
  with assms(2) c show ?thesis unfolding cp_resync_def Let_def
    by (auto split: option.splits if_splits)
qed

lemma conf_req_link_ok:
  assumes "tame f s" and "cp_conf_req E f cid m l s = Some t"
  shows "link_ok t"
proof -
  have parse: "cpst f s \<noteq> CP_OPENED \<Longrightarrow> conf_parse E f cid m l s = Some t \<Longrightarrow> link_ok t"
    by (blast intro: conf_parse_link_ok tame_calm assms(1))
  have sync: "link_ok t" if "cp_resync E f n u = Some v" "conf_parse E f cid m l v = Some t" "tame f u" for n u v
    using that by (blast intro: conf_parse_link_ok resync_calm)
  from assms parse show ?thesis unfolding cp_conf_req_def
    by (cases "cpst f s") (auto split: option.splits dest!: prepend_link_ok sync intro: tame_link_ok)
qed

lemma cp_in_link_ok:
  assumes "link_ok s" and "ppp_cp_in E m ty s = Some t"
  shows "link_ok t"
proof -
  have known: "link_ok t" if "cp_in_known E f m s = Some t" for f
  proof (cases "cpst f s = CP_INITIAL \<or> cpst f s = CP_STARTING")
    case True
    with that assms(1) show ?thesis by (auto simp: cp_in_known_def Let_def split: if_splits)
  next
    case False
    with assms(1) have "tame f s" by (cases f) (auto simp: link_ok_def tame_def ipcp_down_def)
    with that assms(1) False show ?thesis
      unfolding cp_in_known_def cp_dispatch_def Let_def
      by (auto split: if_splits intro: conf_req_link_ok conf_ack_link_ok nakrej_link_ok
          cp_term_req_link_ok cp_term_ack_link_ok cp_unknown_link_ok)
  qed
  from assms known show ?thesis unfolding ppp_cp_in_def
    by (auto split: if_splits intro: cp_proto_rej_link_ok)
qed

lemma ip_enqueue_fs: "ip_enqueue E mo s = Some t \<Longrightarrow> fs f t = fs f s"
  unfolding ip_enqueue_def by (auto split: if_splits option.splits)

lemma fs_link_ok: "(\<And>f. fs f t = fs f s) \<Longrightarrow> link_ok t = link_ok s"
  by (simp add: link_ok_def ipcp_down_def)

lemma input_link_ok:
  assumes "link_ok s" and "ppp_input E m s = Some t"
  shows "link_ok t"
proof -
  let ?u = "s\<lparr>if_lastchange := e_time E, if_ibytes := if_ibytes s + of_int (m_pktlen m)\<rparr>"
  have u: "link_ok ?u" "link_ok (?u\<lparr>ppp_ctcp := c\<rparr>)" for c
    using assms(1) by (simp_all add: link_ok_def ipcp_down_def)
  have ip: "ip_enqueue E mo v = Some t \<Longrightarrow> link_ok v \<Longrightarrow> link_ok t" for mo v
    using ip_enqueue_fs fs_link_ok by blast
  from assms(2) u show ?thesis unfolding ppp_input_def Let_def
    by (auto simp: Option.bind_eq_Some_conv split: if_splits prod.splits option.splits
        intro: ip cp_in_link_ok)
qed

section \<open>Runs of a link\<close>

text \<open>
  The states in which the automaton keeps its restart timer running.
\<close>

definition timed :: "fsmid \<Rightarrow> p2pcom \<Rightarrow> bool" where
  "timed f s = (cpst f s \<in> {CP_CLOSING, CP_STOPPING, CP_REQSENT, CP_ACKRCVD, CP_ACKSENT})"

text \<open>
  The events of one link, in any order and with any packets: initialisation, frames from the line,
  packets from IP, carrier changes, the end of the protocol, the idle timer, ioctls, expired restart
  timers, changes of the interface flag, and the work of the driver and of the mbuf allocator, which
  leave the control part alone. \<open>T\<close> restricts the states in which a pending callout expires: with
  \<open>timed\<close> only callouts of a state that runs the timer do; with \<open>\<lambda>f s. True\<close> every pending callout may,
  also one that was left over from a state the automaton has left since (see \<open>stray_timer_closes_link\<close>).
\<close>

inductive ppp_step :: "(fsmid \<Rightarrow> p2pcom \<Rightarrow> bool) \<Rightarrow> p2pcom \<Rightarrow> p2pcom \<Rightarrow> bool" for T where
  init: "ppp_init E i g = Some g' \<Longrightarrow> ppp_step T (links g i) (links g' i)"
| frame: "ppp_input E m s = Some t \<Longrightarrow> ppp_step T s t"
| transmit: "ppp_output E inet m s = Some (r, t) \<Longrightarrow> ppp_step T s t"
| modem: "ppp_modem E b s = Some t \<Longrightarrow> ppp_step T s t"
| shutdown: "ppp_shutdown E i g = Some g' \<Longrightarrow> ppp_step T (links g i) (links g' i)"
| idle: "idle_tick E s = Some t \<Longrightarrow> ppp_step T s t"
| ioctl: "ppp_ioctl_op E cmd s = (r, io, t) \<Longrightarrow> ppp_step T s t"
| expire: "T f s \<Longrightarrow> fire E f s = Some t \<Longrightarrow> ppp_step T s t"
| ifflags: "ppp_step T s (s\<lparr>if_up := b\<rparr>)"
| driver: "ctl t = ctl s \<Longrightarrow> ppp_step T s t"

inductive_cases ppp_stepE: "ppp_step T s t"

definition ppp_boot :: "p2pcom \<Rightarrow> bool" where
  "ppp_boot s = (cpst FSM_LCP s = CP_INITIAL \<and> cpst FSM_IPCP s = CP_INITIAL)"

lemma init_link_ok:
  assumes "ppp_init E i g = Some g'"
  shows "link_ok (links g' i)"
proof -
  let ?s = "newstate FSM_IPCP CP_STARTING (newstate FSM_LCP CP_STARTING ((links g i)\<lparr>ppp_wdrop := True\<rparr>))"
  have "link_ok ?s" by (simp add: link_ok_def ipcp_down_def)
  with assms show ?thesis unfolding ppp_init_def Let_def
    by (auto split: option.splits intro: mdmctl_link_ok modem_link_ok(1))
qed

lemma timed_tame: "link_ok s \<Longrightarrow> timed f s \<Longrightarrow> tame f s"
  by (cases f) (auto simp: link_ok_def tame_def timed_def ipcp_down_def)

lemma timeout_retry_link_ok:
  assumes "tame f s" and "timed f s" and "timeout_retry E f s = Some t"
  shows "link_ok t"
proof -
  define u where "u = (if 0 < fsm_rc (fs f s) then set_rc f (fsm_rc (fs f s) - 1) s else s)"
  have u: "tame f u" "cpst f u = cpst f s" using assms(1) by (simp_all add: u_def)
  have send: "link_ok t" if "timeout_send E f r = Some t" "\<And>m v. r = Some (m, v) \<Longrightarrow> link_ok v" for r
    using that unfolding timeout_send_def Let_def by (auto split: option.splits if_splits)
  have creq: "ft_creq f v = Some (m, w) \<Longrightarrow> link_ok w = link_ok v" for v m w
    by (intro link_ok_states cpst_creq)
  have "(case cpst f u of
        CP_CLOSING \<Rightarrow> timeout_send E f (ppp_cp_prepend None (ft_type f) CP_TERM_REQ 0 [] u)
      | CP_STOPPING \<Rightarrow> timeout_send E f (ppp_cp_prepend None (ft_type f) CP_TERM_REQ 0 [] u)
      | CP_ACKRCVD \<Rightarrow> timeout_send E f (ft_creq f (newstate f CP_REQSENT u))
      | CP_REQSENT \<Rightarrow> timeout_send E f (ft_creq f u)
      | CP_ACKSENT \<Rightarrow> timeout_send E f (ft_creq f u)
      | _ \<Rightarrow> Some u) = Some t"
    using assms(3) unfolding timeout_retry_def Let_def u_def by simp
  with u assms(2) show ?thesis unfolding timed_def
    by (cases "cpst f s")
      (auto elim!: send dest!: creq prepend_link_ok intro!: link_ok_newstate intro: tame_link_ok)
qed

lemma fire_link_ok:
  assumes "link_ok s" and "timed f s" and "fire E f s = Some t"
  shows "link_ok t"
proof -
  have tm: "tame f (untimeout f s)" "timed f (untimeout f s)"
    using assms timed_tame by (auto simp: timed_def)
  have op: "cpst f s \<noteq> CP_OPENED" using assms(2) by (auto simp: timed_def)
  have giveup: "timeout_giveup E f (untimeout f s) = Some t \<Longrightarrow> link_ok t"
    unfolding timeout_giveup_def by (erule tame_tlf [rotated]) (use tm op in \<open>auto intro!: tame_newstate\<close>)
  from assms(3) tm show ?thesis unfolding fire_def ppp_cp_timeout_def
    by (auto split: if_splits intro: giveup tame_link_ok dest: timeout_retry_link_ok [OF tm])
qed

lemma step_link_ok:
  assumes "link_ok s" and "ppp_step timed s t"
  shows "link_ok t"
  using assms(2)
proof cases
  case (init E i g g') then show ?thesis using init_link_ok by simp
next
  case (frame E m) then show ?thesis using assms(1) input_link_ok by blast
next
  case (transmit E inet m r) then show ?thesis using assms(1) fs_output fs_link_ok by blast
next
  case (modem E b) then show ?thesis using assms(1) modem_link_ok(1) by blast
next
  case (shutdown E i g g')
  then show ?thesis using assms(1) by (auto simp: ppp_shutdown_def split: option.splits intro: close_link_ok)
next
  case (idle E)
  then show ?thesis using assms(1)
    by (auto simp: idle_tick_def Let_def split: if_splits intro: close_link_ok [rotated])
next
  case (ioctl E cmd r io)
  then have "fs f t = fs f s" for f
    by (auto simp: ppp_ioctl_op_def Let_def split: pppioc.splits if_splits)
  with assms(1) fs_link_ok show ?thesis by blast
next
  case (expire f E) then show ?thesis using assms(1) fire_link_ok by blast
next
  case (ifflags b)
  then show ?thesis using assms(1) by (simp add: link_ok_def ipcp_down_def fs.simps)
next
  case driver
  then show ?thesis using assms(1) ctl_fsD fs_link_ok by blast
qed

interpretation ppp: invariant_system ppp_boot "ppp_step timed" link_ok
  by unfold_locales (simp add: ppp_boot_def link_ok_def ipcp_down_def, rule step_link_ok)

text \<open>
  A kernel for the examples: the driver is busy, so that packets stay on the queues; memory is there.
\<close>

definition env0 :: env where
  "env0 = \<lparr>e_start = (\<lambda>q i. ((q, i), False)), e_in_control = (\<lambda>d a l. l), e_sl_init = [],
     e_sl_compress = (\<lambda>m c. (TYPE_IP, m, c)), e_sl_uncompress = (\<lambda>m t c. (Some m, c)),
     e_ipq_maxlen = 50, e_time = (7, 0), e_trap = 0, e_hz = 10, e_stack = replicate 34 0,
     e_noret = 0, e_tsleep = None\<rparr>"

definition fsm0 :: ppp_fsm where
  "fsm0 = \<lparr>fsm_state = CP_INITIAL, fsm_id = 0, fsm_rej = 0, fsm_rc = 0\<rparr>"

definition par0 :: ppp_ioctl where
  "par0 = \<lparr>ppp_cmap = 0, ppp_mru = 0, ppp_idletime = 0, ppp_flags = 0, ppp_maxconf = 0,
     ppp_maxterm = 0, ppp_timeout = 0\<rparr>"

definition link0 :: p2pcom where
  "link0 = \<lparr>if_name = ''ppp'', if_mtu = 1500, if_up = True, if_running = False, if_oactive = True,
     if_lastchange = (0, 0), if_ibytes = 0, if_obytes = 0, if_addrlist = [], if_snd = [], ifq_maxlen = 50,
     ifq_drops = 0, p2p_isnd = [], p2p_ppp = True, p2p_mdmctl = None, mdm_calls = [], ppp_dflt = par0,
     ppp_params = par0, ppp_txcmap = 0, ppp_ticks = 0, ppp_idlecnt = 0, ppp_lcp = fsm0, ppp_magic = 0,
     ppp_badmagic = 0, ppp_ncps = 0, ppp_txflags = 0, ppp_wdrop = False, ppp_ipcp = fsm0, ppp_ctcp = [],
     ppp_ipdefq = [], ipintrq = [], lcp_callouts = 0, ipcp_callouts = 0, mbufs = []\<rparr>"

definition pkt :: "u8 list \<Rightarrow> mbuf" where
  "pkt b = \<lparr>m_ext = False, m_lead = 0, m_pktlen = int (length b), m_segs = [b]\<rparr>"

section \<open>Closing gives up after the configured number of requests\<close>

fun fires :: "env \<Rightarrow> fsmid \<Rightarrow> nat \<Rightarrow> p2pcom \<Rightarrow> p2pcom option" where
  "fires E f 0 s = Some s"
| "fires E f (Suc n) s = (case fire E f s of None \<Rightarrow> None | Some t \<Rightarrow> fires E f n t)"

lemma mbufs_quiet [simp]:
  "mbufs (if_start E s) = mbufs s" "mbufs (isnd_put E k m s) = mbufs s" "mbufs (if_drop s) = mbufs s"
  "mbufs (snd_send E m s) = mbufs s" "mbufs (timeout f s) = mbufs s" "mbufs (untimeout f s) = mbufs s"
  "mbufs (set_fs f g s) = mbufs s" "mbufs (newstate f st s) = mbufs s" "mbufs (set_rc f n s) = mbufs s"
  by (cases f; simp add: if_start_def isnd_put_def if_drop_def snd_send_def timeout.simps untimeout.simps
      set_fs.simps newstate_def set_rc_def split: prod.splits)+

lemma mget_full: "mbufs s = [] \<Longrightarrow> mget s = (True, s)"
  by (simp add: mget_def)

lemma prepend_new:
  "mbufs s = [] \<Longrightarrow> ppp_cp_prepend None ty code cid x s =
     Some (Some \<lparr>m_ext = False, m_lead = 0, m_pktlen = int (length x) + 8,
                 m_segs = [cp_header ty code cid (int (length x) + 8) @ x]\<rparr>, s)"
  by (simp add: ppp_cp_prepend_def mget_full)

text \<open>
  A closing LCP with \<open>n\<close> requests left: its timer is pending, mbufs are available, and the rest of
  the link is as in \<open>s0\<close>.
\<close>

definition closing_left :: "nat \<Rightarrow> p2pcom \<Rightarrow> p2pcom \<Rightarrow> bool" where
  "closing_left n s0 s = (cpst FSM_LCP s = CP_CLOSING \<and> unat (fsm_rc (fs FSM_LCP s)) = n
     \<and> callouts FSM_LCP s \<noteq> 0 \<and> p2p_ppp s \<and> mbufs s = []
     \<and> p2p_mdmctl s = p2p_mdmctl s0 \<and> mdm_calls s = mdm_calls s0)"

text \<open>
  The state of LCP when it has given up. Without a modem control routine, or with one whose driver
  reports the loss of carrier later, it is Closed. A driver that reports it while it drops the line
  (\<open>rnmdmctl\<close> does) brings Down at once: Initial, or Starting when the interface is up.
\<close>

definition gave_up :: "p2pcom \<Rightarrow> bool \<Rightarrow> cpstate" where
  "gave_up s up = (case p2p_mdmctl s of
     Some (_, True) \<Rightarrow> if up then CP_STARTING else CP_INITIAL
   | _ \<Rightarrow> CP_CLOSED)"

lemma closing_left_ctl: "ctl t = ctl u \<Longrightarrow> mbufs t = [] \<Longrightarrow> closing_left n s0 u \<Longrightarrow> closing_left n s0 t"
  unfolding closing_left_def by (metis fs_ctl callouts_ctl ctl_fields(2-4))

lemma frame_set_rc [simp]:
  "callouts g (set_rc f n s) = callouts g s" "p2p_ppp (set_rc f n s) = p2p_ppp s"
  "p2p_mdmctl (set_rc f n s) = p2p_mdmctl s" "mdm_calls (set_rc f n s) = mdm_calls s"
  "callouts g (newstate f st s) = callouts g s" "p2p_ppp (newstate f st s) = p2p_ppp s"
  "p2p_mdmctl (newstate f st s) = p2p_mdmctl s" "mdm_calls (newstate f st s) = mdm_calls s"
  "p2p_ppp (timeout f s) = p2p_ppp s" "p2p_mdmctl (timeout f s) = p2p_mdmctl s" "mdm_calls (timeout f s) = mdm_calls s"
  "p2p_ppp (untimeout f s) = p2p_ppp s" "p2p_mdmctl (untimeout f s) = p2p_mdmctl s"
  "mdm_calls (untimeout f s) = mdm_calls s"
  by (cases f; cases g; simp add: set_rc_def newstate_def set_fs.simps timeout.simps untimeout.simps)+

lemma callouts_timeout [simp]: "callouts f (timeout f s) = callouts f s + 1"
  by (cases f) (simp_all add: timeout.simps)

lemma rc_set_rc [simp]: "fsm_rc (fs f (set_rc f n s)) = n"
  by (simp add: set_rc_def)

lemma rc_newstate [simp]: "fsm_rc (fs f (newstate g st s)) = fsm_rc (fs f s)"
  by (simp add: newstate_def)

lemma fire_closing_next:
  assumes "closing_left (Suc (Suc n)) s0 s"
  shows "\<exists>t. fire E FSM_LCP s = Some t \<and> closing_left (Suc n) s0 t"
proof -
  let ?rc = "fsm_rc (fs FSM_LCP s)"
  let ?u = "timeout FSM_LCP (set_rc FSM_LCP (?rc - 1) (untimeout FSM_LCP s))"
  have rc: "unat ?rc = Suc (Suc n)" using assms by (simp add: closing_left_def)
  then have ne: "?rc \<noteq> 1" "0 < ?rc" by (auto simp: word_gt_0)
  have pred: "unat (?rc - 1) = Suc n" using rc unat_minus_one [of ?rc] by force
  have u: "closing_left (Suc n) s0 ?u" using assms pred unfolding closing_left_def by simp
  let ?m = "\<lparr>m_ext = False, m_lead = 0, m_pktlen = 8, m_segs = [cp_header PPP_LCP CP_TERM_REQ 0 8]\<rparr>"
  have "fire E FSM_LCP s = Some (if IF_QFULL2 ?u then if_drop ?u else isnd_put E 8 ?m ?u)"
    using assms ne unfolding closing_left_def fire_def ppp_cp_timeout_def timeout_retry_def timeout_send_def Let_def
    by (auto simp: prepend_new)
  moreover have "mbufs ?u = []" using u by (simp add: closing_left_def)
  ultimately show ?thesis using closing_left_ctl [OF _ _ u] by (auto split: if_splits)
qed

lemma modem_loss_closed:
  assumes "cpst FSM_LCP s = CP_CLOSED"
  shows "\<exists>t. ppp_modem E False s = Some t \<and> cpst FSM_LCP t = (if if_up t then CP_STARTING else CP_INITIAL)
    \<and> \<not> if_running t \<and> mdm_calls t = mdm_calls s"
  using assms
  by (simp add: ppp_modem_def ppp_cp_down_def cp_down_def Let_def newstate_def set_fs.simps untimeout.simps fs.simps)

lemma lcp_tlf_closed:
  assumes "cpst FSM_LCP s = CP_CLOSED"
  shows "\<exists>t. ppp_lcp_tlf E s = Some t \<and> cpst FSM_LCP t = gave_up s (if_up t) \<and> \<not> if_running t
    \<and> mdm_calls t = mdm_calls s @ (if p2p_mdmctl s = None then [] else [False])"
proof (cases "p2p_mdmctl s")
  case (Some d)
  obtain a b where d: "d = (a, b)" by (cases d)
  show ?thesis
  proof (cases b)
    case True
    with modem_loss_closed [of "s\<lparr>if_running := False, mdm_calls := mdm_calls s @ [False]\<rparr>" E] assms Some d show ?thesis
      by (simp add: ppp_lcp_tlf_def mdmctl_def gave_up_def fs.simps)
  next
    case False
    with assms Some d show ?thesis by (simp add: ppp_lcp_tlf_def mdmctl_def gave_up_def fs.simps)
  qed
qed (use assms in \<open>simp add: ppp_lcp_tlf_def gave_up_def fs.simps\<close>)

lemma fire_closing_last:
  assumes "closing_left 1 s0 s"
  shows "\<exists>t. fire E FSM_LCP s = Some t \<and> cpst FSM_LCP t = gave_up s0 (if_up t) \<and> \<not> if_running t
    \<and> mdm_calls t = mdm_calls s0 @ (if p2p_mdmctl s0 = None then [] else [False])"
proof -
  have rc: "fsm_rc (fs FSM_LCP s) = 1"
    using assms(1) unsigned_word_eqI [of "fsm_rc (fs FSM_LCP s)" 1]
    by (auto simp: closing_left_def intro: word_unat_eq_iff [THEN iffD2])
  let ?u = "newstate FSM_LCP CP_CLOSED (set_rc FSM_LCP 0 (untimeout FSM_LCP s))"
  have u: "p2p_mdmctl ?u = p2p_mdmctl s0" "mdm_calls ?u = mdm_calls s0" "cpst FSM_LCP ?u = CP_CLOSED"
    using assms by (simp_all add: closing_left_def)
  have "fire E FSM_LCP s = ppp_lcp_tlf E ?u"
    using assms rc unfolding closing_left_def fire_def ppp_cp_timeout_def timeout_giveup_def by auto
  with lcp_tlf_closed [OF u(3), of E] u(1,2) show ?thesis by (simp add: gave_up_def)
qed

lemma fires_closing:
  assumes "closing_left (Suc n) s0 s"
  shows "\<exists>t. fires E FSM_LCP (Suc n) s = Some t \<and> cpst FSM_LCP t = gave_up s0 (if_up t) \<and> \<not> if_running t
      \<and> mdm_calls t = mdm_calls s0 @ (if p2p_mdmctl s0 = None then [] else [False])"
    and "k \<le> n \<Longrightarrow> \<exists>u. fires E FSM_LCP k s = Some u \<and> cpst FSM_LCP u = CP_CLOSING"
proof -
  show "\<exists>t. fires E FSM_LCP (Suc n) s = Some t \<and> cpst FSM_LCP t = gave_up s0 (if_up t) \<and> \<not> if_running t
      \<and> mdm_calls t = mdm_calls s0 @ (if p2p_mdmctl s0 = None then [] else [False])"
    using assms(1)
  proof (induction n arbitrary: s)
    case 0
    then show ?case using fire_closing_last [of s0 s E] by fastforce
  next
    case (Suc n)
    obtain t where "fire E FSM_LCP s = Some t" "closing_left (Suc n) s0 t"
      using fire_closing_next [OF Suc.prems] by blast
    with Suc.IH [of t] show ?case by (simp only: fires.simps(2) option.case)
  qed
  show "\<exists>u. fires E FSM_LCP k s = Some u \<and> cpst FSM_LCP u = CP_CLOSING" if "k \<le> n"
    using assms(1) that
  proof (induction k arbitrary: n s)
    case 0
    then show ?case by (simp add: closing_left_def)
  next
    case (Suc k)
    then obtain n' where n: "n = Suc n'" by (cases n) auto
    obtain t where "fire E FSM_LCP s = Some t" "closing_left (Suc n') s0 t"
      using fire_closing_next Suc.prems(1) n by blast
    with Suc.IH [of n' t] Suc.prems(2) n show ?case by simp
  qed
qed

lemma unat_ucast_8_16 [simp]: "unat (ucast (w :: u8) :: u16) = unat w"
  using unsigned_less [of w, where ?'a = nat] by (simp add: unsigned_ucast_eq take_bit_eq_mod)

lemma close_closing_left:
  assumes "cpst FSM_LCP s \<in> {CP_REQSENT, CP_ACKRCVD, CP_ACKSENT, CP_OPENED}" and "p2p_ppp s" and "mbufs s = []"
  shows "\<exists>t. ppp_cp_close E FSM_LCP s = Some t \<and> closing_left (unat (ppp_maxterm (ppp_dflt s))) s t"
proof -
  have tld: "p2p_ppp (ppp_lcp_tld s) = p2p_ppp s" "mbufs (ppp_lcp_tld s) = mbufs s"
    "p2p_mdmctl (ppp_lcp_tld s) = p2p_mdmctl s" "mdm_calls (ppp_lcp_tld s) = mdm_calls s"
    "ppp_dflt (ppp_lcp_tld s) = ppp_dflt s"
    by (auto simp: ppp_lcp_tld_def cp_down_def newstate_def set_fs.simps untimeout.simps split: cpstate.splits)
  have trm: "\<exists>t. cp_terminate E FSM_LCP u = Some t \<and> closing_left (unat (ppp_maxterm (ppp_dflt s))) s t"
    if u: "p2p_ppp u" "mbufs u = []" "p2p_mdmctl u = p2p_mdmctl s" "mdm_calls u = mdm_calls s" "ppp_dflt u = ppp_dflt s" for u
  proof -
    let ?v = "timeout FSM_LCP (untimeout FSM_LCP
        ((newstate FSM_LCP CP_CLOSING (set_rc FSM_LCP (Ppp_maxterm u) u))\<lparr>ppp_txcmap := 0xffffffff\<rparr>))"
    let ?m = "\<lparr>m_ext = False, m_lead = 0, m_pktlen = 8, m_segs = [cp_header PPP_LCP CP_TERM_REQ 0 8]\<rparr>"
    have e: "cp_terminate E FSM_LCP u = Some (snd_send E ?m ?v)"
      using u by (simp add: cp_terminate_def Let_def prepend_new)
    have "closing_left (unat (ppp_maxterm (ppp_dflt s))) s ?v"
      using u unfolding closing_left_def Ppp_maxterm_def by simp
    then show ?thesis using e closing_left_ctl [of "snd_send E ?m ?v" ?v] u by simp
  qed
  show ?thesis using assms trm [of s] trm [of "ppp_lcp_tld s"] tld
    unfolding ppp_cp_close_def by auto
qed

text \<open>
  Property C37. Closing an LCP that is negotiating or opened, on a link that runs PPP, with mbufs always
  available and a number \<open>ppp_maxterm\<close> of requests that is not 0, sends a Terminate-Request and, when the
  peer never answers and nothing else happens, gives up after exactly \<open>ppp_maxterm\<close> expirations of the
  restart timer: up to then the state is Closing; then the interface is no longer running, the driver
  (if it has a modem control routine) was told once to drop the line, and LCP is Closed; when the driver
  reports the loss of carrier from within that call, LCP is Starting with the interface up and Initial
  otherwise.
\<close>

theorem lcp_close_gives_up:
  assumes "cpst FSM_LCP s \<in> {CP_REQSENT, CP_ACKRCVD, CP_ACKSENT, CP_OPENED}"
    and "p2p_ppp s" and "mbufs s = []" and "ppp_maxterm (ppp_dflt s) \<noteq> 0"
  shows "\<exists>s1 t. ppp_cp_close E FSM_LCP s = Some s1
    \<and> (\<forall>k < unat (ppp_maxterm (ppp_dflt s)). \<exists>u. fires E FSM_LCP k s1 = Some u \<and> cpst FSM_LCP u = CP_CLOSING)
    \<and> fires E FSM_LCP (unat (ppp_maxterm (ppp_dflt s))) s1 = Some t
    \<and> cpst FSM_LCP t = gave_up s (if_up t) \<and> \<not> if_running t
    \<and> mdm_calls t = mdm_calls s @ (if p2p_mdmctl s = None then [] else [False])"
proof -
  obtain n where n: "unat (ppp_maxterm (ppp_dflt s)) = Suc n"
    using assms(4) by (cases "unat (ppp_maxterm (ppp_dflt s))") (auto simp: unat_eq_zero)
  obtain s1 where s1: "ppp_cp_close E FSM_LCP s = Some s1" and c: "closing_left (Suc n) s s1"
    using close_closing_left [OF assms(1-3), of E] n by auto
  obtain t where "fires E FSM_LCP (Suc n) s1 = Some t" "cpst FSM_LCP t = gave_up s (if_up t)" "\<not> if_running t"
      "mdm_calls t = mdm_calls s @ (if p2p_mdmctl s = None then [] else [False])"
    using fires_closing(1) [OF c, where E = E] by blast
  with s1 n fires_closing(2) [OF c, where E = E] show ?thesis
    by (intro exI [of _ s1] exI [of _ t]) (simp add: less_Suc_eq_le)
qed

text \<open>An opened link whose driver has a modem control routine.\<close>

theorem lcp_close_gives_up_witness:
  "let s = link0\<lparr>ppp_lcp := fsm0\<lparr>fsm_state := CP_OPENED\<rparr>, ppp_dflt := par0\<lparr>ppp_maxterm := 3\<rparr>,
       p2p_mdmctl := Some (True, False)\<rparr> in
   \<exists>s1 t. ppp_cp_close env0 FSM_LCP s = Some s1
    \<and> fires env0 FSM_LCP 3 s1 = Some t \<and> cpst FSM_LCP t = CP_CLOSED \<and> mdm_calls t = [False]"
  using lcp_close_gives_up [of "link0\<lparr>ppp_lcp := fsm0\<lparr>fsm_state := CP_OPENED\<rparr>,
       ppp_dflt := par0\<lparr>ppp_maxterm := 3\<rparr>, p2p_mdmctl := Some (True, False)\<rparr>" env0]
  by (simp add: fs.simps fsm0_def link0_def par0_def gave_up_def) blast

section \<open>IPCP and the link\<close>

text \<open>
  Property C13. In every state reachable by initialisation, arbitrary frames from the line, packets
  from IP, carrier changes, shutdown, the idle timer, ioctls and restart timers that expire in a state
  that runs them (\<open>timed\<close>), IPCP is only started while LCP is opened: as soon as the link leaves that
  state for any reason, IPCP is back in Initial or Starting and ignores what the peer sends. The runs
  exclude stray callouts, which expire after the automaton left the states that run a timer; the code
  can leave such a callout behind, and then the statement fails (\<open>stray_timer_closes_link\<close> below).
\<close>

theorem ipcp_only_on_open_link:
  assumes "reach ppp_boot (ppp_step timed) s" and "cpst FSM_LCP s \<noteq> CP_OPENED"
  shows "cpst FSM_IPCP s = CP_INITIAL \<or> cpst FSM_IPCP s = CP_STARTING"
  using ppp.reach_inv [OF assms(1)] assms(2) by (simp add: link_ok_def ipcp_down_def)

text \<open>
  A run: the link comes up, LCP is opened by the peer's request and its acknowledgement, and the
  carrier is lost.
\<close>

definition links0 :: pppifs where
  "links0 = \<lparr>links = (\<lambda>_. link0), ppp_ifs = [], ppp_idletimer = False, idle_callouts = 0\<rparr>"

definition run_open :: "p2pcom option" where
  "run_open = do {
     g \<leftarrow> ppp_init env0 0 links0;
     s \<leftarrow> ppp_input env0 (pkt [0xff, 3, 0xc0, 0x21, 1, 9, 0, 8, 1, 4, 5, 0xdc]) (links g 0);
     ppp_input env0 (pkt [0xff, 3, 0xc0, 0x21, 2, 1, 0, 4]) s
   }"

definition run_lost :: "p2pcom option" where
  "run_lost = do { s \<leftarrow> run_open; ppp_modem env0 False s }"

lemma reach_frame: "reach ppp_boot (ppp_step T) s \<Longrightarrow> ppp_input E m s = Some t \<Longrightarrow> reach ppp_boot (ppp_step T) t"
  by (rule reach_step, assumption, rule ppp_step.frame)

lemma reach_modem: "reach ppp_boot (ppp_step T) s \<Longrightarrow> ppp_modem E b s = Some t \<Longrightarrow> reach ppp_boot (ppp_step T) t"
  by (rule reach_step, assumption, rule ppp_step.modem)

lemma run_open_reach:
  assumes "run_open = Some s"
  shows "reach ppp_boot (ppp_step timed) s"
proof -
  from assms obtain g u where g: "ppp_init env0 0 links0 = Some g"
    and u: "ppp_input env0 (pkt [0xff, 3, 0xc0, 0x21, 1, 9, 0, 8, 1, 4, 5, 0xdc]) (links g 0) = Some u"
    and s: "ppp_input env0 (pkt [0xff, 3, 0xc0, 0x21, 2, 1, 0, 4]) u = Some s"
    unfolding run_open_def by (auto simp: Option.bind_eq_Some_conv)
  have "ppp_boot (links links0 0)" by (simp add: ppp_boot_def links0_def link0_def fs.simps fsm0_def)
  then have "reach ppp_boot (ppp_step timed) (links g 0)"
    using reach_step [where step = "ppp_step timed", OF reach_init, OF _ ppp_step.init [OF g]] by simp
  with u s reach_frame show ?thesis by blast
qed

lemma run_lost_reach: "run_lost = Some s \<Longrightarrow> reach ppp_boot (ppp_step timed) s"
  unfolding run_lost_def by (auto simp: Option.bind_eq_Some_conv dest: run_open_reach intro: reach_modem)

lemma run_open_states: "map_option (\<lambda>s. (cpst FSM_LCP s, cpst FSM_IPCP s)) run_open = Some (CP_OPENED, CP_REQSENT)"
  by code_simp

lemma run_lost_states: "map_option (\<lambda>s. (cpst FSM_LCP s, cpst FSM_IPCP s)) run_lost = Some (CP_STARTING, CP_STARTING)"
  by code_simp

theorem ipcp_only_on_open_link_witness:
  "\<exists>s. run_lost = Some s \<and> reach ppp_boot (ppp_step timed) s \<and> cpst FSM_LCP s \<noteq> CP_OPENED
     \<and> (cpst FSM_IPCP s = CP_INITIAL \<or> cpst FSM_IPCP s = CP_STARTING)"
proof -
  obtain s where s: "run_lost = Some s" and "cpst FSM_LCP s = CP_STARTING"
    using run_lost_states by auto
  then have "reach ppp_boot (ppp_step timed) s" and "cpst FSM_LCP s \<noteq> CP_OPENED"
    using run_lost_reach by simp_all
  with s ipcp_only_on_open_link [of s] show ?thesis by blast
qed

text \<open>
  The condition on the timers is needed. A Terminate-Ack on an opened IPCP starts the timer without
  leaving the state, a Configure-Request then starts a second one, and the Down event removes one of
  the two. When the other expires after the carrier was lost, it stops IPCP and closes LCP: the
  interface is still up, and the next carrier leads to Closed instead of a new negotiation.
\<close>

definition run_stray :: "p2pcom option" where
  "run_stray = do {
     g \<leftarrow> ppp_init env0 0 (links0\<lparr>links := (\<lambda>_. link0\<lparr>ppp_dflt := par0\<lparr>ppp_mru := 1500, ppp_maxconf := 1,
            ppp_maxterm := 1, ppp_timeout := 30\<rparr>\<rparr>)\<rparr>);
     s \<leftarrow> ppp_input env0 (pkt [0xff, 3, 0xc0, 0x21, 1, 9, 0, 8, 1, 4, 5, 0xdc]) (links g 0);
     s \<leftarrow> ppp_input env0 (pkt [0xff, 3, 0xc0, 0x21, 2, 1, 0, 4]) s;
     s \<leftarrow> ppp_input env0 (pkt [0xff, 3, 0x80, 0x21, 1, 9, 0, 4]) s;
     s \<leftarrow> ppp_input env0 (pkt [0xff, 3, 0x80, 0x21, 2, 1, 0, 4]) s;
     s \<leftarrow> ppp_input env0 (pkt [0xff, 3, 0x80, 0x21, 6, 1, 0, 4]) s;
     s \<leftarrow> ppp_input env0 (pkt [0xff, 3, 0x80, 0x21, 1, 9, 0, 4]) s;
     s \<leftarrow> ppp_modem env0 False s;
     fire env0 FSM_IPCP s
   }"

lemma run_stray_reach:
  assumes "run_stray = Some s"
  shows "reach ppp_boot (ppp_step (\<lambda>f s. True)) s"
proof -
  let ?g0 = "links0\<lparr>links := (\<lambda>_. link0\<lparr>ppp_dflt := par0\<lparr>ppp_mru := 1500, ppp_maxconf := 1,
            ppp_maxterm := 1, ppp_timeout := 30\<rparr>\<rparr>)\<rparr>"
  have "ppp_boot (links ?g0 0)" by (simp add: ppp_boot_def link0_def fs.simps fsm0_def)
  then have start: "reach ppp_boot (ppp_step (\<lambda>f s. True)) (links g 0)" if "ppp_init env0 0 ?g0 = Some g" for g
    using reach_step [where step = "ppp_step (\<lambda>f s. True)", OF reach_init, OF _ ppp_step.init [OF that]] by blast
  have expire: "reach ppp_boot (ppp_step (\<lambda>f s. True)) t"
    if "reach ppp_boot (ppp_step (\<lambda>f s. True)) u" "fire env0 FSM_IPCP u = Some t" for t u
    using reach_step [OF that(1) ppp_step.expire [OF TrueI that(2)]] .
  from assms show ?thesis unfolding run_stray_def
    by (auto simp: Option.bind_eq_Some_conv dest!: start)
      ((drule (1) reach_frame)+, drule (1) reach_modem, erule (1) expire)
qed

lemma stray_timer_closes_link:
  "\<exists>s. run_stray = Some s \<and> reach ppp_boot (ppp_step (\<lambda>f s. True)) s \<and> if_up s \<and>
     cpst FSM_LCP s = CP_INITIAL \<and> cpst FSM_IPCP s = CP_STOPPED"
  "map_option (\<lambda>s. cpst FSM_LCP s) (do { s \<leftarrow> run_stray; ppp_modem env0 True s }) = Some CP_CLOSED"
proof -
  have "map_option (\<lambda>s. (if_up s, cpst FSM_LCP s, cpst FSM_IPCP s)) run_stray = Some (True, CP_INITIAL, CP_STOPPED)"
    by code_simp
  then show "\<exists>s. run_stray = Some s \<and> reach ppp_boot (ppp_step (\<lambda>f s. True)) s \<and> if_up s \<and>
     cpst FSM_LCP s = CP_INITIAL \<and> cpst FSM_IPCP s = CP_STOPPED"
    using run_stray_reach by auto
  show "map_option (\<lambda>s. cpst FSM_LCP s) (do { s \<leftarrow> run_stray; ppp_modem env0 True s }) = Some CP_CLOSED"
    by code_simp
qed

section \<open>Termination by the peer\<close>

lemma ctl_calloutsD: "ctl s = ctl t \<Longrightarrow> callouts f s = callouts f t"
  by (metis callouts_ctl)

lemma callouts_txcmap: "callouts f (s\<lparr>ppp_txcmap := w\<rparr>) = callouts f s"
  by (cases f) simp_all

text \<open>
  A Terminate-Request to an opened protocol sets the restart counter to 1 and enters Stopping, but
  starts no timer: with none pending, none ever expires, and only a Terminate-Ack, a local close or
  the loss of carrier moves the protocol on.
\<close>

lemma term_req_no_timer:
  assumes "cpst f s = CP_OPENED" and "callouts f s = 0" and "cp_term_req E f cid m s = Some t"
  shows "cpst f t = CP_STOPPING" and "fire E' f t = None"
proof -
  let ?u = "newstate f CP_STOPPING (ft_tld f (set_rc f 1 s))"
  have c: "callouts f (ft_tld f v) = callouts f v" for v
    by (cases f) (auto simp: ppp_lcp_tld_def cp_down_def untimeout.simps newstate_def set_fs.simps
        split: cpstate.splits)
  from assms(1,3) obtain mo v where v: "ctl v = ctl ?u \<or> ctl v = ctl (?u\<lparr>ppp_txcmap := 0xffffffff\<rparr>)"
    and t: "t = sendout E mo v"
    unfolding cp_term_req_def Let_def by (auto split: option.splits if_splits dest!: ctl_prepend)
  from v have "cpst f v = CP_STOPPING \<and> callouts f v = callouts f ?u"
    by (elim disjE) (simp_all add: ctl_fsD [of v _ f] ctl_calloutsD [of v _ f] callouts_txcmap
        del: callouts.simps)
  moreover have "callouts f ?u = 0" using assms(2) c by simp
  moreover have "callouts f t = callouts f v" using t by (metis callouts_ctl ctl_sendout)
  ultimately show "cpst f t = CP_STOPPING" and "fire E' f t = None" using t by (simp_all add: fire_def)
qed

end
