(* ===== verification/Ppp_opts.thy ===== *)
theory Ppp_opts
  imports Ppp_fsm
begin

text \<open>
  The negotiation of options: the loops of \<open>ppp_cp_in\<close> over the options of a packet against a
  specification by lists. A Configure-Request is a list of options, each gets a verdict from the
  protocol, and the answer is determined by the verdicts. Packets whose options are not a list of that
  form (length 0, or beyond the option buffer) are treated at the end.
\<close>

section \<open>Bytes\<close>

lemma length_poke [simp]: "length (poke b i xs) = length b"
  by (induction b i xs rule: poke.induct) simp_all

lemma poke_append: "i + length xs \<le> length b \<Longrightarrow> poke (b @ c) i xs = poke b i xs @ c"
  by (induction b i xs rule: poke.induct) (simp_all add: list_update_append)

lemma poke_nth: "j < i \<Longrightarrow> poke b i xs ! j = b ! j"
  by (induction b i xs rule: poke.induct) simp_all

lemma rd16_append: "i + 1 < length b \<Longrightarrow> rd16 (b @ c) i = rd16 b i"
  by (simp add: rd16_def nth_append)

lemma rd32_append: "i + 3 < length b \<Longrightarrow> rd32 (b @ c) i = rd32 b i"
  by (simp add: rd32_def nth_append)

lemma rd16_be16: "rd16 (a @ be16 w @ c) (length a) = w"
proof -
  have "push_bit 8 (ucast (ucast (drop_bit 8 w) :: u8)) OR ucast (ucast w :: u8) = w"
    by (rule bit_word_eqI) (auto simp: bit_simps)
  then show ?thesis by (simp add: rd16_def be16_def nth_append)
qed

lemma be_length [simp]: "length (be16 w) = 2" "length (be32 v) = 4"
  by (simp_all add: be16_def be32_def)

section \<open>Options and verdicts\<close>

text \<open>An option whose length byte is right and that fits the buffer.\<close>

definition wf_opt :: "ppp_option \<Rightarrow> bool" where
  "wf_opt o1 = (length o1 = unat (po_len o1) \<and> 2 \<le> length o1 \<and> length o1 \<le> LCP_OPT_MAXSIZE)"

lemma wf_opt_len: "wf_opt o1 \<Longrightarrow> po_len o1 = numeral k \<Longrightarrow> length o1 = unat (numeral k :: u8)"
  by (simp add: wf_opt_def)

text \<open>Trailing bytes of the buffer have no part in the verdict.\<close>

lemma lcp_opt_append:
  assumes "wf_opt o1"
  shows "ppp_lcp_opt E (o1 @ c) s = (case ppp_lcp_opt E o1 s of (r, o2, t) \<Rightarrow> (r, o2 @ c, t))"
proof -
  have n: "(o1 @ c) ! 0 = o1 ! 0" "(o1 @ c) ! 1 = o1 ! 1"
    using assms by (auto simp: wf_opt_def nth_append)
  have l4: "po_len o1 = 4 \<Longrightarrow> length o1 = 4" and l6: "po_len o1 = 6 \<Longrightarrow> length o1 = 6"
    using assms by (auto simp: wf_opt_def)
  show ?thesis unfolding ppp_lcp_opt_def n Let_def
    by (auto simp: l4 l6 rd16_append rd32_append poke_append)
qed

lemma addr_opt_append:
  "i + 4 \<le> length o1 \<Longrightarrow>
   ipcp_addr_opt E d i (o1 @ c) s = (case ipcp_addr_opt E d i o1 s of (ok, o2, t) \<Rightarrow> (ok, o2 @ c, t))"
  by (auto simp: ipcp_addr_opt_def Let_def rd32_append poke_append)

lemma length_addr_opt: "ipcp_addr_opt E d i o1 s = (ok, o2, t) \<Longrightarrow> length o2 = length o1"
  by (auto simp: ipcp_addr_opt_def Let_def split: if_splits)

lemma cprot_opt_append:
  assumes "wf_opt o1" and "po_len o1 = 4 \<or> po_len o1 = 6"
  shows "ipcp_cprot_opt (o1 @ c) = (case ipcp_cprot_opt o1 of (ok, o2) \<Rightarrow> (ok, o2 @ c))"
proof -
  have n: "(o1 @ c) ! 1 = o1 ! 1" using assms by (auto simp: wf_opt_def nth_append)
  have l: "4 \<le> length o1" and l6: "po_len o1 = 6 \<Longrightarrow> length o1 = 6" using assms by (auto simp: wf_opt_def)
  show ?thesis unfolding ipcp_cprot_opt_def n Let_def
    using l by (auto simp: l6 rd16_append poke_append nth_append list_update_append)
qed

lemma ipcp_opt_append:
  assumes "wf_opt o1"
  shows "ppp_ipcp_opt E (o1 @ c) s = (case ppp_ipcp_opt E o1 s of (r, o2, t) \<Rightarrow> (r, o2 @ c, t))"
proof -
  have n: "(o1 @ c) ! 0 = o1 ! 0" "(o1 @ c) ! 1 = o1 ! 1"
    using assms by (auto simp: wf_opt_def nth_append)
  have l6: "po_len o1 = 6 \<Longrightarrow> length o1 = 6" and l10: "po_len o1 = 10 \<Longrightarrow> length o1 = 10"
    using assms by (auto simp: wf_opt_def)
  show ?thesis unfolding ppp_ipcp_opt_def n
    using assms by (auto simp: l6 l10 addr_opt_append cprot_opt_append length_addr_opt split: prod.splits)
qed

lemma opt_append:
  "wf_opt o1 \<Longrightarrow> ft_opt E f (o1 @ c) s = (case ft_opt E f o1 s of (r, o2, t) \<Rightarrow> (r, o2 @ c, t))"
  by (cases f) (simp_all add: lcp_opt_append ipcp_opt_append)

text \<open>What a verdict leaves alone: type and length of the option, the queues, the allocator.\<close>

definition wire :: "p2pcom \<Rightarrow> u8 list list \<times> u8 list list \<times> nat \<times> bool \<times> bool list" where
  "wire s = (if_snd s, p2p_isnd s, ifq_maxlen s, if_oactive s, mbufs s)"

definition same_shape :: "ppp_option \<Rightarrow> p2pcom \<Rightarrow> ppp_option \<Rightarrow> p2pcom \<Rightarrow> bool" where
  "same_shape o1 s o2 t = (length o2 = length o1 \<and> po_len o2 = po_len o1 \<and> wire t = wire s)"

lemma lcp_opt_shape: "ppp_lcp_opt E o1 s = (r, o2, t) \<Longrightarrow> same_shape o1 s o2 t"
  unfolding ppp_lcp_opt_def Let_def
  by (auto simp: same_shape_def poke_nth wire_def set_params_def split: if_splits)

lemma addr_opt_shape: "ipcp_addr_opt E d i o1 s = (ok, o2, t) \<Longrightarrow> 1 < i \<Longrightarrow> same_shape o1 s o2 t"
  unfolding ipcp_addr_opt_def Let_def
  by (auto simp: same_shape_def poke_nth wire_def ppp_ipcp_setaddr_def split: if_splits)

lemma cprot_opt_shape: "ipcp_cprot_opt o1 = (ok, o2) \<Longrightarrow> same_shape o1 s o2 s"
  unfolding ipcp_cprot_opt_def Let_def by (auto simp: same_shape_def poke_nth split: if_splits)

lemma same_shape_trans: "same_shape o1 s o2 t \<Longrightarrow> same_shape o2 t o3 u \<Longrightarrow> same_shape o1 s o3 u"
  by (simp add: same_shape_def)

lemma same_shape_txflags [simp]: "same_shape o1 s o2 (t\<lparr>ppp_txflags := x\<rparr>) = same_shape o1 s o2 t"
  by (simp add: same_shape_def wire_def)

lemma same_shape_refl [simp]: "same_shape o1 s o1 s"
  by (simp add: same_shape_def)

lemma ipcp_opt_shape: "ppp_ipcp_opt E o1 s = (r, o2, t) \<Longrightarrow> same_shape o1 s o2 t"
  unfolding ppp_ipcp_opt_def
  by (auto split: if_splits prod.splits intro: cprot_opt_shape
      dest!: addr_opt_shape dest: same_shape_trans)

lemma opt_shape: "ft_opt E f o1 s = (r, o2, t) \<Longrightarrow> same_shape o1 s o2 t"
  by (cases f) (auto intro: lcp_opt_shape ipcp_opt_shape)

lemma opt_wf: "ft_opt E f o1 s = (r, o2, t) \<Longrightarrow> wf_opt o1 \<Longrightarrow> wf_opt o2"
  by (drule opt_shape) (simp add: wf_opt_def same_shape_def)

text \<open>
  The specification of the loop: the verdicts on a list of options, and what they make of the list to
  send back with its two counters.
\<close>

fun verdicts :: "env \<Rightarrow> fsmid \<Rightarrow> ppp_option list \<Rightarrow> p2pcom \<Rightarrow> (int \<times> ppp_option) list \<times> p2pcom" where
  "verdicts E f [] s = ([], s)"
| "verdicts E f (o1 # os) s = (case ft_opt E f o1 s of (r, o2, t) \<Rightarrow>
     (case verdicts E f os t of (vs, u) \<Rightarrow> ((r, o2) # vs, u)))"

fun sent_back :: "(int \<times> ppp_option) list \<Rightarrow> u8 list \<times> nat \<times> nat \<Rightarrow> u8 list \<times> nat \<times> nat" where
  "sent_back [] a = a"
| "sent_back ((r, o1) # vs) (b, rj, nk) = sent_back vs
     (if r = OPT_OK then (b, rj, nk)
      else if r = OPT_REJ then ((if nk = 0 then b else []) @ o1, rj + 1, nk)
      else if r = OPT_NAK then (b @ o1, rj, nk + 1)
      else (b @ o1, rj, nk))"

text \<open>The options that are not accepted, of which the answer is made.\<close>

definition refused :: "(int \<times> ppp_option) list \<Rightarrow> u8 list" where
  "refused vs = concat (map snd (filter (\<lambda>v. fst v \<noteq> OPT_OK) vs))"

lemma refused_simps [simp]:
  "refused [] = []" "refused ((r, o1) # vs) = (if r = OPT_OK then refused vs else o1 @ refused vs)"
  by (simp_all add: refused_def)

lemma sent_back_refused: "length (fst (sent_back [(r, o1)] (b, rj, nk))) \<le> length b + length (refused [(r, o1)])"
  by simp

lemma wire_verdicts: "verdicts E f os s = (vs, u) \<Longrightarrow> wire u = wire s"
  by (induction os arbitrary: s vs) (auto split: prod.splits dest!: opt_shape simp: same_shape_def)

lemma fs_verdicts: "verdicts E f os s = (vs, u) \<Longrightarrow> fs g u = fs g s"
proof (induction os arbitrary: s vs)
  case (Cons o1 os)
  obtain r o2 t where t: "ft_opt E f o1 s = (r, o2, t)" by (cases "ft_opt E f o1 s")
  then obtain ws where "verdicts E f os t = (ws, u)" using Cons.prems by (auto split: prod.splits)
  with Cons.IH t show ?case by (metis fs_opt)
qed simp

section \<open>The list of options to send back\<close>

text \<open>
  A packet that \<open>ppp_addopt\<close> has begun: one mbuf, with 8 bytes of packet header and 8 bytes of room for the
  PPP headers before the data. As long as fewer than 92 bytes of options go into it (\<open>fits\<close>), no second
  mbuf is asked for, whose length would not be initialised.
\<close>

definition begun :: "mbuf option \<Rightarrow> bool" where
  "begun mo = (case mo of None \<Rightarrow> True | Some m \<Rightarrow> length (m_segs m) = 1 \<and> m_pktlen m = int (length (m_bytes m))
     \<and> \<not> m_ext m \<and> m_lead m = 8)"

definition mo_bytes :: "mbuf option \<Rightarrow> u8 list" where
  "mo_bytes mo = (case mo of None \<Rightarrow> [] | Some m \<Rightarrow> m_bytes m)"

definition fits :: "nat \<Rightarrow> bool" where
  "fits n = (n + 16 < MLEN)"

lemma addopt_begun:
  assumes "begun mo" and "mbufs s = []" and "unat (po_len o1) \<le> length o1" and "unat (po_len o1) \<le> LCP_OPT_MAXSIZE"
    and "fits (length (mo_bytes mo) + unat (po_len o1))"
  shows "\<exists>m. ppp_addopt mo o1 s = Some (Some m, s) \<and> begun (Some m) \<and> m_bytes m = mo_bytes mo @ take (unat (po_len o1)) o1"
proof -
  have seg: "\<exists>m'. addopt_seg m o1 s = Some (Some m', s) \<and> begun (Some m') \<and> m_bytes m' = m_bytes m @ take (unat (po_len o1)) o1"
    if bm: "begun (Some m)" and fm: "fits (length (m_bytes m) + unat (po_len o1))" for m
  proof -
    obtain b where b: "m_segs m = [b]" using bm by (cases "m_segs m") (auto simp: begun_def)
    with bm fm assms(3) show ?thesis by (simp add: addopt_seg_def begun_def fits_def Let_def min_def)
  qed
  show ?thesis
  proof (cases mo)
    case None
    let ?m = "\<lparr>m_ext = False, m_lead = 8, m_pktlen = 0, m_segs = [[]]\<rparr> :: mbuf"
    have "begun (Some ?m)" by (simp add: begun_def)
    from seg [OF this] show ?thesis using None assms(2,4,5)
      unfolding ppp_addopt_def by (auto simp: mget_full mo_bytes_def)
  next
    case (Some m)
    with assms(1,4,5) seg [of m] show ?thesis unfolding ppp_addopt_def by (auto simp: mo_bytes_def)
  qed
qed

lemma addopt_wf:
  assumes "begun mo" and "mbufs s = []" and "wf_opt o1" and "fits (length (mo_bytes mo) + length o1)"
  shows "\<exists>m. ppp_addopt mo (o1 @ c) s = Some (Some m, s) \<and> begun (Some m) \<and> m_bytes m = mo_bytes mo @ o1"
proof -
  have "po_len (o1 @ c) = po_len o1" and l: "unat (po_len o1) = length o1" and "length o1 \<le> LCP_OPT_MAXSIZE"
    using assms(3) by (auto simp: wf_opt_def nth_append)
  with addopt_begun [OF assms(1,2), of "o1 @ c"] assms(4) show ?thesis by simp
qed

section \<open>The loop over the options of a request\<close>

lemma get_opt_wf:
  assumes "b = pre @ o1 @ post @ pad" and "wf_opt o1" and "l = int (length pre + length o1 + length post)"
  shows "\<exists>c. get_opt b l (int (length pre)) buf = Some (o1 @ c)"
proof -
  let ?ol = "nat (min (int LCP_OPT_MAXSIZE) (int (length o1 + length post)))"
  have "length o1 \<le> LCP_OPT_MAXSIZE" using assms(2) by (simp add: wf_opt_def)
  then have ol: "length o1 \<le> ?ol" "?ol \<le> length o1 + length post" by auto
  have "take ?ol (o1 @ post @ pad) = o1 @ take (?ol - length o1) (post @ pad)"
    using ol(1) by simp
  then show ?thesis using ol assms(1,3) unfolding get_opt_def Let_def by simp
qed

lemma opt_turn_wf:
  assumes "b = pre @ o1 @ post @ pad" and "l = int (length pre + length o1 + length post)" and "wf_opt o1"
    and "begun m0" and "mbufs s = []" and "ft_opt E f o1 s = (r, o2, t)" and "r \<noteq> OPT_FATAL"
    and "sent_back [(r, o2)] (mo_bytes m0, rj, nk) = (q, rj', nk')"
    and "fits (length (mo_bytes m0) + length (refused [(r, o2)]))"
  shows "\<exists>buf' m0'. opt_turn E f b l (int (length pre), buf, m0, rj, nk, s)
      = Inl (int (length (pre @ o1)), buf', m0', rj', nk', t) \<and> begun m0' \<and> mo_bytes m0' = q
      \<and> (m0' = None \<longrightarrow> m0 = None \<and> rj' = rj \<and> nk' = nk)"
proof -
  obtain c where c: "get_opt b l (int (length pre)) buf = Some (o1 @ c)"
    using get_opt_wf [OF assms(1,3,2)] by blast
  have wf2: "wf_opt o2" and mb: "mbufs t = []"
    using opt_wf [OF assms(6,3)] opt_shape [OF assms(6)] assms(5) by (auto simp: same_shape_def wire_def)
  have len: "(o1 @ c) ! 1 = o1 ! 1" "unat (o1 ! 1) = length o1" "uint (o1 ! 1) = int (length o1)"
      "\<not> LCP_OPT_MAXSIZE < unat (o1 ! 1)" "\<not> l \<le> int (length pre)"
  proof -
    have w: "length o1 = unat (o1 ! 1)" "2 \<le> length o1" "length o1 \<le> LCP_OPT_MAXSIZE"
      using assms(3) unfolding wf_opt_def by blast+
    show "(o1 @ c) ! 1 = o1 ! 1" using w(2) by (simp add: nth_append)
    show "unat (o1 ! 1) = length o1" "uint (o1 ! 1) = int (length o1)" by (simp_all only: w(1) uint_nat)
    show "\<not> LCP_OPT_MAXSIZE < unat (o1 ! 1)" using w(1,3) by linarith
    show "\<not> l \<le> int (length pre)" using assms(2) w(2) by simp
  qed
  have opt: "ft_opt E f (o1 @ c) s = (r, o2 @ c, t)"
    using opt_append [OF assms(3), of E f c s] assms(6) by simp
  let ?m = "if r = OPT_REJ \<and> nk \<noteq> 0 then None else m0"
  have "begun ?m" using assms(4) by (simp add: begun_def)
  then have add: "\<exists>m. ppp_addopt ?m (o2 @ c) t = Some (Some m, t) \<and> begun (Some m) \<and> m_bytes m = mo_bytes ?m @ o2"
    if "fits (length (mo_bytes m0) + length o2)"
    by (rule addopt_wf [OF _ mb wf2]) (use that in \<open>simp add: fits_def mo_bytes_def\<close>)
  have rn: "OPT_REJ \<noteq> OPT_NAK" "OPT_REJ \<noteq> OPT_OK" "OPT_NAK \<noteq> OPT_OK"
    by (simp_all add: OPT_REJ_def OPT_NAK_def OPT_OK_def)
  let ?off = "int (length (pre @ o1))"
  have turn: "opt_turn E f b l (int (length pre), buf, m0, rj, nk, s) =
      (if r = OPT_OK then Inl (?off, o2 @ c, m0, rj, nk, t) else opt_back r (?off, o2 @ c, m0, rj, nk, t))"
    unfolding opt_turn_def Let_def prod.case c option.case opt len(1) using len(3-5) assms(7) by simp
  show ?thesis
  proof (cases "r = OPT_OK")
    case True
    with turn assms(4,8) show ?thesis by (auto simp: mo_bytes_def)
  next
    case False
    with assms(9) obtain m where
      m: "ppp_addopt ?m (o2 @ c) t = Some (Some m, t)" "begun (Some m)" "m_bytes m = mo_bytes ?m @ o2"
      using add by (auto simp: refused_def)
    have "opt_back r (?off, o2 @ c, m0, rj, nk, t) = Inl (?off, o2 @ c, Some m, rj', nk', t)"
      using m(1) assms(8) rn False unfolding opt_back_def Let_def
      by (cases "r = OPT_REJ"; cases "r = OPT_NAK") (simp_all split: if_splits)
    moreover have "mo_bytes (Some m) = q"
      using m(3) assms(8) rn False
      by (cases "r = OPT_REJ"; cases "r = OPT_NAK") (auto simp: mo_bytes_def split: if_splits)
    ultimately show ?thesis using turn False m(2) by auto
  qed
qed

lemma run_opts:
  assumes "\<forall>o1\<in>set os. wf_opt o1" and "begun m0" and "mbufs s = []" and "verdicts E f os s = (vs, u)"
    and "\<forall>v\<in>set vs. fst v \<noteq> OPT_FATAL" and "b = pre @ concat os @ pad"
    and "l = int (length pre + length (concat os))" and "length os < n"
    and "sent_back vs (mo_bytes m0, rj, nk) = (q, rj', nk')" and "fits (length (mo_bytes m0) + length (refused vs))"
  shows "\<exists>m0'. run_fuel (opt_turn E f b l) n (int (length pre), buf, m0, rj, nk, s)
      = Some (Some (Inr (m0', rj', nk', u))) \<and> begun m0' \<and> mo_bytes m0' = q
      \<and> (m0' = None \<longrightarrow> m0 = None \<and> rj' = rj \<and> nk' = nk)"
  using assms
proof (induction os arbitrary: pre buf m0 rj nk s vs n)
  case Nil
  then obtain k where "n = Suc k" by (cases n) auto
  with Nil show ?case by (simp add: opt_turn_def)
next
  case (Cons o1 os)
  from Cons.prems(8) obtain k where n: "n = Suc k" and k: "length os < k" by (cases n) auto
  obtain r o2 t where o2: "ft_opt E f o1 s = (r, o2, t)" by (cases "ft_opt E f o1 s")
  then obtain ws where ws: "verdicts E f os t = (ws, u)" and vs: "vs = (r, o2) # ws"
    using Cons.prems(4) by (auto split: prod.splits)
  obtain q1 rj1 nk1 where q1: "sent_back [(r, o2)] (mo_bytes m0, rj, nk) = (q1, rj1, nk1)"
    by (cases "sent_back [(r, o2)] (mo_bytes m0, rj, nk)")
  have q: "sent_back ws (q1, rj1, nk1) = (q, rj', nk')" using Cons.prems(9) q1 vs by simp
  have b: "b = pre @ o1 @ concat os @ pad" and l: "l = int (length pre + length o1 + length (concat os))"
    using Cons.prems(6,7) by simp_all
  have wf: "wf_opt o1" "r \<noteq> OPT_FATAL" using Cons.prems(1,5) vs by simp_all
  have fit1: "fits (length (mo_bytes m0) + length (refused [(r, o2)]))"
    using Cons.prems(10) vs by (simp add: fits_def split: if_splits)
  obtain buf1 m1 where turn: "opt_turn E f b l (int (length pre), buf, m0, rj, nk, s)
      = Inl (int (length (pre @ o1)), buf1, m1, rj1, nk1, t)" and m1: "begun m1" "mo_bytes m1 = q1"
      "m1 = None \<longrightarrow> m0 = None \<and> rj1 = rj \<and> nk1 = nk"
    using opt_turn_wf [OF b l wf(1) Cons.prems(2,3) o2 wf(2) q1 fit1] by blast
  have mb: "mbufs t = []" using opt_shape [OF o2] Cons.prems(3) by (simp add: same_shape_def wire_def)
  have ihp: "\<forall>o1\<in>set os. wf_opt o1" "\<forall>v\<in>set ws. fst v \<noteq> OPT_FATAL" "b = (pre @ o1) @ concat os @ pad"
      "l = int (length (pre @ o1) + length (concat os))" "sent_back ws (mo_bytes m1, rj1, nk1) = (q, rj', nk')"
    using Cons.prems(1,5) vs b l q m1 by simp_all
  have "length q1 \<le> length (mo_bytes m0) + length (refused [(r, o2)])"
    using sent_back_refused [of r o2 "mo_bytes m0" rj nk] q1 by simp
  then have fit: "fits (length (mo_bytes m1) + length (refused ws))"
    using Cons.prems(10) vs m1(2) by (simp add: fits_def split: if_splits)
  from Cons.IH [OF ihp(1) m1(1) mb ws ihp(2,3,4) k ihp(5) fit, of buf1] turn n m1(3) show ?case
    by (simp only: run_fuel.simps sum.case) blast
qed

lemma wf_opt_2: "wf_opt o1 \<Longrightarrow> 2 \<le> length o1"
  by (simp add: wf_opt_def)

lemma wf_opts_length: "\<forall>o1\<in>set os. wf_opt o1 \<Longrightarrow> length os \<le> length (concat os)"
  by (induction os) (auto dest!: wf_opt_2)

lemma opt_loop_wf:
  assumes "\<forall>o1\<in>set os. wf_opt o1" and "mbufs s = []" and "verdicts E f os s = (vs, u)"
    and "\<forall>v\<in>set vs. fst v \<noteq> OPT_FATAL" and "sent_back vs ([], 0, 0) = (q, rj, nk)"
    and "fits (length (refused vs))"
  shows "\<exists>m0. opt_loop E f (concat os @ pad) (int (length (concat os))) s = Some (Some (Inr (m0, rj, nk, u)))
      \<and> begun m0 \<and> mo_bytes m0 = q \<and> (m0 = None \<longrightarrow> rj = 0 \<and> nk = 0)"
proof -
  have bg: "begun None" "mo_bytes None = []" by (simp_all add: begun_def mo_bytes_def)
  have k: "length os < Suc (nat (int (length (concat os))))" using wf_opts_length [OF assms(1)] by simp
  from run_opts [OF assms(1) bg(1) assms(2,3,4), of "concat os @ pad" "[]" pad _ _ 0 0, OF _ _ k]
    assms(5,6) bg(2) show ?thesis unfolding opt_loop_def by simp
qed

section \<open>The answer to a Configure-Request\<close>

text \<open>The answer by the verdicts: its code, its options and the state that follows.\<close>

definition answer :: "(int \<times> ppp_option) list \<Rightarrow> u8 list \<Rightarrow> u8 \<times> u8 list \<times> cpstate" where
  "answer vs req = (case sent_back vs ([], 0, 0) of (q, rj, nk) \<Rightarrow>
     if rj \<noteq> 0 then (CP_CONF_REJ, q, CP_REQSENT)
     else if nk \<noteq> 0 then (CP_CONF_NAK, q, CP_REQSENT)
     else (CP_CONF_ACK, req, CP_ACKSENT))"

lemma length_header [simp]: "length (cp_header ty code cid n) = 8"
  by (simp add: cp_header_def)

lemma prepend_bytes:
  assumes "mbufs s = []" and "m_pktlen m = int (length (m_bytes m))" and "m_segs m \<noteq> []"
  shows "\<exists>m'. ppp_cp_prepend (Some m) ty code cid [] s = Some (Some m', s)
    \<and> m_bytes m' = cp_header ty code cid (int (length (m_bytes m)) + 8) @ m_bytes m"
proof -
  have "h @ concat (m_segs m) = (h @ hd (m_segs m)) @ concat (tl (m_segs m))" for h
    using assms(3) by (cases "m_segs m") simp_all
  then show ?thesis using assms by (simp add: ppp_cp_prepend_def M_PREPEND_def mget_full)
qed

lemma isnd_put_busy: "if_oactive s \<Longrightarrow> p2p_isnd (isnd_put E n m s) = p2p_isnd s @ [m_bytes m]"
  by (simp add: isnd_put_def if_start_def)

lemma sendout_busy:
  "if_oactive s \<Longrightarrow> \<not> IF_QFULL2 s \<Longrightarrow> p2p_isnd (sendout E (Some m) s) = p2p_isnd s @ [m_bytes m]"
  by (simp add: sendout_def isnd_send_def isnd_put_busy)

lemma newstate_wire [simp]: "p2p_isnd (newstate f st s) = p2p_isnd s" "if_oactive (newstate f st s) = if_oactive s"
    "IF_QFULL2 (newstate f st s) = IF_QFULL2 s"
  by (cases f; simp add: newstate_def set_fs.simps IF_QFULL2_def)+

lemma conf_back_sends:
  assumes "mbufs s = []" and "begun m0" and "m0 \<noteq> None" and "if_oactive s" and "\<not> IF_QFULL2 s"
    and "cpst f s \<noteq> CP_ACKRCVD"
  shows "\<exists>t. conf_back E f code cid m0 s = Some t \<and> cpst f t = CP_REQSENT
    \<and> p2p_isnd t = p2p_isnd s @ [cp_header (ft_type f) code cid (int (length (mo_bytes m0)) + 8) @ mo_bytes m0]"
proof -
  obtain m where m: "m0 = Some m" using assms(3) by blast
  with assms(2) have "m_pktlen m = int (length (m_bytes m))" "m_segs m \<noteq> []" by (auto simp: begun_def)
  from prepend_bytes [OF assms(1) this, of "ft_type f" code cid] m assms(4-6) show ?thesis
    by (auto simp: conf_back_def mo_bytes_def sendout_busy)
qed

lemma conf_ack_back_sends:
  assumes "mbufs s = []" and "m_pktlen m = int (length (m_bytes m))" and "m_segs m \<noteq> []"
    and "if_oactive s" and "\<not> IF_QFULL2 s" and "cpst f s \<noteq> CP_ACKRCVD"
  shows "\<exists>t. conf_ack_back E f cid m s = Some t \<and> cpst f t = CP_ACKSENT
    \<and> p2p_isnd t = p2p_isnd s @ [cp_header (ft_type f) CP_CONF_ACK cid (int (length (m_bytes m)) + 8) @ m_bytes m]"
  using prepend_bytes [OF assms(1-3), of "ft_type f" CP_CONF_ACK cid] assms(4-6)
  by (auto simp: conf_ack_back_def isnd_put_busy Let_def)

lemma conf_parse_sends:
  assumes "\<forall>o1\<in>set os. wf_opt o1" and "mbufs s = []" and "verdicts E f os s = (vs, u)"
    and "\<forall>v\<in>set vs. fst v \<noteq> OPT_FATAL" and "m_segs m = [concat os]" and "m_pktlen m = int (length (concat os))"
    and "if_oactive s" and "\<not> IF_QFULL2 s" and "cpst f s \<noteq> CP_ACKRCVD"
    and "answer vs (concat os) = (code, q, st)" and "fits (length (refused vs))"
  shows "\<exists>t. conf_parse E f cid m (int (length (concat os))) s = Some t \<and> cpst f t = st
    \<and> p2p_isnd t = p2p_isnd s @ [cp_header (ft_type f) code cid (int (length q) + 8) @ q]"
proof -
  obtain p rj nk where sb: "sent_back vs ([], 0, 0) = (p, rj, nk)" by (cases "sent_back vs ([], 0, 0)")
  obtain m0 where loop: "opt_loop E f (m_bytes m) (int (length (concat os))) s = Some (Some (Inr (m0, rj, nk, u)))"
    and m0: "begun m0" "mo_bytes m0 = p" "m0 = None \<longrightarrow> rj = 0 \<and> nk = 0"
    using opt_loop_wf [OF assms(1-4) sb assms(11), of "[]"] assms(5) by auto
  have u: "mbufs u = []" "if_oactive u" "\<not> IF_QFULL2 u" "cpst f u \<noteq> CP_ACKRCVD" "p2p_isnd u = p2p_isnd s"
    using wire_verdicts [OF assms(3)] fs_verdicts [OF assms(3), of f] assms(2,7,8,9)
    by (simp_all add: wire_def IF_QFULL2_def)
  have m: "m_pktlen m = int (length (m_bytes m))" "m_segs m \<noteq> []" using assms(5,6) by simp_all
  show ?thesis
  proof (cases "rj \<noteq> 0 \<or> nk \<noteq> 0")
    case True
    then have "m0 \<noteq> None" using m0(3) by blast
    from conf_back_sends [OF u(1) m0(1) this u(2-4), of E code cid] True loop m0(2) sb assms(10) u(5)
    show ?thesis by (auto simp: conf_parse_def answer_def split: if_splits)
  next
    case False
    from conf_ack_back_sends [OF u(1) m u(2-4), of E cid] False loop sb assms(5,10) u(5)
    show ?thesis by (simp add: conf_parse_def answer_def)
  qed
qed

lemma uint_of_nat16: "n < 65536 \<Longrightarrow> uint (of_nat n :: u16) = int n"
  by (simp add: unsigned_of_nat take_bit_nat_eq_self uint_nat)

text \<open>A Configure-Request with the given options, as it reaches \<open>ppp_cp_in\<close>.\<close>

definition conf_req :: "u8 \<Rightarrow> ppp_option list \<Rightarrow> u8 list" where
  "conf_req cid os = [CP_CONF_REQ, cid] @ be16 (of_nat (4 + length (concat os))) @ concat os"

text \<open>
  Property C14. A Configure-Request made of well-formed options, in one mbuf, received in the state Req-Sent
  or Ack-Sent, with mbufs available, the driver busy and room in the queue, no option getting the fatal
  verdict, and fewer than 92 bytes of options that are not accepted (so that they fit the first mbuf of the
  answer), is answered by exactly one packet with the request's identifier: a Configure-Ack with the same
  options when every verdict is good, and then the state is Ack-Sent; otherwise a Configure-Reject if
  there is a rejected option, or else a Configure-Nak, with the options the specification keeps, and the
  state is Req-Sent.
\<close>

theorem conf_req_answered:
  assumes "\<forall>o1\<in>set os. wf_opt o1" and "length (concat os) < 65532"
    and "verdicts E f os s = (vs, u)" and "\<forall>v\<in>set vs. fst v \<noteq> OPT_FATAL"
    and "length (refused vs) < 92"
    and "cpst f s \<in> {CP_REQSENT, CP_ACKSENT}" and "mbufs s = []" and "if_oactive s" and "\<not> IF_QFULL2 s"
    and "m_segs m = [conf_req cid os]" and "m_pktlen m = int (length (conf_req cid os))"
  shows "\<exists>t. ppp_cp_in E m (ft_type f) s = Some t
    \<and> (case answer vs (concat os) of (code, q, st) \<Rightarrow> cpst f t = st
        \<and> p2p_isnd t = p2p_isnd s @ [cp_header (ft_type f) code cid (int (length q) + 8) @ q])"
proof -
  obtain code q st where a: "answer vs (concat os) = (code, q, st)" by (cases "answer vs (concat os)")
  let ?h = "conf_req cid os"
  have h: "length ?h = 4 + length (concat os)" "?h ! 0 = CP_CONF_REQ" "?h ! 1 = cid" "drop 4 ?h = concat os"
    by (simp_all add: conf_req_def be16_def)
  have l: "uint (rd16 ?h 2) = 4 + int (length (concat os))"
    using rd16_be16 [of "[CP_CONF_REQ, cid]" "of_nat (4 + length (concat os))" "concat os"] assms(2)
      uint_of_nat16 [of "4 + length (concat os)"] by (simp add: conf_req_def numeral_2_eq_2)
  have strip: "m_segs (m_strip 4 m) = [concat os]" "m_pktlen (m_strip 4 m) = int (length (concat os))"
    using assms(10,11) h by (simp_all add: m_strip_def)
  have ne: "cpst f s \<noteq> CP_ACKRCVD" using assms(6) by auto
  have fit: "fits (length (refused vs))" using assms(5) by (simp add: fits_def MLEN_def)
  obtain t where t: "conf_parse E f cid (m_strip 4 m) (int (length (concat os))) s = Some t" "cpst f t = st"
      "p2p_isnd t = p2p_isnd s @ [cp_header (ft_type f) code cid (int (length q) + 8) @ q]"
    using conf_parse_sends [OF assms(1,7,3,4) strip assms(8,9) ne a fit] by blast
  have "cp_in_known E f m s = cp_dispatch E f m (int (length (concat os))) s"
    using assms(6,10,11) h l by (auto simp: cp_in_known_def)
  also have "\<dots> = Some t"
    using assms(6,10) h t(1) unfolding cp_dispatch_def Let_def cp_conf_req_def by auto
  finally have "ppp_cp_in E m (ft_type f) s = Some t"
    by (cases f) (simp_all add: ppp_cp_in_def PPP_LCP_def PPP_IPCP_def)
  with t a show ?thesis by simp
qed

theorem conf_req_answered_witness:
  "let s = link0\<lparr>ppp_lcp := fsm0\<lparr>fsm_state := CP_REQSENT\<rparr>\<rparr>; os = [[1, 4, 5, 220], [3, 4, 0xc0, 0x23]] in
   \<exists>t. ppp_cp_in env0 (pkt (conf_req 9 os)) (ft_type FSM_LCP) s = Some t \<and> cpst FSM_LCP t = CP_REQSENT
     \<and> p2p_isnd t = [[0xff, 3, 0xc0, 0x21, 4, 9, 0, 8, 3, 4, 0xc0, 0x23]]"
proof -
  let ?s = "link0\<lparr>ppp_lcp := fsm0\<lparr>fsm_state := CP_REQSENT\<rparr>\<rparr>"
  let ?os = "[[1, 4, 5, 220], [3, 4, 0xc0, 0x23]] :: ppp_option list"
  have wf: "\<forall>o1\<in>set ?os. wf_opt o1" by (simp add: wf_opt_def LCP_OPT_MAXSIZE_def)
  obtain vs u where v: "verdicts env0 FSM_LCP ?os ?s = (vs, u)" by (cases "verdicts env0 FSM_LCP ?os ?s")
  have "fst (verdicts env0 FSM_LCP ?os ?s) = [(OPT_OK, [1, 4, 5, 220]), (OPT_REJ, [3, 4, 0xc0, 0x23])]"
    by code_simp
  then have vs: "vs = [(OPT_OK, [1, 4, 5, 220]), (OPT_REJ, [3, 4, 0xc0, 0x23])]" using v by simp
  have nf: "\<forall>v\<in>set vs. fst v \<noteq> OPT_FATAL" by (simp add: vs OPT_OK_def OPT_REJ_def OPT_FATAL_def)
  have st: "cpst FSM_LCP ?s \<in> {CP_REQSENT, CP_ACKSENT}" "mbufs ?s = []" "if_oactive ?s" "\<not> IF_QFULL2 ?s"
    by (simp_all add: fs.simps link0_def fsm0_def IF_QFULL2_def)
  have a: "answer vs (concat ?os) = (CP_CONF_REJ, [3, 4, 0xc0, 0x23], CP_REQSENT)"
    by (simp add: vs answer_def OPT_OK_def OPT_REJ_def)
  have h: "cp_header (ft_type FSM_LCP) CP_CONF_REJ 9 (int 4 + 8) = [0xff, 3, 0xc0, 0x21, 4, 9, 0, 8]"
    by code_simp
  have p: "m_segs (pkt (conf_req 9 ?os)) = [conf_req 9 ?os]"
      "m_pktlen (pkt (conf_req 9 ?os)) = int (length (conf_req 9 ?os))"
    by (simp_all add: pkt_def)
  have "length (concat ?os) < 65532" "length (refused vs) < 92" by (simp_all add: vs OPT_OK_def OPT_REJ_def)
  from conf_req_answered [OF wf this(1) v nf this(2) st p] a h show ?thesis by (simp add: link0_def)
qed

text \<open>
  A Reject is to carry the rejected options alone. A nak-ed option after a rejected one is put into the
  same packet, and a rejected one before a nak-ed and another rejected one is lost.
\<close>

lemma reject_mixes_naks:
  "answer [(OPT_REJ, a), (OPT_NAK, b)] req = (CP_CONF_REJ, a @ b, CP_REQSENT)"
  "answer [(OPT_REJ, a), (OPT_NAK, b), (OPT_REJ, c)] req = (CP_CONF_REJ, c, CP_REQSENT)"
  by (simp_all add: answer_def OPT_REJ_def OPT_NAK_def OPT_OK_def)

section \<open>Suggested values\<close>

lemma poke_take_drop: "i + length xs \<le> length b \<Longrightarrow> poke b i xs = take i b @ xs @ drop (i + length xs) b"
proof (induction b i xs rule: poke.induct)
  case (2 b i x xs)
  then show ?case by (simp add: upd_conv_take_nth_drop take_Suc_conv_app_nth drop_update_cancel add.commute)
qed simp

lemma rd16_poke: "i + 2 \<le> length b \<Longrightarrow> rd16 (poke b i (be16 w)) i = w"
  using rd16_be16 [of "take i b" w "drop (i + 2) b"] by (simp add: poke_take_drop)

lemma rd32_be32: "rd32 (a @ be32 w @ c) (length a) = w"
proof -
  have "push_bit 24 (ucast (ucast (drop_bit 24 w) :: u8)) OR push_bit 16 (ucast (ucast (drop_bit 16 w) :: u8))
      OR push_bit 8 (ucast (ucast (drop_bit 8 w) :: u8)) OR ucast (ucast w :: u8) = w"
  proof (rule bit_word_eqI)
    fix n assume "n < LENGTH(32)"
    consider "n < 8" | "8 \<le> n" "n < 16" | "16 \<le> n" "n < 24" | "24 \<le> n" by linarith
    then show "bit (push_bit 24 (ucast (ucast (drop_bit 24 w) :: u8)) OR push_bit 16 (ucast (ucast (drop_bit 16 w) :: u8))
      OR push_bit 8 (ucast (ucast (drop_bit 8 w) :: u8)) OR ucast (ucast w :: u8) :: u32) n = bit w n"
      using \<open>n < LENGTH(32)\<close> by cases (auto simp: bit_simps)
  qed
  then show ?thesis by (simp add: rd32_def be32_def nth_append)
qed

lemma rd32_poke: "i + 4 \<le> length b \<Longrightarrow> rd32 (poke b i (be32 w)) i = w"
  using rd32_be32 [of "take i b" w "drop (i + 4) b"] by (simp add: poke_take_drop)

text \<open>
  A peer that takes over the value suggested by a Nak of ours gets it accepted, whatever the option;
  \<open>e_noret\<close> stands for the missing value of an accepted \<open>LCP_PFC\<close>. The magic number is the exception:
  the Nak suggests our own new number, so the next request looks looped again.
\<close>

lemma lcp_nak_converges:
  assumes "wf_opt o1" and "ppp_lcp_opt E o1 s = (OPT_NAK, o2, t)" and "po_type o1 \<noteq> LCP_MAGIC"
    and "e_noret E \<noteq> OPT_NAK"
  shows "fst (ppp_lcp_opt E o2 t) = OPT_OK"
proof -
  have codes: "OPT_NAK \<noteq> OPT_OK" "OPT_NAK \<noteq> OPT_REJ" by (simp_all add: OPT_NAK_def OPT_OK_def OPT_REJ_def)
  have mask: "NOT (a OR c) AND c = (0 :: u32)" for a c
    by (rule bit_word_eqI) (auto simp: bit_simps)
  consider (mru) "po_type o1 = LCP_MRU" | (accm) "po_type o1 = LCP_ACCM"
    using assms(2-4) codes by (auto simp: ppp_lcp_opt_def Let_def split: if_splits)
  then show ?thesis
  proof cases
    case mru
    then have len: "po_len o1 = 4" and o2: "o2 = poke o1 2 (be16 LCP_MIN_RMU)"
      using assms(2) codes by (auto simp: ppp_lcp_opt_def Let_def split: if_splits)
    from len assms(1) have "length o1 = 4" by (simp add: wf_opt_def)
    then show ?thesis using mru len o2
      by (simp add: ppp_lcp_opt_def Let_def poke_nth rd16_poke LCP_MIN_RMU_def)
  next
    case accm
    then have len: "po_len o1 = 6" and o2: "o2 = poke o1 2 (be32 (po_l o1 OR ppp_cmap (ppp_params s)))" and t: "t = s"
      using assms(2) codes by (auto simp: ppp_lcp_opt_def Let_def opt_labels split: if_splits)
    from len assms(1) have "length o1 = 6" by (simp add: wf_opt_def)
    then show ?thesis using accm len o2 t mask
      by (simp add: ppp_lcp_opt_def Let_def poke_nth rd32_poke LCP_ACCM_def LCP_MRU_def)
  qed
qed

lemma lcp_magic_nak_repeats:
  assumes "wf_opt o1" and "ppp_lcp_opt E o1 s = (OPT_NAK, o2, t)" and "po_type o1 = LCP_MAGIC"
  shows "fst (ppp_lcp_opt E o2 t) \<in> {OPT_NAK, OPT_FATAL}"
proof -
  have codes: "OPT_NAK \<noteq> OPT_OK" "OPT_NAK \<noteq> OPT_REJ" "OPT_NAK \<noteq> OPT_FATAL"
    by (simp_all add: OPT_NAK_def OPT_OK_def OPT_REJ_def OPT_FATAL_def)
  have len: "po_len o1 = 6" and o2: "o2 = poke o1 2 (be32 (ppp_lcp_magic E))" and t: "ppp_magic t = ppp_lcp_magic E"
    using assms(2,3) codes by (auto simp: ppp_lcp_opt_def Let_def opt_labels split: if_splits)
  from len assms(1) have "length o1 = 6" by (simp add: wf_opt_def)
  then show ?thesis using assms(3) len o2 t
    by (simp add: ppp_lcp_opt_def Let_def poke_nth rd32_poke opt_labels)
qed

section \<open>Options that are not well formed\<close>

lemma get_opt_two:
  assumes "0 \<le> off" and "off + 2 \<le> l" and "l \<le> int (length b)"
  shows "\<exists>o1. get_opt b l off buf = Some o1 \<and> o1 ! 0 = b ! nat off \<and> o1 ! 1 = b ! (nat off + 1)"
proof -
  let ?ol = "nat (min (int LCP_OPT_MAXSIZE) (l - off))"
  have ol: "2 \<le> ?ol" "nat off + ?ol \<le> length b"
    using assms by (auto simp: LCP_OPT_MAXSIZE_def min_def)
  then show ?thesis using assms(1) unfolding get_opt_def Let_def by (auto simp: nth_append)
qed

lemma lcp_opt_zero: "po_len o1 = 0 \<Longrightarrow> ppp_lcp_opt E o1 s = (OPT_REJ, o1, s)"
  by (simp add: ppp_lcp_opt_def)

lemma opt_turn_zero:
  assumes "0 \<le> off" and "off + 2 \<le> l" and "l \<le> int (length b)" and "b ! (nat off + 1) = 0"
    and "begun m0" and "mbufs s = []" and "fits (length (mo_bytes m0))"
  shows "\<exists>o1 m1 rj1 nk1. opt_turn E FSM_LCP b l (off, buf, m0, rj, nk, s) = Inl (off, o1, m1, rj1, nk1, s)
    \<and> begun m1 \<and> fits (length (mo_bytes m1))"
proof -
  obtain o1 where o1: "get_opt b l off buf = Some o1" "o1 ! 1 = 0"
    using get_opt_two [OF assms(1-3)] assms(4) by auto
  let ?m = "if nk \<noteq> 0 then None else m0"
  have "begun ?m" "fits (length (mo_bytes ?m))" using assms(5,7) by (simp_all add: begun_def mo_bytes_def fits_def)
  with addopt_begun [of ?m s o1] o1(2) assms(6) obtain m where
    m: "ppp_addopt ?m o1 s = Some (Some m, s)" "begun (Some m)" "m_bytes m = mo_bytes ?m" by auto
  have "opt_turn E FSM_LCP b l (off, buf, m0, rj, nk, s) = Inl (off, o1, Some m, rj + 1, nk, s)"
    using o1 m(1) assms(1,2) unfolding opt_turn_def opt_back_def Let_def
    by (simp add: lcp_opt_zero OPT_REJ_def OPT_OK_def OPT_FATAL_def LCP_OPT_MAXSIZE_def)
  moreover have "fits (length (mo_bytes (Some m)))" using m(3) \<open>fits (length (mo_bytes ?m))\<close> by (simp add: mo_bytes_def)
  ultimately show ?thesis using m(2) by blast
qed

lemma nakrej_turn_zero:
  assumes "0 \<le> off" and "off + 2 \<le> l" and "l \<le> int (length b)" and "b ! (nat off + 1) = 0"
  shows "\<exists>o1 t. nakrej_turn E FSM_LCP rej b l (off, buf, s) = Inl (off, o1, t)"
  using get_opt_two [OF assms(1-3), of buf] assms
  by (auto simp: nakrej_turn_def Let_def)

lemma zero_option_nakrej:
  assumes "0 \<le> off" and "off + 2 \<le> l" and "l \<le> int (length b)" and "b ! (nat off + 1) = 0"
  shows "run_fuel (nakrej_turn E FSM_LCP rej b l) n (off, buf, s) = None"
  by (rule run_fuel_stuck [where P = "\<lambda>st. fst st = off"])
    (use nakrej_turn_zero [OF assms] in \<open>auto simp: split_paired_all\<close>)

text \<open>
  The states of the loop over a request in which some options, then one of length 0, are still to come.
\<close>

definition before_zero :: "env \<Rightarrow> u8 list \<Rightarrow> optloop \<Rightarrow> bool" where
  "before_zero E b st = (case st of (off, buf, m0, rj, nk, s) \<Rightarrow>
     begun m0 \<and> mbufs s = [] \<and> (\<exists>pre os ty rest vs u. b = pre @ concat os @ ty # 0 # rest \<and> off = int (length pre) \<and>
       (\<forall>o1\<in>set os. wf_opt o1) \<and> verdicts E FSM_LCP os s = (vs, u) \<and> (\<forall>v\<in>set vs. fst v \<noteq> OPT_FATAL) \<and>
       fits (length (mo_bytes m0) + length (refused vs))))"

lemma before_zeroI:
  "b = pre @ concat os @ ty # 0 # rest \<Longrightarrow> \<forall>o1\<in>set os. wf_opt o1 \<Longrightarrow> verdicts E FSM_LCP os s = (vs, u) \<Longrightarrow>
   \<forall>v\<in>set vs. fst v \<noteq> OPT_FATAL \<Longrightarrow> begun m0 \<Longrightarrow> mbufs s = [] \<Longrightarrow> fits (length (mo_bytes m0) + length (refused vs)) \<Longrightarrow>
   before_zero E b (int (length pre), buf, m0, rj, nk, s)"
  unfolding before_zero_def by auto

lemma before_zero_step:
  assumes "before_zero E b st"
  shows "\<exists>st'. opt_turn E FSM_LCP b (int (length b)) st = Inl st' \<and> before_zero E b st'"
proof -
  obtain off buf m0 rj nk s where st: "st = (off, buf, m0, rj, nk, s)" by (cases st)
  with assms obtain pre os ty rest vs u where b: "b = pre @ concat os @ ty # 0 # rest" and off: "off = int (length pre)"
    and wf: "\<forall>o1\<in>set os. wf_opt o1" and v: "verdicts E FSM_LCP os s = (vs, u)" "\<forall>v\<in>set vs. fst v \<noteq> OPT_FATAL"
    and m0: "begun m0" "mbufs s = []" "fits (length (mo_bytes m0) + length (refused vs))"
    unfolding before_zero_def by auto
  show ?thesis
  proof (cases os)
    case Nil
    have "b ! (nat off + 1) = 0" using b off Nil by (simp add: nth_append)
    with opt_turn_zero [of off "int (length b)" b m0 s E buf rj nk] b off Nil m0 v obtain o1 m1 rj1 nk1 where
      "opt_turn E FSM_LCP b (int (length b)) st = Inl (off, o1, m1, rj1, nk1, s)" "begun m1" "fits (length (mo_bytes m1))"
      unfolding st by auto
    moreover from this have "before_zero E b (off, o1, m1, rj1, nk1, s)"
      unfolding off using b Nil m0(2) by (intro before_zeroI [of _ pre "[]" ty rest _ s "[]" s]) simp_all
    ultimately show ?thesis by blast
  next
    case (Cons o1 os')
    obtain r o2 t where o2: "ft_opt E FSM_LCP o1 s = (r, o2, t)" by (cases "ft_opt E FSM_LCP o1 s")
    then obtain ws where ws: "verdicts E FSM_LCP os' t = (ws, u)" "vs = (r, o2) # ws"
      using v(1) Cons by (auto split: prod.splits)
    obtain q rj1 nk1 where q: "sent_back [(r, o2)] (mo_bytes m0, rj, nk) = (q, rj1, nk1)"
      by (cases "sent_back [(r, o2)] (mo_bytes m0, rj, nk)")
    have ihp: "b = pre @ o1 @ (concat os' @ ty # 0 # rest) @ []" "wf_opt o1" "r \<noteq> OPT_FATAL"
      "int (length b) = int (length pre + length o1 + length (concat os' @ ty # 0 # rest))"
      "fits (length (mo_bytes m0) + length (refused [(r, o2)]))"
      using b Cons wf v(2) ws(2) m0(3) by (simp_all add: fits_def split: if_splits)
    obtain buf1 m1 where turn: "opt_turn E FSM_LCP b (int (length b)) (int (length pre), buf, m0, rj, nk, s)
        = Inl (int (length (pre @ o1)), buf1, m1, rj1, nk1, t)" and m1: "begun m1" "mo_bytes m1 = q"
      using opt_turn_wf [OF ihp(1,4,2) m0(1,2) o2 ihp(3) q ihp(5)] by blast
    have "mbufs t = []" using opt_shape [OF o2] m0(2) by (simp add: same_shape_def wire_def)
    moreover have "length q \<le> length (mo_bytes m0) + length (refused [(r, o2)])"
      using sent_back_refused [of r o2 "mo_bytes m0" rj nk] q by simp
    then have "fits (length (mo_bytes m1) + length (refused ws))"
      using m0(3) ws(2) m1(2) by (simp add: fits_def split: if_splits)
    ultimately have "before_zero E b (int (length (pre @ o1)), buf1, m1, rj1, nk1, t)"
      using b Cons wf v(2) ws m1(1) by (intro before_zeroI [of _ "pre @ o1" os' ty rest _ t ws u]) simp_all
    with turn st off show ?thesis by blast
  qed
qed

text \<open>
  Property C40. A Configure-Request to LCP, in Req-Sent, Ack-Rcvd or Ack-Sent and with mbufs available,
  whose options are some well-formed ones (none with the fatal verdict, fewer than 92 bytes of them not
  accepted) and then one of length 0, stops the kernel: the loop over the options never passes the option
  of length 0, so no number of turns ends it, and \<open>ppp_cp_in\<close> does not return.
\<close>

theorem zero_option_hangs:
  assumes "\<forall>o1\<in>set os. wf_opt o1" and "length (concat os) + length rest < 65530"
    and "verdicts E FSM_LCP os s = (vs, u)" and "\<forall>v\<in>set vs. fst v \<noteq> OPT_FATAL" and "length (refused vs) < 92"
    and "cpst FSM_LCP s \<in> {CP_REQSENT, CP_ACKRCVD, CP_ACKSENT}" and "mbufs s = []"
    and "m_segs m = [conf_req cid (os @ [ty # 0 # rest])]"
    and "m_pktlen m = int (length (conf_req cid (os @ [ty # 0 # rest])))"
  shows "(\<forall>n. run_fuel (opt_turn E FSM_LCP (concat os @ ty # 0 # rest) (int (length (concat os @ ty # 0 # rest)))) n
        (0, e_stack E, None, 0, 0, s) = None)
    \<and> ppp_cp_in E m PPP_LCP s = None"
proof -
  let ?b = "concat os @ ty # 0 # rest" and ?h = "conf_req cid (os @ [ty # 0 # rest])"
  have "before_zero E ?b (int (length ([] :: u8 list)), e_stack E, None, 0, 0, s)"
    using assms by (intro before_zeroI [of _ "[]" os ty rest _ s vs u])
      (simp_all add: begun_def mo_bytes_def fits_def MLEN_def)
  then have stuck: "run_fuel (opt_turn E FSM_LCP ?b (int (length ?b))) n (0, e_stack E, None, 0, 0, s) = None" for n
    using run_fuel_stuck [where P = "before_zero E ?b", OF before_zero_step] by simp
  have h: "length ?h = 4 + length ?b" "?h ! 0 = CP_CONF_REQ" "?h ! 1 = cid" "drop 4 ?h = ?b"
    by (simp_all add: conf_req_def be16_def)
  have l: "uint (rd16 ?h 2) = 4 + int (length ?b)"
    using rd16_be16 [of "[CP_CONF_REQ, cid]" "of_nat (4 + length ?b)" ?b] assms(2)
      uint_of_nat16 [of "4 + length ?b"] by (simp add: conf_req_def numeral_2_eq_2)
  have strip: "m_bytes (m_strip 4 m) = ?b" using assms(8) h by (simp add: m_strip_def)
  have "cp_in_known E FSM_LCP m s = cp_dispatch E FSM_LCP m (int (length ?b)) s"
    using assms(6,8,9) h l by (auto simp: cp_in_known_def)
  also have "\<dots> = conf_parse E FSM_LCP cid (m_strip 4 m) (int (length ?b)) s"
    using assms(6,8) h unfolding cp_dispatch_def Let_def cp_conf_req_def by auto
  also have "\<dots> = None" unfolding conf_parse_def opt_loop_def strip stuck by simp
  finally show ?thesis using stuck by (simp add: ppp_cp_in_def)
qed

text \<open>The second option of the packet has length 0.\<close>

theorem zero_option_hangs_witness:
  "ppp_cp_in env0 (pkt [1, 9, 0, 10, 1, 4, 5, 220, 5, 0]) PPP_LCP
     (link0\<lparr>ppp_lcp := fsm0\<lparr>fsm_state := CP_REQSENT\<rparr>\<rparr>) = None"
proof -
  let ?s = "link0\<lparr>ppp_lcp := fsm0\<lparr>fsm_state := CP_REQSENT\<rparr>\<rparr>"
  let ?os = "[[1, 4, 5, 220]] :: ppp_option list" and ?p = "[1, 9, 0, 10, 1, 4, 5, 220, 5, 0] :: u8 list"
  have wf: "\<forall>o1\<in>set ?os. wf_opt o1" by (simp add: wf_opt_def LCP_OPT_MAXSIZE_def)
  obtain vs u where v: "verdicts env0 FSM_LCP ?os ?s = (vs, u)" by (cases "verdicts env0 FSM_LCP ?os ?s")
  have "fst (verdicts env0 FSM_LCP ?os ?s) = [(OPT_OK, [1, 4, 5, 220])]" by code_simp
  then have vs: "vs = [(OPT_OK, [1, 4, 5, 220])]" using v by simp
  have nf: "\<forall>v\<in>set vs. fst v \<noteq> OPT_FATAL" "length (refused vs) < 92"
    by (simp_all add: vs OPT_OK_def OPT_FATAL_def)
  have st: "cpst FSM_LCP ?s \<in> {CP_REQSENT, CP_ACKRCVD, CP_ACKSENT}" "mbufs ?s = []"
    by (simp_all add: fs.simps link0_def fsm0_def)
  have "conf_req 9 (?os @ [5 # 0 # []]) = ?p" by code_simp
  then have p: "m_segs (pkt ?p) = [conf_req 9 (?os @ [5 # 0 # []])]"
      "m_pktlen (pkt ?p) = int (length (conf_req 9 (?os @ [5 # 0 # []])))"
    by (simp_all add: pkt_def)
  have "length (concat ?os) + length ([] :: u8 list) < 65530" by simp
  from zero_option_hangs [OF wf this v nf st p] show ?thesis by blast
qed

text \<open>
  An option that claims more than the buffer is to be rejected, and copying it into the Reject reads
  (and, beyond the size of an mbuf, writes) outside: \<open>ppp_addopt\<close> copies \<open>po_len\<close> bytes.
\<close>

lemma long_option_overrun:
  assumes "0 \<le> off" and "off + 2 \<le> l" and "l \<le> int (length b)" and "34 < unat (b ! (nat off + 1))"
  shows "opt_turn E f b l (off, buf, m0, rj, nk, s) = Inr None"
proof -
  obtain o1 where o1: "get_opt b l off buf = Some o1" "34 < unat (o1 ! 1)"
    using get_opt_two [OF assms(1-3)] assms(4) by metis
  then show ?thesis using assms(1,2)
    by (simp add: opt_turn_def opt_back_def Let_def ppp_addopt_def LCP_OPT_MAXSIZE_def)
qed

text \<open>
  The bound of 92 bytes is the code's: the option that would reach the end of the first mbuf goes to a
  second one, whose length is used before it is set. A request with three unknown options of 34 bytes
  gets there.
\<close>

lemma addopt_uninitialised:
  assumes "begun (Some m)" and "mbufs s = []" and "\<not> fits (length (m_bytes m) + unat (po_len o1))"
  shows "ppp_addopt (Some m) o1 s = None"
proof -
  obtain b where "m_segs m = [b]" using assms(1) by (cases "m_segs m") (auto simp: begun_def)
  with assms show ?thesis
    by (simp add: ppp_addopt_def addopt_seg_def begun_def fits_def Let_def mget_full)
qed

lemma long_reject_faults:
  "let o1 = [20, 34] @ replicate 32 0 in
   ppp_cp_in env0 (pkt (conf_req 9 [o1, o1, o1])) PPP_LCP (link0\<lparr>ppp_lcp := fsm0\<lparr>fsm_state := CP_REQSENT\<rparr>\<rparr>) = None
   \<and> ppp_cp_in env0 (pkt (conf_req 9 [o1, o1])) PPP_LCP (link0\<lparr>ppp_lcp := fsm0\<lparr>fsm_state := CP_REQSENT\<rparr>\<rparr>) \<noteq> None"
  by code_simp

end
