(* ===== verification/Vjc.thy ===== *)
theory Vjc
  imports Prelude
begin

text \<open>
  The TCP/IP header compression of serial lines (\<^verbatim>\<open>sys/net/slcompress.c\<close>, after RFC 1144), without
  its statistics (as with \<^verbatim>\<open>SL_NO_STATS\<close>) and without \<^verbatim>\<open>SL_NOFASTQ\<close>, which the kernel does not define.

  A packet is the record of its IP and TCP header, with the fields in host order, and its data. The
  record stands for the bytes of headers with \<open>ip_hl\<close> and \<open>th_off\<close> of at least five words. A
  compressed packet is a list of bytes. The sixteen states of the transmitter are linked by
  \<open>cs_next\<close>, an index, into a ring in order of use. Copying a header larger than the buffer of a state
  is \<open>None\<close>, and so is decoding into a state whose \<open>ip_hl\<close> is less than five words, where the code's TCP
  header would overlap its IP header. The receivers read their packet through a function from offsets
  to bytes, which is defined beyond its end as well: the code reads first and compares lengths
  afterwards.
\<close>

section \<open>Headers\<close>

record tcpip =
  ip_vhl :: u8
  ip_tos :: u8
  ip_len :: u16
  ip_id :: u16
  ip_off :: u16
  ip_ttl :: u8
  ip_p :: u8
  ip_sum :: u16
  ip_src :: u32
  ip_dst :: u32
  ip_opt :: "u8 list"
  th_ports :: u32
  th_seq :: u32
  th_ack :: u32
  th_offx2 :: u8
  th_flags :: u8
  th_win :: u16
  th_sum :: u16
  th_urp :: u16
  th_opt :: "u8 list"

definition ip_hl :: "tcpip \<Rightarrow> nat" where
  "ip_hl h = unat (ip_vhl h AND 15)"

definition th_off :: "tcpip \<Rightarrow> nat" where
  "th_off h = unat (drop_bit 4 (th_offx2 h))"

definition th_x2 :: "tcpip \<Rightarrow> u8" where
  "th_x2 h = th_offx2 h AND 15"

definition hdr_len :: "tcpip \<Rightarrow> nat" where
  "hdr_len h = 4 * (ip_hl h + th_off h)"

definition TH_FIN :: u8 where "TH_FIN = 0x01"
definition TH_SYN :: u8 where "TH_SYN = 0x02"
definition TH_RST :: u8 where "TH_RST = 0x04"
definition TH_PUSH :: u8 where "TH_PUSH = 0x08"
definition TH_ACK :: u8 where "TH_ACK = 0x10"
definition TH_URG :: u8 where "TH_URG = 0x20"

lemmas th_labels [code_labels] = TH_FIN_def TH_SYN_def TH_RST_def TH_PUSH_def TH_ACK_def TH_URG_def

definition NEW_C :: u8 where "NEW_C = 0x40"
definition NEW_I :: u8 where "NEW_I = 0x20"
definition NEW_S :: u8 where "NEW_S = 0x08"
definition NEW_A :: u8 where "NEW_A = 0x04"
definition NEW_W :: u8 where "NEW_W = 0x02"
definition NEW_U :: u8 where "NEW_U = 0x01"
definition SPECIAL_I :: u8 where "SPECIAL_I = NEW_S OR NEW_W OR NEW_U"
definition SPECIAL_D :: u8 where "SPECIAL_D = NEW_S OR NEW_A OR NEW_W OR NEW_U"
definition SPECIALS_MASK :: u8 where "SPECIALS_MASK = NEW_S OR NEW_A OR NEW_W OR NEW_U"
definition TCP_PUSH_BIT :: u8 where "TCP_PUSH_BIT = 0x10"

lemmas new_labels [code_labels] = NEW_C_def NEW_I_def NEW_S_def NEW_A_def NEW_W_def NEW_U_def
  SPECIAL_I_def SPECIAL_D_def SPECIALS_MASK_def TCP_PUSH_BIT_def

definition SL_STATES :: nat where "SL_STATES = 16"
definition MAX_HDR :: nat where "MAX_HDR = 108"
definition SL_TCP :: u8 where "SL_TCP = 6"

section \<open>States\<close>

record cstate =
  cs_next :: nat
  cs_hlen :: nat
  cs_id :: u8
  cs_ip :: tcpip

record slcompress =
  last_cs :: nat
  last_recv :: u8
  last_xmit :: u8
  slf_toss :: bool
  tstate :: "cstate list"
  rstate :: "cstate list"

definition hdr0 :: tcpip where
  "hdr0 = \<lparr>ip_vhl = 0, ip_tos = 0, ip_len = 0, ip_id = 0, ip_off = 0, ip_ttl = 0, ip_p = 0, ip_sum = 0,
     ip_src = 0, ip_dst = 0, ip_opt = [], th_ports = 0, th_seq = 0, th_ack = 0, th_offx2 = 0, th_flags = 0,
     th_win = 0, th_sum = 0, th_urp = 0, th_opt = []\<rparr>"

definition cstate0 :: cstate where
  "cstate0 = \<lparr>cs_next = 0, cs_hlen = 0, cs_id = 0, cs_ip = hdr0\<rparr>"

definition sl_compress_init :: slcompress where
  "sl_compress_init = \<lparr>last_cs = 0, last_recv = 255, last_xmit = 255, slf_toss = False,
     tstate = map (\<lambda>i. cstate0\<lparr>cs_id := of_nat i, cs_next := (if i = 0 then SL_STATES - 1 else i - 1)\<rparr>)
                [0..<SL_STATES],
     rstate = replicate SL_STATES cstate0\<rparr>"

definition set_tstate :: "nat \<Rightarrow> (cstate \<Rightarrow> cstate) \<Rightarrow> slcompress \<Rightarrow> slcompress" where
  "set_tstate i g c = c\<lparr>tstate := (tstate c)[i := g (tstate c ! i)]\<rparr>"

section \<open>The encoding of changes\<close>

definition hi8 :: "u32 \<Rightarrow> u8" where "hi8 n = ucast (drop_bit 8 n)"
definition lo8 :: "u32 \<Rightarrow> u8" where "lo8 n = ucast n"

definition ENCODE :: "u32 \<Rightarrow> u8 list" where
  "ENCODE n = (if 256 \<le> (ucast n :: u16) then [0, hi8 n, lo8 n] else [lo8 n])"

definition ENCODEZ :: "u32 \<Rightarrow> u8 list" where
  "ENCODEZ n = (if 256 \<le> (ucast n :: u16) \<or> (ucast n :: u16) = 0 then [0, hi8 n, lo8 n] else [lo8 n])"

text \<open>The number at an offset and the offset after it; the three \<open>DECODE\<close> macros use it differently.\<close>

definition decode :: "(nat \<Rightarrow> u8) \<Rightarrow> nat \<Rightarrow> u16 \<times> nat" where
  "decode rd cp = (if rd cp = 0 then (push_bit 8 (ucast (rd (cp + 1))) OR ucast (rd (cp + 2)), cp + 3)
     else (ucast (rd cp), cp + 1))"

section \<open>The transmitter\<close>

definition same_conn :: "tcpip \<Rightarrow> tcpip \<Rightarrow> bool" where
  "same_conn h g = (ip_src h = ip_src g \<and> ip_dst h = ip_dst g \<and> th_ports h = th_ports g)"

text \<open>
  The search through the ring from the state after the most recent one: \<open>Inl\<close> of the predecessor and
  the state found, or \<open>Inr\<close> of the predecessor of the oldest and the oldest.
\<close>

definition sl_search_turn :: "slcompress \<Rightarrow> tcpip \<Rightarrow> nat \<Rightarrow> nat + ((nat \<times> nat) + (nat \<times> nat))" where
  "sl_search_turn c h cs = (let lcs = cs; cs = cs_next (tstate c ! cs) in
     if same_conn h (cs_ip (tstate c ! cs)) then Inr (Inl (lcs, cs))
     else if cs = last_cs c then Inr (Inr (lcs, cs))
     else Inl cs)"

definition sl_search :: "slcompress \<Rightarrow> tcpip \<Rightarrow> nat \<Rightarrow> ((nat \<times> nat) + (nat \<times> nat)) option" where
  "sl_search c h cs = run_fuel (sl_search_turn c h) SL_STATES cs"

definition sl_front :: "nat \<Rightarrow> nat \<Rightarrow> slcompress \<Rightarrow> slcompress" where
  "sl_front lcs cs c = (let lastcs = last_cs c in
     if cs = lastcs then c\<lparr>last_cs := lcs\<rparr>
     else let c = set_tstate lcs (\<lambda>x. x\<lparr>cs_next := cs_next (tstate c ! cs)\<rparr>) c;
              c = set_tstate cs (\<lambda>x. x\<lparr>cs_next := cs_next (tstate c ! lastcs)\<rparr>) c
       in set_tstate lastcs (\<lambda>x. x\<lparr>cs_next := cs\<rparr>) c)"

text \<open>
  The state for a packet: whether it was found, its index, and the ring with that state in front.
\<close>

definition sl_state :: "slcompress \<Rightarrow> tcpip \<Rightarrow> (bool \<times> nat \<times> slcompress) option" where
  "sl_state c h = (let cs = cs_next (tstate c ! last_cs c) in
     if same_conn h (cs_ip (tstate c ! cs)) then Some (True, cs, c)
     else (case sl_search c h cs of
        None \<Rightarrow> None
      | Some (Inl (lcs, cs)) \<Rightarrow> Some (True, cs, sl_front lcs cs c)
      | Some (Inr (lcs, cs)) \<Rightarrow> Some (False, cs, c\<lparr>last_cs := lcs\<rparr>)))"

text \<open>The fields that must not have changed.\<close>

definition hdr_fixed :: "tcpip \<Rightarrow> tcpip \<Rightarrow> bool" where
  "hdr_fixed g h = (ip_vhl h = ip_vhl g \<and> ip_tos h = ip_tos g \<and> ip_off h = ip_off g \<and> ip_ttl h = ip_ttl g
     \<and> ip_p h = ip_p g \<and> th_off h = th_off g \<and> ip_opt h = ip_opt g \<and> th_opt h = th_opt g)"

definition change :: "u8 \<Rightarrow> u32 \<Rightarrow> u8 \<times> u8 list" where
  "change flag d = (if d = 0 then (0, []) else (flag, ENCODE d))"

definition urg_change :: "tcpip \<Rightarrow> tcpip \<Rightarrow> (u8 \<times> u8 list) option" where
  "urg_change g h = (if th_flags h AND TH_URG \<noteq> 0 then Some (NEW_U, ENCODEZ (ucast (th_urp h)))
     else if th_urp h \<noteq> th_urp g then None else Some (0, []))"

text \<open>
  The changes of the TCP header, after the special cases; \<open>None\<close> is a packet to be sent uncompressed.
\<close>

definition tcp_changes :: "tcpip \<Rightarrow> tcpip \<Rightarrow> (u8 \<times> u8 list) option" where
  "tcp_changes g h = (if \<not> hdr_fixed g h then None
     else (case urg_change g h of
       None \<Rightarrow> None
     | Some (cu, bu) \<Rightarrow>
        (let (cw, bw) = change NEW_W (ucast (th_win h - th_win g));
             deltaA = th_ack h - th_ack g; (ca, ba) = change NEW_A deltaA;
             deltaS = th_seq h - th_seq g; (cs, bs) = change NEW_S deltaS;
             changes = cu OR cw OR ca OR cs; seq = bu @ bw @ ba @ bs;
             sent = ucast (ip_len g) - of_nat (hdr_len h)
         in if 0xffff < deltaA \<or> 0xffff < deltaS then None
            else if changes = 0 then
              (if ip_len h \<noteq> ip_len g \<and> unat (ip_len g) = hdr_len h then Some (0, seq) else None)
            else if changes = SPECIAL_I \<or> changes = SPECIAL_D then None
            else if changes = NEW_S OR NEW_A then
              (if deltaS = deltaA \<and> deltaS = sent then Some (SPECIAL_I, []) else Some (changes, seq))
            else if changes = NEW_S then
              (if deltaS = sent then Some (SPECIAL_D, []) else Some (changes, seq))
            else Some (changes, seq))))"

definition ipid_change :: "tcpip \<Rightarrow> tcpip \<Rightarrow> u8 \<times> u8 list" where
  "ipid_change g h = (let d = ucast (ip_id h) - ucast (ip_id g) :: u32 in
     if d = 1 then (0, []) else (NEW_I, ENCODEZ d))"

datatype vjpkt = VJ_IP tcpip "u8 list" | VJ_UNCOMPRESSED tcpip "u8 list" | VJ_COMPRESSED "u8 list"

definition sum_bytes :: "u16 \<Rightarrow> u8 list" where
  "sum_bytes w = [ucast (drop_bit 8 w), ucast w]"

text \<open>\<open>BCOPY\<close> of the header into a state.\<close>

definition save_hdr :: "nat \<Rightarrow> tcpip \<Rightarrow> slcompress \<Rightarrow> slcompress option" where
  "save_hdr i h c = (if MAX_HDR < hdr_len h then None else Some (set_tstate i (\<lambda>x. x\<lparr>cs_ip := h\<rparr>) c))"

definition sl_uncompressed :: "nat \<Rightarrow> tcpip \<Rightarrow> u8 list \<Rightarrow> slcompress \<Rightarrow> (vjpkt \<times> slcompress) option" where
  "sl_uncompressed i h data c = (case save_hdr i h c of None \<Rightarrow> None | Some c \<Rightarrow>
     let cid = cs_id (tstate c ! i) in Some (VJ_UNCOMPRESSED (h\<lparr>ip_p := cid\<rparr>) data, c\<lparr>last_xmit := cid\<rparr>))"

definition sl_compressed :: "nat \<Rightarrow> tcpip \<Rightarrow> u8 list \<Rightarrow> u8 \<Rightarrow> u8 list \<Rightarrow> slcompress \<Rightarrow> (vjpkt \<times> slcompress) option" where
  "sl_compressed i h data changes seq c = (let g = cs_ip (tstate c ! i); (ci, bi) = ipid_change g h;
       cp = (if th_flags h AND TH_PUSH \<noteq> 0 then TCP_PUSH_BIT else 0) in
     case save_hdr i h c of None \<Rightarrow> None | Some c \<Rightarrow>
     let cid = cs_id (tstate c ! i) in
     Some (VJ_COMPRESSED ([changes OR ci OR cp OR NEW_C, cid] @ sum_bytes (th_sum h) @ seq @ bi @ data),
           c\<lparr>last_xmit := cid\<rparr>))"

definition sl_compress_tcp :: "nat \<Rightarrow> tcpip \<Rightarrow> u8 list \<Rightarrow> slcompress \<Rightarrow> (vjpkt \<times> slcompress) option" where
  "sl_compress_tcp m_len h data c =
     (if ip_off h AND 0x3fff \<noteq> 0 \<or> m_len < 40 then Some (VJ_IP h data, c)
      else if th_flags h AND (TH_SYN OR TH_FIN OR TH_RST OR TH_ACK) \<noteq> TH_ACK then Some (VJ_IP h data, c)
      else (case sl_state c h of
         None \<Rightarrow> None
       | Some (False, i, c) \<Rightarrow> sl_uncompressed i h data c
       | Some (True, i, c) \<Rightarrow> (case tcp_changes (cs_ip (tstate c ! i)) h of
            None \<Rightarrow> sl_uncompressed i h data c
          | Some (changes, seq) \<Rightarrow> sl_compressed i h data changes seq c)))"

section \<open>The receivers\<close>

text \<open>The checksum of the IP header, summed as the machine does, by 16-bit words in its byte order.\<close>

definition swap16 :: "u16 \<Rightarrow> u16" where
  "swap16 w = push_bit 8 w OR drop_bit 8 w"

definition pair16 :: "u8 \<Rightarrow> u8 \<Rightarrow> u16" where
  "pair16 a b = push_bit 8 (ucast a) OR ucast b"

fun opt_words :: "u8 list \<Rightarrow> u16 list" where
  "opt_words (a # b # r) = pair16 a b # opt_words r"
| "opt_words _ = []"

definition ip_words :: "tcpip \<Rightarrow> u16 list" where
  "ip_words h = take (2 * ip_hl h) ([pair16 (ip_vhl h) (ip_tos h), ip_len h, ip_id h, ip_off h,
     pair16 (ip_ttl h) (ip_p h), ip_sum h, ucast (drop_bit 16 (ip_src h)), ucast (ip_src h),
     ucast (drop_bit 16 (ip_dst h)), ucast (ip_dst h)] @ opt_words (ip_opt h))"

definition fold16 :: "u32 \<Rightarrow> u32" where
  "fold16 x = (x AND 0xffff) + drop_bit 16 x"

definition ip_cksum :: "tcpip \<Rightarrow> u16" where
  "ip_cksum h = swap16 (ucast (NOT (fold16 (fold16 (sum_list (map (\<lambda>w. ucast (swap16 w)) (ip_words h)))))))"

definition set_rstate :: "nat \<Rightarrow> (cstate \<Rightarrow> cstate) \<Rightarrow> slcompress \<Rightarrow> slcompress" where
  "set_rstate i g c = c\<lparr>rstate := (rstate c)[i := g (rstate c ! i)]\<rparr>"

definition sl_bad :: "slcompress \<Rightarrow> ((tcpip \<times> u8 list) option \<times> slcompress) option" where
  "sl_bad c = Some (None, c\<lparr>slf_toss := True\<rparr>)"

definition sl_learn :: "nat \<Rightarrow> tcpip \<Rightarrow> slcompress \<Rightarrow> slcompress" where
  "sl_learn i h c = set_rstate i (\<lambda>x. x\<lparr>cs_ip := h\<lparr>ip_sum := 0\<rparr>, cs_hlen := hdr_len h\<rparr>) c"

definition set_flag :: "bool \<Rightarrow> u8 \<Rightarrow> tcpip \<Rightarrow> tcpip" where
  "set_flag b f h = h\<lparr>th_flags := (if b then th_flags h OR f else th_flags h AND NOT f)\<rparr>"

definition decode_if :: "bool \<Rightarrow> (u16 \<Rightarrow> tcpip \<Rightarrow> tcpip) \<Rightarrow> (nat \<Rightarrow> u8) \<Rightarrow> nat \<times> tcpip \<Rightarrow> nat \<times> tcpip" where
  "decode_if b g rd st = (case st of (cp, h) \<Rightarrow>
     if b then (case decode rd cp of (n, cp) \<Rightarrow> (cp, g n h)) else (cp, h))"

text \<open>
  The header after a compressed packet: \<open>changes\<close> is its first byte, \<open>cp\<close> the offset of the TCP
  checksum and \<open>hlen\<close> the saved header length. The offset of the data is returned as well.
\<close>

definition tcp_decode :: "(nat \<Rightarrow> u8) \<Rightarrow> u8 \<Rightarrow> nat \<Rightarrow> nat \<times> tcpip \<Rightarrow> nat \<times> tcpip" where
  "tcp_decode rd changes hlen st = (case st of (cp, h) \<Rightarrow>
     let sent = ucast (ip_len h) - of_nat hlen in
     if changes AND SPECIALS_MASK = SPECIAL_I
     then (cp, h\<lparr>th_ack := th_ack h + sent, th_seq := th_seq h + sent\<rparr>)
     else if changes AND SPECIALS_MASK = SPECIAL_D then (cp, h\<lparr>th_seq := th_seq h + sent\<rparr>)
     else
       (let u = (changes AND NEW_U \<noteq> 0);
            st = decode_if u (\<lambda>n x. x\<lparr>th_urp := n\<rparr>) rd (cp, set_flag u TH_URG h);
            st = decode_if (changes AND NEW_W \<noteq> 0) (\<lambda>n x. x\<lparr>th_win := th_win x + n\<rparr>) rd st;
            st = decode_if (changes AND NEW_A \<noteq> 0) (\<lambda>n x. x\<lparr>th_ack := th_ack x + ucast n\<rparr>) rd st
        in decode_if (changes AND NEW_S \<noteq> 0) (\<lambda>n x. x\<lparr>th_seq := th_seq x + ucast n\<rparr>) rd st))"

definition id_decode :: "(nat \<Rightarrow> u8) \<Rightarrow> u8 \<Rightarrow> nat \<times> tcpip \<Rightarrow> nat \<times> tcpip" where
  "id_decode rd changes st = (if changes AND NEW_I \<noteq> 0
     then decode_if True (\<lambda>n x. x\<lparr>ip_id := ip_id x + n\<rparr>) rd st
     else (case st of (cp, h) \<Rightarrow> (cp, h\<lparr>ip_id := ip_id h + 1\<rparr>)))"

definition hdr_decode :: "(nat \<Rightarrow> u8) \<Rightarrow> u8 \<Rightarrow> nat \<Rightarrow> nat \<Rightarrow> tcpip \<Rightarrow> nat \<times> tcpip" where
  "hdr_decode rd changes cp hlen h = id_decode rd changes (tcp_decode rd changes hlen
     (cp + 2, set_flag (changes AND TCP_PUSH_BIT \<noteq> 0) TH_PUSH (h\<lparr>th_sum := pair16 (rd cp) (rd (cp + 1))\<rparr>)))"

text \<open>
  The state index of a compressed packet: \<open>None\<close> of the inner option is a packet that is tossed, with
  the new state; otherwise the offset of the checksum and the state.
\<close>

definition conn_index :: "(nat \<Rightarrow> u8) \<Rightarrow> slcompress \<Rightarrow> slcompress + (nat \<times> slcompress)" where
  "conn_index rd c = (if rd 0 AND NEW_C \<noteq> 0 then
       (if of_nat SL_STATES \<le> rd 1 then Inl (c\<lparr>slf_toss := True\<rparr>)
        else Inr (2, c\<lparr>slf_toss := False, last_recv := rd 1\<rparr>))
     else if slf_toss c then Inl c else Inr (1, c))"

text \<open>
  The header that is put in front of the data: the saved one with the length of the new packet, and
  the checksum computed over it.
\<close>

definition sl_deliver :: "nat \<Rightarrow> tcpip \<Rightarrow> nat \<Rightarrow> u8 list \<Rightarrow> slcompress \<Rightarrow> ((tcpip \<times> u8 list) option \<times> slcompress) option" where
  "sl_deliver i h hlen data c = (let h = h\<lparr>ip_len := of_nat (length data + hlen)\<rparr> in
     Some (Some (h\<lparr>ip_sum := ip_cksum h\<rparr>, data), set_rstate i (\<lambda>x. x\<lparr>cs_ip := h\<rparr>) c))"

definition byte_of :: "u8 list \<Rightarrow> (nat \<Rightarrow> u8) \<Rightarrow> nat \<Rightarrow> u8" where
  "byte_of b junk i = (if i < length b then b ! i else junk i)"

text \<open>
  A state outside \<open>rstate\<close> is \<open>None\<close>: \<open>last_recv\<close> is 255 until an index was received. So is a state
  that holds no header yet.
\<close>

definition sl_uncompress_tcp :: "(nat \<Rightarrow> u8) \<Rightarrow> vjpkt \<Rightarrow> slcompress \<Rightarrow> ((tcpip \<times> u8 list) option \<times> slcompress) option" where
  "sl_uncompress_tcp junk p c = (case p of
     VJ_IP h data \<Rightarrow> sl_bad c
   | VJ_UNCOMPRESSED h data \<Rightarrow>
       if of_nat SL_STATES \<le> ip_p h then sl_bad c
       else let c = c\<lparr>last_recv := ip_p h, slf_toss := False\<rparr>; i = unat (ip_p h); h = h\<lparr>ip_p := SL_TCP\<rparr> in
         if MAX_HDR < hdr_len h then None else Some (Some (h, data), sl_learn i h c)
   | VJ_COMPRESSED b \<Rightarrow> (let rd = byte_of b junk in
       case conn_index rd c of
         Inl c \<Rightarrow> Some (None, c)
       | Inr (cp, c) \<Rightarrow> (let i = unat (last_recv c) in
           if length (rstate c) \<le> i \<or> ip_hl (cs_ip (rstate c ! i)) < 5 then None
           else let hlen = cs_hlen (rstate c ! i);
                    (off, h) = hdr_decode rd (rd 0) cp hlen (cs_ip (rstate c ! i));
                    c = set_rstate i (\<lambda>x. x\<lparr>cs_ip := h\<rparr>) c
             in if length b < off then sl_bad c else sl_deliver i h hlen (drop off b) c)))"

text \<open>
  The version for mbufs: \<open>m_len\<close> is the length of the first mbuf, \<open>ok\<close> the success of the allocation
  that the header may need.
\<close>

definition sl_muncompress_tcp :: "(nat \<Rightarrow> u8) \<Rightarrow> nat \<Rightarrow> bool \<Rightarrow> vjpkt \<Rightarrow> slcompress
    \<Rightarrow> ((tcpip \<times> u8 list) option \<times> slcompress) option" where
  "sl_muncompress_tcp junk m_len ok p c = (case p of
     VJ_IP h data \<Rightarrow> sl_bad c
   | VJ_UNCOMPRESSED h data \<Rightarrow>
       if of_nat SL_STATES \<le> ip_p h then sl_bad c
       else let c = c\<lparr>last_recv := ip_p h, slf_toss := False\<rparr>; i = unat (ip_p h); h = h\<lparr>ip_p := SL_TCP\<rparr> in
         if MAX_HDR < hdr_len h then sl_bad c else Some (Some (h, data), sl_learn i h c)
   | VJ_COMPRESSED b \<Rightarrow> (let rd = byte_of b junk in
       case conn_index rd c of
         Inl c \<Rightarrow> Some (None, c)
       | Inr (cp, c) \<Rightarrow> (let i = unat (last_recv c) in
           if length (rstate c) \<le> i \<or> ip_hl (cs_ip (rstate c ! i)) < 5 then None
           else let hlen = cs_hlen (rstate c ! i);
                    (off, h) = hdr_decode rd (rd 0) cp hlen (cs_ip (rstate c ! i));
                    c = set_rstate i (\<lambda>x. x\<lparr>cs_ip := h\<rparr>) c
             in if m_len < off \<or> \<not> ok then sl_bad c else sl_deliver i h hlen (drop off b) c)))"

section \<open>Numbers read back\<close>

definition reads :: "(nat \<Rightarrow> u8) \<Rightarrow> nat \<Rightarrow> u8 list \<Rightarrow> bool" where
  "reads rd cp b = (\<forall>k < length b. rd (cp + k) = b ! k)"

lemma reads_Nil [simp]: "reads rd cp []"
  by (simp add: reads_def)

lemma reads_Cons [simp]: "reads rd cp (x # b) = (rd cp = x \<and> reads rd (Suc cp) b)"
proof -
  have "(\<forall>k < Suc n. P k) = (P 0 \<and> (\<forall>k < n. P (Suc k)))" for P and n :: nat
    by (auto simp: less_Suc_eq_0_disj)
  then show ?thesis by (simp add: reads_def)
qed

lemma reads_append: "reads rd cp (a @ b) = (reads rd cp a \<and> reads rd (cp + length a) b)"
  by (induction a arbitrary: cp) simp_all

lemma pair16_hi_lo: "push_bit 8 (ucast (hi8 n)) OR ucast (lo8 n) = (ucast n :: u16)"
  unfolding hi8_def lo8_def by (rule bit_word_eqI) (auto simp: bit_simps)

lemma unat_ucast_mod: "unat (ucast w :: 'b :: len word) = unat w mod 2 ^ LENGTH('b)"
  by (simp only: unsigned_ucast_eq take_bit_eq_mod)

lemma small16: "(ucast n :: u16) < 256 \<Longrightarrow> ucast (lo8 n) = (ucast n :: u16)"
proof -
  assume "(ucast n :: u16) < 256"
  moreover define w where "w = (ucast n :: u16)"
  ultimately have "unat w < 256" by (simp add: word_less_nat_alt)
  then have "ucast (ucast w :: u8) = w"
    by (simp add: word_unat_eq_iff unat_ucast_mod)
  moreover have "lo8 n = ucast w"
    unfolding lo8_def w_def by (rule bit_word_eqI) (auto simp: bit_simps)
  ultimately show ?thesis by (simp add: w_def)
qed

lemma decode_ENCODE:
  assumes "reads rd cp (ENCODE n)" and "(ucast n :: u16) \<noteq> 0"
  shows "decode rd cp = (ucast n, cp + length (ENCODE n))"
proof (cases "256 \<le> (ucast n :: u16)")
  case True
  with assms(1) show ?thesis by (simp add: ENCODE_def decode_def pair16_hi_lo)
next
  case False
  then have "ucast (lo8 n) = (ucast n :: u16)" by (simp add: small16 not_le)
  with False assms show ?thesis by (auto simp: ENCODE_def decode_def)
qed

lemma decode_ENCODEZ:
  assumes "reads rd cp (ENCODEZ n)"
  shows "decode rd cp = (ucast n, cp + length (ENCODEZ n))"
proof (cases "256 \<le> (ucast n :: u16) \<or> (ucast n :: u16) = 0")
  case True
  with assms show ?thesis by (auto simp: ENCODEZ_def decode_def pair16_hi_lo)
next
  case False
  then have "ucast (lo8 n) = (ucast n :: u16)" by (simp add: small16 not_le)
  with False assms show ?thesis by (auto simp: ENCODEZ_def decode_def)
qed

lemma decode_if_reads:
  assumes "b \<Longrightarrow> decode rd cp = (n, cp + length bs)"
  shows "decode_if b g rd (cp, h) = (cp + length (if b then bs else []), if b then g n h else h)"
  using assms by (simp add: decode_if_def)

section \<open>The changes of a header read back\<close>

text \<open>The mask of changes by its four bits.\<close>

definition mask4 :: "bool \<Rightarrow> bool \<Rightarrow> bool \<Rightarrow> bool \<Rightarrow> u8" where
  "mask4 u w a s = (if u then NEW_U else 0) OR (if w then NEW_W else 0) OR (if a then NEW_A else 0)
     OR (if s then NEW_S else 0)"

lemma mask4_bits:
  "(mask4 u w a s AND NEW_U \<noteq> 0) = u" "(mask4 u w a s AND NEW_W \<noteq> 0) = w"
  "(mask4 u w a s AND NEW_A \<noteq> 0) = a" "(mask4 u w a s AND NEW_S \<noteq> 0) = s"
  "mask4 u w a s AND SPECIALS_MASK = mask4 u w a s"
  "(mask4 u w a s = SPECIAL_I) = (u \<and> w \<and> \<not> a \<and> s)" "(mask4 u w a s = SPECIAL_D) = (u \<and> w \<and> a \<and> s)"
  "(mask4 u w a s = 0) = (\<not> u \<and> \<not> w \<and> \<not> a \<and> \<not> s)"
  "(mask4 u w a s = NEW_S OR NEW_A) = (\<not> u \<and> \<not> w \<and> a \<and> s)" "(mask4 u w a s = NEW_S) = (\<not> u \<and> \<not> w \<and> \<not> a \<and> s)"
  by (cases u; cases w; cases a; cases s; simp add: mask4_def new_labels)+

lemma low16: "(d :: u32) \<le> 0xffff \<Longrightarrow> ucast (ucast d :: u16) = d"
proof -
  assume "d \<le> 0xffff"
  then have "unat d < 65536" by (simp add: word_le_nat_alt)
  then show ?thesis by (simp add: word_unat_eq_iff unat_ucast_mod)
qed

lemma low16_nz: "(d :: u32) \<le> 0xffff \<Longrightarrow> d \<noteq> 0 \<Longrightarrow> (ucast d :: u16) \<noteq> 0"
  using low16 [of d] by auto

lemma ucast_16_32_16 [simp]: "ucast (ucast (w :: u16) :: u32) = w"
  by (rule bit_word_eqI) (auto simp: bit_simps)

lemma tcp_decode_default:
  assumes "reads rd cp (bu @ bw @ ba @ bs)"
    and "bu = (if u then ENCODEZ (ucast (th_urp h)) else [])"
    and "bw = (if w then ENCODE (ucast (th_win h - th_win g)) else [])" and "w = (th_win h \<noteq> th_win g)"
    and "ba = (if a then ENCODE (th_ack h - th_ack g) else [])" and "a = (th_ack h \<noteq> th_ack g)"
    and "bs = (if s then ENCODE (th_seq h - th_seq g) else [])" and "s = (th_seq h \<noteq> th_seq g)"
    and "th_ack h - th_ack g \<le> 0xffff" and "th_seq h - th_seq g \<le> 0xffff"
    and "\<not> (u \<and> w \<and> s)" and "\<not> u \<Longrightarrow> th_urp h = th_urp g"
  shows "tcp_decode rd (mask4 u w a s) hlen (cp, g) = (cp + length (bu @ bw @ ba @ bs),
     (set_flag u TH_URG g)\<lparr>th_urp := th_urp h, th_win := th_win h, th_ack := th_ack h, th_seq := th_seq h\<rparr>)"
proof -
  have rd: "reads rd cp bu" "reads rd (cp + length bu) bw" "reads rd (cp + length bu + length bw) ba"
      "reads rd (cp + length bu + length bw + length ba) bs"
    using assms(1) by (simp_all add: reads_append add.assoc)
  have s1: "decode_if u (\<lambda>n x. x\<lparr>th_urp := n\<rparr>) rd (cp, x) = (cp + length bu, x\<lparr>th_urp := th_urp h\<rparr>)"
    if "th_urp x = th_urp g" for x
    using rd(1) assms(2,12) that decode_ENCODEZ [of rd cp "ucast (th_urp h)"]
    by (cases u) (simp_all add: decode_if_def)
  have s2: "decode_if w (\<lambda>n x. x\<lparr>th_win := th_win x + n\<rparr>) rd (cp + length bu, x)
      = (cp + length bu + length bw, x\<lparr>th_win := th_win h\<rparr>)" if "th_win x = th_win g" for x
    using rd(2) assms(3,4) that decode_ENCODE [of rd "cp + length bu" "ucast (th_win h - th_win g)"]
    by (cases w) (simp_all add: decode_if_def)
  have s3: "decode_if a (\<lambda>n x. x\<lparr>th_ack := th_ack x + ucast n\<rparr>) rd (cp + length bu + length bw, x)
      = (cp + length bu + length bw + length ba, x\<lparr>th_ack := th_ack h\<rparr>)" if "th_ack x = th_ack g" for x
    using rd(3) assms(5,6,9) that low16_nz [OF assms(9)] low16 [OF assms(9)]
      decode_ENCODE [of rd "cp + length bu + length bw" "th_ack h - th_ack g"]
    by (cases a) (simp_all add: decode_if_def)
  have s4: "decode_if s (\<lambda>n x. x\<lparr>th_seq := th_seq x + ucast n\<rparr>) rd (cp + length bu + length bw + length ba, x)
      = (cp + length bu + length bw + length ba + length bs, x\<lparr>th_seq := th_seq h\<rparr>)" if "th_seq x = th_seq g" for x
    using rd(4) assms(7,8,10) that low16_nz [OF assms(10)] low16 [OF assms(10)]
      decode_ENCODE [of rd "cp + length bu + length bw + length ba" "th_seq h - th_seq g"]
    by (cases s) (simp_all add: decode_if_def)
  have special: "mask4 u w a s \<noteq> SPECIAL_I" "mask4 u w a s \<noteq> SPECIAL_D"
    using assms(11) by (simp_all add: mask4_bits)
  show ?thesis
    unfolding tcp_decode_def Let_def prod.case mask4_bits(1-5) if_not_P [OF special(1)] if_not_P [OF special(2)]
    by (subst s1, simp add: set_flag_def, subst s2, simp add: set_flag_def, subst s3, simp add: set_flag_def,
        subst s4, simp add: set_flag_def, simp)
qed

lemma tcp_decode_mask:
  assumes "c1 AND SPECIALS_MASK = c2 AND SPECIALS_MASK"
  shows "tcp_decode rd c1 = tcp_decode rd c2"
proof -
  have bits: "c AND NEW_U = (c AND SPECIALS_MASK) AND NEW_U" "c AND NEW_W = (c AND SPECIALS_MASK) AND NEW_W"
      "c AND NEW_A = (c AND SPECIALS_MASK) AND NEW_A" "c AND NEW_S = (c AND SPECIALS_MASK) AND NEW_S" for c
    by (simp_all add: new_labels and.assoc)
  have eq: "c1 AND NEW_U = c2 AND NEW_U" "c1 AND NEW_W = c2 AND NEW_W" "c1 AND NEW_A = c2 AND NEW_A"
      "c1 AND NEW_S = c2 AND NEW_S"
    using assms bits by metis+
  show ?thesis by (rule ext)+ (simp only: tcp_decode_def assms eq)
qed

definition urg :: "tcpip \<Rightarrow> bool" where
  "urg h = (th_flags h AND TH_URG \<noteq> 0)"

definition tcp_seq :: "tcpip \<Rightarrow> tcpip \<Rightarrow> u8 list" where
  "tcp_seq g h = (if urg h then ENCODEZ (ucast (th_urp h)) else [])
     @ (if th_win h \<noteq> th_win g then ENCODE (ucast (th_win h - th_win g)) else [])
     @ (if th_ack h \<noteq> th_ack g then ENCODE (th_ack h - th_ack g) else [])
     @ (if th_seq h \<noteq> th_seq g then ENCODE (th_seq h - th_seq g) else [])"

definition tcp_mask :: "tcpip \<Rightarrow> tcpip \<Rightarrow> u8" where
  "tcp_mask g h = mask4 (urg h) (th_win h \<noteq> th_win g) (th_ack h \<noteq> th_ack g) (th_seq h \<noteq> th_seq g)"

definition tcp_sent :: "tcpip \<Rightarrow> tcpip \<Rightarrow> u32" where
  "tcp_sent g h = ucast (ip_len g) - of_nat (hdr_len h)"

lemma change_split: "change f d = (if d \<noteq> 0 then f else 0, if d \<noteq> 0 then ENCODE d else [])"
  by (simp add: change_def)

lemma ucast_16_0 [simp]: "(ucast (w :: u16) :: u32) = 0 \<longleftrightarrow> w = 0"
  by (metis ucast_16_32_16 unsigned_0)

lemma urg_change_Some:
  "urg_change g h = Some (cu, bu) \<longleftrightarrow> (urg h \<or> th_urp h = th_urp g) \<and> cu = (if urg h then NEW_U else 0)
     \<and> bu = (if urg h then ENCODEZ (ucast (th_urp h)) else [])"
  by (auto simp: urg_change_def urg_def)

lemma tcp_changes_eq:
  "tcp_changes g h = (if \<not> hdr_fixed g h \<or> \<not> urg h \<and> th_urp h \<noteq> th_urp g
       \<or> 0xffff < th_ack h - th_ack g \<or> 0xffff < th_seq h - th_seq g then None
     else if tcp_mask g h = 0 then
       (if ip_len h \<noteq> ip_len g \<and> unat (ip_len g) = hdr_len h then Some (0, tcp_seq g h) else None)
     else if tcp_mask g h = SPECIAL_I \<or> tcp_mask g h = SPECIAL_D then None
     else if tcp_mask g h = NEW_S OR NEW_A then
       (if th_seq h - th_seq g = th_ack h - th_ack g \<and> th_seq h - th_seq g = tcp_sent g h
        then Some (SPECIAL_I, []) else Some (tcp_mask g h, tcp_seq g h))
     else if tcp_mask g h = NEW_S then
       (if th_seq h - th_seq g = tcp_sent g h then Some (SPECIAL_D, []) else Some (tcp_mask g h, tcp_seq g h))
     else Some (tcp_mask g h, tcp_seq g h))"
proof (cases "urg_change g h")
  case None
  then show ?thesis by (auto simp: tcp_changes_def urg_change_def urg_def split: if_splits)
next
  case (Some p)
  then have p: "p = (if urg h then NEW_U else 0, if urg h then ENCODEZ (ucast (th_urp h)) else [])"
      "urg h \<or> th_urp h = th_urp g"
    using urg_change_Some by (cases p, auto)+
  show ?thesis
    unfolding tcp_changes_def Some option.case p(1) prod.case Let_def change_split ucast_16_0 right_minus_eq
    using p(2)
    unfolding tcp_mask_def [unfolded mask4_def, symmetric] tcp_seq_def [symmetric] tcp_sent_def [symmetric]
    by argo
qed

lemma SPECIALS: "SPECIAL_I AND SPECIALS_MASK = SPECIAL_I" "SPECIAL_D AND SPECIALS_MASK = SPECIAL_D"
    "SPECIAL_D \<noteq> SPECIAL_I" "SPECIAL_I \<noteq> 0" "SPECIAL_D \<noteq> 0" "NEW_S OR NEW_A \<noteq> SPECIAL_I"
    "NEW_S OR NEW_A \<noteq> SPECIAL_D" "NEW_S \<noteq> SPECIAL_I" "NEW_S \<noteq> SPECIAL_D"
  by (simp_all add: new_labels)

lemma and_not_idle: "(w :: u8) AND f = 0 \<Longrightarrow> w AND NOT f = w"
  by (rule bit_word_eqI) (auto simp: bit_simps dest: arg_cong [where f = "\<lambda>x. bit x _"])

lemma set_flag_idle: "th_flags x AND f = 0 \<Longrightarrow> set_flag False f x = x"
  by (simp add: set_flag_def and_not_idle)

lemma seq_ack_only:
  "th_urp x = a \<Longrightarrow> th_win x = b \<Longrightarrow> x\<lparr>th_urp := a, th_win := b, th_ack := c, th_seq := d\<rparr> = x\<lparr>th_ack := c, th_seq := d\<rparr>"
  "th_ack x = c \<Longrightarrow> x\<lparr>th_ack := c, th_seq := d\<rparr> = x\<lparr>th_seq := d\<rparr>"
  by (cases x, simp)+

lemma tcp_changes_Some:
  "tcp_changes g h = Some (ch, seq) \<Longrightarrow> hdr_fixed g h \<and> (urg h \<or> th_urp h = th_urp g)
     \<and> th_ack h - th_ack g \<le> 0xffff \<and> th_seq h - th_seq g \<le> 0xffff
     \<and> ((ch = tcp_mask g h \<and> seq = tcp_seq g h \<and> ch \<noteq> SPECIAL_I \<and> ch \<noteq> SPECIAL_D)
       \<or> (ch = SPECIAL_I \<and> seq = [] \<and> tcp_mask g h = NEW_S OR NEW_A \<and> th_ack h - th_ack g = tcp_sent g h
           \<and> th_seq h - th_seq g = tcp_sent g h)
       \<or> (ch = SPECIAL_D \<and> seq = [] \<and> tcp_mask g h = NEW_S \<and> th_seq h - th_seq g = tcp_sent g h))"
  unfolding tcp_changes_eq using SPECIALS by (simp add: not_less split: if_splits)

lemma tcp_changes_decode:
  assumes ch: "tcp_changes g h = Some (ch, seq)" and rd: "reads rd cp seq"
    and mask: "c AND SPECIALS_MASK = ch AND SPECIALS_MASK"
    and same: "th_urp x = th_urp g" "th_win x = th_win g" "th_ack x = th_ack g" "th_seq x = th_seq g" "ip_len x = ip_len g"
    and hlen: "hlen = hdr_len h" and urg: "urg g \<Longrightarrow> urg h" "urg x = urg g"
  shows "tcp_decode rd c hlen (cp, x) = (cp + length seq, (set_flag (urg h) TH_URG x)\<lparr>th_urp := th_urp h,
     th_win := th_win h, th_ack := th_ack h, th_seq := th_seq h\<rparr>)"
proof -
  note h = tcp_changes_Some [OF ch]
  consider (plain) "ch = tcp_mask g h" "seq = tcp_seq g h" "ch \<noteq> SPECIAL_I" "ch \<noteq> SPECIAL_D"
    | (I) "ch = SPECIAL_I" "seq = []" "tcp_mask g h = NEW_S OR NEW_A" "th_ack h - th_ack g = tcp_sent g h"
         "th_seq h - th_seq g = tcp_sent g h"
    | (D) "ch = SPECIAL_D" "seq = []" "tcp_mask g h = NEW_S" "th_seq h - th_seq g = tcp_sent g h"
    using h by blast
  then show ?thesis
  proof cases
    case plain
    have "tcp_decode rd (tcp_mask g h) hlen (cp, x) = (cp + length (tcp_seq g h), (set_flag (urg h) TH_URG x)\<lparr>th_urp := th_urp h,
       th_win := th_win h, th_ack := th_ack h, th_seq := th_seq h\<rparr>)"
      unfolding tcp_mask_def tcp_seq_def
      by (rule tcp_decode_default [OF _ refl]) 
        (use rd plain h same in \<open>auto simp: tcp_mask_def tcp_seq_def mask4_bits\<close>)
    moreover have "tcp_decode rd c = tcp_decode rd (tcp_mask g h)"
      by (rule tcp_decode_mask) (use mask plain in simp)
    ultimately show ?thesis by (simp add: plain)
  next
    case I
    have "\<not> urg h" "th_win h = th_win g" using I(3) by (simp_all add: tcp_mask_def mask4_bits)
    moreover have "th_ack h = th_ack g + tcp_sent g h" "th_seq h = th_seq g + tcp_sent g h"
      using I(4,5) by (simp_all add: algebra_simps)
    moreover have "set_flag False TH_URG x = x"
      by (rule set_flag_idle) (metis urg urg_def \<open>\<not> urg h\<close>)
    ultimately show ?thesis
      using h mask I(1,2) same hlen SPECIALS
      by (simp add: tcp_decode_def Let_def tcp_sent_def seq_ack_only)
  next
    case D
    have "\<not> urg h" "th_win h = th_win g" "th_ack h = th_ack g" using D(3) by (simp_all add: tcp_mask_def mask4_bits)
    moreover have "th_seq h = th_seq g + tcp_sent g h"
      using D(4) by (simp add: algebra_simps)
    moreover have "set_flag False TH_URG x = x"
      by (rule set_flag_idle) (metis urg urg_def \<open>\<not> urg h\<close>)
    ultimately show ?thesis
      using h mask D(1,2) same hlen SPECIALS
      by (simp add: tcp_decode_def Let_def tcp_sent_def seq_ack_only)
  qed
qed

section \<open>A compressed packet read back\<close>

lemma ucast_diff: "(ucast (ucast (a :: u16) - ucast (b :: u16) :: u32) :: u16) = a - b"
  by transfer (simp add: take_bit_diff)

lemma ipid_change_decode:
  assumes "ipid_change g h = (ci, bi)" and "reads rd cp bi" and "(c AND NEW_I \<noteq> 0) = (ci \<noteq> 0)" and "ip_id x = ip_id g"
  shows "id_decode rd c (cp, x) = (cp + length bi, x\<lparr>ip_id := ip_id h\<rparr>)"
proof (cases "(ucast (ip_id h) - ucast (ip_id g) :: u32) = 1")
  case True
  then have "ip_id h - ip_id g = (ucast (1 :: u32) :: u16)" using ucast_diff by metis
  then have "ip_id h = ip_id g + 1" by (simp add: algebra_simps)
  with True assms show ?thesis by (auto simp: ipid_change_def id_decode_def)
next
  case False
  then have "ci = NEW_I" "bi = ENCODEZ (ucast (ip_id h) - ucast (ip_id g))"
    using assms(1) by (auto simp: ipid_change_def)
  with assms show ?thesis
    by (simp add: id_decode_def decode_if_def decode_ENCODEZ ucast_diff new_labels)
qed

lemma change_byte:
  fixes p :: bool
  assumes "ch AND SPECIALS_MASK = ch" and "ci = 0 \<or> ci = NEW_I"
  defines "c \<equiv> ch OR ci OR (if p then TCP_PUSH_BIT else 0) OR NEW_C"
  shows "c AND SPECIALS_MASK = ch AND SPECIALS_MASK" "(c AND NEW_I \<noteq> 0) = (ci \<noteq> 0)"
    "(c AND TCP_PUSH_BIT \<noteq> 0) = p" "c AND NEW_C \<noteq> 0"
proof -
  have c: "c = (ch AND 15) OR ci OR (if p then 0x10 else 0) OR 0x40"
    using assms(1) by (simp add: c_def new_labels)
  show "c AND SPECIALS_MASK = ch AND SPECIALS_MASK"
    using assms(2) by (auto simp: c new_labels bit.conj_disj_distrib2 and.assoc)
  show "(c AND NEW_I \<noteq> 0) = (ci \<noteq> 0)" "(c AND TCP_PUSH_BIT \<noteq> 0) = p" "c AND NEW_C \<noteq> 0"
    using assms(2) by (auto simp: c new_labels bit.conj_disj_distrib2 and.assoc)
qed

definition TH_FIXED :: u8 where "TH_FIXED = 0xd7"

lemma flags_rebuilt:
  assumes "(f :: u8) AND TH_FIXED = TH_ACK" and "g AND TH_FIXED = TH_ACK"
  defines "a \<equiv> if g AND TH_PUSH \<noteq> 0 then f OR TH_PUSH else f AND NOT TH_PUSH"
  shows "(if g AND TH_URG \<noteq> 0 then a OR TH_URG else a AND NOT TH_URG) = g"
proof (rule bit_word_eqI)
  fix n assume n: "n < LENGTH(8)"
  have lab: "TH_PUSH = 2 ^ 3" "TH_ACK = 2 ^ 4" "TH_URG = 2 ^ 5" "TH_FIXED = NOT (2 ^ 3 OR 2 ^ 5)"
    by (simp_all add: th_labels TH_FIXED_def)
  have bits: "bit TH_PUSH n = (n = 3)" "bit TH_ACK n = (n = 4)" "bit TH_URG n = (n = 5)"
      "bit TH_FIXED n = (n \<noteq> 3 \<and> n \<noteq> 5)"
    using n unfolding lab bit_not_iff bit_or_iff bit_exp_iff by auto
  have tests: "g AND TH_PUSH = 0 \<longleftrightarrow> \<not> bit g 3" "g AND TH_URG = 0 \<longleftrightarrow> \<not> bit g 5"
    unfolding lab and_exp_eq_0_iff_not_bit by simp_all
  have "(bit x n \<and> n \<noteq> 3 \<and> n \<noteq> 5) = (n = 4)" if "x AND TH_FIXED = TH_ACK" for x :: u8
    using arg_cong [OF that, of "\<lambda>x. bit x n"] unfolding bit_and_iff bits .
  from this [OF assms(1)] this [OF assms(2)]
  show "bit (if g AND TH_URG \<noteq> 0 then a OR TH_URG else a AND NOT TH_URG) n = bit g n"
    unfolding a_def tests using n by (auto simp: bit_and_iff bit_or_iff bit_not_iff bits)
qed

text \<open>
  A header as the sender produces it: option fields of the lengths the header lengths say, no reserved
  bits, and a right checksum; and the condition of \<open>sl_compress_tcp\<close> to compress it.
\<close>

definition vj_wf :: "tcpip \<Rightarrow> bool" where
  "vj_wf h = (5 \<le> ip_hl h \<and> 5 \<le> th_off h \<and> length (ip_opt h) = 4 * (ip_hl h - 5) \<and> length (th_opt h) = 4 * (th_off h - 5)
     \<and> hdr_len h \<le> MAX_HDR \<and> ip_p h = SL_TCP \<and> th_x2 h = 0 \<and> th_flags h AND 0xc0 = 0
     \<and> ip_sum h = ip_cksum (h\<lparr>ip_sum := 0\<rparr>))"

definition compressible :: "tcpip \<Rightarrow> bool" where
  "compressible h = (ip_off h AND 0x3fff = 0 \<and> th_flags h AND (TH_SYN OR TH_FIN OR TH_RST OR TH_ACK) = TH_ACK)"

lemma compressible_flags: "compressible h \<Longrightarrow> vj_wf h \<Longrightarrow> th_flags h AND TH_FIXED = TH_ACK"
proof -
  assume "compressible h" "vj_wf h"
  then have "th_flags h AND 0x17 = TH_ACK" "th_flags h AND 0xc0 = 0"
    by (simp_all add: compressible_def vj_wf_def th_labels)
  moreover have "TH_FIXED = 0x17 OR 0xc0" by (simp add: TH_FIXED_def)
  ultimately show ?thesis by (metis bit.conj_disj_distrib or.right_neutral)
qed

lemma offx2_same:
  assumes "th_off h = th_off g" and "th_x2 h = 0" and "th_x2 g = 0"
  shows "th_offx2 h = th_offx2 g"
proof -
  have "x = push_bit 4 (drop_bit 4 x)" if "x AND 15 = 0" for x :: u8
  proof -
    have "take_bit 4 x = x AND 15" by (simp add: take_bit_eq_mask mask_eq_exp_minus_1)
    then show ?thesis using that bits_ident [of 4 x] by simp
  qed
  moreover have "drop_bit 4 (th_offx2 h) = drop_bit 4 (th_offx2 g)"
    using assms(1) by (simp add: th_off_def word_unat_eq_iff)
  ultimately show ?thesis using assms(2,3) unfolding th_x2_def by metis
qed

lemma pair16_sum: "pair16 (ucast (drop_bit 8 w)) (ucast w) = w"
  unfolding pair16_def by (rule bit_word_eqI) (auto simp: bit_simps)

lemma tcp_changes_fixed:
  assumes "tcp_changes g h = Some (ch, seq)"
  shows "hdr_fixed g h" "hdr_len g = hdr_len h" "ch AND SPECIALS_MASK = ch"
proof -
  from tcp_changes_Some [OF assms] show "hdr_fixed g h" "ch AND SPECIALS_MASK = ch"
    by (auto simp: tcp_mask_def mask4_bits SPECIALS)
  then show "hdr_len g = hdr_len h" by (simp add: hdr_fixed_def hdr_len_def ip_hl_def)
qed

lemma set_flag_fields:
  "ip_vhl (set_flag b f h) = ip_vhl h" "ip_tos (set_flag b f h) = ip_tos h" "ip_len (set_flag b f h) = ip_len h"
  "ip_id (set_flag b f h) = ip_id h" "ip_off (set_flag b f h) = ip_off h" "ip_ttl (set_flag b f h) = ip_ttl h"
  "ip_p (set_flag b f h) = ip_p h" "ip_sum (set_flag b f h) = ip_sum h" "ip_src (set_flag b f h) = ip_src h"
  "ip_dst (set_flag b f h) = ip_dst h" "ip_opt (set_flag b f h) = ip_opt h" "th_ports (set_flag b f h) = th_ports h"
  "th_seq (set_flag b f h) = th_seq h" "th_ack (set_flag b f h) = th_ack h" "th_offx2 (set_flag b f h) = th_offx2 h"
  "th_win (set_flag b f h) = th_win h" "th_sum (set_flag b f h) = th_sum h" "th_urp (set_flag b f h) = th_urp h"
  "th_opt (set_flag b f h) = th_opt h"
  by (simp_all add: set_flag_def)

lemma hdr_rebuilt:
  assumes "hdr_fixed g h" and "vj_wf g" and "vj_wf h" and "same_conn h g" and "compressible g" and "compressible h"
  shows "(set_flag (urg h) TH_URG (set_flag (th_flags h AND TH_PUSH \<noteq> 0) TH_PUSH (g\<lparr>ip_sum := 0, th_sum := th_sum h\<rparr>)))
     \<lparr>th_urp := th_urp h, th_win := th_win h, th_ack := th_ack h, th_seq := th_seq h, ip_id := ip_id h\<rparr>
   = h\<lparr>ip_sum := 0, ip_len := ip_len g\<rparr>"
proof -
  have "th_offx2 h = th_offx2 g"
    using assms(1-3) by (intro offx2_same) (simp_all add: hdr_fixed_def vj_wf_def)
  moreover have "th_flags (set_flag (urg h) TH_URG (set_flag (th_flags h AND TH_PUSH \<noteq> 0) TH_PUSH
      (g\<lparr>ip_sum := 0, th_sum := th_sum h\<rparr>))) = th_flags h"
    using flags_rebuilt [OF compressible_flags [OF assms(5,2)] compressible_flags [OF assms(6,3)]]
    unfolding set_flag_def urg_def by (simp cong: if_cong split del: if_split)
  ultimately show ?thesis
    using assms(1,4) unfolding hdr_fixed_def same_conn_def
    by (intro tcpip.equality) (simp_all add: set_flag_fields)
qed

lemma hdr_decode_changes:
  assumes ch: "tcp_changes g h = Some (ch, seq)" and ci: "ipid_change g h = (ci, bi)"
    and c: "c = ch OR ci OR (if th_flags h AND TH_PUSH \<noteq> 0 then TCP_PUSH_BIT else 0) OR NEW_C"
    and rd: "reads rd cp (sum_bytes (th_sum h) @ seq @ bi)"
    and g: "vj_wf g" "compressible g" and h: "vj_wf h" "compressible h" "same_conn h g" and urg: "urg g \<Longrightarrow> urg h"
  shows "hdr_decode rd c cp (hdr_len g) (g\<lparr>ip_sum := 0\<rparr>)
     = (cp + 2 + length seq + length bi, h\<lparr>ip_sum := 0, ip_len := ip_len g\<rparr>)"
proof -
  have ci_cases: "ci = 0 \<or> ci = NEW_I" using ci by (auto simp: ipid_change_def Let_def split: if_splits)
  note byte = change_byte [OF tcp_changes_fixed(3) [OF ch] ci_cases, of "th_flags h AND TH_PUSH \<noteq> 0", folded c]
  define x where "x = set_flag (th_flags h AND TH_PUSH \<noteq> 0) TH_PUSH (g\<lparr>ip_sum := 0, th_sum := th_sum h\<rparr>)"
  have rds: "rd cp = ucast (drop_bit 8 (th_sum h))" "rd (cp + 1) = ucast (th_sum h)"
      "reads rd (cp + 2) seq" "reads rd (cp + 2 + length seq) bi"
    using rd by (simp_all add: sum_bytes_def reads_append)
  have "urg x = urg g"
    by (simp add: x_def urg_def set_flag_def th_labels bit.conj_disj_distrib2 and.assoc)
  then have "tcp_decode rd c (hdr_len g) (cp + 2, x) = (cp + 2 + length seq, (set_flag (urg h) TH_URG x)\<lparr>th_urp := th_urp h,
     th_win := th_win h, th_ack := th_ack h, th_seq := th_seq h\<rparr>)"
    by (intro tcp_changes_decode [OF ch rds(3) byte(1)])
      (simp_all add: x_def set_flag_def tcp_changes_fixed [OF ch] urg)
  then show ?thesis
    unfolding hdr_decode_def rds(1,2) pair16_sum byte(3)
    using ipid_change_decode [OF ci rds(4) byte(2)] hdr_rebuilt [OF tcp_changes_fixed(1) [OF ch] g(1) h(1,3) g(2) h(2)]
    by (simp add: x_def set_flag_def)
qed

section \<open>The states in order of use\<close>

text \<open>
  Each of the elements of a list has the next one as its successor, and the last one \<open>y\<close>. The states
  of the transmitter are a ring: a list of all of them, the most recently used one first, in which
  \<open>last_cs\<close> is the last and leads back to the first.
\<close>

fun path :: "(nat \<Rightarrow> nat) \<Rightarrow> nat list \<Rightarrow> nat \<Rightarrow> bool" where
  "path nx [] y = True"
| "path nx (x # xs) y = (nx x = hd (xs @ [y]) \<and> path nx xs y)"

definition cs_nexts :: "slcompress \<Rightarrow> nat \<Rightarrow> nat" where
  "cs_nexts c i = cs_next (tstate c ! i)"

definition ring :: "slcompress \<Rightarrow> nat list \<Rightarrow> bool" where
  "ring c r = (length (tstate c) = SL_STATES \<and> distinct r \<and> set r = {0..<SL_STATES} \<and> last_cs c = last r
     \<and> path (cs_nexts c) r (hd r))"

lemma path_append: "path nx (a @ b) y = (path nx a (hd (b @ [y])) \<and> path nx b y)"
  by (induction a) (auto simp: hd_append)

lemma path_cong: "(\<And>x. x \<in> set r \<Longrightarrow> nx x = nx' x) \<Longrightarrow> path nx r y = path nx' r y"
  by (induction r) auto

fun lru_search :: "(nat \<Rightarrow> bool) \<Rightarrow> nat \<Rightarrow> nat list \<Rightarrow> (nat \<times> nat) + (nat \<times> nat)" where
  "lru_search P x [] = Inr (x, x)"
| "lru_search P x (y # ys) = (if P y then Inl (x, y) else if ys = [] then Inr (x, y) else lru_search P y ys)"

lemma lru_search_Inl:
  "lru_search P x ys = Inl (l, y) \<Longrightarrow> \<exists>p q. x # ys = p @ l # y # q \<and> P y \<and> find P ys = Some y"
proof (induction ys arbitrary: x)
  case (Cons z zs)
  show ?case
  proof (cases "P z")
    case True
    then have "x # z # zs = [] @ l # y # zs" "P y" "find P (z # zs) = Some y" using Cons.prems by auto
    then show ?thesis by blast
  next
    case False
    then have "lru_search P z zs = Inl (l, y)" using Cons.prems by (auto split: if_splits)
    then obtain p q where "z # zs = p @ l # y # q" "P y" "find P zs = Some y" using Cons.IH by blast
    moreover have "find P (z # zs) = find P zs" using False by simp
    ultimately show ?thesis by (metis append_Cons)
  qed
qed simp

lemma lru_search_Inr:
  "lru_search P x ys = Inr (l, y) \<Longrightarrow> ys \<noteq> [] \<Longrightarrow> \<exists>p. x # ys = p @ [l, y] \<and> find P ys = None"
proof (induction ys arbitrary: x)
  case (Cons z zs)
  show ?case
  proof (cases "zs = []")
    case True
    then show ?thesis using Cons.prems by (auto split: if_splits)
  next
    case False
    then have "lru_search P z zs = Inr (l, y)" "\<not> P z" using Cons.prems by (auto split: if_splits)
    with False obtain p where "z # zs = p @ [l, y]" "find P zs = None" using Cons.IH by blast
    moreover have "find P (z # zs) = find P zs" using \<open>\<not> P z\<close> by simp
    ultimately show ?thesis by (metis append_Cons)
  qed
qed simp

lemma sl_search_run:
  assumes "path (cs_nexts c) (x # ys) e" and "ys \<noteq> []" and "last ys = last_cs c" and "distinct (x # ys)"
    and "length ys \<le> n"
  shows "run_fuel (sl_search_turn c h) n x = Some (lru_search (\<lambda>i. same_conn h (cs_ip (tstate c ! i))) x ys)"
  using assms
proof (induction ys arbitrary: x n)
  case (Cons y ys)
  obtain m where n: "n = Suc m" using Cons.prems(5) by (cases n) auto
  have nx: "cs_next (tstate c ! x) = y" using Cons.prems(1) by (simp add: cs_nexts_def)
  have l: "y = last_cs c \<longleftrightarrow> ys = []" using Cons.prems(3,4) by (metis distinct.simps(2) last_ConsL last_ConsR last_in_set)
  show ?case
    using Cons.IH [of y m] Cons.prems l
    by (auto simp: n sl_search_turn_def nx Let_def)
qed simp

lemma set_tstate_nth:
  "cs_nexts (set_tstate i g c) j = (if i = j \<and> i < length (tstate c) then cs_next (g (tstate c ! i)) else cs_nexts c j)"
  by (cases "i = j") (auto simp: set_tstate_def cs_nexts_def list_update_beyond)

lemma length_set_tstate [simp]: "length (tstate (set_tstate i g c)) = length (tstate c)"
  by (simp add: set_tstate_def)

lemma cs_nexts_other [simp]: "cs_nexts (c\<lparr>last_cs := l\<rparr>) = cs_nexts c"
  by (simp add: cs_nexts_def fun_eq_iff)

lemma sl_front_ring:
  assumes "ring c (p @ l # y # q)"
  shows "ring (sl_front l y c) (y # p @ l # q)"
proof -
  let ?e = "hd (p @ [l])"
  have len: "length (tstate c) = SL_STATES" and dist: "distinct (p @ l # y # q)"
    and set: "set (p @ l # y # q) = {0..<SL_STATES}" and last: "last_cs c = last (y # q)"
    and path: "path (cs_nexts c) p l" "cs_nexts c l = y" "cs_nexts c y = hd (q @ [?e])" "path (cs_nexts c) q ?e"
    using assms by (auto simp: ring_def path_append hd_append split: if_splits)
  have set': "set (y # p @ l # q) = {0..<SL_STATES}" using set by auto
  have less: "l < SL_STATES" "y < SL_STATES" using set' by (metis atLeastLessThan_iff in_set_conv_decomp list.set_intros)+
  show ?thesis
  proof (cases q rule: rev_cases)
    case Nil
    then show ?thesis
      using len dist set' last path by (auto simp: ring_def sl_front_def path_append hd_append Let_def)
  next
    case (snoc q' z)
    have z: "last_cs c = z" "z \<noteq> y" "z \<noteq> l" using last dist snoc by auto
    have zl: "z < SL_STATES" using set' snoc by auto
    have nx: "cs_nexts (sl_front l y c) i = (if i = l then hd (q @ [?e]) else if i = y then ?e else if i = z then y else cs_nexts c i)" for i
      using path(2-4) z less zl dist len snoc
      by (simp add: sl_front_def Let_def set_tstate_nth cs_nexts_def [symmetric] path_append)
    have same: "cs_nexts (sl_front l y c) i = cs_nexts c i" if "i \<in> set p \<union> set q'" for i
      using that dist snoc z by (auto simp: nx)
    have "path (cs_nexts c) q' z" using path(4) snoc by (simp add: path_append)
    with path(1) have "path (cs_nexts (sl_front l y c)) p l" "path (cs_nexts (sl_front l y c)) q' z"
      using same path_cong [of p "cs_nexts (sl_front l y c)" "cs_nexts c"]
        path_cong [of q' "cs_nexts (sl_front l y c)" "cs_nexts c"] by simp_all
    then have "path (cs_nexts (sl_front l y c)) (y # p @ l # q) y"
      using dist snoc z by (simp add: path_append nx hd_append)
    moreover have "length (tstate (sl_front l y c)) = SL_STATES" "last_cs (sl_front l y c) = z"
      using len z by (simp_all add: sl_front_def Let_def set_tstate_def)
    ultimately show ?thesis using dist set' snoc by (simp add: ring_def)
  qed
qed

text \<open>Moving a state keeps what it holds.\<close>

definition same_states :: "slcompress \<Rightarrow> slcompress \<Rightarrow> bool" where
  "same_states c d = (map cs_ip (tstate c) = map cs_ip (tstate d) \<and> map cs_id (tstate c) = map cs_id (tstate d)
     \<and> rstate c = rstate d \<and> last_recv c = last_recv d \<and> slf_toss c = slf_toss d)"

lemma map_update_same: "f y = f (xs ! i) \<Longrightarrow> map f (xs[i := y]) = map f xs"
  by (rule nth_equalityI) (simp, metis length_map nth_list_update_eq nth_list_update_neq nth_map length_list_update)

lemma same_states_next [simp]: "same_states (set_tstate i (\<lambda>x. x\<lparr>cs_next := v\<rparr>) c) d = same_states c d"
  by (simp add: same_states_def set_tstate_def map_update_same)

lemma same_states_last [simp]: "same_states (c\<lparr>last_cs := l\<rparr>) d = same_states c d" "same_states c c"
  by (simp_all add: same_states_def)

lemma sl_front_same: "same_states (sl_front l y c) c"
  by (simp add: sl_front_def Let_def)

definition lru_find :: "(nat \<Rightarrow> bool) \<Rightarrow> nat list \<Rightarrow> bool \<times> nat" where
  "lru_find P r = (case find P r of Some i \<Rightarrow> (True, i) | None \<Rightarrow> (False, last r))"

definition lru_touch :: "nat \<Rightarrow> nat list \<Rightarrow> nat list" where
  "lru_touch i r = i # remove1 i r"

definition conn_at :: "slcompress \<Rightarrow> tcpip \<Rightarrow> nat \<Rightarrow> bool" where
  "conn_at c h i = same_conn h (cs_ip (tstate c ! i))"

lemma ring_last: "ring c (p @ [l, y]) \<Longrightarrow> ring (c\<lparr>last_cs := l\<rparr>) (y # p @ [l])"
  using sl_front_ring [of c p l y "[]"] by (simp add: sl_front_def ring_def)

lemma sl_state_refines:
  assumes "ring c r"
  shows "\<exists>b i c'. sl_state c h = Some (b, i, c') \<and> (b, i) = lru_find (conn_at c h) r
    \<and> ring c' (lru_touch i r) \<and> same_states c' c"
proof -
  have len: "length r = SL_STATES" using assms distinct_card [of r] by (simp add: ring_def)
  then obtain x ys where r: "r = x # ys" "ys \<noteq> []"
    unfolding SL_STATES_def by (cases r; cases "tl r") auto
  have x: "cs_next (tstate c ! last_cs c) = x" 
    using assms r unfolding ring_def cs_nexts_def by (cases ys rule: rev_cases) (auto simp: path_append cs_nexts_def)
  show ?thesis
  proof (cases "conn_at c h x")
    case True
    then show ?thesis using assms x by (auto simp: r sl_state_def lru_find_def lru_touch_def conn_at_def)
  next
    case False
    have "length ys \<le> SL_STATES" using len by (simp add: r)
    then have search: "sl_search c h x = Some (lru_search (conn_at c h) x ys)"
      unfolding sl_search_def conn_at_def using assms r by (intro sl_search_run) (auto simp: ring_def)
    have dist: "distinct (x # ys)" using assms by (simp add: ring_def r)
    show ?thesis
    proof (cases "lru_search (conn_at c h) x ys")
      case (Inl ly)
      obtain l y where ly: "ly = (l, y)" by force
      obtain p q where p: "x # ys = p @ l # y # q" "find (conn_at c h) ys = Some y"
        using lru_search_Inl Inl ly by blast
      have "lru_touch y r = y # p @ l # q" using dist unfolding p(1) r lru_touch_def by (simp add: remove1_append)
      moreover have "ring (sl_front l y c) (y # p @ l # q)" using assms unfolding r p(1) by (rule sl_front_ring)
      ultimately show ?thesis
        using False search Inl x p(2) by (auto simp: r ly sl_state_def lru_find_def sl_front_same conn_at_def)
    next
      case (Inr ly)
      obtain l y where ly: "ly = (l, y)" by force
      obtain p where p: "x # ys = p @ [l, y]" "find (conn_at c h) ys = None"
        using lru_search_Inr Inr ly r by blast
      have "lru_touch y r = y # p @ [l]" using dist unfolding p(1) r lru_touch_def by (simp add: remove1_append)
      moreover have "ring (c\<lparr>last_cs := l\<rparr>) (y # p @ [l])" using assms unfolding r p(1) by (rule ring_last)
      moreover have "last r = y" by (simp add: r p(1))
      ultimately show ?thesis
        using False search Inr x p(2) by (auto simp: r ly sl_state_def lru_find_def conn_at_def)
    qed
  qed
qed

section \<open>Both ends of a line\<close>

text \<open>
  The state a receiver has to have beside a state of the transmitter: the same header, with its
  checksum cleared. Headers in a state were sent before.
\<close>

definition stored :: "tcpip set \<Rightarrow> cstate \<Rightarrow> cstate \<Rightarrow> bool" where
  "stored past t s = (cs_ip t \<in> past \<and> vj_wf (cs_ip t) \<and> compressible (cs_ip t)
     \<and> cs_ip s = (cs_ip t)\<lparr>ip_sum := 0\<rparr> \<and> cs_hlen s = hdr_len (cs_ip t))"

definition sync :: "tcpip set \<Rightarrow> slcompress \<Rightarrow> slcompress \<Rightarrow> bool" where
  "sync past c d = ((\<exists>r. ring c r) \<and> length (rstate d) = SL_STATES
     \<and> (\<forall>i < SL_STATES. cs_id (tstate c ! i) = of_nat i
          \<and> (cs_ip (tstate c ! i) = hdr0 \<or> stored past (tstate c ! i) (rstate d ! i))))"

lemma stored_mono: "stored past t s \<Longrightarrow> past \<subseteq> past' \<Longrightarrow> stored past' t s"
  by (auto simp: stored_def)

lemma sync_mono: "sync past c d \<Longrightarrow> past \<subseteq> past' \<Longrightarrow> sync past' c d"
  unfolding sync_def using stored_mono by blast

lemma sync_same_states: "sync past c d \<Longrightarrow> same_states c' c \<Longrightarrow> ring c' r \<Longrightarrow> sync past c' d"
proof -
  assume s: "sync past c d" "same_states c' c" "ring c' r"
  then have len: "length (tstate c) = SL_STATES" "length (tstate c') = SL_STATES" by (auto simp: sync_def ring_def)
  have "cs_ip (tstate c' ! i) = cs_ip (tstate c ! i)" "cs_id (tstate c' ! i) = cs_id (tstate c ! i)"
    if "i < SL_STATES" for i
    using s(2) that len unfolding same_states_def by (metis nth_map)+
  then show ?thesis using s(1,3) unfolding sync_def stored_def by auto
qed

lemma ring_save: "ring c r \<Longrightarrow> ring ((set_tstate i (\<lambda>x. x\<lparr>cs_ip := h\<rparr>) c)\<lparr>last_xmit := v\<rparr>) r"
proof -
  let ?c = "(set_tstate i (\<lambda>x. x\<lparr>cs_ip := h\<rparr>) c)\<lparr>last_xmit := v\<rparr>"
  have "cs_nexts ?c = cs_nexts (set_tstate i (\<lambda>x. x\<lparr>cs_ip := h\<rparr>) c)"
    by (simp add: fun_eq_iff cs_nexts_def)
  also have "\<dots> = cs_nexts c" by (rule ext) (simp add: set_tstate_nth, simp add: cs_nexts_def)
  finally show "ring c r \<Longrightarrow> ring ?c r" by (simp add: ring_def set_tstate_def)
qed

lemma sync_save:
  assumes "sync past c d" and "i < SL_STATES" and "vj_wf h" and "compressible h"
    and "rstate d' = (rstate d)[i := s]" and "cs_ip s = h\<lparr>ip_sum := 0\<rparr>" and "cs_hlen s = hdr_len h"
  shows "sync (insert h past) ((set_tstate i (\<lambda>x. x\<lparr>cs_ip := h\<rparr>) c)\<lparr>last_xmit := v\<rparr>) d'"
proof -
  let ?c = "(set_tstate i (\<lambda>x. x\<lparr>cs_ip := h\<rparr>) c)\<lparr>last_xmit := v\<rparr>"
  obtain r where r: "ring c r" and len: "length (rstate d) = SL_STATES" "length (tstate c) = SL_STATES"
    using assms(1) by (auto simp: sync_def ring_def)
  have "cs_id (tstate ?c ! j) = of_nat j
      \<and> (cs_ip (tstate ?c ! j) = hdr0 \<or> stored (insert h past) (tstate ?c ! j) (rstate d' ! j))"
    if j: "j < SL_STATES" for j
  proof (cases "i = j")
    case True
    then show ?thesis using assms len by (auto simp: set_tstate_def sync_def stored_def)
  next
    case False
    then show ?thesis using assms(1,5) j stored_mono [OF _ subset_insertI] by (auto simp: set_tstate_def sync_def)
  qed
  moreover have "\<exists>r. ring ?c r" using ring_save [OF r] by blast
  ultimately show ?thesis using len assms(5) unfolding sync_def by simp
qed

lemma cid_small: "i < SL_STATES \<Longrightarrow> unat (of_nat i :: u8) = i" "i < SL_STATES \<Longrightarrow> \<not> of_nat SL_STATES \<le> (of_nat i :: u8)"
  by (simp_all add: SL_STATES_def unat_of_nat word_le_nat_alt)

lemma vj_wf_restore: "vj_wf h \<Longrightarrow> h\<lparr>ip_p := v, ip_p := SL_TCP\<rparr> = h"
  by (cases h) (simp add: vj_wf_def)

lemma sent_uncompressed:
  assumes "sync past c d" and "i < SL_STATES" and "vj_wf h" and "compressible h"
  shows "\<exists>p c' d'. sl_uncompressed i h data c = Some (p, c') \<and> sl_uncompress_tcp junk p d = Some (Some (h, data), d')
    \<and> sync (insert h past) c' d' \<and> (\<forall>a b. p \<noteq> VJ_IP a b)"
proof -
  let ?c = "(set_tstate i (\<lambda>x. x\<lparr>cs_ip := h\<rparr>) c)\<lparr>last_xmit := of_nat i\<rparr>"
  let ?d = "sl_learn i h (d\<lparr>last_recv := of_nat i, slf_toss := False\<rparr>)"
  have len: "length (tstate c) = SL_STATES" "cs_id (tstate c ! i) = of_nat i"
    using assms(1,2) by (auto simp: sync_def ring_def)
  have hl: "\<not> MAX_HDR < hdr_len h" using assms(3) by (simp add: vj_wf_def)
  have "sl_uncompressed i h data c = Some (VJ_UNCOMPRESSED (h\<lparr>ip_p := of_nat i\<rparr>) data, ?c)"
    using hl len assms(2) by (simp add: sl_uncompressed_def save_hdr_def set_tstate_def Let_def)
  moreover have "sl_uncompress_tcp junk (VJ_UNCOMPRESSED (h\<lparr>ip_p := of_nat i\<rparr>) data) d = Some (Some (h, data), ?d)"
    using hl cid_small [OF assms(2)] vj_wf_restore [OF assms(3)] by (simp add: sl_uncompress_tcp_def Let_def)
  moreover have "sync (insert h past) ?c ?d"
    by (rule sync_save [OF assms]) (auto simp: sl_learn_def set_rstate_def)
  ultimately show ?thesis by blast
qed

lemma byte_of_reads: "reads (byte_of (a @ b @ e) junk) (length a) b"
  by (auto simp: reads_def byte_of_def nth_append)

lemma deliver_same:
  fixes l :: u16
  assumes "vj_wf h" and "unat (ip_len h) = hdr_len h + length data"
  defines "x \<equiv> h\<lparr>ip_sum := 0, ip_len := l\<rparr>"
  shows "sl_deliver i x (hdr_len h) data d = Some (Some (h, data), set_rstate i (\<lambda>y. y\<lparr>cs_ip := h\<lparr>ip_sum := 0\<rparr>\<rparr>) d)"
proof -
  have "of_nat (length data + hdr_len h) = ip_len h" 
    by (simp flip: assms(2) add: add.commute [of "length data"] del: of_nat_add)
  then have "x\<lparr>ip_len := of_nat (length data + hdr_len h)\<rparr> = h\<lparr>ip_sum := 0\<rparr>"
    unfolding x_def by (cases h) simp
  moreover have "h\<lparr>ip_sum := ip_cksum (h\<lparr>ip_sum := 0\<rparr>)\<rparr> = h" using assms(1) by (cases h) (simp add: vj_wf_def)
  ultimately show ?thesis by (simp add: sl_deliver_def Let_def)
qed

lemma sent_compressed:
  assumes "sync past c d" and i: "i < SL_STATES" and h: "vj_wf h" "compressible h" "same_conn h (cs_ip (tstate c ! i))"
    and len: "unat (ip_len h) = hdr_len h + length data" and urg: "urg (cs_ip (tstate c ! i)) \<Longrightarrow> urg h"
    and ch: "tcp_changes (cs_ip (tstate c ! i)) h = Some (ch, seq)"
  shows "\<exists>p c' d'. sl_compressed i h data ch seq c = Some (p, c') \<and> sl_uncompress_tcp junk p d = Some (Some (h, data), d')
    \<and> sync (insert h past) c' d' \<and> (\<forall>a b. p \<noteq> VJ_IP a b)"
proof -
  let ?g = "cs_ip (tstate c ! i)" and ?push = "if th_flags h AND TH_PUSH \<noteq> 0 then TCP_PUSH_BIT else 0"
  obtain ci bi where ci: "ipid_change ?g h = (ci, bi)" by force
  have ci_cases: "ci = 0 \<or> ci = NEW_I" using ci by (auto simp: ipid_change_def Let_def split: if_splits)
  define byte where "byte = ch OR ci OR ?push OR NEW_C"
  define b where "b = [byte, of_nat i] @ (sum_bytes (th_sum h) @ seq @ bi) @ data"
  let ?c = "(set_tstate i (\<lambda>x. x\<lparr>cs_ip := h\<rparr>) c)\<lparr>last_xmit := of_nat i\<rparr>"
  have "ip_hl hdr0 = 0" by (simp add: hdr0_def ip_hl_def)
  then have "?g \<noteq> hdr0" using tcp_changes_fixed(1) [OF ch] h(1) by (auto simp: hdr_fixed_def vj_wf_def ip_hl_def)
  then have st: "stored past (tstate c ! i) (rstate d ! i)" and id: "cs_id (tstate c ! i) = of_nat i"
      and ln: "length (tstate c) = SL_STATES" "length (rstate d) = SL_STATES"
    using assms(1) i by (auto simp: sync_def ring_def)
  have hl: "\<not> MAX_HDR < hdr_len h" using h(1) by (simp add: vj_wf_def)
  have p: "sl_compressed i h data ch seq c = Some (VJ_COMPRESSED b, ?c)"
    using hl ci id i ln by (simp add: sl_compressed_def save_hdr_def set_tstate_def Let_def b_def byte_def)
  have rd: "reads (byte_of b junk) 2 (sum_bytes (th_sum h) @ seq @ bi)" "byte_of b junk 0 = byte" "byte_of b junk 1 = of_nat i"
    using byte_of_reads [of "[byte, of_nat i]" "sum_bytes (th_sum h) @ seq @ bi" data junk]
    by (simp_all add: b_def byte_of_def numeral_2_eq_2 del: append_assoc)
  have dec: "hdr_decode (byte_of b junk) byte 2 (hdr_len ?g) (?g\<lparr>ip_sum := 0\<rparr>)
     = (2 + 2 + length seq + length bi, h\<lparr>ip_sum := 0, ip_len := ip_len ?g\<rparr>)"
    using st h urg by (intro hdr_decode_changes [OF ch ci byte_def rd(1)]) (auto simp: stored_def)
  have "byte AND NEW_C \<noteq> 0"
    using change_byte(4) [OF tcp_changes_fixed(3) [OF ch] ci_cases] unfolding byte_def .
  then have idx: "conn_index (byte_of b junk) d = Inr (2, d\<lparr>slf_toss := False, last_recv := of_nat i\<rparr>)"
    using cid_small(2) [OF i] unfolding conn_index_def rd(2,3) by simp
  have off: "length b = 2 + 2 + length seq + length bi + length data" "drop (2 + 2 + length seq + length bi) b = data"
    by (simp_all add: b_def sum_bytes_def numeral_eq_Suc)
  define d' where "d' = set_rstate i (\<lambda>y. y\<lparr>cs_ip := h\<lparr>ip_sum := 0\<rparr>\<rparr>)
     (set_rstate i (\<lambda>y. y\<lparr>cs_ip := h\<lparr>ip_sum := 0, ip_len := ip_len ?g\<rparr>\<rparr>) (d\<lparr>slf_toss := False, last_recv := of_nat i\<rparr>))"
  have ok: "\<not> (length (rstate d) \<le> i \<or> ip_hl (cs_ip (rstate d ! i)) < 5)"
    using st i ln by (simp add: stored_def vj_wf_def ip_hl_def)
  have "sl_uncompress_tcp junk (VJ_COMPRESSED b) d = sl_deliver i (h\<lparr>ip_sum := 0, ip_len := ip_len ?g\<rparr>) (hdr_len h) data
     (set_rstate i (\<lambda>y. y\<lparr>cs_ip := h\<lparr>ip_sum := 0, ip_len := ip_len ?g\<rparr>\<rparr>) (d\<lparr>slf_toss := False, last_recv := of_nat i\<rparr>))"
    using ok st dec off cid_small(1) [OF i] tcp_changes_fixed(2) [OF ch]
    by (simp add: sl_uncompress_tcp_def idx rd(2) stored_def Let_def)
  also have "\<dots> = Some (Some (h, data), d')"
    unfolding d'_def by (rule deliver_same [OF h(1) len])
  finally have "sl_uncompress_tcp junk (VJ_COMPRESSED b) d = Some (Some (h, data), d')" .
  moreover have "sync (insert h past) ?c d'"
    by (rule sync_save [OF assms(1) i h(1,2), where s = "(rstate d ! i)\<lparr>cs_ip := h\<lparr>ip_sum := 0\<rparr>\<rparr>"])
      (use st i ln tcp_changes_fixed(2) [OF ch] in \<open>simp_all add: d'_def set_rstate_def stored_def\<close>)
  ultimately show ?thesis using p by blast
qed

text \<open>
  A packet taken through the line: it is compressed at one end, and what arrives is handed to the
  receiver unless it is an ordinary IP packet.
\<close>

definition sl_receive :: "(nat \<Rightarrow> u8) \<Rightarrow> vjpkt \<Rightarrow> slcompress \<Rightarrow> ((tcpip \<times> u8 list) option \<times> slcompress) option" where
  "sl_receive junk p d = (case p of VJ_IP h data \<Rightarrow> Some (Some (h, data), d) | _ \<Rightarrow> sl_uncompress_tcp junk p d)"

fun vj_line :: "(nat \<Rightarrow> u8) \<Rightarrow> (tcpip \<times> u8 list) list \<Rightarrow> slcompress \<Rightarrow> slcompress \<Rightarrow> (tcpip \<times> u8 list) option list option" where
  "vj_line junk [] c d = Some []"
| "vj_line junk ((h, data) # ps) c d = (case sl_compress_tcp (hdr_len h + length data) h data c of
      None \<Rightarrow> None
    | Some (p, c) \<Rightarrow> (case sl_receive junk p d of
        None \<Rightarrow> None
      | Some (r, d) \<Rightarrow> map_option ((#) r) (vj_line junk ps c d)))"

lemma lru_find_True: "(True, i) = lru_find P r \<Longrightarrow> P i"
  by (auto simp: lru_find_def find_Some_iff split: option.splits)

lemma same_states_ip: "same_states c' c \<Longrightarrow> i < length (tstate c') \<Longrightarrow> cs_ip (tstate c' ! i) = cs_ip (tstate c ! i)"
  unfolding same_states_def by (metis length_map nth_map)

lemma line_step:
  assumes sync: "sync past c d" and h: "vj_wf h" "unat (ip_len h) = hdr_len h + length data"
    and urg: "\<And>g. g \<in> past \<Longrightarrow> same_conn h g \<Longrightarrow> urg g \<Longrightarrow> urg h"
  shows "\<exists>p c' d'. sl_compress_tcp (hdr_len h + length data) h data c = Some (p, c')
     \<and> sl_receive junk p d = Some (Some (h, data), d') \<and> sync (insert h past) c' d'"
proof (cases "compressible h")
  case False
  then have "sl_compress_tcp (hdr_len h + length data) h data c = Some (VJ_IP h data, c)"
    by (auto simp: sl_compress_tcp_def compressible_def)
  moreover have "sync (insert h past) c d" using sync by (rule sync_mono) auto
  ultimately show ?thesis by (simp add: sl_receive_def)
next
  case True
  have "\<not> hdr_len h + length data < 40" using h(1) by (simp add: vj_wf_def hdr_len_def)
  with True have go: "\<not> (ip_off h AND 0x3fff \<noteq> 0 \<or> hdr_len h + length data < 40)"
      "\<not> th_flags h AND (TH_SYN OR TH_FIN OR TH_RST OR TH_ACK) \<noteq> TH_ACK"
    by (simp_all add: compressible_def)
  obtain r where r: "ring c r" using sync by (auto simp: sync_def)
  obtain b i c1 where st: "sl_state c h = Some (b, i, c1)" "(b, i) = lru_find (conn_at c h) r"
      "ring c1 (lru_touch i r)" "same_states c1 c"
    using sl_state_refines [OF r] by blast
  have i: "i < SL_STATES" using st(3) by (auto simp: ring_def lru_touch_def)
  have c1: "sync past c1 d" by (rule sync_same_states [OF sync st(4,3)])
  let ?g = "cs_ip (tstate c1 ! i)"
  have recv: "sl_receive junk p d = sl_uncompress_tcp junk p d" if "\<forall>a b. p \<noteq> VJ_IP a b" for p
    using that by (cases p) (simp_all add: sl_receive_def)
  show ?thesis
  proof (cases "if b then tcp_changes ?g h else None")
    case None
    then have "sl_compress_tcp (hdr_len h + length data) h data c = sl_uncompressed i h data c1"
      using go st(1) by (cases b) (simp_all add: sl_compress_tcp_def)
    with sent_uncompressed [OF c1 i h(1) True] recv show ?thesis by metis
  next
    case (Some cs)
    obtain ch seq where cs: "cs = (ch, seq)" by force
    then have ch: "b" "tcp_changes ?g h = Some (ch, seq)" using Some by (auto split: if_splits)
    then have eq: "sl_compress_tcp (hdr_len h + length data) h data c = sl_compressed i h data ch seq c1"
      using go st(1) by (simp add: sl_compress_tcp_def)
    have conn: "same_conn h ?g"
      using st(2) ch(1) lru_find_True [of i "conn_at c h" r] same_states_ip [OF st(4)] i st(3)
      by (simp add: conn_at_def ring_def)
    moreover have "urg ?g \<Longrightarrow> urg h"
    proof -
      have "?g = hdr0 \<or> ?g \<in> past" using c1 i unfolding sync_def stored_def by blast
      moreover have "\<not> urg hdr0" by (simp add: urg_def hdr0_def)
      ultimately show "urg ?g \<Longrightarrow> urg h" using urg conn by metis
    qed
    ultimately have "\<exists>p c' d'. sl_compressed i h data ch seq c1 = Some (p, c') \<and> sl_uncompress_tcp junk p d = Some (Some (h, data), d')
        \<and> sync (insert h past) c' d' \<and> (\<forall>a b. p \<noteq> VJ_IP a b)"
      using sent_compressed [OF c1 i h(1) True _ h(2) _ ch(2)] by blast
    with eq recv show ?thesis by metis
  qed
qed

definition urg_stays :: "tcpip \<times> u8 list \<Rightarrow> tcpip \<times> u8 list \<Rightarrow> bool" where
  "urg_stays p q = (same_conn (fst q) (fst p) \<and> urg (fst p) \<longrightarrow> urg (fst q))"

definition vj_packet :: "tcpip \<times> u8 list \<Rightarrow> bool" where
  "vj_packet p = (vj_wf (fst p) \<and> unat (ip_len (fst p)) = hdr_len (fst p) + length (snd p))"

lemma line_run:
  assumes "sync past c d" and "list_all vj_packet ps" and "sorted_wrt urg_stays ps"
    and "\<And>g p. g \<in> past \<Longrightarrow> p \<in> set ps \<Longrightarrow> same_conn (fst p) g \<Longrightarrow> urg g \<Longrightarrow> urg (fst p)"
  shows "vj_line junk ps c d = Some (map Some ps)"
  using assms
proof (induction ps arbitrary: past c d)
  case (Cons p ps)
  obtain h data where p: "p = (h, data)" by force
  have "vj_wf h" "unat (ip_len h) = hdr_len h + length data" using Cons.prems(2) by (simp_all add: p vj_packet_def)
  moreover have "g \<in> past \<Longrightarrow> same_conn h g \<Longrightarrow> urg g \<Longrightarrow> urg h" for g
    using Cons.prems(4) [of g p] by (simp add: p)
  ultimately obtain q c' d'
    where q: "sl_compress_tcp (hdr_len h + length data) h data c = Some (q, c')"
      "sl_receive junk q d = Some (Some (h, data), d')" "sync (insert h past) c' d'"
    using line_step [OF Cons.prems(1)] by blast
  have "vj_line junk ps c' d' = Some (map Some ps)"
    using Cons.prems(2-4) by (intro Cons.IH [OF q(3)]) (auto simp: p urg_stays_def)
  then show ?case by (simp add: p q(1,2))
qed simp

lemma ring_init: "ring sl_compress_init (rev [0..<SL_STATES])"
proof -
  have "length (tstate sl_compress_init) = SL_STATES" by (simp add: sl_compress_init_def)
  moreover have "last_cs sl_compress_init = last (rev [0..<SL_STATES])"
    by (simp add: sl_compress_init_def last_rev SL_STATES_def)
  moreover have "path (cs_nexts sl_compress_init) (rev [0..<SL_STATES]) (hd (rev [0..<SL_STATES]))"
    by code_simp
  ultimately show ?thesis by (simp add: ring_def atLeast0LessThan)
qed

lemma sync_init: "sync {} sl_compress_init sl_compress_init"
proof -
  have "cs_id (tstate sl_compress_init ! i) = of_nat i \<and> cs_ip (tstate sl_compress_init ! i) = hdr0"
    if "i < SL_STATES" for i
    using that by (simp add: sl_compress_init_def cstate0_def)
  with ring_init show ?thesis by (auto simp: sync_def sl_compress_init_def)
qed

section \<open>Properties\<close>

text \<open>
  What the transmitter does to its states is a cache of sixteen headers that replaces the least
  recently used one: the indices in order of use and the header of each index.
\<close>

definition lru_put :: "tcpip \<Rightarrow> nat list \<times> tcpip list \<Rightarrow> nat list \<times> tcpip list" where
  "lru_put h cache = (case cache of (r, hs) \<Rightarrow>
     let i = snd (lru_find (\<lambda>i. same_conn h (hs ! i)) r) in (lru_touch i r, hs[i := h]))"

definition headers :: "slcompress \<Rightarrow> tcpip list" where
  "headers c = map cs_ip (tstate c)"

lemma lru_find_conn:
  "ring c r \<Longrightarrow> lru_find (\<lambda>i. same_conn h (headers c ! i)) r = lru_find (conn_at c h) r"
proof -
  assume "ring c r"
  then have "\<forall>i \<in> set r. same_conn h (headers c ! i) = conn_at c h i"
    by (simp add: ring_def headers_def conn_at_def)
  then have "find (\<lambda>i. same_conn h (headers c ! i)) r = find (conn_at c h) r"
    by (induction r) auto
  then show ?thesis by (simp add: lru_find_def)
qed

lemma sent_saved:
  assumes "hdr_len h \<le> MAX_HDR"
  shows "\<exists>p v. sl_uncompressed i h data c = Some (p, (set_tstate i (\<lambda>x. x\<lparr>cs_ip := h\<rparr>) c)\<lparr>last_xmit := v\<rparr>)"
    and "\<exists>p v. sl_compressed i h data ch seq c = Some (p, (set_tstate i (\<lambda>x. x\<lparr>cs_ip := h\<rparr>) c)\<lparr>last_xmit := v\<rparr>)"
  using assms by (auto simp: sl_uncompressed_def sl_compressed_def save_hdr_def Let_def split: prod.splits)

text \<open>
  Property C16. The transmitter keeps its connections as a cache that replaces the least recently
  used one: for every packet that can be compressed, whose header fits a state, \<open>sl_compress_tcp\<close> ends,
  and the ring linked through \<open>cs_next\<close> and \<open>last_cs\<close> is then a ring again, in the order that touching
  the state of the packet's connection gives, or of the oldest state if no state is of this connection;
  this state holds the packet's header, and the other states are as before.
\<close>

theorem sl_compress_tcp_lru:
  assumes "ring c r" and "compressible h" and "40 \<le> m_len" and "hdr_len h \<le> MAX_HDR"
  shows "\<exists>p c'. sl_compress_tcp m_len h data c = Some (p, c') \<and> ring c' (fst (lru_put h (r, headers c)))
    \<and> headers c' = snd (lru_put h (r, headers c))"
proof -
  have go: "\<not> (ip_off h AND 0x3fff \<noteq> 0 \<or> m_len < 40)" "\<not> th_flags h AND (TH_SYN OR TH_FIN OR TH_RST OR TH_ACK) \<noteq> TH_ACK"
    using assms(2,3) by (simp_all add: compressible_def)
  obtain b i c1 where st: "sl_state c h = Some (b, i, c1)" "(b, i) = lru_find (conn_at c h) r"
      "ring c1 (lru_touch i r)" "same_states c1 c"
    using sl_state_refines [OF assms(1)] by blast
  have put: "lru_put h (r, headers c) = (lru_touch i r, (headers c)[i := h])"
    by (simp add: lru_put_def lru_find_conn [OF assms(1)] st(2) [symmetric])
  let ?c = "\<lambda>v. (set_tstate i (\<lambda>x. x\<lparr>cs_ip := h\<rparr>) c1)\<lparr>last_xmit := v\<rparr>"
  have hs: "headers (?c v) = (headers c)[i := h]" for v
    using st(4) by (simp add: headers_def set_tstate_def same_states_def map_update)
  have "\<exists>p v. sl_compress_tcp m_len h data c = Some (p, ?c v)"
    using go st(1) sent_saved(1) [OF assms(4), of i data c1] sent_saved(2) [OF assms(4), of i data _ _ c1]
    unfolding sl_compress_tcp_def
    by (cases b; cases "tcp_changes (cs_ip (tstate c1 ! i)) h") auto
  then show ?thesis using ring_save [OF st(3)] hs put by fastforce
qed

text \<open>A packet on a new connection takes over state 0, the oldest one.\<close>

definition pkt_hdr :: "u16 \<Rightarrow> u32 \<Rightarrow> u8 \<Rightarrow> u16 \<Rightarrow> tcpip" where
  "pkt_hdr ident seqno flags len = (let h = hdr0\<lparr>ip_vhl := 0x45, ip_len := len, ip_id := ident, ip_ttl := 64, ip_p := SL_TCP,
     ip_src := 0x0a000001, ip_dst := 0x0a000002, th_ports := 0x04000017, th_seq := seqno, th_ack := 7,
     th_offx2 := 0x50, th_flags := flags, th_win := 4096, th_sum := 0x1234\<rparr> in h\<lparr>ip_sum := ip_cksum h\<rparr>)"

theorem sl_compress_tcp_lru_witness:
  "\<exists>p c'. sl_compress_tcp 41 (pkt_hdr 1 100 0x10 41) [65] sl_compress_init = Some (p, c')
    \<and> ring c' (fst (lru_put (pkt_hdr 1 100 0x10 41) (rev [0..<16], headers sl_compress_init)))
    \<and> headers c' = snd (lru_put (pkt_hdr 1 100 0x10 41) (rev [0..<16], headers sl_compress_init))"
proof (rule sl_compress_tcp_lru)
  show "ring sl_compress_init (rev [0..<16])" using ring_init by (simp add: SL_STATES_def)
  show "compressible (pkt_hdr 1 100 0x10 41)" by code_simp
  show "hdr_len (pkt_hdr 1 100 0x10 41) \<le> MAX_HDR" by code_simp
qed simp

text \<open>
  Property C15. Header compression loses nothing: over a line that loses no packet, from the states
  that \<open>sl_compress_init\<close> leaves at both ends, every list of TCP packets, of any number of connections,
  arrives as it was sent, whether its packets go as IP, uncompressed or compressed, with the special
  encodings of sequence and acknowledgement numbers, and whatever the receiver would read after the end
  of a packet. The packets have lengths, checksum and option fields that agree, no reserved bits, a
  header of at most 108 bytes, and on a connection the urgent flag is not taken back.
\<close>

theorem vj_lossless:
  assumes "list_all vj_packet ps" and "sorted_wrt urg_stays ps"
  shows "vj_line junk ps sl_compress_init sl_compress_init = Some (map Some ps)"
  by (rule line_run [OF sync_init assms]) simp

theorem vj_lossless_witness:
  "vj_line (\<lambda>_. 0) [(pkt_hdr 1 100 0x10 41, [65]), (pkt_hdr 2 101 0x18 42, [66, 67]), (pkt_hdr 9 103 0x10 41, [68])]
     sl_compress_init sl_compress_init
   = Some [Some (pkt_hdr 1 100 0x10 41, [65]), Some (pkt_hdr 2 101 0x18 42, [66, 67]), Some (pkt_hdr 9 103 0x10 41, [68])]"
proof -
  let ?ps = "[(pkt_hdr 1 100 0x10 41, [65]), (pkt_hdr 2 101 0x18 42, [66, 67]), (pkt_hdr 9 103 0x10 41, [68])]"
  have "list_all vj_packet ?ps" by code_simp
  moreover have "sorted_wrt urg_stays ?ps" by code_simp
  ultimately show ?thesis using vj_lossless [of ?ps "\<lambda>_. 0"] by simp
qed

text \<open>Of the second packet, five bytes of header are sent.\<close>

lemma second_packet_compressed:
  "(case sl_compress_tcp 41 (pkt_hdr 1 100 0x10 41) [65] sl_compress_init of
      Some (_, c) \<Rightarrow> map_option fst (sl_compress_tcp 42 (pkt_hdr 2 101 0x18 42) [66, 67] c) | None \<Rightarrow> None)
   = Some (VJ_COMPRESSED [0x5f, 0, 0x12, 0x34, 66, 67])"
  by code_simp

text \<open>
  Without the condition on the urgent flag it is not so: a special encoding does not clear the flag at
  the receiver, although the packet does not have it.
\<close>

lemma urgent_flag_sticks:
  "map_option (map (map_option (th_flags \<circ> fst)))
     (vj_line (\<lambda>_. 0) [(pkt_hdr 1 100 0x30 41, [65]), (pkt_hdr 2 101 0x10 41, [66])] sl_compress_init sl_compress_init)
   = Some [Some 0x30, Some 0x30]"
  by code_simp

text \<open>
  Before a state index was received, a compressed packet without one makes the receiver use
  \<open>rstate[255]\<close>, as \<open>SLF_TOSS\<close> is not set initially.
\<close>

lemma no_index_yet:
  "byte_of b junk 0 AND NEW_C = 0 \<Longrightarrow> sl_uncompress_tcp junk (VJ_COMPRESSED b) sl_compress_init = None"
  by (simp add: sl_uncompress_tcp_def conn_index_def Let_def sl_compress_init_def SL_STATES_def)

text \<open>The receiver for mbufs agrees with the other one on packets in one mbuf whose header fits.\<close>

lemma sl_muncompress_same:
  assumes "\<And>b. p = VJ_COMPRESSED b \<Longrightarrow> m_len = length b \<and> ok" and "\<And>h d. p = VJ_UNCOMPRESSED h d \<Longrightarrow> hdr_len h \<le> MAX_HDR"
  shows "sl_muncompress_tcp junk m_len ok p c = sl_uncompress_tcp junk p c"
proof (cases p)
  case (VJ_UNCOMPRESSED h d)
  then have "hdr_len (h\<lparr>ip_p := SL_TCP\<rparr>) \<le> MAX_HDR"
    using assms(2) by (simp add: hdr_len_def ip_hl_def th_off_def)
  then show ?thesis by (simp add: VJ_UNCOMPRESSED sl_muncompress_tcp_def sl_uncompress_tcp_def Let_def)
next
  case (VJ_COMPRESSED b)
  then have "m_len = length b" "ok = True" using assms(1) by simp_all
  then show ?thesis
    unfolding VJ_COMPRESSED sl_muncompress_tcp_def sl_uncompress_tcp_def vjpkt.case by (simp only: simp_thms)
qed (simp add: sl_muncompress_tcp_def sl_uncompress_tcp_def)

end
