(* ===== verification/Ncache.thy ===== *)
theory Ncache
  imports Prelude
begin

text \<open>
  The cache of names of directory entries, \<^verbatim>\<open>sys/kern/vfs_cache.c\<close> with \<^verbatim>\<open>struct namecache\<close> of
  \<^verbatim>\<open>sys/sys/namei.h\<close>, and its coherence with the directories it remembers.

  Entries are at addresses. The chain in order of use, from \<^verbatim>\<open>nchhead\<close> to \<^verbatim>\<open>nchtail\<close>, and each chain of the
  hash table are lists of addresses; an entry on a dummy chain of its own is on none of them. Of a vnode
  the cache uses its capability number \<^verbatim>\<open>v_id\<close> and its mount point. Following a null \<^verbatim>\<open>nchhead\<close> is \<open>None\<close>, and so
  is copying a name longer than \<^verbatim>\<open>nc_name\<close>. The address that \<^verbatim>\<open>malloc\<close> returns is an argument.
\<close>

section \<open>Structures\<close>

record vnode =
  v_id :: u32
  v_mount :: nat

record namecache =
  nc_dvp :: "nat option"
  nc_dvpid :: u32
  nc_vp :: "nat option"
  nc_vpid :: u32
  nc_nlen :: nat
  nc_name :: "u8 list"

record nchstats =
  ncs_goodhits :: nat
  ncs_neghits :: nat
  ncs_badhits :: nat
  ncs_falsehits :: nat
  ncs_miss :: nat
  ncs_long :: nat

record ncache =
  nchashtbl :: "nat list list"
  nchash :: u32
  numcache :: nat
  nchlru :: "nat list"
  nchstat :: nchstats
  doingcache :: bool
  nc_at :: "nat \<Rightarrow> namecache"
  vn_at :: "nat \<Rightarrow> vnode"
  nextvnodeid :: u32
  desiredvnodes :: nat

record nameidata =
  ni_dvp :: nat
  ni_vp :: "nat option"
  ni_ptr :: "u8 list"
  ni_namelen :: nat
  ni_hash :: u32
  ni_makeentry :: bool
  ni_nameiop :: u32

definition NCHNAMLEN :: nat where "NCHNAMLEN = 31"
definition CREATE :: u32 where "CREATE = 1"
definition OPMASK :: u32 where "OPMASK = 3"

section \<open>Chains\<close>

definition set_nc :: "nat \<Rightarrow> (namecache \<Rightarrow> namecache) \<Rightarrow> ncache \<Rightarrow> ncache" where
  "set_nc a f s = s\<lparr>nc_at := (nc_at s)(a := f (nc_at s a))\<rparr>"

definition remque :: "nat \<Rightarrow> ncache \<Rightarrow> ncache" where
  "remque a s = s\<lparr>nchashtbl := map (filter (\<lambda>b. b \<noteq> a)) (nchashtbl s)\<rparr>"

definition insque :: "nat \<Rightarrow> nat \<Rightarrow> ncache \<Rightarrow> ncache" where
  "insque a i s = s\<lparr>nchashtbl := (nchashtbl s)[i := a # nchashtbl s ! i]\<rparr>"

definition lru_remove :: "nat \<Rightarrow> ncache \<Rightarrow> ncache" where
  "lru_remove a s = s\<lparr>nchlru := remove1 a (nchlru s)\<rparr>"

definition lru_append :: "nat \<Rightarrow> ncache \<Rightarrow> ncache" where
  "lru_append a s = s\<lparr>nchlru := nchlru s @ [a]\<rparr>"

text \<open>The code stores through \<^verbatim>\<open>nchhead\<close> without testing it.\<close>

definition lru_push :: "nat \<Rightarrow> ncache \<Rightarrow> ncache option" where
  "lru_push a s = (if nchlru s = [] then None else Some (s\<lparr>nchlru := a # nchlru s\<rparr>))"

definition lru_used :: "nat \<Rightarrow> ncache \<Rightarrow> ncache" where
  "lru_used a s = (if last (nchlru s) = a then s else lru_append a (lru_remove a s))"

definition bucket :: "u32 \<Rightarrow> ncache \<Rightarrow> nat" where
  "bucket h s = unat (h AND nchash s)"

section \<open>Lookup\<close>

definition nc_match :: "nameidata \<Rightarrow> ncache \<Rightarrow> nat \<Rightarrow> bool" where
  "nc_match nd s a = (let e = nc_at s a in nc_dvp e = Some (ni_dvp nd) \<and> nc_dvpid e = v_id (vn_at s (ni_dvp nd))
     \<and> nc_nlen e = ni_namelen nd \<and> take (nc_nlen e) (nc_name e) = take (nc_nlen e) (ni_ptr nd))"

definition count :: "(nchstats \<Rightarrow> nchstats) \<Rightarrow> ncache \<Rightarrow> ncache" where
  "count f s = s\<lparr>nchstat := f (nchstat s)\<rparr>"

text \<open>The end of \<open>cache_lookup\<close>: the entry goes to the head of the chain, first to be reused.\<close>

definition cache_drop :: "nat \<Rightarrow> nameidata \<Rightarrow> ncache \<Rightarrow> (int \<times> nameidata \<times> ncache) option" where
  "cache_drop a nd s = map_option (\<lambda>s. (0, nd, s)) (lru_push a (remque a (lru_remove a s)))"

text \<open>The status is \<open>-1\<close> for a name found, 2 (\<^verbatim>\<open>ENOENT\<close>) for one known not to exist, 0 for one not known.\<close>

definition cache_hit :: "nat \<Rightarrow> nameidata \<Rightarrow> ncache \<Rightarrow> (int \<times> nameidata \<times> ncache) option" where
  "cache_hit a nd s = (let e = nc_at s a in
     if \<not> ni_makeentry nd then cache_drop a nd (count (\<lambda>t. t\<lparr>ncs_badhits := ncs_badhits t + 1\<rparr>) s)
     else (case nc_vp e of
        None \<Rightarrow>
          if ni_nameiop nd AND OPMASK \<noteq> CREATE
          then Some (2, nd, lru_used a (count (\<lambda>t. t\<lparr>ncs_neghits := ncs_neghits t + 1\<rparr>) s))
          else cache_drop a nd s
      | Some vp \<Rightarrow>
          if nc_vpid e \<noteq> v_id (vn_at s vp)
          then cache_drop a nd (count (\<lambda>t. t\<lparr>ncs_falsehits := ncs_falsehits t + 1\<rparr>) s)
          else Some (- 1, nd\<lparr>ni_vp := Some vp\<rparr>, lru_used a (count (\<lambda>t. t\<lparr>ncs_goodhits := ncs_goodhits t + 1\<rparr>) s))))"

definition cache_lookup :: "nameidata \<Rightarrow> ncache \<Rightarrow> (int \<times> nameidata \<times> ncache) option" where
  "cache_lookup nd s =
     (if \<not> doingcache s then Some (0, nd, s)
      else if NCHNAMLEN < ni_namelen nd
      then Some (0, nd\<lparr>ni_makeentry := False\<rparr>, count (\<lambda>t. t\<lparr>ncs_long := ncs_long t + 1\<rparr>) s)
      else (case find (nc_match nd s) (nchashtbl s ! bucket (ni_hash nd) s) of
         None \<Rightarrow> Some (0, nd, count (\<lambda>t. t\<lparr>ncs_miss := ncs_miss t + 1\<rparr>) s)
       | Some a \<Rightarrow> cache_hit a nd s))"

section \<open>Entering names\<close>

definition nc_zero :: namecache where
  "nc_zero = \<lparr>nc_dvp = None, nc_dvpid = 0, nc_vp = None, nc_vpid = 0, nc_nlen = 0, nc_name = replicate NCHNAMLEN 0\<rparr>"

text \<open>The slot to use, taken from the chains, or none.\<close>

definition cache_slot :: "nat \<Rightarrow> ncache \<Rightarrow> (nat \<times> ncache) option" where
  "cache_slot new s =
     (if numcache s < desiredvnodes s
      then Some (new, (set_nc new (\<lambda>_. nc_zero) s)\<lparr>numcache := numcache s + 1\<rparr>)
      else (case nchlru s of [] \<Rightarrow> None | a # _ \<Rightarrow> Some (a, remque a (lru_remove a s))))"

definition nc_fill :: "nameidata \<Rightarrow> ncache \<Rightarrow> namecache \<Rightarrow> namecache" where
  "nc_fill nd s e = e\<lparr>nc_vp := ni_vp nd,
     nc_vpid := (case ni_vp nd of Some vp \<Rightarrow> v_id (vn_at s vp) | None \<Rightarrow> 0),
     nc_dvp := Some (ni_dvp nd), nc_dvpid := v_id (vn_at s (ni_dvp nd)), nc_nlen := ni_namelen nd,
     nc_name := take (ni_namelen nd) (ni_ptr nd) @ drop (ni_namelen nd) (nc_name e)\<rparr>"

definition cache_enter :: "nat \<Rightarrow> nameidata \<Rightarrow> ncache \<Rightarrow> ncache option" where
  "cache_enter new nd s =
     (if \<not> doingcache s then Some s
      else (case cache_slot new s of
         None \<Rightarrow> Some s
       | Some (a, s) \<Rightarrow>
          if NCHNAMLEN < ni_namelen nd then None
          else Some (insque a (bucket (ni_hash nd) s) (lru_append a (set_nc a (nc_fill nd s) s)))))"

section \<open>Initialisation\<close>

definition nchashsize :: "nat \<Rightarrow> nat" where
  "nchashsize desired = ((desired + 1) * 8 div 2 + 4095) div 4096 * 4096"

definition nchash_turn :: "nat \<Rightarrow> u32 \<Rightarrow> u32 + u32" where
  "nchash_turn sz h = (if h \<le> of_nat (sz div 8) then Inl (push_bit 1 h) else Inr h)"

definition nchinit :: "ncache \<Rightarrow> ncache option" where
  "nchinit s = (case run_fuel (nchash_turn (nchashsize (desiredvnodes s))) 32 1 of
     None \<Rightarrow> None
   | Some h \<Rightarrow> let h = drop_bit 1 h - 1 in
       Some (s\<lparr>nchlru := [], nchash := h, nchashtbl := replicate (unat h + 1) []\<rparr>))"

section \<open>Purging\<close>

definition nc_forget :: "namecache \<Rightarrow> namecache" where
  "nc_forget e = e\<lparr>nc_vpid := 0, nc_dvpid := 0\<rparr>"

definition set_v_id :: "nat \<Rightarrow> ncache \<Rightarrow> ncache" where
  "set_v_id v s = (let n = nextvnodeid s + 1 in
     s\<lparr>nextvnodeid := n, vn_at := (vn_at s)(v := vn_at s v\<lparr>v_id := n\<rparr>)\<rparr>)"

definition cache_purge :: "nat \<Rightarrow> ncache \<Rightarrow> ncache" where
  "cache_purge v s = (let s = set_v_id v s in
     if nextvnodeid s \<noteq> 0 then s
     else set_v_id v (s\<lparr>nc_at := (\<lambda>a. if \<exists>c \<in> set (nchashtbl s). a \<in> set c then nc_forget (nc_at s a) else nc_at s a)\<rparr>))"

text \<open>
  The loop of \<open>cache_purgevfs\<close>: its state is the rest of the chain from \<^verbatim>\<open>ncp\<close> on. An entry that is dropped
  is put back at the head, and the scan starts again with the entry that was the head then.
\<close>

definition purgevfs_turn :: "nat \<Rightarrow> nat list \<times> ncache \<Rightarrow> (nat list \<times> ncache) + ncache option" where
  "purgevfs_turn mp st = (case st of
     ([], s) \<Rightarrow> Inr (Some s)
   | (a # rest, s) \<Rightarrow>
      (case nc_dvp (nc_at s a) of
         None \<Rightarrow> Inl (rest, s)
       | Some d \<Rightarrow>
          if v_mount (vn_at s d) \<noteq> mp then Inl (rest, s)
          else
            let s = lru_remove a (remque a (set_nc a (\<lambda>e. e\<lparr>nc_vp := None, nc_dvp := None\<rparr>) s));
                next = nchlru s
            in (case lru_push a s of None \<Rightarrow> Inr None | Some s \<Rightarrow> Inl (next, s))))"

definition cache_purgevfs :: "nat \<Rightarrow> ncache \<Rightarrow> ncache option" where
  "cache_purgevfs mp s = (case run_fuel (purgevfs_turn mp) ((length (nchlru s) + 1) * (length (nchlru s) + 1)) (nchlru s, s) of
     None \<Rightarrow> None | Some r \<Rightarrow> r)"

section \<open>What the cache holds\<close>

text \<open>
  The hash of a name as \<open>lookup\<close> computes it, and the arguments it passes: the name is in the path
  buffer, and its hash is right.
\<close>

definition name_hash :: "u8 list \<Rightarrow> u32" where
  "name_hash n = sum_list (map ucast n)"

definition nd_name :: "nameidata \<Rightarrow> u8 list" where
  "nd_name nd = take (ni_namelen nd) (ni_ptr nd)"

definition nd_wf :: "nameidata \<Rightarrow> bool" where
  "nd_wf nd = (ni_namelen nd \<le> length (ni_ptr nd) \<and> ni_hash nd = name_hash (nd_name nd))"

definition nd_key :: "nameidata \<Rightarrow> nat \<times> u8 list" where
  "nd_key nd = (ni_dvp nd, nd_name nd)"

definition nc_hashed :: "ncache \<Rightarrow> nat set" where
  "nc_hashed s = (\<Union>c \<in> set (nchashtbl s). set c)"

definition nc_is :: "ncache \<Rightarrow> nat \<Rightarrow> nat \<times> u8 list \<Rightarrow> bool" where
  "nc_is s a k = (let e = nc_at s a in nc_dvp e = Some (fst k) \<and> nc_dvpid e = v_id (vn_at s (fst k))
     \<and> take (nc_nlen e) (nc_name e) = snd k)"

definition cached :: "ncache \<Rightarrow> nat \<times> u8 list \<Rightarrow> bool" where
  "cached s k = (\<exists>a \<in> nc_hashed s. nc_is s a k)"

text \<open>
  The directories as they are: the vnode of a name, or none. An entry that can be used must agree.
\<close>

type_synonym dirs = "nat \<times> u8 list \<Rightarrow> nat option"

definition agrees :: "dirs \<Rightarrow> ncache \<Rightarrow> nat \<Rightarrow> bool" where
  "agrees g s a = (\<forall>k. nc_is s a k \<longrightarrow> (case nc_vp (nc_at s a) of
     None \<Rightarrow> g k = None | Some v \<Rightarrow> nc_vpid (nc_at s a) = v_id (vn_at s v) \<longrightarrow> g k = Some v))"

definition entry_ok :: "ncache \<Rightarrow> nat \<Rightarrow> nat \<Rightarrow> bool" where
  "entry_ok s i a = (let e = nc_at s a in nc_nlen e \<le> length (nc_name e) \<and> nc_dvpid e \<le> nextvnodeid s \<and> nc_vpid e \<le> nextvnodeid s
     \<and> i = bucket (name_hash (take (nc_nlen e) (nc_name e))) s)"

definition ncinv :: "ncache \<times> dirs \<Rightarrow> bool" where
  "ncinv sg = (case sg of (s, g) \<Rightarrow>
     length (nchashtbl s) = unat (nchash s) + 1 \<and> distinct (nchlru s) \<and> nc_hashed s \<subseteq> set (nchlru s)
     \<and> (\<forall>v. v_id (vn_at s v) \<le> nextvnodeid s)
     \<and> (\<forall>i < length (nchashtbl s). \<forall>a \<in> set (nchashtbl s ! i). entry_ok s i a)
     \<and> (\<forall>a \<in> nc_hashed s. \<forall>b \<in> nc_hashed s. \<forall>k. nc_is s a k \<and> nc_is s b k \<longrightarrow> a = b)
     \<and> (\<forall>a \<in> nc_hashed s. agrees g s a))"

lemma ncinv_unique: "ncinv (s, g) \<Longrightarrow> a \<in> nc_hashed s \<Longrightarrow> b \<in> nc_hashed s \<Longrightarrow> nc_is s a k \<Longrightarrow> nc_is s b k \<Longrightarrow> a = b"
  unfolding ncinv_def prod.case by blast

lemma ncinv_simps:
  assumes "ncinv (s, g)"
  shows "distinct (nchlru s)" "nc_hashed s \<subseteq> set (nchlru s)" "v_id (vn_at s v) \<le> nextvnodeid s"
    "a \<in> nc_hashed s \<Longrightarrow> agrees g s a" "length (nchashtbl s) = unat (nchash s) + 1"
  using assms unfolding ncinv_def by auto

lemma hashedI: "i < length (nchashtbl s) \<Longrightarrow> a \<in> set (nchashtbl s ! i) \<Longrightarrow> a \<in> nc_hashed s"
  by (auto simp: nc_hashed_def)

lemma hashedE: "a \<in> nc_hashed s \<Longrightarrow> \<exists>i < length (nchashtbl s). a \<in> set (nchashtbl s ! i)"
  unfolding nc_hashed_def by (metis UN_E in_set_conv_nth)

lemma bucket_less: "length (nchashtbl s) = unat (nchash s) + 1 \<Longrightarrow> bucket h s < length (nchashtbl s)"
proof -
  have "h AND nchash s \<le> nchash s" by (metis word_and_le1 word_le_nat_alt order_refl and.commute word_and_le2)
  then show "length (nchashtbl s) = unat (nchash s) + 1 \<Longrightarrow> ?thesis" by (simp add: bucket_def word_le_nat_alt less_Suc_eq_le)
qed

text \<open>An entry that is looked at by the search matches exactly when it is an entry of the name.\<close>

lemma nc_match_is:
  assumes "nd_wf nd" and "nc_nlen (nc_at s a) \<le> length (nc_name (nc_at s a))"
  shows "nc_match nd s a = nc_is s a (nd_key nd)"
proof -
  have "n = m" if "take n xs = take m ys" "n \<le> length xs" "m \<le> length ys" for n m and xs ys :: "u8 list"
    using that by (metis length_take min.absorb2)
  then show ?thesis
    using assms unfolding nc_match_def nc_is_def nd_key_def nd_name_def nd_wf_def Let_def by fastforce
qed

lemma find_cached:
  assumes "ncinv (s, g)" and "nd_wf nd"
  shows "find (nc_match nd s) (nchashtbl s ! bucket (ni_hash nd) s) = None \<Longrightarrow> \<not> cached s (nd_key nd)"
    and "find (nc_match nd s) (nchashtbl s ! bucket (ni_hash nd) s) = Some a \<Longrightarrow> a \<in> nc_hashed s \<and> nc_is s a (nd_key nd)"
proof -
  let ?b = "nchashtbl s ! bucket (ni_hash nd) s"
  have b: "bucket (ni_hash nd) s < length (nchashtbl s)" using assms(1) by (intro bucket_less) (simp add: ncinv_def)
  then have match: "nc_match nd s x = nc_is s x (nd_key nd)" if "x \<in> set ?b" for x
    using assms that by (intro nc_match_is) (auto simp: ncinv_def entry_ok_def Let_def)
  show "find (nc_match nd s) ?b = Some a \<Longrightarrow> a \<in> nc_hashed s \<and> nc_is s a (nd_key nd)"
    using match hashedI [OF b] by (metis find_Some_iff nth_mem)
  assume none: "find (nc_match nd s) ?b = None"
  show "\<not> cached s (nd_key nd)"
  proof
    assume "cached s (nd_key nd)"
    then obtain x where x: "x \<in> nc_hashed s" "nc_is s x (nd_key nd)" by (auto simp: cached_def)
    obtain i where i: "i < length (nchashtbl s)" "x \<in> set (nchashtbl s ! i)" using hashedE [OF x(1)] by blast
    then have "entry_ok s i x" using assms(1) by (simp add: ncinv_def)
    then have "i = bucket (ni_hash nd) s"
      using x(2) assms(2) by (simp add: entry_ok_def nc_is_def nd_key_def nd_wf_def Let_def)
    then show False using none match x(2) i(2) by (auto simp: find_None_iff)
  qed
qed

text \<open>Dropping entries and reordering the chain keep the invariant.\<close>

definition shrinks :: "ncache \<Rightarrow> ncache \<Rightarrow> bool" where
  "shrinks s' s = (length (nchashtbl s') = length (nchashtbl s) \<and> nchash s' = nchash s \<and> vn_at s' = vn_at s
     \<and> nextvnodeid s' = nextvnodeid s \<and> (\<forall>i < length (nchashtbl s). set (nchashtbl s' ! i) \<subseteq> set (nchashtbl s ! i))
     \<and> (\<forall>a \<in> nc_hashed s'. nc_at s' a = nc_at s a))"

lemma shrinks_hashed: "shrinks s' s \<Longrightarrow> nc_hashed s' \<subseteq> nc_hashed s"
  unfolding shrinks_def by (metis hashedE hashedI subset_iff)

lemma shrinks_is: "shrinks s' s \<Longrightarrow> a \<in> nc_hashed s' \<Longrightarrow> nc_is s' a k = nc_is s a k"
  by (simp add: shrinks_def nc_is_def)

lemma shrinks_cached: "shrinks s' s \<Longrightarrow> cached s' k \<Longrightarrow> cached s k"
  using shrinks_is shrinks_hashed unfolding cached_def by blast

lemma shrinks_inv:
  assumes "ncinv (s, g)" and "shrinks s' s" and "distinct (nchlru s')" and "nc_hashed s' \<subseteq> set (nchlru s')"
  shows "ncinv (s', g)"
proof -
  note sub = shrinks_hashed [OF assms(2)] and eq = shrinks_is [OF assms(2)]
  have "entry_ok s' i a" if i: "i < length (nchashtbl s')" "a \<in> set (nchashtbl s' ! i)" for i a
  proof -
    have "i < length (nchashtbl s)" "a \<in> set (nchashtbl s ! i)" using assms(2) i unfolding shrinks_def by auto
    then have "entry_ok s i a" using assms(1) by (simp add: ncinv_def)
    then show ?thesis using assms(2) hashedI [OF i] by (simp add: entry_ok_def shrinks_def bucket_def)
  qed
  moreover have "agrees g s' a" if "a \<in> nc_hashed s'" for a
  proof -
    have "agrees g s a" using assms(1) that sub by (auto simp: ncinv_def)
    moreover have at: "nc_at s' a = nc_at s a" "vn_at s' = vn_at s" using assms(2) that by (simp_all add: shrinks_def)
    ultimately show ?thesis unfolding agrees_def eq [OF that] at by simp
  qed
  moreover have "\<forall>a \<in> nc_hashed s'. \<forall>b \<in> nc_hashed s'. \<forall>k. nc_is s' a k \<and> nc_is s' b k \<longrightarrow> a = b"
    using ncinv_unique [OF assms(1)] sub eq by (meson subsetD)
  ultimately show ?thesis using assms by (simp add: ncinv_def shrinks_def)
qed

section \<open>Each operation\<close>

lemma nc_hashed_remque: "nc_hashed (remque a s) = nc_hashed s - {a}"
  by (auto simp: nc_hashed_def remque_def)

lemma shrinks_refl [simp]: "shrinks s s" "shrinks (count f s) s" "shrinks (lru_remove a s) s" "shrinks (lru_append a s) s"
    "shrinks (lru_used a s) s"
  by (simp_all add: shrinks_def count_def lru_remove_def lru_append_def lru_used_def nc_hashed_def)

lemma shrinks_trans: "shrinks s'' s' \<Longrightarrow> shrinks s' s \<Longrightarrow> shrinks s'' s"
  using shrinks_hashed [of s'' s'] unfolding shrinks_def by (metis subset_iff order_trans)

lemma shrinks_remque: "shrinks (remque a s) s"
  by (auto simp: shrinks_def remque_def)

lemma drop_effect:
  assumes "ncinv (s, g)" and "a \<in> nc_hashed s" and "cache_drop a nd (count f s) = Some (st, nd', s')"
  shows "st = 0 \<and> nd' = nd \<and> ncinv (s', g) \<and> nc_hashed s' = nc_hashed s - {a} \<and> shrinks s' s"
proof -
  have s': "s' = (remque a (lru_remove a (count f s)))\<lparr>nchlru := a # remove1 a (nchlru s)\<rparr>" "st = 0" "nd' = nd"
    using assms(3) by (auto simp: cache_drop_def lru_push_def lru_remove_def remque_def count_def split: if_splits)
  have h: "nc_hashed s' = nc_hashed s - {a}" by (auto simp: s'(1) nc_hashed_def remque_def lru_remove_def count_def)
  have sh: "shrinks s' s" by (auto simp: s'(1) shrinks_def remque_def lru_remove_def count_def)
  have "distinct (nchlru s)" "nc_hashed s \<subseteq> set (nchlru s)" using assms(1) by (simp_all add: ncinv_def)
  then have "distinct (nchlru s')" "nc_hashed s' \<subseteq> set (nchlru s')"
    using assms(2) h by (auto simp: s'(1) remque_def)
  with assms(1) sh have "ncinv (s', g)" by (rule shrinks_inv)
  with s' h sh show ?thesis by blast
qed

lemma used_inv: "ncinv (s, g) \<Longrightarrow> a \<in> nc_hashed s \<Longrightarrow> ncinv (lru_used a (count f s), g)"
proof -
  assume inv: "ncinv (s, g)" and a: "a \<in> nc_hashed s"
  then have "distinct (nchlru s)" "nc_hashed s \<subseteq> set (nchlru s)" by (simp_all add: ncinv_def)
  then have "distinct (nchlru (lru_used a (count f s)))" "nc_hashed (lru_used a (count f s)) \<subseteq> set (nchlru (lru_used a (count f s)))"
    using a by (auto simp: lru_used_def lru_append_def lru_remove_def count_def nc_hashed_def)
  moreover have "shrinks (lru_used a (count f s)) s" by (rule shrinks_trans [of _ "count f s"]) simp_all
  ultimately show ?thesis using inv by (intro shrinks_inv [OF inv])
qed

lemma count_inv: "ncinv (s, g) \<Longrightarrow> ncinv (count f s, g)"
  by (rule shrinks_inv [OF _ shrinks_refl(2)]) (auto simp: ncinv_def count_def nc_hashed_def)

lemma count_id: "count (\<lambda>t. t) s = s"
  by (simp add: count_def)

lemma cache_hit_cases:
  assumes "cache_hit a nd s = Some (st, nd', s')"
  obtains (drop) f where "cache_drop a nd (count f s) = Some (st, nd', s')"
    | (neg) f where "st = 2" "nc_vp (nc_at s a) = None" "s' = lru_used a (count f s)"
    | (good) f v where "st = - 1" "nc_vp (nc_at s a) = Some v" "nc_vpid (nc_at s a) = v_id (vn_at s v)"
        "nd' = nd\<lparr>ni_vp := Some v\<rparr>" "s' = lru_used a (count f s)"
proof (cases "ni_makeentry nd")
  case False
  with assms show ?thesis by (intro drop) (simp add: cache_hit_def)
next
  case me: True
  show ?thesis
  proof (cases "nc_vp (nc_at s a)")
    case None
    show ?thesis
    proof (cases "ni_nameiop nd AND OPMASK = CREATE")
      case True
      with assms me None show ?thesis by (intro drop [of "\<lambda>t. t"]) (simp add: cache_hit_def count_id)
    next
      case False
      with assms me None show ?thesis by (intro neg) (auto simp: cache_hit_def)
    qed
  next
    case (Some v)
    show ?thesis
    proof (cases "nc_vpid (nc_at s a) = v_id (vn_at s v)")
      case True
      with assms me Some show ?thesis by (intro good) (auto simp: cache_hit_def)
    next
      case False
      with assms me Some show ?thesis by (intro drop) (simp add: cache_hit_def)
    qed
  qed
qed

text \<open>A lookup keeps the invariant, answers from entries that agree, and a name it does not know is then not cached.\<close>

lemma lookup_effect:
  assumes inv: "ncinv (s, g)" and nd: "nd_wf nd" and "cache_lookup nd s = Some (st, nd', s')"
  shows "ncinv (s', g) \<and> (st = - 1 \<longrightarrow> ni_vp nd' \<noteq> None \<and> g (nd_key nd) = ni_vp nd') \<and> (st = 2 \<longrightarrow> g (nd_key nd) = None)
    \<and> (st = 0 \<longrightarrow> doingcache s \<longrightarrow> ni_namelen nd \<le> NCHNAMLEN \<longrightarrow> \<not> cached s' (nd_key nd))"
proof (cases "doingcache s \<and> ni_namelen nd \<le> NCHNAMLEN")
  case False
  then have "st = 0" "s' = s \<or> (\<exists>f. s' = count f s)" using assms(3) by (auto simp: cache_lookup_def split: if_splits)
  then show ?thesis using False inv count_inv by auto
next
  case True
  let ?f = "find (nc_match nd s) (nchashtbl s ! bucket (ni_hash nd) s)"
  show ?thesis
  proof (cases ?f)
    case None
    then obtain f where s': "st = 0" "s' = count f s" using assms(3) True by (auto simp: cache_lookup_def)
    have "\<not> cached s (nd_key nd)" using find_cached(1) [OF inv nd] None by simp
    then have "\<not> cached s' (nd_key nd)" using shrinks_cached [OF shrinks_refl(2)] s'(2) by blast
    then show ?thesis using s' inv count_inv by auto
  next
    case (Some a)
    then have a: "a \<in> nc_hashed s" "nc_is s a (nd_key nd)" using find_cached(2) [OF inv nd] by simp_all
    have hit: "cache_hit a nd s = Some (st, nd', s')" using assms(3) True Some by (simp add: cache_lookup_def)
    have gone: "st = 0 \<and> ncinv (s', g) \<and> \<not> cached s' (nd_key nd)" if "cache_drop a nd (count f s) = Some (st, nd', s')" for f
    proof -
      note d = drop_effect [OF inv a(1) that]
      have "\<not> nc_is s b (nd_key nd)" if "b \<in> nc_hashed s - {a}" for b
        using ncinv_unique [OF inv a(1) _ a(2)] that by blast
      then have "\<not> nc_is s' b (nd_key nd)" if "b \<in> nc_hashed s'" for b
        using d that shrinks_is [of s' s b] by simp
      then show ?thesis using d by (simp add: cached_def)
    qed
    have ag: "agrees g s a" using inv a(1) by (simp add: ncinv_def)
    from hit show ?thesis
    proof (cases rule: cache_hit_cases)
      case (drop f)
      from gone [OF this] show ?thesis by simp
    next
      case (neg f)
      then show ?thesis using ag a(2) used_inv [OF inv a(1)] by (simp add: agrees_def nd_key_def)
    next
      case (good f v)
      then show ?thesis using ag a(2) used_inv [OF inv a(1)] by (simp add: agrees_def nd_key_def)
    qed
  qed
qed

text \<open>Entering a name that is not cached.\<close>

lemma reuse_effect:
  assumes "ncinv (s, g)" and "nchlru s = a # r"
  shows "ncinv (remque a (lru_remove a s), g)" "shrinks (remque a (lru_remove a s)) s"
    "a \<notin> nc_hashed (remque a (lru_remove a s))" "a \<notin> set (nchlru (remque a (lru_remove a s)))"
proof -
  let ?s = "remque a (lru_remove a s)"
  show sh: "shrinks ?s s" by (rule shrinks_trans [OF shrinks_remque]) simp
  show a: "a \<notin> nc_hashed ?s" by (simp add: nc_hashed_remque)
  have h: "nc_hashed ?s \<subseteq> nc_hashed s" by (rule shrinks_hashed [OF sh])
  have l: "nchlru ?s = r" by (simp add: remque_def lru_remove_def assms(2))
  show "a \<notin> set (nchlru ?s)" using ncinv_simps(1) [OF assms(1)] by (simp add: l assms(2))
  show "ncinv (?s, g)"
    by (rule shrinks_inv [OF assms(1) sh]) (use ncinv_simps [OF assms(1)] h a l assms(2) in auto)
qed

lemma slot_effect:
  assumes "ncinv (s, g)" and "new \<notin> set (nchlru s)" and "cache_slot new s = Some (a, s1)"
  shows "ncinv (s1, g) \<and> shrinks s1 s \<and> a \<notin> nc_hashed s1 \<and> a \<notin> set (nchlru s1)"
proof (cases "numcache s < desiredvnodes s")
  case True
  then have s1: "new = a" "s1 = (set_nc a (\<lambda>_. nc_zero) s)\<lparr>numcache := numcache s + 1\<rparr>"
    using assms(3) by (auto simp: cache_slot_def)
  have new: "a \<notin> nc_hashed s" using ncinv_simps(2) [OF assms(1)] assms(2) s1(1) by blast
  have h: "nc_hashed s1 = nc_hashed s" by (simp add: s1 nc_hashed_def set_nc_def)
  have sh: "shrinks s1 s" using new h unfolding shrinks_def by (auto simp: s1(2) set_nc_def)
  have "ncinv (s1, g)"
    by (rule shrinks_inv [OF assms(1) sh]) (use ncinv_simps [OF assms(1)] h in \<open>auto simp: s1(2) set_nc_def\<close>)
  then show ?thesis using sh new h assms(2) s1(1) by (simp add: s1(2) set_nc_def)
next
  case False
  then obtain r where "nchlru s = a # r" "s1 = remque a (lru_remove a s)"
    using assms(3) by (auto simp: cache_slot_def split: list.splits)
  then show ?thesis using reuse_effect [OF assms(1)] by blast
qed

lemma insert_effect:
  assumes inv: "ncinv (s, g)" and a: "a \<notin> nc_hashed s" "a \<notin> set (nchlru s)" and nd: "nd_wf nd" "\<not> cached s (nd_key nd)"
    and g: "g (nd_key nd) = ni_vp nd"
  defines "s' \<equiv> insque a (bucket (ni_hash nd) s) (lru_append a (set_nc a (nc_fill nd s) s))"
  shows "ncinv (s', g)"
proof -
  let ?i = "bucket (ni_hash nd) s"
  have i: "?i < length (nchashtbl s)" by (rule bucket_less) (rule ncinv_simps(5) [OF inv])
  have tbl: "nchashtbl s' = (nchashtbl s)[?i := a # nchashtbl s ! ?i]" "nchlru s' = nchlru s @ [a]" "vn_at s' = vn_at s"
      "nextvnodeid s' = nextvnodeid s" "nchash s' = nchash s"
    and at: "nc_at s' a = nc_fill nd s (nc_at s a)" "\<And>b. b \<noteq> a \<Longrightarrow> nc_at s' b = nc_at s b"
    by (simp_all add: s'_def insque_def lru_append_def set_nc_def)
  have h: "nc_hashed s' = insert a (nc_hashed s)"
  proof -
    have "nc_hashed s' = (\<Union>j < length (nchashtbl s). set (nchashtbl s' ! j))" "nc_hashed s = (\<Union>j < length (nchashtbl s). set (nchashtbl s ! j))"
      using tbl(1) by (auto simp: nc_hashed_def set_conv_nth)
    then show ?thesis using i by (auto simp: tbl(1) nth_list_update split: if_splits)
  qed
  have key: "nc_is s' a k = (k = nd_key nd)" for k
  proof -
    have "take (ni_namelen nd) (take (ni_namelen nd) (ni_ptr nd) @ drop (ni_namelen nd) (nc_name (nc_at s a))) = nd_name nd"
      using nd(1) by (simp add: nd_name_def nd_wf_def)
    then show ?thesis by (cases k) (auto simp: nc_is_def at(1) nc_fill_def tbl(3) nd_key_def)
  qed
  have same: "nc_is s' b k = nc_is s b k" if "b \<in> nc_hashed s" for b k
  proof -
    have "b \<noteq> a" using that a(1) by blast
    then show ?thesis by (simp add: nc_is_def tbl(3) at(2))
  qed
  have ids: "v_id (vn_at s v) \<le> nextvnodeid s" for v by (rule ncinv_simps(3) [OF inv])
  have "entry_ok s' j b" if j: "j < length (nchashtbl s')" "b \<in> set (nchashtbl s' ! j)" for j b
  proof (cases "b = a")
    case True
    have "j = ?i"
    proof (rule ccontr)
      assume "j \<noteq> ?i"
      then have "a \<in> set (nchashtbl s ! j)" "j < length (nchashtbl s)" using j True by (simp_all add: tbl(1))
      then show False using a(1) hashedI by blast
    qed
    then show ?thesis
      using True nd(1) ids by (auto simp: entry_ok_def at(1) nc_fill_def tbl(4) bucket_def tbl(5) nd_wf_def nd_name_def split: option.splits)
  next
    case False
    then have "b \<in> set (nchashtbl s ! j)" "j < length (nchashtbl s)"
      using j i by (cases "j = ?i"; auto simp: tbl(1))+
    then have "entry_ok s j b" using inv by (simp add: ncinv_def)
    then show ?thesis using False by (simp add: entry_ok_def at(2) tbl(4) bucket_def tbl(5))
  qed
  moreover have "agrees g s' b" if "b \<in> nc_hashed s'" for b
  proof (cases "b = a")
    case True
    have "nc_vp (nc_at s' a) = ni_vp nd" by (simp add: at(1) nc_fill_def)
    then show ?thesis using g unfolding agrees_def True key by (cases "ni_vp nd") auto
  next
    case False
    then have b: "b \<in> nc_hashed s" using that h by blast
    show ?thesis using ncinv_simps(4) [OF inv b] unfolding agrees_def same [OF b] at(2) [OF False] tbl(3) .
  qed
  moreover have "b = c" if "b \<in> nc_hashed s'" "c \<in> nc_hashed s'" "nc_is s' b k" "nc_is s' c k" for b c k
    using that nd(2) ncinv_unique [OF inv] unfolding h cached_def by (metis insertE key same)
  ultimately show ?thesis
    using ncinv_simps [OF inv] h a tbl unfolding ncinv_def by auto
qed

lemma enter_effect:
  assumes "ncinv (s, g)" and "new \<notin> set (nchlru s)" and "nd_wf nd" and "\<not> cached s (nd_key nd)"
    and "g (nd_key nd) = ni_vp nd" and "cache_enter new nd s = Some s'"
  shows "ncinv (s', g)"
proof (cases "doingcache s \<and> cache_slot new s \<noteq> None")
  case False
  then have "s' = s" using assms(6) by (cases "cache_slot new s") (auto simp: cache_enter_def split: if_splits)
  then show ?thesis using assms(1) by simp
next
  case True
  then obtain a s1 where sl: "cache_slot new s = Some (a, s1)" by auto
  note e = slot_effect [OF assms(1,2) sl]
  have "\<not> cached s1 (nd_key nd)" using e shrinks_cached assms(4) by blast
  moreover have "s' = insque a (bucket (ni_hash nd) s1) (lru_append a (set_nc a (nc_fill nd s1) s1))"
    using assms(6) True sl by (auto simp: cache_enter_def split: if_splits)
  ultimately show ?thesis using e insert_effect [of s1 g a nd] assms(3,5) by blast
qed

text \<open>
  Purging a vnode gives it a number that no entry has, unless the numbers wrap around. The vnode may
  then become one of another file system.
\<close>

definition vnode_new :: "nat \<Rightarrow> nat \<Rightarrow> ncache \<Rightarrow> ncache" where
  "vnode_new v mp s = (let s = cache_purge v s in s\<lparr>vn_at := (vn_at s)(v := vn_at s v\<lparr>v_mount := mp\<rparr>)\<rparr>)"

lemma next_id_less: "(n :: u32) + 1 \<noteq> 0 \<Longrightarrow> x \<le> n \<Longrightarrow> x < n + 1"
  using unatSuc [of n] by (simp add: word_less_nat_alt word_le_nat_alt add.commute)

lemma purge_effect:
  assumes inv: "ncinv (s, g)" and n: "nextvnodeid s + 1 \<noteq> 0"
    and g: "\<And>k. fst k \<noteq> v \<Longrightarrow> g k \<noteq> Some v \<Longrightarrow> g' k = g k"
  shows "ncinv (vnode_new v mp s, g')"
proof -
  let ?n = "nextvnodeid s + 1" and ?s = "vnode_new v mp s"
  have s': "?s = s\<lparr>nextvnodeid := ?n, vn_at := (vn_at s)(v := \<lparr>v_id = ?n, v_mount = mp\<rparr>)\<rparr>"
    using n by (cases "vn_at s v") (simp add: vnode_new_def cache_purge_def set_v_id_def Let_def)
  note less = next_id_less [OF n]
  have old: "nc_dvpid (nc_at s a) < ?n" "nc_vpid (nc_at s a) < ?n" if a: "a \<in> nc_hashed s" for a
    using hashedE [OF a] inv by (auto simp: ncinv_def entry_ok_def Let_def intro: less)
  have h: "nc_hashed ?s = nc_hashed s" by (simp add: s' nc_hashed_def)
  have is_old: "fst k \<noteq> v \<and> nc_is s a k" if "a \<in> nc_hashed s" "nc_is ?s a k" for a k
    using that old(1) [OF that(1)] by (auto simp: nc_is_def s' Let_def split: if_splits)
  have "agrees g' ?s a" if a: "a \<in> nc_hashed s" for a
    unfolding agrees_def
  proof (intro allI impI)
    fix k assume "nc_is ?s a k"
    then have k: "fst k \<noteq> v" "nc_is s a k" using is_old [OF a] by simp_all
    show "case nc_vp (nc_at ?s a) of None \<Rightarrow> g' k = None
        | Some w \<Rightarrow> nc_vpid (nc_at ?s a) = v_id (vn_at ?s w) \<longrightarrow> g' k = Some w"
    proof (cases "nc_vp (nc_at s a)")
      case None
      then have "g k = None" using ncinv_simps(4) [OF inv a] k(2) by (cases k) (auto simp: agrees_def)
      then show ?thesis using None k(1) g [of k] by (simp add: s')
    next
      case (Some w)
      have "g k = Some w" if "nc_vpid (nc_at s a) = v_id (vn_at s w)"
        using ncinv_simps(4) [OF inv a] k(2) Some that by (cases k) (auto simp: agrees_def)
      then show ?thesis using Some k(1) g [of k] old(2) [OF a] by (auto simp: s')
    qed
  qed
  moreover have "entry_ok ?s i a" if i: "i < length (nchashtbl s)" "a \<in> set (nchashtbl s ! i)" for i a
  proof -
    have "entry_ok s i a" using inv i by (simp add: ncinv_def)
    then show ?thesis using old [OF hashedI [OF i]] by (auto simp: entry_ok_def s' bucket_def Let_def)
  qed
  moreover have "v_id (vn_at ?s w) \<le> ?n" for w
    using less [OF ncinv_simps(3) [OF inv, of w]] by (auto simp: s')
  moreover have "a = b" if "a \<in> nc_hashed s" "b \<in> nc_hashed s" "nc_is ?s a k" "nc_is ?s b k" for a b k
    using ncinv_unique [OF inv that(1,2)] is_old that by blast
  moreover have "nchashtbl ?s = nchashtbl s" "nchash ?s = nchash s" "nchlru ?s = nchlru s" "nextvnodeid ?s = ?n"
    by (simp_all add: s')
  ultimately show ?thesis using ncinv_simps [OF inv] h unfolding ncinv_def by auto
qed

text \<open>Purging a file system: the loop ends, and no entry of a directory on it is left.\<close>

definition clean :: "nat \<Rightarrow> ncache \<Rightarrow> nat \<Rightarrow> bool" where
  "clean mp s a = (case nc_dvp (nc_at s a) of None \<Rightarrow> True | Some d \<Rightarrow> v_mount (vn_at s d) \<noteq> mp)"

definition vfs_inv :: "nat \<Rightarrow> dirs \<Rightarrow> nat \<Rightarrow> nat list \<times> ncache \<Rightarrow> bool" where
  "vfs_inv mp g n st = (case st of (rest, s) \<Rightarrow>
     ncinv (s, g) \<and> length (nchlru s) = n \<and> length rest \<le> n \<and> set rest \<subseteq> set (nchlru s)
     \<and> (\<forall>a \<in> set (nchlru s) - set rest. clean mp s a))"

definition vfs_rank :: "nat \<Rightarrow> nat \<Rightarrow> nat list \<times> ncache \<Rightarrow> nat" where
  "vfs_rank mp n st = (case st of (rest, s) \<Rightarrow> length (filter (\<lambda>a. \<not> clean mp s a) (nchlru s)) * (n + 1) + length rest)"

definition vfs_good :: "nat \<Rightarrow> dirs \<Rightarrow> nat \<Rightarrow> ncache \<Rightarrow> ncache option \<Rightarrow> bool" where
  "vfs_good mp g n s0 r = (case r of None \<Rightarrow> n = 1 | Some s \<Rightarrow> ncinv (s, g) \<and> length (nchlru s) = n
     \<and> vn_at s = vn_at s0 \<and> (\<forall>a \<in> set (nchlru s). clean mp s a))"

definition unlink_dirty :: "nat \<Rightarrow> ncache \<Rightarrow> ncache" where
  "unlink_dirty a s = lru_remove a (remque a (set_nc a (\<lambda>e. e\<lparr>nc_vp := None, nc_dvp := None\<rparr>) s))"

lemma unlink_dirty_inv:
  assumes inv: "ncinv (s, g)" and a: "a \<in> set (nchlru s)"
  defines "s' \<equiv> (unlink_dirty a s)\<lparr>nchlru := a # remove1 a (nchlru s)\<rparr>"
  shows "ncinv (s', g)" "vn_at s' = vn_at s" "length (nchlru s') = length (nchlru s)" "set (nchlru s') = set (nchlru s)"
    "clean mp s' a" "b \<noteq> a \<Longrightarrow> clean mp s' b = clean mp s b"
proof -
  have h: "nc_hashed s' = nc_hashed s - {a}"
    by (auto simp: s'_def unlink_dirty_def lru_remove_def remque_def set_nc_def nc_hashed_def)
  have sh: "shrinks s' s"
    unfolding shrinks_def h by (auto simp: s'_def unlink_dirty_def lru_remove_def remque_def set_nc_def)
  have d: "distinct (nchlru s)" "nc_hashed s \<subseteq> set (nchlru s)" using ncinv_simps [OF inv] by simp_all
  show "set (nchlru s') = set (nchlru s)" using a d by (auto simp: s'_def)
  then show "ncinv (s', g)" by (intro shrinks_inv [OF inv sh]) (use d h in \<open>auto simp: s'_def\<close>)
  show "vn_at s' = vn_at s" "clean mp s' a" "b \<noteq> a \<Longrightarrow> clean mp s' b = clean mp s b"
    by (simp_all add: s'_def unlink_dirty_def lru_remove_def remque_def set_nc_def clean_def split: option.splits)
  have "length (nchlru s) > 0" using a by (cases "nchlru s") auto
  then show "length (nchlru s') = length (nchlru s)" using a by (simp add: s'_def length_remove1)
qed

lemma purgevfs_turn_eq:
  "purgevfs_turn mp ([], s) = Inr (Some s)"
  "clean mp s a \<Longrightarrow> purgevfs_turn mp (a # rest, s) = Inl (rest, s)"
  "\<not> clean mp s a \<Longrightarrow> purgevfs_turn mp (a # rest, s) = (if remove1 a (nchlru s) = [] then Inr None
     else Inl (remove1 a (nchlru s), (unlink_dirty a s)\<lparr>nchlru := a # remove1 a (nchlru s)\<rparr>))"
  by (auto simp: purgevfs_turn_def clean_def unlink_dirty_def lru_push_def lru_remove_def remque_def set_nc_def Let_def
      split: option.splits)

lemma filter_dirty:
  assumes "distinct xs" and "a \<in> set xs" and "\<not> P a"
  shows "length (filter (\<lambda>x. \<not> P x) xs) = Suc (length (filter (\<lambda>x. \<not> P x) (remove1 a xs)))"
  using assms by (induction xs) (auto simp: filter_remove1 dest: filter_False)

interpretation vfs: ranked_loop "purgevfs_turn mp" "\<lambda>st. vfs_inv mp g n st \<and> vn_at (snd st) = vn_at s0" "vfs_rank mp n"
  "vfs_good mp g n s0" for mp g n s0
proof
  fix st st' assume st: "vfs_inv mp g n st \<and> vn_at (snd st) = vn_at s0" and turn: "purgevfs_turn mp st = Inl st'"
  obtain rest s where rs: "st = (rest, s)" by force
  obtain a r where ar: "rest = a # r" using turn by (cases rest) (auto simp: rs purgevfs_turn_eq)
  have inv: "ncinv (s, g)" "length (nchlru s) = n" "a \<in> set (nchlru s)" using st by (auto simp: vfs_inv_def rs ar)
  show "(vfs_inv mp g n st' \<and> vn_at (snd st') = vn_at s0) \<and> vfs_rank mp n st' < vfs_rank mp n st"
  proof (cases "clean mp s a")
    case True
    then have "st' = (r, s)" using turn by (simp add: rs ar purgevfs_turn_eq)
    then show ?thesis using st True by (auto simp: vfs_inv_def vfs_rank_def rs ar)
  next
    case False
    let ?s = "(unlink_dirty a s)\<lparr>nchlru := a # remove1 a (nchlru s)\<rparr>"
    have st': "st' = (remove1 a (nchlru s), ?s)" using turn False by (auto simp: rs ar purgevfs_turn_eq split: if_splits)
    note e = unlink_dirty_inv [OF inv(1,3)]
    have "filter (\<lambda>b. \<not> clean mp ?s b) (nchlru ?s) = filter (\<lambda>b. \<not> clean mp s b) (remove1 a (nchlru s))"
      using e(5,6) ncinv_simps(1) [OF inv(1)] by (auto intro!: filter_cong)
    then have "length (filter (\<lambda>b. \<not> clean mp s b) (nchlru s)) = Suc (length (filter (\<lambda>b. \<not> clean mp ?s b) (nchlru ?s)))"
      using filter_dirty [OF ncinv_simps(1) [OF inv(1)] inv(3), of "clean mp s"] False by simp
    moreover have "length (remove1 a (nchlru s)) \<le> n" using inv(2) by (simp add: length_remove1)
    ultimately have "vfs_rank mp n st' < vfs_rank mp n st" by (simp add: vfs_rank_def st' rs)
    moreover have "vfs_inv mp g n st'" 
      using e inv(2) \<open>length (remove1 a (nchlru s)) \<le> n\<close> ncinv_simps(1) [OF inv(1)]
      by (auto simp: vfs_inv_def st' dest: notin_set_remove1)
    ultimately show ?thesis using st e(2) by (simp add: st' rs)
  qed
next
  fix st r assume st: "vfs_inv mp g n st \<and> vn_at (snd st) = vn_at s0" and turn: "purgevfs_turn mp st = Inr r"
  obtain rest s where rs: "st = (rest, s)" by force
  show "vfs_good mp g n s0 r"
  proof (cases rest)
    case Nil
    then show ?thesis using st turn by (auto simp: rs purgevfs_turn_eq vfs_good_def vfs_inv_def)
  next
    case (Cons a l)
    then have "r = None" "remove1 a (nchlru s) = []" "a \<in> set (nchlru s)"
      using st turn by (cases "clean mp s a"; auto simp: rs purgevfs_turn_eq vfs_inv_def split: if_splits)+
    then have "n = 1" using st length_remove1 [of a "nchlru s"] by (cases "nchlru s") (auto simp: vfs_inv_def rs split: if_splits)
    then show ?thesis by (simp add: vfs_good_def \<open>r = None\<close>)
  qed
qed

lemma purgevfs_good:
  assumes "ncinv (s, g)"
  shows "\<exists>r. run_fuel (purgevfs_turn mp) ((length (nchlru s) + 1) * (length (nchlru s) + 1)) (nchlru s, s) = Some r
    \<and> vfs_good mp g (length (nchlru s)) s r"
proof (rule vfs.run_returns)
  show "vfs_inv mp g (length (nchlru s)) (nchlru s, s) \<and> vn_at (snd (nchlru s, s)) = vn_at s"
    using assms by (simp add: vfs_inv_def)
  let ?n = "length (nchlru s)"
  have "length (filter (\<lambda>a. \<not> clean mp s a) (nchlru s)) * (?n + 1) \<le> ?n * (?n + 1)"
    by (intro mult_le_mono1) simp
  then show "vfs_rank mp ?n (nchlru s, s) < (?n + 1) * (?n + 1)" by (simp add: vfs_rank_def)
qed

lemma purgevfs_effect:
  assumes "ncinv (s, g)" and "cache_purgevfs mp s = Some s'" and g: "\<And>k. v_mount (vn_at s (fst k)) \<noteq> mp \<Longrightarrow> g' k = g k"
  shows "ncinv (s', g')"
proof -
  have s': "ncinv (s', g)" "vn_at s' = vn_at s" "\<And>a. a \<in> set (nchlru s') \<Longrightarrow> clean mp s' a"
    using purgevfs_good [OF assms(1), of mp] assms(2) by (auto simp: cache_purgevfs_def vfs_good_def split: option.splits)
  have "agrees g' s' a" if a: "a \<in> nc_hashed s'" for a
    unfolding agrees_def
  proof (intro allI impI)
    fix k assume k: "nc_is s' a k"
    have "clean mp s' a" using s'(1,3) a ncinv_simps(2) by blast
    moreover have "nc_dvp (nc_at s' a) = Some (fst k)" using k by (simp add: nc_is_def Let_def)
    ultimately have "g' k = g k" by (intro g) (simp add: clean_def s'(2))
    then show "case nc_vp (nc_at s' a) of None \<Rightarrow> g' k = None
        | Some v \<Rightarrow> nc_vpid (nc_at s' a) = v_id (vn_at s' v) \<longrightarrow> g' k = Some v"
      using ncinv_simps(4) [OF s'(1) a] k by (cases k) (auto simp: agrees_def split: option.splits)
  qed
  then show ?thesis using s'(1) by (auto simp: ncinv_def)
qed

section \<open>The initial table\<close>

lemma unat_pow2: "k \<le> 20 \<Longrightarrow> unat (2 ^ k :: u32) = 2 ^ k"
proof -
  assume "k \<le> 20"
  then have "(2 :: nat) ^ k \<le> 2 ^ 20" by (rule power_increasing) simp
  then show ?thesis using unat_of_nat [of "2 ^ k", where 'a = 32] by simp
qed

lemma nchash_loop:
  assumes "k \<le> 20" and "m < 2 ^ 20" and "k = 0 \<or> 2 ^ (k - 1) \<le> m" and "20 - k < n" and "sz div 8 = m"
  shows "\<exists>j. run_fuel (nchash_turn sz) n (2 ^ k) = Some (2 ^ j) \<and> j \<le> 20 \<and> m < 2 ^ j \<and> (j = 0 \<or> 2 ^ (j - 1) \<le> m)"
  using assms
proof (induction n arbitrary: k)
  case (Suc n)
  have p: "unat (2 ^ k :: u32) = 2 ^ k" using Suc.prems(1) by (rule unat_pow2)
  have m: "unat (of_nat m :: u32) = m" using Suc.prems(2) by (simp add: unat_of_nat)
  show ?case
  proof (cases "2 ^ k \<le> m")
    case True
    then have k: "k < 20" using Suc.prems(1,2) by (metis le_neq_implies_less not_less)
    have "nchash_turn sz (2 ^ k) = Inl (2 ^ Suc k)"
      using True p m by (simp add: nchash_turn_def Suc.prems(5) word_le_nat_alt)
    then show ?thesis using Suc.IH [of "Suc k"] True k Suc.prems by simp
  next
    case False
    then have "nchash_turn sz (2 ^ k) = Inr (2 ^ k)"
      using p m by (simp add: nchash_turn_def Suc.prems(5) word_le_nat_alt)
    then show ?thesis using False Suc.prems(1,3) by auto
  qed
qed simp

lemma nchinit_table:
  assumes "desiredvnodes s \<le> 2 ^ 20"
  shows "\<exists>s'. nchinit s = Some s' \<and> length (nchashtbl s') * 8 \<le> nchashsize (desiredvnodes s)"
proof -
  let ?sz = "nchashsize (desiredvnodes s)"
  have "?sz \<le> (2 ^ 20 + 1) * 8 div 2 + 4095" 
  proof -
    have "?sz \<le> (desiredvnodes s + 1) * 8 div 2 + 4095" unfolding nchashsize_def by (rule div_times_less_eq_dividend [THEN order_trans]) simp
    then show ?thesis using assms by simp
  qed
  then have m: "?sz div 8 < 2 ^ 20" by simp
  have "4096 \<le> ?sz" unfolding nchashsize_def by (simp add: mult_le_cancel2 le_div_geq)
  then have "512 \<le> ?sz div 8" by simp
  obtain j where j: "run_fuel (nchash_turn ?sz) 32 (2 ^ 0) = Some (2 ^ j)" "j \<le> 20" "?sz div 8 < 2 ^ j" "j = 0 \<or> 2 ^ (j - 1) \<le> ?sz div 8"
    using nchash_loop [of 0 "?sz div 8" 32 ?sz] m by auto
  then obtain i where i: "j = Suc i" using \<open>512 \<le> ?sz div 8\<close> by (cases j) auto
  have le: "2 ^ i \<le> ?sz div 8" using j(4) i by simp
  have "unat (drop_bit 1 (2 ^ j :: u32)) = 2 ^ i"
    using unat_pow2 [OF j(2)] by (simp add: drop_bit_eq_div unat_div i)
  then have "drop_bit 1 (2 ^ j) = (2 ^ i :: u32)" using unat_pow2 [of i] j(2) i by (simp add: word_unat_eq_iff)
  moreover have "unat (2 ^ i - 1 :: u32) + 1 = 2 ^ i"
    using unat_pow2 [of i] unat_minus_one [of "2 ^ i :: u32"] j(2) i by (metis One_nat_def Suc_eq_plus1 Suc_leD Suc_pred nat_zero_less_power_iff not_gr_zero unat_0 zero_less_numeral power_not_zero zero_neq_numeral)
  ultimately have "length (replicate (unat (drop_bit 1 (2 ^ j) - 1 :: u32) + 1) []) * 8 \<le> ?sz" using le by simp
  then show ?thesis using j(1) by (simp add: nchinit_def Let_def)
qed

section \<open>Coherence\<close>

text \<open>
  The cache with the directories it describes, and what may happen to them: lookups; a name entered
  that is not cached, with what the directory says; a change to a directory of a name that is not
  cached; a vnode purged, as it becomes the vnode of another file, after which anything may be said of
  names in it and of names for it; a file system unmounted. Capability numbers do not wrap around.
\<close>

inductive nc_step :: "ncache \<times> dirs \<Rightarrow> ncache \<times> dirs \<Rightarrow> bool" where
  look: "nd_wf nd \<Longrightarrow> cache_lookup nd s = Some (st, nd', s') \<Longrightarrow> nc_step (s, g) (s', g)"
| enter: "nd_wf nd \<Longrightarrow> \<not> cached s (nd_key nd) \<Longrightarrow> g (nd_key nd) = ni_vp nd \<Longrightarrow> new \<notin> set (nchlru s)
    \<Longrightarrow> cache_enter new nd s = Some s' \<Longrightarrow> nc_step (s, g) (s', g)"
| change: "\<not> cached s k \<Longrightarrow> nc_step (s, g) (s, g(k := v))"
| recycle: "nextvnodeid s + 1 \<noteq> 0 \<Longrightarrow> (\<And>k. fst k \<noteq> v \<Longrightarrow> g k \<noteq> Some v \<Longrightarrow> g' k = g k)
    \<Longrightarrow> nc_step (s, g) (vnode_new v mp s, g')"
| unmount: "cache_purgevfs mp s = Some s' \<Longrightarrow> (\<And>k. v_mount (vn_at s (fst k)) \<noteq> mp \<Longrightarrow> g' k = g k)
    \<Longrightarrow> nc_step (s, g) (s', g')"

definition nc_init :: "ncache \<times> dirs \<Rightarrow> bool" where
  "nc_init sg = (\<exists>s0. nchinit s0 = Some (fst sg) \<and> (\<forall>v. v_id (vn_at s0 v) \<le> nextvnodeid s0))"

lemma change_effect:
  assumes "ncinv (s, g)" and "\<not> cached s k"
  shows "ncinv (s, g(k := v))"
proof -
  have "agrees (g(k := v)) s a" if a: "a \<in> nc_hashed s" for a
  proof -
    have "nc_is s a k' \<Longrightarrow> k' \<noteq> k" for k' using assms(2) a by (auto simp: cached_def)
    then show ?thesis using ncinv_simps(4) [OF assms(1) a] unfolding agrees_def by (metis (no_types) fun_upd_other)
  qed
  then show ?thesis using assms(1) by (auto simp: ncinv_def)
qed

interpretation ncache: invariant_system nc_init nc_step ncinv
proof
  fix sg assume "nc_init sg"
  then obtain s0 where s0: "nchinit s0 = Some (fst sg)" "\<forall>v. v_id (vn_at s0 v) \<le> nextvnodeid s0"
    by (auto simp: nc_init_def)
  obtain x where x: "run_fuel (nchash_turn (nchashsize (desiredvnodes s0))) 32 1 = Some x"
    using s0(1) by (auto simp: nchinit_def split: option.splits)
  define h where "h = drop_bit 1 x - 1"
  have "Some (fst sg) = Some (s0\<lparr>nchlru := [], nchash := h, nchashtbl := replicate (unat h + 1) []\<rparr>)"
    using s0(1) unfolding nchinit_def x option.case Let_def h_def by (rule sym)
  then have h: "fst sg = s0\<lparr>nchlru := [], nchash := h, nchashtbl := replicate (unat h + 1) []\<rparr>" by (rule option.inject [THEN iffD1])
  then have e: "nc_hashed (fst sg) = {}" by (auto simp: nc_hashed_def)
  then have "a \<notin> set (nchashtbl (fst sg) ! i)" if "i < length (nchashtbl (fst sg))" for i a
    using hashedI [OF that] by blast
  moreover have "length (nchashtbl (fst sg)) = unat (nchash (fst sg)) + 1" "nchlru (fst sg) = []"
      "\<forall>v. v_id (vn_at (fst sg) v) \<le> nextvnodeid (fst sg)"
    using s0(2) by (simp_all add: h)
  ultimately show "ncinv sg" using e by (cases sg) (auto simp: ncinv_def)
next
  fix sg sg' assume "ncinv sg" "nc_step sg sg'"
  from this(2,1) show "ncinv sg'"
  proof (cases rule: nc_step.cases)
    case (look nd s st nd' s' g)
    then show ?thesis using \<open>ncinv sg\<close> lookup_effect by blast
  next
    case (enter nd s g new s')
    then show ?thesis using \<open>ncinv sg\<close> enter_effect by blast
  next
    case (change s k g v)
    then show ?thesis using \<open>ncinv sg\<close> change_effect by blast
  next
    case (recycle s v g g' mp)
    then show ?thesis using \<open>ncinv sg\<close> purge_effect [of s g v g' mp] by blast
  next
    case (unmount mp s s' g' g)
    then show ?thesis using \<open>ncinv sg\<close> purgevfs_effect [of s g mp s' g'] by blast
  qed
qed

section \<open>Properties\<close>

text \<open>
  Property C17. The name cache is coherent: whatever sequence of lookups, entries, changes to directories,
  reuse of vnodes and unmounting has happened since the table was set up, a name found is the name of
  the vnode returned, and a name reported missing does not exist. A name that the cache does not know
  is not in it after the lookup, so that it may then be entered or its directory changed.
\<close>

theorem name_cache_coherent:
  assumes "reach nc_init nc_step (s, g)" and "nd_wf nd" and "cache_lookup nd s = Some (st, nd', s')"
  shows "(st = - 1 \<longrightarrow> ni_vp nd' \<noteq> None \<and> g (nd_key nd) = ni_vp nd') \<and> (st = 2 \<longrightarrow> g (nd_key nd) = None)
    \<and> (st = 0 \<longrightarrow> doingcache s \<longrightarrow> ni_namelen nd \<le> NCHNAMLEN \<longrightarrow> \<not> cached s' (nd_key nd))"
  using lookup_effect [OF ncache.reach_inv [OF assms(1)] assms(2,3)] by simp

text \<open>A name entered in an empty cache and found again.\<close>

definition cache_boot :: ncache where
  "cache_boot = \<lparr>nchashtbl = [], nchash = 0, numcache = 0, nchlru = [],
     nchstat = \<lparr>ncs_goodhits = 0, ncs_neghits = 0, ncs_badhits = 0, ncs_falsehits = 0, ncs_miss = 0, ncs_long = 0\<rparr>,
     doingcache = True, nc_at = (\<lambda>_. nc_zero), vn_at = (\<lambda>_. \<lparr>v_id = 1, v_mount = 0\<rparr>), nextvnodeid = 1, desiredvnodes = 100\<rparr>"

definition cache_empty :: ncache where
  "cache_empty = cache_boot\<lparr>nchlru := [], nchash := 511, nchashtbl := replicate 512 []\<rparr>"

definition nd_etc :: nameidata where
  "nd_etc = \<lparr>ni_dvp = 2, ni_vp = Some 3, ni_ptr = [101, 116, 99, 47], ni_namelen = 3, ni_hash = 316,
     ni_makeentry = True, ni_nameiop = 0\<rparr>"

definition cache_etc :: ncache where
  "cache_etc = insque 9 316 (lru_append 9 (set_nc 9 (nc_fill nd_etc cache_empty) ((set_nc 9 (\<lambda>_. nc_zero) cache_empty)\<lparr>numcache := 1\<rparr>)))"

lemma run_fuel_numeral: "run_fuel body (numeral n) s
    = (case body s of Inl s' \<Rightarrow> run_fuel body (pred_numeral n) s' | Inr r \<Rightarrow> Some r)"
  by (simp add: numeral_eq_Suc)

lemma cache_boot_init: "nc_init (cache_empty, g)"
proof -
  have "nchash_turn (nchashsize 100) h = (if h \<le> 512 then Inl (push_bit 1 h) else Inr h)" for h
    by (simp add: nchash_turn_def nchashsize_def)
  then have "run_fuel (nchash_turn (nchashsize 100)) 32 1 = Some 1024"
    by (simp add: run_fuel_numeral)
  moreover have "drop_bit 1 1024 - 1 = (511 :: u32)" "unat (511 :: u32) + 1 = 512" "desiredvnodes cache_boot = 100"
    by (simp_all add: cache_boot_def)
  ultimately have "nchinit cache_boot = Some cache_empty"
    by (simp only: nchinit_def cache_empty_def option.case Let_def)
  then show ?thesis unfolding nc_init_def by (intro exI [of _ cache_boot]) (simp add: cache_boot_def)
qed

lemma nd_etc_wf: "nd_wf nd_etc"
  by code_simp

lemma cache_etc_reach: "reach nc_init nc_step (cache_etc, \<lambda>_. Some 3)"
proof (rule reach_step [where s = "(cache_empty, \<lambda>_. Some 3)"])
  show "reach nc_init nc_step (cache_empty, \<lambda>_. Some 3)" by (rule reach_init) (rule cache_boot_init)
  have b: "bucket 316 s = 316" if "nchash s = 511" for s using that by (simp add: bucket_def)
  show "nc_step (cache_empty, \<lambda>_. Some 3) (cache_etc, \<lambda>_. Some 3)"
  proof (rule nc_step.enter [of nd_etc _ _ 9])
    show "\<not> cached cache_empty (nd_key nd_etc)"
      by (simp add: cached_def nc_hashed_def cache_empty_def cache_boot_def)
    show "cache_enter 9 nd_etc cache_empty = Some cache_etc"
      using b [of "(set_nc 9 (\<lambda>_. nc_zero) cache_empty)\<lparr>numcache := 1\<rparr>"]
      by (simp add: cache_enter_def cache_slot_def cache_etc_def nd_etc_def NCHNAMLEN_def cache_empty_def cache_boot_def
          set_nc_def nc_fill_def)
  qed (rule nd_etc_wf, simp_all add: nd_etc_def cache_empty_def cache_boot_def)
qed

theorem name_cache_coherent_witness:
  "\<exists>st nd' s'. cache_lookup nd_etc cache_etc = Some (st, nd', s') \<and> st = - 1 \<and> ni_vp nd' = Some 3"
proof -
  have "nchashtbl cache_etc ! 316 = [9]"
    by (simp add: cache_etc_def insque_def lru_append_def set_nc_def cache_empty_def)
  moreover have "nc_match nd_etc cache_etc 9"
    by (simp add: nc_match_def cache_etc_def insque_def lru_append_def set_nc_def nc_fill_def nd_etc_def cache_empty_def cache_boot_def)
  moreover have "bucket 316 cache_etc = 316" "doingcache cache_etc"
      "nc_vp (nc_at cache_etc 9) = Some 3" "nc_vpid (nc_at cache_etc 9) = v_id (vn_at cache_etc 3)"
    by (simp_all add: bucket_def cache_etc_def insque_def lru_append_def set_nc_def nc_fill_def nd_etc_def cache_empty_def cache_boot_def)
  ultimately obtain nd' s' where l: "cache_lookup nd_etc cache_etc = Some (- 1, nd', s')"
    by (simp add: cache_lookup_def cache_hit_def nd_etc_def NCHNAMLEN_def)
  from name_cache_coherent [OF cache_etc_reach nd_etc_wf l] show ?thesis using l by simp
qed



text \<open>A lookup that drops the only entry of the cache stores through a null pointer as well.\<close>

lemma cache_drop_only_entry: "nchlru s = [a] \<Longrightarrow> cache_drop a nd s = None"
  by (simp add: cache_drop_def lru_push_def remque_def lru_remove_def)

text \<open>
  When the numbers wrap around, the entries forget theirs but the vnodes keep theirs. A purge that
  reaches the number the vnode has had all along then changes nothing, and entries made for the vnode
  meanwhile stay valid.
\<close>

lemma cache_purge_same_id:
  assumes "nextvnodeid s + 1 = v_id (vn_at s v)" and "v_id (vn_at s v) \<noteq> 0" and "cached s k"
  shows "cached (cache_purge v s) k"
proof -
  have "vn_at (cache_purge v s) = vn_at s" "nc_at (cache_purge v s) = nc_at s" "nc_hashed (cache_purge v s) = nc_hashed s"
    using assms(1,2) by (simp_all add: cache_purge_def set_v_id_def Let_def nc_hashed_def)
  then show ?thesis using assms(3) by (simp add: cached_def nc_is_def)
qed

lemma cache_purge_wrap_keeps_ids:
  "nextvnodeid s + 1 = 0 \<Longrightarrow> w \<noteq> v \<Longrightarrow> v_id (vn_at (cache_purge v s) w) = v_id (vn_at s w) \<and> nextvnodeid (cache_purge v s) = 1"
  by (simp add: cache_purge_def set_v_id_def Let_def)

end
