(* ===== verification/Descrip.thy ===== *)
theory Descrip
  imports Prelude
begin

text \<open>
  Descriptors and open files, \<^verbatim>\<open>sys/kern/kern_descrip.c\<close> with \<^verbatim>\<open>struct filedesc\<close> of \<^verbatim>\<open>sys/sys/filedesc.h\<close> and
  \<^verbatim>\<open>struct file\<close> of \<^verbatim>\<open>sys/sys/file.h\<close>.

  Files and descriptor tables are at addresses; the list of open files is a list of addresses. The
  addresses that \<^verbatim>\<open>MALLOC\<close> returns are arguments. A panic, and following a pointer to a file that was freed,
  is \<open>None\<close>. Calls to other parts of the kernel (file and vnode operations, \<^verbatim>\<open>crhold\<close>, \<^verbatim>\<open>copyin\<close> and so on) are
  listed in the state in their order; what they return is an argument, by their number. A \<^verbatim>\<open>short\<close> counter
  wraps by \<open>s16\<close>, an \<^verbatim>\<open>u_short\<close> index is stored modulo 65536.
\<close>

section \<open>Files and tables\<close>

record kfile =
  f_flag :: u16
  f_type :: int
  f_count :: int
  f_msgcount :: int
  f_cred :: nat
  f_offset :: int
  f_data :: nat

record filedesc =
  fd_ofiles :: "nat option list"
  fd_ofileflags :: "u8 list"
  fd_cdir :: nat
  fd_rdir :: "nat option"
  fd_nfiles :: nat
  fd_lastfile :: nat
  fd_freefile :: nat
  fd_cmask :: u16
  fd_refcnt :: nat

record dproc =
  p_fd :: nat
  p_nofile :: nat
  p_cred :: nat
  p_advlck :: bool
  p_dupfd :: nat

record uflock =
  l_start :: int
  l_len :: int
  l_type :: int
  l_whence :: int

datatype owner = Lproc nat | Lfile nat
datatype advop = Adv_setlk | Adv_unlck | Adv_getlk
datatype ioctlcmd = FIONBIO | FIOASYNC | TIOCGPGRP | TIOCSPGRP

datatype dcall = Crhold nat | Crfree nat | Vref nat | Vrele nat | Munmapfd nat nat | Tablefull
  | Advlock nat owner advop uflock u16 | Fo_close nat | Fo_ioctl nat ioctlcmd int
  | Copyin | Copyout | Vn_stat nat | Soo_stat nat

record dstate =
  files :: "nat \<Rightarrow> kfile option"
  filehead :: "nat list"
  nfiles :: nat
  maxfiles :: nat
  fdesc :: "nat \<Rightarrow> filedesc option"
  dprocs :: "nat \<Rightarrow> dproc"
  so_pgid :: "nat \<Rightarrow> int"
  fdexpand :: nat
  d_calls :: "dcall list"

record denv =
  e_err :: "nat \<Rightarrow> errno option"
  e_val :: "nat \<Rightarrow> int"
  e_flock :: "nat \<Rightarrow> uflock"
  e_pgid :: "int \<Rightarrow> int option"
  e_freed :: u8

type_synonym 'a dres = "('a \<times> dstate) option"

definition NDFILE :: nat where "NDFILE = 20"
definition NDEXTENT :: nat where "NDEXTENT = 50"
definition UF_EXCLOSE :: u8 where "UF_EXCLOSE = 1"
definition UF_MAPPED :: u8 where "UF_MAPPED = 2"
definition DTYPE_VNODE :: int where "DTYPE_VNODE = 1"
definition DTYPE_SOCKET :: int where "DTYPE_SOCKET = 2"
definition FREAD :: u16 where "FREAD = 0x0001"
definition FWRITE :: u16 where "FWRITE = 0x0002"
definition FNONBLOCK :: u16 where "FNONBLOCK = 0x0004"
definition FASYNC :: u16 where "FASYNC = 0x0040"
definition FHASLOCK :: u16 where "FHASLOCK = 0x4000"
definition FCNTLFLAGS :: u16 where "FCNTLFLAGS = 0x00cc"
definition F_WAIT :: u16 where "F_WAIT = 0x010"
definition F_FLOCK :: u16 where "F_FLOCK = 0x020"
definition F_POSIX :: u16 where "F_POSIX = 0x040"

definition s16 :: "int \<Rightarrow> int" where
  "s16 x = (x + 32768) mod 65536 - 32768"

definition u_short :: "nat \<Rightarrow> nat" where
  "u_short i = i mod 65536"

section \<open>The state\<close>

definition call :: "dcall \<Rightarrow> dstate \<Rightarrow> dstate" where
  "call c s = s\<lparr>d_calls := d_calls s @ [c]\<rparr>"

definition ext :: "denv \<Rightarrow> dcall \<Rightarrow> dstate \<Rightarrow> errno option \<times> dstate" where
  "ext E c s = (e_err E (length (d_calls s)), call c s)"

definition fd_of :: "nat \<Rightarrow> dstate \<Rightarrow> filedesc" where
  "fd_of p s = the (fdesc s (p_fd (dprocs s p)))"

definition set_fd :: "nat \<Rightarrow> (filedesc \<Rightarrow> filedesc) \<Rightarrow> dstate \<Rightarrow> dstate" where
  "set_fd p g s = s\<lparr>fdesc := (fdesc s)(p_fd (dprocs s p) \<mapsto> g (fd_of p s))\<rparr>"

definition set_file :: "nat \<Rightarrow> (kfile \<Rightarrow> kfile) \<Rightarrow> dstate \<Rightarrow> dstate" where
  "set_file a g s = s\<lparr>files := (files s)(a := map_option g (files s a))\<rparr>"

definition set_proc :: "nat \<Rightarrow> (dproc \<Rightarrow> dproc) \<Rightarrow> dstate \<Rightarrow> dstate" where
  "set_proc p g s = s\<lparr>dprocs := (dprocs s)(p := g (dprocs s p))\<rparr>"

text \<open>The file of a descriptor that a system call is given, if it is one.\<close>

definition fd_file :: "filedesc \<Rightarrow> int \<Rightarrow> nat option" where
  "fd_file fd i = (if 0 \<le> i \<and> i < int (fd_nfiles fd) then fd_ofiles fd ! nat i else None)"

section \<open>Allocation of descriptors\<close>

definition fd_take :: "nat \<Rightarrow> nat \<Rightarrow> filedesc \<Rightarrow> filedesc" where
  "fd_take want i fd = fd\<lparr>fd_ofileflags := (fd_ofileflags fd)[i := 0],
     fd_lastfile := (if fd_lastfile fd < i then u_short i else fd_lastfile fd),
     fd_freefile := (if want \<le> fd_freefile fd then u_short i else fd_freefile fd)\<rparr>"

definition fd_grow :: "filedesc \<Rightarrow> filedesc" where
  "fd_grow fd = (let n = (if fd_nfiles fd < NDEXTENT then NDEXTENT else 2 * fd_nfiles fd) in
     fd\<lparr>fd_ofiles := fd_ofiles fd @ replicate (n - fd_nfiles fd) None,
        fd_ofileflags := fd_ofileflags fd @ replicate (n - fd_nfiles fd) 0, fd_nfiles := n\<rparr>)"

definition fdalloc_turn :: "nat \<Rightarrow> nat \<Rightarrow> dstate \<Rightarrow> dstate + (nat result \<times> dstate)" where
  "fdalloc_turn p want s = (let fd = fd_of p s; lim = p_nofile (dprocs s p); top = min (fd_nfiles fd) lim;
       i = (if want < fd_freefile fd then fd_freefile fd else want) in
     case find (\<lambda>j. fd_ofiles fd ! j = None) [i..<top] of
       Some i \<Rightarrow> Inr (Inr i, set_fd p (fd_take want i) s)
     | None \<Rightarrow> if lim \<le> fd_nfiles fd then Inr (Inl EMFILE, s)
         else Inl ((set_fd p fd_grow s)\<lparr>fdexpand := fdexpand s + 1\<rparr>))"

definition fdalloc :: "nat \<Rightarrow> nat \<Rightarrow> dstate \<Rightarrow> (nat result) dres" where
  "fdalloc p want s = run_fuel (fdalloc_turn p want) (p_nofile (dprocs s p) + 1) s"

definition fdavail :: "nat \<Rightarrow> int \<Rightarrow> dstate \<Rightarrow> bool" where
  "fdavail p n s = (let fd = fd_of p s; i = int (p_nofile (dprocs s p)) - int (fd_nfiles fd);
       n' = (if 0 < i then n - i else n);
       free = filter (\<lambda>j. fd_ofiles fd ! j = None) [fd_freefile fd..<fd_nfiles fd] in
     (0 < i \<and> n' \<le> 0) \<or> (free \<noteq> [] \<and> n' \<le> int (length free)))"

section \<open>Files\<close>

text \<open>
  A new file is linked after the file of descriptor 0 if there is one, otherwise at the front; \<open>junk\<close> is
  what its memory held.
\<close>

fun link_after :: "nat \<Rightarrow> nat \<Rightarrow> nat list \<Rightarrow> nat list" where
  "link_after q a [] = [a]"
| "link_after q a (x # xs) = (if x = q then x # a # xs else x # link_after q a xs)"

definition falloc :: "nat \<Rightarrow> kfile \<Rightarrow> nat \<Rightarrow> dstate \<Rightarrow> ((nat \<times> nat) result) dres" where
  "falloc new junk p s = (case fdalloc p 0 s of
      None \<Rightarrow> None
    | Some (Inl e, s) \<Rightarrow> Some (Inl e, s)
    | Some (Inr i, s) \<Rightarrow>
        if maxfiles s \<le> nfiles s then Some (Inl ENFILE, call Tablefull s)
        else
          let cr = p_cred (dprocs s p);
              head = (case fd_ofiles (fd_of p s) ! 0 of Some q \<Rightarrow> link_after q new (filehead s) | None \<Rightarrow> new # filehead s);
              s = s\<lparr>nfiles := nfiles s + 1, filehead := head,
                    files := (files s)(new \<mapsto> junk\<lparr>f_count := 1, f_msgcount := 0, f_offset := 0, f_cred := cr\<rparr>)\<rparr>;
              s = set_fd p (\<lambda>fd. fd\<lparr>fd_ofiles := (fd_ofiles fd)[i := Some new]\<rparr>) s
          in Some (Inr (new, i), call (Crhold cr) s))"

definition ffree :: "nat \<Rightarrow> dstate \<Rightarrow> dstate" where
  "ffree a s = (call (Crfree (f_cred (the (files s a)))) s)\<lparr>filehead := remove1 a (filehead s), nfiles := nfiles s - 1,
     files := (files s)(a := None)\<rparr>"

definition whole_unlock :: uflock where
  "whole_unlock = \<lparr>l_start = 0, l_len = 0, l_type = 2, l_whence = 0\<rparr>"

definition closef :: "denv \<Rightarrow> nat \<Rightarrow> nat \<Rightarrow> dstate \<Rightarrow> (unit result) dres" where
  "closef E a p s = (case files s a of
      None \<Rightarrow> None
    | Some f \<Rightarrow>
       let s = (if p_advlck (dprocs s p) \<and> f_type f = DTYPE_VNODE
                then call (Advlock (f_data f) (Lproc p) Adv_unlck whole_unlock F_POSIX) s else s);
           n = s16 (f_count f - 1);
           s = set_file a (\<lambda>f. f\<lparr>f_count := n\<rparr>) s
       in if 0 < n then Some (Inr (), s)
          else if n < 0 then None
          else
            let s = (if f_flag f AND FHASLOCK \<noteq> 0 \<and> f_type f = DTYPE_VNODE
                     then call (Advlock (f_data f) (Lfile a) Adv_unlck whole_unlock F_FLOCK) s else s);
                (e, s) = ext E (Fo_close a) s
            in Some (case e of None \<Rightarrow> Inr () | Some e \<Rightarrow> Inl e, ffree a s))"

section \<open>System calls\<close>

text \<open>The end of \<^verbatim>\<open>dup\<close>, \<^verbatim>\<open>dup2\<close> and \<^verbatim>\<open>F_DUPFD\<close>: descriptor \<open>new\<close> becomes one of file \<open>a\<close>, with the flags of \<open>old\<close>.\<close>

definition fd_install :: "nat \<Rightarrow> nat \<Rightarrow> nat \<Rightarrow> nat \<Rightarrow> dstate \<Rightarrow> dstate" where
  "fd_install p old new a s = set_file a (\<lambda>f. f\<lparr>f_count := s16 (f_count f + 1)\<rparr>)
     (set_fd p (\<lambda>fd. fd\<lparr>fd_ofiles := (fd_ofiles fd)[new := Some a],
        fd_ofileflags := (fd_ofileflags fd)[new := fd_ofileflags fd ! old AND NOT UF_EXCLOSE],
        fd_lastfile := (if fd_lastfile fd < new then u_short new else fd_lastfile fd)\<rparr>) s)"

definition getdtablesize :: "nat \<Rightarrow> dstate \<Rightarrow> nat" where
  "getdtablesize p s = p_nofile (dprocs s p)"

definition dup2 :: "denv \<Rightarrow> nat \<Rightarrow> nat \<Rightarrow> nat \<Rightarrow> dstate \<Rightarrow> (nat result) dres" where
  "dup2 E p old new s = (case fd_file (fd_of p s) (int old) of
      None \<Rightarrow> Some (Inl EBADF, s)
    | Some a \<Rightarrow>
        if p_nofile (dprocs s p) \<le> new then Some (Inl EBADF, s)
        else if old = new then Some (Inr new, s)
        else if fd_nfiles (fd_of p s) \<le> new then
          (case fdalloc p new s of
             None \<Rightarrow> None
           | Some (Inl e, s) \<Rightarrow> Some (Inl e, s)
           | Some (Inr i, s) \<Rightarrow> if new \<noteq> i then None else Some (Inr new, fd_install p old new a s))
        else
          (case fd_ofiles (fd_of p s) ! new of
             None \<Rightarrow> Some (Inr new, fd_install p old new a s)
           | Some b \<Rightarrow>
               let s = (if fd_ofileflags (fd_of p s) ! new AND UF_MAPPED \<noteq> 0 then call (Munmapfd p new) s else s)
               in (case closef E b p s of None \<Rightarrow> None | Some (_, s) \<Rightarrow> Some (Inr new, fd_install p old new a s))))"

text \<open>A descriptor above 63 makes \<^verbatim>\<open>dup\<close> an old form of \<^verbatim>\<open>dup2\<close>, whose second argument is what follows on the user's stack.\<close>

definition dup_bits :: "int \<Rightarrow> u32" where
  "dup_bits i = (word_of_int i :: u32) AND NOT 0x3f"

definition dup :: "denv \<Rightarrow> nat \<Rightarrow> int \<Rightarrow> nat \<Rightarrow> dstate \<Rightarrow> (nat result) dres" where
  "dup E p i arg2 s =
     (if dup_bits i \<noteq> 0 then dup2 E p (unat ((word_of_int i :: u32) AND 0x3f)) arg2 s
      else (case fd_file (fd_of p s) i of
         None \<Rightarrow> Some (Inl EBADF, s)
       | Some a \<Rightarrow> (case fdalloc p 0 s of
            None \<Rightarrow> None
          | Some (Inl e, s) \<Rightarrow> Some (Inl e, s)
          | Some (Inr fd, s) \<Rightarrow> Some (Inr fd, fd_install p (nat i) fd a s))))"

fun shrink_last :: "nat option list \<Rightarrow> nat \<Rightarrow> nat" where
  "shrink_last fs 0 = 0"
| "shrink_last fs (Suc n) = (if fs ! Suc n = None then shrink_last fs n else Suc n)"

definition close :: "denv \<Rightarrow> nat \<Rightarrow> int \<Rightarrow> dstate \<Rightarrow> (unit result) dres" where
  "close E p i s = (case fd_file (fd_of p s) i of
      None \<Rightarrow> Some (Inl EBADF, s)
    | Some a \<Rightarrow>
        let n = nat i;
            s = (if fd_ofileflags (fd_of p s) ! n AND UF_MAPPED \<noteq> 0 then call (Munmapfd p n) s else s);
            s = set_fd p (\<lambda>fd. let fs = (fd_ofiles fd)[n := None] in
                  fd\<lparr>fd_ofiles := fs, fd_lastfile := shrink_last fs (fd_lastfile fd),
                     fd_freefile := (if n < fd_freefile fd then n else fd_freefile fd),
                     fd_ofileflags := (fd_ofileflags fd)[n := 0]\<rparr>) s
        in closef E a p s)"

text \<open>\<^verbatim>\<open>fstat\<close>; the old form \<^verbatim>\<open>ofstat\<close> makes the same calls.\<close>

definition fstat :: "denv \<Rightarrow> nat \<Rightarrow> int \<Rightarrow> dstate \<Rightarrow> (unit result) dres" where
  "fstat E p i s = (case fd_file (fd_of p s) i of
      None \<Rightarrow> Some (Inl EBADF, s)
    | Some a \<Rightarrow> (case files s a of
        None \<Rightarrow> None
      | Some f \<Rightarrow>
         if f_type f \<noteq> DTYPE_VNODE \<and> f_type f \<noteq> DTYPE_SOCKET then None
         else
           let (e, s) = ext E (if f_type f = DTYPE_VNODE then Vn_stat (f_data f) else Soo_stat (f_data f)) s
           in (case e of Some e \<Rightarrow> Some (Inl e, s)
               | None \<Rightarrow> let (e, s) = ext E Copyout s in Some (case e of Some e \<Rightarrow> Inl e | None \<Rightarrow> Inr (), s))))"

definition fdcopy_size :: "nat \<Rightarrow> nat \<Rightarrow> nat + nat" where
  "fdcopy_size hi i = (if 2 * NDEXTENT < i \<and> hi * 2 < i then Inl (i div 2) else Inr i)"

definition share :: "nat option \<Rightarrow> dstate \<Rightarrow> dstate" where
  "share x s = (case x of None \<Rightarrow> s | Some a \<Rightarrow> set_file a (\<lambda>f. f\<lparr>f_count := s16 (f_count f + 1)\<rparr>) s)"

definition fdcopy :: "nat \<Rightarrow> nat \<Rightarrow> dstate \<Rightarrow> dstate option" where
  "fdcopy new p s = (let fd = fd_of p s; hi = fd_lastfile fd;
       s = call (Vref (fd_cdir fd)) s;
       s = (case fd_rdir fd of Some r \<Rightarrow> call (Vref r) s | None \<Rightarrow> s) in
     case (if hi < NDFILE then Some NDFILE else run_fuel (fdcopy_size hi) (fd_nfiles fd + 1) (fd_nfiles fd)) of
       None \<Rightarrow> None
     | Some n \<Rightarrow>
        if n \<le> hi then None
        else
          let fd' = fd\<lparr>fd_refcnt := 1, fd_nfiles := n, fd_ofiles := take n (fd_ofiles fd),
                      fd_ofileflags := take n (fd_ofileflags fd)\<rparr>
          in Some (fold share (take (hi + 1) (fd_ofiles fd')) (s\<lparr>fdesc := (fdesc s)(new \<mapsto> fd')\<rparr>)))"

fun close_all :: "denv \<Rightarrow> nat \<Rightarrow> nat option list \<Rightarrow> dstate \<Rightarrow> dstate option" where
  "close_all E p [] s = Some s"
| "close_all E p (None # fs) s = close_all E p fs s"
| "close_all E p (Some a # fs) s = (case closef E a p s of None \<Rightarrow> None | Some (_, s) \<Rightarrow> close_all E p fs s)"

definition fdfree :: "denv \<Rightarrow> nat \<Rightarrow> dstate \<Rightarrow> dstate option" where
  "fdfree E p s = (let s = set_fd p (\<lambda>fd. fd\<lparr>fd_refcnt := fd_refcnt fd - 1\<rparr>) s; fd = fd_of p s in
     if 0 < fd_refcnt fd then Some s
     else (case close_all E p (take (fd_lastfile fd + 1) (fd_ofiles fd)) s of
        None \<Rightarrow> None
      | Some s \<Rightarrow>
         let s = call (Vrele (fd_cdir fd)) s;
             s = (case fd_rdir fd of Some r \<Rightarrow> call (Vrele r) s | None \<Rightarrow> s)
         in Some (s\<lparr>fdesc := (fdesc s)(p_fd (dprocs s p) := None)\<rparr>)))"

text \<open>The file control call: locks are passed on to the vnode, with the error it returns.\<close>

datatype fcmd = F_DUPFD | F_GETFD | F_SETFD | F_GETFL | F_SETFL | F_GETOWN | F_SETOWN | F_GETLK | F_SETLK | F_SETLKW | F_OTHER

definition ret :: "errno option \<Rightarrow> int \<Rightarrow> int result" where
  "ret e v = (case e of Some e \<Rightarrow> Inl e | None \<Rightarrow> Inr v)"

definition fcntl_setfl :: "denv \<Rightarrow> nat \<Rightarrow> int \<Rightarrow> dstate \<Rightarrow> int result \<times> dstate" where
  "fcntl_setfl E a arg s =
     (let s = set_file a (\<lambda>f. f\<lparr>f_flag := (f_flag f AND NOT FCNTLFLAGS) OR (word_of_int (arg + 1) AND FCNTLFLAGS)\<rparr>) s;
          flag = f_flag (the (files s a));
          (e, s) = ext E (Fo_ioctl a FIONBIO (uint (flag AND FNONBLOCK))) s
      in case e of Some e \<Rightarrow> (Inl e, s)
         | None \<Rightarrow>
             let (e, s) = ext E (Fo_ioctl a FIOASYNC (uint (flag AND FASYNC))) s
             in case e of None \<Rightarrow> (Inr 0, s)
                | Some e \<Rightarrow> (Inl e, call (Fo_ioctl a FIONBIO 0)
                    (set_file a (\<lambda>f. f\<lparr>f_flag := f_flag f AND NOT FNONBLOCK\<rparr>) s)))"

definition fcntl_getown :: "denv \<Rightarrow> nat \<Rightarrow> kfile \<Rightarrow> dstate \<Rightarrow> int result \<times> dstate" where
  "fcntl_getown E a f s = (if f_type f = DTYPE_SOCKET then (Inr (so_pgid s (f_data f)), s)
     else let v = e_val E (length (d_calls s)); (e, s) = ext E (Fo_ioctl a TIOCGPGRP 0) s in (ret e (- v), s))"

definition fcntl_setown :: "denv \<Rightarrow> nat \<Rightarrow> kfile \<Rightarrow> int \<Rightarrow> dstate \<Rightarrow> int result \<times> dstate" where
  "fcntl_setown E a f arg s =
     (if f_type f = DTYPE_SOCKET then (Inr 0, s\<lparr>so_pgid := (so_pgid s)(f_data f := arg)\<rparr>)
      else (case (if arg \<le> 0 then Some (- arg) else e_pgid E arg) of
         None \<Rightarrow> (Inl ESRCH, s)
       | Some g \<Rightarrow> let (e, s) = ext E (Fo_ioctl a TIOCSPGRP g) s in (ret e 0, s)))"

definition user_flock :: "denv \<Rightarrow> kfile \<Rightarrow> dstate \<Rightarrow> (errno + uflock) \<times> dstate" where
  "user_flock E f s = (let fl = e_flock E (length (d_calls s)); (e, s) = ext E Copyin s in
     case e of Some e \<Rightarrow> (Inl e, s)
     | None \<Rightarrow> (Inr (if l_whence fl = 1 then fl\<lparr>l_start := s32 (l_start fl + f_offset f)\<rparr> else fl), s))"

definition advlock :: "denv \<Rightarrow> nat \<Rightarrow> kfile \<Rightarrow> advop \<Rightarrow> uflock \<Rightarrow> u16 \<Rightarrow> dstate \<Rightarrow> int result \<times> dstate" where
  "advlock E p f op fl flg s = (let (e, s) = ext E (Advlock (f_data f) (Lproc p) op fl flg) s in (ret e 0, s))"

definition fcntl_setlk :: "denv \<Rightarrow> nat \<Rightarrow> kfile \<Rightarrow> u16 \<Rightarrow> dstate \<Rightarrow> int result \<times> dstate" where
  "fcntl_setlk E p f flg s = (if f_type f \<noteq> DTYPE_VNODE then (Inl EBADF, s)
     else (case user_flock E f s of
        (Inl e, s) \<Rightarrow> (Inl e, s)
      | (Inr fl, s) \<Rightarrow>
          if l_type fl = 1 then
            (if f_flag f AND FREAD = 0 then (Inl EBADF, s)
             else advlock E p f Adv_setlk fl flg (set_proc p (\<lambda>x. x\<lparr>p_advlck := True\<rparr>) s))
          else if l_type fl = 3 then
            (if f_flag f AND FWRITE = 0 then (Inl EBADF, s)
             else advlock E p f Adv_setlk fl flg (set_proc p (\<lambda>x. x\<lparr>p_advlck := True\<rparr>) s))
          else if l_type fl = 2 then advlock E p f Adv_unlck fl F_POSIX s
          else (Inl EINVAL, s)))"

definition fcntl_getlk :: "denv \<Rightarrow> nat \<Rightarrow> kfile \<Rightarrow> dstate \<Rightarrow> int result \<times> dstate" where
  "fcntl_getlk E p f s = (if f_type f \<noteq> DTYPE_VNODE then (Inl EBADF, s)
     else (case user_flock E f s of
        (Inl e, s) \<Rightarrow> (Inl e, s)
      | (Inr fl, s) \<Rightarrow> (case advlock E p f Adv_getlk fl F_POSIX s of
            (Inl e, s) \<Rightarrow> (Inl e, s)
          | (Inr _, s) \<Rightarrow> let (e, s) = ext E Copyout s in (ret e 0, s))))"

text \<open>
  \<^verbatim>\<open>F_DUPFD\<close> copies the flags through \<^verbatim>\<open>pop\<close>, a pointer into the flags of the table as it was before \<^verbatim>\<open>fdalloc\<close>.
  When the table has grown since, and the old one was not the one inside the \<^verbatim>\<open>filedesc0\<close> structure (\<^verbatim>\<open>NDFILE\<close>
  entries), the memory it points to has been freed, and the flags are whatever it holds (\<open>e_freed\<close>).
\<close>

definition pop_freed :: "nat \<Rightarrow> dstate \<Rightarrow> dstate \<Rightarrow> bool" where
  "pop_freed p s0 s = (NDFILE < fd_nfiles (fd_of p s0) \<and> fd_nfiles (fd_of p s0) \<noteq> fd_nfiles (fd_of p s))"

definition fcntl_dupfd :: "denv \<Rightarrow> nat \<Rightarrow> nat \<Rightarrow> nat \<Rightarrow> int \<Rightarrow> dstate \<Rightarrow> (int result) dres" where
  "fcntl_dupfd E p i a arg s0 = (if arg < 0 \<or> int (p_nofile (dprocs s0 p)) \<le> arg then Some (Inl EINVAL, s0)
     else (case fdalloc p (nat arg) s0 of
        None \<Rightarrow> None
      | Some (Inl e, s) \<Rightarrow> Some (Inl e, s)
      | Some (Inr j, s) \<Rightarrow>
          let t = fd_install p i j a s in
          Some (Inr (int j), if pop_freed p s0 s
            then set_fd p (\<lambda>fd. fd\<lparr>fd_ofileflags := (fd_ofileflags fd)[j := e_freed E AND NOT UF_EXCLOSE]\<rparr>) t
            else t)))"

definition fcntl :: "denv \<Rightarrow> nat \<Rightarrow> int \<Rightarrow> fcmd \<Rightarrow> int \<Rightarrow> dstate \<Rightarrow> (int result) dres" where
  "fcntl E p i cmd arg s = (case fd_file (fd_of p s) i of
      None \<Rightarrow> Some (Inl EBADF, s)
    | Some a \<Rightarrow> (case files s a of
        None \<Rightarrow> None
      | Some f \<Rightarrow>
         let n = nat i; pop = fd_ofileflags (fd_of p s) ! n in
         (case cmd of
            F_DUPFD \<Rightarrow> fcntl_dupfd E p n a arg s
          | F_GETFD \<Rightarrow> Some (Inr (uint (pop AND 1)), s)
          | F_SETFD \<Rightarrow> Some (Inr 0, set_fd p (\<lambda>fd. fd\<lparr>fd_ofileflags :=
               (fd_ofileflags fd)[n := (pop AND NOT 1) OR (word_of_int arg AND 1)]\<rparr>) s)
          | F_GETFL \<Rightarrow> Some (Inr (sint (f_flag f) - 1), s)
          | F_SETFL \<Rightarrow> Some (fcntl_setfl E a arg s)
          | F_GETOWN \<Rightarrow> Some (fcntl_getown E a f s)
          | F_SETOWN \<Rightarrow> Some (fcntl_setown E a f arg s)
          | F_SETLKW \<Rightarrow> Some (fcntl_setlk E p f (F_POSIX OR F_WAIT) s)
          | F_SETLK \<Rightarrow> Some (fcntl_setlk E p f F_POSIX s)
          | F_GETLK \<Rightarrow> Some (fcntl_getlk E p f s)
          | F_OTHER \<Rightarrow> Some (Inl EINVAL, s))))"

definition flock_type :: "u16 \<Rightarrow> int option" where
  "flock_type how = (if how AND 2 \<noteq> 0 then Some 3 else if how AND 1 \<noteq> 0 then Some 1 else None)"

definition flock :: "denv \<Rightarrow> nat \<Rightarrow> int \<Rightarrow> u16 \<Rightarrow> dstate \<Rightarrow> (int result) dres" where
  "flock E p i how s = (case fd_file (fd_of p s) i of
      None \<Rightarrow> Some (Inl EBADF, s)
    | Some a \<Rightarrow> (case files s a of
        None \<Rightarrow> None
      | Some f \<Rightarrow>
         if f_type f \<noteq> DTYPE_VNODE then Some (Inl EOPNOTSUPP, s)
         else if how AND 8 \<noteq> 0 then
           let s = set_file a (\<lambda>f. f\<lparr>f_flag := f_flag f AND NOT FHASLOCK\<rparr>) s;
               (e, s) = ext E (Advlock (f_data f) (Lfile a) Adv_unlck whole_unlock F_FLOCK) s
           in Some (ret e 0, s)
         else (case flock_type how of
             None \<Rightarrow> Some (Inl EBADF, s)
           | Some t \<Rightarrow>
              let s = set_file a (\<lambda>f. f\<lparr>f_flag := f_flag f OR FHASLOCK\<rparr>) s;
                  (e, s) = ext E (Advlock (f_data f) (Lfile a) Adv_setlk (whole_unlock\<lparr>l_type := t\<rparr>)
                             (if how AND 4 \<noteq> 0 then F_FLOCK else F_FLOCK OR F_WAIT)) s
              in Some (ret e 0, s))))"

section \<open>The descriptor device\<close>

definition fdopen :: "nat \<Rightarrow> nat \<Rightarrow> dstate \<Rightarrow> errno \<times> dstate" where
  "fdopen curproc minor s = (ENODEV, set_proc curproc (\<lambda>x. x\<lparr>p_dupfd := u_short minor\<rparr>) s)"

definition dupfdopen :: "nat \<Rightarrow> nat \<Rightarrow> int \<Rightarrow> u16 \<Rightarrow> dstate \<Rightarrow> (unit result) dres" where
  "dupfdopen p indx dfd mode s = (let fd = fd_of p s; fp = fd_ofiles fd ! indx in
     case fd_file fd dfd of
       None \<Rightarrow> Some (Inl EBADF, s)
     | Some w \<Rightarrow>
         if fp = Some w then Some (Inl EBADF, s)
         else (case files s w of
            None \<Rightarrow> None
          | Some f \<Rightarrow>
             if (mode AND (FREAD OR FWRITE)) OR f_flag f \<noteq> f_flag f then Some (Inl EACCES, s)
             else Some (Inr (), set_file w (\<lambda>f. f\<lparr>f_count := s16 (f_count f + 1)\<rparr>)
               (set_fd p (\<lambda>fd. fd\<lparr>fd_ofiles := (fd_ofiles fd)[indx := Some w],
                  fd_ofileflags := (fd_ofileflags fd)[indx := fd_ofileflags fd ! nat dfd],
                  fd_lastfile := (if fd_lastfile fd < indx then u_short indx else fd_lastfile fd)\<rparr>) s))))"

section \<open>Tables\<close>

definition fd_wf :: "filedesc \<Rightarrow> bool" where
  "fd_wf fd = (length (fd_ofiles fd) = fd_nfiles fd \<and> length (fd_ofileflags fd) = fd_nfiles fd
     \<and> (fd_nfiles fd = NDFILE \<or> (\<exists>k. fd_nfiles fd = NDEXTENT * 2 ^ k)) \<and> fd_refcnt fd = 1
     \<and> fd_lastfile fd < fd_nfiles fd \<and> (\<forall>i < fd_nfiles fd. fd_ofiles fd ! i \<noteq> None \<longrightarrow> i \<le> fd_lastfile fd)
     \<and> fd_freefile fd \<le> fd_nfiles fd \<and> (\<forall>i < fd_freefile fd. fd_ofiles fd ! i \<noteq> None))"

definition fd_used :: "filedesc \<Rightarrow> nat \<Rightarrow> bool" where
  "fd_used fd j = (j < fd_nfiles fd \<and> fd_ofiles fd ! j \<noteq> None)"

lemma fd_nfiles_cases: "fd_wf fd \<Longrightarrow> 20 \<le> fd_nfiles fd"
proof -
  assume "fd_wf fd"
  then consider "fd_nfiles fd = 20" | k where "fd_nfiles fd = 50 * 2 ^ k" by (auto simp: fd_wf_def NDFILE_def NDEXTENT_def)
  then show ?thesis
  proof cases
    case 2
    have "(1 :: nat) \<le> 2 ^ k" by simp
    then show ?thesis using 2 by linarith
  qed simp
qed

lemma fd_grow_files:
  assumes "fd_wf fd"
  shows "fd_wf (fd_grow fd)" "fd_nfiles fd < fd_nfiles (fd_grow fd)" "fd_used (fd_grow fd) j = fd_used fd j"
    "fd_ofiles (fd_grow fd) = fd_ofiles fd @ replicate (fd_nfiles (fd_grow fd) - fd_nfiles fd) None"
    "fd_freefile (fd_grow fd) = fd_freefile fd"
proof -
  let ?n = "if fd_nfiles fd < NDEXTENT then NDEXTENT else 2 * fd_nfiles fd"
  have n: "fd_nfiles (fd_grow fd) = ?n" by (simp add: fd_grow_def Let_def)
  show less: "fd_nfiles fd < fd_nfiles (fd_grow fd)" using fd_nfiles_cases [OF assms] by (simp add: n)
  show fs: "fd_ofiles (fd_grow fd) = fd_ofiles fd @ replicate (fd_nfiles (fd_grow fd) - fd_nfiles fd) None"
    by (simp add: fd_grow_def Let_def)
  show used: "fd_used (fd_grow fd) j = fd_used fd j" for j
    using less assms by (auto simp: fd_used_def fs nth_append fd_wf_def)
  have size: "\<exists>k. ?n = NDEXTENT * 2 ^ k"
  proof (cases "fd_nfiles fd < NDEXTENT")
    case True
    then show ?thesis by (intro exI [of _ 0]) simp
  next
    case False
    then obtain k where "fd_nfiles fd = NDEXTENT * 2 ^ k" using assms by (auto simp: fd_wf_def NDFILE_def NDEXTENT_def)
    then show ?thesis using False by (intro exI [of _ "Suc k"]) simp
  qed
  have "i \<le> fd_lastfile fd" if "i < fd_nfiles (fd_grow fd)" "fd_ofiles (fd_grow fd) ! i \<noteq> None" for i
    using that used [of i] assms by (auto simp: fd_used_def fd_wf_def)
  moreover have "fd_ofiles (fd_grow fd) ! i \<noteq> None" if "i < fd_freefile fd" for i
    using that assms by (simp add: fs nth_append fd_wf_def)
  moreover have "length (fd_ofileflags (fd_grow fd)) = fd_nfiles (fd_grow fd)" "length (fd_ofiles (fd_grow fd)) = fd_nfiles (fd_grow fd)"
    using assms less by (simp_all add: fd_grow_def fd_wf_def Let_def)
  moreover show "fd_freefile (fd_grow fd) = fd_freefile fd" by (simp add: fd_grow_def Let_def)
  moreover have "fd_lastfile (fd_grow fd) = fd_lastfile fd" "fd_refcnt (fd_grow fd) = fd_refcnt fd" by (simp_all add: fd_grow_def Let_def)
  ultimately show "fd_wf (fd_grow fd)"
    using assms less size unfolding fd_wf_def n by auto
qed

lemma find_upt_Some: "find P [i..<n] = Some j \<Longrightarrow> i \<le> j \<and> j < n \<and> P j \<and> (\<forall>k. i \<le> k \<and> k < j \<longrightarrow> \<not> P k)"
proof -
  assume "find P [i..<n] = Some j"
  then obtain m where m: "m < length [i..<n]" "P ([i..<n] ! m)" "j = [i..<n] ! m" "\<forall>k < m. \<not> P ([i..<n] ! k)"
    by (auto simp: find_Some_iff)
  then have j: "j = i + m" "i + m < n" by auto
  have "\<not> P k" if "i \<le> k" "k < j" for k
    using m(4) [rule_format, of "k - i"] that j by simp
  then show ?thesis using m(2,3) j by auto
qed

lemma find_upt_None: "find P [i..<n] = None \<Longrightarrow> i \<le> k \<Longrightarrow> k < n \<Longrightarrow> \<not> P k"
  by (auto simp: find_None_iff)

section \<open>Allocation\<close>

definition live :: "dstate \<Rightarrow> nat \<Rightarrow> bool" where
  "live s p = (fdesc s (p_fd (dprocs s p)) \<noteq> None)"

text \<open>A state with the table of one process enlarged.\<close>

definition grown :: "nat \<Rightarrow> dstate \<Rightarrow> dstate \<Rightarrow> bool" where
  "grown p s0 s = (fd_wf (fd_of p s) \<and> (\<exists>m. fd_ofiles (fd_of p s) = fd_ofiles (fd_of p s0) @ replicate m None)
     \<and> fd_freefile (fd_of p s) = fd_freefile (fd_of p s0) \<and> (\<forall>j. fd_used (fd_of p s) j = fd_used (fd_of p s0) j)
     \<and> (\<exists>n. s = s0\<lparr>fdesc := (fdesc s0)(p_fd (dprocs s0 p) \<mapsto> fd_of p s), fdexpand := n\<rparr>))"

lemma grown_refl: "live s p \<Longrightarrow> fd_wf (fd_of p s) \<Longrightarrow> grown p s s"
proof -
  assume "live s p" "fd_wf (fd_of p s)"
  moreover from this have "(fdesc s)(p_fd (dprocs s p) \<mapsto> fd_of p s) = fdesc s"
    by (auto simp: live_def fd_of_def)
  then have "s = s\<lparr>fdesc := (fdesc s)(p_fd (dprocs s p) \<mapsto> fd_of p s), fdexpand := fdexpand s\<rparr>" by simp
  ultimately show ?thesis unfolding grown_def by (metis append_Nil2 replicate_0)
qed

lemma fd_of_set_fd [simp]: "fd_of p (set_fd p g s) = g (fd_of p s)" "fd_of p (s\<lparr>fdexpand := n\<rparr>) = fd_of p s"
  "dprocs (set_fd p g s) = dprocs s"
  by (simp_all add: fd_of_def set_fd_def)

lemma grown_grow:
  assumes "grown p s0 s"
  shows "grown p s0 ((set_fd p fd_grow s)\<lparr>fdexpand := n\<rparr>)"
proof -
  obtain m k where g: "fd_wf (fd_of p s)" "fd_ofiles (fd_of p s) = fd_ofiles (fd_of p s0) @ replicate m None"
      "s = s0\<lparr>fdesc := (fdesc s0)(p_fd (dprocs s0 p) \<mapsto> fd_of p s), fdexpand := k\<rparr>"
    using assms unfolding grown_def by blast
  have d: "dprocs s = dprocs s0" by (subst g(3)) simp
  have "set_fd p fd_grow s = s\<lparr>fdesc := (fdesc s)(p_fd (dprocs s0 p) \<mapsto> fd_grow (fd_of p s))\<rparr>" by (simp add: set_fd_def d)
  also have "\<dots> = s0\<lparr>fdesc := (fdesc s0)(p_fd (dprocs s0 p) \<mapsto> fd_grow (fd_of p s)), fdexpand := k\<rparr>"
    by (subst (1 2) g(3)) simp
  finally have s: "(set_fd p fd_grow s)\<lparr>fdexpand := n\<rparr>
      = s0\<lparr>fdesc := (fdesc s0)(p_fd (dprocs s0 p) \<mapsto> fd_grow (fd_of p s)), fdexpand := n\<rparr>" by simp
  have "\<exists>m. fd_ofiles (fd_grow (fd_of p s)) = fd_ofiles (fd_of p s0) @ replicate m None"
    unfolding fd_grow_files(4) [OF g(1)] g(2) append_assoc replicate_add [symmetric] by blast
  then show ?thesis
    using assms fd_grow_files [OF g(1)] s unfolding grown_def fd_of_set_fd by metis
qed

text \<open>What \<open>fdalloc\<close> returns: the lowest free descriptor from \<open>want\<close> on, taken in the enlarged table, or none.\<close>

definition fdalloc_good :: "nat \<Rightarrow> nat \<Rightarrow> dstate \<Rightarrow> nat result \<times> dstate \<Rightarrow> bool" where
  "fdalloc_good p want s0 rs = (case rs of
      (Inl e, s) \<Rightarrow> e = EMFILE \<and> grown p s0 s \<and> (\<forall>j. want \<le> j \<and> j < p_nofile (dprocs s0 p) \<longrightarrow> fd_used (fd_of p s0) j)
    | (Inr i, s) \<Rightarrow> want \<le> i \<and> i < p_nofile (dprocs s0 p) \<and> \<not> fd_used (fd_of p s0) i
        \<and> (\<forall>j. want \<le> j \<and> j < i \<longrightarrow> fd_used (fd_of p s0) j)
        \<and> (\<exists>s1. grown p s0 s1 \<and> i < fd_nfiles (fd_of p s1) \<and> s = set_fd p (fd_take want i) s1))"

lemma grown_procs: "grown p s0 s \<Longrightarrow> dprocs s = dprocs s0"
  unfolding grown_def by (metis dstate.select_convs(6) dstate.surjective dstate.update_convs(5) dstate.update_convs(8))

interpretation fdalloc: ranked_loop "fdalloc_turn p want" "grown p s0" "\<lambda>s. p_nofile (dprocs s p) - fd_nfiles (fd_of p s)"
  "fdalloc_good p want s0" for p want s0
proof
  fix s s' assume g: "grown p s0 s" and t: "fdalloc_turn p want s = Inl s'"
  then have s': "s' = (set_fd p fd_grow s)\<lparr>fdexpand := fdexpand s + 1\<rparr>" "fd_nfiles (fd_of p s) < p_nofile (dprocs s p)"
    by (auto simp: fdalloc_turn_def Let_def split: option.splits if_splits)
  have "fd_wf (fd_of p s)" using g by (simp add: grown_def)
  from fd_grow_files(2) [OF this] s' grown_grow [OF g]
  show "grown p s0 s' \<and> p_nofile (dprocs s' p) - fd_nfiles (fd_of p s') < p_nofile (dprocs s p) - fd_nfiles (fd_of p s)"
    by simp
next
  fix s r assume g: "grown p s0 s" and t: "fdalloc_turn p want s = Inr r"
  let ?fd = "fd_of p s" and ?i = "if want < fd_freefile (fd_of p s) then fd_freefile (fd_of p s) else want"
  let ?find = "find (\<lambda>j. fd_ofiles ?fd ! j = None) [?i..<min (fd_nfiles ?fd) (p_nofile (dprocs s p))]"
  have wf: "fd_wf ?fd" and used: "\<And>j. fd_used ?fd j = fd_used (fd_of p s0) j" using g by (auto simp: grown_def)
  note d = grown_procs [OF g]
  have low: "fd_used ?fd j" if "want \<le> j" "j < ?i" for j
    using that wf by (auto simp: fd_used_def fd_wf_def split: if_splits)
  show "fdalloc_good p want s0 r"
  proof (cases ?find)
    case (Some i)
    note f = find_upt_Some [OF Some]
    have r: "r = (Inr i, set_fd p (fd_take want i) s)" using t Some by (simp add: fdalloc_turn_def Let_def)
    have "fd_used ?fd j" if "want \<le> j" "j < i" for j
      using low [OF that(1)] f that by (cases "j < ?i") (auto simp: fd_used_def not_less)
    moreover have "\<not> fd_used ?fd i" "want \<le> i" "i < fd_nfiles ?fd" "i < p_nofile (dprocs s p)"
      using f by (auto simp: fd_used_def split: if_splits)
    ultimately show ?thesis using g used d r unfolding fdalloc_good_def by auto
  next
    case None
    then have "p_nofile (dprocs s p) \<le> fd_nfiles ?fd" and r: "r = (Inl EMFILE, s)"
      using t by (auto simp: fdalloc_turn_def Let_def split: if_splits)
    then have "fd_used ?fd j" if "want \<le> j" "j < p_nofile (dprocs s p)" for j
      using low [OF that(1)] find_upt_None [OF None, of j] that by (cases "j < ?i") (auto simp: fd_used_def not_less)
    then show ?thesis using g used d r unfolding fdalloc_good_def by auto
  qed
qed

lemma fdalloc_returns:
  assumes "live s p" and "fd_wf (fd_of p s)"
  shows "\<exists>r s'. fdalloc p want s = Some (r, s') \<and> fdalloc_good p want s (r, s')"
proof -
  have "\<exists>rs. run_fuel (fdalloc_turn p want) (p_nofile (dprocs s p) + 1) s = Some rs \<and> fdalloc_good p want s rs"
    by (rule fdalloc.run_returns [OF grown_refl [OF assms]]) simp
  then show ?thesis unfolding fdalloc_def by (metis surj_pair)
qed

section \<open>Counting references\<close>

definition refs :: "(nat \<Rightarrow> filedesc option) \<Rightarrow> nat \<Rightarrow> nat" where
  "refs F a = (\<Sum>d \<in> dom F. count_list (fd_ofiles (the (F d))) (Some a))"

text \<open>The counts, with a number of additional references to each file.\<close>

definition cnt_ok :: "nat \<Rightarrow> kfile option \<Rightarrow> bool" where
  "cnt_ok n fo = (case fo of None \<Rightarrow> n = 0 | Some f \<Rightarrow> f_count f = int n \<and> 0 < n \<and> n < 32768)"

definition cinv :: "(nat \<Rightarrow> nat) \<Rightarrow> dstate \<Rightarrow> bool" where
  "cinv x s = (finite (dom (fdesc s)) \<and> distinct (filehead s) \<and> set (filehead s) = dom (files s) \<and> nfiles s = length (filehead s)
     \<and> (\<forall>a. cnt_ok (refs (fdesc s) a + x a) (files s a)))"

lemma s16_id: "- 32768 \<le> n \<Longrightarrow> n < 32768 \<Longrightarrow> s16 n = n"
  by (simp add: s16_def)

lemma refs_upd:
  assumes "finite (dom F)" and "F d = Some fd"
  shows "refs (F(d \<mapsto> fd')) a + count_list (fd_ofiles fd) (Some a) = refs F a + count_list (fd_ofiles fd') (Some a)"
proof -
  let ?c = "\<lambda>F d. count_list (fd_ofiles (the (F d))) (Some a)"
  have d: "d \<in> dom F" using assms(2) by auto
  have "refs F a = ?c F d + sum (?c F) (dom F - {d})" unfolding refs_def by (rule sum.remove [OF assms(1) d])
  moreover have "refs (F(d \<mapsto> fd')) a = ?c (F(d \<mapsto> fd')) d + sum (?c (F(d \<mapsto> fd'))) (dom F - {d})"
    unfolding refs_def using sum.remove [of "dom F" d "?c (F(d \<mapsto> fd'))"] assms(1) d by (simp add: insert_absorb)
  moreover have "sum (?c (F(d \<mapsto> fd'))) (dom F - {d}) = sum (?c F) (dom F - {d})" by (rule sum.cong) auto
  ultimately show ?thesis using assms(2) by simp
qed

lemma refs_new:
  assumes "finite (dom F)" and "F d = None"
  shows "refs (F(d \<mapsto> fd)) a = refs F a + count_list (fd_ofiles fd) (Some a)"
proof -
  have d: "d \<notin> dom F" using assms(2) by auto
  have "(\<Sum>e \<in> dom F. count_list (fd_ofiles (the ((F(d \<mapsto> fd)) e))) (Some a)) = refs F a"
    unfolding refs_def by (rule sum.cong) (use d in auto)
  then show ?thesis using d assms(1) unfolding refs_def by simp
qed

lemma refs_gone:
  assumes "finite (dom F)" and "F d = Some fd"
  shows "refs (F(d := None)) a + count_list (fd_ofiles fd) (Some a) = refs F a"
  using refs_new [of "F(d := None)" d fd a] assms by (simp add: fun_upd_idem)

lemma refs_same:
  assumes "finite (dom F)" and "F d = Some fd" and "\<And>a. count_list (fd_ofiles fd') (Some a) = count_list (fd_ofiles fd) (Some a)"
  shows "refs (F(d \<mapsto> fd')) = refs F"
  using refs_upd [OF assms(1,2), of fd'] assms(3) by (intro ext) simp

lemma count_list_upd:
  "i < length xs \<Longrightarrow> count_list (xs[i := y]) a + (if xs ! i = a then 1 else 0) = count_list xs a + (if y = a then 1 else 0)"
proof (induction xs arbitrary: i)
  case (Cons x xs)
  show ?case
  proof (cases i)
    case (Suc m)
    then show ?thesis using Cons.IH [of m] Cons.prems by (simp split: if_splits)
  qed simp
qed simp

lemma cinv_files:
  assumes "cinv x s" and "0 < refs (fdesc s) a + x a"
  obtains f where "files s a = Some f" "f_count f = int (refs (fdesc s) a + x a)" "refs (fdesc s) a + x a < 32768"
proof -
  from assms(1) have "cnt_ok (refs (fdesc s) a + x a) (files s a)" unfolding cinv_def by blast
  with assms(2) show ?thesis using that by (cases "files s a") (auto simp: cnt_ok_def)
qed

lemma refs_slot:
  assumes "finite (dom F)" and "F d = Some fd" and "i < length (fd_ofiles fd)" and "fd_ofiles fd ! i = Some a"
  shows "0 < refs F a"
proof -
  have "count_list (fd_ofiles fd) (Some a) \<noteq> 0" using assms(3,4) by (metis count_list_0_iff nth_mem)
  moreover have "count_list (fd_ofiles fd) (Some a) \<le> refs F a"
    unfolding refs_def using member_le_sum [of d "dom F" "\<lambda>d. count_list (fd_ofiles (the (F d))) (Some a)"] assms(1,2) by auto
  ultimately show ?thesis by simp
qed

lemma maybe_call: "\<exists>c. (if b then call k s else s) = s\<lparr>d_calls := c\<rparr>"
  by (cases b) (auto simp: call_def intro: exI [of _ "d_calls s"])

lemma closef_cases:
  assumes "files s a = Some f"
  shows "0 < s16 (f_count f - 1) \<Longrightarrow> \<exists>c. closef E a p s = Some (Inr (), (set_file a (\<lambda>g. g\<lparr>f_count := s16 (f_count f - 1)\<rparr>) s)\<lparr>d_calls := c\<rparr>)"
    and "s16 (f_count f - 1) = 0 \<Longrightarrow> \<exists>r c. closef E a p s = Some (r, s\<lparr>d_calls := c, filehead := remove1 a (filehead s), nfiles := nfiles s - 1,
      files := (files s)(a := None)\<rparr>)"
proof -
  obtain c where c: "(if p_advlck (dprocs s p) \<and> f_type f = DTYPE_VNODE
      then call (Advlock (f_data f) (Lproc p) Adv_unlck whole_unlock F_POSIX) s else s) = s\<lparr>d_calls := c\<rparr>"
    using maybe_call by blast
  show "0 < s16 (f_count f - 1) \<Longrightarrow> \<exists>c. closef E a p s = Some (Inr (), (set_file a (\<lambda>g. g\<lparr>f_count := s16 (f_count f - 1)\<rparr>) s)\<lparr>d_calls := c\<rparr>)"
    unfolding closef_def assms option.case Let_def c by (intro exI [of _ c]) (simp add: set_file_def)
  let ?s = "set_file a (\<lambda>g. g\<lparr>f_count := s16 (f_count f - 1)\<rparr>) (s\<lparr>d_calls := c\<rparr>)"
  obtain c' where c': "(if f_flag f AND FHASLOCK \<noteq> 0 \<and> f_type f = DTYPE_VNODE
      then call (Advlock (f_data f) (Lfile a) Adv_unlck whole_unlock F_FLOCK) ?s else ?s) = ?s\<lparr>d_calls := c'\<rparr>"
    using maybe_call by blast
  show "s16 (f_count f - 1) = 0 \<Longrightarrow> \<exists>r c. closef E a p s = Some (r, s\<lparr>d_calls := c, filehead := remove1 a (filehead s), nfiles := nfiles s - 1,
      files := (files s)(a := None)\<rparr>)"
    unfolding closef_def assms option.case Let_def c c' ext_def prod.case
    by (simp add: set_file_def ffree_def call_def) (rule exI, rule refl)
qed

text \<open>A reference less: the file is freed with its last one.\<close>

lemma closef_effect:
  assumes inv: "cinv x s" and a: "0 < x a"
  shows "\<exists>r s'. closef E a p s = Some (r, s') \<and> cinv (x(a := x a - 1)) s' \<and> fdesc s' = fdesc s \<and> dprocs s' = dprocs s"
proof -
  let ?n = "refs (fdesc s) a + x a"
  obtain f where f: "files s a = Some f" "f_count f = int ?n" "?n < 32768" using cinv_files [OF inv] a by auto
  have n: "s16 (f_count f - 1) = int ?n - 1" using f a by (intro trans [OF s16_id]) auto
  have fin: "finite (dom (fdesc s))" "distinct (filehead s)" "set (filehead s) = dom (files s)" "nfiles s = length (filehead s)"
    and cnt: "\<And>b. cnt_ok (refs (fdesc s) b + x b) (files s b)"
    using inv unfolding cinv_def by blast+
  show ?thesis
  proof (cases "?n = 1")
    case False
    then have "0 < int ?n - 1" using a by simp
    then obtain c where cl: "closef E a p s = Some (Inr (), (set_file a (\<lambda>g. g\<lparr>f_count := int ?n - 1\<rparr>) s)\<lparr>d_calls := c\<rparr>)"
      using closef_cases(1) [OF f(1)] unfolding n by blast
    let ?s = "(set_file a (\<lambda>g. g\<lparr>f_count := int ?n - 1\<rparr>) s)\<lparr>d_calls := c\<rparr>"
    have "cinv (x(a := x a - 1)) ?s"
      unfolding cinv_def
    proof (intro conjI allI)
      fix b
      show "cnt_ok (refs (fdesc ?s) b + (x(a := x a - 1)) b) (files ?s b)"
        using cnt [of b] f(1,3) a False by (cases "b = a") (auto simp: set_file_def cnt_ok_def)
    qed (use fin f(1) in \<open>auto simp: set_file_def\<close>)
    then show ?thesis using cl by (auto simp: set_file_def)
  next
    case True
    then have x: "x a = 1" "refs (fdesc s) a = 0" using a by auto
    have "s16 (f_count f - 1) = 0" using n True by simp
    then obtain r c where c: "closef E a p s = Some (r, s\<lparr>d_calls := c, filehead := remove1 a (filehead s), nfiles := nfiles s - 1,
         files := (files s)(a := None)\<rparr>)"
      using closef_cases(2) [OF f(1)] by blast
    let ?s = "s\<lparr>d_calls := c, filehead := remove1 a (filehead s), nfiles := nfiles s - 1, files := (files s)(a := None)\<rparr>"
    have "cinv (x(a := x a - 1)) ?s"
      unfolding cinv_def
    proof (intro conjI allI)
      fix b
      show "cnt_ok (refs (fdesc ?s) b + (x(a := x a - 1)) b) (files ?s b)"
        using cnt [of b] x by (cases "b = a") (auto simp: cnt_ok_def)
      show "nfiles ?s = length (filehead ?s)" using fin f(1) by (simp add: length_remove1 dom_def)
    qed (use fin f(1) in auto)
    then show ?thesis using c by auto
  qed
qed

section \<open>Slots\<close>

lemma refs_slot_upd:
  assumes "finite (dom F)" and "F d = Some fd" and "i < length (fd_ofiles fd)" and "fd_ofiles fd' = (fd_ofiles fd)[i := y]"
  shows "refs (F(d \<mapsto> fd')) c + (if fd_ofiles fd ! i = Some c then 1 else 0) = refs F c + (if y = Some c then 1 else 0)"
  using refs_upd [OF assms(1,2), of fd' c] count_list_upd [OF assms(3), of y "Some c"] assms(4) by simp

lemma cinv_upd:
  assumes "cinv x s" and "finite (dom F)" and "\<And>b. refs F b + y b = refs (fdesc s) b + x b"
  shows "cinv y (s\<lparr>fdesc := F\<rparr>)"
  using assms unfolding cinv_def by simp

lemma cinv_more:
  assumes inv: "cinv x s" and fin: "finite (dom F)" and F: "\<And>b. refs F b = refs (fdesc s) b + (if b = a then 1 else 0)"
    and a: "files s a = Some f" "f_count f < 32767"
  shows "cinv x (set_file a (\<lambda>f. f\<lparr>f_count := s16 (f_count f + 1)\<rparr>) (s\<lparr>fdesc := F\<rparr>))"
proof -
  have cnt: "cnt_ok (refs (fdesc s) b + x b) (files s b)" for b
    using inv unfolding cinv_def by blast
  have up: "s16 (f_count f + 1) = f_count f + 1" using a cnt [of a] by (intro s16_id) (auto simp: cnt_ok_def)
  let ?s = "set_file a (\<lambda>f. f\<lparr>f_count := s16 (f_count f + 1)\<rparr>) (s\<lparr>fdesc := F\<rparr>)"
  have "cnt_ok (refs (fdesc ?s) b + x b) (files ?s b)" for b
    using cnt [of b] a F [of b] up by (cases "b = a") (auto simp: set_file_def cnt_ok_def)
  then show ?thesis using inv a(1) fin unfolding cinv_def by (auto simp: set_file_def)
qed

definition fd_clear :: "nat \<Rightarrow> filedesc \<Rightarrow> filedesc" where
  "fd_clear i fd = fd\<lparr>fd_ofiles := (fd_ofiles fd)[i := None]\<rparr>"

lemma live_fd: "live s p \<Longrightarrow> fdesc s (p_fd (dprocs s p)) = Some (fd_of p s)"
  by (auto simp: live_def fd_of_def)

lemma set_fd_live: "live s p \<Longrightarrow> set_fd p g s = s\<lparr>fdesc := (fdesc s)(p_fd (dprocs s p) \<mapsto> g (fd_of p s))\<rparr>"
  by (simp add: set_fd_def)

text \<open>A file put into a slot, whatever was there before having been counted off.\<close>

lemma install_counts:
  assumes l: "live s p" and new: "new < length (fd_ofiles (fd_of p s))"
    and inv: "cinv x (s\<lparr>fdesc := (fdesc s)(p_fd (dprocs s p) \<mapsto> fd_clear new (fd_of p s))\<rparr>)"
    and f: "files s a = Some f" "f_count f < 32767"
  shows "cinv x (fd_install p old new a s)"
proof -
  let ?d = "p_fd (dprocs s p)" and ?fd = "fd_of p s"
  let ?g = "\<lambda>fd. fd\<lparr>fd_ofiles := (fd_ofiles fd)[new := Some a],
        fd_ofileflags := (fd_ofileflags fd)[new := fd_ofileflags fd ! old AND NOT UF_EXCLOSE],
        fd_lastfile := (if fd_lastfile fd < new then u_short new else fd_lastfile fd)\<rparr>"
  let ?s1 = "s\<lparr>fdesc := (fdesc s)(?d \<mapsto> fd_clear new ?fd)\<rparr>"
  have fin: "finite (dom (fdesc ?s1))" using inv by (simp add: cinv_def)
  have F: "(fdesc ?s1)(?d \<mapsto> ?g ?fd) = (fdesc s)(?d \<mapsto> ?g ?fd)" by simp
  have "refs ((fdesc ?s1)(?d \<mapsto> ?g ?fd)) c = refs (fdesc ?s1) c + (if c = a then 1 else 0)" for c
    using refs_slot_upd [OF fin, of ?d "fd_clear new ?fd" new "?g ?fd" "Some a" c] new by (simp add: fd_clear_def)
  from cinv_more [OF inv _ this, of f] fin f
  show ?thesis unfolding fd_install_def set_fd_live [OF l] F by simp
qed

lemma fd_clear_free: "fd_ofiles fd ! i = None \<Longrightarrow> i < length (fd_ofiles fd) \<Longrightarrow> fd_clear i fd = fd"
  by (metis (no_types) fd_clear_def filedesc.surjective filedesc.update_convs(1) list_update_id)

definition tables_ok :: "dstate \<Rightarrow> bool" where
  "tables_ok s = ((\<forall>d fd. fdesc s d = Some fd \<longrightarrow> fd_wf fd) \<and> (\<forall>p. p_nofile (dprocs s p) \<le> 65536))"

lemma tables_fd: "tables_ok s \<Longrightarrow> live s p \<Longrightarrow> fd_wf (fd_of p s)"
  using live_fd by (auto simp: tables_ok_def)

lemma fd_wf_put:
  assumes "fd_wf fd" and "i < fd_nfiles fd" and "i < 65536" and "length fl = fd_nfiles fd"
  shows "fd_wf (fd\<lparr>fd_ofiles := (fd_ofiles fd)[i := Some a], fd_ofileflags := fl,
     fd_lastfile := (if fd_lastfile fd < i then u_short i else fd_lastfile fd)\<rparr>)"
  using assms unfolding fd_wf_def by (auto simp: nth_list_update u_short_def split: if_splits)

lemma fd_wf_take:
  assumes "fd_wf fd" and "i < fd_nfiles fd" and "i < 65536" and "want \<le> i"
    and "\<And>j. want \<le> j \<Longrightarrow> j < i \<Longrightarrow> fd_used fd j"
  shows "fd_wf (fd_take want i fd)"
proof -
  have "fd_ofiles fd ! j \<noteq> None" if "want \<le> fd_freefile fd" "j < i" for j
    using assms(1,5) that by (cases "j < fd_freefile fd") (auto simp: fd_wf_def fd_used_def not_less)
  then show ?thesis using assms(1-4) unfolding fd_wf_def fd_take_def by (auto simp: u_short_def)
qed

lemma install_tables:
  assumes "tables_ok s" and "live s p" and "new < fd_nfiles (fd_of p s)" and "new < 65536"
  shows "tables_ok (fd_install p old new a s)"
proof -
  have "fd_wf ((fd_of p s)\<lparr>fd_ofiles := (fd_ofiles (fd_of p s))[new := Some a],
      fd_ofileflags := (fd_ofileflags (fd_of p s))[new := fd_ofileflags (fd_of p s) ! old AND NOT UF_EXCLOSE],
      fd_lastfile := (if fd_lastfile (fd_of p s) < new then u_short new else fd_lastfile (fd_of p s))\<rparr>)"
    using tables_fd [OF assms(1,2)] assms(3,4) by (intro fd_wf_put) (auto simp: fd_wf_def)
  then show ?thesis using assms(1) by (auto simp: tables_ok_def fd_install_def set_fd_def set_file_def)
qed

section \<open>The calls keep the counts\<close>

definition dinv :: "dstate \<Rightarrow> bool" where
  "dinv s = (cinv (\<lambda>_. 0) s \<and> tables_ok s)"

text \<open>No count is at its largest value.\<close>

definition room :: "dstate \<Rightarrow> bool" where
  "room s = (\<forall>a f. files s a = Some f \<longrightarrow> f_count f < 32767)"

lemma cinv_frame:
  assumes "cinv x s" and "finite (dom (fdesc s'))" and "refs (fdesc s') = refs (fdesc s)" and "files s' = files s"
    and "filehead s' = filehead s" and "nfiles s' = nfiles s"
  shows "cinv x s'"
  using assms by (simp add: cinv_def)

lemma grown_effect:
  assumes "dinv s0" and "live s0 p" and "grown p s0 s"
  shows "dinv s" "files s = files s0" "live s p" "fd_ofiles (fd_of p s0) ! j = Some a \<Longrightarrow> j < fd_nfiles (fd_of p s0)
    \<Longrightarrow> fd_ofiles (fd_of p s) ! j = Some a \<and> j < fd_nfiles (fd_of p s)" "maxfiles s = maxfiles s0" "nfiles s = nfiles s0"
proof -
  let ?d = "p_fd (dprocs s0 p)"
  define fd' where "fd' = fd_of p s"
  obtain m n where m: "fd_ofiles fd' = fd_ofiles (fd_of p s0) @ replicate m None"
    and n: "s = s0\<lparr>fdesc := (fdesc s0)(?d \<mapsto> fd'), fdexpand := n\<rparr>" and w: "fd_wf fd'"
    using assms(3) unfolding grown_def fd'_def [symmetric] by blast
  have s: "fdesc s = (fdesc s0)(?d \<mapsto> fd')" "dprocs s = dprocs s0" "filehead s = filehead s0" "nfiles s = nfiles s0"
    by (simp_all add: n)
  show fs: "files s = files s0" "maxfiles s = maxfiles s0" "nfiles s = nfiles s0" by (simp_all add: n)
  have fin: "finite (dom (fdesc s0))" using assms(1) by (simp add: dinv_def cinv_def)
  have "count_list (fd_ofiles fd') (Some a) = count_list (fd_ofiles (fd_of p s0)) (Some a)" for a
    by (simp add: m count_list_0_iff)
  then have r: "refs (fdesc s) = refs (fdesc s0)"
    unfolding s(1) by (rule refs_same [OF fin live_fd [OF assms(2)]])
  have "cinv (\<lambda>_. 0) s0" using assms(1) by (simp add: dinv_def)
  then have "cinv (\<lambda>_. 0) s"
    by (rule cinv_frame [OF _ _ r fs(1) s(3,4)]) (simp add: s(1) fin)
  moreover have "tables_ok s" using assms(1) w by (auto simp: dinv_def tables_ok_def s)
  ultimately show "dinv s" by (simp add: dinv_def)
  show "live s p" by (simp add: live_def s)
  show "fd_ofiles (fd_of p s0) ! j = Some a \<Longrightarrow> j < fd_nfiles (fd_of p s0)
      \<Longrightarrow> fd_ofiles (fd_of p s) ! j = Some a \<and> j < fd_nfiles (fd_of p s)"
    using tables_fd [of s0 p] assms(1,2) w m unfolding fd'_def [symmetric] by (auto simp: dinv_def fd_wf_def nth_append)
qed

lemma take_effect:
  assumes "dinv s1" and "live s1 p" and "fd_wf (fd_take want i (fd_of p s1))"
  defines "s \<equiv> set_fd p (fd_take want i) s1"
  shows "dinv s" "files s = files s1" "live s p" "fd_ofiles (fd_of p s) = fd_ofiles (fd_of p s1)"
    "fd_nfiles (fd_of p s) = fd_nfiles (fd_of p s1)" "maxfiles s = maxfiles s1" "nfiles s = nfiles s1" "dprocs s = dprocs s1"
proof -
  have fin: "finite (dom (fdesc s1))" using assms(1) by (simp add: dinv_def cinv_def)
  show fs: "files s = files s1" "live s p" "maxfiles s = maxfiles s1" "nfiles s = nfiles s1" "dprocs s = dprocs s1"
    by (simp_all add: s_def set_fd_def live_def)
  show "fd_ofiles (fd_of p s) = fd_ofiles (fd_of p s1)" "fd_nfiles (fd_of p s) = fd_nfiles (fd_of p s1)"
    by (simp_all add: s_def fd_take_def)
  have r: "refs (fdesc s) = refs (fdesc s1)"
    unfolding s_def set_fd_live [OF assms(2)] using refs_same [OF fin live_fd [OF assms(2)]] by (simp add: fd_take_def)
  have "cinv (\<lambda>_. 0) s1" using assms(1) by (simp add: dinv_def)
  then have "cinv (\<lambda>_. 0) s"
    by (rule cinv_frame [OF _ _ r fs(1) _ fs(4)]) (simp_all add: s_def set_fd_def fin)
  moreover have "tables_ok s" using assms(1,3) by (auto simp: dinv_def tables_ok_def s_def set_fd_def)
  ultimately show "dinv s" by (simp add: dinv_def)
qed

text \<open>A descriptor allocated: everything as before but for the table, in which it is free.\<close>

lemma fdalloc_effect:
  assumes inv: "dinv s0" and l: "live s0 p" and al: "fdalloc p want s0 = Some (r, s)"
  shows "dinv s \<and> live s p \<and> files s = files s0 \<and> dprocs s = dprocs s0 \<and> maxfiles s = maxfiles s0 \<and> nfiles s = nfiles s0
    \<and> (\<forall>j a. j < fd_nfiles (fd_of p s0) \<longrightarrow> fd_ofiles (fd_of p s0) ! j = Some a
         \<longrightarrow> fd_ofiles (fd_of p s) ! j = Some a \<and> j < fd_nfiles (fd_of p s))
    \<and> (\<forall>i. r = Inr i \<longrightarrow> i < fd_nfiles (fd_of p s) \<and> fd_ofiles (fd_of p s) ! i = None \<and> i < 65536
         \<and> i \<le> fd_lastfile (fd_of p s))"
proof -
  have tab: "tables_ok s0" using inv by (simp add: dinv_def)
  have good: "fdalloc_good p want s0 (r, s)" using fdalloc_returns [OF l tables_fd [OF tab l], of want] al by auto
  show ?thesis
  proof (cases r)
    case (Inl e)
    then have g: "grown p s0 s" using good by (simp add: fdalloc_good_def)
    show ?thesis using grown_effect [OF inv l g] grown_procs [OF g] Inl by auto
  next
    case (Inr i)
    then obtain s1 where g: "grown p s0 s1" and i: "i < fd_nfiles (fd_of p s1)" "want \<le> i" "i < p_nofile (dprocs s0 p)"
        "\<not> fd_used (fd_of p s0) i" "\<forall>j. want \<le> j \<and> j < i \<longrightarrow> fd_used (fd_of p s0) j" and s: "s = set_fd p (fd_take want i) s1"
      using good by (auto simp: fdalloc_good_def)
    note e = grown_effect [OF inv l g]
    have used: "fd_used (fd_of p s1) j = fd_used (fd_of p s0) j" for j using g by (simp add: grown_def)
    have small: "i < 65536" using tab i(3) unfolding tables_ok_def by (meson order_less_le_trans)
    have "fd_wf (fd_take want i (fd_of p s1))"
      using g i small used by (intro fd_wf_take) (auto simp: grown_def)
    note t = take_effect [OF e(1,3) this, folded s]
    have "fd_ofiles (fd_of p s) ! i = None" using i(1,4) used [of i] t(4) by (auto simp: fd_used_def)
    moreover have "i \<le> fd_lastfile (fd_of p s)" using small by (simp add: s fd_take_def u_short_def)
    ultimately show ?thesis using t e grown_procs [OF g] i small Inr by auto
  qed
qed

lemma install_effect:
  assumes "dinv s" and "live s p" and "new < fd_nfiles (fd_of p s)" and "fd_ofiles (fd_of p s) ! new = None" and "new < 65536"
    and "files s a = Some f" and "f_count f < 32767"
  shows "dinv (fd_install p old new a s)"
proof -
  have w: "fd_wf (fd_of p s)" using assms(1,2) by (simp add: dinv_def tables_fd)
  then have len: "new < length (fd_ofiles (fd_of p s))" using assms(3) by (simp add: fd_wf_def)
  have "s\<lparr>fdesc := (fdesc s)(p_fd (dprocs s p) \<mapsto> fd_clear new (fd_of p s))\<rparr> = s"
    using fd_clear_free [OF assms(4) len] live_fd [OF assms(2)] by (simp add: fun_upd_idem)
  then have "cinv (\<lambda>_. 0) (fd_install p old new a s)"
    using assms by (intro install_counts [OF assms(2) len]) (simp_all add: dinv_def)
  then show ?thesis using install_tables assms by (simp add: dinv_def)
qed

lemma slot_file:
  assumes "dinv s" and "live s p" and "fd_file (fd_of p s) i = Some a"
  shows "0 \<le> i" "nat i < fd_nfiles (fd_of p s)" "fd_ofiles (fd_of p s) ! nat i = Some a" "\<exists>f. files s a = Some f"
proof -
  show i: "0 \<le> i" "nat i < fd_nfiles (fd_of p s)" "fd_ofiles (fd_of p s) ! nat i = Some a"
    using assms(3) by (auto simp: fd_file_def split: if_splits)
  have "fd_wf (fd_of p s)" using assms(1,2) by (simp add: dinv_def tables_fd)
  then have "0 < refs (fdesc s) a"
    using refs_slot [where F = "fdesc s", OF _ live_fd [OF assms(2)], of "nat i" a] i assms(1)
    by (simp add: fd_wf_def dinv_def cinv_def)
  then show "\<exists>f. files s a = Some f" using cinv_files [of "\<lambda>_. 0" s a] assms(1) by (auto simp: dinv_def)
qed

text \<open>A call that does not panic, and keeps the invariant.\<close>

definition kept :: "('a \<times> dstate) option \<Rightarrow> bool" where
  "kept o1 = (case o1 of None \<Rightarrow> False | Some rs \<Rightarrow> dinv (snd rs))"

lemma kept_Some [simp]: "kept (Some rs) = dinv (snd rs)"
  by (simp add: kept_def)

lemma kept_returns: "kept x \<Longrightarrow> x \<noteq> None"
  by (cases x) (simp_all add: kept_def)

lemma alloc_install_effect:
  assumes inv: "dinv s" and l: "live s p" and a: "fd_file (fd_of p s) i = Some a" and room: "room s"
  obtains e s' where "fdalloc p want s = Some (Inl e, s')" "dinv s'"
  | j s' where "fdalloc p want s = Some (Inr j, s')" "dinv (fd_install p old j a s')"
proof -
  have "fd_wf (fd_of p s)" using inv l by (simp add: dinv_def tables_fd)
  then obtain r s' where al: "fdalloc p want s = Some (r, s')" using fdalloc_returns [OF l] by blast
  note e = fdalloc_effect [OF inv l al]
  show ?thesis
  proof (cases r)
    case (Inl e)
    then show ?thesis using that(1) al e by blast
  next
    case (Inr j)
    obtain f where "files s a = Some f" using slot_file(4) [OF inv l a] by blast
    then have "files s' a = Some f" "f_count f < 32767" using e room by (auto simp: room_def)
    with e Inr have "dinv (fd_install p old j a s')" by (intro install_effect [where f = f]) auto
    then show ?thesis using that(2) al Inr by blast
  qed
qed

text \<open>What \<open>closef\<close> does is independent of the tables.\<close>

lemma closef_fdesc:
  "closef E a p (s\<lparr>fdesc := F\<rparr>) = map_option (\<lambda>(r, t). (r, t\<lparr>fdesc := F\<rparr>)) (closef E a p s)"
  unfolding closef_def by (cases "files s a") (simp_all add: Let_def ext_def call_def set_file_def ffree_def)

lemma closef_back:
  assumes "closef E a p (s\<lparr>fdesc := F\<rparr>) = Some (r, t)"
  shows "closef E a p s = Some (r, t\<lparr>fdesc := fdesc s\<rparr>)"
proof -
  have "closef E a p s = closef E a p (s\<lparr>fdesc := F\<rparr>\<lparr>fdesc := fdesc s\<rparr>)" by simp
  also have "\<dots> = Some (r, t\<lparr>fdesc := fdesc s\<rparr>)" unfolding closef_fdesc [where s = "s\<lparr>fdesc := F\<rparr>" and F = "fdesc s"] assms by simp
  finally show ?thesis .
qed

lemma clear_counts:
  assumes inv: "dinv s" and l: "live s p" and i: "i < fd_nfiles (fd_of p s)" and b: "fd_ofiles (fd_of p s) ! i = Some b"
    and fs: "fd_ofiles fd' = (fd_ofiles (fd_of p s))[i := None]"
  shows "cinv ((\<lambda>_. 0)(b := 1)) (s\<lparr>fdesc := (fdesc s)(p_fd (dprocs s p) \<mapsto> fd')\<rparr>)"
proof -
  let ?F = "(fdesc s)(p_fd (dprocs s p) \<mapsto> fd')"
  have fin: "finite (dom (fdesc s))" and c: "cinv (\<lambda>_. 0) s" using inv by (simp_all add: dinv_def cinv_def)
  have w: "fd_wf (fd_of p s)" using inv l by (simp add: dinv_def tables_fd)
  have "refs ?F c + ((\<lambda>_. 0)(b := 1)) c = refs (fdesc s) c + 0" for c
    using refs_slot_upd [OF fin live_fd [OF l], of i fd' None c] i b fs w by (auto simp: fd_wf_def)
  then show ?thesis by (intro cinv_upd [OF c]) (use fin in auto)
qed

text \<open>A slot emptied and its file released.\<close>

lemma closef_slot:
  assumes inv: "dinv s" and l: "live s p" and i: "i < fd_nfiles (fd_of p s)" and b: "fd_ofiles (fd_of p s) ! i = Some b"
    and fs: "fd_ofiles fd' = (fd_ofiles (fd_of p s))[i := None]"
  defines "F \<equiv> (fdesc s)(p_fd (dprocs s p) \<mapsto> fd')"
  shows "\<exists>r t. closef E b p (s\<lparr>fdesc := F\<rparr>) = Some (r, t) \<and> cinv (\<lambda>_. 0) t \<and> fdesc t = F \<and> dprocs t = dprocs s"
proof -
  have "((\<lambda>_. 0)(b := 1))(b := ((\<lambda>_. 0)(b := 1)) b - 1) = (\<lambda>_. 0 :: nat)" by auto
  then show ?thesis using closef_effect [OF clear_counts [OF inv l i b fs], of b E p] unfolding F_def by simp
qed

lemma dinv_calls [simp]: "dinv (s\<lparr>d_calls := c\<rparr>) = dinv s" "dinv (call k s) = dinv s"
  by (simp_all add: dinv_def cinv_def tables_ok_def call_def)

lemma calls_other [simp]: "fd_of p (s\<lparr>d_calls := c\<rparr>) = fd_of p s" "live (s\<lparr>d_calls := c\<rparr>) p = live s p"
  by (simp_all add: fd_of_def live_def)

lemma tables_upd:
  assumes "tables_ok s" and "fdesc t = (fdesc s)(d \<mapsto> fd')" and "dprocs t = dprocs s" and "fd_wf fd'"
  shows "tables_ok t"
  using assms by (auto simp: tables_ok_def)

lemma shrink_last_bound: "shrink_last fs n \<le> n \<and> (\<forall>i. shrink_last fs n < i \<and> i \<le> n \<longrightarrow> fs ! i = None)"
proof (induction n)
  case (Suc n)
  then show ?case by (cases "fs ! Suc n") (auto simp: le_Suc_eq)
qed simp

lemma fd_wf_close:
  assumes "fd_wf fd" and "n < fd_nfiles fd"
  defines "fs \<equiv> (fd_ofiles fd)[n := None]"
  shows "fd_wf (fd\<lparr>fd_ofiles := fs, fd_lastfile := shrink_last fs (fd_lastfile fd),
     fd_freefile := (if n < fd_freefile fd then n else fd_freefile fd), fd_ofileflags := (fd_ofileflags fd)[n := 0]\<rparr>)"
proof -
  note b = shrink_last_bound [of fs "fd_lastfile fd"]
  have "i \<le> shrink_last fs (fd_lastfile fd)" if "i < fd_nfiles fd" "fs ! i \<noteq> None" for i
  proof -
    have "fd_ofiles fd ! i \<noteq> None" using that assms(1,2) by (auto simp: fs_def fd_wf_def nth_list_update split: if_splits)
    then have "i \<le> fd_lastfile fd" using assms(1) that(1) by (auto simp: fd_wf_def)
    then show ?thesis using b that(2) by (meson not_le)
  qed
  moreover have "shrink_last fs (fd_lastfile fd) < fd_nfiles fd" using b assms(1) by (auto simp: fd_wf_def)
  moreover have "fs ! i \<noteq> None" if "i < (if n < fd_freefile fd then n else fd_freefile fd)" for i
    using that assms(1) by (auto simp: fs_def fd_wf_def split: if_splits)
  moreover have "length fs = fd_nfiles fd" using assms(1) by (simp add: fs_def fd_wf_def)
  ultimately show ?thesis using assms(1,2) unfolding fd_wf_def by auto
qed

lemma close_kept:
  assumes inv: "dinv s" and l: "live s p"
  shows "kept (close E p i s)"
proof (cases "fd_file (fd_of p s) i")
  case None
  then show ?thesis using inv by (simp add: close_def)
next
  case (Some a)
  note sl = slot_file [OF inv l Some]
  let ?n = "nat i"
  let ?g = "\<lambda>fd. let fs = (fd_ofiles fd)[?n := None] in
     fd\<lparr>fd_ofiles := fs, fd_lastfile := shrink_last fs (fd_lastfile fd),
        fd_freefile := (if ?n < fd_freefile fd then ?n else fd_freefile fd), fd_ofileflags := (fd_ofileflags fd)[?n := 0]\<rparr>"
  obtain c where c: "(if fd_ofileflags (fd_of p s) ! ?n AND UF_MAPPED \<noteq> 0 then call (Munmapfd p ?n) s else s) = s\<lparr>d_calls := c\<rparr>"
    using maybe_call by blast
  let ?s = "s\<lparr>d_calls := c\<rparr>"
  have w: "fd_wf (?g (fd_of p s))" and w0: "fd_wf (fd_of p s)"
    using fd_wf_close [of "fd_of p s" ?n] inv l sl by (simp_all add: dinv_def tables_fd Let_def)
  obtain r t where t: "closef E a p (?s\<lparr>fdesc := (fdesc ?s)(p_fd (dprocs ?s p) \<mapsto> ?g (fd_of p s))\<rparr>) = Some (r, t)"
      "cinv (\<lambda>_. 0) t" "fdesc t = (fdesc ?s)(p_fd (dprocs ?s p) \<mapsto> ?g (fd_of p s))" "dprocs t = dprocs ?s"
    using closef_slot [where s = ?s and p = p and i = ?n and b = a and E = E and fd' = "?g (fd_of p s)"] inv l sl
    by (auto simp: Let_def)
  have "tables_ok t" using tables_upd [OF _ t(3,4) w] inv by (simp add: dinv_def tables_ok_def)
  moreover have "close E p i s = Some (r, t)"
    using t(1) unfolding close_def Some option.case Let_def c set_fd_def calls_other(1) by (simp split del: if_split)
  ultimately show ?thesis using t(2) by (simp add: dinv_def)
qed

lemma dup2_closing:
  assumes inv: "dinv s" and l: "live s p" and room: "room s"
    and old: "old < fd_nfiles (fd_of p s)" "fd_ofiles (fd_of p s) ! old = Some a"
    and new: "new < fd_nfiles (fd_of p s)" "fd_ofiles (fd_of p s) ! new = Some b" "old \<noteq> new" "new < 65536"
  shows "\<exists>r t. closef E b p s = Some (r, t) \<and> dinv (fd_install p old new a t)"
proof -
  let ?d = "p_fd (dprocs s p)" and ?fd = "fd_clear new (fd_of p s)"
  let ?F = "(fdesc s)(?d \<mapsto> ?fd)"
  have w: "fd_wf (fd_of p s)" using inv l by (simp add: dinv_def tables_fd)
  obtain r t where t: "closef E b p (s\<lparr>fdesc := ?F\<rparr>) = Some (r, t)" "cinv (\<lambda>_. 0) t" "fdesc t = ?F" "dprocs t = dprocs s"
    using closef_slot [OF inv l new(1,2), of ?fd E] by (auto simp: fd_clear_def)
  let ?t = "t\<lparr>fdesc := fdesc s\<rparr>"
  have cl: "closef E b p s = Some (r, ?t)" using closef_back [OF t(1)] .
  have lt: "live ?t p" and fdt: "fd_of p ?t = fd_of p s" using l t(4) by (simp_all add: live_def fd_of_def)
  have fin: "finite (dom ?F)" "finite (dom (fdesc s))" using inv by (simp_all add: dinv_def cinv_def)
  have "0 < refs ?F a"
    using refs_slot [OF fin(1), of ?d ?fd old a] old new(3) w by (simp add: fd_clear_def fd_wf_def)
  then obtain f where f: "files t a = Some f" "f_count f = int (refs ?F a)" using cinv_files [OF t(2), of a] t(3) by auto
  obtain f0 where f0: "files s a = Some f0" using slot_file(4) [OF inv l, of "int old"] old by (auto simp: fd_file_def)
  have "refs ?F a \<le> refs (fdesc s) a"
    using refs_slot_upd [OF fin(2) live_fd [OF l], of new ?fd None a] new w by (simp add: fd_clear_def fd_wf_def)
  moreover have "cnt_ok (refs (fdesc s) a) (files s a)" using inv by (simp add: dinv_def cinv_def)
  then have "int (refs (fdesc s) a) < 32767" using room f0 by (fastforce simp: cnt_ok_def room_def)
  ultimately have "f_count f < 32767" using f(2) by linarith
  moreover have "?t\<lparr>fdesc := (fdesc ?t)(p_fd (dprocs ?t p) \<mapsto> fd_clear new (fd_of p ?t))\<rparr> = t"
    unfolding fdt using t(3,4) by simp
  then have "cinv (\<lambda>_. 0) (?t\<lparr>fdesc := (fdesc ?t)(p_fd (dprocs ?t p) \<mapsto> fd_clear new (fd_of p ?t))\<rparr>)" using t(2) by metis
  ultimately have "cinv (\<lambda>_. 0) (fd_install p old new a ?t)"
    using new w f(1) fdt by (intro install_counts [OF lt]) (simp_all add: fd_wf_def)
  moreover have "tables_ok ?t" using inv t(4) by (simp add: dinv_def tables_ok_def)
  ultimately show ?thesis using cl install_tables [OF _ lt, of new old a] new fdt by (auto simp: dinv_def)
qed

lemma dup2_kept:
  assumes inv: "dinv s" and l: "live s p" and room: "room s"
  shows "kept (dup2 E p old new s)"
proof (cases "fd_file (fd_of p s) (int old)")
  case None
  then show ?thesis using inv by (simp add: dup2_def)
next
  case (Some a)
  note sl = slot_file [OF inv l Some]
  have w: "fd_wf (fd_of p s)" using inv l by (simp add: dinv_def tables_fd)
  have lim: "p_nofile (dprocs s p) \<le> 65536" using inv by (simp add: dinv_def tables_ok_def)
  consider "p_nofile (dprocs s p) \<le> new \<or> old = new"
    | "new < p_nofile (dprocs s p)" "old \<noteq> new" "fd_nfiles (fd_of p s) \<le> new"
    | "new < p_nofile (dprocs s p)" "old \<noteq> new" "new < fd_nfiles (fd_of p s)" "fd_ofiles (fd_of p s) ! new = None"
    | b where "new < p_nofile (dprocs s p)" "old \<noteq> new" "new < fd_nfiles (fd_of p s)" "fd_ofiles (fd_of p s) ! new = Some b"
    by (metis not_le not_None_eq)
  then show ?thesis
  proof cases
    case 1
    then show ?thesis using inv Some by (auto simp: dup2_def)
  next
    case 2
    show ?thesis
    proof (cases rule: alloc_install_effect [OF inv l Some room, where want = new and old = old])
      case (1 e t)
      then show ?thesis using Some 2 by (simp add: dup2_def)
    next
      case (2 j t)
      have "fdalloc_good p new s (Inr j, t)" using fdalloc_returns [OF l w, of new] 2(1) by auto
      then have "j = new" using \<open>fd_nfiles (fd_of p s) \<le> new\<close>
        by (auto simp: fdalloc_good_def fd_used_def)
      then show ?thesis using Some 2 \<open>new < p_nofile (dprocs s p)\<close> \<open>old \<noteq> new\<close> \<open>fd_nfiles (fd_of p s) \<le> new\<close>
        by (simp add: dup2_def)
    qed
  next
    case 3
    obtain f where "files s a = Some f" using sl(4) by blast
    then have "dinv (fd_install p old new a s)"
      using 3 lim room by (intro install_effect [OF inv l, of new a f]) (auto simp: room_def)
    then show ?thesis using 3 Some by (simp add: dup2_def)
  next
    case (4 b)
    obtain c where c: "(if fd_ofileflags (fd_of p s) ! new AND UF_MAPPED \<noteq> 0 then call (Munmapfd p new) s else s) = s\<lparr>d_calls := c\<rparr>"
      using maybe_call by blast
    obtain r t where t: "closef E b p (s\<lparr>d_calls := c\<rparr>) = Some (r, t)" "dinv (fd_install p old new a t)"
      using dup2_closing [of "s\<lparr>d_calls := c\<rparr>" p old a new b E] inv l room sl 4 lim by (auto simp: room_def)
    have "dup2 E p old new s = Some (Inr new, fd_install p old new a t)"
      unfolding dup2_def Some option.case using 4 t(1) by (simp add: c Let_def del: not_None_eq)
    then show ?thesis using t(2) by simp
  qed
qed

lemma dup_kept:
  assumes inv: "dinv s" and l: "live s p" and room: "room s"
  shows "kept (dup E p i arg2 s)"
proof (cases "dup_bits i = 0")
  case False
  then show ?thesis using dup2_kept [OF assms] by (simp add: dup_def)
next
  case True
  show ?thesis
  proof (cases "fd_file (fd_of p s) i")
    case None
    then show ?thesis using True inv by (simp add: dup_def)
  next
    case (Some a)
    show ?thesis
      by (cases rule: alloc_install_effect [OF inv l Some room, where want = 0 and old = "nat i"]) (use True Some in \<open>simp_all add: dup_def\<close>)
  qed
qed

lemma cnt_ok_map: "(\<And>f. f_count (g f) = f_count f) \<Longrightarrow> cnt_ok n (map_option g fo) = cnt_ok n fo"
  by (cases fo) (simp_all add: cnt_ok_def)

lemma dinv_set_file: "(\<And>f. f_count (g f) = f_count f) \<Longrightarrow> dinv (set_file a g s) = dinv s"
proof -
  assume g: "\<And>f. f_count (g f) = f_count f"
  have "cnt_ok n (files (set_file a g s) b) = cnt_ok n (files s b)" for n b
    using cnt_ok_map [of g] g by (simp add: set_file_def)
  moreover have "dom (files (set_file a g s)) = dom (files s)" by (auto simp: set_file_def)
  moreover have "fdesc (set_file a g s) = fdesc s" "filehead (set_file a g s) = filehead s" "nfiles (set_file a g s) = nfiles s"
      "dprocs (set_file a g s) = dprocs s" by (simp_all add: set_file_def)
  ultimately show ?thesis unfolding dinv_def cinv_def tables_ok_def by simp
qed

lemma dinv_set_proc: "(\<And>x. p_nofile (g x) = p_nofile x) \<Longrightarrow> dinv (set_proc p g s) = dinv s"
proof -
  assume "\<And>x. p_nofile (g x) = p_nofile x"
  then have "p_nofile (dprocs (set_proc p g s) q) = p_nofile (dprocs s q)" for q by (simp add: set_proc_def)
  then show ?thesis unfolding dinv_def cinv_def tables_ok_def by (simp add: set_proc_def)
qed

lemma dinv_pgid [simp]: "dinv (s\<lparr>so_pgid := q\<rparr>) = dinv s"
  by (simp add: dinv_def cinv_def tables_ok_def)

lemmas dinv_others [simp] = dinv_set_file dinv_set_proc

lemma ext_kept: "dinv (snd (ext E c s)) = dinv s"
  by (simp add: ext_def)

lemmas pass_defs = ext_def Let_def

lemma fcntl_setfl_kept: "dinv (snd (fcntl_setfl E a arg s)) = dinv s"
  by (simp add: fcntl_setfl_def pass_defs split: option.splits)

lemma fcntl_own_kept: "dinv (snd (fcntl_getown E a f s)) = dinv s" "dinv (snd (fcntl_setown E a f arg s)) = dinv s"
  by (simp_all add: fcntl_getown_def fcntl_setown_def pass_defs split: option.splits)

lemma advlock_kept: "dinv (snd (advlock E p f op fl flg s)) = dinv s"
  by (simp add: advlock_def pass_defs)

lemma user_flock_kept: "dinv (snd (user_flock E f s)) = dinv s"
  by (simp add: user_flock_def pass_defs split: option.splits)

lemma fcntl_lk_kept: "dinv (snd (fcntl_setlk E p f flg s)) = dinv s" "dinv (snd (fcntl_getlk E p f s)) = dinv s"
proof -
  obtain r t where u: "user_flock E f s = (r, t)" by fastforce
  have t: "dinv t = dinv s" using user_flock_kept [of E f s] u by simp
  show "dinv (snd (fcntl_setlk E p f flg s)) = dinv s"
    by (cases r) (simp_all add: fcntl_setlk_def u t advlock_kept)
  show "dinv (snd (fcntl_getlk E p f s)) = dinv s"
  proof (cases r)
    case (Inr fl)
    obtain r' t' where v: "advlock E p f Adv_getlk fl F_POSIX t = (r', t')" by fastforce
    then have "dinv t' = dinv t" using advlock_kept [of E p f Adv_getlk fl F_POSIX t] by simp
    then show ?thesis by (cases r') (simp_all add: fcntl_getlk_def u v t Inr pass_defs)
  qed (simp add: fcntl_getlk_def u t)
qed

lemma dinv_flags:
  assumes inv: "dinv s" and l: "live s p" and n: "length fl = fd_nfiles (fd_of p s)"
  shows "dinv (set_fd p (\<lambda>fd. fd\<lparr>fd_ofileflags := fl\<rparr>) s)"
proof -
  let ?s = "set_fd p (\<lambda>fd. fd\<lparr>fd_ofileflags := fl\<rparr>) s"
  have fin: "finite (dom (fdesc s))" and c: "cinv (\<lambda>_. 0) s" using inv by (simp_all add: dinv_def cinv_def)
  have w: "fd_wf ((fd_of p s)\<lparr>fd_ofileflags := fl\<rparr>)" using tables_fd [of s p] inv l n by (simp add: dinv_def fd_wf_def)
  have r: "refs (fdesc ?s) = refs (fdesc s)"
    unfolding set_fd_live [OF l] using refs_same [OF fin live_fd [OF l]] by simp
  have "cinv (\<lambda>_. 0) ?s" by (rule cinv_frame [OF c _ r]) (simp_all add: set_fd_def fin)
  moreover have "tables_ok ?s" using tables_upd [of s ?s, OF _ _ _ w] inv by (simp add: dinv_def set_fd_def)
  ultimately show ?thesis by (simp add: dinv_def)
qed

lemma fcntl_kept:
  assumes inv: "dinv s" and l: "live s p" and room: "room s"
  shows "kept (fcntl E p i cmd arg s)"
proof (cases "fd_file (fd_of p s) i")
  case None
  then show ?thesis using inv by (simp add: fcntl_def)
next
  case (Some a)
  note sl = slot_file [OF inv l Some]
  obtain f where f: "files s a = Some f" using sl(4) by blast
  have w: "fd_wf (fd_of p s)" using inv l by (simp add: dinv_def tables_fd)
  note d = fcntl_def Some f
  show ?thesis
  proof (cases cmd)
    case F_DUPFD
    show ?thesis
    proof (cases "arg < 0 \<or> int (p_nofile (dprocs s p)) \<le> arg")
      case True
      then show ?thesis using inv F_DUPFD by (auto simp: d fcntl_dupfd_def)
    next
      case False
      show ?thesis
      proof (cases rule: alloc_install_effect [OF inv l Some room, where want = "nat arg" and old = "nat i"])
        case (2 j s')
        let ?t = "fd_install p (nat i) j a s'"
        have "live s' p" using fdalloc_effect [OF inv l 2(1)] by (auto simp: live_def)
        then have lt: "live ?t p" by (auto simp: live_def fd_install_def set_file_def set_fd_def)
        then have "fd_wf (fd_of p ?t)" using 2(2) by (simp add: dinv_def tables_fd)
        then have "dinv (set_fd p (\<lambda>fd. fd\<lparr>fd_ofileflags := (fd_ofileflags (fd_of p ?t))[j := x]\<rparr>) ?t)" for x
          by (intro dinv_flags [OF 2(2) lt]) (simp add: fd_wf_def)
        then have "dinv (set_fd p (\<lambda>fd. fd\<lparr>fd_ofileflags := (fd_ofileflags fd)[j := x]\<rparr>) ?t)" for x
          by (simp add: set_fd_def)
        with 2 False F_DUPFD show ?thesis by (simp add: d fcntl_dupfd_def Let_def)
      qed (use False F_DUPFD in \<open>simp add: d fcntl_dupfd_def\<close>)
    qed
  next
    case F_SETFD
    let ?fl = "(fd_ofileflags (fd_of p s))[nat i := (fd_ofileflags (fd_of p s) ! nat i AND NOT 1) OR (word_of_int arg AND 1)]"
    have "dinv (set_fd p (\<lambda>fd. fd\<lparr>fd_ofileflags := ?fl\<rparr>) s)" by (rule dinv_flags [OF inv l]) (use w in \<open>simp add: fd_wf_def\<close>)
    then show ?thesis using F_SETFD by (simp add: d set_fd_def Let_def)
  qed (use inv in \<open>simp_all add: d Let_def fcntl_setfl_kept fcntl_own_kept fcntl_lk_kept\<close>)
qed

lemma flock_kept:
  assumes inv: "dinv s" and l: "live s p"
  shows "kept (flock E p i how s)"
proof (cases "fd_file (fd_of p s) i")
  case None
  then show ?thesis using inv by (simp add: flock_def)
next
  case (Some a)
  obtain f where f: "files s a = Some f" using slot_file(4) [OF inv l Some] by blast
  show ?thesis using inv by (simp add: flock_def Some f pass_defs split: option.splits)
qed

section \<open>New files\<close>

lemma link_after_list: "a \<notin> set xs \<Longrightarrow> distinct xs \<Longrightarrow> distinct (link_after q a xs) \<and> set (link_after q a xs) = insert a (set xs)
   \<and> length (link_after q a xs) = length xs + 1"
  by (induction xs) auto

lemma new_file_counts:
  assumes inv: "dinv s" and l: "live s p" and i: "i < fd_nfiles (fd_of p s)" "fd_ofiles (fd_of p s) ! i = None"
      "i \<le> fd_lastfile (fd_of p s)"
    and new: "files s a = None" and f: "f_count f = 1"
    and h: "distinct h" "set h = insert a (dom (files s))" "length h = nfiles s + 1"
  shows "dinv (set_fd p (\<lambda>fd. fd\<lparr>fd_ofiles := (fd_ofiles fd)[i := Some a]\<rparr>)
     (s\<lparr>nfiles := nfiles s + 1, filehead := h, files := (files s)(a \<mapsto> f)\<rparr>))" (is "dinv ?t")
proof -
  have fin: "finite (dom (fdesc s))" and cnt: "\<And>b. cnt_ok (refs (fdesc s) b) (files s b)"
    using inv by (simp_all add: dinv_def cinv_def)
  let ?s = "s\<lparr>nfiles := nfiles s + 1, filehead := h, files := (files s)(a \<mapsto> f)\<rparr>"
  have fd: "fd_of p ?s = fd_of p s" by (simp add: fd_of_def)
  let ?fd = "(fd_of p s)\<lparr>fd_ofiles := (fd_ofiles (fd_of p s))[i := Some a]\<rparr>"
  have w: "fd_wf (fd_of p s)" using inv l by (simp add: dinv_def tables_fd)
  have t: "fdesc ?t = (fdesc s)(p_fd (dprocs s p) \<mapsto> ?fd)" unfolding set_fd_def fd by simp
  have r: "refs (fdesc ?t) b = refs (fdesc s) b + (if a = b then 1 else 0)" for b
    using refs_slot_upd [OF fin live_fd [OF l], of i ?fd "Some a" b] i w unfolding t by (simp add: fd_wf_def)
  have "cnt_ok (refs (fdesc ?t) b) (files ?t b)" for b
    using r [of b] cnt [of b] new f by (cases "b = a") (auto simp: set_fd_def cnt_ok_def)
  then have "cinv (\<lambda>_. 0) ?t" using fin h unfolding cinv_def by (simp add: set_fd_def)
  moreover have "fd_wf ?fd" using w i unfolding fd_wf_def by (auto simp: nth_list_update)
  then have "tables_ok ?t" using tables_upd [of s ?t, OF _ t] inv by (simp add: dinv_def set_fd_def)
  ultimately show ?thesis by (simp add: dinv_def)
qed

lemma falloc_kept:
  assumes inv: "dinv s" and l: "live s p" and new: "files s a = None"
  shows "kept (falloc a junk p s)"
proof -
  have "fd_wf (fd_of p s)" using inv l by (simp add: dinv_def tables_fd)
  then obtain r t where al: "fdalloc p 0 s = Some (r, t)" using fdalloc_returns [OF l] by blast
  note e = fdalloc_effect [OF inv l al]
  show ?thesis
  proof (cases "(\<exists>e. r = Inl e) \<or> maxfiles t \<le> nfiles t")
    case True
    then show ?thesis using e by (cases r) (auto simp: falloc_def al)
  next
    case False
    then obtain i where i: "r = Inr i" by (cases r) auto
    let ?h = "case fd_ofiles (fd_of p t) ! 0 of Some q \<Rightarrow> link_after q a (filehead t) | None \<Rightarrow> a # filehead t"
    have inv': "dinv t" and l': "live t p" and new': "files t a = None" using e new by simp_all
    then have fh: "distinct (filehead t)" "set (filehead t) = dom (files t)" "nfiles t = length (filehead t)"
      by (simp_all add: dinv_def cinv_def)
    moreover have "a \<notin> set (filehead t)" using fh(2) new' by auto
    ultimately have h: "distinct ?h" "set ?h = insert a (dom (files t))" "length ?h = nfiles t + 1"
      using link_after_list [of a "filehead t"] by (auto split: option.splits)
    let ?f = "junk\<lparr>f_count := 1, f_msgcount := 0, f_offset := 0, f_cred := p_cred (dprocs t p)\<rparr>"
    have "dinv (set_fd p (\<lambda>fd. fd\<lparr>fd_ofiles := (fd_ofiles fd)[i := Some a]\<rparr>)
       (t\<lparr>nfiles := nfiles t + 1, filehead := ?h, files := (files t)(a \<mapsto> ?f)\<rparr>))"
      using e i by (intro new_file_counts [OF inv' l' _ _ _ new' _ h]) auto
    then show ?thesis using False i by (simp add: falloc_def al Let_def)
  qed
qed

section \<open>Copying and freeing a table\<close>

text \<open>The size of a copy: a table still holds all its files when it is halved.\<close>

definition copy_size :: "nat \<Rightarrow> nat \<Rightarrow> bool" where
  "copy_size hi n = (hi < n \<and> (\<exists>k. n = NDEXTENT * 2 ^ k))"

interpretation fdcopy_loop: ranked_loop "fdcopy_size hi" "\<lambda>n. copy_size hi n \<and> n \<le> top" "\<lambda>n. n" "\<lambda>n. copy_size hi n \<and> n \<le> top" for hi top
proof
  fix n n' assume inv: "copy_size hi n \<and> n \<le> top" and t: "fdcopy_size hi n = Inl n'"
  then have n': "n' = n div 2" "2 * NDEXTENT < n" "hi * 2 < n" by (auto simp: fdcopy_size_def split: if_splits)
  obtain k where k: "n = NDEXTENT * 2 ^ k" using inv by (auto simp: copy_size_def)
  with n'(2) obtain j where j: "k = Suc j" by (cases k) (auto simp: NDEXTENT_def)
  then have "n = 2 * n'" "n' = NDEXTENT * 2 ^ j" using k n'(1) by simp_all
  then show "(copy_size hi n' \<and> n' \<le> top) \<and> n' < n" using n' inv by (auto simp: copy_size_def)
next
  fix n r assume "copy_size hi n \<and> n \<le> top" and "fdcopy_size hi n = Inr r"
  then show "copy_size hi r \<and> r \<le> top" by (auto simp: fdcopy_size_def split: if_splits)
qed

lemma copy_table_size:
  assumes "fd_wf fd"
  shows "\<exists>n. (if fd_lastfile fd < NDFILE then Some NDFILE else run_fuel (fdcopy_size (fd_lastfile fd)) (fd_nfiles fd + 1) (fd_nfiles fd)) = Some n
     \<and> fd_lastfile fd < n \<and> n \<le> fd_nfiles fd \<and> (n = NDFILE \<or> (\<exists>k. n = NDEXTENT * 2 ^ k))"
proof (cases "fd_lastfile fd < NDFILE")
  case True
  then show ?thesis using fd_nfiles_cases [OF assms] by (simp add: NDFILE_def)
next
  case False
  then have "copy_size (fd_lastfile fd) (fd_nfiles fd) \<and> fd_nfiles fd \<le> fd_nfiles fd"
    using assms by (auto simp: copy_size_def fd_wf_def)
  from fdcopy_loop.run_returns [OF this, of "fd_nfiles fd + 1"] False show ?thesis by (auto simp: copy_size_def)
qed

lemma count_nones: "(\<And>x. x \<in> set xs \<Longrightarrow> x = None) \<Longrightarrow> count_list xs (Some a) = 0"
  by (auto simp: count_list_0_iff)

lemma count_take:
  assumes "fd_wf fd" and "fd_lastfile fd < m"
  shows "count_list (take m (fd_ofiles fd)) (Some a) = count_list (fd_ofiles fd) (Some a)"
proof -
  have "x = None" if x_in: "x \<in> set (drop m (fd_ofiles fd))" for x
  proof -
    obtain j where j: "j < length (drop m (fd_ofiles fd))" "drop m (fd_ofiles fd) ! j = x" using x_in unfolding in_set_conv_nth by blast
    then have x: "x = fd_ofiles fd ! (m + j)" by auto
    have "m + j < fd_nfiles fd" using assms(1) j(1) by (simp add: fd_wf_def)
    then show ?thesis using assms x unfolding fd_wf_def by (metis add_leE not_le)
  qed
  from count_nones [OF this, where a = a] count_list_append [of "take m (fd_ofiles fd)" "drop m (fd_ofiles fd)" "Some a"]
  show ?thesis by simp
qed

lemma fd_wf_copy:
  assumes "fd_wf fd" and "fd_lastfile fd < n" and "n \<le> fd_nfiles fd" and "n = NDFILE \<or> (\<exists>k. n = NDEXTENT * 2 ^ k)"
  shows "fd_wf (fd\<lparr>fd_refcnt := 1, fd_nfiles := n, fd_ofiles := take n (fd_ofiles fd), fd_ofileflags := take n (fd_ofileflags fd)\<rparr>)"
proof -
  have "fd_freefile fd \<le> fd_lastfile fd + 1"
  proof (cases "fd_freefile fd")
    case (Suc j)
    then show ?thesis using assms(1) unfolding fd_wf_def by (metis Suc_eq_plus1 Suc_le_eq Suc_le_mono lessI)
  qed simp
  then show ?thesis using assms unfolding fd_wf_def by auto
qed

lemma fold_share:
  assumes "\<And>b f. files s b = Some f \<Longrightarrow> 0 \<le> f_count f \<and> f_count f + int (count_list ys (Some b)) < 32768"
  shows "fold share ys s = s\<lparr>files := (\<lambda>b. map_option (\<lambda>f. f\<lparr>f_count := f_count f + int (count_list ys (Some b))\<rparr>) (files s b))\<rparr>"
  using assms
proof (induction ys arbitrary: s)
  case Nil
  have "(\<lambda>b. map_option (\<lambda>f. f) (files s b)) = files s" by (simp add: option.map_ident)
  then show ?case by simp
next
  case (Cons y ys)
  show ?case
  proof (cases y)
    case None
    then show ?thesis using Cons by (simp add: share_def)
  next
    case (Some a)
    let ?s = "share (Some a) s"
    have s16: "s16 (f_count f + 1) = f_count f + 1" if "files s a = Some f" for f
      using Cons.prems [OF that] Some by (intro s16_id) auto
    have fs: "files ?s b = (if b = a then map_option (\<lambda>f. f\<lparr>f_count := f_count f + 1\<rparr>) (files s a) else files s b)" for b
      using s16 by (cases "files s a") (auto simp: share_def set_file_def)
    have bound: "0 \<le> f_count f \<and> f_count f + int (count_list ys (Some b)) < 32768" if "files ?s b = Some f" for b f
      using Cons.prems [of b] that Some by (cases "files s b") (auto simp: fs split: if_splits)
    have ih: "fold share ys ?s = ?s\<lparr>files := (\<lambda>b. map_option (\<lambda>f. f\<lparr>f_count := f_count f + int (count_list ys (Some b))\<rparr>) (files ?s b))\<rparr>"
      using bound by (rule Cons.IH)
    have r: "?s\<lparr>files := h\<rparr> = s\<lparr>files := h\<rparr>" for h by (simp add: share_def set_file_def)
    have "map_option (\<lambda>f. f\<lparr>f_count := f_count f + int (count_list ys (Some b))\<rparr>) (files ?s b)
        = map_option (\<lambda>f. f\<lparr>f_count := f_count f + int (count_list (y # ys) (Some b))\<rparr>) (files s b)" for b
      using Some by (cases "files s b") (auto simp: fs)
    then show ?thesis using ih Some by (simp add: r)
  qed
qed

text \<open>There is room to count the references of a copy.\<close>

definition copy_room :: "nat \<Rightarrow> dstate \<Rightarrow> bool" where
  "copy_room p s = (\<forall>a f. files s a = Some f \<longrightarrow> f_count f + int (count_list (fd_ofiles (fd_of p s)) (Some a)) < 32768)"

lemma copy_roomD:
  "copy_room p s \<Longrightarrow> files s b = Some f \<Longrightarrow> f_count f + int (count_list (fd_ofiles (fd_of p s)) (Some b)) < 32768"
  by (simp add: copy_room_def)

lemma fdcopy_result:
  assumes inv: "dinv s" and l: "live s p" and room: "copy_room p s"
  shows "\<exists>n c. let fd = fd_of p s; fd' = fd\<lparr>fd_refcnt := 1, fd_nfiles := n, fd_ofiles := take n (fd_ofiles fd), fd_ofileflags := take n (fd_ofileflags fd)\<rparr>
     in fd_lastfile fd < n \<and> n \<le> fd_nfiles fd \<and> fd_wf fd'
      \<and> fdcopy new p s = Some (s\<lparr>d_calls := c, fdesc := (fdesc s)(new \<mapsto> fd'),
          files := (\<lambda>b. map_option (\<lambda>f. f\<lparr>f_count := f_count f + int (count_list (fd_ofiles fd) (Some b))\<rparr>) (files s b))\<rparr>)"
proof -
  let ?fd = "fd_of p s"
  have w: "fd_wf ?fd" using inv l by (simp add: dinv_def tables_fd)
  obtain n where n: "(if fd_lastfile ?fd < NDFILE then Some NDFILE
        else run_fuel (fdcopy_size (fd_lastfile ?fd)) (fd_nfiles ?fd + 1) (fd_nfiles ?fd)) = Some n"
      "fd_lastfile ?fd < n" "n \<le> fd_nfiles ?fd" "n = NDFILE \<or> (\<exists>k. n = NDEXTENT * 2 ^ k)"
    using copy_table_size [OF w] by blast
  let ?fd' = "?fd\<lparr>fd_refcnt := 1, fd_nfiles := n, fd_ofiles := take n (fd_ofiles ?fd), fd_ofileflags := take n (fd_ofileflags ?fd)\<rparr>"
  let ?ys = "take (fd_lastfile ?fd + 1) (take n (fd_ofiles ?fd))"
  obtain c where c: "(case fd_rdir ?fd of Some r \<Rightarrow> call (Vref r) (call (Vref (fd_cdir ?fd)) s) | None \<Rightarrow> call (Vref (fd_cdir ?fd)) s) = s\<lparr>d_calls := c\<rparr>"
    by (cases "fd_rdir ?fd") (auto simp: call_def)
  let ?s = "s\<lparr>d_calls := c, fdesc := (fdesc s)(new \<mapsto> ?fd')\<rparr>"
  have "?ys = take (fd_lastfile ?fd + 1) (fd_ofiles ?fd)" using n(2) by (simp add: min_def)
  then have cl: "count_list ?ys (Some b) = count_list (fd_ofiles ?fd) (Some b)" for b using count_take [OF w] by simp
  have "0 \<le> f_count f \<and> f_count f + int (count_list ?ys (Some b)) < 32768" if "files ?s b = Some f" for b f
  proof -
    have "cnt_ok (refs (fdesc s) b) (files s b)" using inv by (simp add: dinv_def cinv_def)
    then show ?thesis using that copy_roomD [OF room, of b f] unfolding cl by (simp add: cnt_ok_def)
  qed
  then have "fold share ?ys ?s = ?s\<lparr>files := (\<lambda>b. map_option (\<lambda>f. f\<lparr>f_count := f_count f + int (count_list ?ys (Some b))\<rparr>) (files ?s b))\<rparr>"
    by (rule fold_share)
  then have "fold share ?ys ?s = ?s\<lparr>files := (\<lambda>b. map_option (\<lambda>f. f\<lparr>f_count := f_count f + int (count_list (fd_ofiles ?fd) (Some b))\<rparr>) (files s b))\<rparr>"
    unfolding cl by simp
  moreover have "fdcopy new p s = Some (fold share ?ys ?s)"
    using n(2) unfolding fdcopy_def Let_def c n(1) option.case by (simp add: not_le)
  ultimately show ?thesis using n(2,3) fd_wf_copy [OF w n(2-4)]
    unfolding Let_def by (intro exI [of _ n] exI [of _ c]) simp
qed

lemma fdcopy_kept:
  assumes inv: "dinv s" and l: "live s p" and room: "copy_room p s" and new: "fdesc s new = None"
  shows "\<exists>t. fdcopy new p s = Some t \<and> dinv t"
proof -
  let ?fd = "fd_of p s"
  obtain n c fd' where fd': "fd' = ?fd\<lparr>fd_refcnt := 1, fd_nfiles := n, fd_ofiles := take n (fd_ofiles ?fd), fd_ofileflags := take n (fd_ofileflags ?fd)\<rparr>"
    and n: "fd_lastfile ?fd < n" "fd_wf fd'"
    and t: "fdcopy new p s = Some (s\<lparr>d_calls := c, fdesc := (fdesc s)(new \<mapsto> fd'),
          files := (\<lambda>b. map_option (\<lambda>f. f\<lparr>f_count := f_count f + int (count_list (fd_ofiles ?fd) (Some b))\<rparr>) (files s b))\<rparr>)"
    using fdcopy_result [OF inv l room, of new] unfolding Let_def by blast
  let ?t = "s\<lparr>d_calls := c, fdesc := (fdesc s)(new \<mapsto> fd'),
          files := (\<lambda>b. map_option (\<lambda>f. f\<lparr>f_count := f_count f + int (count_list (fd_ofiles ?fd) (Some b))\<rparr>) (files s b))\<rparr>"
  have fin: "finite (dom (fdesc s))" and cnt: "\<And>b. cnt_ok (refs (fdesc s) b) (files s b)"
      and h: "distinct (filehead s)" "set (filehead s) = dom (files s)" "nfiles s = length (filehead s)"
    using inv by (simp_all add: dinv_def cinv_def)
  have w: "fd_wf ?fd" using inv l by (simp add: dinv_def tables_fd)
  have r: "refs (fdesc ?t) b = refs (fdesc s) b + count_list (fd_ofiles ?fd) (Some b)" for b
    using refs_new [OF fin new, of fd' b] count_take [OF w n(1), of b] by (simp add: fd')
  have le: "count_list (fd_ofiles ?fd) (Some b) \<le> refs (fdesc s) b" for b
    using refs_gone [OF fin live_fd [OF l], of b] by simp
  have "cnt_ok (refs (fdesc ?t) b) (files ?t b)" for b
    using cnt [of b] le [of b] copy_roomD [OF room, of b] unfolding r by (cases "files s b") (fastforce simp: cnt_ok_def)+
  moreover have "dom (files ?t) = dom (files s)" by (auto simp: dom_def)
  ultimately have "cinv (\<lambda>_. 0) ?t" using fin h unfolding cinv_def by simp
  moreover have "tables_ok ?t" using tables_upd [of s ?t new fd', OF _ _ _ n(2)] inv by (simp add: dinv_def)
  ultimately show ?thesis using t by (simp add: dinv_def)
qed

lemma close_all_fdesc:
  "close_all E p ys (s\<lparr>fdesc := F\<rparr>) = map_option (\<lambda>t. t\<lparr>fdesc := F\<rparr>) (close_all E p ys s)"
proof (induction E p ys s rule: close_all.induct)
  case (3 E p a fs s)
  show ?case
  proof (cases "closef E a p s")
    case (Some rt)
    then show ?thesis using "3.IH" by (cases rt) (auto simp: closef_fdesc)
  qed (simp add: closef_fdesc)
qed simp_all

lemma close_all_effect:
  "cinv (\<lambda>a. x a + count_list ys (Some a)) s \<Longrightarrow>
     \<exists>t. close_all E p ys s = Some t \<and> cinv x t \<and> fdesc t = fdesc s \<and> dprocs t = dprocs s"
proof (induction E p ys s rule: close_all.induct)
  case (3 E p a fs s)
  let ?x = "\<lambda>b. x b + count_list (Some a # fs) (Some b)"
  have "?x(a := ?x a - 1) = (\<lambda>b. x b + count_list fs (Some b))" by auto
  then obtain r t where t: "closef E a p s = Some (r, t)" "cinv (\<lambda>b. x b + count_list fs (Some b)) t" "fdesc t = fdesc s" "dprocs t = dprocs s"
    using closef_effect [OF "3.prems", of a E p] by auto
  from "3.IH" [OF t(1) refl t(2)] t show ?case by auto
qed simp_all

lemma fdfree_kept:
  assumes inv: "dinv s" and l: "live s p"
  shows "\<exists>t. fdfree E p s = Some t \<and> dinv t \<and> \<not> live t p"
proof -
  let ?d = "p_fd (dprocs s p)" and ?fd = "fd_of p s"
  have fin: "finite (dom (fdesc s))" and c: "cinv (\<lambda>_. 0) s" using inv by (simp_all add: dinv_def cinv_def)
  have w: "fd_wf ?fd" using inv l by (simp add: dinv_def tables_fd)
  let ?fd0 = "?fd\<lparr>fd_refcnt := 0\<rparr>" and ?ys = "take (fd_lastfile ?fd + 1) (fd_ofiles ?fd)"
  let ?s0 = "s\<lparr>fdesc := (fdesc s)(?d \<mapsto> ?fd0)\<rparr>" and ?F = "(fdesc s)(?d := None)"
  have "refs ?F b + count_list ?ys (Some b) = refs (fdesc s) b" for b
    using refs_gone [OF fin live_fd [OF l], of b] count_take [OF w, of "fd_lastfile ?fd + 1" b] by simp
  then have "cinv (\<lambda>b. 0 + count_list ?ys (Some b)) (s\<lparr>fdesc := ?F\<rparr>)"
    by (intro cinv_upd [OF c]) (use fin in auto)
  from close_all_effect [OF this, of E p] obtain t where
    t: "close_all E p ?ys (s\<lparr>fdesc := ?F\<rparr>) = Some t" "cinv (\<lambda>_. 0) t" "fdesc t = ?F" "dprocs t = dprocs s" by auto
  have "close_all E p ?ys ?s0 = close_all E p ?ys (s\<lparr>fdesc := ?F\<rparr>\<lparr>fdesc := (fdesc s)(?d \<mapsto> ?fd0)\<rparr>)" by simp
  also have "\<dots> = Some (t\<lparr>fdesc := (fdesc s)(?d \<mapsto> ?fd0)\<rparr>)"
    unfolding close_all_fdesc [where s = "s\<lparr>fdesc := ?F\<rparr>" and F = "(fdesc s)(?d \<mapsto> ?fd0)"] t(1) by simp
  finally have ca: "close_all E p ?ys ?s0 = Some (t\<lparr>fdesc := (fdesc s)(?d \<mapsto> ?fd0)\<rparr>)" .
  let ?t = "t\<lparr>fdesc := (fdesc s)(?d \<mapsto> ?fd0)\<rparr>"
  obtain c' where c': "(case fd_rdir ?fd of Some r \<Rightarrow> call (Vrele r) (call (Vrele (fd_cdir ?fd)) ?t) | None \<Rightarrow> call (Vrele (fd_cdir ?fd)) ?t)
      = ?t\<lparr>d_calls := c'\<rparr>"
    by (cases "fd_rdir ?fd") (auto simp: call_def)
  have s0: "set_fd p (\<lambda>fd. fd\<lparr>fd_refcnt := fd_refcnt fd - 1\<rparr>) s = ?s0" using w by (simp add: set_fd_def fd_wf_def)
  have fd0: "fd_of p ?s0 = ?fd0" by (simp add: fd_of_def)
  have "fdfree E p s = Some (t\<lparr>d_calls := c'\<rparr>)"
    unfolding fdfree_def Let_def s0 fd0 using ca c' t(3,4) by (simp add: fun_upd_idem)
  moreover have "tables_ok t" using inv by (auto simp: dinv_def tables_ok_def t(3,4) split: if_splits)
  ultimately show ?thesis using t by (auto simp: live_def) (simp add: dinv_def)
qed

section \<open>What the calls do to the tables\<close>

lemma fd_len: "fd_wf fd \<Longrightarrow> length (fd_ofiles fd) = fd_nfiles fd"
  by (simp add: fd_wf_def)

lemma fdalloc_files:
  assumes "dinv s" and "live s p" and "fdalloc p want s = Some (r, t)"
  shows "fd_file (fd_of p t) j = fd_file (fd_of p s) j"
proof -
  have w: "fd_wf (fd_of p s)" using assms(1,2) by (simp add: dinv_def tables_fd)
  have "fdalloc_good p want s (r, t)" using fdalloc_returns [OF assms(2) w, of want] assms(3) by auto
  then obtain s1 where g: "grown p s s1" and t: "fd_ofiles (fd_of p t) = fd_ofiles (fd_of p s1)" "fd_nfiles (fd_of p t) = fd_nfiles (fd_of p s1)"
    by (cases r) (auto simp: fdalloc_good_def fd_take_def)
  obtain m where m: "fd_ofiles (fd_of p s1) = fd_ofiles (fd_of p s) @ replicate m None" and u: "\<And>j. fd_used (fd_of p s1) j = fd_used (fd_of p s) j"
      and w1: "fd_wf (fd_of p s1)"
    using g by (auto simp: grown_def)
  show ?thesis
  proof (cases "0 \<le> j \<and> j < int (fd_nfiles (fd_of p s))")
    case True
    then have "nat j < length (fd_ofiles (fd_of p s))" using fd_len [OF w] by linarith
    moreover from this have "nat j < fd_nfiles (fd_of p s1)" using fd_len [OF w1] m by simp
    ultimately show ?thesis using True by (auto simp: fd_file_def t m nth_append)
  next
    case False
    then have "\<not> fd_used (fd_of p s1) (nat j)" if "0 \<le> j" using that u [of "nat j"] by (auto simp: fd_used_def)
    then show ?thesis using False by (auto simp: fd_file_def t fd_used_def)
  qed
qed

lemma install_files:
  assumes "live s p" and "fd_wf (fd_of p s)" and "new < fd_nfiles (fd_of p s)"
  shows "fd_file (fd_of p (fd_install p old new a s)) j = (if j = int new then Some a else fd_file (fd_of p s) j)"
proof -
  have "fd_of p (fd_install p old new a s) = (fd_of p s)\<lparr>fd_ofiles := (fd_ofiles (fd_of p s))[new := Some a],
        fd_ofileflags := (fd_ofileflags (fd_of p s))[new := fd_ofileflags (fd_of p s) ! old AND NOT UF_EXCLOSE],
        fd_lastfile := (if fd_lastfile (fd_of p s) < new then u_short new else fd_lastfile (fd_of p s))\<rparr>"
    by (simp add: fd_install_def fd_of_def set_fd_def set_file_def)
  then show ?thesis using fd_len [OF assms(2)] assms(3) by (auto simp: fd_file_def nth_list_update)
qed

lemma closef_tables: "closef E a p s = Some (r, t) \<Longrightarrow> fd_of q t = fd_of q s \<and> live t q = live s q"
  by (auto simp: closef_def Let_def ext_def call_def set_file_def ffree_def fd_of_def live_def split: option.splits if_splits)

lemma dup2_files:
  assumes inv: "dinv s" and l: "live s p" and d: "dup2 E p old new s = Some (r, t)"
  shows "(\<exists>a. fd_file (fd_of p s) (int old) = Some a) \<and> new < p_nofile (dprocs s p) \<and> r = Inr new
     \<and> fd_file (fd_of p t) = (fd_file (fd_of p s))(int new := fd_file (fd_of p s) (int old))
    \<or> (fd_file (fd_of p s) (int old) = None \<or> p_nofile (dprocs s p) \<le> new) \<and> r = Inl EBADF \<and> t = s"
proof (cases "fd_file (fd_of p s) (int old)")
  case None
  then show ?thesis using d by (simp add: dup2_def)
next
  case (Some a)
  have w: "fd_wf (fd_of p s)" using inv l by (simp add: dinv_def tables_fd)
  consider "p_nofile (dprocs s p) \<le> new" | "new < p_nofile (dprocs s p)" "old = new"
    | "new < p_nofile (dprocs s p)" "old \<noteq> new" "fd_nfiles (fd_of p s) \<le> new"
    | "new < p_nofile (dprocs s p)" "old \<noteq> new" "new < fd_nfiles (fd_of p s)"
    by linarith
  then show ?thesis
  proof cases
    case 3
    obtain q t1 where al: "fdalloc p new s = Some (q, t1)" "fdalloc_good p new s (q, t1)" using fdalloc_returns [OF l w] by blast
    have "\<not> fd_used (fd_of p s) new" using 3 by (simp add: fd_used_def)
    then have q: "q = Inr new" using al(2) 3(1) d al(1) Some 3
      by (cases q) (auto simp: fdalloc_good_def dup2_def split: if_splits)
    note e = fdalloc_effect [OF inv l al(1)]
    then have "fd_wf (fd_of p t1)" by (simp add: dinv_def tables_fd)
    moreover have "t = fd_install p old new a t1" "r = Inr new" using d Some 3 al(1) q by (simp_all add: dup2_def)
    ultimately show ?thesis using install_files [of t1 p new old a] e q fdalloc_files [OF inv l al(1)] Some 3 by auto
  next
    case 4
    have "\<exists>t1. t = fd_install p old new a t1 \<and> fd_of p t1 = fd_of p s \<and> live t1 p" "r = Inr new"
      using d Some 4 l by (auto simp: dup2_def Let_def call_def split: option.splits if_splits dest!: closef_tables)
    then show ?thesis using install_files w Some 4 by fastforce
  qed (use d Some in \<open>auto simp: dup2_def\<close>)
qed

lemma close_files:
  assumes inv: "dinv s" and l: "live s p" and c: "close E p i s = Some (r, t)" and a: "fd_file (fd_of p s) i = Some a"
  shows "fd_file (fd_of p t) = (fd_file (fd_of p s))(i := None)"
proof -
  have w: "fd_wf (fd_of p s)" using inv l by (simp add: dinv_def tables_fd)
  note sl = slot_file [OF inv l a]
  have "\<exists>s1. fd_of p t = fd_of p s1 \<and> fd_ofiles (fd_of p s1) = (fd_ofiles (fd_of p s))[nat i := None] \<and> fd_nfiles (fd_of p s1) = fd_nfiles (fd_of p s)"
    using c a unfolding close_def option.case Let_def by (auto simp: call_def dest!: closef_tables)
  then obtain s1 where s1: "fd_of p t = fd_of p s1" "fd_ofiles (fd_of p s1) = (fd_ofiles (fd_of p s))[nat i := None]"
      "fd_nfiles (fd_of p s1) = fd_nfiles (fd_of p s)" by blast
  show ?thesis
  proof
    fix j
    show "fd_file (fd_of p t) j = ((fd_file (fd_of p s))(i := None)) j"
      using sl(1,2) fd_len [OF w] unfolding fd_file_def s1
      by (cases "j = i"; cases "0 \<le> j") (simp_all add: nat_eq_iff)
  qed
qed

lemma fdcopy_files:
  assumes inv: "dinv s" and l: "live s p" and room: "copy_room p s"
  shows "\<exists>t fd'. fdcopy new p s = Some t \<and> fdesc t = (fdesc s)(new \<mapsto> fd') \<and> fd_file fd' = fd_file (fd_of p s)
     \<and> fd_cdir fd' = fd_cdir (fd_of p s) \<and> fd_rdir fd' = fd_rdir (fd_of p s)
     \<and> (\<forall>j a. fd_file fd' (int j) = Some a \<longrightarrow> fd_ofileflags fd' ! j = fd_ofileflags (fd_of p s) ! j)"
proof -
  let ?fd = "fd_of p s"
  obtain n c fd' where fd': "fd' = ?fd\<lparr>fd_refcnt := 1, fd_nfiles := n, fd_ofiles := take n (fd_ofiles ?fd), fd_ofileflags := take n (fd_ofileflags ?fd)\<rparr>"
    and n: "fd_lastfile ?fd < n" "n \<le> fd_nfiles ?fd" "fd_wf fd'"
    and t: "fdcopy new p s = Some (s\<lparr>d_calls := c, fdesc := (fdesc s)(new \<mapsto> fd'),
          files := (\<lambda>b. map_option (\<lambda>f. f\<lparr>f_count := f_count f + int (count_list (fd_ofiles ?fd) (Some b))\<rparr>) (files s b))\<rparr>)"
    using fdcopy_result [OF inv l room, of new] unfolding Let_def by blast
  have w: "fd_wf ?fd" using inv l by (simp add: dinv_def tables_fd)
  have above: "fd_ofiles ?fd ! nat j = None" if "int n \<le> j" "j < int (fd_nfiles ?fd)" for j
  proof -
    have "nat j < fd_nfiles ?fd" "fd_lastfile ?fd < nat j" using that n(1) by linarith+
    then show ?thesis using w unfolding fd_wf_def by (metis not_le)
  qed
  have "fd_file fd' j = fd_file ?fd j" for j
    using above [of j] n(2) by (auto simp: fd_file_def fd' not_less)
  moreover have "fd_ofileflags fd' ! j = fd_ofileflags ?fd ! j" if "fd_file fd' (int j) = Some a" for j a
    using that by (auto simp: fd_file_def fd' split: if_splits)
  moreover have "fd_cdir fd' = fd_cdir ?fd" "fd_rdir fd' = fd_rdir ?fd" by (simp_all add: fd')
  ultimately show ?thesis unfolding t by (intro exI [of _ fd'] exI conjI) (auto simp: fun_eq_iff)
qed

section \<open>Reachable states\<close>

text \<open>
  The calls of live processes in any order, with every argument and every answer of the rest of the kernel;
  a limit is set to at most 65536, and no count is at its largest value when a reference is added.
\<close>

definition fd_empty :: "nat \<Rightarrow> filedesc" where
  "fd_empty cdir = \<lparr>fd_ofiles = replicate NDFILE None, fd_ofileflags = replicate NDFILE 0, fd_cdir = cdir, fd_rdir = None,
     fd_nfiles = NDFILE, fd_lastfile = 0, fd_freefile = 0, fd_cmask = 0, fd_refcnt = 1\<rparr>"

definition d_init :: "dstate \<Rightarrow> bool" where
  "d_init s = (files s = Map.empty \<and> filehead s = [] \<and> nfiles s = 0 \<and> (\<exists>d v. fdesc s = [d \<mapsto> fd_empty v])
     \<and> (\<forall>p. p_nofile (dprocs s p) \<le> 65536))"

inductive d_step :: "dstate \<Rightarrow> dstate \<Rightarrow> bool" where
  d_dup: "live s p \<Longrightarrow> room s \<Longrightarrow> dup E p i arg2 s = Some (r, t) \<Longrightarrow> d_step s t"
| d_dup2: "live s p \<Longrightarrow> room s \<Longrightarrow> dup2 E p old new s = Some (r, t) \<Longrightarrow> d_step s t"
| d_fcntl: "live s p \<Longrightarrow> room s \<Longrightarrow> fcntl E p i cmd arg s = Some (q, t) \<Longrightarrow> d_step s t"
| d_close: "live s p \<Longrightarrow> close E p i s = Some (u, t) \<Longrightarrow> d_step s t"
| d_flock: "live s p \<Longrightarrow> flock E p i how s = Some (q, t) \<Longrightarrow> d_step s t"
| d_falloc: "live s p \<Longrightarrow> files s a = None \<Longrightarrow> falloc a junk p s = Some (v, t) \<Longrightarrow> d_step s t"
| d_type: "d_step s (set_file a (\<lambda>f. f\<lparr>f_flag := fl, f_type := ty, f_data := d\<rparr>) s)"
| d_fork: "live s p \<Longrightarrow> copy_room p s \<Longrightarrow> fdesc s new = None \<Longrightarrow> fdcopy new p s = Some t
    \<Longrightarrow> d_step s (set_proc c (\<lambda>_. (dprocs s p)\<lparr>p_fd := new, p_advlck := False\<rparr>) t)"
| d_exit: "live s p \<Longrightarrow> fdfree E p s = Some t \<Longrightarrow> d_step s t"
| d_limit: "n \<le> 65536 \<Longrightarrow> d_step s (set_proc p (\<lambda>x. x\<lparr>p_nofile := n\<rparr>) s)"

lemma fd_wf_empty: "fd_wf (fd_empty v)"
  by (simp add: fd_wf_def fd_empty_def NDFILE_def)

lemma dinv_new_proc: "dinv s \<Longrightarrow> p_nofile q \<le> 65536 \<Longrightarrow> dinv (set_proc c (\<lambda>_. q) s)"
  by (simp add: dinv_def cinv_def tables_ok_def set_proc_def)

lemma dinv_limit: "dinv s \<Longrightarrow> n \<le> 65536 \<Longrightarrow> dinv (set_proc c (\<lambda>x. x\<lparr>p_nofile := n\<rparr>) s)"
  by (simp add: dinv_def cinv_def tables_ok_def set_proc_def)

lemma kept_next: "kept x \<Longrightarrow> x = Some (r, t) \<Longrightarrow> dinv t"
  by simp

interpretation descr: invariant_system d_init d_step dinv
proof
  fix s assume "d_init s"
  then obtain d v where s: "files s = Map.empty" "filehead s = []" "nfiles s = 0" "fdesc s = [d \<mapsto> fd_empty v]"
      "\<forall>p. p_nofile (dprocs s p) \<le> 65536" by (auto simp: d_init_def)
  have "refs (fdesc s) a = 0" for a
    by (simp add: refs_def s fd_empty_def count_list_0_iff)
  then have "cinv (\<lambda>_. 0) s" unfolding cinv_def s by (simp add: cnt_ok_def)
  moreover have "fd_wf fd" if "fdesc s e = Some fd" for e fd
    using that fd_wf_empty s(4) by (cases "e = d") auto
  then have "tables_ok s" using s(5) unfolding tables_ok_def by blast
  ultimately show "dinv s" unfolding dinv_def by blast
next
  fix s t assume inv: "dinv s" and "d_step s t"
  from this(2) show "dinv t"
  proof cases
    case d_dup
    show ?thesis by (rule kept_next [OF dup_kept [OF inv d_dup(1,2)] d_dup(3)])
  next
    case d_dup2
    show ?thesis by (rule kept_next [OF dup2_kept [OF inv d_dup2(1,2)] d_dup2(3)])
  next
    case d_fcntl
    show ?thesis by (rule kept_next [OF fcntl_kept [OF inv d_fcntl(1,2)] d_fcntl(3)])
  next
    case d_close
    show ?thesis by (rule kept_next [OF close_kept [OF inv d_close(1)] d_close(2)])
  next
    case d_flock
    show ?thesis by (rule kept_next [OF flock_kept [OF inv d_flock(1)] d_flock(2)])
  next
    case d_falloc
    show ?thesis by (rule kept_next [OF falloc_kept [OF inv d_falloc(1,2)] d_falloc(3)])
  next
    case (d_type a fl ty d)
    then show ?thesis using inv by simp
  next
    case (d_fork p new t1 c)
    then have "dinv t1" using fdcopy_kept [OF inv d_fork(2-4)] by auto
    moreover have "p_nofile (dprocs s p) \<le> 65536" using inv by (simp add: dinv_def tables_ok_def)
    ultimately show ?thesis using d_fork(1) dinv_new_proc by simp
  next
    case d_exit
    then show ?thesis using fdfree_kept [OF inv d_exit(1)] by (metis option.inject)
  next
    case (d_limit n p)
    then show ?thesis using dinv_limit [OF inv] by simp
  qed
qed

section \<open>Properties\<close>

text \<open>
  Property C19. In every reachable state the count of an open file is the number of slots, over the tables of
  all processes, that hold it, at least one; no slot holds a file that was freed; the list of open files has
  each file once, and \<^verbatim>\<open>nfiles\<close> is its length. The runs add no reference to a file that has the 32767 that
  \<^verbatim>\<open>f_count\<close> can hold.
\<close>

theorem file_counts_exact:
  assumes "reach d_init d_step s"
  shows "(\<forall>a. (case files s a of None \<Rightarrow> refs (fdesc s) a = 0
      | Some f \<Rightarrow> f_count f = int (refs (fdesc s) a) \<and> 0 < f_count f))
    \<and> distinct (filehead s) \<and> set (filehead s) = dom (files s) \<and> nfiles s = length (filehead s)"
proof -
  have inv: "cinv (\<lambda>_. 0) s" using descr.reach_inv [OF assms] by (simp add: dinv_def)
  have "case files s a of None \<Rightarrow> refs (fdesc s) a = 0 | Some f \<Rightarrow> f_count f = int (refs (fdesc s) a) \<and> 0 < f_count f" for a
  proof -
    have "cnt_ok (refs (fdesc s) a) (files s a)" using inv by (simp add: cinv_def)
    then show ?thesis by (cases "files s a") (simp_all add: cnt_ok_def)
  qed
  then show ?thesis using inv unfolding cinv_def by blast
qed

text \<open>
  Property C20. \<^verbatim>\<open>fdalloc\<close> always returns. It gives the lowest descriptor, from the wanted one on and below the
  limit, that is free, growing the table so that it is in it; it fails with \<^verbatim>\<open>EMFILE\<close> exactly when there is
  none. No descriptor changes its file.
\<close>

theorem fdalloc_lowest:
  assumes "reach d_init d_step s" and "live s p"
  shows "\<exists>r t. fdalloc p want s = Some (r, t) \<and> fd_file (fd_of p t) = fd_file (fd_of p s)
    \<and> (case r of
         Inl e \<Rightarrow> e = EMFILE \<and> (\<forall>j. want \<le> j \<and> j < p_nofile (dprocs s p) \<longrightarrow> fd_file (fd_of p s) (int j) \<noteq> None)
       | Inr i \<Rightarrow> want \<le> i \<and> i < p_nofile (dprocs s p) \<and> i < fd_nfiles (fd_of p t) \<and> fd_file (fd_of p s) (int i) = None
           \<and> (\<forall>j. want \<le> j \<and> j < i \<longrightarrow> fd_file (fd_of p s) (int j) \<noteq> None))"
proof -
  have inv: "dinv s" by (rule descr.reach_inv [OF assms(1)])
  have used: "fd_used (fd_of p s) j = (fd_file (fd_of p s) (int j) \<noteq> None)" for j by (simp add: fd_used_def fd_file_def)
  have "fd_wf (fd_of p s)" using inv assms(2) by (simp add: dinv_def tables_fd)
  then obtain r t where al: "fdalloc p want s = Some (r, t)" "fdalloc_good p want s (r, t)"
    using fdalloc_returns [OF assms(2)] by blast
  have "fd_file (fd_of p t) = fd_file (fd_of p s)" using fdalloc_files [OF inv assms(2) al(1)] by blast
  moreover have "case r of
       Inl e \<Rightarrow> e = EMFILE \<and> (\<forall>j. want \<le> j \<and> j < p_nofile (dprocs s p) \<longrightarrow> fd_file (fd_of p s) (int j) \<noteq> None)
     | Inr i \<Rightarrow> want \<le> i \<and> i < p_nofile (dprocs s p) \<and> i < fd_nfiles (fd_of p t) \<and> fd_file (fd_of p s) (int i) = None
         \<and> (\<forall>j. want \<le> j \<and> j < i \<longrightarrow> fd_file (fd_of p s) (int j) \<noteq> None)"
    using al(2) fdalloc_effect [OF inv assms(2) al(1)] by (cases r) (simp_all add: fdalloc_good_def used)
  ultimately show ?thesis using al(1) by blast
qed

text \<open>
  Property C21. When every file has fewer than 32767 references (\<open>room\<close>) \<^verbatim>\<open>dup2\<close> does not panic. It succeeds exactly when the old descriptor is open and the new one is below
  the limit; then the new one is a descriptor of the old one's file and every other descriptor is as before.
  Otherwise it fails with \<^verbatim>\<open>EBADF\<close> and nothing changes.
\<close>

theorem dup2_exact:
  assumes "reach d_init d_step s" and "live s p" and "room s"
  shows "\<exists>t. if fd_file (fd_of p s) (int old) \<noteq> None \<and> new < p_nofile (dprocs s p)
    then dup2 E p old new s = Some (Inr new, t)
      \<and> fd_file (fd_of p t) = (fd_file (fd_of p s))(int new := fd_file (fd_of p s) (int old))
    else dup2 E p old new s = Some (Inl EBADF, s)"
proof -
  have inv: "dinv s" by (rule descr.reach_inv [OF assms(1)])
  obtain r t where d: "dup2 E p old new s = Some (r, t)"
    using dup2_kept [OF inv assms(2,3), of E old new] by (cases "dup2 E p old new s") (auto simp: kept_def)
  from dup2_files [OF inv assms(2) d] d show ?thesis by (auto simp: not_le)
qed

lemma fstat_panics:
  assumes "dinv s" and "live s p"
  shows "fstat E p i s = None \<longleftrightarrow> (\<exists>a f. fd_file (fd_of p s) i = Some a \<and> files s a = Some f \<and>
    f_type f \<noteq> DTYPE_VNODE \<and> f_type f \<noteq> DTYPE_SOCKET)"
proof (cases "fd_file (fd_of p s) i")
  case (Some a)
  obtain f where f: "files s a = Some f" using slot_file(4) [OF assms Some] by blast
  have "fstat E p i s \<noteq> None" if "f_type f = DTYPE_VNODE \<or> f_type f = DTYPE_SOCKET"
    using that by (auto simp: fstat_def Some f Let_def split: prod.splits option.splits)
  then show ?thesis by (auto simp: Some f) (simp add: fstat_def Some f)
qed (simp add: fstat_def)

text \<open>
  \<^verbatim>\<open>dupfdopen\<close> is called with the descriptor of the open that failed, whose slot may still hold the file that
  was allocated for it and freed: \<open>x\<close> is whatever the slot holds.
\<close>

lemma dupfdopen_returns:
  assumes inv: "dinv s" and l: "live s p" and i: "indx < fd_nfiles (fd_of p s)"
  shows "dupfdopen p indx dfd mode (set_fd p (\<lambda>fd. fd\<lparr>fd_ofiles := (fd_ofiles fd)[indx := x]\<rparr>) s) \<noteq> None"
proof -
  let ?s = "set_fd p (\<lambda>fd. fd\<lparr>fd_ofiles := (fd_ofiles fd)[indx := x]\<rparr>) s"
  have w: "length (fd_ofiles (fd_of p s)) = fd_nfiles (fd_of p s)"
    using inv l tables_fd [of s p] by (simp add: dinv_def fd_wf_def)
  have x: "fd_ofiles (fd_of p ?s) ! indx = x" using w i by simp
  have "files ?s b \<noteq> None" if "fd_file (fd_of p ?s) dfd = Some b" "x \<noteq> Some b" for b
  proof -
    have "nat dfd \<noteq> indx" using that x by (auto simp: fd_file_def split: if_splits)
    then have "fd_file (fd_of p s) dfd = Some b" using that(1) by (auto simp: fd_file_def split: if_splits)
    from slot_file(4) [OF inv l this] show ?thesis by (auto simp: set_fd_def)
  qed
  then show ?thesis unfolding dupfdopen_def Let_def x by (auto split: option.splits)
qed

text \<open>
  Property C22. In a reachable state in which every file has fewer than 32767 references (\<open>room\<close>) and a copy of
  the table would not bring one to 32768 (\<open>copy_room\<close>), no call on descriptors panics or follows a pointer
  to a freed file, with one exception: \<^verbatim>\<open>dup\<close>, \<^verbatim>\<open>dup2\<close>, \<^verbatim>\<open>fcntl\<close>, \<^verbatim>\<open>flock\<close>, \<^verbatim>\<open>close\<close>, \<^verbatim>\<open>falloc\<close>, \<^verbatim>\<open>dupfdopen\<close> (whatever the
  slot it fills holds), the copy of a table and its release on exit all return, and \<^verbatim>\<open>fstat\<close> panics exactly
  when the file of the descriptor is neither a vnode nor a socket.
\<close>

theorem descriptors_no_panic:
  assumes "reach d_init d_step s" and "live s p" and "room s" and "copy_room p s" and "files s a = None"
  shows "dup E p i arg2 s \<noteq> None \<and> dup2 E p old new s \<noteq> None \<and> fcntl E p i cmd arg s \<noteq> None \<and> flock E p i how s \<noteq> None
    \<and> close E p i s \<noteq> None \<and> falloc a junk p s \<noteq> None \<and> fdcopy tab p s \<noteq> None \<and> fdfree E p s \<noteq> None
    \<and> (indx < fd_nfiles (fd_of p s) \<longrightarrow>
        dupfdopen p indx dfd mode (set_fd p (\<lambda>fd. fd\<lparr>fd_ofiles := (fd_ofiles fd)[indx := x]\<rparr>) s) \<noteq> None)
    \<and> (fstat E p i s = None \<longleftrightarrow> (\<exists>b f. fd_file (fd_of p s) i = Some b \<and> files s b = Some f \<and>
        f_type f \<noteq> DTYPE_VNODE \<and> f_type f \<noteq> DTYPE_SOCKET))"
proof -
  have inv: "dinv s" by (rule descr.reach_inv [OF assms(1)])
  have "fdcopy tab p s \<noteq> None" "fdfree E p s \<noteq> None"
    using fdcopy_files [OF inv assms(2,4), of tab] fdfree_kept [OF inv assms(2), of E] by auto
  then show ?thesis
    by (intro conjI impI kept_returns dup_kept [OF inv assms(2,3)] dup2_kept [OF inv assms(2,3)]
      fcntl_kept [OF inv assms(2,3)] flock_kept [OF inv assms(2)]
      close_kept [OF inv assms(2)] falloc_kept [OF inv assms(2,5)] dupfdopen_returns [OF inv assms(2)] fstat_panics [OF inv assms(2)])
qed

text \<open>
  The table that \<^verbatim>\<open>fork\<close> gives a child, which may be smaller than its parent's, has the same file at
  every descriptor, with the same flags, and the same directories.
\<close>

lemma fdcopy_same_table:
  assumes "reach d_init d_step s" and "live s p" and "copy_room p s"
  shows "\<exists>t fd'. fdcopy new p s = Some t \<and> fdesc t = (fdesc s)(new \<mapsto> fd') \<and> fd_file fd' = fd_file (fd_of p s)
     \<and> fd_cdir fd' = fd_cdir (fd_of p s) \<and> fd_rdir fd' = fd_rdir (fd_of p s)
     \<and> (\<forall>j a. fd_file fd' (int j) = Some a \<longrightarrow> fd_ofileflags fd' ! j = fd_ofileflags (fd_of p s) ! j)"
  by (rule fdcopy_files [OF descr.reach_inv [OF assms(1)] assms(2,3)])

section \<open>An example\<close>

text \<open>A first process opens a file and duplicates its descriptor; both its descriptors, of a limit of 2, are then in use.\<close>

definition ex_env :: denv where
  "ex_env = \<lparr>e_err = (\<lambda>_. None), e_val = (\<lambda>_. 0), e_flock = (\<lambda>_. whole_unlock), e_pgid = (\<lambda>_. None), e_freed = 0\<rparr>"

definition ex_file :: kfile where
  "ex_file = \<lparr>f_flag = 3, f_type = 1, f_count = 0, f_msgcount = 0, f_cred = 0, f_offset = 0, f_data = 5\<rparr>"

definition ex_d0 :: dstate where
  "ex_d0 = \<lparr>files = Map.empty, filehead = [], nfiles = 0, maxfiles = 5, fdesc = [9 \<mapsto> fd_empty 3],
     dprocs = (\<lambda>_. \<lparr>p_fd = 9, p_nofile = 2, p_cred = 1, p_advlck = False, p_dupfd = 0\<rparr>), so_pgid = (\<lambda>_. 0), fdexpand = 0, d_calls = []\<rparr>"

definition ex_fd :: "nat option list \<Rightarrow> nat \<Rightarrow> nat \<Rightarrow> filedesc" where
  "ex_fd fs l i = (fd_empty 3)\<lparr>fd_ofiles := fs @ replicate (20 - length fs) None, fd_lastfile := l, fd_freefile := i\<rparr>"

definition ex_d1 :: dstate where
  "ex_d1 = ex_d0\<lparr>files := [7 \<mapsto> ex_file\<lparr>f_count := 1, f_cred := 1\<rparr>], filehead := [7], nfiles := 1,
     fdesc := [9 \<mapsto> ex_fd [Some 7] 0 0], d_calls := [Crhold 1]\<rparr>"

definition ex_d2 :: dstate where
  "ex_d2 = ex_d1\<lparr>files := [7 \<mapsto> ex_file\<lparr>f_count := 2, f_cred := 1\<rparr>], fdesc := [9 \<mapsto> ex_fd [Some 7, Some 7] 1 1]\<rparr>"

lemmas ex_defs = ex_d0_def ex_d1_def ex_d2_def ex_fd_def ex_file_def ex_env_def fd_empty_def NDFILE_def

lemma run_fuel_num: "run_fuel body (numeral k) s = (case body s of Inl t \<Rightarrow> run_fuel body (pred_numeral k) t | Inr r \<Rightarrow> Some r)"
  by (simp add: numeral_eq_Suc)

lemma upt2: "[0..<2] = [0, 1 :: nat]"
  by (simp add: upt_rec)

lemma replicate_num: "replicate (numeral k) x = x # replicate (pred_numeral k) x"
  by (simp add: numeral_eq_Suc)

lemmas ex_eval = replicate_num fdalloc_def fdalloc_turn_def fd_of_def set_fd_def fd_take_def u_short_def Let_def run_fuel_num upt2

lemma ex_falloc: "falloc 7 ex_file 0 ex_d0 = Some (Inr (7, 0), ex_d1)"
  by (simp add: falloc_def ex_eval ex_defs call_def)

lemma ex_dup: "dup ex_env 0 0 0 ex_d1 = Some (Inr 1, ex_d2)"
  by (simp add: dup_def dup_bits_def fd_file_def fd_install_def set_file_def s16_def ex_eval ex_defs)

lemma ex_live: "live ex_d0 0" "live ex_d1 0" "live ex_d2 0"
  by (simp_all add: live_def ex_defs)

lemma ex_room: "room ex_d1" "copy_room 0 ex_d1"
  by (simp_all add: room_def copy_room_def fd_of_def ex_defs replicate_num)

lemma ex_reach: "reach d_init d_step ex_d1" "reach d_init d_step ex_d2"
proof -
  have "d_init ex_d0" by (auto simp: d_init_def ex_d0_def)
  moreover have "files ex_d0 7 = None" by (simp add: ex_d0_def)
  ultimately show "reach d_init d_step ex_d1" using reach_init reach_step d_falloc [OF ex_live(1) _ ex_falloc] by metis
  then show "reach d_init d_step ex_d2" using reach_step d_dup [OF ex_live(2) ex_room(1) ex_dup] by metis
qed

lemma file_counts_exact_witness: "f_count (the (files ex_d2 7)) = int (refs (fdesc ex_d2) 7) \<and> f_count (the (files ex_d2 7)) = 2"
  using file_counts_exact [OF ex_reach(2)] by (auto simp: ex_d2_def dest!: spec [of _ 7])

lemma fdalloc_lowest_witness: "\<exists>t. fdalloc 0 0 ex_d2 = Some (Inl EMFILE, t)"
proof -
  have 1: "fd_file (fd_of 0 ex_d2) (int i) \<noteq> None" if "i < 2" for i
    using that by (cases "i = 0") (auto simp: fd_file_def fd_of_def ex_defs less_2_cases_iff)
  have lim: "p_nofile (dprocs ex_d2 0) = 2" by (simp add: ex_defs)
  obtain r t where r: "fdalloc 0 0 ex_d2 = Some (r, t)"
      "case r of Inl e \<Rightarrow> e = EMFILE \<and> (\<forall>j. 0 \<le> j \<and> j < 2 \<longrightarrow> fd_file (fd_of 0 ex_d2) (int j) \<noteq> None)
       | Inr i \<Rightarrow> 0 \<le> i \<and> i < 2 \<and> i < fd_nfiles (fd_of 0 t) \<and> fd_file (fd_of 0 ex_d2) (int i) = None
           \<and> (\<forall>j. 0 \<le> j \<and> j < i \<longrightarrow> fd_file (fd_of 0 ex_d2) (int j) \<noteq> None)"
    using fdalloc_lowest [OF ex_reach(2) ex_live(3), of 0] unfolding lim by blast
  then show ?thesis by (cases r) (auto dest: 1)
qed

lemma dup2_exact_witness: "\<exists>t. dup2 ex_env 0 0 1 ex_d1 = Some (Inr 1, t) \<and> fd_file (fd_of 0 t) 1 = Some 7"
proof -
  have "fd_file (fd_of 0 ex_d1) (int 0) = Some 7" "1 < p_nofile (dprocs ex_d1 0)" by (simp_all add: fd_file_def fd_of_def ex_defs)
  then show ?thesis using dup2_exact [OF ex_reach(1) ex_live(2) ex_room(1), of 0 1 ex_env] by auto
qed

lemma descriptors_no_panic_witness:
  "close ex_env 0 0 ex_d1 \<noteq> None \<and> fdfree ex_env 0 ex_d1 \<noteq> None \<and> fstat ex_env 0 0 ex_d1 \<noteq> None"
proof -
  have "fd_file (fd_of 0 ex_d1) 0 = Some 7" "f_type (the (files ex_d1 7)) = DTYPE_VNODE" "files ex_d1 8 = None"
    by (simp_all add: fd_file_def fd_of_def ex_defs DTYPE_VNODE_def)
  then show ?thesis
    using descriptors_no_panic [OF ex_reach(1) ex_live(2) ex_room, where a = 8 and i = 0 and E = ex_env] by auto
qed

lemma fdcopy_same_table_example: "\<exists>t fd. fdcopy 4 0 ex_d1 = Some t \<and> fdesc t 4 = Some fd \<and> fd_file fd 0 = Some 7"
proof -
  obtain t fd where "fdcopy 4 0 ex_d1 = Some t" "fdesc t = (fdesc ex_d1)(4 \<mapsto> fd)" "fd_file fd = fd_file (fd_of 0 ex_d1)"
    using fdcopy_same_table [OF ex_reach(1) ex_live(2) ex_room(2), of 4] by blast
  moreover have "fd_file (fd_of 0 ex_d1) 0 = Some 7" by (simp add: fd_file_def fd_of_def ex_defs)
  ultimately show ?thesis by auto
qed

end
