(* ===== verification/Mbuf.thy ===== *)
theory Mbuf
  imports Prelude "HOL-Library.Multiset"
begin

text \<open>
  Network buffers, \<^verbatim>\<open>sys/kern/uipc_mbuf.c\<close> and the macros of \<^verbatim>\<open>sys/sys/mbuf.h\<close>.

  A chain is the list of its mbufs. The data of an mbuf is in its own 108 bytes or in a cluster of 1024
  bytes that mbufs share; \<open>m_data\<close> is an offset into the one or the other. The flags \<^verbatim>\<open>M_EXT\<close> and \<^verbatim>\<open>M_PKTHDR\<close>
  are fields of their own, the other flags are together in \<open>m_flags\<close>; what the C unions overlay is spared apart,
  and an access outside the part that the flags make valid is \<open>None\<close>, as is a panic.

  The memory that \<^verbatim>\<open>MALLOC\<close> and \<^verbatim>\<open>kmem_malloc\<close> return, with what it held before, is an argument, by the number of
  the request; likewise which of the chains they have queued the protocols drop when they are asked to
  drain (\<^verbatim>\<open>pr_drain\<close>). These chains are part of the state. Counters wrap at their width.
\<close>

section \<open>Mbufs\<close>

record pkthdr =
  len :: int
  rcvif :: nat

record kmbuf =
  m_len :: nat
  m_data :: nat
  m_type :: nat
  m_isext :: bool
  m_ispkt :: bool
  m_flags :: u16
  m_pkthdr :: pkthdr
  ext_buf :: nat
  m_dat :: "u8 list"

type_synonym chain = "kmbuf list"

record mbstate =
  mcl :: "nat \<Rightarrow> u8 list"
  mclrefcnt :: "nat \<Rightarrow> u8"
  mclfree :: "nat list"
  mbuffree :: "kmbuf list"
  m_mtypes :: "nat \<Rightarrow> u16"
  m_clusters :: u32
  m_clfree :: u32
  m_drain :: u32
  queued :: "chain list"
  requests :: nat
  MCFail :: u32
  MPFail :: u32

record menv =
  e_mbuf :: "nat \<Rightarrow> kmbuf option"
  e_page :: "nat \<Rightarrow> nat option"
  e_fill :: "nat \<Rightarrow> u8 list"
  e_drop :: "nat \<Rightarrow> chain \<Rightarrow> bool"

definition MLEN :: nat where "MLEN = 108"
definition PKTHDR :: nat where "PKTHDR = 8"
definition MHLEN :: nat where "MHLEN = 100"
definition MCLBYTES :: nat where "MCLBYTES = 1024"
definition CLBYTES :: nat where "CLBYTES = 4096"
definition MAX_MBFREE :: nat where "MAX_MBFREE = 32"
definition M_EOR :: u16 where "M_EOR = 0x0004"
definition M_COPYFLAGS :: u16 where "M_COPYFLAGS = 0x0304"
definition M_COPYALL :: int where "M_COPYALL = 1000000000"

text \<open>The bytes of an mbuf and of a chain.\<close>

definition mbytes :: "mbstate \<Rightarrow> kmbuf \<Rightarrow> u8 list" where
  "mbytes s m = take (m_len m) (drop (m_data m) (if m_isext m then mcl s (ext_buf m) else m_dat m))"

definition cbytes :: "mbstate \<Rightarrow> chain \<Rightarrow> u8 list" where
  "cbytes s ch = concat (map (mbytes s) ch)"

section \<open>Allocation\<close>

definition count_type :: "nat \<Rightarrow> u16 \<Rightarrow> mbstate \<Rightarrow> mbstate" where
  "count_type t d s = s\<lparr>m_mtypes := (m_mtypes s)(t := m_mtypes s t + d)\<rparr>"

definition MCLFREE :: "nat \<Rightarrow> mbstate \<Rightarrow> mbstate" where
  "MCLFREE c s = (let s = s\<lparr>mclrefcnt := (mclrefcnt s)(c := mclrefcnt s c - 1)\<rparr> in
     if mclrefcnt s c = 0 then s\<lparr>mclfree := c # mclfree s, m_clfree := m_clfree s + 1\<rparr> else s)"

definition MFREE :: "kmbuf \<Rightarrow> mbstate \<Rightarrow> mbstate" where
  "MFREE m s = (let s = count_type (m_type m) (- 1) s;
       s = (if m_isext m then MCLFREE (ext_buf m) s else s) in
     if unat (m_mtypes s 0) < MAX_MBFREE then count_type 0 1 (s\<lparr>mbuffree := m # mbuffree s\<rparr>) else s)"

definition m_freem :: "chain \<Rightarrow> mbstate \<Rightarrow> mbstate" where
  "m_freem ch s = fold MFREE ch s"

definition m_reclaim :: "menv \<Rightarrow> mbstate \<Rightarrow> mbstate" where
  "m_reclaim E s = (let n = requests s;
       s = fold m_freem (filter (e_drop E n) (queued s)) (s\<lparr>requests := n + 1\<rparr>) in
     s\<lparr>queued := filter (\<lambda>ch. \<not> e_drop E n ch) (queued s), m_drain := m_drain s + 1\<rparr>)"

definition MBALLOC :: "menv \<Rightarrow> mbstate \<Rightarrow> kmbuf option \<times> mbstate" where
  "MBALLOC E s = (case mbuffree s of
      m # ms \<Rightarrow> (Some m, count_type 0 (- 1) (s\<lparr>mbuffree := ms\<rparr>))
    | [] \<Rightarrow> (e_mbuf E (requests s), s\<lparr>requests := requests s + 1\<rparr>))"

definition mb_setup :: "bool \<Rightarrow> nat \<Rightarrow> kmbuf \<Rightarrow> kmbuf" where
  "mb_setup hdr t m = m\<lparr>m_type := t, m_data := (if hdr then PKTHDR else 0), m_flags := 0, m_isext := False, m_ispkt := hdr\<rparr>"

text \<open>\<^verbatim>\<open>MGET\<close> and \<^verbatim>\<open>MGETHDR\<close>: the second attempt, after the protocols were drained, is \<^verbatim>\<open>m_retry\<close> or \<^verbatim>\<open>m_retryhdr\<close>.\<close>

definition mb_get1 :: "bool \<Rightarrow> menv \<Rightarrow> nat \<Rightarrow> mbstate \<Rightarrow> kmbuf option \<times> mbstate" where
  "mb_get1 hdr E t s = (case MBALLOC E s of
      (Some m, s) \<Rightarrow> (Some (mb_setup hdr t m), count_type t 1 s)
    | (None, s) \<Rightarrow> (None, s))"

definition m_retry :: "bool \<Rightarrow> menv \<Rightarrow> nat \<Rightarrow> mbstate \<Rightarrow> kmbuf option \<times> mbstate" where
  "m_retry hdr E t s = mb_get1 hdr E t (m_reclaim E s)"

definition mb_get :: "bool \<Rightarrow> menv \<Rightarrow> nat \<Rightarrow> mbstate \<Rightarrow> kmbuf option \<times> mbstate" where
  "mb_get hdr E t s = (case mb_get1 hdr E t s of (Some m, s) \<Rightarrow> (Some m, s) | (None, s) \<Rightarrow> m_retry hdr E t s)"

definition m_get :: "menv \<Rightarrow> nat \<Rightarrow> mbstate \<Rightarrow> kmbuf option \<times> mbstate" where
  "m_get = mb_get False"

definition m_gethdr :: "menv \<Rightarrow> nat \<Rightarrow> mbstate \<Rightarrow> kmbuf option \<times> mbstate" where
  "m_gethdr = mb_get True"

definition m_getclr :: "menv \<Rightarrow> nat \<Rightarrow> mbstate \<Rightarrow> kmbuf option \<times> mbstate" where
  "m_getclr E t s = (case m_get E t s of
      (Some m, s) \<Rightarrow> (Some (m\<lparr>m_dat := replicate MLEN 0\<rparr>), s)
    | (None, s) \<Rightarrow> (None, s))"

definition m_free :: "chain \<Rightarrow> mbstate \<Rightarrow> chain \<times> mbstate" where
  "m_free ch s = (tl ch, MFREE (hd ch) s)"

section \<open>Clusters\<close>

definition m_clalloc :: "menv \<Rightarrow> nat \<Rightarrow> mbstate \<Rightarrow> bool \<times> mbstate" where
  "m_clalloc E ncl s = (case e_page E (requests s) of
      None \<Rightarrow> let s = m_reclaim E (s\<lparr>requests := requests s + 1\<rparr>) in (mclfree s \<noteq> [], s)
    | Some p \<Rightarrow> let n = ncl * CLBYTES div MCLBYTES in
        (True, s\<lparr>requests := requests s + 1, mclfree := rev [p..<p + n] @ mclfree s,
                 m_clfree := m_clfree s + of_nat n, m_clusters := m_clusters s + of_nat n\<rparr>))"

definition mbinit :: "menv \<Rightarrow> mbstate \<Rightarrow> mbstate option" where
  "mbinit E s = (case m_clalloc E 1 s of (True, s) \<Rightarrow> Some s | (False, _) \<Rightarrow> None)"

definition MCLALLOC :: "menv \<Rightarrow> mbstate \<Rightarrow> nat option \<times> mbstate" where
  "MCLALLOC E s = (let s = (if mclfree s = [] then snd (m_clalloc E 1 s) else s) in
     case mclfree s of
       [] \<Rightarrow> (None, s)
     | c # cs \<Rightarrow> (Some c, s\<lparr>mclfree := cs, m_clfree := m_clfree s - 1, mclrefcnt := (mclrefcnt s)(c := mclrefcnt s c + 1),
                            mcl := (mcl s)(c := e_fill E (requests s)), requests := requests s + 1\<rparr>))"

definition MCLGET :: "menv \<Rightarrow> kmbuf \<Rightarrow> mbstate \<Rightarrow> kmbuf \<times> mbstate" where
  "MCLGET E m s = (case MCLALLOC E s of
      (None, s) \<Rightarrow> (m, s)
    | (Some c, s) \<Rightarrow> (m\<lparr>ext_buf := c, m_data := 0, m_isext := True\<rparr>, s))"

section \<open>Packet headers and space in front\<close>

definition M_COPY_PKTHDR :: "kmbuf \<Rightarrow> kmbuf \<Rightarrow> kmbuf" where
  "M_COPY_PKTHDR to from = to\<lparr>m_pkthdr := m_pkthdr from, m_flags := m_flags from AND M_COPYFLAGS,
     m_ispkt := m_ispkt from, m_isext := False, m_data := PKTHDR\<rparr>"

definition MH_ALIGN :: "nat \<Rightarrow> kmbuf \<Rightarrow> kmbuf" where
  "MH_ALIGN n m = m\<lparr>m_data := m_data m + 4 * ((MHLEN - n) div 4)\<rparr>"

definition M_LEADINGSPACE :: "kmbuf \<Rightarrow> int" where
  "M_LEADINGSPACE m = (if m_isext m then 0 else if m_ispkt m then int (m_data m) - int PKTHDR else int (m_data m))"

definition M_TRAILINGSPACE :: "kmbuf \<Rightarrow> int" where
  "M_TRAILINGSPACE m = (if m_isext m then int MCLBYTES - int (m_data m + m_len m) else int MLEN - int (m_data m + m_len m))"

definition m_prepend :: "menv \<Rightarrow> chain \<Rightarrow> nat \<Rightarrow> mbstate \<Rightarrow> chain option \<times> mbstate" where
  "m_prepend E ch n s = (case m_get E (m_type (hd ch)) s of
      (None, s) \<Rightarrow> (None, m_freem ch s)
    | (Some mn, s) \<Rightarrow>
        let m = hd ch;
            mn = (if m_ispkt m then M_COPY_PKTHDR mn m else mn);
            m = (if m_ispkt m then m\<lparr>m_ispkt := False\<rparr> else m);
            mn = (if n < MHLEN then MH_ALIGN n mn else mn)
        in (Some (mn\<lparr>m_len := n\<rparr> # m # tl ch), s))"

definition M_PREPEND :: "menv \<Rightarrow> chain \<Rightarrow> nat \<Rightarrow> mbstate \<Rightarrow> chain option \<times> mbstate" where
  "M_PREPEND E ch n s =
     (let m = hd ch;
          (r, s) = (if int n \<le> M_LEADINGSPACE m then (Some (m\<lparr>m_data := m_data m - n, m_len := m_len m + n\<rparr> # tl ch), s)
                    else m_prepend E ch n s)
      in (map_option (\<lambda>ch. let m = hd ch in
            (if m_ispkt m then m\<lparr>m_pkthdr := (m_pkthdr m)\<lparr>len := len (m_pkthdr m) + int n\<rparr>\<rparr> else m) # tl ch) r, s))"

section \<open>Copying\<close>

text \<open>The bytes that \<^verbatim>\<open>bcopy\<close> reads in an mbuf, and an mbuf with bytes stored after its data, if they are inside.\<close>

definition m_read :: "mbstate \<Rightarrow> kmbuf \<Rightarrow> nat \<Rightarrow> nat \<Rightarrow> u8 list option" where
  "m_read s m off n = (let b = (if m_isext m then mcl s (ext_buf m) else m_dat m) in
     if m_data m + off + n \<le> length b then Some (take n (drop (m_data m + off) b)) else None)"

definition m_store :: "u8 list \<Rightarrow> nat \<Rightarrow> kmbuf \<Rightarrow> kmbuf option" where
  "m_store b off m = (let i = m_data m + off in
     if i + length b \<le> MLEN \<and> (m_ispkt m \<longrightarrow> PKTHDR \<le> i)
     then Some (m\<lparr>m_dat := take i (m_dat m) @ b @ drop (i + length b) (m_dat m)\<rparr>) else None)"

fun m_skip :: "nat \<Rightarrow> chain \<Rightarrow> (nat \<times> chain) option" where
  "m_skip off [] = (if off = 0 then Some (0, []) else None)"
| "m_skip off (m # ms) = (if off = 0 \<or> off < m_len m then Some (off, m # ms) else m_skip (off - m_len m) ms)"

text \<open>One mbuf of the copy: \<open>n\<close> is new, \<open>m\<close> the mbuf copied.\<close>

definition copy_one :: "int \<Rightarrow> bool \<Rightarrow> int \<Rightarrow> nat \<Rightarrow> kmbuf \<Rightarrow> kmbuf \<Rightarrow> mbstate \<Rightarrow> (kmbuf \<times> mbstate) option" where
  "copy_one off0 copyhdr n off m new s =
     (let new = (if copyhdr then
                   (let new = M_COPY_PKTHDR new m in
                    new\<lparr>m_pkthdr := (m_pkthdr new)\<lparr>len := (if n = M_COPYALL then len (m_pkthdr new) - off0 else n)\<rparr>\<rparr>)
                 else new);
          new = new\<lparr>m_len := nat (min n (int (m_len m) - int off))\<rparr> in
      if m_isext m then
        Some (new\<lparr>m_data := m_data m + off, ext_buf := ext_buf m, m_isext := True\<rparr>,
              s\<lparr>mclrefcnt := (mclrefcnt s)(ext_buf m := mclrefcnt s (ext_buf m) + 1)\<rparr>)
      else (case m_read s m off (m_len new) of
         None \<Rightarrow> None
       | Some b \<Rightarrow> map_option (\<lambda>new. (new, s)) (m_store b 0 new)))"

fun copy_loop :: "menv \<Rightarrow> int \<Rightarrow> bool \<Rightarrow> int \<Rightarrow> nat \<Rightarrow> chain \<Rightarrow> chain \<Rightarrow> mbstate \<Rightarrow> (bool \<times> chain \<times> mbstate) option" where
  "copy_loop E off0 copyhdr n off [] tp s =
     (if n \<le> 0 then Some (True, tp, s) else if n \<noteq> M_COPYALL then None else Some (True, tp, s))"
| "copy_loop E off0 copyhdr n off (m # ms) tp s =
     (if n \<le> 0 then Some (True, tp, s)
      else (case m_get E (m_type m) s of
         (None, s) \<Rightarrow> Some (False, tp, s)
       | (Some new, s) \<Rightarrow> (case copy_one off0 copyhdr n off m new s of
            None \<Rightarrow> None
          | Some (new, s) \<Rightarrow> copy_loop E off0 False (if n \<noteq> M_COPYALL then n - int (m_len new) else n) 0 ms (tp @ [new]) s)))"

definition m_copym :: "menv \<Rightarrow> chain \<Rightarrow> int \<Rightarrow> int \<Rightarrow> mbstate \<Rightarrow> (chain option \<times> mbstate) option" where
  "m_copym E ch off0 n s =
     (if off0 < 0 \<or> n < 0 \<or> (off0 = 0 \<and> ch = []) then None
      else let copyhdr = (off0 = 0 \<and> m_ispkt (hd ch)) in
       (case m_skip (nat off0) ch of
          None \<Rightarrow> None
        | Some (off, m) \<Rightarrow> (case copy_loop E off0 copyhdr n off m [] s of
             None \<Rightarrow> None
           | Some (True, [], s) \<Rightarrow> Some (None, s\<lparr>MCFail := MCFail s + 1\<rparr>)
           | Some (True, tp, s) \<Rightarrow> Some (Some tp, s)
           | Some (False, tp, s) \<Rightarrow> Some (None, (m_freem tp s)\<lparr>MCFail := MCFail s + 1\<rparr>))))"

fun copydata_loop :: "mbstate \<Rightarrow> nat \<Rightarrow> nat \<Rightarrow> chain \<Rightarrow> u8 list option" where
  "copydata_loop s n off [] = (if n = 0 then Some [] else None)"
| "copydata_loop s n off (m # ms) = (if n = 0 then Some []
     else let cnt = min (m_len m - off) n in
       (case m_read s m off cnt of
          None \<Rightarrow> None
        | Some b \<Rightarrow> map_option ((@) b) (copydata_loop s (n - cnt) 0 ms)))"

definition m_copydata :: "mbstate \<Rightarrow> chain \<Rightarrow> int \<Rightarrow> int \<Rightarrow> u8 list option" where
  "m_copydata s ch off n = (if off < 0 \<or> n < 0 then None
     else (case m_skip (nat off) ch of None \<Rightarrow> None | Some (off, m) \<Rightarrow> copydata_loop s (nat n) off m))"

section \<open>Joining and trimming\<close>

fun cat_loop :: "kmbuf \<Rightarrow> chain \<Rightarrow> mbstate \<Rightarrow> (chain \<times> mbstate) option" where
  "cat_loop m [] s = Some ([m], s)"
| "cat_loop m (n # ns) s =
     (if m_isext m \<or> MLEN \<le> m_data m + m_len m + m_len n then Some (m # n # ns, s)
      else (case m_read s n 0 (m_len n) of
         None \<Rightarrow> None
       | Some b \<Rightarrow> (case m_store b (m_len m) m of
            None \<Rightarrow> None
          | Some m \<Rightarrow> cat_loop (m\<lparr>m_len := m_len m + m_len n\<rparr>) ns (snd (m_free (n # ns) s)))))"

definition m_cat :: "chain \<Rightarrow> chain \<Rightarrow> mbstate \<Rightarrow> (chain \<times> mbstate) option" where
  "m_cat ch n s = (if ch = [] then None
     else map_option (\<lambda>(r, s). (butlast ch @ r, s)) (cat_loop (last ch) n s))"

fun trim_head :: "nat \<Rightarrow> chain \<Rightarrow> nat \<times> chain" where
  "trim_head n [] = (n, [])"
| "trim_head n (m # ms) = (if n = 0 then (0, m # ms)
     else if m_len m \<le> n then (let (r, ms) = trim_head (n - m_len m) ms in (r, m\<lparr>m_len := 0\<rparr> # ms))
     else (0, m\<lparr>m_len := m_len m - n, m_data := m_data m + n\<rparr> # ms))"

fun trim_tail :: "nat \<Rightarrow> chain \<Rightarrow> chain option" where
  "trim_tail cnt [] = None"
| "trim_tail cnt (m # ms) = (if cnt \<le> m_len m then Some (m\<lparr>m_len := cnt\<rparr> # map (\<lambda>m. m\<lparr>m_len := 0\<rparr>) ms)
     else map_option ((#) m) (trim_tail (cnt - m_len m) ms))"

definition set_pktlen :: "(int \<Rightarrow> int) \<Rightarrow> kmbuf \<Rightarrow> kmbuf" where
  "set_pktlen g m = (if m_ispkt m then m\<lparr>m_pkthdr := (m_pkthdr m)\<lparr>len := g (len (m_pkthdr m))\<rparr>\<rparr> else m)"

definition on_hd :: "(kmbuf \<Rightarrow> kmbuf) \<Rightarrow> chain \<Rightarrow> chain" where
  "on_hd g ch = (case ch of [] \<Rightarrow> [] | m # ms \<Rightarrow> g m # ms)"

definition m_adj :: "chain \<Rightarrow> int \<Rightarrow> chain option" where
  "m_adj mp req_len = (if mp = [] then Some []
     else if 0 \<le> req_len then
       (let (n, mp) = trim_head (nat req_len) mp in Some (on_hd (set_pktlen (\<lambda>l. l - (req_len - int n))) mp))
     else
       (let n = nat (- req_len); cnt = sum_list (map m_len mp); m = last mp in
        if n \<le> m_len m then Some (on_hd (set_pktlen (\<lambda>l. l - int n)) (butlast mp @ [m\<lparr>m_len := m_len m - n\<rparr>]))
        else let cnt = cnt - n in trim_tail cnt (on_hd (set_pktlen (\<lambda>_. int cnt)) mp)))"

section \<open>Making data contiguous\<close>

text \<open>
  One turn of the loop: \<open>m\<close> collects, \<open>n\<close> is the rest of the chain; \<^verbatim>\<open>min\<close> and \<^verbatim>\<open>max\<close> are unsigned, and
  \<open>n\<close> is not empty when the body starts.
\<close>

definition pull_turn :: "nat \<Rightarrow> kmbuf \<times> chain \<times> int \<times> nat \<times> mbstate
   \<Rightarrow> (kmbuf \<times> chain \<times> int \<times> nat \<times> mbstate) + (kmbuf \<times> chain \<times> int \<times> mbstate) option" where
  "pull_turn max_protohdr x = (case x of (m, ch, n, space, s) \<Rightarrow>
     (case ch of [] \<Rightarrow> Inr None
      | c # cs \<Rightarrow>
         let cnt = min (min (max (unat (word_of_int n :: u32)) max_protohdr) space) (m_len c) in
         (case m_read s c 0 cnt of
            None \<Rightarrow> Inr None
          | Some b \<Rightarrow> (case m_store b (m_len m) m of
              None \<Rightarrow> Inr None
            | Some m \<Rightarrow>
               let n = n - int cnt; m = m\<lparr>m_len := m_len m + cnt\<rparr>; space = space - cnt;
                   (ch, s) = (if m_len c - cnt \<noteq> 0
                              then (c\<lparr>m_len := m_len c - cnt, m_data := m_data c + cnt\<rparr> # cs, s)
                              else m_free (c # cs) s)
               in if 0 < n \<and> ch \<noteq> [] then Inl (m, ch, n, space, s) else Inr (Some (m, ch, n, s))))))"

definition pull_loop :: "nat \<Rightarrow> kmbuf \<Rightarrow> chain \<Rightarrow> int \<Rightarrow> mbstate \<Rightarrow> (chain option \<times> mbstate) option" where
  "pull_loop max_protohdr m ch n s =
     (case run_fuel (pull_turn max_protohdr) (length ch + 1) (m, ch, n, MLEN - (m_data m + m_len m), s) of
        None \<Rightarrow> None
      | Some None \<Rightarrow> None
      | Some (Some (m, ch, n, s)) \<Rightarrow>
          if 0 < n then Some (None, (m_freem ch (MFREE m s))\<lparr>MPFail := MPFail s + 1\<rparr>)
          else Some (Some (m # ch), s))"

definition m_pullup :: "menv \<Rightarrow> nat \<Rightarrow> chain \<Rightarrow> int \<Rightarrow> mbstate \<Rightarrow> (chain option \<times> mbstate) option" where
  "m_pullup E max_protohdr ch n s = (case ch of
      [] \<Rightarrow> None
    | m # ms \<Rightarrow>
       if \<not> m_isext m \<and> int (m_data m) + n < int MLEN \<and> ms \<noteq> [] then
         (if n \<le> int (m_len m) then Some (Some ch, s) else pull_loop max_protohdr m ms (n - int (m_len m)) s)
       else if int MHLEN < n then Some (None, (m_freem ch s)\<lparr>MPFail := MPFail s + 1\<rparr>)
       else (case m_get E (m_type m) s of
          (None, s) \<Rightarrow> Some (None, (m_freem ch s)\<lparr>MPFail := MPFail s + 1\<rparr>)
        | (Some new, s) \<Rightarrow>
            let new = new\<lparr>m_len := 0\<rparr>;
                new = (if m_ispkt m then M_COPY_PKTHDR new m else new);
                m = (if m_ispkt m then m\<lparr>m_ispkt := False\<rparr> else m)
            in pull_loop max_protohdr new (m # ms) n s))"

section \<open>Counting references\<close>

definition crefs :: "kmbuf list \<Rightarrow> nat \<Rightarrow> nat" where
  "crefs ms c = length (filter (\<lambda>m. m_isext m \<and> ext_buf m = c) ms)"

definition tcount :: "kmbuf list \<Rightarrow> nat \<Rightarrow> nat" where
  "tcount ms t = length (filter (\<lambda>m. m_type m = t) ms)"

definition cset :: "kmbuf list \<Rightarrow> nat set" where
  "cset ms = {c. 0 < crefs ms c}"

lemma crefs_simps [simp]: "crefs [] c = 0" "crefs (m # ms) c = (if m_isext m \<and> ext_buf m = c then 1 else 0) + crefs ms c"
  "crefs (ms @ ns) c = crefs ms c + crefs ns c"
  by (simp_all add: crefs_def)

lemma tcount_simps [simp]: "tcount [] t = 0" "tcount (m # ms) t = (if m_type m = t then 1 else 0) + tcount ms t"
  "tcount (ms @ ns) t = tcount ms t + tcount ns t"
  by (simp_all add: tcount_def)

lemma cset_eq: "cset ms = ext_buf ` {m \<in> set ms. m_isext m}"
  by (auto simp: cset_def crefs_def filter_empty_conv)

lemma finite_cset [simp]: "finite (cset ms)"
  by (simp add: cset_eq)

definition mok :: "mbstate \<Rightarrow> kmbuf \<Rightarrow> bool" where
  "mok s m = (length (m_dat m) = MLEN \<and> 0 < m_type m \<and>
     (if m_isext m then m_data m + m_len m \<le> MCLBYTES \<and> length (mcl s (ext_buf m)) = MCLBYTES
      else m_data m + m_len m \<le> MLEN \<and> (m_ispkt m \<longrightarrow> PKTHDR \<le> m_data m)))"

text \<open>The counters agree with the mbufs \<open>ms\<close> that are in use.\<close>

definition counts_ok :: "kmbuf list \<Rightarrow> mbstate \<Rightarrow> bool" where
  "counts_ok ms s = ((\<forall>c. mclrefcnt s c = of_nat (crefs ms c) \<and> crefs ms c < 256)
     \<and> distinct (mclfree s) \<and> set (mclfree s) \<inter> cset ms = {} \<and> m_clfree s = of_nat (length (mclfree s))
     \<and> m_clusters s = of_nat (length (mclfree s) + card (cset ms))
     \<and> (\<forall>t > 0. m_mtypes s t = of_nat (tcount ms t)) \<and> m_mtypes s 0 = of_nat (length (mbuffree s)) \<and> length (mbuffree s) \<le> MAX_MBFREE)"

definition minv :: "kmbuf list \<Rightarrow> mbstate \<Rightarrow> bool" where
  "minv h s = (counts_ok (h @ concat (queued s)) s \<and> (\<forall>m \<in> set h. mok s m) \<and> (\<forall>ch \<in> set (queued s). \<forall>m \<in> set ch. mok s m)
     \<and> (\<forall>m \<in> set (mbuffree s). length (m_dat m) = MLEN))"

lemma counts_ok_cong:
  assumes "\<And>c. crefs ms c = crefs ns c" and "\<And>t. tcount ms t = tcount ns t"
  shows "counts_ok ms s = counts_ok ns s"
  using assms by (simp add: counts_ok_def cset_def)

lemma minv_cong:
  assumes "minv h s" and "\<And>c. crefs h c = crefs h' c" and "\<And>t. tcount h t = tcount h' t" and "\<And>m. m \<in> set h' \<Longrightarrow> mok s m"
  shows "minv h' s"
  using assms counts_ok_cong [of "h @ concat (queued s)" "h' @ concat (queued s)" s] by (auto simp: minv_def)

lemma minv_perm: "minv h s \<Longrightarrow> mset h = mset h' \<Longrightarrow> minv h' s"
proof (rule minv_cong)
  assume i: "minv h s" and m: "mset h = mset h'"
  show "crefs h c = crefs h' c" for c unfolding crefs_def by (metis m mset_filter size_mset)
  show "tcount h t = tcount h' t" for t unfolding tcount_def by (metis m mset_filter size_mset)
  show "mok s m" if "m \<in> set h'" for m using i that m by (auto simp: minv_def dest: mset_eq_setD)
qed

text \<open>An mbuf changed, but not what it refers to.\<close>

lemma minv_replace:
  assumes "minv (m # h) s" and "m_isext m' = m_isext m" and "ext_buf m' = ext_buf m" and "m_type m' = m_type m" and "mok s m'"
  shows "minv (m' # h) s"
  by (rule minv_cong [OF assms(1)]) (use assms in \<open>auto simp: minv_def\<close>)

section \<open>Releasing\<close>

text \<open>What releasing mbufs leaves alone.\<close>

definition spared :: "mbstate \<Rightarrow> mbstate \<Rightarrow> bool" where
  "spared s t = (mcl t = mcl s \<and> queued t = queued s \<and> requests t = requests s \<and> MCFail t = MCFail s \<and> MPFail t = MPFail s)"

lemma spared_refl [simp]: "spared s s" and spared_trans: "spared s t \<Longrightarrow> spared t u \<Longrightarrow> spared s u"
  by (simp_all add: spared_def)

lemma mok_mcl: "mcl t = mcl s \<Longrightarrow> mok t m = mok s m"
  by (simp add: mok_def)

lemma of_nat_eq_0_u8: "n < 256 \<Longrightarrow> ((of_nat n :: u8) = 0) = (n = 0)"
  using word_of_nat_eq_0_iff [of n, where ?'a = 8] by (auto dest: nat_dvd_not_less)

lemma MCLFREE_counts:
  assumes ok: "counts_ok (m # ms) s" and e: "m_isext m" and t: "m_type m' = m_type m" "\<not> m_isext m'"
  shows "counts_ok (m' # ms) (MCLFREE (ext_buf m) s)"
proof -
  let ?c = "ext_buf m"
  have cnt: "\<And>c. mclrefcnt s c = of_nat (crefs (m # ms) c)" "\<And>c. crefs (m # ms) c < 256" using ok by (auto simp: counts_ok_def)
  have n: "mclrefcnt s ?c - 1 = of_nat (crefs ms ?c)" using cnt(1) [of ?c] e by simp
  have small: "crefs ms c < 256" for c using cnt(2) [of c] by simp
  have cs: "cset (m # ms) = insert ?c (cset ms)" "cset (m' # ms) = cset ms" using e t by (auto simp: cset_def)
  have ref: "mclrefcnt (MCLFREE ?c s) c = of_nat (crefs ms c)" for c
    using cnt(1) [of c] n by (auto simp: MCLFREE_def Let_def)
  have mt: "m_mtypes (MCLFREE ?c s) = m_mtypes s" "mbuffree (MCLFREE ?c s) = mbuffree s" "m_clusters (MCLFREE ?c s) = m_clusters s"
    by (simp_all add: MCLFREE_def Let_def)
  have ty: "tcount (m' # ms) = tcount (m # ms)" using t by (simp add: fun_eq_iff)
  have cr: "crefs (m' # ms) = crefs ms" using t by (simp add: fun_eq_iff)
  have disj: "set (mclfree s) \<inter> cset (m # ms) = {}" "distinct (mclfree s)" using ok by (auto simp: counts_ok_def)
  show ?thesis
  proof (cases "crefs ms ?c = 0")
    case True
    then have new: "?c \<notin> cset ms" by (simp add: cset_def)
    have "mclfree (MCLFREE ?c s) = ?c # mclfree s" "m_clfree (MCLFREE ?c s) = m_clfree s + 1"
      using n True by (simp_all add: MCLFREE_def Let_def)
    then show ?thesis using ok ref small mt new disj cs unfolding counts_ok_def ty cr by (auto simp: ac_simps)
  next
    case False
    then have "?c \<in> cset ms" by (simp add: cset_def)
    then have same: "cset (m # ms) = cset ms" using cs by auto
    have "mclfree (MCLFREE ?c s) = mclfree s" "m_clfree (MCLFREE ?c s) = m_clfree s"
      using n False of_nat_eq_0_u8 [OF small, of ?c] by (simp_all add: MCLFREE_def Let_def)
    then show ?thesis using ok ref small mt disj cs same unfolding counts_ok_def ty cr by auto
  qed
qed

lemma spared_MFREE: "spared s (MFREE m s)"
  by (simp add: spared_def MFREE_def MCLFREE_def count_type_def Let_def)

lemma count_down: "0 < m_type m \<Longrightarrow> counts_ok (m # ms) s \<Longrightarrow> \<not> m_isext m \<Longrightarrow> counts_ok ms (count_type (m_type m) (- 1) s)"
  by (auto simp: counts_ok_def count_type_def cset_def)

lemma MCLFREE_type: "MCLFREE c (count_type t d s) = count_type t d (MCLFREE c s)"
  by (simp add: MCLFREE_def count_type_def Let_def)

lemma cache_counts:
  assumes ok: "counts_ok ms s" and n: "unat (m_mtypes s 0) < MAX_MBFREE"
  shows "counts_ok ms (count_type 0 1 (s\<lparr>mbuffree := m # mbuffree s\<rparr>))"
proof -
  have "m_mtypes s 0 = of_nat (length (mbuffree s))" "length (mbuffree s) \<le> 32" using ok by (simp_all add: counts_ok_def MAX_MBFREE_def)
  then have "unat (m_mtypes s 0) = length (mbuffree s)" by (simp add: unsigned_of_nat take_bit_nat_eq_self)
  then show ?thesis using ok n by (auto simp: counts_ok_def count_type_def cset_def)
qed

lemma MFREE_inv:
  assumes inv: "minv (m # h) s"
  shows "minv h (MFREE m s)"
proof -
  let ?ms = "h @ concat (queued s)"
  have ok: "counts_ok (m # ?ms) s" and t: "0 < m_type m" using inv by (auto simp: minv_def mok_def)
  let ?s1 = "if m_isext m then MCLFREE (ext_buf m) s else s"
  have s1: "(if m_isext m then MCLFREE (ext_buf m) (count_type (m_type m) (- 1) s) else count_type (m_type m) (- 1) s)
      = count_type (m_type m) (- 1) ?s1" by (simp add: MCLFREE_type)
  have "counts_ok (m\<lparr>m_isext := False\<rparr> # ?ms) ?s1"
  proof (cases "m_isext m")
    case True
    then show ?thesis using MCLFREE_counts [OF ok True, of "m\<lparr>m_isext := False\<rparr>"] by simp
  next
    case False
    then have e: "m\<lparr>m_isext := False\<rparr> = m" by (cases m) simp
    show ?thesis unfolding e using ok False by simp
  qed
  from count_down [OF _ this] t have c1: "counts_ok ?ms (count_type (m_type m) (- 1) ?s1)" by simp
  let ?s2 = "count_type (m_type m) (- 1) ?s1"
  have F: "MFREE m s = (if unat (m_mtypes ?s2 0) < MAX_MBFREE then count_type 0 1 (?s2\<lparr>mbuffree := m # mbuffree ?s2\<rparr>) else ?s2)"
    unfolding MFREE_def Let_def s1 by simp
  have c: "counts_ok ?ms (MFREE m s)" unfolding F using c1 cache_counts [OF c1] by auto
  have free: "set (mbuffree (MFREE m s)) \<subseteq> insert m (set (mbuffree s))"
    unfolding F by (auto simp: count_type_def MCLFREE_def Let_def split: if_splits)
  have q: "queued (MFREE m s) = queued s" "mcl (MFREE m s) = mcl s" using spared_MFREE [of s m] by (simp_all add: spared_def)
  have m: "length (m_dat m) = MLEN" "\<forall>m \<in> set (mbuffree s). length (m_dat m) = MLEN" using inv by (auto simp: minv_def mok_def)
  have "\<forall>m \<in> set (mbuffree (MFREE m s)). length (m_dat m) = MLEN" using m free by auto
  moreover have "\<forall>m \<in> set h. mok s m" "\<forall>ch \<in> set (queued s). \<forall>m \<in> set ch. mok s m" using inv by (simp_all add: minv_def)
  ultimately show ?thesis unfolding minv_def q mok_mcl [OF q(2)] using c by simp
qed

lemma m_freem_inv: "minv (ch @ h) s \<Longrightarrow> minv h (m_freem ch s) \<and> spared s (m_freem ch s)"
proof (induction ch arbitrary: s)
  case (Cons m ch)
  then have "minv (ch @ h) (MFREE m s)" using MFREE_inv by simp
  from Cons.IH [OF this] show ?case using spared_MFREE [of s m] spared_trans by (auto simp: m_freem_def)
qed (simp add: m_freem_def)

lemma MFREE_queued: "MFREE m (s\<lparr>queued := q\<rparr>) = (MFREE m s)\<lparr>queued := q\<rparr>"
  by (simp add: MFREE_def MCLFREE_def count_type_def Let_def)

lemma m_freem_queued: "m_freem ch (s\<lparr>queued := q\<rparr>) = (m_freem ch s)\<lparr>queued := q\<rparr>"
  by (induction ch arbitrary: s) (simp_all add: m_freem_def MFREE_queued)

lemma m_freems_queued: "fold m_freem chs (s\<lparr>queued := q\<rparr>) = (fold m_freem chs s)\<lparr>queued := q\<rparr>"
  by (induction chs arbitrary: s) (simp_all add: m_freem_queued)

lemma queued_MFREE [simp]: "queued (MFREE m s) = queued s"
  using spared_MFREE [of s m] by (simp add: spared_def)

lemma queued_freem [simp]: "queued (m_freem ch s) = queued s"
  by (induction ch arbitrary: s) (simp_all add: m_freem_def)

lemma queued_freems [simp]: "queued (fold m_freem chs s) = queued s"
  by (induction chs arbitrary: s) simp_all

lemma m_freems_inv: "minv (concat chs @ h) s \<Longrightarrow> minv h (fold m_freem chs s) \<and> spared s (fold m_freem chs s)"
proof (induction chs arbitrary: s)
  case (Cons ch chs)
  then have f: "minv (concat chs @ h) (m_freem ch s)" "spared s (m_freem ch s)" using m_freem_inv [of ch "concat chs @ h"] by simp_all
  from Cons.IH [OF f(1)] show ?case using f(2) spared_trans by fastforce
qed simp

lemma minv_plain:
  assumes "mcl t = mcl s" "mclrefcnt t = mclrefcnt s" "mclfree t = mclfree s" "mbuffree t = mbuffree s" "m_mtypes t = m_mtypes s"
    "m_clusters t = m_clusters s" "m_clfree t = m_clfree s" "queued t = queued s"
  shows "minv h t = minv h s"
  using assms by (simp add: minv_def counts_ok_def mok_def)

lemma crefs_concat: "crefs (concat (filter P chs)) c + crefs (concat (filter (\<lambda>x. \<not> P x) chs)) c = crefs (concat chs) c"
  and tcount_concat: "tcount (concat (filter P chs)) t + tcount (concat (filter (\<lambda>x. \<not> P x) chs)) t = tcount (concat chs) t"
  by (induction chs) auto

text \<open>Draining the protocols keeps everything in hand.\<close>

definition after :: "mbstate \<Rightarrow> mbstate \<Rightarrow> bool" where
  "after s t = (mcl t = mcl s \<and> MCFail t = MCFail s \<and> MPFail t = MPFail s \<and> set (queued t) \<subseteq> set (queued s)
     \<and> (\<forall>c. crefs (concat (queued t)) c \<le> crefs (concat (queued s)) c))"

lemma after_refl [simp]: "after s s" and after_trans: "after s t \<Longrightarrow> after t u \<Longrightarrow> after s u"
  unfolding after_def by auto (meson order_trans)

lemma m_reclaim_inv:
  assumes inv: "minv h s"
  shows "minv h (m_reclaim E s) \<and> after s (m_reclaim E s)"
proof -
  define P where "P = e_drop E (requests s)"
  let ?d = "filter P (queued s)" and ?k = "filter (\<lambda>ch. \<not> P ch) (queued s)"
  let ?s = "s\<lparr>requests := requests s + 1\<rparr>"
  have "crefs (h @ concat (queued s)) c = crefs ((concat ?d @ h) @ concat ?k) c" for c
    using crefs_concat [of P "queued s" c] by simp
  moreover have "tcount (h @ concat (queued s)) t = tcount ((concat ?d @ h) @ concat ?k) t" for t
    using tcount_concat [of P "queued s" t] by simp
  moreover have "counts_ok (h @ concat (queued s)) s" using inv by (simp add: minv_def)
  ultimately have "counts_ok ((concat ?d @ h) @ concat ?k) s" using counts_ok_cong by blast
  then have "minv (concat ?d @ h) (?s\<lparr>queued := ?k\<rparr>)"
    using inv by (auto simp: minv_def counts_ok_def mok_def)
  from m_freems_inv [OF this] have m: "minv h ((fold m_freem ?d ?s)\<lparr>queued := ?k\<rparr>)" "spared (?s\<lparr>queued := ?k\<rparr>) ((fold m_freem ?d ?s)\<lparr>queued := ?k\<rparr>)"
    unfolding m_freems_queued by simp_all
  let ?t = "fold m_freem ?d ?s"
  have r: "m_reclaim E s = ?t\<lparr>queued := ?k, m_drain := m_drain ?t + 1\<rparr>"
    by (simp add: m_reclaim_def Let_def P_def [symmetric])
  have "minv h (m_reclaim E s)" using m(1) unfolding r by (subst minv_plain [of _ "?t\<lparr>queued := ?k\<rparr>"]) simp_all
  moreover have "crefs (concat ?k) c \<le> crefs (concat (queued s)) c" for c using crefs_concat [of P "queued s" c] by linarith
  then have "after s (m_reclaim E s)" using m(2) unfolding r after_def by (auto simp: spared_def)
  ultimately show ?thesis by blast
qed

section \<open>Allocation\<close>

definition menv_ok :: "menv \<Rightarrow> bool" where
  "menv_ok E = ((\<forall>k m. e_mbuf E k = Some m \<longrightarrow> length (m_dat m) = MLEN) \<and> (\<forall>k. length (e_fill E k) = MCLBYTES))"

text \<open>A new mbuf is in use, whatever its length is set to.\<close>

definition fresh_mbuf :: "bool \<Rightarrow> nat \<Rightarrow> kmbuf \<Rightarrow> bool" where
  "fresh_mbuf hdr t m = (m_type m = t \<and> \<not> m_isext m \<and> m_ispkt m = hdr \<and> m_data m = (if hdr then PKTHDR else 0) \<and> m_flags m = 0
     \<and> length (m_dat m) = MLEN)"

lemma count_up: "0 < t \<Longrightarrow> m_type m = t \<Longrightarrow> \<not> m_isext m \<Longrightarrow> counts_ok ms s \<Longrightarrow> counts_ok (m # ms) (count_type t 1 s)"
  by (auto simp: counts_ok_def count_type_def cset_def)

lemma mb_get1_inv:
  assumes inv: "minv h s" and E: "menv_ok E" and t: "0 < t" and g: "mb_get1 hdr E t s = (r, s')"
  shows "(case r of None \<Rightarrow> minv h s' \<and> (\<exists>k. e_mbuf E k = None) | Some m \<Rightarrow> fresh_mbuf hdr t m \<and> minv (m\<lparr>m_len := 0\<rparr> # h) s') \<and> after s s'"
proof -
  obtain r0 s0 where a: "MBALLOC E s = (r0, s0)" by fastforce
  have s0: "minv h s0 \<and> after s s0 \<and> (case r0 of None \<Rightarrow> \<exists>k. e_mbuf E k = None | Some m \<Rightarrow> length (m_dat m) = MLEN)"
  proof (cases "mbuffree s")
    case Nil
    then have "s0 = s\<lparr>requests := requests s + 1\<rparr>" "r0 = e_mbuf E (requests s)" using a by (simp_all add: MBALLOC_def)
    then show ?thesis using inv minv_plain [of "s\<lparr>requests := requests s + 1\<rparr>" s] E
      by (auto simp: after_def menv_ok_def split: option.splits)
  next
    case (Cons m ms)
    then have s: "s0 = count_type 0 (- 1) (s\<lparr>mbuffree := ms\<rparr>)" "r0 = Some m" using a by (simp_all add: MBALLOC_def)
    have "counts_ok (h @ concat (queued s)) s0" using inv Cons unfolding s minv_def counts_ok_def count_type_def by auto
    then show ?thesis using inv Cons unfolding s minv_def after_def by (auto simp: count_type_def mok_def)
  qed
  show ?thesis
  proof (cases r0)
    case None
    then show ?thesis using g a s0 by (simp add: mb_get1_def)
  next
    case (Some m)
    let ?m = "mb_setup hdr t m"
    have r: "r = Some ?m" "s' = count_type t 1 s0" using g a Some by (simp_all add: mb_get1_def)
    have "fresh_mbuf hdr t ?m" using s0 Some by (simp add: fresh_mbuf_def mb_setup_def)
    moreover have "counts_ok (?m\<lparr>m_len := 0\<rparr> # h @ concat (queued s0)) s'"
      unfolding r using s0 t by (intro count_up) (simp_all add: mb_setup_def minv_def)
    moreover have "mok s' (?m\<lparr>m_len := 0\<rparr>)" using s0 Some t by (simp add: mok_def mb_setup_def PKTHDR_def MLEN_def)
    moreover have "after s s'" "queued s' = queued s0" "mcl s' = mcl s0" "mbuffree s' = mbuffree s0"
      using s0 by (simp_all add: r after_def count_type_def)
    ultimately show ?thesis using s0 r mok_mcl [of s' s0] by (auto simp: minv_def)
  qed
qed

lemma mb_get_inv:
  assumes inv: "minv h s" and E: "menv_ok E" and t: "0 < t" and g: "mb_get hdr E t s = (r, s')"
  shows "(case r of None \<Rightarrow> minv h s' \<and> (\<exists>k. e_mbuf E k = None) | Some m \<Rightarrow> fresh_mbuf hdr t m \<and> minv (m\<lparr>m_len := 0\<rparr> # h) s') \<and> after s s'"
proof -
  obtain r1 s1 where g1: "mb_get1 hdr E t s = (r1, s1)" by fastforce
  note i1 = mb_get1_inv [OF inv E t g1]
  show ?thesis
  proof (cases r1)
    case None
    then have "minv h s1" "after s s1" using i1 by simp_all
    note rc = m_reclaim_inv [OF this(1), of E]
    have "mb_get1 hdr E t (m_reclaim E s1) = (r, s')" using g g1 None by (simp add: mb_get_def m_retry_def)
    from mb_get1_inv [OF _ E t this] rc \<open>after s s1\<close> show ?thesis using after_trans by blast
  next
    case (Some m)
    then have e: "r = r1" "s' = s1" using g g1 by (simp_all add: mb_get_def)
    show ?thesis unfolding e by (rule i1)
  qed
qed

lemma m_get_cases:
  assumes "minv h s" and "menv_ok E" and "0 < t"
  obtains s' where "m_get E t s = (None, s')" "minv h s'" "after s s'" "\<exists>k. e_mbuf E k = None"
  | m s' where "m_get E t s = (Some m, s')" "fresh_mbuf False t m" "minv (m\<lparr>m_len := 0\<rparr> # h) s'" "after s s'"
proof -
  obtain r s' where g: "mb_get False E t s = (r, s')" by fastforce
  show ?thesis using mb_get_inv [OF assms g] g that by (cases r) (auto simp: m_get_def)
qed

lemma minv_fresh:
  assumes "minv (m\<lparr>m_len := 0\<rparr> # h) s" and "m_isext m' = m_isext m" and "ext_buf m' = ext_buf m" and "m_type m' = m_type m" and "mok s m'"
  shows "minv (m' # h) s"
  by (rule minv_replace [OF assms(1)]) (use assms in simp_all)

section \<open>Bytes\<close>

lemma cbytes_simps [simp]: "cbytes s [] = []" "cbytes s (m # ms) = mbytes s m @ cbytes s ms" "cbytes s (ms @ ns) = cbytes s ms @ cbytes s ns"
  by (simp_all add: cbytes_def)

lemma cbytes_mcl: "mcl t = mcl s \<Longrightarrow> cbytes t ch = cbytes s ch"
proof -
  assume "mcl t = mcl s"
  then have "mbytes t = mbytes s" by (simp add: mbytes_def fun_eq_iff)
  then show ?thesis by (simp add: cbytes_def)
qed

lemma mbytes_length: "mok s m \<Longrightarrow> length (mbytes s m) = m_len m"
  by (auto simp: mok_def mbytes_def split: if_splits)

lemma cbytes_length: "\<forall>m \<in> set ch. mok s m \<Longrightarrow> length (cbytes s ch) = sum_list (map m_len ch)"
  by (induction ch) (simp_all add: mbytes_length)

lemma m_read_ok:
  assumes "mok s m" and "off + n \<le> m_len m"
  shows "m_read s m off n = Some (take n (drop off (mbytes s m)))"
proof -
  let ?b = "if m_isext m then mcl s (ext_buf m) else m_dat m"
  have "m_data m + off + n \<le> length ?b" using assms by (auto simp: mok_def)
  moreover have "take n (drop off (take (m_len m) (drop (m_data m) ?b))) = take n (drop (m_data m + off) ?b)"
    using assms(2) by (simp add: drop_take add.commute min_absorb1)
  ultimately show ?thesis by (simp add: m_read_def mbytes_def Let_def)
qed

lemma m_store_ok:
  assumes "mok s m" and "\<not> m_isext m" and "m_data m + m_len m + length b \<le> MLEN"
  shows "\<exists>m'. m_store b (m_len m) m = Some m' \<and> m' = m\<lparr>m_dat := m_dat m'\<rparr> \<and> length (m_dat m') = MLEN
     \<and> mbytes s (m'\<lparr>m_len := m_len m + length b\<rparr>) = mbytes s m @ b"
proof -
  let ?i = "m_data m + m_len m"
  have l: "length (m_dat m) = MLEN" "m_ispkt m \<longrightarrow> PKTHDR \<le> ?i" using assms by (auto simp: mok_def)
  let ?d = "take ?i (m_dat m) @ b @ drop (?i + length b) (m_dat m)"
  have s: "m_store b (m_len m) m = Some (m\<lparr>m_dat := ?d\<rparr>)" using assms(3) l(2) by (simp add: m_store_def Let_def)
  have "take (m_len m + length b) (drop (m_data m) ?d) = take (m_len m) (drop (m_data m) (m_dat m)) @ b"
    using assms(3) l(1) by (simp add: drop_take)
  then show ?thesis using s assms l(1) by (auto simp: mbytes_def)
qed

section \<open>Copying a chain\<close>

lemma m_skip_ok:
  assumes "\<forall>m \<in> set ch. mok s m" and "off \<le> length (cbytes s ch)"
  shows "\<exists>off' ms. m_skip off ch = Some (off', ms) \<and> (\<exists>ps. ch = ps @ ms) \<and> drop off (cbytes s ch) = drop off' (cbytes s ms)
     \<and> (off' = 0 \<or> (\<exists>m r. ms = m # r \<and> off' < m_len m)) \<and> (off = 0 \<longrightarrow> off' = 0 \<and> ms = ch)"
  using assms
proof (induction off ch rule: m_skip.induct)
  case (2 off m ms)
  show ?case
  proof (cases "off = 0 \<or> off < m_len m")
    case True
    then show ?thesis by auto
  next
    case False
    have l: "length (mbytes s m) = m_len m" using "2.prems" by (simp add: mbytes_length)
    then have "off - m_len m \<le> length (cbytes s ms)" using "2.prems" False by simp
    from "2.IH" [OF False _ this] "2.prems" obtain off' ms' where
      i: "m_skip (off - m_len m) ms = Some (off', ms')" "\<exists>ps. ms = ps @ ms'" "drop (off - m_len m) (cbytes s ms) = drop off' (cbytes s ms')"
      "off' = 0 \<or> (\<exists>m r. ms' = m # r \<and> off' < m_len m)" by auto
    moreover have "drop off (cbytes s (m # ms)) = drop (off - m_len m) (cbytes s ms)" using l False by simp
    moreover have "\<exists>ps. m # ms = ps @ ms'" using i(2) by (metis append_Cons)
    ultimately show ?thesis using False by auto
  qed
qed simp

text \<open>One more reference to a cluster that is in use.\<close>

lemma ref_counts:
  assumes ok: "counts_ok (m # ms) s" and m: "\<not> m_isext m" "m_isext m'" "m_type m' = m_type m" "ext_buf m' \<in> cset ms"
    and room: "crefs ms (ext_buf m') + 1 < 256"
  shows "counts_ok (m' # ms) (s\<lparr>mclrefcnt := (mclrefcnt s)(ext_buf m' := mclrefcnt s (ext_buf m') + 1)\<rparr>)"
proof -
  have cs: "cset (m' # ms) = cset ms" "cset (m # ms) = cset ms" using m by (auto simp: cset_def)
  have ty: "tcount (m' # ms) = tcount (m # ms)" using m by (simp add: fun_eq_iff)
  show ?thesis using ok m room unfolding counts_ok_def cs ty by auto
qed

lemma m_store_len: "m_store b off (m\<lparr>m_len := n\<rparr>) = map_option (\<lambda>m. m\<lparr>m_len := n\<rparr>) (m_store b off m)"
  by (simp add: m_store_def Let_def)

lemma fresh_store:
  assumes new: "\<not> m_isext new" "length (m_dat new) = MLEN" "0 < m_type new" "m_data new + length b \<le> MLEN" "m_ispkt new \<longrightarrow> PKTHDR \<le> m_data new"
  shows "\<exists>d. m_store b 0 (new\<lparr>m_len := length b\<rparr>) = Some (new\<lparr>m_len := length b, m_dat := d\<rparr>) \<and> mok s (new\<lparr>m_len := length b, m_dat := d\<rparr>)
     \<and> mbytes s (new\<lparr>m_len := length b, m_dat := d\<rparr>) = b"
proof -
  have "mok s (new\<lparr>m_len := 0\<rparr>)" using new by (auto simp: mok_def)
  from m_store_ok [OF this, of b] new obtain m' where
    m': "m_store b 0 (new\<lparr>m_len := 0\<rparr>) = Some m'" "m' = new\<lparr>m_len := 0, m_dat := m_dat m'\<rparr>" "length (m_dat m') = MLEN"
      "mbytes s (m'\<lparr>m_len := length b\<rparr>) = mbytes s (new\<lparr>m_len := 0\<rparr>) @ b" by auto
  obtain d where d: "d = m_dat m'" by simp
  have e: "m'\<lparr>m_len := length b\<rparr> = new\<lparr>m_len := length b, m_dat := d\<rparr>" by (subst m'(2)) (simp add: d)
  have "m_store b 0 (new\<lparr>m_len := length b\<rparr>) = Some (new\<lparr>m_len := length b, m_dat := d\<rparr>)"
    using m_store_len [where b = b and off = 0 and m = "new\<lparr>m_len := 0\<rparr>" and n = "length b"] m'(1) e by simp
  moreover have "mbytes s (new\<lparr>m_len := length b, m_dat := d\<rparr>) = b" using m'(4) unfolding e by (simp add: mbytes_def)
  moreover have "mok s (new\<lparr>m_len := length b, m_dat := d\<rparr>)" using new m'(3) by (simp add: mok_def d)
  ultimately show ?thesis by blast
qed

definition copied :: "bool \<Rightarrow> int \<Rightarrow> int \<Rightarrow> kmbuf \<Rightarrow> kmbuf \<Rightarrow> bool" where
  "copied copyhdr off0 n m new = (copyhdr \<longrightarrow> m_ispkt new \<and> rcvif (m_pkthdr new) = rcvif (m_pkthdr m)
     \<and> len (m_pkthdr new) = (if n = M_COPYALL then len (m_pkthdr m) - off0 else n))"

lemma copy_one_ok:
  assumes inv: "minv (new\<lparr>m_len := 0\<rparr> # h) s" and new: "fresh_mbuf False (m_type m) new" and m: "m \<in> set h" and off: "off \<le> m_len m" and n: "0 < n"
    and hdr: "copyhdr \<longrightarrow> m_ispkt m"
    and room: "m_isext m \<Longrightarrow> crefs (h @ concat (queued s)) (ext_buf m) + 1 < 256"
  shows "\<exists>new' s'. copy_one off0 copyhdr n off m new s = Some (new', s') \<and> minv (new' # h) s' \<and> mcl s' = mcl s \<and> queued s' = queued s \<and> after s s'
     \<and> mbytes s new' = take (nat n) (drop off (mbytes s m)) \<and> m_len new' = min (nat n) (m_len m - off) \<and> copied copyhdr off0 n m new'
     \<and> m_isext new' = m_isext m \<and> (m_isext m \<longrightarrow> ext_buf new' = ext_buf m)"
proof -
  have mok: "mok s m" "mok s (new\<lparr>m_len := 0\<rparr>)" using inv m by (simp_all add: minv_def)
  let ?k = "min (nat n) (m_len m - off)"
  have k: "nat (min n (int (m_len m) - int off)) = ?k" using off by (simp add: min_def nat_diff_distrib)
  define new1 where "new1 = (if copyhdr then
     (let new = M_COPY_PKTHDR new m in new\<lparr>m_pkthdr := (m_pkthdr new)\<lparr>len := (if n = M_COPYALL then len (m_pkthdr new) - off0 else n)\<rparr>\<rparr>) else new)"
  have n1: "\<not> m_isext new1" "length (m_dat new1) = MLEN" "m_type new1 = m_type m" "0 < m_type m" "m_ispkt new1 = copyhdr"
      "m_data new1 = (if copyhdr then PKTHDR else 0)" "copied copyhdr off0 n m new1"
    using new mok hdr by (auto simp: new1_def fresh_mbuf_def M_COPY_PKTHDR_def Let_def copied_def mok_def)
  have bytes: "take ?k (drop off (mbytes s m)) = take (nat n) (drop off (mbytes s m))"
    using mbytes_length [OF mok(1)] by (simp add: min_def)
  have one: "copy_one off0 copyhdr n off m new s = (let new = new1\<lparr>m_len := ?k\<rparr> in
      if m_isext m then Some (new\<lparr>m_data := m_data m + off, ext_buf := ext_buf m, m_isext := True\<rparr>,
          s\<lparr>mclrefcnt := (mclrefcnt s)(ext_buf m := mclrefcnt s (ext_buf m) + 1)\<rparr>)
      else (case m_read s m off (m_len new) of None \<Rightarrow> None | Some b \<Rightarrow> map_option (\<lambda>new. (new, s)) (m_store b 0 new)))"
    unfolding copy_one_def k new1_def Let_def by (rule refl)
  show ?thesis
  proof (cases "m_isext m")
    case True
    let ?n = "new1\<lparr>m_len := ?k, m_data := m_data m + off, ext_buf := ext_buf m, m_isext := True\<rparr>"
    let ?s = "s\<lparr>mclrefcnt := (mclrefcnt s)(ext_buf m := mclrefcnt s (ext_buf m) + 1)\<rparr>"
    have in_use: "ext_buf m \<in> cset (h @ concat (queued s))" using m True by (auto simp: cset_eq)
    have "counts_ok (?n # h @ concat (queued s)) ?s"
      using ref_counts [of "new\<lparr>m_len := 0\<rparr>" "h @ concat (queued s)" s ?n] inv new n1(3) in_use room [OF True]
      by (auto simp: minv_def fresh_mbuf_def)
    moreover have ok: "mok ?s ?n" using mok(1) True n1 off by (auto simp: mok_def)
    ultimately have "minv (?n # h) ?s" using inv mok_mcl [of ?s s] by (auto simp: minv_def)
    moreover have "mbytes s ?n = take ?k (drop off (mbytes s m))"
      using True off by (simp add: mbytes_def drop_take min_def add.commute)
    ultimately show ?thesis using one True bytes n1(7) by (simp add: Let_def after_def copied_def)
  next
    case False
    let ?b = "take ?k (drop off (mbytes s m))"
    have rd: "m_read s m off ?k = Some ?b" using m_read_ok [OF mok(1), of off ?k] off by simp
    have lb: "length ?b = ?k" using mbytes_length [OF mok(1)] by simp
    have "m_data new1 \<le> m_data m" "m_data m + m_len m \<le> MLEN" using mok(1) False n1(6) hdr by (auto simp: mok_def)
    moreover have "?k \<le> m_len m" by simp
    ultimately have "m_data new1 + length ?b \<le> MLEN" unfolding lb by linarith
    from fresh_store [OF n1(1,2) _ this, of s] n1 lb obtain d where
      d: "m_store ?b 0 (new1\<lparr>m_len := ?k\<rparr>) = Some (new1\<lparr>m_len := ?k, m_dat := d\<rparr>)" "mok s (new1\<lparr>m_len := ?k, m_dat := d\<rparr>)"
        "mbytes s (new1\<lparr>m_len := ?k, m_dat := d\<rparr>) = ?b" by auto
    have "minv (new1\<lparr>m_len := ?k, m_dat := d\<rparr> # h) s"
    proof (rule minv_cong [OF inv])
      show "mok s x" if "x \<in> set (new1\<lparr>m_len := ?k, m_dat := d\<rparr> # h)" for x using that d(2) inv by (auto simp: minv_def)
    qed (use n1 new in \<open>auto simp: fresh_mbuf_def\<close>)
    then show ?thesis using one False rd d bytes n1(1,7) by (simp add: Let_def copied_def)
  qed
qed

lemma minv_app: "minv (m # tp @ h) s \<Longrightarrow> minv ((tp @ [m]) @ h) s"
  by (erule minv_perm) simp

lemma copy_loop_ok:
  assumes "minv (tp @ h) s" and "set ms \<subseteq> set h" and "copyhdr \<Longrightarrow> ms \<noteq> [] \<Longrightarrow> m_ispkt (hd ms)"
    and "off = 0 \<or> (\<exists>m r. ms = m # r \<and> off < m_len m)"
    and "0 \<le> n" and "length (cbytes s ms) < nat M_COPYALL" and "n \<le> int (length (drop off (cbytes s ms))) \<or> n = M_COPYALL"
    and "\<And>c. crefs (tp @ h @ concat (queued s)) c + crefs ms c < 256" and "menv_ok E"
  shows "\<exists>ok x s'. copy_loop E off0 copyhdr n off ms tp s = Some (ok, tp @ x, s') \<and> minv ((tp @ x) @ h) s' \<and> after s s'
     \<and> (if ok then cbytes s x = take (nat n) (drop off (cbytes s ms)) \<and> (x \<noteq> [] \<longrightarrow> copied copyhdr off0 n (hd ms) (hd x))
        else \<exists>k. e_mbuf E k = None)"
  using assms
proof (induction ms arbitrary: tp s copyhdr off n)
  case Nil
  then have "n \<le> 0 \<or> n = M_COPYALL" by auto
  then have "copy_loop E off0 copyhdr n off [] tp s = Some (True, tp @ [], s)" by auto
  then show ?case using Nil.prems(1) by (intro exI [of _ True] exI [of _ "[]"] exI [of _ s]) simp
next
  case (Cons m ms)
  note pre = Cons.prems
  show ?case
  proof (cases "n = 0")
    case True
    then have "copy_loop E off0 copyhdr n off (m # ms) tp s = Some (True, tp @ [], s)" by simp
    then show ?thesis using pre(1) True by (intro exI [of _ True] exI [of _ "[]"] exI [of _ s]) simp
  next
    case False
    then have n: "0 < n" using pre(5) by simp
    have mh: "m \<in> set (tp @ h)" "mok s m" using pre(1,2) by (auto simp: minv_def)
    have t: "0 < m_type m" using mh(2) by (simp add: mok_def)
    have off: "off \<le> m_len m" using pre(4) by auto
    show ?thesis
    proof (cases rule: m_get_cases [OF pre(1) pre(9) t])
      case (1 s1)
      then show ?thesis using n pre(1)
        by (intro exI [of _ False] exI [of _ "[]"] exI [of _ s1]) (simp add: not_le)
    next
      case (2 new s1)
      have q: "crefs (concat (queued s1)) c \<le> crefs (concat (queued s)) c" "mcl s1 = mcl s" for c using 2(4) by (simp_all add: after_def)
      have room: "m_isext m \<Longrightarrow> crefs ((tp @ h) @ concat (queued s1)) (ext_buf m) + 1 < 256"
        using pre(8) [of "ext_buf m"] q(1) [of "ext_buf m"] by simp
      obtain new' s2 where c: "copy_one off0 copyhdr n off m new s1 = Some (new', s2)" "minv (new' # tp @ h) s2" "mcl s2 = mcl s1" "queued s2 = queued s1"
          "after s1 s2" "mbytes s1 new' = take (nat n) (drop off (mbytes s1 m))" "m_len new' = min (nat n) (m_len m - off)" "copied copyhdr off0 n m new'"
          "m_isext new' = m_isext m" "m_isext m \<longrightarrow> ext_buf new' = ext_buf m"
        using copy_one_ok [OF 2(3,2) mh(1) off n _ room, of copyhdr off0] pre(3) by auto
      have af: "after s s2" using after_trans [OF 2(4) c(5)] .
      then have mcl: "mcl s2 = mcl s" by (simp add: after_def)
      then have bytes: "cbytes s2 y = cbytes s y" "mbytes s2 = mbytes s" "mbytes s1 = mbytes s" for y
        using cbytes_mcl [of s2 s] c(3) by (simp_all add: mbytes_def fun_eq_iff)
      let ?n = "if n \<noteq> M_COPYALL then n - int (m_len new') else n"
      have lm: "length (mbytes s m) = m_len m" using mh(2) by (rule mbytes_length)
      have step: "copy_loop E off0 copyhdr n off (m # ms) tp s = copy_loop E off0 False ?n 0 ms (tp @ [new']) s2"
        using n 2(1) c(1) by (simp add: not_le)
      have len: "length (cbytes s2 ms) < nat M_COPYALL" using pre(6) bytes(1) by simp
      have "?n \<le> int (length (drop 0 (cbytes s2 ms))) \<or> ?n = M_COPYALL" "0 \<le> ?n"
        using pre(7) c(7) lm off n unfolding bytes(1) by auto
      moreover have "crefs ((tp @ [new']) @ h @ concat (queued s2)) c + crefs ms c < 256" for c
        using pre(8) [of c] q(1) [of c] c(4,9,10) by auto
      ultimately obtain ok x s3 where r: "copy_loop E off0 False ?n 0 ms (tp @ [new']) s2 = Some (ok, (tp @ [new']) @ x, s3)"
          "minv (((tp @ [new']) @ x) @ h) s3" "after s2 s3"
          "if ok then cbytes s2 x = take (nat ?n) (drop 0 (cbytes s2 ms)) \<and> (x \<noteq> [] \<longrightarrow> copied False off0 ?n (hd ms) (hd x)) else \<exists>k. e_mbuf E k = None"
        using Cons.IH [OF minv_app [OF c(2)], of False 0 ?n] pre(2,9) len by auto
      have take: "take (nat n) (drop off (mbytes s m)) @ take (nat ?n) (cbytes s ms) = take (nat n) (drop off (mbytes s m @ cbytes s ms))"
      proof (cases "n = M_COPYALL")
        case True
        have "m_len m - off \<le> nat n" "length (cbytes s ms) \<le> nat n" "length (cbytes s ms) \<le> nat n + off - m_len m"
          using pre(6) lm True by auto
        then show ?thesis using True off lm by (simp add: take_all)
      next
        case False
        have "int (m_len new') = int (min (nat n) (m_len m - off))" using c(7) by simp
        then have "nat ?n = nat n - (m_len m - off)" using False n by (simp add: min_def) linarith
        then show ?thesis using off lm by simp
      qed
      show ?thesis
        by (rule exI [of _ ok], rule exI [of _ "new' # x"], rule exI [of _ s3])
          (use r step after_trans [OF af r(3)] c(6,8) take bytes in \<open>auto split: if_splits\<close>)
    qed
  qed
qed

lemma minv_MCFail [simp]: "minv h (s\<lparr>MCFail := x\<rparr>) = minv h s" "minv h (s\<lparr>MPFail := x\<rparr>) = minv h s"
  by (rule minv_plain; simp)+

lemma m_copym_ok:
  assumes inv: "minv h s" and ch: "set ch \<subseteq> set h" "ch \<noteq> []" and E: "menv_ok E"
    and len: "length (cbytes s ch) < nat M_COPYALL" and off: "0 \<le> off0" "off0 \<le> int (length (cbytes s ch))"
    and n: "0 \<le> n" "off0 + n \<le> int (length (cbytes s ch)) \<or> n = M_COPYALL"
    and room: "\<And>c. crefs (h @ concat (queued s)) c + crefs ch c < 256"
  shows "\<exists>r s'. m_copym E ch off0 n s = Some (r, s') \<and> mcl s' = mcl s \<and> set (queued s') \<subseteq> set (queued s) \<and>
     (case r of None \<Rightarrow> minv h s' \<and> ((\<exists>k. e_mbuf E k = None) \<or> take (nat n) (drop (nat off0) (cbytes s ch)) = [])
      | Some tp \<Rightarrow> minv (tp @ h) s' \<and> cbytes s' tp = take (nat n) (drop (nat off0) (cbytes s ch))
          \<and> copied (off0 = 0 \<and> m_ispkt (hd ch)) off0 n (hd ch) (hd tp))"
proof -
  let ?hdr = "off0 = 0 \<and> m_ispkt (hd ch)"
  have mok: "\<forall>m \<in> set ch. mok s m" using inv ch by (auto simp: minv_def)
  have le: "nat off0 \<le> length (cbytes s ch)" using off by linarith
  obtain off' ms ps where
    sk: "m_skip (nat off0) ch = Some (off', ms)" "ch = ps @ ms" "drop (nat off0) (cbytes s ch) = drop off' (cbytes s ms)"
      "off' = 0 \<or> (\<exists>m r. ms = m # r \<and> off' < m_len m)" "nat off0 = 0 \<longrightarrow> off' = 0 \<and> ms = ch"
    using m_skip_ok [OF mok le] by (elim exE conjE) (rule that)
  have "crefs ([] @ h @ concat (queued s)) c + crefs ms c < 256" for c using room [of c] sk(2) by simp
  moreover have "length (cbytes s ms) < nat M_COPYALL" "set ms \<subseteq> set h" using len sk(2) ch by auto
  moreover have "n \<le> int (length (drop off' (cbytes s ms))) \<or> n = M_COPYALL"
    using n(2) off unfolding sk(3) [symmetric] by auto
  ultimately obtain ok x s1 where c: "copy_loop E off0 ?hdr n off' ms [] s = Some (ok, x, s1)" "minv (x @ h) s1" "after s s1"
      "if ok then cbytes s x = take (nat n) (drop off' (cbytes s ms)) \<and> (x \<noteq> [] \<longrightarrow> copied ?hdr off0 n (hd ms) (hd x)) else \<exists>k. e_mbuf E k = None"
    using copy_loop_ok [of "[]" h s ms ?hdr off' n E off0] inv sk(4,5) n(1) E by auto
  have mcl: "mcl s1 = mcl s" "set (queued s1) \<subseteq> set (queued s)" using c(3) by (simp_all add: after_def)
  have call: "m_copym E ch off0 n s = (case (ok, x, s1) of
        (True, [], s) \<Rightarrow> Some (None, s\<lparr>MCFail := MCFail s + 1\<rparr>)
      | (True, tp, s) \<Rightarrow> Some (Some tp, s)
      | (False, tp, s) \<Rightarrow> Some (None, (m_freem tp s)\<lparr>MCFail := MCFail s + 1\<rparr>))"
    unfolding m_copym_def using off n(1) ch(2) sk(1) c(1) by (simp add: Let_def)
  show ?thesis
  proof (cases ok)
    case False
    have "minv h (m_freem x s1)" "spared s1 (m_freem x s1)" using m_freem_inv [OF c(2)] by simp_all
    then show ?thesis using call False c(4) mcl by (auto simp: spared_def)
  next
    case True
    show ?thesis
    proof (cases x)
      case Nil
      then show ?thesis using call True c(2,4) mcl sk(3) by simp
    next
      case (Cons a y)
      then have "m_copym E ch off0 n s = Some (Some x, s1)" using call True by simp
      moreover have "cbytes s1 x = take (nat n) (drop (nat off0) (cbytes s ch))" using c(4) True cbytes_mcl [OF mcl(1), of x] sk(3) by simp
      moreover have "copied ?hdr off0 n (hd ch) (hd x)" using c(4) True Cons sk(5) by (auto simp: copied_def)
      ultimately show ?thesis using c(2) mcl by simp
    qed
  qed
qed

lemma copydata_loop_ok:
  "\<forall>m \<in> set ch. mok s m \<Longrightarrow> off = 0 \<or> (\<exists>m r. ch = m # r \<and> off < m_len m) \<Longrightarrow>
   copydata_loop s n off ch = (if n \<le> length (drop off (cbytes s ch)) then Some (take n (drop off (cbytes s ch))) else None)"
proof (induction ch arbitrary: n off)
  case (Cons m ms)
  have off: "off \<le> m_len m" using Cons.prems(2) by auto
  have l: "length (mbytes s m) = m_len m" using Cons.prems(1) by (simp add: mbytes_length)
  let ?c = "min (m_len m - off) n"
  have rd: "m_read s m off ?c = Some (take ?c (drop off (mbytes s m)))" using m_read_ok [of s m off ?c] Cons.prems(1) off by simp
  have ih: "copydata_loop s (n - ?c) 0 ms = (if n - ?c \<le> length (cbytes s ms) then Some (take (n - ?c) (cbytes s ms)) else None)"
    using Cons.IH [of 0 "n - ?c", unfolded drop_0] Cons.prems(1) by (metis list.set_intros(2))
  show ?case
  proof (cases "n = 0")
    case False
    have "take ?c (drop off (mbytes s m)) @ take (n - ?c) (cbytes s ms) = take n (drop off (mbytes s m @ cbytes s ms))"
      using off l by (simp add: min_def)
    moreover have "(n - ?c \<le> length (cbytes s ms)) = (n \<le> length (drop off (mbytes s m @ cbytes s ms)))" using off l by auto
    ultimately show ?thesis using False rd ih off l by (simp add: Let_def)
  qed simp
qed simp

lemma m_copydata_ok:
  assumes "\<forall>m \<in> set ch. mok s m" and "0 \<le> off" and "0 \<le> n" and "off + n \<le> int (length (cbytes s ch))"
  shows "m_copydata s ch off n = Some (take (nat n) (drop (nat off) (cbytes s ch)))"
proof -
  have le: "nat off \<le> length (cbytes s ch)" using assms by linarith
  obtain off' ms ps where sk: "m_skip (nat off) ch = Some (off', ms)" "ch = ps @ ms" "drop (nat off) (cbytes s ch) = drop off' (cbytes s ms)"
      "off' = 0 \<or> (\<exists>m r. ms = m # r \<and> off' < m_len m)"
    using m_skip_ok [OF assms(1) le] by (elim exE conjE) (rule that)
  have "nat n \<le> length (drop off' (cbytes s ms))" using assms unfolding sk(3) [symmetric] by auto
  then show ?thesis using copydata_loop_ok [OF _ sk(4), of s "nat n"] assms sk by (simp add: m_copydata_def)
qed

section \<open>Joining chains\<close>

lemma cat_loop_ok:
  "minv (m # ns @ h) s \<Longrightarrow> \<exists>r s'. cat_loop m ns s = Some (r, s') \<and> minv (r @ h) s' \<and> spared s s' \<and> r \<noteq> [] \<and> cbytes s r = mbytes s m @ cbytes s ns"
proof (induction ns arbitrary: m s)
  case (Cons n ns)
  have ok: "mok s m" "mok s n" using Cons.prems by (auto simp: minv_def)
  show ?case
  proof (cases "m_isext m \<or> MLEN \<le> m_data m + m_len m + m_len n")
    case True
    then show ?thesis using Cons.prems by auto
  next
    case False
    have rd: "m_read s n 0 (m_len n) = Some (mbytes s n)"
      using m_read_ok [OF ok(2), of 0 "m_len n"] mbytes_length [OF ok(2)] by simp
    have ln: "length (mbytes s n) = m_len n" using ok(2) by (rule mbytes_length)
    obtain m' where m': "m_store (mbytes s n) (m_len m) m = Some m'" "m' = m\<lparr>m_dat := m_dat m'\<rparr>" "length (m_dat m') = MLEN"
        "mbytes s (m'\<lparr>m_len := m_len m + m_len n\<rparr>) = mbytes s m @ mbytes s n"
      using m_store_ok [OF ok(1), of "mbytes s n"] False ln by auto
    have f: "m_len m' = m_len m" "m_isext m' = m_isext m" "ext_buf m' = ext_buf m" "m_type m' = m_type m" "m_data m' = m_data m" "m_ispkt m' = m_ispkt m"
      by (subst m'(2), simp)+
    let ?m = "m'\<lparr>m_len := m_len m + m_len n\<rparr>"
    have mok: "mok s ?m" using ok(1) False m'(3) f by (auto simp: mok_def)
    have "minv (?m # (n # ns) @ h) s" by (rule minv_replace [OF Cons.prems]) (use f mok in simp_all)
    then have "minv (n # ?m # ns @ h) s" by (rule minv_perm) simp
    from MFREE_inv [OF this] have i: "minv (?m # ns @ h) (MFREE n s)" .
    from Cons.IH [OF this] obtain r t where r: "cat_loop ?m ns (MFREE n s) = Some (r, t)" "minv (r @ h) t" "spared (MFREE n s) t" "r \<noteq> []"
        "cbytes (MFREE n s) r = mbytes (MFREE n s) ?m @ cbytes (MFREE n s) ns" by blast
    have k: "spared s (MFREE n s)" by (rule spared_MFREE)
    then have "mcl (MFREE n s) = mcl s" by (simp add: spared_def)
    from cbytes_mcl [OF this] have "cbytes (MFREE n s) y = cbytes s y" "mbytes (MFREE n s) z = mbytes s z" for y z
      using k by (simp_all add: mbytes_def spared_def)
    then have "cbytes s r = mbytes s m @ cbytes s (n # ns)" using r(5) m'(4) by simp
    moreover have "cat_loop m (n # ns) s = Some (r, t)" using False rd m'(1) r(1) f(1) by (simp add: m_free_def)
    ultimately show ?thesis using r(2,4) spared_trans [OF k r(3)] by blast
  qed
qed simp

lemma m_cat_ok:
  assumes "minv (ch @ ns @ h) s" and "ch \<noteq> []"
  shows "\<exists>r s'. m_cat ch ns s = Some (r, s') \<and> minv (r @ h) s' \<and> spared s s' \<and> r \<noteq> [] \<and> cbytes s' r = cbytes s ch @ cbytes s ns"
proof -
  have e: "ch = butlast ch @ [last ch]" using assms(2) by simp
  have "minv (last ch # ns @ butlast ch @ h) s"
    by (rule minv_perm [OF assms(1)]) (subst e, simp)
  from cat_loop_ok [OF this] obtain r t where r: "cat_loop (last ch) ns s = Some (r, t)" "minv (r @ butlast ch @ h) t" "spared s t" "r \<noteq> []"
      "cbytes s r = mbytes s (last ch) @ cbytes s ns" by blast
  have "minv ((butlast ch @ r) @ h) t" by (rule minv_perm [OF r(2)]) simp
  moreover have "mcl t = mcl s" using r(3) by (simp add: spared_def)
  then have "cbytes t (butlast ch @ r) = cbytes s (butlast ch @ r)" by (rule cbytes_mcl)
  moreover have "cbytes s ch = cbytes s (butlast ch) @ mbytes s (last ch)" by (subst e) simp
  ultimately show ?thesis using r assms(2) by (simp add: m_cat_def)
qed

section \<open>Trimming\<close>

text \<open>Chains that refer to the same clusters, with the same types and packet headers.\<close>

definition like :: "kmbuf \<Rightarrow> kmbuf \<Rightarrow> bool" where
  "like m m' = (m_isext m' = m_isext m \<and> ext_buf m' = ext_buf m \<and> m_type m' = m_type m \<and> m_ispkt m' = m_ispkt m \<and> m_pkthdr m' = m_pkthdr m)"

lemma like_refl [simp]: "like m m" "list_all2 like ch ch"
  by (simp_all add: like_def list.rel_refl)

lemma like_upd [simp]: "like m (m\<lparr>m_len := k\<rparr>)" "like m (m\<lparr>m_len := k, m_data := d\<rparr>)"
  by (simp_all add: like_def)

lemma like_counts: "list_all2 like ch ch' \<Longrightarrow> crefs ch c = crefs ch' c \<and> tcount ch t = tcount ch' t"
  by (induction rule: list_all2_induct) (auto simp: like_def)

lemma mbytes_shorter: "k \<le> m_len m \<Longrightarrow> mbytes s (m\<lparr>m_len := k\<rparr>) = take k (mbytes s m)"
  by (simp add: mbytes_def min_absorb1)

lemma mbytes_later: "mbytes s (m\<lparr>m_len := m_len m - k, m_data := m_data m + k\<rparr>) = drop k (mbytes s m)"
  by (simp add: mbytes_def drop_take add.commute)

lemma mok_shorter: "mok s m \<Longrightarrow> k \<le> m_len m \<Longrightarrow> mok s (m\<lparr>m_len := k\<rparr>)"
  and mok_later: "mok s m \<Longrightarrow> k \<le> m_len m \<Longrightarrow> mok s (m\<lparr>m_len := m_len m - k, m_data := m_data m + k\<rparr>)"
  by (auto simp: mok_def)

lemma trim_head_ok:
  "\<forall>m \<in> set ch. mok s m \<Longrightarrow> \<exists>ch'. trim_head n ch = (n - length (cbytes s ch), ch') \<and> list_all2 like ch ch'
     \<and> (\<forall>m \<in> set ch'. mok s m) \<and> cbytes s ch' = drop n (cbytes s ch)"
proof (induction n ch rule: trim_head.induct)
  case (2 n m ms)
  have l: "length (mbytes s m) = m_len m" using "2.prems" by (simp add: mbytes_length)
  consider "n = 0" | "n \<noteq> 0" "m_len m \<le> n" | "n \<noteq> 0" "n < m_len m" by linarith
  then show ?case
  proof cases
    case 2
    obtain ms' where i: "trim_head (n - m_len m) ms = (n - m_len m - length (cbytes s ms), ms')" "list_all2 like ms ms'"
        "\<forall>m \<in> set ms'. mok s m" "cbytes s ms' = drop (n - m_len m) (cbytes s ms)"
      using "2.IH" [OF 2(1,2)] "2.prems" by auto
    have "mbytes s (m\<lparr>m_len := 0\<rparr>) = []" "mok s (m\<lparr>m_len := 0\<rparr>)" using "2.prems" mok_shorter [of s m 0] by (simp_all add: mbytes_def)
    then show ?thesis using i 2 l by simp
  next
    case 3
    then show ?thesis using l "2.prems" mok_later [of s m n] by (simp add: mbytes_later)
  qed (use "2.prems" in simp)
qed simp

lemma trim_tail_ok:
  "\<forall>m \<in> set ch. mok s m \<Longrightarrow> ch \<noteq> [] \<Longrightarrow> n \<le> length (cbytes s ch) \<Longrightarrow> \<exists>ch'. trim_tail n ch = Some ch' \<and> list_all2 like ch ch'
     \<and> (\<forall>m \<in> set ch'. mok s m) \<and> cbytes s ch' = take n (cbytes s ch)"
proof (induction n ch rule: trim_tail.induct)
  case (2 n m ms)
  have l: "length (mbytes s m) = m_len m" using "2.prems" by (simp add: mbytes_length)
  show ?case
  proof (cases "n \<le> m_len m")
    case True
    have e: "cbytes s (map (\<lambda>m. m\<lparr>m_len := 0\<rparr>) ms) = []" by (induction ms) (simp_all add: mbytes_def)
    have "\<forall>m \<in> set (map (\<lambda>m. m\<lparr>m_len := 0\<rparr>) ms). mok s m" using "2.prems" mok_shorter [of s _ 0] by auto
    moreover have "list_all2 like ms (map (\<lambda>m. m\<lparr>m_len := 0\<rparr>) ms)" by (simp add: list.rel_map like_def list.rel_refl)
    ultimately show ?thesis using True l e "2.prems" mok_shorter [of s m n] by (simp add: mbytes_shorter)
  next
    case False
    then have "ms \<noteq> []" using "2.prems"(3) l by auto
    moreover have "n - m_len m \<le> length (cbytes s ms)" using "2.prems"(3) l by simp
    ultimately obtain ms' where i: "trim_tail (n - m_len m) ms = Some ms'" "list_all2 like ms ms'"
        "\<forall>m \<in> set ms'. mok s m" "cbytes s ms' = take (n - m_len m) (cbytes s ms)"
      using "2.IH" [OF False] "2.prems" by auto
    then show ?thesis using False l "2.prems" by simp
  qed
qed simp

lemma set_pktlen_bytes [simp]: "mbytes s (set_pktlen g m) = mbytes s m" "mok s (set_pktlen g m) = mok s m" "m_len (set_pktlen g m) = m_len m"
  by (simp_all add: set_pktlen_def mbytes_def mok_def)

lemma on_hd_bytes [simp]: "cbytes s (on_hd (set_pktlen g) ch) = cbytes s ch" "crefs (on_hd (set_pktlen g) ch) c = crefs ch c"
  "tcount (on_hd (set_pktlen g) ch) t = tcount ch t" "(\<forall>m \<in> set (on_hd (set_pktlen g) ch). mok s m) = (\<forall>m \<in> set ch. mok s m)"
  "(on_hd (set_pktlen g) ch = []) = (ch = [])"
  by (cases ch; simp add: on_hd_def; simp add: set_pktlen_def)+

text \<open>The packet header of a chain, if it has one.\<close>

definition pktlen :: "chain \<Rightarrow> int option" where
  "pktlen ch = (if ch \<noteq> [] \<and> m_ispkt (hd ch) then Some (len (m_pkthdr (hd ch))) else None)"

lemma pktlen_like: "list_all2 like ch ch' \<Longrightarrow> pktlen ch' = pktlen ch"
  by (cases ch; cases ch') (auto simp: pktlen_def like_def)

lemma pktlen_on_hd: "pktlen (on_hd (set_pktlen g) ch) = map_option g (pktlen ch)"
  by (cases ch) (auto simp: pktlen_def on_hd_def set_pktlen_def)

lemma m_adj_ok:
  assumes mok: "\<forall>m \<in> set ch. mok s m" and ch: "ch \<noteq> []"
  defines "b \<equiv> cbytes s ch"
  shows "\<exists>ch'. m_adj ch q = Some ch' \<and> (\<forall>m \<in> set ch'. mok s m) \<and> ch' \<noteq> []
     \<and> (\<forall>c. crefs ch' c = crefs ch c) \<and> (\<forall>t. tcount ch' t = tcount ch t)
     \<and> cbytes s ch' = (if 0 \<le> q then drop (nat q) b else take (length b - nat (- q)) b)
     \<and> (pktlen ch = Some (int (length b)) \<longrightarrow> pktlen ch' = Some (int (length (cbytes s ch'))))"
proof (cases "0 \<le> q")
  case True
  obtain ch1 where t: "trim_head (nat q) ch = (nat q - length b, ch1)" "list_all2 like ch ch1" "\<forall>m \<in> set ch1. mok s m" "cbytes s ch1 = drop (nat q) b"
    using trim_head_ok [OF mok, of "nat q"] unfolding b_def by blast
  let ?r = "on_hd (set_pktlen (\<lambda>l. l - (q - int (nat q - length b)))) ch1"
  have "m_adj ch q = Some ?r" using ch True t(1) by (simp add: m_adj_def)
  moreover have "pktlen ?r = map_option (\<lambda>l. l - (q - int (nat q - length b))) (pktlen ch)" using pktlen_like [OF t(2)] by (simp add: pktlen_on_hd)
  moreover have "ch1 \<noteq> []" using t(2) ch by auto
  ultimately show ?thesis using True t like_counts [OF t(2)] by auto
next
  case False
  let ?n = "nat (- q)" and ?m = "last ch"
  have cnt: "sum_list (map m_len ch) = length b" using cbytes_length [OF mok] by (simp add: b_def)
  have e: "ch = butlast ch @ [?m]" using ch by simp
  have bb: "b = cbytes s (butlast ch) @ mbytes s ?m" unfolding b_def by (subst e) simp
  have mm: "mok s ?m" using mok ch by simp
  show ?thesis
  proof (cases "?n \<le> m_len ?m")
    case True
    let ?c = "butlast ch @ [?m\<lparr>m_len := m_len ?m - ?n\<rparr>]"
    let ?r = "on_hd (set_pktlen (\<lambda>l. l - int ?n)) ?c"
    have lk: "list_all2 like ch ?c" by (subst e) (rule list_all2_appendI, simp_all add: like_def)
    have "m_adj ch q = Some ?r" using ch False True by (simp add: m_adj_def Let_def)
    moreover have "cbytes s ?c = take (length b - ?n) b"
      using True mbytes_length [OF mm] by (simp add: bb mbytes_shorter)
    moreover have "\<forall>m \<in> set ?c. mok s m" using mok mm mok_shorter [OF mm, of "m_len ?m - ?n"] by (auto dest: in_set_butlastD)
    moreover have "?n \<le> length b" using True mbytes_length [OF mm] by (simp add: bb)
    ultimately show ?thesis using False like_counts [OF lk] pktlen_like [OF lk] by (auto simp: pktlen_on_hd)
  next
    case f: False
    let ?k = "length b - ?n"
    let ?c = "on_hd (set_pktlen (\<lambda>_. int ?k)) ch"
    have c: "\<forall>m \<in> set ?c. mok s m" "?c \<noteq> []" "?k \<le> length (cbytes s ?c)" using mok ch by (simp_all add: b_def)
    obtain r where r: "trim_tail ?k ?c = Some r" "list_all2 like ?c r" "\<forall>m \<in> set r. mok s m" "cbytes s r = take ?k (cbytes s ?c)"
      using trim_tail_ok [OF c] by blast
    have "m_adj ch q = Some r" using ch False f r(1) by (simp add: m_adj_def Let_def cnt)
    moreover have "pktlen r = map_option (\<lambda>_. int ?k) (pktlen ch)" using pktlen_like [OF r(2)] by (simp add: pktlen_on_hd)
    moreover have "r \<noteq> []" using r(2) ch by auto
    ultimately show ?thesis using False r(3,4) like_counts [OF r(2)] by (simp add: b_def)
  qed
qed

lemma m_adj_inv:
  assumes inv: "minv (ch @ h) s" and ch: "ch \<noteq> []" and a: "m_adj ch q = Some ch'"
  shows "minv (ch' @ h) s"
proof -
  have "\<forall>m \<in> set ch. mok s m" using inv by (simp add: minv_def)
  from m_adj_ok [OF this ch, of q] a have r: "\<forall>m \<in> set ch'. mok s m" "\<forall>c. crefs ch' c = crefs ch c" "\<forall>t. tcount ch' t = tcount ch t" by auto
  show ?thesis by (rule minv_cong [OF inv]) (use r inv in \<open>auto simp: minv_def\<close>)
qed

section \<open>Making data contiguous\<close>

text \<open>
  The loop while it runs: \<open>b\<close> are all the bytes, \<open>n\<close> of them are still wanted and fit; \<open>d\<close> is where the
  data of the first mbuf starts.
\<close>

definition pull_inv :: "mbstate \<Rightarrow> kmbuf list \<Rightarrow> u8 list \<Rightarrow> int \<Rightarrow> bool \<times> pkthdr \<Rightarrow> kmbuf \<times> chain \<times> int \<times> nat \<times> mbstate \<Rightarrow> bool" where
  "pull_inv s0 h b tot pk x = (case x of (m, ch, n, space, s) \<Rightarrow>
     minv (m # ch @ h) s \<and> spared s0 s \<and> mbytes s0 m @ cbytes s0 ch = b \<and> \<not> m_isext m \<and> ch \<noteq> []
     \<and> space = MLEN - (m_data m + m_len m) \<and> 0 \<le> n \<and> n \<le> int space \<and> int (m_len m) + n = tot \<and> (m_ispkt m, m_pkthdr m) = pk)"

definition pull_good :: "mbstate \<Rightarrow> kmbuf list \<Rightarrow> u8 list \<Rightarrow> int \<Rightarrow> bool \<times> pkthdr \<Rightarrow> (kmbuf \<times> chain \<times> int \<times> mbstate) option \<Rightarrow> bool" where
  "pull_good s0 h b tot pk r = (case r of None \<Rightarrow> False | Some (m, ch, n, s) \<Rightarrow>
     minv (m # ch @ h) s \<and> spared s0 s \<and> mbytes s0 m @ cbytes s0 ch = b \<and> \<not> m_isext m \<and> (0 < n \<longrightarrow> ch = []) \<and> int (m_len m) + n = tot \<and> (m_ispkt m, m_pkthdr m) = pk)"

lemma pull_turn_ok:
  assumes inv: "pull_inv s0 h b tot pk (m, ch, n, space, s)"
  shows "\<exists>m' ch' n' s'. spared s0 s' \<and> minv (m' # ch' @ h) s' \<and> mbytes s0 m' @ cbytes s0 ch' = b \<and> \<not> m_isext m' \<and> int (m_len m') + n' = tot \<and> (m_ispkt m', m_pkthdr m') = pk
     \<and> n' \<le> int (MLEN - (m_data m' + m_len m')) \<and> (0 < n' \<longrightarrow> ch' = tl ch)
     \<and> pull_turn mp (m, ch, n, space, s) = (if 0 < n' \<and> ch' \<noteq> [] then Inl (m', ch', n', MLEN - (m_data m' + m_len m'), s') else Inr (Some (m', ch', n', s')))"
proof -
  have i: "minv (m # ch @ h) s" "spared s0 s" "mbytes s0 m @ cbytes s0 ch = b" "\<not> m_isext m" "ch \<noteq> []"
      "space = MLEN - (m_data m + m_len m)" "0 \<le> n" "n \<le> int space" "int (m_len m) + n = tot" "(m_ispkt m, m_pkthdr m) = pk"
    using inv by (simp_all add: pull_inv_def)
  obtain c cs where ch: "ch = c # cs" using i(5) by (cases ch) auto
  have mcl: "mcl s = mcl s0" using i(2) by (simp add: spared_def)
  then have bytes: "mbytes s = mbytes s0" by (simp add: mbytes_def fun_eq_iff)
  have ok: "mok s m" "mok s c" using i(1) ch by (auto simp: minv_def)
  have sp: "m_data m + m_len m \<le> MLEN" using ok(1) i(4) by (simp add: mok_def)
  have "n < 4294967296" using i(8) by (simp add: i(6) MLEN_def)
  then have un: "unat (word_of_int n :: u32) = nat n" using i(7) by (simp add: unsigned_of_int take_bit_int_eq_self)
  define k where "k = min (min (max (nat n) mp) space) (m_len c)"
  have k: "k \<le> space" "k \<le> m_len c" by (simp_all add: k_def)
  let ?b = "take k (mbytes s c)"
  have lb: "length ?b = k" using mbytes_length [OF ok(2)] k(2) by simp
  have rd: "m_read s c 0 k = Some ?b" using m_read_ok [OF ok(2), of 0 k] k(2) by simp
  have "m_data m + m_len m + length ?b \<le> MLEN" using k(1) i(6) lb sp by linarith
  from m_store_ok [OF ok(1) i(4) this] obtain m1 where
    m1: "m_store ?b (m_len m) m = Some m1" "m1 = m\<lparr>m_dat := m_dat m1\<rparr>" "length (m_dat m1) = MLEN" "mbytes s (m1\<lparr>m_len := m_len m + k\<rparr>) = mbytes s m @ ?b"
    unfolding lb by blast
  have f: "m_len m1 = m_len m" "m_isext m1 = m_isext m" "ext_buf m1 = ext_buf m" "m_type m1 = m_type m" "m_data m1 = m_data m" "m_ispkt m1 = m_ispkt m" "m_pkthdr m1 = m_pkthdr m"
    by (subst m1(2), simp)+
  let ?m = "m1\<lparr>m_len := m_len m + k\<rparr>"
  have mokm: "mok s ?m" using ok(1) i(4,6) k(1) sp m1(3) f by (auto simp: mok_def)
  have i1: "minv (?m # ch @ h) s" by (rule minv_replace [OF i(1)]) (use f mokm in simp_all)
  define y where "y = (if m_len c - k \<noteq> 0 then (c\<lparr>m_len := m_len c - k, m_data := m_data c + k\<rparr> # cs, s) else m_free (c # cs) s)"
  obtain ch' s' where y: "y = (ch', s')" by fastforce
  have "minv (?m # ch' @ h) s' \<and> spared s s' \<and> cbytes s ch' = drop k (mbytes s c) @ cbytes s cs"
  proof (cases "m_len c - k = 0")
    case True
    then have e: "ch' = cs" "s' = MFREE c s" using y by (simp_all add: y_def m_free_def)
    have "minv (c # ?m # cs @ h) s" by (rule minv_perm [OF i1]) (simp add: ch)
    from MFREE_inv [OF this] show ?thesis using e spared_MFREE [of s c] True k(2) mbytes_length [OF ok(2)] by simp
  next
    case False
    let ?c = "c\<lparr>m_len := m_len c - k, m_data := m_data c + k\<rparr>"
    have e: "ch' = ?c # cs" "s' = s" using y False by (simp_all add: y_def)
    have "minv (c # ?m # cs @ h) s" by (rule minv_perm [OF i1]) (simp add: ch)
    then have "minv (?c # ?m # cs @ h) s" by (rule minv_replace) (use mok_later [OF ok(2) k(2)] in simp_all)
    then have "minv (?m # ch' @ h) s'" unfolding e by (rule minv_perm) simp
    then show ?thesis by (simp add: e mbytes_later)
  qed
  then have r: "minv (?m # ch' @ h) s'" "spared s s'" "cbytes s ch' = drop k (mbytes s c) @ cbytes s cs" by auto
  have "mbytes s0 ?m @ cbytes s0 ch' = mbytes s0 m @ (take k (mbytes s0 c) @ drop k (mbytes s0 c)) @ cbytes s0 cs"
    using m1(4) r(3) cbytes_mcl [OF mcl] bytes by simp
  then have b': "mbytes s0 ?m @ cbytes s0 ch' = b" using i(3) unfolding append_take_drop_id ch by simp
  have rest: "0 < n - int k \<longrightarrow> ch' = tl ch"
  proof
    assume "0 < n - int k"
    then have "m_len c = k" using i(8) unfolding k_def by linarith
    then show "ch' = tl ch" using y by (simp add: y_def m_free_def ch)
  qed
  have space: "MLEN - (m_data ?m + m_len ?m) = space - k" using i(6) f by simp
  have turn: "pull_turn mp (m, ch, n, space, s) = (if 0 < n - int k \<and> ch' \<noteq> [] then Inl (?m, ch', n - int k, space - k, s') else Inr (Some (?m, ch', n - int k, s')))"
    unfolding pull_turn_def ch prod.case list.case un k_def [symmetric] Let_def rd option.case m1(1) y_def [symmetric] y f(1) by simp
  show ?thesis
    by (rule exI [of _ ?m], rule exI [of _ ch'], rule exI [of _ "n - int k"], rule exI [of _ s'])
      (use r b' rest turn space i f k(1) spared_trans [OF i(2) r(2)] in \<open>auto\<close>)
qed

interpretation pull: ranked_loop "pull_turn mp" "pull_inv s0 h b tot pk" "\<lambda>(m, ch, n, space, s). length ch" "pull_good s0 h b tot pk" for mp s0 h b tot pk
proof
  fix x x' assume inv: "pull_inv s0 h b tot pk x" and t: "pull_turn mp x = Inl x'"
  obtain m ch n space s where x: "x = (m, ch, n, space, s)" by (cases x)
  have "ch \<noteq> []" using inv by (simp add: x pull_inv_def)
  then show "pull_inv s0 h b tot pk x' \<and> (case x' of (m, ch, n, space, s) \<Rightarrow> length ch) < (case x of (m, ch, n, space, s) \<Rightarrow> length ch)"
    using pull_turn_ok [OF inv [unfolded x], of mp] t by (auto simp: x pull_inv_def split: if_splits)
next
  fix x r assume inv: "pull_inv s0 h b tot pk x" and t: "pull_turn mp x = Inr r"
  obtain m ch n space s where x: "x = (m, ch, n, space, s)" by (cases x)
  show "pull_good s0 h b tot pk r"
    using pull_turn_ok [OF inv [unfolded x], of mp] t by (auto simp: x pull_good_def split: if_splits)
qed

lemma pull_loop_ok:
  assumes inv: "minv (m # ch @ h) s" and m: "\<not> m_isext m" "ch \<noteq> []" and n: "0 \<le> n" "n \<le> int (MLEN - (m_data m + m_len m))"
  shows "\<exists>r s'. pull_loop mp m ch n s = Some (r, s') \<and> mcl s' = mcl s \<and> queued s' = queued s \<and>
     (case r of None \<Rightarrow> minv h s' \<and> length (mbytes s m @ cbytes s ch) < m_len m + nat n
      | Some ch' \<Rightarrow> minv (ch' @ h) s' \<and> cbytes s' ch' = mbytes s m @ cbytes s ch \<and> ch' \<noteq> [] \<and> \<not> m_isext (hd ch') \<and> m_len m + nat n \<le> m_len (hd ch')
          \<and> m_ispkt (hd ch') = m_ispkt m \<and> m_pkthdr (hd ch') = m_pkthdr m)"
proof -
  let ?b = "mbytes s m @ cbytes s ch" and ?t = "int (m_len m) + n" and ?pk = "(m_ispkt m, m_pkthdr m)"
  have "pull_inv s h ?b ?t ?pk (m, ch, n, MLEN - (m_data m + m_len m), s)" using assms by (simp add: pull_inv_def)
  from pull.run_returns [OF this, of "length ch + 1" mp] obtain m1 ch1 n1 s1 where
    r: "run_fuel (pull_turn mp) (length ch + 1) (m, ch, n, MLEN - (m_data m + m_len m), s) = Some (Some (m1, ch1, n1, s1))"
      "minv (m1 # ch1 @ h) s1" "spared s s1" "mbytes s m1 @ cbytes s ch1 = ?b" "\<not> m_isext m1" "0 < n1 \<longrightarrow> ch1 = []" "int (m_len m1) + n1 = ?t"
      "m_ispkt m1 = m_ispkt m" "m_pkthdr m1 = m_pkthdr m"
    by (auto simp: pull_good_def split: option.splits)
  have mcl: "mcl s1 = mcl s" "queued s1 = queued s" using r(3) by (simp_all add: spared_def)
  have b1: "cbytes s1 (m1 # ch1) = ?b" using r(4) cbytes_mcl [OF mcl(1), of "m1 # ch1"] by simp
  show ?thesis
  proof (cases "0 < n1")
    case True
    then have c: "ch1 = []" using r(6) by simp
    have "mok s1 m1" using r(2) by (simp add: minv_def)
    then have "length ?b = m_len m1" using mbytes_length b1 c by fastforce
    moreover have "m_len m1 < m_len m + nat n" using r(7) True n(1) by linarith
    moreover have "minv h (MFREE m1 s1)" "spared s1 (MFREE m1 s1)" using MFREE_inv [of m1 h s1] r(2) c spared_MFREE by simp_all
    ultimately show ?thesis using r(1) True c mcl by (simp add: pull_loop_def m_freem_def spared_def)
  next
    case False
    then have "m_len m + nat n \<le> m_len m1" using r(7) n(1) by linarith
    then show ?thesis using r False mcl b1 by (simp add: pull_loop_def)
  qed
qed

lemma new_head:
  assumes inv: "minv (new\<lparr>m_len := 0\<rparr> # (m # ms) @ h) s" and new: "fresh_mbuf False (m_type m) new" and d: "PKTHDR \<le> d \<or> \<not> m_ispkt m" "d + k \<le> MLEN"
  defines "new' \<equiv> (if m_ispkt m then M_COPY_PKTHDR new m else new)\<lparr>m_data := d, m_len := k\<rparr>"
    and "m' \<equiv> (if m_ispkt m then m\<lparr>m_ispkt := False\<rparr> else m)"
  shows "minv (new' # (m' # ms) @ h) s" "m_ispkt new' = m_ispkt m" "m_ispkt m \<longrightarrow> m_pkthdr new' = m_pkthdr m" "mbytes s m' = mbytes s m" "\<not> m_isext new'"
proof -
  have mok: "mok s m" using inv by (simp add: minv_def)
  have "mok s new'" using new mok d by (auto simp: new'_def mok_def fresh_mbuf_def M_COPY_PKTHDR_def)
  moreover have "mok s m'" using mok by (auto simp: m'_def mok_def)
  ultimately show "minv (new' # (m' # ms) @ h) s"
    by (intro minv_cong [OF inv]) (use inv new in \<open>auto simp: new'_def m'_def minv_def fresh_mbuf_def M_COPY_PKTHDR_def\<close>)
  show "m_ispkt new' = m_ispkt m" "m_ispkt m \<longrightarrow> m_pkthdr new' = m_pkthdr m" "mbytes s m' = mbytes s m" "\<not> m_isext new'"
    using new by (auto simp: new'_def m'_def fresh_mbuf_def M_COPY_PKTHDR_def mbytes_def)
qed

lemma m_pullup_ok:
  assumes inv: "minv (ch @ h) s" and ch: "ch \<noteq> []" and E: "menv_ok E" and n: "0 \<le> n"
  shows "\<exists>r s'. m_pullup E mp ch n s = Some (r, s') \<and> mcl s' = mcl s \<and> set (queued s') \<subseteq> set (queued s) \<and>
     (case r of None \<Rightarrow> minv h s' \<and> (int (length (cbytes s ch)) < n \<or> int MHLEN < n \<or> (\<exists>k. e_mbuf E k = None))
      | Some ch' \<Rightarrow> minv (ch' @ h) s' \<and> cbytes s' ch' = cbytes s ch \<and> ch' \<noteq> [] \<and> \<not> m_isext (hd ch') \<and> n \<le> int (m_len (hd ch')) \<and> pktlen ch' = pktlen ch)"
proof -
  obtain m ms where c: "ch = m # ms" using ch by (cases ch) auto
  have mok: "mok s m" using inv c by (simp add: minv_def)
  have free: "minv h (m_freem ch t) \<and> mcl (m_freem ch t) = mcl t \<and> queued (m_freem ch t) = queued t" if "minv (ch @ h) t" for t
    using m_freem_inv [OF that] by (simp add: spared_def)
  consider "\<not> m_isext m \<and> int (m_data m) + n < int MLEN \<and> ms \<noteq> []" "n \<le> int (m_len m)"
    | "\<not> m_isext m \<and> int (m_data m) + n < int MLEN \<and> ms \<noteq> []" "\<not> n \<le> int (m_len m)"
    | "\<not> (\<not> m_isext m \<and> int (m_data m) + n < int MLEN \<and> ms \<noteq> [])" "int MHLEN < n"
    | "\<not> (\<not> m_isext m \<and> int (m_data m) + n < int MLEN \<and> ms \<noteq> [])" "\<not> int MHLEN < n" by blast
  then show ?thesis
  proof cases
    case 1
    then have "m_pullup E mp ch n s = Some (Some ch, s)" by (simp add: m_pullup_def c)
    then show ?thesis using inv 1 c by simp
  next
    case 2
    have eq: "m_pullup E mp ch n s = pull_loop mp m ms (n - int (m_len m)) s"
      unfolding m_pullup_def c list.case if_P [OF 2(1)] if_not_P [OF 2(2)] ..
    have "m_len m + nat (n - int (m_len m)) = nat n" using 2 by linarith
    moreover obtain r s' where r: "pull_loop mp m ms (n - int (m_len m)) s = Some (r, s')" "mcl s' = mcl s" "queued s' = queued s"
       "case r of None \<Rightarrow> minv h s' \<and> length (mbytes s m @ cbytes s ms) < m_len m + nat (n - int (m_len m))
        | Some ch' \<Rightarrow> minv (ch' @ h) s' \<and> cbytes s' ch' = mbytes s m @ cbytes s ms \<and> ch' \<noteq> [] \<and> \<not> m_isext (hd ch')
            \<and> m_len m + nat (n - int (m_len m)) \<le> m_len (hd ch') \<and> m_ispkt (hd ch') = m_ispkt m \<and> m_pkthdr (hd ch') = m_pkthdr m"
      using pull_loop_ok [of m ms h s "n - int (m_len m)" mp] inv c 2 by auto
    ultimately show ?thesis using eq n by (cases r) (auto simp: c pktlen_def)
  next
    case 3
    have "m_pullup E mp ch n s = Some (None, (m_freem ch s)\<lparr>MPFail := MPFail s + 1\<rparr>)"
      unfolding m_pullup_def c list.case if_not_P [OF 3(1)] if_P [OF 3(2)] ..
    then show ?thesis using free [OF inv] 3 by simp
  next
    case 4
    have t: "0 < m_type m" using mok by (simp add: mok_def)
    show ?thesis
    proof (cases rule: m_get_cases [OF inv E t])
      case (1 s1)
      then have "m_pullup E mp ch n s = Some (None, (m_freem ch s1)\<lparr>MPFail := MPFail s1 + 1\<rparr>)"
        unfolding m_pullup_def c list.case if_not_P [OF 4(1)] if_not_P [OF 4(2)] by simp
      then show ?thesis using free [OF 1(2)] 1 by (simp add: after_def)
    next
      case (2 new s1)
      let ?n = "(if m_ispkt m then M_COPY_PKTHDR new m else new)" and ?m = "if m_ispkt m then m\<lparr>m_ispkt := False\<rparr> else m"
      let ?d = "if m_ispkt m then PKTHDR else 0"
      have e: "?n\<lparr>m_data := ?d, m_len := 0\<rparr> = (if m_ispkt m then M_COPY_PKTHDR (new\<lparr>m_len := 0\<rparr>) m else new\<lparr>m_len := 0\<rparr>)"
        using 2(2) by (cases new) (simp add: M_COPY_PKTHDR_def fresh_mbuf_def)
      let ?new = "?n\<lparr>m_data := ?d, m_len := 0\<rparr>"
      have nh: "minv (?new # (?m # ms) @ h) s1" "m_ispkt ?new = m_ispkt m" "m_ispkt m \<longrightarrow> m_pkthdr ?new = m_pkthdr m" "mbytes s1 ?m = mbytes s1 m" "\<not> m_isext ?new"
        using new_head [of new m ms h s1 ?d 0] 2(2,3) c by (simp_all add: PKTHDR_def MLEN_def)
      have eq: "m_pullup E mp ch n s = pull_loop mp ?new (?m # ms) n s1"
        unfolding m_pullup_def c list.case if_not_P [OF 4(1)] if_not_P [OF 4(2)] 2(1) prod.case option.case Let_def e ..
      have q: "mcl s1 = mcl s" "set (queued s1) \<subseteq> set (queued s)" using 2(4) by (simp_all add: after_def)
      have bs: "mbytes s1 ?new @ cbytes s1 (?m # ms) = cbytes s ch"
        using nh(4) cbytes_mcl [OF q(1), of ch] by (simp add: c mbytes_def [of s1 ?new])
      have len0: "m_len ?new = 0" by simp
      have pl: "pktlen ch = (if m_ispkt m then Some (len (m_pkthdr m)) else None)" by (simp add: pktlen_def c)
      have "n \<le> int (MLEN - (m_data ?new + m_len ?new))" using 4(2) by (simp add: MLEN_def MHLEN_def PKTHDR_def)
      from pull_loop_ok [OF nh(1,5) _ n this, of mp] obtain r s' where
        r: "pull_loop mp ?new (?m # ms) n s1 = Some (r, s')" "mcl s' = mcl s1" "queued s' = queued s1"
         "case r of None \<Rightarrow> minv h s' \<and> length (cbytes s ch) < nat n
          | Some ch' \<Rightarrow> minv (ch' @ h) s' \<and> cbytes s' ch' = cbytes s ch \<and> ch' \<noteq> [] \<and> \<not> m_isext (hd ch')
              \<and> nat n \<le> m_len (hd ch') \<and> m_ispkt (hd ch') = m_ispkt ?new \<and> m_pkthdr (hd ch') = m_pkthdr ?new"
        unfolding bs len0 add_0 by auto
      show ?thesis
      proof (cases r)
        case None
        then show ?thesis using eq r q n by auto
      next
        case (Some ch')
        then have "pktlen ch' = (if m_ispkt m then Some (len (m_pkthdr m)) else None)" using r(4) nh(2,3) by (auto simp: pktlen_def)
        then have "pktlen ch' = pktlen ch" using pl by simp
        then show ?thesis using Some eq r q n by auto
      qed
    qed
  qed
qed

section \<open>Space in front\<close>

lemma m_prepend_ok:
  assumes inv: "minv (ch @ h) s" and ch: "ch \<noteq> []" and E: "menv_ok E" and n: "n \<le> MHLEN"
  shows "\<exists>r s'. m_prepend E ch n s = (r, s') \<and> mcl s' = mcl s \<and>
     (case r of None \<Rightarrow> minv h s' \<and> (\<exists>k. e_mbuf E k = None)
      | Some ch' \<Rightarrow> minv (ch' @ h) s' \<and> ch' \<noteq> [] \<and> m_len (hd ch') = n \<and> cbytes s' (tl ch') = cbytes s ch \<and> pktlen ch' = pktlen ch)"
proof -
  obtain m ms where c: "ch = m # ms" using ch by (cases ch) auto
  have t: "0 < m_type m" using inv by (simp add: c minv_def mok_def)
  show ?thesis
  proof (cases rule: m_get_cases [OF inv E t])
    case (1 s1)
    then show ?thesis using m_freem_inv [of ch h s1] by (auto simp: m_prepend_def c after_def spared_def)
  next
    case (2 new s1)
    let ?n = "if m_ispkt m then M_COPY_PKTHDR new m else new" and ?m = "if m_ispkt m then m\<lparr>m_ispkt := False\<rparr> else m"
    let ?d = "m_data ?n + (if n < MHLEN then 4 * ((MHLEN - n) div 4) else 0)"
    have d0: "m_data ?n = (if m_ispkt m then PKTHDR else 0)" using 2(2) by (simp add: fresh_mbuf_def M_COPY_PKTHDR_def)
    have "4 * ((MHLEN - n) div 4) \<le> MHLEN - n" by simp
    then have "?d + n \<le> MLEN" "PKTHDR \<le> ?d \<or> \<not> m_ispkt m" using n d0 by (auto simp: MLEN_def MHLEN_def PKTHDR_def)
    then have nh: "minv (?n\<lparr>m_data := ?d, m_len := n\<rparr> # (?m # ms) @ h) s1" "m_ispkt (?n\<lparr>m_data := ?d, m_len := n\<rparr>) = m_ispkt m"
        "m_ispkt m \<longrightarrow> m_pkthdr (?n\<lparr>m_data := ?d, m_len := n\<rparr>) = m_pkthdr m" "mbytes s1 ?m = mbytes s1 m"
      using new_head [of new m ms h s1 ?d n] 2(2,3) c by simp_all
    have "m_prepend E ch n s = (Some (?n\<lparr>m_data := ?d, m_len := n\<rparr> # ?m # ms), s1)"
      using 2(1) by (simp add: m_prepend_def c MH_ALIGN_def Let_def)
    moreover have "cbytes s1 (?m # ms) = cbytes s ch" using nh(4) cbytes_mcl [of s1 s ch] 2(4) by (simp add: c after_def)
    ultimately show ?thesis using nh 2(4) by (auto simp: c pktlen_def after_def)
  qed
qed

lemma M_PREPEND_ok:
  assumes inv: "minv (ch @ h) s" and ch: "ch \<noteq> []" and E: "menv_ok E" and n: "n \<le> MHLEN"
  shows "\<exists>r s'. M_PREPEND E ch n s = (r, s') \<and> mcl s' = mcl s \<and>
     (case r of None \<Rightarrow> minv h s' \<and> (\<exists>k. e_mbuf E k = None)
      | Some ch' \<Rightarrow> minv (ch' @ h) s' \<and> drop n (cbytes s' ch') = cbytes s ch \<and> pktlen ch' = map_option (\<lambda>l. l + int n) (pktlen ch))"
proof -
  obtain m ms where c: "ch = m # ms" using ch by (cases ch) auto
  have mok: "mok s m" using inv by (simp add: c minv_def)
  let ?up = "\<lambda>m. if m_ispkt m then m\<lparr>m_pkthdr := (m_pkthdr m)\<lparr>len := len (m_pkthdr m) + int n\<rparr>\<rparr> else m"
  have hd_up: "?up (hd x) # tl x = on_hd (set_pktlen (\<lambda>l. l + int n)) x" if "x \<noteq> []" for x
    using that by (cases x) (simp_all add: on_hd_def set_pktlen_def)
  have inv_up: "minv (on_hd (set_pktlen (\<lambda>l. l + int n)) x @ h) t" if "minv (x @ h) t" for x t
  proof (rule minv_cong [OF that])
    have "\<forall>m \<in> set x. mok t m" "\<forall>m \<in> set h. mok t m" using that by (simp_all add: minv_def)
    then have "\<forall>m \<in> set (on_hd (set_pktlen (\<lambda>l. l + int n)) x). mok t m" "\<forall>m \<in> set h. mok t m" by simp_all
    then show "mok t m" if "m \<in> set (on_hd (set_pktlen (\<lambda>l. l + int n)) x @ h)" for m
      using that unfolding set_append by blast
  qed simp_all
  show ?thesis
  proof (cases "int n \<le> M_LEADINGSPACE m")
    case True
    let ?m = "m\<lparr>m_data := m_data m - n, m_len := m_len m + n\<rparr>"
    have d: "n \<le> m_data m" "\<not> m_isext m \<or> n = 0" "m_ispkt m \<and> \<not> m_isext m \<longrightarrow> n + PKTHDR \<le> m_data m"
      using True by (auto simp: M_LEADINGSPACE_def split: if_splits)
    then have ok: "mok s ?m" using mok by (auto simp: mok_def)
    have "minv (m # ms @ h) s" using inv c by simp
    then have i: "minv ((?m # ms) @ h) s" by (simp, rule minv_replace) (use ok in simp_all)
    have "drop n (mbytes s ?m) = mbytes s m" using d(1) by (simp add: mbytes_def drop_take)
    moreover have "length (mbytes s ?m) = m_len m + n" using mbytes_length [OF ok] by simp
    ultimately have b: "drop n (cbytes s (?m # ms)) = cbytes s ch" by (simp add: c)
    have "M_PREPEND E ch n s = (Some (on_hd (set_pktlen (\<lambda>l. l + int n)) (?m # ms)), s)"
      unfolding M_PREPEND_def Let_def c list.sel if_P [OF True] prod.case option.map by (simp add: on_hd_def set_pktlen_def)
    then show ?thesis using inv_up [OF i] b by (simp add: pktlen_on_hd) (simp add: pktlen_def c)
  next
    case False
    obtain r s' where r: "m_prepend E ch n s = (r, s')" "mcl s' = mcl s"
       "case r of None \<Rightarrow> minv h s' \<and> (\<exists>k. e_mbuf E k = None)
        | Some ch' \<Rightarrow> minv (ch' @ h) s' \<and> ch' \<noteq> [] \<and> m_len (hd ch') = n \<and> cbytes s' (tl ch') = cbytes s ch \<and> pktlen ch' = pktlen ch"
      using m_prepend_ok [OF assms] by blast
    have P: "M_PREPEND E ch n s = (map_option (\<lambda>x. ?up (hd x) # tl x) r, s')"
      unfolding M_PREPEND_def Let_def using False r(1) by (simp add: c)
    show ?thesis
    proof (cases r)
      case None
      then show ?thesis using P r by simp
    next
      case (Some ch')
      then have r': "minv (ch' @ h) s'" "ch' \<noteq> []" "m_len (hd ch') = n" "cbytes s' (tl ch') = cbytes s ch" "pktlen ch' = pktlen ch" using r(3) by simp_all
      obtain x xs where x: "ch' = x # xs" using r'(2) by (cases ch') auto
      have "length (mbytes s' x) = n" using r'(1,3) mbytes_length [of s' x] by (simp add: x minv_def)
      then have "drop n (cbytes s' ch') = cbytes s ch" using r'(4) by (simp add: x)
      moreover have "M_PREPEND E ch n s = (Some (on_hd (set_pktlen (\<lambda>l. l + int n)) ch'), s')"
        unfolding P Some using hd_up [OF r'(2)] by simp
      ultimately show ?thesis using inv_up [OF r'(1)] r(2) r'(5) by (simp add: pktlen_on_hd)
    qed
  qed
qed

section \<open>Clusters\<close>

definition cl_fresh :: "menv \<Rightarrow> kmbuf list \<Rightarrow> mbstate \<Rightarrow> bool" where
  "cl_fresh E h s = (\<forall>k p i. e_page E k = Some p \<longrightarrow> i < 4 \<longrightarrow> p + i \<notin> set (mclfree s) \<union> cset (h @ concat (queued s)))"

lemma m_clalloc_inv:
  assumes inv: "minv h s" and E: "cl_fresh E h s" and c: "m_clalloc E 1 s = (r, s')"
  shows "minv h s' \<and> mcl s' = mcl s"
proof (cases "e_page E (requests s)")
  case None
  then have s': "s' = m_reclaim E (s\<lparr>requests := requests s + 1\<rparr>)" using c by (simp add: m_clalloc_def Let_def)
  have "minv h (s\<lparr>requests := requests s + 1\<rparr>)" using inv minv_plain [of "s\<lparr>requests := requests s + 1\<rparr>" s] by simp
  from m_reclaim_inv [OF this, of E] show ?thesis by (simp add: s' after_def)
next
  case (Some p)
  let ?new = "rev [p..<p + 4]"
  have s': "s' = s\<lparr>requests := requests s + 1, mclfree := ?new @ mclfree s, m_clfree := m_clfree s + 4, m_clusters := m_clusters s + 4\<rparr>"
    using c Some by (simp add: m_clalloc_def Let_def CLBYTES_def MCLBYTES_def)
  have new: "x \<notin> set (mclfree s) \<union> cset (h @ concat (queued s))" if "x \<in> set ?new" for x
  proof -
    have x: "p + (x - p) = x" "x - p < 4" using that by auto
    show ?thesis using E [unfolded cl_fresh_def, rule_format, OF Some x(2)] unfolding x(1) .
  qed
  then have "distinct (?new @ mclfree s)" "set (?new @ mclfree s) \<inter> cset (h @ concat (queued s)) = {}"
    using inv by (auto simp: minv_def counts_ok_def)
  moreover have "length (?new @ mclfree s) = 4 + length (mclfree s)" by simp
  ultimately have "counts_ok (h @ concat (queued s)) s'" using inv unfolding s' minv_def counts_ok_def by simp
  then show ?thesis using inv unfolding s' by (simp add: minv_def mok_def)
qed

text \<open>A cluster added to an mbuf: the bytes of all others stay.\<close>

lemma MCLGET_ok:
  assumes inv: "minv (m # h) s" and E: "cl_fresh E (m # h) s" "menv_ok E" and m: "\<not> m_isext m" and g: "MCLGET E m s = (m', s')"
  shows "minv (m' # h) s' \<and> cbytes s' h = cbytes s h \<and> m_len m' = m_len m"
proof -
  let ?s1 = "if mclfree s = [] then snd (m_clalloc E 1 s) else s"
  obtain r t where ca: "m_clalloc E 1 s = (r, t)" by fastforce
  have i1: "minv (m # h) ?s1 \<and> mcl ?s1 = mcl s" using m_clalloc_inv [OF inv E(1) ca] inv ca by simp
  show ?thesis
  proof (cases "mclfree ?s1")
    case Nil
    then have "m' = m" "s' = ?s1" using g by (simp_all add: MCLGET_def MCLALLOC_def Let_def)
    then show ?thesis using i1 cbytes_mcl [of ?s1 s h] by simp
  next
    case (Cons c cs)
    let ?ms = "h @ concat (queued ?s1)"
    define s1 where "s1 = ?s1"
    have i: "minv (m # h) s1" "mcl s1 = mcl s" "mclfree s1 = c # cs" using i1 Cons by (simp_all add: s1_def)
    have r: "m' = m\<lparr>ext_buf := c, m_data := 0, m_isext := True\<rparr>"
        "s' = s1\<lparr>mclfree := cs, m_clfree := m_clfree s1 - 1, mclrefcnt := (mclrefcnt s1)(c := mclrefcnt s1 c + 1),
               mcl := (mcl s1)(c := e_fill E (requests s1)), requests := requests s1 + 1\<rparr>"
      using g i(3) unfolding MCLGET_def MCLALLOC_def Let_def s1_def [symmetric] by simp_all
    have co: "counts_ok (m # h @ concat (queued s1)) s1" using i(1) by (simp add: minv_def)
    have cs0: "cset (m # h @ concat (queued s1)) = cset (h @ concat (queued s1))" "cset (m' # h @ concat (queued s1)) = insert c (cset (h @ concat (queued s1)))"
      using m by (auto simp: cset_def r(1))
    have nc: "c \<notin> cset (h @ concat (queued s1))" using co i(3) cs0(1) by (auto simp: counts_ok_def)
    then have c0: "crefs (h @ concat (queued s1)) c = 0" by (simp add: cset_def)
    have ty: "tcount (m' # h @ concat (queued s1)) = tcount (m # h @ concat (queued s1))" by (simp add: fun_eq_iff r(1))
    have cr: "crefs (m' # h @ concat (queued s1)) x = (if x = c then 1 else crefs (m # h @ concat (queued s1)) x)" for x
      using c0 m by (auto simp: r(1))
    have "counts_ok (m' # h @ concat (queued s1)) s'"
      unfolding counts_ok_def ty cs0(2) cr using co i(3) nc c0 m cs0(1) unfolding counts_ok_def r(2) by auto
    moreover have others: "mbytes s' y = mbytes s1 y \<and> (mok s1 y \<longrightarrow> mok s' y)" if "y \<in> set (h @ concat (queued s1))" for y
    proof (cases "m_isext y")
      case True
      then have "ext_buf y \<noteq> c" using that nc by (auto simp: cset_eq)
      then show ?thesis by (simp add: mbytes_def mok_def r(2))
    qed (simp add: mbytes_def mok_def r(2))
    moreover have "mok s' m'" using i(1) E(2) m by (auto simp: minv_def mok_def r menv_ok_def MLEN_def MCLBYTES_def)
    moreover have "queued s' = queued s1" "mbuffree s' = mbuffree s1" by (simp_all add: r(2))
    ultimately have "minv (m' # h) s'" using i(1) by (auto simp: minv_def)
    moreover have "cbytes s' h = cbytes s1 h" using others by (simp add: cbytes_def cong: map_cong)
    ultimately show ?thesis using cbytes_mcl [OF i(2), of h] r(1) by simp
  qed
qed

section \<open>All operations\<close>

text \<open>
  The chains that some code holds, beside those that the protocols have queued, and the operations on
  them with any arguments. The memory that is returned is not in use; no cluster gets 256 references.
\<close>

definition ref_room :: "chain \<Rightarrow> kmbuf list \<Rightarrow> mbstate \<Rightarrow> bool" where
  "ref_room ch h s = (\<forall>c. crefs (h @ concat (queued s)) c + crefs ch c < 256)"

definition mb_env :: "menv \<Rightarrow> chain list \<Rightarrow> mbstate \<Rightarrow> bool" where
  "mb_env E cs s = (menv_ok E \<and> cl_fresh E (concat cs) s)"

inductive mb_step :: "chain list \<times> mbstate \<Rightarrow> chain list \<times> mbstate \<Rightarrow> bool" where
  mb_order: "mset cs = mset ds \<Longrightarrow> mb_step (cs, s) (ds, s)"
| mb_new: "menv_ok E \<Longrightarrow> 0 < t \<Longrightarrow> mb_get hdr E t s = (Some m, s') \<Longrightarrow> m_data m + n \<le> MLEN \<Longrightarrow> length d = MLEN
    \<Longrightarrow> mb_step (cs, s) ([m\<lparr>m_len := n, m_dat := d\<rparr>] # cs, s')"
| mb_nomem: "menv_ok E \<Longrightarrow> 0 < t \<Longrightarrow> mb_get hdr E t s = (None, s') \<Longrightarrow> mb_step (cs, s) (cs, s')"
| mb_cluster: "mb_env E ((m # ms) # cs) s \<Longrightarrow> \<not> m_isext m \<Longrightarrow> MCLGET E m s = (m', s') \<Longrightarrow> mb_step ((m # ms) # cs, s) ((m' # ms) # cs, s')"
| mb_copy: "menv_ok E \<Longrightarrow> ch \<in> set cs \<Longrightarrow> ref_room ch (concat cs) s \<Longrightarrow> m_copym E ch off n s = Some (r, s')
    \<Longrightarrow> length (cbytes s ch) < nat M_COPYALL \<Longrightarrow> off + n \<le> int (length (cbytes s ch)) \<or> off \<le> int (length (cbytes s ch)) \<and> n = M_COPYALL
    \<Longrightarrow> mb_step (cs, s) (case r of None \<Rightarrow> cs | Some tp \<Rightarrow> tp # cs, s')"
| mb_adj: "m_adj ch q = Some ch' \<Longrightarrow> mb_step (ch # cs, s) (ch' # cs, s)"
| mb_cat: "m_cat ch ds s = Some (ch', s') \<Longrightarrow> mb_step (ch # ds # cs, s) (ch' # cs, s')"
| mb_pullup: "menv_ok E \<Longrightarrow> 0 \<le> n \<Longrightarrow> m_pullup E mp ch n s = Some (r, s') \<Longrightarrow> mb_step (ch # cs, s) (case r of None \<Rightarrow> cs | Some ch' \<Rightarrow> ch' # cs, s')"
| mb_prepend: "menv_ok E \<Longrightarrow> n \<le> MHLEN \<Longrightarrow> m_prepend E ch n s = (r, s') \<Longrightarrow> mb_step (ch # cs, s) (case r of None \<Rightarrow> cs | Some ch' \<Rightarrow> ch' # cs, s')"
| mb_free: "mb_step (ch # cs, s) (cs, m_freem ch s)"
| mb_queue: "mb_step (ch # cs, s) (cs, s\<lparr>queued := ch # queued s\<rparr>)"

definition mb_init :: "chain list \<times> mbstate \<Rightarrow> bool" where
  "mb_init x = (case x of (cs, s) \<Rightarrow> cs = [] \<and> queued s = [] \<and> mclfree s = [] \<and> mbuffree s = [] \<and> m_clusters s = 0 \<and> m_clfree s = 0
     \<and> (\<forall>c. mclrefcnt s c = 0) \<and> (\<forall>t. m_mtypes s t = 0))"

definition mb_inv :: "chain list \<times> mbstate \<Rightarrow> bool" where
  "mb_inv x = (case x of (cs, s) \<Rightarrow> minv (concat cs) s \<and> (\<forall>ch \<in> set cs. ch \<noteq> []))"

lemma mset_concat_eq: "mset cs = mset ds \<Longrightarrow> mset (concat cs) = mset (concat ds)"
  unfolding mset_concat sum_mset_sum_list [symmetric] mset_map by simp

lemma queue_inv:
  assumes "minv (ch @ h) s"
  shows "minv h (s\<lparr>queued := ch # queued s\<rparr>)"
proof -
  have "counts_ok ((ch @ h) @ concat (queued s)) s" using assms by (simp add: minv_def)
  then have "counts_ok (h @ concat (ch # queued s)) s" by (rule counts_ok_cong [THEN iffD1, rotated 2]) simp_all
  then have "counts_ok (h @ concat (ch # queued s)) (s\<lparr>queued := ch # queued s\<rparr>)" by (simp only: counts_ok_def) simp
  then show ?thesis using assms by (simp add: minv_def mok_def)
qed

lemma copym_args:
  assumes "m_copym E ch off n s = Some (r, s')"
  shows "0 \<le> off" "0 \<le> n"
  using assms by (auto simp: m_copym_def split: if_splits)

interpretation mbufs: invariant_system mb_init mb_step mb_inv
proof
  fix x assume "mb_init x"
  then show "mb_inv x" by (auto simp: mb_init_def mb_inv_def minv_def counts_ok_def cset_def)
next
  fix x y assume inv: "mb_inv x" and "mb_step x y"
  from this(2) show "mb_inv y"
  proof cases
    case (mb_order cs ds s)
    then have "minv (concat ds) s" using inv minv_perm [OF _ mset_concat_eq] by (auto simp: mb_inv_def)
    moreover have "set ds = set cs" using mb_order(3) by (metis set_mset_mset)
    ultimately show ?thesis using inv mb_order by (simp add: mb_inv_def)
  next
    case (mb_new E t hdr s m s' n d cs)
    have i: "fresh_mbuf hdr t m" "minv (m\<lparr>m_len := 0\<rparr> # concat cs) s'"
      using mb_get_inv [OF _ mb_new(3,4,5)] inv mb_new(1) by (auto simp: mb_inv_def)
    have "minv (m\<lparr>m_len := n, m_dat := d\<rparr> # concat cs) s'"
      by (rule minv_replace [OF i(2)]) (use i(1) mb_new in \<open>auto simp: mok_def fresh_mbuf_def\<close>)
    then show ?thesis using inv mb_new(1,2) by (simp add: mb_inv_def)
  next
    case (mb_nomem E t hdr s s' cs)
    then show ?thesis using mb_get_inv [OF _ mb_nomem(3,4,5)] inv by (auto simp: mb_inv_def)
  next
    case (mb_cluster E m ms cs s m' s')
    then show ?thesis using MCLGET_ok [of m "ms @ concat cs" s E m' s'] inv by (auto simp: mb_inv_def mb_env_def)
  next
    case (mb_copy E ch cs s off n r s')
    have "set ch \<subseteq> set (concat cs)" "ch \<noteq> []" using mb_copy inv by (auto simp: mb_inv_def)
    from m_copym_ok [OF _ this mb_copy(3) mb_copy(7) copym_args(1) [OF mb_copy(6)] _ copym_args(2) [OF mb_copy(6)]] inv mb_copy copym_args [OF mb_copy(6)]
    have "case r of None \<Rightarrow> minv (concat cs) s' | Some tp \<Rightarrow> minv (tp @ concat cs) s' \<and> tp \<noteq> []"
      by (auto simp: mb_inv_def ref_room_def m_copym_def split: option.splits list.splits if_splits bool.splits)
    then show ?thesis using inv mb_copy by (cases r) (auto simp: mb_inv_def)
  next
    case (mb_adj ch q ch' cs s)
    have ne: "ch \<noteq> []" and mok: "\<forall>m \<in> set ch. mok s m" using inv mb_adj by (auto simp: mb_inv_def minv_def)
    then have "ch' \<noteq> []" using m_adj_ok [OF mok ne, of q] mb_adj(3) by auto
    then show ?thesis using m_adj_inv [OF _ ne mb_adj(3)] inv mb_adj by (auto simp: mb_inv_def)
  next
    case (mb_cat ch ds s ch' s' cs)
    have ne: "ch \<noteq> []" using inv mb_cat by (simp add: mb_inv_def)
    then have "ch' \<noteq> [] \<and> minv (ch' @ concat cs) s'" using m_cat_ok [of ch ds "concat cs" s] mb_cat inv by (auto simp: mb_inv_def)
    then show ?thesis using inv mb_cat by (simp add: mb_inv_def)
  next
    case (mb_pullup E n mp ch s r s' cs)
    then have "ch \<noteq> []" using inv by (simp add: mb_inv_def)
    then show ?thesis using m_pullup_ok [of ch "concat cs" s E n mp] mb_pullup inv by (cases r) (auto simp: mb_inv_def)
  next
    case (mb_prepend E n ch s r s' cs)
    then have "ch \<noteq> []" using inv by (simp add: mb_inv_def)
    then show ?thesis using m_prepend_ok [of ch "concat cs" s E n] mb_prepend inv by (cases r) (auto simp: mb_inv_def)
  next
    case (mb_free ch cs s)
    then show ?thesis using m_freem_inv [of ch "concat cs" s] inv by (auto simp: mb_inv_def)
  next
    case (mb_queue ch cs s)
    have "minv (concat cs) (s\<lparr>queued := ch # queued s\<rparr>)"
      by (rule queue_inv) (use inv mb_queue in \<open>simp add: mb_inv_def\<close>)
    then show ?thesis using inv mb_queue by (simp add: mb_inv_def)
  qed
qed

section \<open>Properties\<close>

lemma reach_chain:
  assumes "reach mb_init mb_step (cs, s)" and "ch \<in> set cs"
  shows "minv (concat cs) s" "set ch \<subseteq> set (concat cs)" "ch \<noteq> []" "\<forall>m \<in> set ch. mok s m"
  using mbufs.reach_inv [OF assms(1)] assms(2) by (auto simp: mb_inv_def minv_def)

text \<open>
  Property C23. In every reachable state the reference count of a cluster is the number of mbufs, of all chains
  held or queued, whose data is in it; a cluster on the free list has none; no cluster is lost; and the
  number of mbufs in use of each type is right.
\<close>

theorem mbuf_counts_exact:
  assumes "reach mb_init mb_step (cs, s)"
  defines "ms \<equiv> concat cs @ concat (queued s)"
  shows "(\<forall>c. mclrefcnt s c = of_nat (crefs ms c) \<and> crefs ms c < 256) \<and> distinct (mclfree s) \<and> (\<forall>c \<in> set (mclfree s). crefs ms c = 0)
    \<and> m_clfree s = of_nat (length (mclfree s)) \<and> m_clusters s = of_nat (length (mclfree s) + card {c. 0 < crefs ms c})
    \<and> (\<forall>t > 0. m_mtypes s t = of_nat (tcount ms t)) \<and> m_mtypes s 0 = of_nat (length (mbuffree s)) \<and> length (mbuffree s) \<le> MAX_MBFREE"
proof -
  have "counts_ok ms s" using mbufs.reach_inv [OF assms(1)] by (simp add: mb_inv_def minv_def ms_def)
  then show ?thesis by (auto simp: counts_ok_def cset_def)
qed

text \<open>
  Property C24. \<^verbatim>\<open>m_copym\<close> of a range that is inside a chain, or of all that follows an offset, returns a chain with
  exactly these bytes, sharing clusters, with a packet header of their length if the copy starts at the
  header; it returns none only for want of memory or when there is nothing to copy. No chain changes.
\<close>

theorem m_copym_bytes:
  assumes "reach mb_init mb_step (cs, s)" and "ch \<in> set cs" and "menv_ok E" and "ref_room ch (concat cs) s"
    and "int (length (cbytes s ch)) < M_COPYALL" and "0 \<le> off" and "off \<le> int (length (cbytes s ch))"
    and "0 \<le> n" and "off + n \<le> int (length (cbytes s ch)) \<or> n = M_COPYALL"
  defines "b \<equiv> take (nat n) (drop (nat off) (cbytes s ch))"
  shows "\<exists>r s'. m_copym E ch off n s = Some (r, s') \<and> (\<forall>d \<in> set cs. cbytes s' d = cbytes s d)
    \<and> (case r of None \<Rightarrow> (\<exists>k. e_mbuf E k = None) \<or> b = []
       | Some tp \<Rightarrow> cbytes s' tp = b
           \<and> (off = 0 \<and> m_ispkt (hd ch) \<longrightarrow> m_ispkt (hd tp) \<and> len (m_pkthdr (hd tp)) = (if n = M_COPYALL then len (m_pkthdr (hd ch)) else n)))"
proof -
  note c = reach_chain [OF assms(1,2)]
  have room: "\<And>c. crefs (concat cs @ concat (queued s)) c + crefs ch c < 256" using assms(4) by (simp add: ref_room_def)
  have l: "length (cbytes s ch) < nat M_COPYALL" using assms(5) by linarith
  obtain r s' where r: "m_copym E ch off n s = Some (r, s')" "mcl s' = mcl s"
     "case r of None \<Rightarrow> minv (concat cs) s' \<and> ((\<exists>k. e_mbuf E k = None) \<or> b = [])
      | Some tp \<Rightarrow> minv (tp @ concat cs) s' \<and> cbytes s' tp = b \<and> copied (off = 0 \<and> m_ispkt (hd ch)) off n (hd ch) (hd tp)"
    using m_copym_ok [OF c(1-3) assms(3) l assms(6-9) room] unfolding b_def by blast
  have "\<forall>d \<in> set cs. cbytes s' d = cbytes s d" using cbytes_mcl [OF r(2)] by simp
  then show ?thesis using r(1,3) by (cases r) (auto simp: copied_def)
qed

text \<open>
  Property C25. \<^verbatim>\<open>m_adj\<close> takes exactly the bytes asked for from the front of a chain, or from its end when the number
  is negative, all of them if there are fewer; a packet header that had the length of the chain has it again.
\<close>

theorem m_adj_bytes:
  assumes "reach mb_init mb_step (cs, s)" and "ch \<in> set cs"
  defines "b \<equiv> cbytes s ch"
  shows "\<exists>ch'. m_adj ch q = Some ch' \<and> cbytes s ch' = (if 0 \<le> q then drop (nat q) b else take (length b - nat (- q)) b)
    \<and> (pktlen ch = Some (int (length b)) \<longrightarrow> pktlen ch' = Some (int (length (cbytes s ch'))))"
  using m_adj_ok [OF reach_chain(4,3) [OF assms(1,2)], of q] unfolding b_def by blast

text \<open>
  Property C26. \<^verbatim>\<open>m_pullup\<close> returns. If it succeeds the chain has the same bytes and header, and as many as were
  asked for are in the first mbuf, which is not in a cluster. It fails, and frees the chain, only if the chain
  is shorter, more bytes are asked for than fit behind a header, or there is no memory. Other chains keep
  their bytes.
\<close>

theorem m_pullup_contiguous:
  assumes "reach mb_init mb_step (ch # cs, s)" and "menv_ok E" and "0 \<le> n"
  shows "\<exists>r s'. m_pullup E mp ch n s = Some (r, s') \<and> (\<forall>d \<in> set cs. cbytes s' d = cbytes s d)
    \<and> (case r of None \<Rightarrow> int (length (cbytes s ch)) < n \<or> int MHLEN < n \<or> (\<exists>k. e_mbuf E k = None)
       | Some ch' \<Rightarrow> cbytes s' ch' = cbytes s ch \<and> \<not> m_isext (hd ch') \<and> n \<le> int (m_len (hd ch')) \<and> pktlen ch' = pktlen ch)"
proof -
  have inv: "minv (ch @ concat cs) s" "ch \<noteq> []" using reach_chain [OF assms(1), of ch] by simp_all
  obtain r s' where r: "m_pullup E mp ch n s = Some (r, s')" "mcl s' = mcl s"
     "case r of None \<Rightarrow> minv (concat cs) s' \<and> (int (length (cbytes s ch)) < n \<or> int MHLEN < n \<or> (\<exists>k. e_mbuf E k = None))
      | Some ch' \<Rightarrow> minv (ch' @ concat cs) s' \<and> cbytes s' ch' = cbytes s ch \<and> ch' \<noteq> [] \<and> \<not> m_isext (hd ch') \<and> n \<le> int (m_len (hd ch')) \<and> pktlen ch' = pktlen ch"
    using m_pullup_ok [OF inv assms(2,3), of mp] by blast
  have "\<forall>d \<in> set cs. cbytes s' d = cbytes s d" using cbytes_mcl [OF r(2)] by simp
  then show ?thesis using r(1,3) by (cases r) auto
qed

section \<open>An example\<close>

text \<open>A chain of two mbufs, of 100 and 50 bytes, made by joining two chains of one.\<close>

definition ex_raw :: kmbuf where
  "ex_raw = \<lparr>m_len = 0, m_data = 0, m_type = 1, m_isext = False, m_ispkt = False, m_flags = 0, m_pkthdr = \<lparr>len = 0, rcvif = 0\<rparr>,
     ext_buf = 0, m_dat = replicate 108 0\<rparr>"

definition ex_menv :: menv where
  "ex_menv = \<lparr>e_mbuf = (\<lambda>_. Some ex_raw), e_page = (\<lambda>_. None), e_fill = (\<lambda>_. replicate 1024 0), e_drop = (\<lambda>_ _. False)\<rparr>"

definition ex_mb0 :: mbstate where
  "ex_mb0 = \<lparr>mcl = (\<lambda>_. []), mclrefcnt = (\<lambda>_. 0), mclfree = [], mbuffree = [], m_mtypes = (\<lambda>_. 0), m_clusters = 0, m_clfree = 0,
     m_drain = 0, queued = [], requests = 0, MCFail = 0, MPFail = 0\<rparr>"

definition ex_mb :: "nat \<Rightarrow> mbstate" where
  "ex_mb n = ex_mb0\<lparr>requests := n, m_mtypes := (\<lambda>_. 0)(1 := of_nat n)\<rparr>"

definition ex_m :: "nat \<Rightarrow> u8 \<Rightarrow> kmbuf" where
  "ex_m n x = ex_raw\<lparr>m_len := n, m_dat := replicate 108 x\<rparr>"

lemma ex_new: "mb_get False ex_menv 1 (ex_mb n) = (Some ex_raw, ex_mb (n + 1))"
  by (simp add: mb_get_def mb_get1_def MBALLOC_def ex_mb_def ex_mb0_def ex_menv_def mb_setup_def count_type_def ex_raw_def fun_eq_iff)

lemma ex_menv_ok: "menv_ok ex_menv"
  by (simp add: menv_ok_def ex_menv_def ex_raw_def MLEN_def MCLBYTES_def)

lemma ex_mb_step: "n \<le> 108 \<Longrightarrow> mb_step (cs, ex_mb k) ([ex_m n x] # cs, ex_mb (k + 1))"
  unfolding ex_m_def
  by (rule mb_new [OF ex_menv_ok _ ex_new]) (simp_all add: ex_raw_def MLEN_def)

lemma ex_mb_reach: "reach mb_init mb_step ([[ex_m 100 1, ex_m 50 2]], ex_mb 2)"
proof -
  have "mb_init ([], ex_mb 0)" by (simp add: mb_init_def ex_mb_def ex_mb0_def)
  then have "reach mb_init mb_step ([], ex_mb 0)" by (rule reach_init)
  then have "reach mb_init mb_step ([[ex_m 50 2]], ex_mb 1)" by (rule reach_step) (use ex_mb_step [of 50 "[]" 0 2] in simp)
  then have "reach mb_init mb_step ([[ex_m 100 1], [ex_m 50 2]], ex_mb 2)"
    by (rule reach_step) (use ex_mb_step [of 100 "[[ex_m 50 2]]" 1 1] in \<open>simp add: numeral_2_eq_2\<close>)
  then show ?thesis by (rule reach_step, intro mb_cat) (simp add: m_cat_def ex_m_def ex_raw_def MLEN_def)
qed

lemma ex_no_None: "e_mbuf ex_menv k \<noteq> None"
  by (simp add: ex_menv_def)

lemma ex_bytes: "cbytes s [ex_m 100 1, ex_m 50 2] = replicate 100 1 @ replicate 50 2"
  by (simp add: mbytes_def ex_m_def ex_raw_def)

lemma mbuf_counts_exact_witness: "m_mtypes (ex_mb 2) 1 = of_nat (tcount [ex_m 100 1, ex_m 50 2] 1) \<and> mclrefcnt (ex_mb 2) 0 = 0"
  using mbuf_counts_exact [OF ex_mb_reach] by (simp add: ex_mb_def ex_mb0_def ex_m_def ex_raw_def)

lemma m_copym_bytes_witness:
  "\<exists>tp s. m_copym ex_menv [ex_m 100 1, ex_m 50 2] 90 20 (ex_mb 2) = Some (Some tp, s) \<and> cbytes s tp = replicate 10 1 @ replicate 10 2"
proof -
  have "ref_room [ex_m 100 1, ex_m 50 2] (concat [[ex_m 100 1, ex_m 50 2]]) (ex_mb 2)"
    by (simp add: ref_room_def ex_m_def ex_raw_def ex_mb_def ex_mb0_def)
  then obtain r s where r: "m_copym ex_menv [ex_m 100 1, ex_m 50 2] 90 20 (ex_mb 2) = Some (r, s)"
      "case r of None \<Rightarrow> (\<exists>k. e_mbuf ex_menv k = None) \<or> take (nat 20) (drop (nat 90) (replicate 100 (1 :: u8) @ replicate 50 2)) = []
       | Some tp \<Rightarrow> cbytes s tp = take (nat 20) (drop (nat 90) (replicate 100 1 @ replicate 50 2))
           \<and> ((90 :: int) = 0 \<and> m_ispkt (hd [ex_m 100 1, ex_m 50 2]) \<longrightarrow> m_ispkt (hd tp) \<and> len (m_pkthdr (hd tp)) =
                (if 20 = M_COPYALL then len (m_pkthdr (hd [ex_m 100 1, ex_m 50 2])) else 20))"
    using m_copym_bytes [OF ex_mb_reach _ ex_menv_ok, of "[ex_m 100 1, ex_m 50 2]" 90 20] unfolding ex_bytes
    by (simp add: M_COPYALL_def) blast
  then show ?thesis using ex_no_None by (cases r) auto
qed

lemma m_adj_bytes_witness: "\<exists>ch. m_adj [ex_m 100 1, ex_m 50 2] (- 60) = Some ch \<and> cbytes (ex_mb 2) ch = replicate 90 1"
  using m_adj_bytes [OF ex_mb_reach, of "[ex_m 100 1, ex_m 50 2]" "- 60"] unfolding ex_bytes by auto

definition ex_short :: chain where
  "ex_short = [(ex_m 100 1)\<lparr>m_len := 10, m_data := 90\<rparr>, ex_m 50 2]"

lemma ex_short_reach: "reach mb_init mb_step ([ex_short], ex_mb 2)"
  using ex_mb_reach by (rule reach_step, intro mb_adj [where q = 90]) (simp add: m_adj_def ex_m_def ex_raw_def ex_short_def on_hd_def set_pktlen_def)

lemma m_pullup_contiguous_witness:
  "\<exists>ch s. m_pullup ex_menv 40 ex_short 45 (ex_mb 2) = Some (Some ch, s) \<and> cbytes s ch = replicate 10 1 @ replicate 50 2 \<and> 45 \<le> m_len (hd ch)"
proof -
  have b: "cbytes (ex_mb 2) ex_short = replicate 10 1 @ replicate 50 2" by (simp add: ex_short_def mbytes_def ex_m_def ex_raw_def)
  obtain r s where r: "m_pullup ex_menv 40 ex_short 45 (ex_mb 2) = Some (r, s)"
     "case r of None \<Rightarrow> int (length (cbytes (ex_mb 2) ex_short)) < 45 \<or> int MHLEN < 45 \<or> (\<exists>k. e_mbuf ex_menv k = None)
      | Some ch' \<Rightarrow> cbytes s ch' = cbytes (ex_mb 2) ex_short \<and> \<not> m_isext (hd ch') \<and> 45 \<le> int (m_len (hd ch')) \<and> pktlen ch' = pktlen ex_short"
    using m_pullup_contiguous [OF ex_short_reach ex_menv_ok, of 45 40] by auto
  show ?thesis using r ex_no_None b by (cases r) (auto simp: MHLEN_def)
qed

end
