(* ===== verification/Kmalloc.thy ===== *)
theory Kmalloc
  imports Prelude "HOL-Library.Multiset"
begin

text \<open>
  The kernel memory allocator, \<^verbatim>\<open>sys/kern/kern_malloc.c\<close>, with the structures of \<^verbatim>\<open>sys/sys/malloc.h\<close>.

  Free blocks are linked through their first word: \<open>links\<close> is the memory of these words, and a list starts
  at \<open>kb_next\<close> of its bucket; 0 is the null pointer. A panic is \<open>Inl\<close>, those under \<^verbatim>\<open>DIAGNOSTIC\<close> included, with
  following a null pointer in a compaction as \<open>Gc_next\<close>. \<^verbatim>\<open>kmem_malloc\<close> is an argument: it chooses the pages by the number
  of the request, the pages of the map in use (\<open>k_pages\<close>) and how many are asked for; \<^verbatim>\<open>kmem_free\<close> gives pages back to
  the map, and the wakeups are listed. A call that goes to sleep at the limit of its type ends as \<open>Asleep\<close> and is
  repeated, as the loop of \<^verbatim>\<open>malloc\<close> does. A page and a cluster are the same (\<^verbatim>\<open>CLSIZE\<close> is 1). Each call is one
  step: what an interrupt does while a list is being compacted, or while \<^verbatim>\<open>kmem_malloc\<close> sleeps, is not modelled.
\<close>

section \<open>State\<close>

record kmemusage =
  ku_indx :: nat
  ku_cnt :: u16
  ku_gccnt :: int

record kmembuckets =
  kb_next :: nat
  kb_calls :: u32
  kb_total :: int
  kb_totalfree :: int
  kb_elmpercl :: int
  kb_highwat :: int
  kb_couldfree :: u32

record kmemstats =
  ks_inuse :: int
  ks_calls :: u32
  ks_memuse :: int
  ks_limblocks :: nat
  ks_maxused :: int
  ks_limit :: int

record kstate =
  links :: "nat \<Rightarrow> nat"
  bucket :: "nat \<Rightarrow> kmembuckets"
  stats :: "nat \<Rightarrow> kmemstats"
  usage :: "nat \<Rightarrow> kmemusage"
  needgc :: bool
  gcfree :: int
  kmembase :: nat
  kmemsize :: nat
  k_requests :: nat
  k_pages :: "nat \<Rightarrow> bool"
  k_wakeups :: "nat list"

datatype mres = Null | Addr nat | Asleep

datatype kpanic = Bogus_type | Wrong_bucket | Lost_data | Map_too_small | Too_large | Multiple_frees | Gc_next

type_synonym kenv = "nat \<Rightarrow> (nat \<Rightarrow> bool) \<Rightarrow> nat \<Rightarrow> nat option"

definition NBPG :: nat where "NBPG = 4096"
definition MINBUCKET :: nat where "MINBUCKET = 4"
definition MAXALLOCSAVE :: nat where "MAXALLOCSAVE = 2 * NBPG"
definition M_LAST :: nat where "M_LAST = 53"
definition M_BUFFER :: nat where "M_BUFFER = 43"

definition BUCKETINDX :: "nat \<Rightarrow> nat" where
  "BUCKETINDX nbytes = (let m = 16 in
     if nbytes \<le> m * 128 then
       (if nbytes \<le> m * 8 then (if nbytes \<le> m * 2 then (if nbytes \<le> m then 4 else 5) else (if nbytes \<le> m * 4 then 6 else 7))
        else (if nbytes \<le> m * 32 then (if nbytes \<le> m * 16 then 8 else 9) else (if nbytes \<le> m * 64 then 10 else 11)))
     else
       (if nbytes \<le> m * 2048 then (if nbytes \<le> m * 512 then (if nbytes \<le> m * 256 then 12 else 13) else (if nbytes \<le> m * 1024 then 14 else 15))
        else (if nbytes \<le> m * 8192 then (if nbytes \<le> m * 4096 then 16 else 17) else (if nbytes \<le> m * 16384 then 18 else 19))))"

definition btokup :: "kstate \<Rightarrow> nat \<Rightarrow> nat" where
  "btokup s a = (a - kmembase s) div NBPG"

lemma btokup_upd [simp]:
  "btokup (s\<lparr>links := l\<rparr>) = btokup s" "btokup (s\<lparr>bucket := kb\<rparr>) = btokup s" "btokup (s\<lparr>stats := ks\<rparr>) = btokup s"
  "btokup (s\<lparr>usage := u\<rparr>) = btokup s" "btokup (s\<lparr>needgc := x\<rparr>) = btokup s" "btokup (s\<lparr>k_requests := k\<rparr>) = btokup s"
  "btokup (s\<lparr>k_pages := ps\<rparr>) = btokup s" "btokup (s\<lparr>k_wakeups := w\<rparr>) = btokup s"
  by (simp_all add: btokup_def fun_eq_iff)

definition set_bucket :: "nat \<Rightarrow> (kmembuckets \<Rightarrow> kmembuckets) \<Rightarrow> kstate \<Rightarrow> kstate" where
  "set_bucket i g s = s\<lparr>bucket := (bucket s)(i := g (bucket s i))\<rparr>"

definition set_stats :: "nat \<Rightarrow> (kmemstats \<Rightarrow> kmemstats) \<Rightarrow> kstate \<Rightarrow> kstate" where
  "set_stats t g s = s\<lparr>stats := (stats s)(t := g (stats s t))\<rparr>"

definition set_usage :: "nat \<Rightarrow> (kmemusage \<Rightarrow> kmemusage) \<Rightarrow> kstate \<Rightarrow> kstate" where
  "set_usage p g s = s\<lparr>usage := (usage s)(p := g (usage s p))\<rparr>"

definition kmem_free :: "nat \<Rightarrow> nat \<Rightarrow> kstate \<Rightarrow> kstate" where
  "kmem_free addr n s = s\<lparr>k_pages := (\<lambda>i. k_pages s i \<and> \<not> (btokup s addr \<le> i \<and> i < btokup s addr + n div NBPG))\<rparr>"

definition WANTGC :: "kstate \<Rightarrow> kmembuckets \<Rightarrow> bool" where
  "WANTGC s kb = (gcfree s * kb_elmpercl kb < kb_totalfree kb - kb_highwat kb)"

section \<open>Compaction\<close>

text \<open>Where a link is stored: in one of the two list heads, or in the first word of a free block.\<close>

datatype slot = Head | Head2 | Link nat

record gcstate =
  g_next :: nat
  g_head :: nat
  g_head2 :: nat
  g_prev :: slot
  g_prev2 :: slot
  g_links :: "nat \<Rightarrow> nat"

definition put_slot :: "slot \<Rightarrow> nat \<Rightarrow> gcstate \<Rightarrow> gcstate" where
  "put_slot r v g = (case r of Head \<Rightarrow> g\<lparr>g_head := v\<rparr> | Head2 \<Rightarrow> g\<lparr>g_head2 := v\<rparr> | Link a \<Rightarrow> g\<lparr>g_links := (g_links g)(a := v)\<rparr>)"

fun walk :: "nat \<Rightarrow> nat \<Rightarrow> (nat \<Rightarrow> nat) \<Rightarrow> nat option" where
  "walk 0 p L = Some p"
| "walk (Suc n) p L = (if p = 0 then None else walk n (L p) L)"

definition gc_count_turn :: "(nat \<Rightarrow> nat) \<Rightarrow> (nat \<Rightarrow> nat) \<Rightarrow> nat \<times> (nat \<Rightarrow> kmemusage) \<Rightarrow> (nat \<times> (nat \<Rightarrow> kmemusage)) + (nat \<Rightarrow> kmemusage)" where
  "gc_count_turn page L x = (case x of (p, u) \<Rightarrow>
     if p = 0 then Inr u else Inl (L p, u(page p := (u (page p))\<lparr>ku_gccnt := ku_gccnt (u (page p)) + 1\<rparr>)))"

definition gc_sort_turn :: "(nat \<Rightarrow> int) \<Rightarrow> int \<Rightarrow> gcstate \<Rightarrow> gcstate + gcstate" where
  "gc_sort_turn gccnt elm g = (let next = g_next g in
     if next = 0 then Inr g
     else let g = (if gccnt next = elm then put_slot (g_prev g) (g_links g next) g
                   else if elm div 2 < gccnt next then (put_slot (g_prev2 g) next g)\<lparr>g_prev2 := Link next\<rparr>
                   else (put_slot (g_prev g) next g)\<lparr>g_prev := Link next\<rparr>)
          in Inl (g\<lparr>g_next := g_links g next\<rparr>))"

definition gc_finish :: "nat \<Rightarrow> gcstate \<Rightarrow> gcstate" where
  "gc_finish v g = (let g = put_slot (g_prev g) (g_head2 g) g;
                        g = (if g_head2 g = 0 then g\<lparr>g_prev2 := g_prev g\<rparr> else g)
                    in put_slot (g_prev2 g) v g)"

definition gc_start :: "nat \<Rightarrow> (nat \<Rightarrow> nat) \<Rightarrow> gcstate" where
  "gc_start head L = \<lparr>g_next = head, g_head = head, g_head2 = 0, g_prev = Head, g_prev2 = Head2, g_links = L\<rparr>"

definition gc_page :: "nat \<Rightarrow> nat \<Rightarrow> kstate \<times> int \<Rightarrow> kstate \<times> int" where
  "gc_page b i x = (case x of (s, freed) \<Rightarrow>
     let elm = kb_elmpercl (bucket s b);
         (s, freed) = (if ku_gccnt (usage s i) = elm
            then (set_bucket b (\<lambda>k. k\<lparr>kb_total := kb_total k - elm, kb_totalfree := kb_totalfree k - elm\<rparr>)
                    (kmem_free (kmembase s + NBPG * i) NBPG s), freed + 1)
            else (s, freed))
     in (set_usage i (\<lambda>u. u\<lparr>ku_gccnt := 0\<rparr>) s, freed))"

definition bucket_gc :: "nat \<Rightarrow> kstate \<Rightarrow> kpanic + int \<times> kstate" where
  "bucket_gc b s = (let kb = bucket s b; fuel = nat (kb_totalfree kb) + 1 in
     case walk (nat (kb_highwat kb div 4) - 1) (kb_next kb) (links s) of
       None \<Rightarrow> Inl Gc_next
     | Some next \<Rightarrow>
        if next = 0 then Inl Gc_next
        else let head = links s next; L = (links s)(next := 0) in
        (case run_fuel (gc_count_turn (btokup s) L) fuel (head, usage s) of
           None \<Rightarrow> Inl Gc_next
         | Some u \<Rightarrow>
            (case run_fuel (gc_sort_turn (\<lambda>a. ku_gccnt (u (btokup s a))) (kb_elmpercl kb)) fuel (gc_start head L) of
               None \<Rightarrow> Inl Gc_next
             | Some g \<Rightarrow>
                let g = gc_finish (kb_next kb) g;
                    s = set_bucket b (\<lambda>k. k\<lparr>kb_next := g_head g\<rparr>) (s\<lparr>links := g_links g, usage := u\<rparr>);
                    (s, freed) = fold (gc_page b) [0..<kmemsize s div NBPG] (s, 0)
                in Inr (freed, s))))"

fun gc_buckets :: "bool \<Rightarrow> nat list \<Rightarrow> int \<Rightarrow> kstate \<Rightarrow> kpanic + int \<times> kstate" where
  "gc_buckets force [] freed s = Inr (freed, s)"
| "gc_buckets force (b # bs) freed s =
     (let kb = bucket s b in
      if WANTGC s kb \<or> (force \<and> kb_elmpercl kb < kb_totalfree kb - kb_highwat kb) then
        (case bucket_gc b s of Inl e \<Rightarrow> Inl e | Inr (n, s) \<Rightarrow> gc_buckets force bs (freed + n) s)
      else gc_buckets force bs freed s)"

definition malloc_gc :: "bool \<Rightarrow> kstate \<Rightarrow> kpanic + int \<times> kstate" where
  "malloc_gc force s = gc_buckets force [MINBUCKET..<BUCKETINDX NBPG] 0 (s\<lparr>needgc := False\<rparr>)"

section \<open>Allocation\<close>

fun link_down :: "nat \<Rightarrow> nat \<Rightarrow> nat \<Rightarrow> nat \<Rightarrow> (nat \<Rightarrow> nat) \<Rightarrow> nat \<Rightarrow> nat" where
  "link_down va sz 0 saved L = L(va := saved)"
| "link_down va sz (Suc k) saved L = link_down va sz k saved (L(va + Suc k * sz := va + k * sz))"

definition malloc_out :: "nat \<Rightarrow> nat \<Rightarrow> nat \<Rightarrow> kstate \<Rightarrow> mres \<times> kstate" where
  "malloc_out indx t va s = (Addr va, set_stats t (\<lambda>k. k\<lparr>ks_inuse := ks_inuse k + 1, ks_calls := ks_calls k + 1,
       ks_maxused := (if ks_maxused k < ks_memuse k then ks_memuse k else ks_maxused k)\<rparr>)
     (set_bucket indx (\<lambda>b. b\<lparr>kb_calls := kb_calls b + 1\<rparr>) s))"

definition malloc_take :: "nat \<Rightarrow> nat \<Rightarrow> kstate \<Rightarrow> kpanic + mres \<times> kstate" where
  "malloc_take indx t s = (let va = kb_next (bucket s indx);
       s = set_bucket indx (\<lambda>b. b\<lparr>kb_next := links s va\<rparr>) s; p = btokup s va in
     if ku_indx (usage s p) \<noteq> indx then Inl Wrong_bucket
     else if ku_cnt (usage s p) = 0 then Inl Lost_data
     else let s = set_usage p (\<lambda>u. u\<lparr>ku_cnt := ku_cnt u - 1\<rparr>) s;
              s = set_bucket indx (\<lambda>b. b\<lparr>kb_totalfree := kb_totalfree b - 1\<rparr>) s;
              s = set_stats t (\<lambda>k. k\<lparr>ks_memuse := ks_memuse k + 2 ^ indx\<rparr>) s
          in Inr (malloc_out indx t va s))"

definition roundup :: "nat \<Rightarrow> nat" where
  "roundup n = (n + (NBPG - 1)) mod 2 ^ 32 div NBPG * NBPG"

definition btoc :: "nat \<Rightarrow> nat" where
  "btoc n = (n + (NBPG - 1)) mod 2 ^ 32 div NBPG"

text \<open>
  The part of \<^verbatim>\<open>malloc\<close> after \<^verbatim>\<open>kmem_malloc\<close> has returned \<open>va\<close>. The rounded size is a signed word: from \<open>2 ^ 31\<close> on it is
  negative, and compares below \<^verbatim>\<open>MAXALLOCSAVE\<close>.
\<close>

definition malloc_new :: "nat \<Rightarrow> nat \<Rightarrow> nat \<Rightarrow> nat \<Rightarrow> nat \<Rightarrow> kstate \<Rightarrow> kpanic + mres \<times> kstate" where
  "malloc_new indx t allocsize npg va s = (let elm = kb_elmpercl (bucket s indx); p = btokup s va;
       s = set_bucket indx (\<lambda>b. b\<lparr>kb_total := kb_total b + elm\<rparr>) s;
       s = set_usage p (\<lambda>u. u\<lparr>ku_indx := indx\<rparr>) s in
     if MAXALLOCSAVE < allocsize \<and> allocsize < 2 ^ 31 then
       (if 65535 < npg then Inl Too_large
        else let s = set_usage p (\<lambda>u. u\<lparr>ku_cnt := of_nat npg\<rparr>) s;
                 s = set_stats t (\<lambda>k. k\<lparr>ks_memuse := ks_memuse k + int allocsize\<rparr>) s
             in Inr (malloc_out indx t va s))
     else
       let s = set_usage p (\<lambda>u. u\<lparr>ku_cnt := of_int elm\<rparr>) s;
           s = set_bucket indx (\<lambda>b. b\<lparr>kb_totalfree := kb_totalfree b + elm\<rparr>) s;
           saved = kb_next (bucket s indx); k = npg * NBPG div allocsize - 1;
           s = set_bucket indx (\<lambda>b. b\<lparr>kb_next := va + k * allocsize\<rparr>) s;
           s = s\<lparr>links := link_down va allocsize k saved (links s)\<rparr>
       in malloc_take indx t s)"

text \<open>A pass from the label \<^verbatim>\<open>again\<close>: on to the next one, or a result.\<close>

definition malloc_pass :: "kenv \<Rightarrow> nat \<Rightarrow> nat \<Rightarrow> bool \<Rightarrow> kstate \<Rightarrow> kstate + (kpanic + mres \<times> kstate)" where
  "malloc_pass E nbytes t waitok s = (let indx = BUCKETINDX nbytes in
     if ks_limit (stats s t) \<le> ks_memuse (stats s t) then
       (if \<not> waitok then Inr (Inr (Null, s))
        else Inr (Inr (Asleep, set_stats t (\<lambda>k. k\<lparr>ks_limblocks := (if ks_limblocks k < 65535 then ks_limblocks k + 1 else ks_limblocks k)\<rparr>) s)))
     else if kb_next (bucket s indx) \<noteq> 0 then Inr (malloc_take indx t s)
     else if needgc s \<and> waitok then (case malloc_gc False s of Inl e \<Rightarrow> Inr (Inl e) | Inr (_, s) \<Rightarrow> Inl s)
     else
       let allocsize = (if MAXALLOCSAVE < nbytes then roundup nbytes else 2 ^ indx); npg = btoc allocsize in
       (case E (k_requests s) (k_pages s) npg of
          None \<Rightarrow>
            let s = s\<lparr>k_requests := k_requests s + 1\<rparr> in
            if \<not> waitok then Inr (Inr (Null, s))
            else (case malloc_gc True s of Inl e \<Rightarrow> Inr (Inl e)
                  | Inr (freed, s) \<Rightarrow> if freed \<noteq> 0 then Inl s else Inr (Inl Map_too_small))
        | Some va \<Rightarrow>
            Inr (malloc_new indx t allocsize npg va
              (s\<lparr>k_requests := k_requests s + 1,
                 k_pages := (\<lambda>i. k_pages s i \<or> (btokup s va \<le> i \<and> i < btokup s va + npg))\<rparr>))))"

definition free_blocks :: "kstate \<Rightarrow> nat" where
  "free_blocks s = (\<Sum>b \<leftarrow> [0..<20]. nat (kb_totalfree (bucket s b)))"

text \<open>Every further pass has cleared the request to compact, or given back a page: the fuel is enough.\<close>

definition malloc :: "kenv \<Rightarrow> nat \<Rightarrow> nat \<Rightarrow> bool \<Rightarrow> kstate \<Rightarrow> (kpanic + mres \<times> kstate) option" where
  "malloc E nbytes t waitok s = (if M_LAST < t then Some (Inl Bogus_type)
     else run_fuel (malloc_pass E nbytes t waitok) (2 * free_blocks s + 2) s)"

section \<open>Release\<close>

text \<open>Taking the block back: the size it had, and the state.\<close>

definition free_block :: "nat \<Rightarrow> kstate \<Rightarrow> kpanic + nat \<times> kstate" where
  "free_block addr s = (let p = btokup s addr; indx = ku_indx (usage s p); kb = bucket s indx in
     if NBPG \<le> 2 ^ indx \<and> kb_highwat kb \<le> kb_totalfree kb then
       let nbytes = (if MAXALLOCSAVE < 2 ^ indx then unat (ku_cnt (usage s p)) * NBPG else 2 ^ indx);
           s = kmem_free addr nbytes s;
           s = set_usage p (\<lambda>u. u\<lparr>ku_indx := 0, ku_cnt := 0\<rparr>) s
       in Inr (nbytes, set_bucket indx (\<lambda>b. b\<lparr>kb_total := kb_total b - 1, kb_couldfree := kb_couldfree b + 1\<rparr>) s)
     else
       let s = set_usage p (\<lambda>u. u\<lparr>ku_cnt := ku_cnt u + 1\<rparr>) s; n = int (unat (ku_cnt (usage s p)));
           over = (kb_elmpercl kb \<le> n \<and> kb_highwat kb < kb_totalfree kb) in
       if kb_elmpercl kb < n then Inl Multiple_frees
       else let s = s\<lparr>needgc := needgc s \<or> (over \<and> WANTGC s kb)\<rparr>;
                s = set_bucket indx (\<lambda>b. b\<lparr>kb_couldfree := (if over then kb_couldfree b + 1 else kb_couldfree b),
                      kb_totalfree := kb_totalfree b + 1, kb_next := addr\<rparr>) s
            in Inr (2 ^ indx, s\<lparr>links := (links s)(addr := kb_next kb)\<rparr>))"

definition free :: "nat \<Rightarrow> nat \<Rightarrow> kstate \<Rightarrow> kpanic + kstate" where
  "free addr t s = (case free_block addr s of Inl e \<Rightarrow> Inl e
     | Inr (nbytes, s) \<Rightarrow>
        let s = set_stats t (\<lambda>k. k\<lparr>ks_memuse := ks_memuse k - int nbytes\<rparr>) s;
            s = (if ks_limit (stats s t) \<le> ks_memuse (stats s t) + int nbytes \<and> ks_memuse (stats s t) < ks_limit (stats s t)
                 then s\<lparr>k_wakeups := k_wakeups s @ [t]\<rparr> else s)
        in Inr (set_stats t (\<lambda>k. k\<lparr>ks_inuse := ks_inuse k - 1\<rparr>) s))"

text \<open>
  The check of an address under \<^verbatim>\<open>DEBUG\<close>: \<^verbatim>\<open>addrmask[i]\<close> has the low \<open>i\<close> bits. It is not part of \<open>malloc\<close> and \<open>free\<close> here; that it would
  pass is shown.
\<close>

definition check_addr :: "kstate \<Rightarrow> nat \<Rightarrow> nat \<Rightarrow> bool" where
  "check_addr s va index = (MINBUCKET \<le> index \<and> index \<le> MINBUCKET + 15 \<and> kmembase s \<le> va \<and> va < kmembase s + kmemsize s \<and>
     va mod 2 ^ (if NBPG < 2 ^ index then BUCKETINDX NBPG else index) = 0)"

section \<open>Initialisation\<close>

definition kb_init :: "nat \<Rightarrow> kmembuckets" where
  "kb_init i = (let elm = (if NBPG \<le> 2 ^ i then 1 else int (NBPG div 2 ^ i)) in
     \<lparr>kb_next = 0, kb_calls = 0, kb_total = 0, kb_totalfree = 0, kb_elmpercl = elm,
      kb_highwat = (if 2 ^ i \<le> MAXALLOCSAVE then 5 * elm else 0), kb_couldfree = 0\<rparr>)"

definition kmeminit :: "nat \<Rightarrow> nat \<Rightarrow> int \<Rightarrow> int \<Rightarrow> kstate" where
  "kmeminit base nbytes bufmap maxbufmem =
     \<lparr>links = (\<lambda>_. 0), bucket = kb_init,
      stats = (\<lambda>t. \<lparr>ks_inuse = 0, ks_calls = 0, ks_memuse = 0, ks_limblocks = 0, ks_maxused = 0,
                   ks_limit = (if t < M_LAST then cdiv ((int nbytes - bufmap) * 6) 10 else 0) + (if t = M_BUFFER then maxbufmem else 0)\<rparr>),
      usage = (\<lambda>_. \<lparr>ku_indx = 0, ku_cnt = 0, ku_gccnt = 0\<rparr>), needgc = False, gcfree = int (nbytes div (NBPG * 20)),
      kmembase = base, kmemsize = nbytes, k_requests = 0, k_pages = (\<lambda>_. False), k_wakeups = []\<rparr>"

section \<open>Lists through the first words\<close>

fun lseg :: "(nat \<Rightarrow> nat) \<Rightarrow> nat \<Rightarrow> nat list \<Rightarrow> nat \<Rightarrow> bool" where
  "lseg L p [] q = (p = q)"
| "lseg L p (x # xs) q = (p = x \<and> x \<noteq> 0 \<and> lseg L (L x) xs q)"

lemma lseg_append: "lseg L p (xs @ ys) q = (\<exists>r. lseg L p xs r \<and> lseg L r ys q)"
  by (induction xs arbitrary: p) auto

lemma lseg_upd [simp]: "a \<notin> set xs \<Longrightarrow> lseg (L(a := v)) p xs q = lseg L p xs q"
  by (induction xs arbitrary: p) auto

lemma lseg_cong: "(\<And>a. a \<in> set xs \<Longrightarrow> L' a = L a) \<Longrightarrow> lseg L' p xs q = lseg L p xs q"
  by (induction xs arbitrary: p) auto

lemma lseg_snoc: "lseg L p (xs @ [x]) q = (lseg L p xs x \<and> x \<noteq> 0 \<and> L x = q)"
  by (auto simp: lseg_append)

lemma lseg_nonzero: "lseg L p xs q \<Longrightarrow> 0 \<notin> set xs"
  by (induction xs arbitrary: p) auto

lemma lseg_null: "lseg L 0 xs q \<Longrightarrow> xs = []"
  by (cases xs) auto

lemma lseg_start: "lseg L p xs 0 \<Longrightarrow> p = (case xs of [] \<Rightarrow> 0 | x # _ \<Rightarrow> x)"
  by (cases xs) auto

text \<open>A list under construction: its last link, in the slot \<open>r\<close>, is not yet written.\<close>

definition ends :: "slot \<Rightarrow> slot \<Rightarrow> nat \<Rightarrow> (nat \<Rightarrow> nat) \<Rightarrow> nat list \<Rightarrow> bool" where
  "ends h r p L K = (if K = [] then r = h else r = Link (last K) \<and> last K \<noteq> 0 \<and> lseg L p (butlast K) (last K))"

lemma ends_upd: "a \<notin> set K \<Longrightarrow> ends h r p (L(a := v)) K = ends h r p L K"
proof -
  assume "a \<notin> set K"
  hence "a \<notin> set (butlast K)" by (auto dest: in_set_butlastD)
  thus ?thesis by (simp add: ends_def)
qed

lemma ends_write:
  assumes "ends h (Link a) p L K" and "distinct K" and "h \<noteq> Link a"
  shows "ends h (Link a) p (L(a := v)) K" and "lseg (L(a := v)) p K v"
proof -
  have "K \<noteq> []" "last K = a" using assms(1,3) by (auto simp: ends_def split: if_splits)
  then obtain K' where K: "K = K' @ [a]" by (metis append_butlast_last_id)
  thus "ends h (Link a) p (L(a := v)) K" and "lseg (L(a := v)) p K v"
    using assms(1,2) by (simp_all add: ends_def lseg_snoc)
qed

lemma ends_snoc: "lseg L p K x \<Longrightarrow> x \<noteq> 0 \<Longrightarrow> ends h (Link x) p L (K @ [x])"
  by (simp add: ends_def)

lemma ends_slot: "ends h r p L K \<Longrightarrow> r = (if K = [] then h else Link (last K))"
  by (auto simp: ends_def)

text \<open>The state of the second walk: chunks kept, chunks on pages more than half free, chunks not yet seen.\<close>

definition sorting :: "gcstate \<Rightarrow> nat list \<Rightarrow> nat list \<Rightarrow> nat list \<Rightarrow> bool" where
  "sorting g K M N = (ends Head (g_prev g) (g_head g) (g_links g) K \<and> ends Head2 (g_prev2 g) (g_head2 g) (g_links g) M \<and>
     lseg (g_links g) (g_next g) N 0 \<and> distinct (K @ M @ N) \<and> (M = [] \<longrightarrow> g_head2 g = 0))"

lemma put_simps [simp]:
  "put_slot Head v g = g\<lparr>g_head := v\<rparr>" "put_slot Head2 v g = g\<lparr>g_head2 := v\<rparr>"
  "put_slot (Link a) v g = g\<lparr>g_links := (g_links g)(a := v)\<rparr>"
  by (simp_all add: put_slot_def)

text \<open>Writing through \<open>prev\<close> completes the first list, and touches neither the second nor the rest.\<close>

lemma sorting_put1:
  fixes v :: nat
  assumes "sorting g K M N"
  defines "g' \<equiv> put_slot (g_prev g) v g"
  shows "lseg (g_links g') (g_head g') K v" and "sorting g' K M N"
    and "\<forall>a. a \<notin> set K \<longrightarrow> g_links g' a = g_links g a" and "g_next g' = g_next g" and "g_prev g' = g_prev g"
    and "g_head2 g' = g_head2 g" and "g_prev2 g' = g_prev2 g"
proof -
  have e: "ends Head (g_prev g) (g_head g) (g_links g) K" and d: "distinct (K @ M @ N)" using assms(1) by (auto simp: sorting_def)
  have r: "g_prev g = (if K = [] then Head else Link (last K))" using ends_slot [OF e] .
  have "K \<noteq> [] \<Longrightarrow> last K \<notin> set M \<and> last K \<notin> set N" using d last_in_set by auto
  moreover have "K \<noteq> [] \<Longrightarrow> lseg (g_links g') (g_head g') K v \<and> ends Head (g_prev g') (g_head g') (g_links g') K"
    using ends_write [of Head "last K" "g_head g" "g_links g" K v] e d r by (auto simp: g'_def)
  ultimately show "lseg (g_links g') (g_head g') K v" and "sorting g' K M N"
    using assms(1) r by (cases "K = []"; simp add: g'_def sorting_def ends_upd; simp add: ends_def)+
  show "\<forall>a. a \<notin> set K \<longrightarrow> g_links g' a = g_links g a" and "g_next g' = g_next g" and "g_prev g' = g_prev g"
    and "g_head2 g' = g_head2 g" and "g_prev2 g' = g_prev2 g"
    using r by (cases "K = []"; auto simp: g'_def)+
qed

lemma sorting_put2:
  assumes "sorting g K M N" and "x \<noteq> 0" and "M = [] \<Longrightarrow> v = x"
  defines "g' \<equiv> put_slot (g_prev2 g) v g"
  shows "lseg (g_links g') (g_head2 g') M v" and "ends Head (g_prev g') (g_head g') (g_links g') K" and "lseg (g_links g') (g_next g') N 0"
    and "\<forall>a. a \<notin> set M \<longrightarrow> g_links g' a = g_links g a" and "g_next g' = g_next g" and "g_prev g' = g_prev g" and "g_head g' = g_head g"
proof -
  have e: "ends Head2 (g_prev2 g) (g_head2 g) (g_links g) M" and d: "distinct (K @ M @ N)" using assms(1) by (auto simp: sorting_def)
  have r: "g_prev2 g = (if M = [] then Head2 else Link (last M))" using ends_slot [OF e] .
  have "M \<noteq> [] \<Longrightarrow> last M \<notin> set K \<and> last M \<notin> set N" using d last_in_set by (auto simp: disjoint_iff)
  moreover have "M \<noteq> [] \<Longrightarrow> lseg (g_links g') (g_head2 g') M v"
    using ends_write [of Head2 "last M" "g_head2 g" "g_links g" M v] e d r by (auto simp: g'_def)
  ultimately show "lseg (g_links g') (g_head2 g') M v" and "ends Head (g_prev g') (g_head g') (g_links g') K"
    and "lseg (g_links g') (g_next g') N 0"
    using assms(1) r by (cases "M = []"; auto simp: g'_def sorting_def ends_upd)+
  show "\<forall>a. a \<notin> set M \<longrightarrow> g_links g' a = g_links g a" and "g_next g' = g_next g" and "g_prev g' = g_prev g" and "g_head g' = g_head g"
    using r by (cases "M = []"; auto simp: g'_def)+
qed

lemma gc_sort_turn_step:
  assumes "sorting g K M (x # N)"
  shows "\<exists>g'. gc_sort_turn c elm g = Inl g' \<and>
     sorting g' (if c x = elm \<or> elm div 2 < c x then K else K @ [x]) (if c x \<noteq> elm \<and> elm div 2 < c x then M @ [x] else M) N \<and>
     (\<forall>a. a \<notin> set (K @ M @ [x]) \<longrightarrow> g_links g' a = g_links g a)"
proof -
  have x: "g_next g = x" "x \<noteq> 0" "lseg (g_links g) (g_links g x) N 0" "distinct (K @ M @ x # N)" "x \<notin> set K" "x \<notin> set M" "x \<notin> set N"
    using assms by (auto simp: sorting_def)
  let ?f = "put_slot (g_prev g) (g_links g x) g" let ?k = "put_slot (g_prev g) x g" let ?h = "put_slot (g_prev2 g) x g"
  note f = sorting_put1 [OF assms, where v = "g_links g x"] and k = sorting_put1 [OF assms, where v = x] and h = sorting_put2 [OF assms x(2), where v = x]
  consider (full) "c x = elm" | (half) "c x \<noteq> elm" "elm div 2 < c x" | (keep) "c x \<noteq> elm" "\<not> elm div 2 < c x" by blast
  thus ?thesis
  proof cases
    case full
    have "sorting (?f\<lparr>g_next := g_links ?f x\<rparr>) K M N" using f(2) x f(3,4) by (auto simp: sorting_def)
    thus ?thesis using full x f(3) by (auto simp: gc_sort_turn_def Let_def)
  next
    case half
    have "sorting (?h\<lparr>g_prev2 := Link x, g_next := g_links ?h x\<rparr>) K (M @ [x]) N"
      using h x h(3,4) ends_snoc [OF h(1), of "Head2"] by (auto simp: sorting_def)
    thus ?thesis using half x h(4) by (auto simp: gc_sort_turn_def Let_def)
  next
    case keep
    have "sorting (?k\<lparr>g_prev := Link x, g_next := g_links ?k x\<rparr>) (K @ [x]) M N"
      using k(2) x k(3,4) ends_snoc [OF k(1), of Head] by (auto simp: sorting_def)
    thus ?thesis using keep x k(3) by (auto simp: gc_sort_turn_def Let_def)
  qed
qed

lemma gc_sort_run:
  assumes "sorting g K M N" and "length N < n"
  shows "\<exists>g'. run_fuel (gc_sort_turn c elm) n g = Some g' \<and>
     sorting g' (K @ [x \<leftarrow> N. \<not> (c x = elm \<or> elm div 2 < c x)]) (M @ [x \<leftarrow> N. c x \<noteq> elm \<and> elm div 2 < c x]) [] \<and>
     (\<forall>a. a \<notin> set (K @ M @ N) \<longrightarrow> g_links g' a = g_links g a)"
  using assms
proof (induction N arbitrary: g K M n)
  case Nil
  then obtain m where "n = Suc m" by (cases n) auto
  thus ?case using Nil by (auto simp: gc_sort_turn_def sorting_def)
next
  case (Cons x N)
  then obtain m where m: "n = Suc m" "length N < m" by (cases n) auto
  let ?K = "if c x = elm \<or> elm div 2 < c x then K else K @ [x]" let ?M = "if c x \<noteq> elm \<and> elm div 2 < c x then M @ [x] else M"
  obtain g1 where g1: "gc_sort_turn c elm g = Inl g1" "sorting g1 ?K ?M N" "\<forall>a. a \<notin> set (K @ M @ [x]) \<longrightarrow> g_links g1 a = g_links g a"
    using gc_sort_turn_step [OF Cons.prems(1), of c elm] by blast
  obtain g2 where g2: "run_fuel (gc_sort_turn c elm) m g1 = Some g2"
    "sorting g2 (?K @ [x \<leftarrow> N. \<not> (c x = elm \<or> elm div 2 < c x)]) (?M @ [x \<leftarrow> N. c x \<noteq> elm \<and> elm div 2 < c x]) []"
    "\<forall>a. a \<notin> set (?K @ ?M @ N) \<longrightarrow> g_links g2 a = g_links g1 a"
    using Cons.IH [OF g1(2) m(2)] by blast
  have "\<forall>a. a \<notin> set (K @ M @ x # N) \<longrightarrow> g_links g2 a = g_links g a" using g1(3) g2(3) by (auto split: if_splits)
  thus ?case using g1(1) g2(1,2) m(1) by (auto split: if_splits)
qed

text \<open>The end of the compaction: the second list after the first, and both before \<open>v\<close>.\<close>

lemma gc_join:
  assumes "sorting g K M []"
  shows "lseg (g_links (gc_finish v g)) (g_head (gc_finish v g)) (K @ M) v \<and> (\<forall>a. a \<notin> set (K @ M) \<longrightarrow> g_links (gc_finish v g) a = g_links g a)"
proof -
  define g1 where "g1 = put_slot (g_prev g) (g_head2 g) g"
  define g2 where "g2 = (if g_head2 g1 = 0 then g1\<lparr>g_prev2 := g_prev g1\<rparr> else g1)"
  define g3 where "g3 = put_slot (g_prev2 g2) v g2"
  have fin: "gc_finish v g = g3" by (simp add: gc_finish_def g3_def g2_def g1_def Let_def)
  note p = sorting_put1 [OF assms, where v = "g_head2 g", folded g1_def]
  have "lseg (g_links g3) (g_head g3) (K @ M) v \<and> (\<forall>a. a \<notin> set (K @ M) \<longrightarrow> g_links g3 a = g_links g a)"
  proof (cases "M = []")
    case True
    hence "g_head2 g1 = 0" using p(2) by (simp add: sorting_def)
    hence g3: "g3 = put_slot (g_prev g1) v (g1\<lparr>g_prev2 := g_prev g1\<rparr>)" by (simp add: g3_def g2_def)
    have "sorting g1 K [] []" using p(2) True by simp
    hence "sorting (g1\<lparr>g_prev2 := Head2\<rparr>) K [] []" by (simp add: sorting_def ends_def)
    note q = sorting_put1 [OF p(2), where v = v]
    have "g_links g3 = g_links (put_slot (g_prev g1) v g1)" "g_head g3 = g_head (put_slot (g_prev g1) v g1)"
      unfolding g3 by (cases "g_prev g1"; simp)+
    thus ?thesis using q(1) q(3) p(3) True by auto
  next
    case False
    have l: "lseg (g_links g1) (g_head g1) K (g_head2 g1)" using p(1,6) by simp
    have e: "ends Head2 (g_prev2 g1) (g_head2 g1) (g_links g1) M" using p(2) by (simp add: sorting_def)
    have "g_head2 g1 \<noteq> 0"
    proof (cases "butlast M")
      case Nil thus ?thesis using e False by (auto simp: ends_def)
    next
      case (Cons y ys) thus ?thesis using e False by (auto simp: ends_def)
    qed
    hence g3: "g3 = put_slot (g_prev2 g1) v g1" by (simp add: g3_def g2_def)
    have r: "g_prev2 g1 = Link (last M)" using ends_slot [OF e] False by simp
    have "last M \<notin> set K" using p(2) False by (auto simp: sorting_def disjoint_iff)
    moreover have "lseg (g_links g3) (g_head2 g1) M v"
      using ends_write(2) [of Head2 "last M" "g_head2 g1" "g_links g1" M v] e r p(2) unfolding g3 by (simp add: sorting_def)
    ultimately show ?thesis using l p(3) r False unfolding g3 by (auto simp: lseg_append)
  qed
  thus ?thesis unfolding fin .
qed

section \<open>What a compaction does\<close>

lemma walk_lseg: "lseg L p xs q \<Longrightarrow> n < length xs \<Longrightarrow> walk n p L = Some (xs ! n)"
proof (induction n arbitrary: p xs)
  case 0 thus ?case by (cases xs) auto
next
  case (Suc n) thus ?case by (cases xs) auto
qed

definition on_page :: "(nat \<Rightarrow> nat) \<Rightarrow> nat list \<Rightarrow> nat \<Rightarrow> nat" where
  "on_page page xs i = length [x \<leftarrow> xs. page x = i]"

lemma on_page_simps [simp]:
  "on_page page [] i = 0" "on_page page (x # xs) i = (if page x = i then 1 else 0) + on_page page xs i"
  "on_page page (xs @ ys) i = on_page page xs i + on_page page ys i"
  by (simp_all add: on_page_def)

lemma on_page_zero: "(\<And>x. x \<in> set xs \<Longrightarrow> page x \<noteq> i) \<Longrightarrow> on_page page xs i = 0"
  by (simp add: on_page_def filter_empty_conv)

lemma on_page_mset: "mset xs = mset ys \<Longrightarrow> on_page page xs i = on_page page ys i"
  unfolding on_page_def by (metis mset_filter size_mset)

lemma gc_count_run:
  assumes "lseg L p xs 0" and "length xs < n"
  shows "run_fuel (gc_count_turn page L) n (p, u) =
     Some (\<lambda>i. (u i)\<lparr>ku_gccnt := ku_gccnt (u i) + int (on_page page xs i)\<rparr>)"
  using assms
proof (induction xs arbitrary: p n u)
  case Nil thus ?case by (cases n) (auto simp: gc_count_turn_def)
next
  case (Cons x xs)
  then obtain m where "n = Suc m" "length xs < m" "p = x" "x \<noteq> 0" "lseg L (L x) xs 0" by (cases n) auto
  thus ?case using Cons.IH [of "L x" m] by (auto simp: gc_count_turn_def fun_eq_iff)
qed

definition full_pages :: "nat \<Rightarrow> (nat \<Rightarrow> int) \<Rightarrow> int \<Rightarrow> nat" where
  "full_pages n c elm = length [i \<leftarrow> [0..<n]. c i = elm]"

lemma gc_page_all:
  "fold (gc_page b) [0..<n] (s, 0) =
    (s\<lparr>bucket := (bucket s)(b := (bucket s b)\<lparr>
          kb_total := kb_total (bucket s b) - kb_elmpercl (bucket s b) * int (full_pages n (\<lambda>i. ku_gccnt (usage s i)) (kb_elmpercl (bucket s b))),
          kb_totalfree := kb_totalfree (bucket s b) - kb_elmpercl (bucket s b) * int (full_pages n (\<lambda>i. ku_gccnt (usage s i)) (kb_elmpercl (bucket s b)))\<rparr>),
       usage := (\<lambda>i. if i < n then (usage s i)\<lparr>ku_gccnt := 0\<rparr> else usage s i),
       k_pages := (\<lambda>i. k_pages s i \<and> \<not> (i < n \<and> ku_gccnt (usage s i) = kb_elmpercl (bucket s b)))\<rparr>,
     int (full_pages n (\<lambda>i. ku_gccnt (usage s i)) (kb_elmpercl (bucket s b))))"
proof (induction n)
  case 0 show ?case by (simp add: full_pages_def)
next
  case (Suc n)
  have [simp]: "(k < Suc n) = (k < n \<or> k = n)" for k by auto
  show ?case
    unfolding upt_Suc_append [OF le0] fold_append o_def fold_simps Suc.IH
    by (auto simp: gc_page_def Let_def full_pages_def set_bucket_def set_usage_def kmem_free_def btokup_def NBPG_def
        algebra_simps fun_eq_iff intro!: kstate.equality kmembuckets.equality)
qed


definition gc_sorted :: "(nat \<Rightarrow> int) \<Rightarrow> int \<Rightarrow> nat list \<Rightarrow> nat list" where
  "gc_sorted c elm B = [x \<leftarrow> B. \<not> (c x = elm \<or> elm div 2 < c x)] @ [x \<leftarrow> B. c x \<noteq> elm \<and> elm div 2 < c x]"

text \<open>
  The compaction of a bucket as a partition of its free list: of the part \<open>B\<close> after the first quarter of the high-water
  mark, the chunks of wholly free pages are dropped, those of pages at most half free come first, the others next,
  and the part \<open>A\<close> left alone last.
\<close>

definition gc_result :: "nat \<Rightarrow> nat list \<Rightarrow> (nat \<Rightarrow> nat) \<Rightarrow> nat \<Rightarrow> kstate \<Rightarrow> kstate" where
  "gc_result b B L h s = (let elm = kb_elmpercl (bucket s b); c = (\<lambda>i. int (on_page (btokup s) B i)); n = kmemsize s div NBPG in
     s\<lparr>links := L, bucket := (bucket s)(b := (bucket s b)\<lparr>kb_next := h,
          kb_total := kb_total (bucket s b) - elm * int (full_pages n c elm),
          kb_totalfree := kb_totalfree (bucket s b) - elm * int (full_pages n c elm)\<rparr>),
       k_pages := (\<lambda>i. k_pages s i \<and> \<not> (i < n \<and> c i = elm))\<rparr>)"

lemma gc_clean:
  assumes "lseg L head B 0" and "distinct B" and "length B < n"
  shows "\<exists>g. run_fuel (gc_sort_turn c elm) n (gc_start head L) = Some g \<and>
     lseg (g_links (gc_finish v g)) (g_head (gc_finish v g)) (gc_sorted c elm B) v \<and> (\<forall>a. a \<notin> set B \<longrightarrow> g_links (gc_finish v g) a = L a)"
proof -
  have "sorting (gc_start head L) [] [] B" using assms(1,2) by (simp add: sorting_def ends_def gc_start_def)
  from gc_sort_run [OF this assms(3), of c elm] obtain g where
    g: "run_fuel (gc_sort_turn c elm) n (gc_start head L) = Some g"
      "sorting g [x \<leftarrow> B. \<not> (c x = elm \<or> elm div 2 < c x)] [x \<leftarrow> B. c x \<noteq> elm \<and> elm div 2 < c x] []"
      "\<forall>a. a \<notin> set B \<longrightarrow> g_links g a = L a" by (auto simp: gc_start_def)
  show ?thesis using g(1,3) gc_join [OF g(2), of v] by (auto simp: gc_sorted_def)
qed

lemma gc_pages_result:
  fixes b :: nat and s :: kstate
  assumes "\<And>i. ku_gccnt (usage s i) = 0" and "\<And>x. x \<in> set B \<Longrightarrow> btokup s x < kmemsize s div NBPG"
    and "u = (\<lambda>i. (usage s i)\<lparr>ku_gccnt := int (on_page (btokup s) B i)\<rparr>)"
  shows "fold (gc_page b) [0..<kmemsize s div NBPG] (set_bucket b (\<lambda>k. k\<lparr>kb_next := h\<rparr>) (s\<lparr>links := L, usage := u\<rparr>), 0) =
     (gc_result b B L h s, int (full_pages (kmemsize s div NBPG) (\<lambda>i. int (on_page (btokup s) B i)) (kb_elmpercl (bucket s b))))"
proof -
  let ?s = "set_bucket b (\<lambda>k. k\<lparr>kb_next := h\<rparr>) (s\<lparr>links := L, usage := u\<rparr>)" let ?n = "kmemsize s div NBPG"
  have u0: "(\<lambda>i. if i < ?n then (u i)\<lparr>ku_gccnt := 0\<rparr> else u i) = usage s"
  proof
    fix i
    have "on_page (btokup s) B i = 0" if "\<not> i < ?n" using assms(2) that by (intro on_page_zero) auto
    thus "(if i < ?n then (u i)\<lparr>ku_gccnt := 0\<rparr> else u i) = usage s i" using assms(1) [of i] by (auto simp: assms(3) intro: kmemusage.equality)
  qed
  have e: "kb_elmpercl (bucket ?s b) = kb_elmpercl (bucket s b)" by (simp add: set_bucket_def)
  have c: "(\<lambda>i. ku_gccnt (usage ?s i)) = (\<lambda>i. int (on_page (btokup s) B i))" by (simp add: assms(3) set_bucket_def)
  have uu: "usage ?s = u" by (simp add: set_bucket_def)
  show ?thesis unfolding gc_page_all e c [THEN fun_cong] uu u0
    unfolding gc_result_def Let_def by (simp add: set_bucket_def assms(3))
qed

lemma bucket_gc_list:
  fixes b :: nat and s :: kstate
  defines "elm \<equiv> kb_elmpercl (bucket s b)" and "n \<equiv> kmemsize s div NBPG"
  assumes l: "lseg (links s) (kb_next (bucket s b)) (A @ B) 0" and d: "distinct (A @ B)"
    and len: "length A = max 1 (nat (kb_highwat (bucket s b) div 4))" and tf: "kb_totalfree (bucket s b) = int (length (A @ B))"
    and z: "\<And>i. ku_gccnt (usage s i) = 0" and arena: "\<And>x. x \<in> set B \<Longrightarrow> btokup s x < n"
  shows "\<exists>L h. bucket_gc b s = Inr (int (full_pages n (\<lambda>i. int (on_page (btokup s) B i)) elm), gc_result b B L h s) \<and>
     lseg L h (gc_sorted (\<lambda>x. int (on_page (btokup s) B (btokup s x))) elm B @ A) 0 \<and>
     (\<forall>a. a \<notin> set (A @ B) \<longrightarrow> L a = links s a)"
proof -
  have "A \<noteq> []" using len by auto
  then obtain A' x where A: "A = A' @ [x]" by (metis rev_exhaust)
  have "nat (kb_highwat (bucket s b) div 4) - 1 = length A'" using len A by (simp add: max_def split: if_splits)
  hence w: "walk (nat (kb_highwat (bucket s b) div 4) - 1) (kb_next (bucket s b)) (links s) = Some x" using walk_lseg [OF l, of "length A'"] A by simp
  have x: "x \<noteq> 0" "lseg (links s) (links s x) B 0" "x \<notin> set B" "lseg (links s) (kb_next (bucket s b)) A' x"
    using l d A by (auto simp: lseg_append)
  let ?L = "(links s)(x := 0)" let ?f = "nat (kb_totalfree (bucket s b)) + 1" let ?nx = "kb_next (bucket s b)"
  have B: "lseg ?L (links s x) B 0" and f: "length B < ?f" and dB: "distinct B" using x tf d by simp_all
  define u where "u = (\<lambda>i. (usage s i)\<lparr>ku_gccnt := int (on_page (btokup s) B i)\<rparr>)"
  have cr: "run_fuel (gc_count_turn (btokup s) ?L) ?f (links s x, usage s) = Some u"
    using gc_count_run [OF B f, of "btokup s" "usage s"] z by (simp add: u_def)
  let ?c = "\<lambda>a. ku_gccnt (u (btokup s a))"
  obtain g where g: "run_fuel (gc_sort_turn ?c elm) ?f (gc_start (links s x) ?L) = Some g"
    "lseg (g_links (gc_finish ?nx g)) (g_head (gc_finish ?nx g)) (gc_sorted ?c elm B) ?nx"
    "\<forall>a. a \<notin> set B \<longrightarrow> g_links (gc_finish ?nx g) a = ?L a" using gc_clean [OF B dB f, of ?c elm ?nx] by blast
  let ?g = "gc_finish ?nx g"
  have "lseg (g_links ?g) ?nx A 0"
  proof -
    have "g_links ?g a = links s a" if "a \<in> set A'" for a using g(3) d A that by (auto simp: disjoint_iff split: if_splits)
    hence "lseg (g_links ?g) ?nx A' x" using x(4) lseg_cong [of A' "g_links ?g" "links s"] by blast
    thus ?thesis using x(1,3) A g(3) by (simp add: lseg_snoc)
  qed
  hence ll: "lseg (g_links ?g) (g_head ?g) (gc_sorted ?c elm B @ A) 0" using g(2) by (auto simp: lseg_append)
  let ?s = "set_bucket b (\<lambda>k. k\<lparr>kb_next := g_head ?g\<rparr>) (s\<lparr>links := g_links ?g, usage := u\<rparr>)"
  have ks: "kmemsize ?s = kmemsize s" by (simp add: set_bucket_def)
  note pages = gc_pages_result [OF z arena [unfolded n_def] u_def, of b "g_head ?g" "g_links ?g"]
  have "bucket_gc b s = Inr (int (full_pages n (\<lambda>i. int (on_page (btokup s) B i)) elm), gc_result b B (g_links ?g) (g_head ?g) s)"
    using w x(1) cr g(1) pages unfolding bucket_gc_def n_def
    by (simp add: Let_def elm_def [symmetric] ks)
  moreover have "\<forall>a. a \<notin> set (A @ B) \<longrightarrow> g_links ?g a = links s a" using g(3) A by auto
  ultimately show ?thesis using ll by (auto simp: u_def)
qed

section \<open>Properties\<close>

text \<open>
  Property C30. Compacting a bucket rearranges its free list and nothing else: the first chunks, a quarter of the
  high-water mark, stay and come last; of the others, those of pages they fill are dropped and the pages go back to
  the map, those of pages at most half free come first, and the rest after them, each part in its old order. The links
  of all other blocks are as before.
\<close>

theorem bucket_gc_partition:
  fixes b :: nat and s :: kstate
  assumes "lseg (links s) (kb_next (bucket s b)) (A @ B) 0" and "distinct (A @ B)"
    and "length A = max 1 (nat (kb_highwat (bucket s b) div 4))" and "kb_totalfree (bucket s b) = int (length (A @ B))"
    and "\<And>i. ku_gccnt (usage s i) = 0" and "\<And>x. x \<in> set B \<Longrightarrow> btokup s x < kmemsize s div NBPG"
  shows "\<exists>L h. bucket_gc b s = Inr (int (full_pages (kmemsize s div NBPG) (\<lambda>i. int (on_page (btokup s) B i)) (kb_elmpercl (bucket s b))), gc_result b B L h s) \<and>
     lseg L h ([x \<leftarrow> B. let c = int (on_page (btokup s) B (btokup s x)) in c \<noteq> kb_elmpercl (bucket s b) \<and> c \<le> kb_elmpercl (bucket s b) div 2] @
       [x \<leftarrow> B. let c = int (on_page (btokup s) B (btokup s x)) in c \<noteq> kb_elmpercl (bucket s b) \<and> kb_elmpercl (bucket s b) div 2 < c] @ A) 0 \<and>
     (\<forall>a. a \<notin> set (A @ B) \<longrightarrow> L a = links s a)"
  using bucket_gc_list [OF assms] unfolding gc_sorted_def Let_def by (simp add: not_le not_less conj_commute)

definition demo_chain :: kstate where
  "demo_chain = (kmeminit 4096 16384 0 0)\<lparr>links := (\<lambda>_. 0)(4096 := 8192, 8192 := 10240, 10240 := 6144),
     bucket := kb_init(11 := (kb_init 11)\<lparr>kb_next := 4096, kb_totalfree := 4, kb_total := 4, kb_highwat := 4\<rparr>)\<rparr>"

theorem bucket_gc_partition_witness:
  "\<exists>L h. bucket_gc 11 demo_chain = Inr (1, gc_result 11 [8192, 10240, 6144] L h demo_chain) \<and> lseg L h [6144, 4096] 0"
proof -
  have s: "links demo_chain = (\<lambda>_. 0)(4096 := 8192, 8192 := 10240, 10240 := 6144)" "kb_next (bucket demo_chain 11) = 4096" "kb_totalfree (bucket demo_chain 11) = 4"
    "kb_highwat (bucket demo_chain 11) = 4" "kb_elmpercl (bucket demo_chain 11) = 2" "kmemsize demo_chain = 16384"
    "\<And>i. ku_gccnt (usage demo_chain i) = 0" "btokup demo_chain 4096 = 0" "btokup demo_chain 8192 = 1" "btokup demo_chain 10240 = 1" "btokup demo_chain 6144 = 0"
    by (simp_all add: demo_chain_def kmeminit_def kb_init_def btokup_def NBPG_def)
  have n: "full_pages 4 (\<lambda>i. int (on_page (btokup demo_chain) [8192, 10240, 6144] i)) 2 = 1"
  proof -
    have "[0..<4] = [0, 1, 2, 3 :: nat]" by (simp add: upt_rec)
    thus ?thesis by (simp add: full_pages_def s)
  qed
  have "x \<in> set [8192, 10240, 6144] \<Longrightarrow> btokup demo_chain x < kmemsize demo_chain div NBPG" for x using s by (auto simp: NBPG_def)
  from bucket_gc_partition [of demo_chain 11 "[4096]" "[8192, 10240, 6144]", OF _ _ _ _ _ this] show ?thesis using n s by (auto simp: NBPG_def)
qed

end
