(* ===== verification/Kmalloc_inv.thy ===== *)
theory Kmalloc_inv
  imports Kmalloc
begin

text \<open>
  What the kernel memory allocator keeps. The invariant ties the lists of free blocks, the page descriptors, the counters
  of the buckets and the statistics to the set of pages taken from the map and to the blocks the callers hold; every call
  of \<^verbatim>\<open>malloc\<close>, with the compactions it starts, and of \<^verbatim>\<open>free\<close> keeps it. From it: held blocks never overlap, the accounts are
  exact, and no panic can be reached but that of a full map.
\<close>

section \<open>The invariant\<close>

text \<open>
  The memory taken from the map is a set of runs \<open>(b, p, n)\<close>: \<open>n\<close> pages from page \<open>p\<close>, cut into the cells of bucket \<open>b\<close>. Every
  cell is on the free list of its bucket or held by a caller, never both.
\<close>

record held =
  h_addr :: nat
  h_indx :: nat
  h_bytes :: nat
  h_type :: nat

type_synonym run = "nat \<times> nat \<times> nat"

definition elms :: "nat \<Rightarrow> nat" where
  "elms b = (if 12 \<le> b then 1 else 2 ^ (12 - b))"

definition pages_of :: "run \<Rightarrow> nat set" where
  "pages_of r = (case r of (b, p, n) \<Rightarrow> {p..<p + n})"

definition cells :: "nat \<Rightarrow> run set \<Rightarrow> nat \<Rightarrow> nat set" where
  "cells base R b = {a. \<exists>p n j. (b, p, n) \<in> R \<and> j < elms b \<and> a = base + p * NBPG + j * 2 ^ b}"

definition held_in :: "nat \<Rightarrow> held list \<Rightarrow> nat list" where
  "held_in b H = map h_addr [h \<leftarrow> H. h_indx h = b]"

definition runs_ok :: "run set \<Rightarrow> kstate \<Rightarrow> bool" where
  "runs_ok R s = ((\<forall>b p n. (b, p, n) \<in> R \<longrightarrow> 4 \<le> b \<and> b < 20 \<and> 0 < n \<and> n < 65536 \<and> (b \<le> 13 \<longrightarrow> n = (if b = 13 then 2 else 1)) \<and>
       p + n \<le> kmemsize s div NBPG \<and> ku_indx (usage s p) = b \<and> (13 < b \<longrightarrow> ku_cnt (usage s p) = of_nat n)) \<and>
     (\<forall>r \<in> R. \<forall>r' \<in> R. pages_of r \<inter> pages_of r' \<noteq> {} \<longrightarrow> r = r') \<and>
     (\<forall>i. k_pages s i = (\<exists>r \<in> R. i \<in> pages_of r)))"

definition lists_ok :: "(nat \<Rightarrow> nat list) \<Rightarrow> kstate \<Rightarrow> bool" where
  "lists_ok F s = (\<forall>b. lseg (links s) (kb_next (bucket s b)) (F b) 0 \<and> kb_totalfree (bucket s b) = int (length (F b)) \<and> (13 < b \<longrightarrow> F b = []))"

definition cells_ok :: "run set \<Rightarrow> (nat \<Rightarrow> nat list) \<Rightarrow> held list \<Rightarrow> kstate \<Rightarrow> bool" where
  "cells_ok R F H s = ((\<forall>b. distinct (F b @ held_in b H) \<and> set (F b @ held_in b H) = cells (kmembase s) R b) \<and>
     (\<forall>b p n. (b, p, n) \<in> R \<longrightarrow> b \<le> 13 \<longrightarrow> unat (ku_cnt (usage s p)) = on_page (btokup s) (F b) p))"

definition buckets_ok :: "(nat \<Rightarrow> nat list) \<Rightarrow> held list \<Rightarrow> kstate \<Rightarrow> bool" where
  "buckets_ok F H s = (\<forall>b<20. kb_total (bucket s b) = int (length (F b) + length (held_in b H)) \<and>
     kb_elmpercl (bucket s b) = int (elms b) \<and> kb_highwat (bucket s b) = (if b \<le> 13 then 5 * int (elms b) else 0))"

definition held_ok :: "held list \<Rightarrow> kstate \<Rightarrow> bool" where
  "held_ok H s = (\<forall>h \<in> set H. h_bytes h =
     (if h_indx h \<le> 13 then 2 ^ h_indx h else unat (ku_cnt (usage s (btokup s (h_addr h)))) * NBPG))"

definition stats_ok :: "held list \<Rightarrow> kstate \<Rightarrow> bool" where
  "stats_ok H s = (\<forall>t. ks_inuse (stats s t) = int (length [h \<leftarrow> H. h_type h = t]) \<and>
     ks_memuse (stats s t) = (\<Sum>h \<leftarrow> [h \<leftarrow> H. h_type h = t]. int (h_bytes h)))"

definition kinv :: "run set \<Rightarrow> (nat \<Rightarrow> nat list) \<Rightarrow> held list \<Rightarrow> kstate \<Rightarrow> bool" where
  "kinv R F H s = (0 < kmembase s \<and> NBPG dvd kmembase s \<and> kmemsize s < 65536 * NBPG \<and> 0 \<le> gcfree s \<and> (\<forall>i. ku_gccnt (usage s i) = 0) \<and> runs_ok R s \<and> lists_ok F s \<and>
     cells_ok R F H s \<and> buckets_ok F H s \<and> held_ok H s \<and> stats_ok H s)"

lemmas kinv_defs = kinv_def runs_ok_def lists_ok_def cells_ok_def buckets_ok_def held_ok_def stats_ok_def

lemma run_okD:
  assumes "runs_ok R s" and "(b, p, n) \<in> R"
  shows "4 \<le> b" "b < 20" "0 < n" "n < 65536" "b \<le> 12 \<Longrightarrow> n = 1" "b = 13 \<Longrightarrow> n = 2" "p + n \<le> kmemsize s div NBPG"
    "ku_indx (usage s p) = b" "13 < b \<Longrightarrow> ku_cnt (usage s p) = of_nat n" "p \<in> pages_of (b, p, n)"
proof -
  have *: "4 \<le> b \<and> b < 20 \<and> 0 < n \<and> n < 65536 \<and> (b \<le> 13 \<longrightarrow> n = (if b = 13 then 2 else 1)) \<and>
       p + n \<le> kmemsize s div NBPG \<and> ku_indx (usage s p) = b \<and> (13 < b \<longrightarrow> ku_cnt (usage s p) = of_nat n)"
    using assms unfolding runs_ok_def by blast
  thus "4 \<le> b" "b < 20" "0 < n" "n < 65536" "b \<le> 12 \<Longrightarrow> n = 1" "b = 13 \<Longrightarrow> n = 2" "p + n \<le> kmemsize s div NBPG"
    "ku_indx (usage s p) = b" "13 < b \<Longrightarrow> ku_cnt (usage s p) = of_nat n" "p \<in> pages_of (b, p, n)"
    by (auto simp: pages_of_def)
qed

lemma runs_unique: "runs_ok R s \<Longrightarrow> r \<in> R \<Longrightarrow> r' \<in> R \<Longrightarrow> i \<in> pages_of r \<Longrightarrow> i \<in> pages_of r' \<Longrightarrow> r = r'"
  unfolding runs_ok_def by blast

subsection \<open>Cells and pages\<close>

lemma elms_fit:
  assumes "j < elms b" shows "j * 2 ^ b < NBPG" and "b \<le> 12 \<Longrightarrow> j * 2 ^ b + 2 ^ b \<le> NBPG" and "12 \<le> b \<Longrightarrow> j = 0"
proof -
  have le: "j * 2 ^ b + 2 ^ b \<le> NBPG" if "b \<le> 12"
  proof -
    have "elms b * 2 ^ b = NBPG" using that by (simp add: elms_def NBPG_def flip: power_add)
    moreover have "Suc j * 2 ^ b \<le> elms b * 2 ^ b" using assms by (intro mult_le_mono1) simp
    ultimately show ?thesis by simp
  qed
  thus "b \<le> 12 \<Longrightarrow> j * 2 ^ b + 2 ^ b \<le> NBPG" .
  show z: "12 \<le> b \<Longrightarrow> j = 0" using assms by (simp add: elms_def)
  show "j * 2 ^ b < NBPG"
  proof (cases "b \<le> 12")
    case True
    have "(0::nat) < 2 ^ b" by simp
    thus ?thesis using le [OF True] by linarith
  next
    case False thus ?thesis using z by (simp add: NBPG_def)
  qed
qed

lemma elms_pos [simp]: "0 < elms b" by (simp add: elms_def)

lemma btokup_cell: "r < NBPG \<Longrightarrow> a = kmembase s + p * NBPG + r \<Longrightarrow> btokup s a = p"
  by (simp add: btokup_def NBPG_def)

lemma cell_page: "j < elms b \<Longrightarrow> btokup s (kmembase s + p * NBPG + j * 2 ^ b) = p"
  by (rule btokup_cell [OF elms_fit(1)]) auto

text \<open>The run of a cell is determined by the page of its address.\<close>

lemma cellE:
  assumes "a \<in> cells (kmembase s) R b"
  obtains p n j where "(b, p, n) \<in> R" "j < elms b" "a = kmembase s + p * NBPG + j * 2 ^ b" "btokup s a = p"
  using assms cell_page by (auto simp: cells_def)

lemma cell_at:
  assumes "a \<in> cells (kmembase s) R b"
  shows "\<exists>n. (b, btokup s a, n) \<in> R" and "\<exists>j < elms b. a = kmembase s + btokup s a * NBPG + j * 2 ^ b"
  using assms by (auto elim!: cellE)

lemma cell_run:
  assumes "runs_ok R s" and "a \<in> cells (kmembase s) R b" and "(b', p', n') \<in> R" and "btokup s a \<in> pages_of (b', p', n')"
  shows "b' = b \<and> p' = btokup s a"
proof -
  obtain p n j where r: "(b, p, n) \<in> R" "btokup s a = p" using assms(2) by (rule cellE) blast
  have "(b, p, n) = (b', p', n')" using runs_unique [OF assms(1) r(1) assms(3) run_okD(10) [OF assms(1) r(1)]] assms(4) r(2) by simp
  thus ?thesis using r by simp
qed

lemma cells_bucket:
  assumes "runs_ok R s" and "a \<in> cells (kmembase s) R b" and "a \<in> cells (kmembase s) R b'"
  shows "b = b'"
proof -
  obtain p n j where r: "(b', p, n) \<in> R" "btokup s a = p" using assms(3) by (rule cellE) blast
  thus ?thesis using cell_run [OF assms(1,2) r(1)] run_okD(10) [OF assms(1) r(1)] by simp
qed

lemma cells_nonzero: "0 < kmembase s \<Longrightarrow> 0 \<notin> cells (kmembase s) R b"
  by (auto simp: cells_def)

definition extent :: "nat \<Rightarrow> nat \<Rightarrow> nat" where
  "extent b n = (if b \<le> 13 then 2 ^ b else n * NBPG)"

lemma cell_extent:
  assumes "runs_ok R s" and "(b, p, n) \<in> R" and "j < elms b"
  shows "j * 2 ^ b + extent b n \<le> n * NBPG"
proof (cases "b \<le> 12")
  case True
  hence "n = 1" using run_okD(5) [OF assms(1,2)] by simp
  thus ?thesis using elms_fit(2) [OF assms(3) True] True by (simp add: extent_def)
next
  case False
  hence "j = 0" using elms_fit(3) [OF assms(3)] by simp
  moreover note run_okD(6) [OF assms(1,2)]
  ultimately show ?thesis using False by (cases "b = 13") (auto simp: extent_def NBPG_def)
qed

text \<open>Two cells do not overlap.\<close>

lemma cells_disjoint:
  assumes ok: "runs_ok R s" and r: "(b, p, n) \<in> R" "j < elms b" "a = kmembase s + p * NBPG + j * 2 ^ b"
    and r': "(b', p', n') \<in> R" "j' < elms b'" "a' = kmembase s + p' * NBPG + j' * 2 ^ b'" and ne: "a \<noteq> a'"
  shows "a + extent b n \<le> a' \<or> a' + extent b' n' \<le> a"
proof (cases "(b, p, n) = (b', p', n')")
  case True
  hence "j \<noteq> j'" using ne r r' by auto
  hence b: "b < 12" using elms_fit(3) [OF r(2)] elms_fit(3) [OF r'(2)] True by (cases "b < 12") auto
  have "Suc j * 2 ^ b \<le> j' * 2 ^ b \<or> Suc j' * 2 ^ b \<le> j * 2 ^ b"
    using \<open>j \<noteq> j'\<close> by (meson mult_le_mono1 Suc_leI nat_neq_iff)
  thus ?thesis using True r r' b by (auto simp: extent_def)
next
  case False
  hence "pages_of (b, p, n) \<inter> pages_of (b', p', n') = {}" using runs_unique [OF ok r(1) r'(1)] by blast
  hence i: "\<not> (p \<le> i \<and> i < p + n \<and> p' \<le> i \<and> i < p' + n')" for i by (auto simp: pages_of_def)
  have "0 < n" "0 < n'" using run_okD(3) [OF ok r(1)] run_okD(3) [OF ok r'(1)] .
  hence "p + n \<le> p' \<or> p' + n' \<le> p" using i [of p] i [of p'] by linarith
  hence "(p + n) * NBPG \<le> p' * NBPG \<or> (p' + n') * NBPG \<le> p * NBPG" by (meson mult_le_mono1)
  thus ?thesis using cell_extent [OF ok r(1,2)] cell_extent [OF ok r'(1,2)] r(3) r'(3) by (auto simp: add_mult_distrib)
qed

section \<open>The invariant is kept\<close>

subsection \<open>Frames\<close>

definition same_arena :: "kstate \<Rightarrow> kstate \<Rightarrow> bool" where
  "same_arena s s' = (kmembase s' = kmembase s \<and> kmemsize s' = kmemsize s \<and> gcfree s' = gcfree s)"

lemma same_arena_btokup: "same_arena s s' \<Longrightarrow> btokup s' = btokup s"
  by (simp add: same_arena_def btokup_def fun_eq_iff)

definition charged :: "nat \<Rightarrow> int \<Rightarrow> int \<Rightarrow> kstate \<Rightarrow> kstate \<Rightarrow> bool" where
  "charged t k n s s' = (\<forall>t'. ks_inuse (stats s' t') = ks_inuse (stats s t') + (if t' = t then k else 0) \<and>
     ks_memuse (stats s' t') = ks_memuse (stats s t') + (if t' = t then n else 0))"

lemma stats_ok_add: "stats_ok H s \<Longrightarrow> charged (h_type h) 1 (int (h_bytes h)) s s' \<Longrightarrow> stats_ok (h # H) s'"
  by (auto simp: stats_ok_def charged_def)

lemma stats_ok_remove:
  assumes "stats_ok H s" and "h \<in> set H" and "charged (h_type h) (- 1) (- int (h_bytes h)) s s'"
  shows "stats_ok (remove1 h H) s'"
proof -
  have "mset H = mset (h # remove1 h H)" using assms(2) by simp
  hence m: "mset [g \<leftarrow> H. h_type g = t] = mset [g \<leftarrow> h # remove1 h H. h_type g = t]" for t unfolding mset_filter by simp
  have l: "length [g \<leftarrow> H. h_type g = t] = length [g \<leftarrow> h # remove1 h H. h_type g = t]" for t using mset_eq_length [OF m] .
  have "(\<Sum>g \<leftarrow> [g \<leftarrow> H. h_type g = t]. int (h_bytes g)) = (\<Sum>g \<leftarrow> [g \<leftarrow> h # remove1 h H. h_type g = t]. int (h_bytes g))" for t
    unfolding sum_mset_sum_list [symmetric] mset_map m ..
  thus ?thesis using assms(1,3) l by (auto simp: stats_ok_def charged_def)
qed

lemma stats_ok_same: "stats_ok H s \<Longrightarrow> stats s' = stats s \<Longrightarrow> stats_ok H s'"
  by (simp add: stats_ok_def)

lemma held_in_Cons: "held_in b (h # H) = (if h_indx h = b then h_addr h # held_in b H else held_in b H)"
  by (simp add: held_in_def)

lemma held_in_remove:
  assumes "h \<in> set H"
  shows "mset (held_in b H) = mset (if h_indx h = b then h_addr h # held_in b (remove1 h H) else held_in b (remove1 h H))"
proof -
  have "mset H = mset (h # remove1 h H)" using assms by simp
  hence "mset (held_in b H) = mset (held_in b (h # remove1 h H))" unfolding held_in_def mset_map mset_filter by simp
  thus ?thesis by (simp add: held_in_Cons)
qed

lemma cells_okD:
  assumes "cells_ok R F H s"
  shows "distinct (F b @ held_in b H)" "set (F b) \<union> set (held_in b H) = cells (kmembase s) R b"
    "(b, p, n) \<in> R \<Longrightarrow> b \<le> 13 \<Longrightarrow> unat (ku_cnt (usage s p)) = on_page (btokup s) (F b) p"
  using assms unfolding cells_ok_def set_append by blast+

text \<open>A cell that moves between the free list and the callers.\<close>

lemma cells_ok_move:
  assumes "cells_ok R F H s" and "mset (F' b @ held_in b H') = mset (F b @ held_in b H)" and "same_arena s s'"
  shows "distinct (F' b @ held_in b H') \<and> set (F' b @ held_in b H') = cells (kmembase s') R b"
proof -
  have "distinct (F' b @ held_in b H') = distinct (F b @ held_in b H)" using mset_eq_imp_distinct_iff [OF assms(2)] .
  moreover have "set (F' b @ held_in b H') = set (F b @ held_in b H)" using mset_eq_setD [OF assms(2)] .
  moreover have "kmembase s' = kmembase s" using assms(3) by (simp add: same_arena_def)
  ultimately show ?thesis using cells_okD(1,2) [OF assms(1), of b] by (simp only: set_append)
qed

text \<open>Which bucket and which run an address belongs to.\<close>

lemma free_cell: "cells_ok R F H s \<Longrightarrow> a \<in> set (F b) \<Longrightarrow> a \<in> cells (kmembase s) R b"
  unfolding cells_ok_def by auto

lemma held_cell: "cells_ok R F H s \<Longrightarrow> h \<in> set H \<Longrightarrow> h_addr h \<in> cells (kmembase s) R (h_indx h)"
proof -
  assume "cells_ok R F H s" and "h \<in> set H"
  moreover from this have "h_addr h \<in> set (held_in (h_indx h) H)" by (auto simp: held_in_def)
  ultimately show ?thesis using cells_okD(2) by blast
qed

lemma cell_usage: "runs_ok R s \<Longrightarrow> a \<in> cells (kmembase s) R b \<Longrightarrow> ku_indx (usage s (btokup s a)) = b \<and> 4 \<le> b \<and> b < 20"
  by (elim cellE) (simp add: run_okD)

lemma cell_other_page: "runs_ok R s \<Longrightarrow> a \<in> cells (kmembase s) R b \<Longrightarrow> (b', p', n') \<in> R \<Longrightarrow> b' \<noteq> b \<Longrightarrow> btokup s a \<noteq> p'"
  using cell_run run_okD(10) by fastforce

lemma cells_other_page:
  assumes "runs_ok R s" and "a \<in> cells (kmembase s) R b" and "a' \<in> cells (kmembase s) R b'" and "b' \<noteq> b"
  shows "btokup s a \<noteq> btokup s a'"
proof -
  obtain p n where "(b', p, n) \<in> R" "btokup s a' = p" using assms(3) by (rule cellE) blast
  thus ?thesis using cell_other_page [OF assms(1,2) _ assms(4)] by simp
qed

lemma lists_okD:
  assumes "lists_ok F s"
  shows "lseg (links s) (kb_next (bucket s b)) (F b) 0" "kb_totalfree (bucket s b) = int (length (F b))" "13 < b \<Longrightarrow> F b = []"
  using assms unfolding lists_ok_def by blast+

text \<open>A change of the free count of a page of small cells leaves the other runs alone.\<close>

lemma runs_ok_cnt:
  assumes "runs_ok R s" and "a \<in> cells (kmembase s) R b" and "b \<le> 13"
    and "usage s' = (usage s)(btokup s a := (usage s (btokup s a))\<lparr>ku_cnt := c\<rparr>)" and "k_pages s' = k_pages s" and "same_arena s s'"
  shows "runs_ok R s'"
proof -
  have "ku_indx (usage s' p) = ku_indx (usage s p)" for p using assms(4) by simp
  moreover have "ku_cnt (usage s' p) = ku_cnt (usage s p)" if "(b', p, n) \<in> R" "13 < b'" for b' p n
    using cell_other_page [OF assms(1,2) that(1)] that(2) assms(3,4) by auto
  ultimately show ?thesis using assms(1,5,6) unfolding runs_ok_def same_arena_def by simp
qed

lemma held_ok_cnt:
  assumes "runs_ok R s" and "cells_ok R F H s" and "held_ok H s" and "a \<in> cells (kmembase s) R b" and "b \<le> 13"
    and "usage s' = (usage s)(btokup s a := (usage s (btokup s a))\<lparr>ku_cnt := c\<rparr>)" and "same_arena s s'"
  shows "held_ok H s'"
proof -
  have "ku_cnt (usage s' (btokup s (h_addr h))) = ku_cnt (usage s (btokup s (h_addr h)))" if "h \<in> set H" "\<not> h_indx h \<le> 13" for h
    using cells_other_page [OF assms(1,4) held_cell [OF assms(2) that(1)]] that(2) assms(5,6) by auto
  thus ?thesis using assms(3) unfolding held_ok_def same_arena_btokup [OF assms(7)] by auto
qed

subsection \<open>Taking a free block\<close>

lemma kinv_take:
  assumes inv: "kinv R F H s" and F: "F b = va # fs" and b: "b \<le> 13" and p: "p = btokup s va"
    and links: "links s' = links s" and bk: "bucket s' = (bucket s)(b := k)"
    and k: "kb_next k = links s va" "kb_totalfree k = kb_totalfree (bucket s b) - 1" "kb_total k = kb_total (bucket s b)"
      "kb_elmpercl k = kb_elmpercl (bucket s b)" "kb_highwat k = kb_highwat (bucket s b)"
    and us: "usage s' = (usage s)(p := (usage s p)\<lparr>ku_cnt := ku_cnt (usage s p) - 1\<rparr>)" and kp: "k_pages s' = k_pages s"
    and ar: "same_arena s s'" and ch: "charged t 1 (2 ^ b) s s'"
  shows "kinv R (F(b := fs)) (\<lparr>h_addr = va, h_indx = b, h_bytes = 2 ^ b, h_type = t\<rparr> # H) s'"
    and "ku_indx (usage s p) = b" and "ku_cnt (usage s p) \<noteq> 0"
proof -
  let ?h = "\<lparr>h_addr = va, h_indx = b, h_bytes = 2 ^ b, h_type = t\<rparr>"
  have i: "runs_ok R s" "lists_ok F s" "cells_ok R F H s" "buckets_ok F H s" "held_ok H s" "stats_ok H s"
    using inv by (simp_all add: kinv_def)
  have c: "va \<in> cells (kmembase s) R b" using free_cell [OF i(3)] F by simp
  obtain n j where r: "(b, p, n) \<in> R" using c p by (metis cellE)
  have cnt: "unat (ku_cnt (usage s p)) = on_page (btokup s) (F b) p" using cells_okD(3) [OF i(3) r b] .
  thus ne: "ku_cnt (usage s p) \<noteq> 0" using F p by auto
  show "ku_indx (usage s p) = b" using cell_usage [OF i(1) c] p by simp
  note ru = runs_ok_cnt [OF i(1) c b us [unfolded p] kp ar] and bt = same_arena_btokup [OF ar]
  have "lists_ok (F(b := fs)) s'"
    using lists_okD [OF i(2)] lists_okD(1,2) [OF i(2), of b] F b links bk k(1,2) by (auto simp: lists_ok_def)
  moreover have "cells_ok R (F(b := fs)) (?h # H) s'"
  proof -
    have "distinct ((F(b := fs)) b' @ held_in b' (?h # H)) \<and> set ((F(b := fs)) b' @ held_in b' (?h # H)) = cells (kmembase s') R b'" for b'
      using F by (intro cells_ok_move [OF i(3) _ ar]) (auto simp: held_in_Cons)
    moreover have "unat (ku_cnt (usage s' p')) = on_page (btokup s) ((F(b := fs)) b') p'" if "(b', p', n') \<in> R" "b' \<le> 13" for b' p' n'
    proof (cases "p' = p")
      case True
      hence "b' = b" using cell_other_page [OF i(1) c that(1)] p by auto
      thus ?thesis using True cnt F p us unat_minus_one [OF ne] by simp
    next
      case False thus ?thesis using cells_okD(3) [OF i(3) that] F p us by auto
    qed
    ultimately show ?thesis by (simp add: cells_ok_def bt)
  qed
  moreover have "buckets_ok (F(b := fs)) (?h # H) s'" using i(4) F bk k by (auto simp: buckets_ok_def held_in_Cons)
  moreover have "held_ok (?h # H) s'"
    using held_ok_cnt [OF i(1,3,5) c b us [unfolded p] ar] b by (simp add: held_ok_def)
  moreover have "stats_ok (?h # H) s'" using stats_ok_add [OF i(6), of ?h s'] ch by simp
  ultimately show "kinv R (F(b := fs)) (?h # H) s'"
    using inv ru ar us by (auto simp: kinv_def same_arena_def)
qed

subsection \<open>Putting a block back on its list\<close>

lemma elms_le: "4 \<le> b \<Longrightarrow> elms b \<le> 256"
proof -
  assume "4 \<le> b"
  hence "(2::nat) ^ (12 - b) \<le> 2 ^ 8" by (intro power_increasing) auto
  thus ?thesis by (simp add: elms_def)
qed

lemma on_page_cells:
  assumes "distinct xs" and "set xs \<subseteq> cells (kmembase s) R b"
  shows "on_page (btokup s) xs p \<le> elms b"
    and "on_page (btokup s) xs p = elms b \<Longrightarrow> j < elms b \<Longrightarrow> kmembase s + p * NBPG + j * 2 ^ b \<in> set xs"
proof -
  let ?I = "(\<lambda>j. kmembase s + p * NBPG + j * 2 ^ b) ` {..<elms b}" and ?X = "set [x \<leftarrow> xs. btokup s x = p]"
  have sub: "?X \<subseteq> ?I"
  proof
    fix x assume "x \<in> ?X"
    hence "x \<in> cells (kmembase s) R b" "btokup s x = p" using assms(2) by auto
    thus "x \<in> ?I" by (auto elim!: cellE)
  qed
  have c: "card ?X = on_page (btokup s) xs p" unfolding on_page_def by (rule distinct_card) (simp add: assms(1))
  have le: "card ?I \<le> elms b" using card_image_le [of "{..<elms b}"] by simp
  show "on_page (btokup s) xs p \<le> elms b" using card_mono [OF _ sub] c le by simp
  assume "on_page (btokup s) xs p = elms b" and "j < elms b"
  hence "?X = ?I" using card_subset_eq [OF _ sub] card_mono [OF _ sub] c le by simp
  hence "kmembase s + p * NBPG + j * 2 ^ b \<in> ?X" using \<open>j < elms b\<close> by blast
  thus "kmembase s + p * NBPG + j * 2 ^ b \<in> set xs" by simp
qed

lemma lists_ok_upd:
  assumes "lists_ok F s" and "\<And>b'. b' \<noteq> b \<Longrightarrow> a \<notin> set (F b')" and "links s' = (links s)(a := v)" and "bucket s' = (bucket s)(b := k)"
    and "lseg (links s') (kb_next k) F' 0" and "kb_totalfree k = int (length F')" and "13 < b \<Longrightarrow> F' = []"
  shows "lists_ok (F(b := F')) s'"
  using assms(2-7) lists_okD [OF assms(1)] by (auto simp: lists_ok_def)

lemma kinv_give:
  assumes inv: "kinv R F H s" and h: "h \<in> set H" "h_indx h = b" "h_addr h = a" and b: "b \<le> 13" and p: "p = btokup s a"
    and links: "links s' = (links s)(a := kb_next (bucket s b))" and bk: "bucket s' = (bucket s)(b := k)"
    and k: "kb_next k = a" "kb_totalfree k = kb_totalfree (bucket s b) + 1" "kb_total k = kb_total (bucket s b)"
      "kb_elmpercl k = kb_elmpercl (bucket s b)" "kb_highwat k = kb_highwat (bucket s b)"
    and us: "usage s' = (usage s)(p := (usage s p)\<lparr>ku_cnt := ku_cnt (usage s p) + 1\<rparr>)" and kp: "k_pages s' = k_pages s"
    and ar: "same_arena s s'" and ch: "charged (h_type h) (- 1) (- int (h_bytes h)) s s'"
  shows "kinv R (F(b := a # F b)) (remove1 h H) s'" and "unat (ku_cnt (usage s p) + 1) = unat (ku_cnt (usage s p)) + 1"
    and "unat (ku_cnt (usage s p)) + 1 \<le> elms b"
proof -
  have i: "runs_ok R s" "lists_ok F s" "cells_ok R F H s" "buckets_ok F H s" "held_ok H s" "stats_ok H s"
    using inv by (simp_all add: kinv_def)
  have c: "a \<in> cells (kmembase s) R b" using held_cell [OF i(3) h(1)] h by simp
  obtain n where r: "(b, p, n) \<in> R" using c p by (metis cellE)
  have cnt: "unat (ku_cnt (usage s p)) = on_page (btokup s) (F b) p" using cells_okD(3) [OF i(3) r b] .
  have a: "a \<in> set (held_in b H)" using h by (auto simp: held_in_def)
  hence nf: "a \<notin> set (F b)" using cells_okD(1) [OF i(3), of b] by auto
  have d: "distinct (a # F b)" "set (a # F b) \<subseteq> cells (kmembase s) R b"
    using cells_okD(1,2) [OF i(3), of b] nf c by auto
  show le: "unat (ku_cnt (usage s p)) + 1 \<le> elms b" using on_page_cells(1) [OF d, of p] cnt p by simp
  hence "unat (ku_cnt (usage s p)) < 65535" using elms_le run_okD(1) [OF i(1) r] by fastforce
  thus cnt1: "unat (ku_cnt (usage s p) + 1) = unat (ku_cnt (usage s p)) + 1" by (simp add: unat_word_ariths)
  note ru = runs_ok_cnt [OF i(1) c b us [unfolded p] kp ar] and bt = same_arena_btokup [OF ar]
  have "lists_ok (F(b := a # F b)) s'"
  proof (rule lists_ok_upd [OF i(2) _ links bk])
    show "a \<notin> set (F b')" if "b' \<noteq> b" for b' using cells_bucket [OF i(1) c free_cell [OF i(3)]] that by blast
    show "lseg (links s') (kb_next k) (a # F b) 0"
    proof -
      have "a \<noteq> 0" using cells_nonzero [of s R b] c inv by (cases "a = 0") (auto simp: kinv_def)
      thus ?thesis using lists_okD(1) [OF i(2), of b] nf links k(1) by simp
    qed
  qed (use lists_okD(2) [OF i(2)] k b in auto)
  moreover have "cells_ok R (F(b := a # F b)) (remove1 h H) s'"
  proof -
    have "distinct ((F(b := a # F b)) b' @ held_in b' (remove1 h H)) \<and>
        set ((F(b := a # F b)) b' @ held_in b' (remove1 h H)) = cells (kmembase s') R b'" for b'
      using held_in_remove [OF h(1), of b'] h by (intro cells_ok_move [OF i(3) _ ar]) auto
    moreover have "unat (ku_cnt (usage s' p')) = on_page (btokup s) ((F(b := a # F b)) b') p'" if "(b', p', n') \<in> R" "b' \<le> 13" for b' p' n'
    proof (cases "p' = p")
      case True
      hence "b' = b" using cell_other_page [OF i(1) c that(1)] p by auto
      thus ?thesis using True cnt p us cnt1 by simp
    next
      case False thus ?thesis using cells_okD(3) [OF i(3) that] p us by auto
    qed
    ultimately show ?thesis by (simp add: cells_ok_def bt)
  qed
  moreover have "buckets_ok (F(b := a # F b)) (remove1 h H) s'"
  proof -
    have "length (held_in b' H) = (if b' = b then 1 else 0) + length (held_in b' (remove1 h H))" for b'
      using mset_eq_length [OF held_in_remove [OF h(1), of b']] h by auto
    thus ?thesis using i(4) bk k by (auto simp: buckets_ok_def)
  qed
  moreover have "held_ok (remove1 h H) s'"
    using held_ok_cnt [OF i(1,3,5) c b us [unfolded p] ar] set_remove1_subset [of h H] by (auto simp: held_ok_def)
  moreover note stats_ok_remove [OF i(6) h(1) ch]
  ultimately show "kinv R (F(b := a # F b)) (remove1 h H) s'"
    using inv ru ar us by (auto simp: kinv_def same_arena_def)
qed

subsection \<open>New pages\<close>

lemma runs_ok_insert:
  assumes "runs_ok R s" and fresh: "\<And>i. i \<in> pages_of (b, p, n) \<Longrightarrow> \<not> k_pages s i"
    and "4 \<le> b" "b < 20" "0 < n" "n < 65536" "b \<le> 13 \<Longrightarrow> n = (if b = 13 then 2 else 1)" "p + n \<le> kmemsize s div NBPG"
    and us: "usage s' = (usage s)(p := (usage s p)\<lparr>ku_indx := b, ku_cnt := c\<rparr>)" and "13 < b \<Longrightarrow> c = of_nat n"
    and "k_pages s' = (\<lambda>i. k_pages s i \<or> i \<in> pages_of (b, p, n))" and ar: "same_arena s s'"
  shows "runs_ok (insert (b, p, n) R) s'"
proof -
  have in_map: "k_pages s i = (\<exists>r \<in> R. i \<in> pages_of r)" for i using assms(1) unfolding runs_ok_def by blast
  have apart: "pages_of (b, p, n) \<inter> pages_of r = {}" if "r \<in> R" for r using fresh in_map that by blast
  have ne: "p' \<noteq> p" if "(b', p', n') \<in> R" for b' p' n'
    using apart [OF that] run_okD(10) [OF assms(1) that] assms(5) by (auto simp: pages_of_def)
  have "(b', p', n') \<in> insert (b, p, n) R \<Longrightarrow> 4 \<le> b' \<and> b' < 20 \<and> 0 < n' \<and> n' < 65536 \<and> (b' \<le> 13 \<longrightarrow> n' = (if b' = 13 then 2 else 1)) \<and>
       p' + n' \<le> kmemsize s' div NBPG \<and> ku_indx (usage s' p') = b' \<and> (13 < b' \<longrightarrow> ku_cnt (usage s' p') = of_nat n')" for b' p' n'
  proof (cases "(b', p', n') = (b, p, n)")
    case True thus ?thesis using assms(3-8,10) us ar by (simp add: same_arena_def)
  next
    case False
    moreover assume "(b', p', n') \<in> insert (b, p, n) R"
    ultimately have r: "(b', p', n') \<in> R" by auto
    note o = run_okD [OF assms(1) r]
    have "usage s' p' = usage s p'" "kmemsize s' = kmemsize s" using us ar ne [OF r] by (simp_all add: same_arena_def)
    moreover have "b' \<le> 13 \<longrightarrow> n' = (if b' = 13 then 2 else 1)" using o(5,6) by auto
    ultimately show ?thesis using o by simp
  qed
  moreover have "r = r'" if "r \<in> insert (b, p, n) R" "r' \<in> insert (b, p, n) R" "pages_of r \<inter> pages_of r' \<noteq> {}" for r r'
    using that apart [of r] apart [of r'] runs_unique [OF assms(1), of r r'] by blast
  ultimately show ?thesis using in_map assms(11) unfolding runs_ok_def by auto
qed

lemma cells_insert:
  "cells base (insert (b, p, n) R) b' = (if b' = b then (\<lambda>j. base + p * NBPG + j * 2 ^ b) ` {..<elms b} \<union> cells base R b else cells base R b')"
  by (auto simp: cells_def)


lemma fresh_page:
  assumes "runs_ok R s" and "\<not> k_pages s p" and "a \<in> cells (kmembase s) R b"
  shows "btokup s a \<noteq> p"
proof -
  obtain n where r: "(b, btokup s a, n) \<in> R" using assms(3) by (metis cellE)
  have "k_pages s (btokup s a)" using run_okD(10) [OF assms(1) r] assms(1) r unfolding runs_ok_def by blast
  thus ?thesis using assms(2) by blast
qed

lemma held_ok_page:
  assumes "held_ok H s" and "\<And>h. h \<in> set H \<Longrightarrow> btokup s (h_addr h) \<noteq> p" and "usage s' = (usage s)(p := u)" and "same_arena s s'"
  shows "held_ok H s'"
  using assms(1-3) unfolding held_ok_def same_arena_btokup [OF assms(4)] by simp

text \<open>The free list after the loop that links the cells of new pages from the highest down.\<close>

definition new_cells :: "nat \<Rightarrow> nat \<Rightarrow> nat \<Rightarrow> nat list" where
  "new_cells va sz k = rev (map (\<lambda>j. va + j * sz) [0..<k])"

lemma new_cells_Suc: "new_cells va sz (Suc k) = (va + k * sz) # new_cells va sz k"
  by (simp add: new_cells_def)

lemma set_new_cells: "set (new_cells va sz k) = (\<lambda>j. va + j * sz) ` {..<k}"
  by (auto simp: new_cells_def)

lemma distinct_new_cells: "0 < sz \<Longrightarrow> distinct (new_cells va sz k)"
  by (auto simp: new_cells_def distinct_map inj_on_def)

lemma link_down_other: "a \<notin> set (new_cells va sz (Suc k)) \<Longrightarrow> link_down va sz k saved L a = L a"
  by (induction k arbitrary: L) (auto simp: new_cells_def)

lemma link_down_lseg:
  assumes "0 < sz" and "0 < va"
  shows "lseg (link_down va sz k saved L) (va + k * sz) (new_cells va sz (Suc k)) saved"
proof (induction k arbitrary: L)
  case 0 thus ?case using assms(2) by (simp add: new_cells_def)
next
  case (Suc k)
  have "va + Suc k * sz \<notin> set (new_cells va sz (Suc k))"
    using distinct_new_cells [OF assms(1), of va "Suc (Suc k)"] by (simp add: new_cells_Suc)
  thus ?case using Suc.IH assms(2) link_down_other
    by (subst new_cells_Suc) simp
qed

lemma kinv_new_list:
  assumes inv: "kinv R F H s" and fresh: "\<And>i. i \<in> pages_of (b, p, n) \<Longrightarrow> \<not> k_pages s i"
    and b: "4 \<le> b" "b \<le> 13" and n: "n = (if b = 13 then 2 else 1)" and fit: "p + n \<le> kmemsize s div NBPG" and va: "va = kmembase s + p * NBPG"
    and links: "links s' = link_down va (2 ^ b) (elms b - 1) (kb_next (bucket s b)) (links s)" and bk: "bucket s' = (bucket s)(b := k)"
    and k: "kb_next k = va + (elms b - 1) * 2 ^ b" "kb_totalfree k = kb_totalfree (bucket s b) + int (elms b)"
      "kb_total k = kb_total (bucket s b) + int (elms b)"
      "kb_elmpercl k = kb_elmpercl (bucket s b)" "kb_highwat k = kb_highwat (bucket s b)"
    and us: "usage s' = (usage s)(p := (usage s p)\<lparr>ku_indx := b, ku_cnt := of_nat (elms b)\<rparr>)"
    and kp: "k_pages s' = (\<lambda>i. k_pages s i \<or> i \<in> pages_of (b, p, n))" and st: "stats s' = stats s" and ar: "same_arena s s'"
  shows "kinv (insert (b, p, n) R) (F(b := new_cells va (2 ^ b) (elms b) @ F b)) H s'"
proof -
  let ?N = "new_cells va (2 ^ b) (elms b)" let ?F = "F(b := ?N @ F b)" let ?R = "insert (b, p, n) R"
  have i: "runs_ok R s" "lists_ok F s" "cells_ok R F H s" "buckets_ok F H s" "held_ok H s" "stats_ok H s" "0 < va"
    using inv va by (simp_all add: kinv_def)
  have np: "\<not> k_pages s p" using fresh [of p] n by (auto simp: pages_of_def)
  have ru: "runs_ok ?R s'" using runs_ok_insert [OF i(1) fresh b(1) _ _ _ _ fit us _ kp ar] b n by simp
  note bt = same_arena_btokup [OF ar]
  have e: "Suc (elms b - 1) = elms b" by simp
  have N: "btokup s x = p" if "x \<in> set ?N" for x using that cell_page [of _ b s p] va by (auto simp: set_new_cells)
  have op: "a \<notin> set ?N" if "a \<in> cells (kmembase s) R b'" for a b' using fresh_page [OF i(1) np that] N by blast
  have cB: "cells (kmembase s) ?R b' = (if b' = b then set ?N \<union> cells (kmembase s) R b else cells (kmembase s) R b')" for b'
    using va by (simp add: cells_insert set_new_cells)
  have Fop: "a \<notin> set ?N" if "a \<in> set (F b')" for a b' using op free_cell [OF i(3) that] .
  have "lists_ok ?F s'"
  proof -
    have old: "lseg (links s') q (F b') 0 = lseg (links s) q (F b') 0" for q b'
      using link_down_other [of _ va "2 ^ b" "elms b - 1"] Fop [of _ b'] unfolding links e by (intro lseg_cong) blast
    have "lseg (links s') (kb_next k) (?N @ F b) 0"
      using link_down_lseg [of "2 ^ b" va "elms b - 1" "kb_next (bucket s b)" "links s"] i(7) lists_okD(1) [OF i(2), of b] old
      unfolding lseg_append e k(1) links by auto
    moreover have "kb_totalfree k = int (length (?N @ F b))" using lists_okD(2) [OF i(2), of b] k(2) by (simp add: new_cells_def)
    ultimately show ?thesis using lists_okD [OF i(2)] old b(2) bk by (simp add: lists_ok_def)
  qed
  moreover have "cells_ok ?R ?F H s'"
  proof -
    have "distinct (?F b' @ held_in b' H) \<and> set (?F b' @ held_in b' H) = cells (kmembase s') ?R b'" for b'
    proof (cases "b' = b")
      case True
      have "set ?N \<inter> (set (F b) \<union> set (held_in b H)) = {}" using op [of _ b] cells_okD(2) [OF i(3), of b] by blast
      thus ?thesis using cells_okD(1,2) [OF i(3), of b] True ar cB [of b] distinct_new_cells [of "2 ^ b" va "elms b"]
        by (auto simp: same_arena_def)
    next
      case False thus ?thesis using cells_okD(1,2) [OF i(3), of b'] ar cB [of b'] by (simp add: same_arena_def)
    qed
    moreover have "unat (ku_cnt (usage s' p')) = on_page (btokup s) (?F b') p'" if "(b', p', n') \<in> ?R" "b' \<le> 13" for b' p' n'
    proof (cases "p' = p")
      case True
      have "(b', p', n') = (b, p, n)"
        using runs_unique [OF ru that(1), of "(b, p, n)" p] run_okD(10) [OF ru, of b p n] run_okD(10) [OF ru that(1)] True by simp
      moreover have "on_page (btokup s) (F b) p = 0" using fresh_page [OF i(1) np free_cell [OF i(3)]] by (intro on_page_zero) blast
      moreover have "on_page (btokup s) ?N p = elms b"
        unfolding on_page_def using N by (subst filter_True) (auto simp: new_cells_def)
      moreover have "unat (of_nat (elms b) :: u16) = elms b" using elms_le [OF b(1)] by (simp add: unat_of_nat)
      ultimately show ?thesis using us by simp
    next
      case False
      hence "(b', p', n') \<in> R" using that by auto
      moreover have "on_page (btokup s) ?N p' = 0" using N False by (intro on_page_zero) blast
      ultimately show ?thesis using cells_okD(3) [OF i(3) _ that(2)] us False by auto
    qed
    ultimately show ?thesis by (simp add: cells_ok_def bt)
  qed
  moreover have "buckets_ok ?F H s'" using i(4) bk k by (auto simp: buckets_ok_def new_cells_def)
  moreover have "held_ok H s'" by (rule held_ok_page [OF i(5) fresh_page [OF i(1) np held_cell [OF i(3)]] us ar])
  moreover note stats_ok_same [OF i(6) st]
  ultimately show ?thesis using inv ru ar us by (auto simp: kinv_def same_arena_def)
qed

lemma kinv_new_large:
  assumes inv: "kinv R F H s" and fresh: "\<And>i. i \<in> pages_of (b, p, n) \<Longrightarrow> \<not> k_pages s i"
    and b: "13 < b" "b < 20" and n: "0 < n" "n < 65536" and fit: "p + n \<le> kmemsize s div NBPG" and va: "va = kmembase s + p * NBPG"
    and links: "links s' = links s" and bk: "bucket s' = (bucket s)(b := k)"
    and k: "kb_next k = kb_next (bucket s b)" "kb_totalfree k = kb_totalfree (bucket s b)" "kb_total k = kb_total (bucket s b) + 1"
      "kb_elmpercl k = kb_elmpercl (bucket s b)" "kb_highwat k = kb_highwat (bucket s b)"
    and us: "usage s' = (usage s)(p := (usage s p)\<lparr>ku_indx := b, ku_cnt := of_nat n\<rparr>)"
    and kp: "k_pages s' = (\<lambda>i. k_pages s i \<or> i \<in> pages_of (b, p, n))" and ar: "same_arena s s'"
    and ch: "charged t 1 (int (n * NBPG)) s s'"
  shows "kinv (insert (b, p, n) R) F (\<lparr>h_addr = va, h_indx = b, h_bytes = n * NBPG, h_type = t\<rparr> # H) s'"
proof -
  let ?h = "\<lparr>h_addr = va, h_indx = b, h_bytes = n * NBPG, h_type = t\<rparr>" let ?R = "insert (b, p, n) R"
  have i: "runs_ok R s" "lists_ok F s" "cells_ok R F H s" "buckets_ok F H s" "held_ok H s" "stats_ok H s"
    using inv by (simp_all add: kinv_def)
  have np: "\<not> k_pages s p" using fresh [of p] n by (auto simp: pages_of_def)
  have ru: "runs_ok ?R s'" using runs_ok_insert [OF i(1) fresh _ b(2) n _ fit us _ kp ar] b by simp
  note bt = same_arena_btokup [OF ar]
  have e: "elms b = 1" using b by (simp add: elms_def)
  have pv: "btokup s va = p" using cell_page [of 0 b s p] va e by simp
  have op: "va \<notin> cells (kmembase s) R b'" for b' using fresh_page [OF i(1) np] pv by blast
  have cB: "cells (kmembase s) ?R b' = (if b' = b then insert va (cells (kmembase s) R b) else cells (kmembase s) R b')" for b'
    using va e by (auto simp: cells_insert)
  have "lists_ok F s'" using lists_okD [OF i(2)] links bk k by (simp add: lists_ok_def)
  moreover have "cells_ok ?R F (?h # H) s'"
  proof -
    have "distinct (F b' @ held_in b' (?h # H)) \<and> set (F b' @ held_in b' (?h # H)) = cells (kmembase s') ?R b'" for b'
      using cells_okD(1,2) [OF i(3), of b'] ar cB [of b'] op [of b'] by (auto simp: same_arena_def held_in_Cons)
    moreover have "unat (ku_cnt (usage s' p')) = on_page (btokup s) (F b') p'" if "(b', p', n') \<in> ?R" "b' \<le> 13" for b' p' n'
    proof -
      have r: "(b', p', n') \<in> R" using that b by auto
      hence "k_pages s p'" using i(1) run_okD(10) [OF i(1) r] unfolding runs_ok_def by blast
      thus ?thesis using cells_okD(3) [OF i(3) r that(2)] us np by auto
    qed
    ultimately show ?thesis by (simp add: cells_ok_def bt)
  qed
  moreover have "buckets_ok F (?h # H) s'" using i(4) bk k by (auto simp: buckets_ok_def held_in_Cons)
  moreover have "held_ok (?h # H) s'"
  proof -
    have "held_ok H s'" by (rule held_ok_page [OF i(5) fresh_page [OF i(1) np held_cell [OF i(3)]] us ar])
    moreover have "unat (of_nat n :: u16) = n" using n(2) by (simp add: unat_of_nat)
    ultimately show ?thesis using us pv b by (simp add: held_ok_def bt)
  qed
  moreover have "stats_ok (?h # H) s'" using stats_ok_add [OF i(6), of ?h s'] ch by simp
  ultimately show ?thesis using inv ru ar us by (auto simp: kinv_def same_arena_def)
qed

subsection \<open>Pages given back\<close>

lemma runs_ok_remove:
  assumes "runs_ok R s" and "D \<subseteq> R" and us: "\<And>i. (\<forall>r \<in> D. i \<notin> pages_of r) \<Longrightarrow> usage s' i = usage s i"
    and kp: "\<And>i. k_pages s' i = (k_pages s i \<and> (\<forall>r \<in> D. i \<notin> pages_of r))" and ar: "same_arena s s'"
  shows "runs_ok (R - D) s'"
proof -
  have out: "i \<notin> pages_of r'" if "r \<in> R - D" "i \<in> pages_of r" "r' \<in> D" for r r' i
    using runs_unique [OF assms(1), of r r' i] that assms(2) by blast
  have "4 \<le> b \<and> b < 20 \<and> 0 < n \<and> n < 65536 \<and> (b \<le> 13 \<longrightarrow> n = (if b = 13 then 2 else 1)) \<and>
       p + n \<le> kmemsize s' div NBPG \<and> ku_indx (usage s' p) = b \<and> (13 < b \<longrightarrow> ku_cnt (usage s' p) = of_nat n)"
    if "(b, p, n) \<in> R - D" for b p n
  proof -
    have r: "(b, p, n) \<in> R" using that by simp
    note o = run_okD [OF assms(1) r]
    have "usage s' p = usage s p" "kmemsize s' = kmemsize s" using us out [OF that o(10)] ar by (auto simp: same_arena_def)
    moreover have "b \<le> 13 \<longrightarrow> n = (if b = 13 then 2 else 1)" using o(5,6) by auto
    ultimately show ?thesis using o by simp
  qed
  moreover have "k_pages s' i = (\<exists>r \<in> R - D. i \<in> pages_of r)" for i
  proof -
    have "k_pages s i = (\<exists>r \<in> R. i \<in> pages_of r)" using assms(1) unfolding runs_ok_def by blast
    thus ?thesis using kp out by blast
  qed
  moreover have "\<forall>r \<in> R - D. \<forall>r' \<in> R - D. pages_of r \<inter> pages_of r' \<noteq> {} \<longrightarrow> r = r'" using runs_unique [OF assms(1)] by blast
  ultimately show ?thesis unfolding runs_ok_def by blast
qed

lemma cells_remove:
  assumes "runs_ok R s" and "D \<subseteq> R"
  shows "cells (kmembase s) (R - D) b = cells (kmembase s) R b - cells (kmembase s) D b"
proof (intro equalityI subsetI)
  fix a assume "a \<in> cells (kmembase s) (R - D) b"
  then obtain p n j where r: "(b, p, n) \<in> R - D" "j < elms b" "a = kmembase s + p * NBPG + j * 2 ^ b" "btokup s a = p" by (rule cellE)
  have "a \<notin> cells (kmembase s) D b"
  proof
    assume "a \<in> cells (kmembase s) D b"
    then obtain n' where d: "(b, p, n') \<in> D" using r(4) by (metis cellE)
    have "(b, p, n) = (b, p, n')"
      using runs_unique [OF assms(1) _ _ run_okD(10) [OF assms(1)] run_okD(10) [OF assms(1)]] r(1) d assms(2) by blast
    thus False using r(1) d by simp
  qed
  thus "a \<in> cells (kmembase s) R b - cells (kmembase s) D b" using r by (auto simp: cells_def)
next
  fix a assume a: "a \<in> cells (kmembase s) R b - cells (kmembase s) D b"
  then obtain p n j where r: "(b, p, n) \<in> R" "j < elms b" "a = kmembase s + p * NBPG + j * 2 ^ b" by (metis DiffD1 cellE)
  hence "(b, p, n) \<notin> D" using a by (auto simp: cells_def)
  thus "a \<in> cells (kmembase s) (R - D) b" using r by (auto simp: cells_def)
qed

lemma kinv_free_run:
  assumes inv: "kinv R F H s" and h: "h \<in> set H" "h_indx h = b" "h_addr h = a" and b: "12 \<le> b" and p: "p = btokup s a"
    and n: "n = h_bytes h div NBPG"
    and links: "links s' = links s" and bk: "bucket s' = (bucket s)(b := k)"
    and k: "kb_next k = kb_next (bucket s b)" "kb_totalfree k = kb_totalfree (bucket s b)" "kb_total k = kb_total (bucket s b) - 1"
      "kb_elmpercl k = kb_elmpercl (bucket s b)" "kb_highwat k = kb_highwat (bucket s b)"
    and us: "usage s' = (usage s)(p := (usage s p)\<lparr>ku_indx := 0, ku_cnt := 0\<rparr>)"
    and kp: "k_pages s' = (\<lambda>i. k_pages s i \<and> \<not> (p \<le> i \<and> i < p + n))" and ar: "same_arena s s'"
    and ch: "charged (h_type h) (- 1) (- int (h_bytes h)) s s'"
  shows "kinv (R - {(b, p, n)}) F (remove1 h H) s'"
proof -
  have i: "runs_ok R s" "lists_ok F s" "cells_ok R F H s" "buckets_ok F H s" "held_ok H s" "stats_ok H s"
    using inv by (simp_all add: kinv_def)
  let ?D = "{(b, p, n)}"
  have c: "a \<in> cells (kmembase s) R b" using held_cell [OF i(3) h(1)] h by simp
  obtain n' j where r': "(b, p, n') \<in> R" "j < elms b" "a = kmembase s + p * NBPG + j * 2 ^ b" using c p by (metis cellE)
  have e: "elms b = 1" using b by (simp add: elms_def)
  have "h_bytes h = (if b \<le> 13 then 2 ^ b else unat (ku_cnt (usage s p)) * NBPG)" using i(5) h p by (auto simp: held_ok_def)
  moreover have "b = 12 \<or> b = 13 \<or> 13 < b" using b by auto
  moreover have "unat (of_nat n' :: u16) = n'" using run_okD(4) [OF i(1) r'(1)] by (simp add: unat_of_nat)
  ultimately have nn: "n' = n" using run_okD(5,6,9) [OF i(1) r'(1)] n by (auto simp: NBPG_def)
  have r: "(b, p, n) \<in> R" using r' nn by simp
  have ru: "runs_ok (R - ?D) s'"
    using run_okD(10) [OF i(1) r] us kp ar r by (intro runs_ok_remove [OF i(1)]) (auto simp: pages_of_def)
  note bt = same_arena_btokup [OF ar]
  have "cells (kmembase s) ?D b' = (if b' = b then {a} else {})" for b' using r' e by (auto simp: cells_def)
  hence cD: "cells (kmembase s) (R - ?D) b' = cells (kmembase s) R b' - (if b' = b then {a} else {})" for b'
    using cells_remove [OF i(1), of ?D b'] r by simp
  have m: "mset (held_in b' H) = mset (if b = b' then a # held_in b' (remove1 h H) else held_in b' (remove1 h H))" for b'
    using held_in_remove [OF h(1), of b'] h by simp
  have "lists_ok F s'" using lists_okD [OF i(2)] links bk k by (simp add: lists_ok_def)
  moreover have "cells_ok (R - ?D) F (remove1 h H) s'"
  proof -
    have "distinct (F b' @ held_in b' (remove1 h H)) \<and> set (F b' @ held_in b' (remove1 h H)) = cells (kmembase s') (R - ?D) b'" for b'
    proof -
      have "mset (F b' @ held_in b' H) = mset ((if b = b' then [a] else []) @ F b' @ held_in b' (remove1 h H))" using m [of b'] by simp
      note mset_eq_imp_distinct_iff [OF this] mset_eq_setD [OF this]
      thus ?thesis using cells_okD(1,2) [OF i(3), of b'] cD [of b'] ar by (auto simp: same_arena_def split: if_splits)
    qed
    moreover have "unat (ku_cnt (usage s' p')) = on_page (btokup s) (F b') p'" if "(b', p', n'') \<in> R - ?D" "b' \<le> 13" for b' p' n''
    proof -
      have rr: "(b', p', n'') \<in> R" using that by simp
      have "p' \<noteq> p" using runs_unique [OF i(1) rr r run_okD(10) [OF i(1) rr]] run_okD(10) [OF i(1) r] that by auto
      thus ?thesis using cells_okD(3) [OF i(3) rr that(2)] us by simp
    qed
    ultimately show ?thesis by (simp add: cells_ok_def bt)
  qed
  moreover have "buckets_ok F (remove1 h H) s'"
    using i(4) bk k mset_eq_length [OF m] by (auto simp: buckets_ok_def)
  moreover have "held_ok (remove1 h H) s'"
  proof (rule held_ok_page [OF _ _ us ar])
    show "held_ok (remove1 h H) s" using i(5) set_remove1_subset [of h H] by (auto simp: held_ok_def)
    fix g assume g: "g \<in> set (remove1 h H)"
    hence gc: "h_addr g \<in> cells (kmembase s) R (h_indx g)" using held_cell [OF i(3)] set_remove1_subset by fastforce
    show "btokup s (h_addr g) \<noteq> p"
    proof
      assume q: "btokup s (h_addr g) = p"
      hence gb: "h_indx g = b" using cell_run [OF i(1) gc r] run_okD(10) [OF i(1) r] by simp
      obtain j' where "j' < elms b" "h_addr g = kmembase s + p * NBPG + j' * 2 ^ b" using gc q gb by (metis cellE)
      hence "h_addr g = a" using r'(2,3) e by simp
      hence "a \<in> set (held_in b (remove1 h H))" using g gb by (auto simp: held_in_def)
      moreover have "distinct (held_in b H)" using cells_okD(1) [OF i(3), of b] by simp
      ultimately show False using mset_eq_imp_distinct_iff [OF m [of b]] by simp
    qed
  qed
  moreover note stats_ok_remove [OF i(6) h(1) ch]
  ultimately show ?thesis using inv ru ar us by (auto simp: kinv_def same_arena_def)
qed

subsection \<open>Compaction\<close>

lemma on_page_sum: "distinct I \<Longrightarrow> length [x \<leftarrow> B. page x \<in> set I] = (\<Sum>i \<leftarrow> I. on_page page B i)"
proof (induction I)
  case (Cons i I)
  have "length [x \<leftarrow> B. page x \<in> set (i # I)] = on_page page B i + length [x \<leftarrow> B. page x \<in> set I]"
    using Cons.prems by (induction B) auto
  thus ?case using Cons by simp
qed simp

lemma full_pages_chunks:
  assumes "\<And>x. x \<in> set B \<Longrightarrow> page x < n"
  shows "length [x \<leftarrow> B. on_page page B (page x) = e] = e * full_pages n (\<lambda>i. int (on_page page B i)) (int e)"
proof -
  let ?I = "[i \<leftarrow> [0..<n]. on_page page B i = e]"
  have "[x \<leftarrow> B. on_page page B (page x) = e] = [x \<leftarrow> B. page x \<in> set ?I]" using assms by (intro filter_cong) auto
  moreover have "(\<Sum>i \<leftarrow> ?I. on_page page B i) = (\<Sum>i \<leftarrow> ?I. e)" by (intro arg_cong [of _ _ sum_list] map_cong) auto
  moreover have "length [x \<leftarrow> B. page x \<in> set ?I] = (\<Sum>i \<leftarrow> ?I. on_page page B i)" by (rule on_page_sum) simp
  ultimately have "length [x \<leftarrow> B. on_page page B (page x) = e] = length ?I * e" by (simp only: sum_list_triv of_nat_id)
  thus ?thesis by (simp add: full_pages_def)
qed

lemma gc_sorted_mset: "mset (gc_sorted c e B) = mset [x \<leftarrow> B. c x \<noteq> e]"
  unfolding gc_sorted_def by (induction B) auto

lemma on_page_filter: "(\<And>x. x \<in> set B \<Longrightarrow> page x = p \<Longrightarrow> P x) \<Longrightarrow> on_page page [x \<leftarrow> B. P x] p = on_page page B p"
  by (induction B) auto

text \<open>The pages that the chunks of \<open>B\<close> fill are whole runs, and their cells are the chunks dropped.\<close>

definition full_runs :: "kstate \<Rightarrow> nat \<Rightarrow> nat list \<Rightarrow> run set" where
  "full_runs s b B = {(b, p, 1) | p. p < kmemsize s div NBPG \<and> on_page (btokup s) B p = elms b}"

lemma cell_in_arena:
  assumes "runs_ok R s" and "x \<in> cells (kmembase s) R b"
  shows "btokup s x < kmemsize s div NBPG"
proof -
  obtain n where r: "(b, btokup s x, n) \<in> R" using cell_at(1) [OF assms(2)] by blast
  show ?thesis using run_okD(3,7) [OF assms(1) r] by simp
qed

lemma full_runs_pages: "(\<exists>r \<in> full_runs s b B. q \<in> pages_of r) = (q < kmemsize s div NBPG \<and> on_page (btokup s) B q = elms b)"
proof -
  have "pages_of (b, p, 1) = {p}" for p by (auto simp: pages_of_def)
  thus ?thesis by (auto simp: full_runs_def)
qed

lemma full_runs_sub:
  assumes "runs_ok R s" and "distinct B" and "set B \<subseteq> cells (kmembase s) R b" and "b < 12"
  shows "full_runs s b B \<subseteq> R"
proof
  fix r assume "r \<in> full_runs s b B"
  then obtain p where p: "r = (b, p, 1)" "on_page (btokup s) B p = elms b" unfolding full_runs_def by blast
  have "kmembase s + p * NBPG + 0 * 2 ^ b \<in> set B" by (rule on_page_cells(2) [OF assms(2,3) p(2) elms_pos])
  hence "kmembase s + p * NBPG + 0 * 2 ^ b \<in> cells (kmembase s) R b" using assms(3) by blast
  from cell_at(1) [OF this] obtain n where r: "(b, p, n) \<in> R" unfolding cell_page [OF elms_pos] by blast
  thus "r \<in> R" using run_okD(5) [OF assms(1) r] assms(4) p by simp
qed

lemma full_runs_cells:
  assumes "runs_ok R s" and "distinct B" and "set B \<subseteq> cells (kmembase s) R b"
  shows "cells (kmembase s) (full_runs s b B) b = {x \<in> set B. on_page (btokup s) B (btokup s x) = elms b}"
proof (intro equalityI subsetI)
  fix x assume "x \<in> cells (kmembase s) (full_runs s b B) b"
  then obtain p n j where "(b, p, n) \<in> full_runs s b B" "j < elms b" "x = kmembase s + p * NBPG + j * 2 ^ b" "btokup s x = p" by (rule cellE)
  thus "x \<in> {x \<in> set B. on_page (btokup s) B (btokup s x) = elms b}" using on_page_cells(2) [OF assms(2,3)] by (auto simp: full_runs_def)
next
  fix x assume x: "x \<in> {x \<in> set B. on_page (btokup s) B (btokup s x) = elms b}"
  hence c: "x \<in> cells (kmembase s) R b" using assms(3) by blast
  have "(b, btokup s x, 1) \<in> full_runs s b B" using x cell_in_arena [OF assms(1) c] by (simp add: full_runs_def)
  thus "x \<in> cells (kmembase s) (full_runs s b B) b" using cell_at(2) [OF c] unfolding cells_def by blast
qed

text \<open>The chunks kept.\<close>

definition gc_kept_list :: "kstate \<Rightarrow> nat \<Rightarrow> nat list \<Rightarrow> nat list" where
  "gc_kept_list s b B = gc_sorted (\<lambda>x. int (on_page (btokup s) B (btokup s x))) (int (elms b)) B"

lemma gc_kept_mset: "mset (gc_kept_list s b B) = mset [x \<leftarrow> B. on_page (btokup s) B (btokup s x) \<noteq> elms b]"
  unfolding gc_kept_list_def gc_sorted_mset by simp

lemma gc_kept_set: "set (gc_kept_list s b B) = {x \<in> set B. on_page (btokup s) B (btokup s x) \<noteq> elms b}"
  using mset_eq_setD [OF gc_kept_mset] by simp

lemma gc_kept_distinct: "distinct B \<Longrightarrow> distinct (gc_kept_list s b B)"
  using mset_eq_imp_distinct_iff [OF gc_kept_mset] by simp

lemma gc_kept_length:
  assumes "\<And>x. x \<in> set B \<Longrightarrow> btokup s x < kmemsize s div NBPG"
  shows "length B = length (gc_kept_list s b B) + elms b * full_pages (kmemsize s div NBPG) (\<lambda>i. int (on_page (btokup s) B i)) (int (elms b))"
  using full_pages_chunks [OF assms, where e = "elms b"] mset_eq_length [OF gc_kept_mset, of s b B]
    sum_length_filter_compl [of "\<lambda>x. on_page (btokup s) B (btokup s x) = elms b" B] by simp

lemma gc_kept_on_page:
  assumes "on_page (btokup s) B p \<noteq> elms b"
  shows "on_page (btokup s) (gc_kept_list s b B) p = on_page (btokup s) B p"
  unfolding on_page_mset [OF gc_kept_mset] using assms by (intro on_page_filter) blast

lemma gc_cells_ok:
  assumes i: "runs_ok R s" "cells_ok R F H s" and AB: "F b = A @ B" and b: "b < 12" and ar: "same_arena s s'" and us: "usage s' = usage s"
  shows "cells_ok (R - full_runs s b B) (F(b := gc_kept_list s b B @ A)) H s'"
proof -
  let ?D = "full_runs s b B" let ?F = "F(b := gc_kept_list s b B @ A)"
  have d: "distinct (A @ B @ held_in b H)" "set B \<subseteq> cells (kmembase s) R b" using cells_okD(1,2) [OF i(2), of b] unfolding AB by auto
  have dB: "distinct B" using d(1) by simp
  note DR = full_runs_sub [OF i(1) dB d(2) b]
  have "distinct (?F b' @ held_in b' H) \<and> set (?F b' @ held_in b' H) = cells (kmembase s') (R - ?D) b'" for b'
  proof (cases "b' = b")
    case True
    have "cells (kmembase s) (R - ?D) b = set (A @ B) \<union> set (held_in b H) - {x \<in> set B. on_page (btokup s) B (btokup s x) = elms b}"
      unfolding cells_remove [OF i(1) DR] full_runs_cells [OF i(1) dB d(2)] AB [symmetric] cells_okD(2) [OF i(2), symmetric] ..
    thus ?thesis using True ar gc_kept_distinct [OF dB, of s b] gc_kept_set [of s b B] d(1) by (auto simp: same_arena_def)
  next
    case False
    hence "cells (kmembase s) (R - ?D) b' = cells (kmembase s) R b'" by (auto simp: cells_def full_runs_def)
    thus ?thesis using False ar cells_okD(1,2) [OF i(2), of b'] by (simp add: same_arena_def)
  qed
  moreover have "unat (ku_cnt (usage s p)) = on_page (btokup s) (?F b') p" if r: "(b', p, n) \<in> R - ?D" "b' \<le> 13" for b' p n
  proof -
    have rR: "(b', p, n) \<in> R" using r by simp
    have "on_page (btokup s) (gc_kept_list s b B @ A) p = on_page (btokup s) (F b) p" if "b' = b"
    proof -
      have "n = 1" "p < kmemsize s div NBPG" using run_okD(5,7) [OF i(1) rR] that b by auto
      hence "on_page (btokup s) B p \<noteq> elms b" using r(1) that by (auto simp: full_runs_def)
      thus ?thesis using gc_kept_on_page AB by simp
    qed
    thus ?thesis using cells_okD(3) [OF i(2) rR r(2)] by auto
  qed
  ultimately show ?thesis unfolding cells_ok_def same_arena_btokup [OF ar] us by blast
qed

lemma gc_lists_ok:
  assumes i: "runs_ok R s" "lists_ok F s" "cells_ok R F H s" and AB: "F b = A @ B" and b: "b < 12"
    and g: "lseg (links s') (kb_next (bucket s' b)) F' 0" "\<forall>a. a \<notin> set (A @ B) \<longrightarrow> links s' a = links s a"
    and bk: "\<And>b'. b' \<noteq> b \<Longrightarrow> bucket s' b' = bucket s b'" and tf: "kb_totalfree (bucket s' b) = int (length F')"
  shows "lists_ok (F(b := F')) s'"
proof -
  have "lseg (links s') q (F b') 0 = lseg (links s) q (F b') 0" if "b' \<noteq> b" for q b'
  proof (rule lseg_cong)
    fix a assume "a \<in> set (F b')"
    hence "a \<notin> set (A @ B)" using cells_bucket [OF i(1) free_cell [OF i(3)] free_cell [OF i(3)]] that unfolding AB [symmetric] by blast
    thus "links s' a = links s a" using g(2) by blast
  qed
  thus ?thesis using lists_okD [OF i(2)] g(1) bk tf b unfolding lists_ok_def by simp
qed

lemma bucket_gc_kinv:
  assumes inv: "kinv R F H s" and b: "4 \<le> b" "b < 12" and over: "kb_highwat (bucket s b) < kb_totalfree (bucket s b)"
  shows "\<exists>R' F' Q s'. bucket_gc b s = Inr (int Q, s') \<and> kinv R' F' H s' \<and> stats s' = stats s \<and> needgc s' = needgc s \<and> k_requests s' = k_requests s \<and> same_arena s s' \<and>
     (\<forall>b'. kb_totalfree (bucket s' b') = kb_totalfree (bucket s b') - (if b' = b then int (elms b * Q) else 0))"
proof -
  have i: "runs_ok R s" "lists_ok F s" "cells_ok R F H s" "buckets_ok F H s" "held_ok H s" "stats_ok H s"
    using inv by (simp_all add: kinv_def)
  let ?n = "kmemsize s div NBPG" let ?q = "max 1 (nat (kb_highwat (bucket s b) div 4))"
  define A where "A = take ?q (F b)"
  define B where "B = drop ?q (F b)"
  let ?c = "on_page (btokup s) B" let ?Q = "full_pages ?n (\<lambda>i. int (?c i)) (int (elms b))"
  let ?S = "gc_kept_list s b B" let ?F = "F(b := ?S @ A)" let ?D = "full_runs s b B"
  have AB: "F b = A @ B" by (simp add: A_def B_def)
  have e: "kb_elmpercl (bucket s b) = int (elms b)" "kb_highwat (bucket s b) = 5 * int (elms b)" using i(4) b by (auto simp: buckets_ok_def)
  have tf: "kb_totalfree (bucket s b) = int (length (A @ B))" using lists_okD(2) [OF i(2), of b] AB by simp
  have lA: "length A = ?q" using over lists_okD(2) [OF i(2), of b] e elms_pos [of b] unfolding A_def by (simp add: max_def)
  have d: "distinct (A @ B)" "distinct B" "set B \<subseteq> cells (kmembase s) R b" using cells_okD(1,2) [OF i(3), of b] unfolding AB by auto
  have arena: "btokup s x < ?n" if "x \<in> set B" for x using cell_in_arena [OF i(1)] d(3) that by blast
  obtain L h where g: "bucket_gc b s = Inr (int ?Q, gc_result b B L h s)" "lseg L h (?S @ A) 0" "\<forall>a. a \<notin> set (A @ B) \<longrightarrow> L a = links s a"
    using bucket_gc_list [of s b A B] lists_okD(1) [OF i(2), of b] AB d(1) lA tf arena inv e(1) unfolding kinv_def gc_kept_list_def by metis
  let ?s = "gc_result b B L h s"
  have f: "links ?s = L" "usage ?s = usage s" "stats ?s = stats s" "needgc ?s = needgc s" "k_requests ?s = k_requests s" "same_arena s ?s"
    "k_pages ?s = (\<lambda>i. k_pages s i \<and> \<not> (i < ?n \<and> ?c i = elms b))"
    "\<And>b'. b' \<noteq> b \<Longrightarrow> bucket ?s b' = bucket s b'" "kb_next (bucket ?s b) = h"
    "kb_total (bucket ?s b) = kb_total (bucket s b) - int (elms b * ?Q)" "kb_totalfree (bucket ?s b) = kb_totalfree (bucket s b) - int (elms b * ?Q)"
    "kb_elmpercl (bucket ?s b) = kb_elmpercl (bucket s b)" "kb_highwat (bucket ?s b) = kb_highwat (bucket s b)"
    using e(1) by (simp_all add: gc_result_def Let_def same_arena_def)
  note len = gc_kept_length [OF arena, of B b]
  have "runs_ok (R - ?D) ?s"
  proof (rule runs_ok_remove [OF i(1) full_runs_sub [OF i(1) d(2,3) b(2)] _ _ f(6)])
    show "k_pages ?s q = (k_pages s q \<and> (\<forall>r \<in> ?D. q \<notin> pages_of r))" for q using full_runs_pages [of s b B q] unfolding f(7) by blast
  qed (simp add: f(2))
  moreover have "lists_ok ?F ?s"
    by (rule gc_lists_ok [OF i(1-3) AB b(2)]) (use g f tf len in auto)
  moreover note gc_cells_ok [OF i(1,3) AB b(2) f(6,2)]
  moreover have "buckets_ok ?F H ?s"
    using i(4) f(8,10,12,13) len AB b unfolding buckets_ok_def by (auto simp: all_conj_distrib)
  moreover have "held_ok H ?s" using i(5) unfolding held_ok_def same_arena_btokup [OF f(6)] f(2) .
  moreover note stats_ok_same [OF i(6) f(3)]
  ultimately have "kinv (R - ?D) ?F H ?s" using inv f(2,6) by (simp add: kinv_def same_arena_def)
  moreover have "\<forall>b'. kb_totalfree (bucket ?s b') = kb_totalfree (bucket s b') - (if b' = b then int (elms b * ?Q) else 0)"
    using f(8,11) by simp
  ultimately show ?thesis using g(1) f(3-6) by blast
qed

lemma free_blocks_sum: "free_blocks s = (\<Sum>b \<in> {0..<20}. nat (kb_totalfree (bucket s b)))"
  unfolding free_blocks_def by (simp add: interv_sum_list_conv_sum_set_nat)

lemma free_blocks_drop:
  assumes "b < 20" and "\<And>b'. 0 \<le> kb_totalfree (bucket s' b')"
    and "\<And>b'. kb_totalfree (bucket s' b') = kb_totalfree (bucket s b') - (if b' = b then int (elms b * Q) else 0)"
  shows "free_blocks s' + Q \<le> free_blocks s"
proof -
  have "nat (kb_totalfree (bucket s' b')) + (if b' = b then Q else 0) \<le> nat (kb_totalfree (bucket s b'))" for b'
  proof -
    have "Q \<le> elms b * Q" using elms_pos [of b] by (cases "elms b") auto
    hence "int Q \<le> int (elms b * Q)" by (simp only: of_nat_le_iff)
    thus ?thesis using assms(2,3) [of b'] by auto
  qed
  hence "(\<Sum>b' \<in> {0..<20}. nat (kb_totalfree (bucket s' b')) + (if b' = b then Q else 0)) \<le> free_blocks s"
    unfolding free_blocks_sum by (intro sum_mono)
  moreover have "(\<Sum>b' \<in> {0..<20}. if b' = b then Q else 0) = Q" using assms(1) by simp
  ultimately show ?thesis by (simp add: sum.distrib free_blocks_sum)
qed

lemma kinv_other [simp]:
  "kinv R F H (s\<lparr>needgc := x\<rparr>) = kinv R F H s" "kinv R F H (s\<lparr>k_requests := k\<rparr>) = kinv R F H s"
  "kinv R F H (s\<lparr>k_wakeups := w\<rparr>) = kinv R F H s"
  unfolding kinv_defs by simp_all

lemma kinv_totalfree: "kinv R F H s \<Longrightarrow> 0 \<le> kb_totalfree (bucket s b)"
  by (simp add: kinv_def lists_ok_def)

definition kok :: "nat \<times> nat \<Rightarrow> held list \<Rightarrow> kstate \<Rightarrow> bool" where
  "kok A H s = (A = (kmembase s, kmemsize s) \<and> (\<exists>R F. kinv R F H s))"

lemma kokI: "kinv R F H s' \<Longrightarrow> kok A H0 s \<Longrightarrow> same_arena s s' \<Longrightarrow> kok A H s'"
  by (auto simp: kok_def same_arena_def)

definition gc_kept :: "nat \<times> nat \<Rightarrow> held list \<Rightarrow> nat \<Rightarrow> kstate \<Rightarrow> kstate \<Rightarrow> bool" where
  "gc_kept A H m s s' = (kok A H s' \<and> stats s' = stats s \<and> needgc s' = needgc s \<and> k_requests s' = k_requests s \<and> same_arena s s' \<and>
     free_blocks s' + m \<le> free_blocks s)"

lemma bucket_gc_kept:
  assumes "kok A H s" and "4 \<le> b" and "b < 12" and "kb_highwat (bucket s b) < kb_totalfree (bucket s b)"
  shows "\<exists>Q s'. bucket_gc b s = Inr (int Q, s') \<and> gc_kept A H Q s s'"
proof -
  obtain R F where "kinv R F H s" using assms(1) kok_def by blast
  from bucket_gc_kinv [OF this assms(2-4)] obtain R' F' Q s' where
    g: "bucket_gc b s = Inr (int Q, s')" "kinv R' F' H s'" "stats s' = stats s" "needgc s' = needgc s" "k_requests s' = k_requests s"
      "same_arena s s'" "\<forall>b'. kb_totalfree (bucket s' b') = kb_totalfree (bucket s b') - (if b' = b then int (elms b * Q) else 0)" by blast
  have "free_blocks s' + Q \<le> free_blocks s" using free_blocks_drop [of b s' s Q] kinv_totalfree [OF g(2)] g(7) assms(3) by simp
  moreover have "kok A H s'" by (rule kokI [OF g(2) assms(1) g(6)])
  ultimately show ?thesis using g unfolding gc_kept_def by blast
qed

lemma gc_buckets_kept:
  assumes "kok A H s" and "\<And>b. b \<in> set bs \<Longrightarrow> 4 \<le> b \<and> b < 12"
  shows "\<exists>m s'. gc_buckets force bs freed s = Inr (freed + int m, s') \<and> gc_kept A H m s s'"
  using assms
proof (induction bs arbitrary: freed s)
  case Nil thus ?case by (intro exI [of _ 0]) (simp add: gc_kept_def same_arena_def)
next
  case (Cons b bs)
  let ?kb = "bucket s b" let ?g = "WANTGC s ?kb \<or> (force \<and> kb_elmpercl ?kb < kb_totalfree ?kb - kb_highwat ?kb)"
  have b: "4 \<le> b" "b < 12" using Cons.prems by auto
  show ?case
  proof (cases ?g)
    case False
    hence "gc_buckets force (b # bs) freed s = gc_buckets force bs freed s" unfolding gc_buckets.simps Let_def by (rule if_not_P)
    thus ?thesis using Cons.IH [of s freed] Cons.prems by simp
  next
    case True
    obtain R F where "kinv R F H s" using Cons.prems(1) kok_def by blast
    hence "0 \<le> gcfree s" "kb_elmpercl ?kb = int (elms b)" using b by (auto simp: kinv_def buckets_ok_def)
    hence over: "kb_highwat ?kb < kb_totalfree ?kb" using True unfolding WANTGC_def by (smt (verit) mult_nonneg_nonneg of_nat_0_le_iff)
    obtain Q s1 where g: "bucket_gc b s = Inr (int Q, s1)" "gc_kept A H Q s s1" using bucket_gc_kept [OF Cons.prems(1) b over] by blast
    have "kok A H s1" using g(2) by (simp add: gc_kept_def)
    from Cons.IH [OF this, of "freed + int Q"] Cons.prems(2) obtain m s2 where
      g2: "gc_buckets force bs (freed + int Q) s1 = Inr (freed + int Q + int m, s2)" "gc_kept A H m s1 s2" by auto
    have "gc_kept A H (Q + m) s s2" using g(2) g2(2) by (simp add: gc_kept_def same_arena_def)
    moreover have "gc_buckets force (b # bs) freed s = gc_buckets force bs (freed + int Q) s1"
      unfolding gc_buckets.simps Let_def if_P [OF True] g(1) by simp
    ultimately show ?thesis using g2(1) by (intro exI [of _ "Q + m"] exI [of _ s2]) simp
  qed
qed

lemma malloc_gc_kept:
  assumes "kok A H s"
  shows "\<exists>m s'. malloc_gc force s = Inr (int m, s') \<and> gc_kept A H m (s\<lparr>needgc := False\<rparr>) s'"
proof -
  have "kok A H (s\<lparr>needgc := False\<rparr>)" using assms by (simp add: kok_def)
  moreover have "BUCKETINDX NBPG = 12" by (simp add: BUCKETINDX_def NBPG_def)
  ultimately have "\<exists>m s'. gc_buckets force [MINBUCKET..<BUCKETINDX NBPG] 0 (s\<lparr>needgc := False\<rparr>) = Inr (0 + int m, s') \<and>
      gc_kept A H m (s\<lparr>needgc := False\<rparr>) s'"
    by (intro gc_buckets_kept) (simp_all add: MINBUCKET_def del: upt_rec_numeral)
  thus ?thesis by (simp only: malloc_gc_def add_0)
qed

section \<open>What malloc returns\<close>

definition kmem_ok :: "kenv \<Rightarrow> nat \<times> nat \<Rightarrow> bool" where
  "kmem_ok E A = (\<forall>k U n va. E k U n = Some va \<longrightarrow>
     (\<exists>p. va = fst A + p * NBPG \<and> p + n \<le> snd A div NBPG \<and> (\<forall>i. p \<le> i \<and> i < p + n \<longrightarrow> \<not> U i)))"

definition block_of :: "nat \<Rightarrow> nat \<Rightarrow> nat \<Rightarrow> held" where
  "block_of nbytes t a = \<lparr>h_addr = a, h_indx = BUCKETINDX nbytes,
     h_bytes = (if MAXALLOCSAVE < nbytes then roundup nbytes else 2 ^ BUCKETINDX nbytes), h_type = t\<rparr>"

definition malloc_good :: "nat \<times> nat \<Rightarrow> held list \<Rightarrow> nat \<Rightarrow> nat \<Rightarrow> bool \<Rightarrow> kpanic + mres \<times> kstate \<Rightarrow> bool" where
  "malloc_good A H nbytes t waitok r = (case r of
     Inl e \<Rightarrow> waitok \<and> e = Map_too_small
   | Inr (Null, s) \<Rightarrow> \<not> waitok \<and> kok A H s
   | Inr (Asleep, s) \<Rightarrow> waitok \<and> kok A H s
   | Inr (Addr a, s) \<Rightarrow> nbytes \<le> h_bytes (block_of nbytes t a) \<and> kok A (block_of nbytes t a # H) s)"

lemma kb_indx:
  "4 \<le> BUCKETINDX n" "BUCKETINDX n < 20" "(13 < BUCKETINDX n) = (MAXALLOCSAVE < n)" "n \<le> MAXALLOCSAVE \<Longrightarrow> n \<le> 2 ^ BUCKETINDX n"
  by (auto simp: BUCKETINDX_def MAXALLOCSAVE_def NBPG_def Let_def)

lemma btokup_set: "btokup (set_bucket b g s) = btokup s" "btokup (set_usage p f s) = btokup s" "btokup (set_stats t q s) = btokup s"
  "usage (set_bucket b g s) = usage s"
  by (simp_all add: set_bucket_def set_usage_def set_stats_def)

lemma malloc_take_good:
  assumes inv: "kinv R F H s" and A: "A = (kmembase s, kmemsize s)" and bn: "b = BUCKETINDX nbytes" and nx: "kb_next (bucket s b) \<noteq> 0"
  shows "malloc_good A H nbytes t w (malloc_take b t s)"
proof -
  have l: "lists_ok F s" using inv by (simp add: kinv_def)
  then obtain va fs where F: "F b = va # fs" using lists_okD(1) [OF l, of b] nx by (cases "F b") auto
  have va: "kb_next (bucket s b) = va" using lists_okD(1) [OF l, of b] F by simp
  have b: "b \<le> 13" using lists_okD(3) [OF l, of b] F by (cases "13 < b") auto
  define s' where "s' = snd (malloc_out b t va (set_stats t (\<lambda>k. k\<lparr>ks_memuse := ks_memuse k + 2 ^ b\<rparr>)
     (set_bucket b (\<lambda>b. b\<lparr>kb_totalfree := kb_totalfree b - 1\<rparr>)
       (set_usage (btokup s va) (\<lambda>u. u\<lparr>ku_cnt := ku_cnt u - 1\<rparr>) (set_bucket b (\<lambda>b. b\<lparr>kb_next := links s va\<rparr>) s)))))"
  note defs = s'_def malloc_out_def set_stats_def set_bucket_def set_usage_def
  have ar: "same_arena s s'" "charged t 1 (2 ^ b) s s'" by (simp_all add: defs same_arena_def charged_def)
  note k = kinv_take [OF inv F b refl _ _ _ _ _ _ _ _ _ ar, of "bucket s' b"]
  have "kinv R (F(b := fs)) (\<lparr>h_addr = va, h_indx = b, h_bytes = 2 ^ b, h_type = t\<rparr> # H) s'" by (rule k(1)) (simp_all add: defs)
  moreover have n: "nbytes \<le> MAXALLOCSAVE" using b kb_indx(3) [of nbytes] bn by simp
  hence "block_of nbytes t va = \<lparr>h_addr = va, h_indx = b, h_bytes = 2 ^ b, h_type = t\<rparr>" using bn by (simp add: block_of_def)
  ultimately have h: "nbytes \<le> h_bytes (block_of nbytes t va) \<and> kok A (block_of nbytes t va # H) s'"
    using kokI [of R "F(b := fs)" _ s' A H s] ar A inv kb_indx(4) [OF n] bn by (auto simp: kok_def)
  have "ku_indx (usage s (btokup s va)) = b" by (rule k(2)) (simp_all add: defs)
  moreover have "ku_cnt (usage s (btokup s va)) \<noteq> 0" by (rule k(3)) (simp_all add: defs)
  ultimately have "malloc_take b t s = Inr (Addr va, s')"
    unfolding malloc_take_def Let_def va s'_def by (simp add: btokup_set malloc_out_def)
  thus ?thesis using h by (simp add: malloc_good_def)
qed

lemma small_bucket: "4 \<le> b \<Longrightarrow> b \<le> 13 \<Longrightarrow> b = 4 \<or> b = 5 \<or> b = 6 \<or> b = 7 \<or> b = 8 \<or> b = 9 \<or> b = 10 \<or> b = 11 \<or> b = 12 \<or> b = (13::nat)"
  by presburger

lemma malloc_sizes:
  assumes "nbytes \<le> 2 ^ 31 - NBPG" and "asz = (if MAXALLOCSAVE < nbytes then roundup nbytes else 2 ^ BUCKETINDX nbytes)" and "npg = btoc asz"
  shows "(MAXALLOCSAVE < asz \<and> asz < 2 ^ 31) = (MAXALLOCSAVE < nbytes)" and "MAXALLOCSAVE < nbytes \<Longrightarrow> asz = npg * NBPG \<and> nbytes \<le> asz \<and> 0 < npg"
    and "\<not> MAXALLOCSAVE < nbytes \<Longrightarrow> npg = (if BUCKETINDX nbytes = 13 then 2 else 1) \<and> npg * NBPG div asz = elms (BUCKETINDX nbytes)"
proof -
  have big: "asz = npg * NBPG \<and> nbytes \<le> asz \<and> 0 < npg \<and> asz < 2 ^ 31 \<and> MAXALLOCSAVE < asz" if "MAXALLOCSAVE < nbytes"
  proof -
    let ?q = "(nbytes + 4095) div 4096"
    have "asz = ?q * 4096" using assms(1,2) that by (simp add: roundup_def NBPG_def)
    moreover have "nbytes \<le> ?q * 4096" "?q * 4096 \<le> nbytes + 4095" "?q * 4096 \<le> 2 ^ 31 - 4096" "2 < ?q"
      using assms(1) that by (simp_all add: NBPG_def MAXALLOCSAVE_def)
    moreover have "btoc (?q * 4096) = ?q" using \<open>?q * 4096 \<le> 2 ^ 31 - 4096\<close> by (simp add: btoc_def NBPG_def)
    ultimately show ?thesis using assms(3) by (simp add: NBPG_def MAXALLOCSAVE_def)
  qed
  have small: "npg = (if BUCKETINDX nbytes = 13 then 2 else 1) \<and> npg * NBPG div asz = elms (BUCKETINDX nbytes) \<and> asz \<le> MAXALLOCSAVE" if "\<not> MAXALLOCSAVE < nbytes"
  proof -
    have "4 \<le> BUCKETINDX nbytes" "BUCKETINDX nbytes \<le> 13" using kb_indx(1,3) [of nbytes] that by auto
    from small_bucket [OF this] show ?thesis using assms(2,3) that by (auto simp: btoc_def elms_def NBPG_def MAXALLOCSAVE_def)
  qed
  show "(MAXALLOCSAVE < asz \<and> asz < 2 ^ 31) = (MAXALLOCSAVE < nbytes)" using big small by force
  show "MAXALLOCSAVE < nbytes \<Longrightarrow> asz = npg * NBPG \<and> nbytes \<le> asz \<and> 0 < npg" using big by blast
  show "\<not> MAXALLOCSAVE < nbytes \<Longrightarrow> npg = (if BUCKETINDX nbytes = 13 then 2 else 1) \<and> npg * NBPG div asz = elms (BUCKETINDX nbytes)" using small by blast
qed

lemma malloc_new_good:
  assumes inv: "kinv R F H s" and A: "A = (kmembase s, kmemsize s)" and n: "nbytes \<le> 2 ^ 31 - NBPG" and asz: "asz = (if MAXALLOCSAVE < nbytes then roundup nbytes else 2 ^ BUCKETINDX nbytes)"
    and npg: "npg = btoc asz" and va: "va = kmembase s + p * NBPG" and fit: "p + npg \<le> kmemsize s div NBPG"
    and fresh: "\<And>i. i \<in> pages_of (BUCKETINDX nbytes, p, npg) \<Longrightarrow> \<not> k_pages s i"
  shows "malloc_good A H nbytes t w (malloc_new (BUCKETINDX nbytes) t asz npg va
     (s\<lparr>k_requests := k, k_pages := (\<lambda>i. k_pages s i \<or> (btokup s va \<le> i \<and> i < btokup s va + npg))\<rparr>))"
proof -
  define b where "b = BUCKETINDX nbytes"
  let ?s = "s\<lparr>k_requests := k, k_pages := (\<lambda>i. k_pages s i \<or> (btokup s va \<le> i \<and> i < btokup s va + npg))\<rparr>"
  note sz = malloc_sizes [OF n asz npg, folded b_def] and bi = kb_indx [of nbytes, folded b_def]
  have e: "kb_elmpercl (bucket s b) = int (elms b)" using inv bi(2) by (simp add: kinv_def buckets_ok_def)
  have p: "btokup s va = p" using va by (simp add: btokup_def NBPG_def)
  have kp: "k_pages ?s = (\<lambda>i. k_pages s i \<or> i \<in> pages_of (b, p, npg))" by (simp add: p pages_of_def)
  note fr = fresh [folded b_def]
  show ?thesis
  proof (cases "MAXALLOCSAVE < nbytes")
    case True
    have b: "13 < b" using bi(3) True by simp
    have "kmemsize s < 65536 * 4096" using inv unfolding kinv_def NBPG_def by blast
    hence np: "npg < 65536" using fit unfolding NBPG_def by linarith
    define s' where "s' = snd (malloc_out b t va (set_stats t (\<lambda>k. k\<lparr>ks_memuse := ks_memuse k + int asz\<rparr>)
       (set_usage p (\<lambda>u. u\<lparr>ku_cnt := of_nat npg\<rparr>) (set_usage p (\<lambda>u. u\<lparr>ku_indx := b\<rparr>)
         (set_bucket b (\<lambda>k. k\<lparr>kb_total := kb_total k + kb_elmpercl (bucket s b)\<rparr>) ?s)))))"
    note defs = s'_def malloc_out_def set_stats_def set_bucket_def set_usage_def
    have el: "elms b = 1" using b by (simp add: elms_def)
    have ar: "same_arena s s'" "charged t 1 (int (npg * NBPG)) s s'" using sz(2) True by (simp_all add: defs same_arena_def charged_def)
    note l = kinv_new_large [OF inv fr b bi(2) _ np fit va _ _ _ _ _ _ _ _ _ ar, of "bucket s' b"]
    have "kinv (insert (b, p, npg) R) F (\<lparr>h_addr = va, h_indx = b, h_bytes = npg * NBPG, h_type = t\<rparr> # H) s'"
      by (rule l) (use sz(2) True e el kp in \<open>simp_all add: defs\<close>)
    moreover have "block_of nbytes t va = \<lparr>h_addr = va, h_indx = b, h_bytes = npg * NBPG, h_type = t\<rparr>"
      using sz(2) True asz by (simp add: block_of_def b_def)
    ultimately have h: "nbytes \<le> h_bytes (block_of nbytes t va) \<and> kok A (block_of nbytes t va # H) s'"
      using kokI [of _ F _ s' A H s] ar A inv sz(2) True by (auto simp: kok_def)
    have "malloc_new b t asz npg va ?s = Inr (Addr va, s')"
      using sz(1) True np unfolding malloc_new_def Let_def s'_def by (simp add: malloc_out_def p)
    thus ?thesis using h by (simp add: malloc_good_def b_def)
  next
    case False
    have b: "b \<le> 13" using bi(3) False by simp
    have az: "asz = 2 ^ b" using asz False by (simp add: b_def)
    have nk: "npg = (if b = 13 then 2 else 1)" "npg * NBPG div asz = elms b" using sz(3) False by auto
    let ?k = "elms b - 1"
    define s' where "s' = (set_bucket b (\<lambda>k. k\<lparr>kb_next := va + ?k * asz\<rparr>)
      (set_bucket b (\<lambda>k. k\<lparr>kb_totalfree := kb_totalfree k + kb_elmpercl (bucket s b)\<rparr>)
       (set_usage p (\<lambda>u. u\<lparr>ku_cnt := of_int (kb_elmpercl (bucket s b))\<rparr>) (set_usage p (\<lambda>u. u\<lparr>ku_indx := b\<rparr>)
         (set_bucket b (\<lambda>k. k\<lparr>kb_total := kb_total k + kb_elmpercl (bucket s b)\<rparr>) ?s)))))
           \<lparr>links := link_down va asz ?k (kb_next (bucket s b)) (links s)\<rparr>"
    note defs = s'_def set_bucket_def set_usage_def
    have ar: "same_arena s s'" by (simp add: defs same_arena_def)
    note l = kinv_new_list [OF inv fr bi(1) b nk(1) fit va _ _ _ _ _ _ _ _ _ _ ar, of "bucket s' b"]
    have k: "kinv (insert (b, p, npg) R) (F(b := new_cells va (2 ^ b) (elms b) @ F b)) H s'"
      by (rule l) (use e kp az in \<open>simp_all add: defs\<close>)
    have "kb_next (bucket s' b) = va + ?k * asz" by (simp add: defs)
    moreover have "0 < va" using va inv by (simp add: kinv_def)
    ultimately have "kb_next (bucket s' b) \<noteq> 0" by simp
    moreover have "A = (kmembase s', kmemsize s')" using A ar by (simp add: same_arena_def)
    ultimately have "malloc_good A H nbytes t w (malloc_take b t s')" using malloc_take_good [OF k _ b_def] by blast
    moreover have nl: "\<not> (MAXALLOCSAVE < asz \<and> asz < 2 ^ 31)" using sz(1) False by blast
    have "malloc_new b t asz npg va ?s = malloc_take b t s'"
      unfolding malloc_new_def Let_def s'_def if_not_P [OF nl] by (simp add: set_bucket_def set_usage_def p nk(2))
    ultimately show ?thesis by (simp add: b_def)
  qed
qed

lemma kok_stats:
  assumes "kok A H s" and "\<And>t'. ks_inuse (f (stats s t')) = ks_inuse (stats s t') \<and> ks_memuse (f (stats s t')) = ks_memuse (stats s t')"
  shows "kok A H (set_stats t f s)"
proof -
  obtain R F where inv: "kinv R F H s" using assms(1) kok_def by blast
  let ?s = "set_stats t f s"
  have "runs_ok R ?s = runs_ok R s" "lists_ok F ?s = lists_ok F s" "cells_ok R F H ?s = cells_ok R F H s" "buckets_ok F H ?s = buckets_ok F H s"
    "held_ok H ?s = held_ok H s"
    by (simp_all add: runs_ok_def lists_ok_def cells_ok_def buckets_ok_def held_ok_def set_stats_def)
  moreover have "stats_ok H ?s" using inv assms(2) by (simp add: kinv_def stats_ok_def set_stats_def)
  ultimately have "kinv R F H ?s" using inv unfolding kinv_def by (simp add: set_stats_def)
  moreover have "same_arena s ?s" by (simp add: set_stats_def same_arena_def)
  ultimately show ?thesis using kokI assms(1) by blast
qed

definition malloc_inv :: "kenv \<Rightarrow> nat \<Rightarrow> nat \<times> nat \<Rightarrow> held list \<Rightarrow> kstate \<Rightarrow> bool" where
  "malloc_inv E nbytes A H s = (kok A H s \<and> kmem_ok E A \<and> nbytes \<le> 2 ^ 31 - NBPG)"

definition malloc_rank :: "kstate \<Rightarrow> nat" where
  "malloc_rank s = 2 * free_blocks s + (if needgc s then 1 else 0)"

text \<open>Each pass ends the call with one of its results, or goes on with less left to compact.\<close>

lemma gc_kept_inv:
  assumes "malloc_inv E nbytes A H s" and "gc_kept A H m (s\<lparr>needgc := False\<rparr>) s'"
  shows "malloc_inv E nbytes A H s'"
  using assms by (simp add: malloc_inv_def gc_kept_def kmem_ok_def same_arena_def)

lemma gc_kept_rank: "gc_kept A H m (s\<lparr>needgc := False\<rparr>) s' \<Longrightarrow> 2 * m + malloc_rank s' \<le> 2 * free_blocks s"
  by (simp add: gc_kept_def malloc_rank_def free_blocks_def)

lemma malloc_pass_next:
  assumes inv: "malloc_inv E nbytes A H s" and go: "malloc_pass E nbytes t w s = Inl s'"
  shows "malloc_inv E nbytes A H s' \<and> malloc_rank s' < malloc_rank s"
proof -
  let ?s = "s\<lparr>k_requests := k_requests s + 1\<rparr>"
  have k: "kok A H s" "kok A H ?s" using inv by (simp_all add: malloc_inv_def kok_def)
  have inv1: "malloc_inv E nbytes A H ?s" using inv k(2) by (simp add: malloc_inv_def kmem_ok_def)
  obtain m1 s1 where g1: "malloc_gc False s = Inr (int m1, s1)" "gc_kept A H m1 (s\<lparr>needgc := False\<rparr>) s1" using malloc_gc_kept [OF k(1)] by blast
  obtain m2 s2 where g2: "malloc_gc True ?s = Inr (int m2, s2)" "gc_kept A H m2 (?s\<lparr>needgc := False\<rparr>) s2" using malloc_gc_kept [OF k(2)] by blast
  have "(s' = s1 \<and> needgc s) \<or> (s' = s2 \<and> m2 \<noteq> 0)"
    using go g1(1) g2(1) unfolding malloc_pass_def Let_def by (auto split: if_splits option.splits)
  thus ?thesis
  proof
    assume "s' = s1 \<and> needgc s"
    thus ?thesis using gc_kept_inv [OF inv g1(2)] gc_kept_rank [OF g1(2)] by (simp add: malloc_rank_def)
  next
    assume "s' = s2 \<and> m2 \<noteq> 0"
    thus ?thesis using gc_kept_inv [OF inv1 g2(2)] gc_kept_rank [OF g2(2)] by (simp add: malloc_rank_def free_blocks_def)
  qed
qed

lemma malloc_pass_done:
  assumes inv: "malloc_inv E nbytes A H s" and r: "malloc_pass E nbytes t w s = Inr r"
  shows "malloc_good A H nbytes t w r"
proof -
  define asz where "asz = (if MAXALLOCSAVE < nbytes then roundup nbytes else 2 ^ BUCKETINDX nbytes)"
  let ?b = "BUCKETINDX nbytes" let ?s = "s\<lparr>k_requests := k_requests s + 1\<rparr>" let ?n = "btoc asz"
  have k: "kok A H s" "kok A H ?s" using inv by (simp_all add: malloc_inv_def kok_def)
  obtain R F where kinv: "kinv R F H s" and A: "A = (kmembase s, kmemsize s)" using k(1) kok_def by blast
  obtain m1 s1 where g1: "malloc_gc False s = Inr (int m1, s1)" using malloc_gc_kept [OF k(1)] by blast
  obtain m2 s2 where g2: "malloc_gc True ?s = Inr (int m2, s2)" using malloc_gc_kept [OF k(2)] by blast
  consider (limit) "ks_limit (stats s t) \<le> ks_memuse (stats s t)"
    | (listed) "\<not> ks_limit (stats s t) \<le> ks_memuse (stats s t)" "kb_next (bucket s ?b) \<noteq> 0"
    | (gc) "\<not> ks_limit (stats s t) \<le> ks_memuse (stats s t)" "kb_next (bucket s ?b) = 0" "needgc s \<and> w"
    | (full) "\<not> ks_limit (stats s t) \<le> ks_memuse (stats s t)" "kb_next (bucket s ?b) = 0" "\<not> (needgc s \<and> w)" "E (k_requests s) (k_pages s) ?n = None"
    | (pages) va where "\<not> ks_limit (stats s t) \<le> ks_memuse (stats s t)" "kb_next (bucket s ?b) = 0" "\<not> (needgc s \<and> w)" "E (k_requests s) (k_pages s) ?n = Some va"
    by (cases "E (k_requests s) (k_pages s) ?n") blast+
  thus ?thesis
  proof cases
    case limit
    let ?f = "\<lambda>k. k\<lparr>ks_limblocks := (if ks_limblocks k < 65535 then ks_limblocks k + 1 else ks_limblocks k)\<rparr>"
    have "r = (if w then Inr (Asleep, set_stats t ?f s) else Inr (Null, s))" using r limit by (simp add: malloc_pass_def Let_def split: if_splits)
    moreover have "kok A H (set_stats t ?f s)" by (rule kok_stats [OF k(1)]) simp
    ultimately show ?thesis using k(1) by (simp add: malloc_good_def)
  next
    case listed
    from malloc_take_good [OF kinv A refl listed(2)] show ?thesis using listed r by (auto simp: malloc_pass_def Let_def)
  next
    case gc thus ?thesis using r g1 by (simp add: malloc_pass_def Let_def)
  next
    case full
    thus ?thesis using r g2 k(2) unfolding malloc_pass_def Let_def asz_def by (auto simp: malloc_good_def split: if_splits)
  next
    case pages
    obtain p where p: "va = kmembase s + p * NBPG" "p + ?n \<le> kmemsize s div NBPG" "\<forall>i. p \<le> i \<and> i < p + ?n \<longrightarrow> \<not> k_pages s i"
      using pages(4) inv A unfolding malloc_inv_def kmem_ok_def by fastforce
    have n: "nbytes \<le> 2 ^ 31 - NBPG" using inv by (simp add: malloc_inv_def)
    have "i \<in> pages_of (?b, p, ?n) \<Longrightarrow> \<not> k_pages s i" for i using p(3) by (simp add: pages_of_def)
    note malloc_new_good [OF kinv A n asz_def refl p(1,2) this]
    thus ?thesis using pages r unfolding malloc_pass_def Let_def asz_def by auto
  qed
qed

interpretation mal: ranked_loop "malloc_pass E nbytes t w" "malloc_inv E nbytes A H" malloc_rank "malloc_good A H nbytes t w" for E nbytes t w A H
  by unfold_locales (rule malloc_pass_next, assumption+, rule malloc_pass_done, assumption+)

lemma malloc_returns:
  assumes "kok A H s" and "kmem_ok E A" and "nbytes \<le> 2 ^ 31 - NBPG" and "t \<le> M_LAST"
  shows "\<exists>r. malloc E nbytes t w s = Some r \<and> malloc_good A H nbytes t w r"
proof -
  have "malloc_inv E nbytes A H s" using assms by (simp add: malloc_inv_def)
  moreover have "malloc_rank s < 2 * free_blocks s + 2" by (simp add: malloc_rank_def)
  ultimately have "\<exists>r. run_fuel (malloc_pass E nbytes t w) (2 * free_blocks s + 2) s = Some r \<and> malloc_good A H nbytes t w r"
    by (rule mal.run_returns)
  moreover have "malloc E nbytes t w s = run_fuel (malloc_pass E nbytes t w) (2 * free_blocks s + 2) s"
    unfolding malloc_def using assms(4) by (intro if_not_P) simp
  ultimately show ?thesis by simp
qed

section \<open>What free does\<close>

lemma free_stats:
  assumes "free_block a s = Inr (n, s1)"
  shows "\<exists>s'. free a t s = Inr s' \<and> charged t (- 1) (- int n) s1 s' \<and> same_arena s1 s' \<and> links s' = links s1 \<and> bucket s' = bucket s1 \<and>
     usage s' = usage s1 \<and> k_pages s' = k_pages s1"
  using assms unfolding free_def by (auto simp: Let_def set_stats_def charged_def same_arena_def)

lemma free_block_stats: "free_block a s = Inr (n, s1) \<Longrightarrow> stats s1 = stats s \<and> same_arena s s1"
  unfolding free_block_def
  by (auto simp: Let_def kmem_free_def set_usage_def set_bucket_def same_arena_def split: if_splits)

text \<open>What the code reads of a block that is held.\<close>

lemma held_facts:
  assumes "kinv R F H s" and "h \<in> set H"
  shows "ku_indx (usage s (btokup s (h_addr h))) = h_indx h" "kb_elmpercl (bucket s (h_indx h)) = int (elms (h_indx h))"
    "13 < h_indx h \<Longrightarrow> kb_highwat (bucket s (h_indx h)) \<le> kb_totalfree (bucket s (h_indx h))"
    "h_bytes h = (if h_indx h \<le> 13 then 2 ^ h_indx h else unat (ku_cnt (usage s (btokup s (h_addr h)))) * NBPG)"
    "(NBPG \<le> 2 ^ h_indx h) = (12 \<le> h_indx h)" "(MAXALLOCSAVE < 2 ^ h_indx h) = (13 < h_indx h)"
proof -
  have i: "runs_ok R s" "lists_ok F s" "cells_ok R F H s" "buckets_ok F H s" "held_ok H s" using assms(1) by (simp_all add: kinv_def)
  note c = cell_usage [OF i(1) held_cell [OF i(3) assms(2)]]
  show "ku_indx (usage s (btokup s (h_addr h))) = h_indx h" using c by simp
  show "kb_elmpercl (bucket s (h_indx h)) = int (elms (h_indx h))" using c i(4) by (simp add: buckets_ok_def)
  show "13 < h_indx h \<Longrightarrow> kb_highwat (bucket s (h_indx h)) \<le> kb_totalfree (bucket s (h_indx h))"
    using c i(4) lists_okD(2) [OF i(2), of "h_indx h"] by (simp add: buckets_ok_def)
  show "h_bytes h = (if h_indx h \<le> 13 then 2 ^ h_indx h else unat (ku_cnt (usage s (btokup s (h_addr h)))) * NBPG)"
    using i(5) assms(2) by (auto simp: held_ok_def)
  show "(NBPG \<le> 2 ^ h_indx h) = (12 \<le> h_indx h)" "(MAXALLOCSAVE < 2 ^ h_indx h) = (13 < h_indx h)"
    using power_increasing_iff [of "2 :: nat" 12 "h_indx h"] power_strict_increasing_iff [of "2 :: nat" 13 "h_indx h"]
    by (simp_all add: NBPG_def MAXALLOCSAVE_def)
qed

definition freed_from :: "nat \<times> nat \<Rightarrow> held list \<Rightarrow> held \<Rightarrow> kstate \<Rightarrow> bool" where
  "freed_from A H h s = (\<exists>s'. free (h_addr h) (h_type h) s = Inr s' \<and> kok A (remove1 h H) s' \<and>
     charged (h_type h) (- 1) (- int (h_bytes h)) s s')"

lemma free_run_kinv:
  assumes kok: "kok A H s" and kinv: "kinv R F H s" and h: "h \<in> set H"
    and bk: "12 \<le> h_indx h" "kb_highwat (bucket s (h_indx h)) \<le> kb_totalfree (bucket s (h_indx h))"
  shows "freed_from A H h s"
proof -
  let ?b = "h_indx h" let ?a = "h_addr h" let ?p = "btokup s ?a"
  note hf = held_facts [OF kinv h]
  define s1 where "s1 = set_bucket ?b (\<lambda>b. b\<lparr>kb_total := kb_total b - 1, kb_couldfree := kb_couldfree b + 1\<rparr>)
    (set_usage ?p (\<lambda>u. u\<lparr>ku_indx := 0, ku_cnt := 0\<rparr>) (kmem_free ?a (h_bytes h) s))"
  have "free_block ?a s = Inr (h_bytes h, s1)" using bk hf(1,4-6) unfolding free_block_def Let_def s1_def by simp
  from free_stats [OF this, of "h_type h"] free_block_stats [OF this] obtain s' where
    f: "free ?a (h_type h) s = Inr s'" "charged (h_type h) (- 1) (- int (h_bytes h)) s s'" "same_arena s s'" "links s' = links s1" "bucket s' = bucket s1"
      "usage s' = usage s1" "k_pages s' = k_pages s1" by (auto simp: charged_def same_arena_def)
  note l = kinv_free_run [OF kinv h refl refl bk(1) refl refl _ _ _ _ _ _ _ _ _ f(3,2), of "bucket s1 ?b"]
  have "kinv (R - {(?b, ?p, h_bytes h div NBPG)}) F (remove1 h H) s'"
    by (rule l) (use f in \<open>simp_all add: s1_def set_bucket_def set_usage_def kmem_free_def\<close>)
  thus ?thesis using f(1,2) kokI [OF _ kok f(3)] unfolding freed_from_def by blast
qed

lemma free_list_kinv:
  assumes kok: "kok A H s" and kinv: "kinv R F H s" and h: "h \<in> set H" and b13: "h_indx h \<le> 13"
    and keep: "\<not> (12 \<le> h_indx h \<and> kb_highwat (bucket s (h_indx h)) \<le> kb_totalfree (bucket s (h_indx h)))"
  shows "freed_from A H h s"
proof -
  let ?b = "h_indx h" let ?a = "h_addr h" let ?p = "btokup s ?a" let ?kb = "bucket s ?b"
  note hf = held_facts [OF kinv h]
  let ?over = "kb_elmpercl ?kb \<le> int (unat (ku_cnt (usage s ?p) + 1)) \<and> kb_highwat ?kb < kb_totalfree ?kb"
  define s1 where "s1 = (let s0 = set_usage ?p (\<lambda>u. u\<lparr>ku_cnt := ku_cnt u + 1\<rparr>) s;
      s2 = s0\<lparr>needgc := needgc s0 \<or> (?over \<and> WANTGC s0 ?kb)\<rparr>;
      s3 = set_bucket ?b (\<lambda>b. b\<lparr>kb_couldfree := (if ?over then kb_couldfree b + 1 else kb_couldfree b),
                    kb_totalfree := kb_totalfree b + 1, kb_next := ?a\<rparr>) s2
    in s3\<lparr>links := (links s3)(?a := kb_next ?kb)\<rparr>)"
  note s1_simps = s1_def Let_def set_bucket_def set_usage_def set_stats_def
  have st1: "stats s1 = stats s" "same_arena s s1" by (simp_all add: s1_simps same_arena_def)
  define s9 where "s9 = set_stats (h_type h) (\<lambda>k. k\<lparr>ks_inuse := ks_inuse k - 1, ks_memuse := ks_memuse k - int (h_bytes h)\<rparr>) s1"
  have "same_arena s s9" "charged (h_type h) (- 1) (- int (h_bytes h)) s s9" using st1 by (simp_all add: s9_def set_stats_def same_arena_def charged_def)
  note l9 = kinv_give [OF kinv h refl refl b13 refl _ _ _ _ _ _ _ _ _ this, of "bucket s1 ?b"]
  have "unat (ku_cnt (usage s ?p)) + 1 \<le> elms ?b" by (rule l9(3)) (simp_all add: s9_def s1_simps)
  moreover have "unat (ku_cnt (usage s ?p) + 1) = unat (ku_cnt (usage s ?p)) + 1" by (rule l9(2)) (simp_all add: s9_def s1_simps)
  ultimately have ok: "\<not> kb_elmpercl ?kb < int (unat (ku_cnt (usage s ?p) + 1))" unfolding hf(2) by (simp only: of_nat_less_iff)
  have nb: "\<not> (NBPG \<le> 2 ^ ?b \<and> kb_highwat ?kb \<le> kb_totalfree ?kb)" using keep hf(5) by blast
  have u: "ku_cnt (usage (set_usage ?p (\<lambda>u. u\<lparr>ku_cnt := ku_cnt u + 1\<rparr>) s) ?p) = ku_cnt (usage s ?p) + 1" by (simp add: set_usage_def)
  have "free_block ?a s = Inr (h_bytes h, s1)"
    unfolding free_block_def Let_def hf(1) if_not_P [OF nb] u if_not_P [OF ok] s1_def hf(4) if_P [OF b13] ..
  from free_stats [OF this, of "h_type h"] st1 obtain s' where
    f: "free ?a (h_type h) s = Inr s'" "charged (h_type h) (- 1) (- int (h_bytes h)) s s'" "same_arena s s'" "links s' = links s1" "bucket s' = bucket s1"
      "usage s' = usage s1" "k_pages s' = k_pages s1" by (auto simp: charged_def same_arena_def)
  note l = kinv_give(1) [OF kinv h refl refl b13 refl _ _ _ _ _ _ _ _ _ f(3,2), of "bucket s1 ?b"]
  have "kinv R (F(?b := ?a # F ?b)) (remove1 h H) s'" by (rule l) (use f in \<open>simp_all add: s1_simps\<close>)
  thus ?thesis using f(1,2) kokI [OF _ kok f(3)] unfolding freed_from_def by blast
qed

lemma free_kok:
  assumes "kok A H s" and "h \<in> set H"
  shows "freed_from A H h s"
proof -
  obtain R F where inv: "kinv R F H s" using assms(1) kok_def by blast
  show ?thesis
    using free_run_kinv [OF assms(1) inv assms(2)] free_list_kinv [OF assms(1) inv assms(2)] held_facts(3) [OF inv assms(2)]
    by (cases "h_indx h \<le> 13") auto
qed

section \<open>Runs\<close>

lemma kmeminit_kok:
  assumes "0 < base" and "NBPG dvd base" and "nbytes < 65536 * NBPG"
  shows "kok (base, nbytes) [] (kmeminit base nbytes bufmap maxbufmem)"
proof -
  let ?s = "kmeminit base nbytes bufmap maxbufmem"
  have el: "kb_elmpercl (kb_init b) = int (elms b)" for b
  proof (cases "12 \<le> b")
    case True
    hence "(2::nat) ^ 12 \<le> 2 ^ b" by (intro power_increasing) auto
    thus ?thesis using True by (simp add: kb_init_def elms_def NBPG_def Let_def)
  next
    case False
    hence "(2::nat) ^ b < 2 ^ 12" by (intro power_strict_increasing) auto
    moreover have "(4096::nat) div 2 ^ b = 2 ^ (12 - b)" using False power_diff [of "2 :: nat" b 12] by simp
    ultimately show ?thesis using False by (simp add: kb_init_def elms_def NBPG_def Let_def)
  qed
  have hw: "kb_highwat (kb_init b) = (if b \<le> 13 then 5 * int (elms b) else 0)" for b
    using el [of b] power_increasing_iff [of "2 :: nat" b 13] by (auto simp: kb_init_def Let_def MAXALLOCSAVE_def NBPG_def)
  have "kinv {} (\<lambda>_. []) [] ?s"
    using assms el hw unfolding kinv_defs
    by (simp add: kmeminit_def cells_def held_in_def kb_init_def Let_def)
  thus ?thesis unfolding kok_def by (auto simp: kmeminit_def)
qed

inductive k_step :: "kenv \<Rightarrow> kstate \<times> held list \<Rightarrow> kstate \<times> held list \<Rightarrow> bool" for E :: kenv where
  k_alloc: "malloc E nbytes t w s = Some (Inr (Addr a, s')) \<Longrightarrow> nbytes \<le> 2 ^ 31 - NBPG \<Longrightarrow> t < M_LAST \<Longrightarrow>
     k_step E (s, H) (s', block_of nbytes t a # H)"
| k_none: "malloc E nbytes t w s = Some (Inr (r, s')) \<Longrightarrow> r = Null \<or> r = Asleep \<Longrightarrow> nbytes \<le> 2 ^ 31 - NBPG \<Longrightarrow> t < M_LAST \<Longrightarrow>
     k_step E (s, H) (s', H)"
| k_release: "h \<in> set H \<Longrightarrow> free (h_addr h) (h_type h) s = Inr s' \<Longrightarrow> k_step E (s, H) (s', remove1 h H)"

definition k_init :: "kenv \<Rightarrow> nat \<times> nat \<Rightarrow> kstate \<times> held list \<Rightarrow> bool" where
  "k_init E A x = (kmem_ok E A \<and> 0 < fst A \<and> NBPG dvd fst A \<and> snd A < 65536 * NBPG \<and> snd x = [] \<and>
     (\<exists>bufmap maxbufmem. fst x = kmeminit (fst A) (snd A) bufmap maxbufmem))"

interpretation kmem: invariant_system "k_init E A" "k_step E" "\<lambda>(s, H). kmem_ok E A \<and> kok A H s" for E A
proof
  fix x assume "k_init E A x"
  thus "case x of (s, H) \<Rightarrow> kmem_ok E A \<and> kok A H s" using kmeminit_kok [of "fst A" "snd A"] by (cases x) (auto simp: k_init_def)
next
  fix x y assume "case x of (s, H) \<Rightarrow> kmem_ok E A \<and> kok A H s" and st: "k_step E x y"
  moreover obtain s H where x: "x = (s, H)" by force
  ultimately have i: "kmem_ok E A" "kok A H s" by auto
  from st show "case y of (s, H) \<Rightarrow> kmem_ok E A \<and> kok A H s"
  proof cases
    case (k_alloc nbytes t w s0 a s' H0)
    thus ?thesis using malloc_returns [OF i(2,1), of nbytes t w] i(1) x by (auto simp: malloc_good_def)
  next
    case (k_none nbytes t w s0 r s' H0)
    thus ?thesis using malloc_returns [OF i(2,1), of nbytes t w] i(1) x by (auto simp: malloc_good_def)
  next
    case (k_release h H0 s0 s')
    thus ?thesis using free_kok [OF i(2), of h] i(1) x by (auto simp: freed_from_def)
  qed
qed

lemmas kmalloc_reach = kmem.reach_inv [of E A "(s, H)" for E A s H, simplified]

section \<open>Held blocks\<close>

lemma kinv_held_run:
  assumes "kinv R F H s" and "h \<in> set H"
  obtains p n j where "(h_indx h, p, n) \<in> R" "j < elms (h_indx h)" "h_addr h = kmembase s + p * NBPG + j * 2 ^ h_indx h" "h_bytes h = extent (h_indx h) n"
proof -
  have i: "runs_ok R s" "cells_ok R F H s" "held_ok H s" using assms(1) by (simp_all add: kinv_def)
  obtain p n j where r: "(h_indx h, p, n) \<in> R" "j < elms (h_indx h)" "h_addr h = kmembase s + p * NBPG + j * 2 ^ h_indx h" "btokup s (h_addr h) = p"
    using held_cell [OF i(2) assms(2)] by (rule cellE)
  have "unat (of_nat n :: u16) = n" using run_okD(4) [OF i(1) r(1)] by (simp add: unat_of_nat)
  hence "h_bytes h = extent (h_indx h) n"
    using i(3) assms(2) run_okD(9) [OF i(1) r(1)] r(4) by (auto simp: held_ok_def extent_def)
  thus ?thesis using that r(1-3) by blast
qed

lemma kinv_held_distinct:
  assumes "kinv R F H s"
  shows "distinct (map h_addr H)"
proof -
  have i: "runs_ok R s" "cells_ok R F H s" using assms by (simp_all add: kinv_def)
  have same: "h_indx g = h_indx h" if "g \<in> set H" "h \<in> set H" "h_addr g = h_addr h" for g h
    using cells_bucket [OF i(1) held_cell [OF i(2) that(1)]] held_cell [OF i(2) that(2)] that(3) by simp
  have d: "distinct (held_in b H)" for b using cells_okD(1) [OF i(2), of b] by simp
  have "distinct (map h_addr K)" if "set K \<subseteq> set H" "\<And>b. distinct (held_in b K)" for K
    using that
  proof (induction K)
    case (Cons h K)
    have dK: "distinct (held_in b K)" for b using Cons.prems(2) [of b] by (simp add: held_in_Cons split: if_splits)
    have "h_addr h \<notin> h_addr ` set K"
    proof
      assume "h_addr h \<in> h_addr ` set K"
      then obtain g where g: "g \<in> set K" "h_addr g = h_addr h" by force
      hence "h_addr h \<in> set (held_in (h_indx h) K)" using same [of g h] Cons.prems(1) by (auto simp: held_in_def intro!: rev_image_eqI [of g])
      thus False using Cons.prems(2) [of "h_indx h"] by (simp add: held_in_Cons)
    qed
    thus ?case using Cons.IH dK Cons.prems(1) by simp
  qed simp
  thus ?thesis using d by blast
qed

definition apart :: "held \<Rightarrow> held \<Rightarrow> bool" where
  "apart g h = (h_addr g + h_bytes g \<le> h_addr h \<or> h_addr h + h_bytes h \<le> h_addr g)"

definition inside :: "nat \<times> nat \<Rightarrow> held \<Rightarrow> bool" where
  "inside A h = (fst A \<le> h_addr h \<and> h_addr h + h_bytes h \<le> fst A + snd A)"

lemma kok_apart:
  assumes "kok A H s" and "g \<in> set H" and "h \<in> set H" and "h_addr g \<noteq> h_addr h"
  shows "apart g h"
proof -
  obtain R F where inv: "kinv R F H s" using assms(1) kok_def by blast
  have ru: "runs_ok R s" using inv by (simp add: kinv_def)
  obtain p n j where g: "(h_indx g, p, n) \<in> R" "j < elms (h_indx g)" "h_addr g = kmembase s + p * NBPG + j * 2 ^ h_indx g" "h_bytes g = extent (h_indx g) n"
    using kinv_held_run [OF inv assms(2)] .
  obtain p' n' j' where h: "(h_indx h, p', n') \<in> R" "j' < elms (h_indx h)" "h_addr h = kmembase s + p' * NBPG + j' * 2 ^ h_indx h" "h_bytes h = extent (h_indx h) n'"
    using kinv_held_run [OF inv assms(3)] .
  show ?thesis using cells_disjoint [OF ru g(1-3) h(1-3) assms(4)] unfolding apart_def g(4) h(4) .
qed

lemma kok_inside:
  assumes "kok A H s" and "h \<in> set H"
  shows "inside A h"
proof -
  obtain R F where inv: "kinv R F H s" and A: "A = (kmembase s, kmemsize s)" using assms(1) kok_def by blast
  have ru: "runs_ok R s" using inv by (simp add: kinv_def)
  obtain p n j where g: "(h_indx h, p, n) \<in> R" "j < elms (h_indx h)" "h_addr h = kmembase s + p * NBPG + j * 2 ^ h_indx h" "h_bytes h = extent (h_indx h) n"
    using kinv_held_run [OF inv assms(2)] .
  have "(p + n) * NBPG \<le> kmemsize s div NBPG * NBPG" using run_okD(7) [OF ru g(1)] by (rule mult_le_mono1)
  also have "\<dots> \<le> kmemsize s" by (simp add: NBPG_def)
  finally show ?thesis using cell_extent [OF ru g(1,2)] g(3,4) A by (simp add: inside_def add_mult_distrib)
qed


text \<open>Every block is aligned, so the address check accepts it.\<close>

lemma kok_check_addr:
  assumes "kok A H s" and "h \<in> set H"
  shows "check_addr s (h_addr h) (h_indx h)"
proof -
  obtain R F where inv: "kinv R F H s" and A: "A = (kmembase s, kmemsize s)" using assms(1) kok_def by blast
  have ru: "runs_ok R s" and base: "NBPG dvd kmembase s" using inv by (simp_all add: kinv_def)
  obtain p n j where g: "(h_indx h, p, n) \<in> R" "j < elms (h_indx h)" "h_addr h = kmembase s + p * NBPG + j * 2 ^ h_indx h" "h_bytes h = extent (h_indx h) n"
    using kinv_held_run [OF inv assms(2)] .
  have b: "4 \<le> h_indx h" "h_indx h < 20" "0 < n" using run_okD(1-3) [OF ru g(1)] .
  have "0 < h_bytes h" using g(4) b(3) by (simp add: extent_def NBPG_def)
  hence "kmembase s \<le> h_addr h \<and> h_addr h < kmembase s + kmemsize s" using kok_inside [OF assms] A by (simp add: inside_def)
  moreover have "2 ^ min 12 (h_indx h) dvd h_addr h"
  proof -
    have pg: "2 ^ min 12 (h_indx h) dvd NBPG" using le_imp_power_dvd [of "min 12 (h_indx h)" 12 "2 :: nat"] by (simp add: NBPG_def)
    have "2 ^ min 12 (h_indx h) dvd (2::nat) ^ h_indx h" by (intro le_imp_power_dvd) simp
    thus ?thesis unfolding g(3) using dvd_trans [OF pg base] pg by (intro dvd_add dvd_mult)
  qed
  moreover have "(if NBPG < 2 ^ h_indx h then BUCKETINDX NBPG else h_indx h) = min 12 (h_indx h)"
    using power_strict_increasing_iff [of "2 :: nat" 12 "h_indx h"] by (auto simp: NBPG_def BUCKETINDX_def min_def)
  ultimately show ?thesis using b unfolding check_addr_def MINBUCKET_def by (simp add: mod_eq_0_iff_dvd)
qed

section \<open>Properties\<close>

definition demo_kmem :: kenv where
  "demo_kmem k U n = (if n = 1 \<and> \<not> U 0 then Some 4096 else None)"

definition demo_boot :: kstate where
  "demo_boot = kmeminit 4096 16384 0 0"

definition demo_alloc :: kstate where
  "demo_alloc = (case malloc demo_kmem 4096 2 True demo_boot of Some (Inr (_, s)) \<Rightarrow> s | _ \<Rightarrow> demo_boot)"

lemma demo_boot_free: "free_blocks demo_boot = 0"
  unfolding free_blocks_sum demo_boot_def by (simp add: kmeminit_def kb_init_def Let_def)

lemma demo_alloc_addr: "map_option (map_sum (\<lambda>e. e) fst) (malloc demo_kmem 4096 2 True demo_boot) = Some (Inr (Addr 4096))"
proof -
  have "BUCKETINDX 4096 = 12" by (simp add: BUCKETINDX_def)
  moreover have "kb_elmpercl (kb_init 12) = 1" by (simp add: kb_init_def NBPG_def Let_def)
  moreover have "run_fuel f 2 x = (case f x of Inl y \<Rightarrow> run_fuel f 1 y | Inr r \<Rightarrow> Some r)" for f :: "kstate \<Rightarrow> kstate + (kpanic + mres \<times> kstate)" and x
    unfolding numeral_2_eq_2 One_nat_def by (rule run_fuel.simps)
  ultimately show ?thesis unfolding malloc_def demo_boot_free
    by (simp add: malloc_pass_def demo_boot_def kmeminit_def demo_kmem_def btoc_def roundup_def MAXALLOCSAVE_def NBPG_def M_LAST_def M_BUFFER_def
        cdiv_def kb_init_def Let_def malloc_new_def malloc_take_def malloc_out_def set_bucket_def set_usage_def set_stats_def btokup_def)
qed

lemma demo_reach: "reach (k_init demo_kmem (4096, 16384)) (k_step demo_kmem) (demo_alloc, [block_of 4096 2 4096])"
proof -
  have ok: "kmem_ok demo_kmem (4096, 16384)" by (auto simp: kmem_ok_def demo_kmem_def NBPG_def split: if_splits)
  have "k_init demo_kmem (4096, 16384) (demo_boot, [])" using ok by (auto simp: k_init_def demo_boot_def NBPG_def)
  hence r: "reach (k_init demo_kmem (4096, 16384)) (k_step demo_kmem) (demo_boot, [])" by (rule reach_init)
  obtain s' where "malloc demo_kmem 4096 2 True demo_boot = Some (Inr (Addr 4096, s'))"
    using demo_alloc_addr by (cases "malloc demo_kmem 4096 2 True demo_boot") (auto simp: map_sum_def split: sum.splits)
  moreover from this have "demo_alloc = s'" by (simp add: demo_alloc_def)
  ultimately have "k_step demo_kmem (demo_boot, []) (demo_alloc, [block_of 4096 2 4096])"
    by (intro k_alloc) (auto simp: NBPG_def M_LAST_def)
  with r show ?thesis by (rule reach_step)
qed

text \<open>
  Property C27. In every state reached by calls of \<^verbatim>\<open>malloc\<close> and \<^verbatim>\<open>free\<close> from the initial one, compactions included, the
  blocks the callers hold lie inside the arena, no two of them share a byte, and each passes the check of addresses.
\<close>

theorem kmalloc_blocks_apart:
  assumes "reach (k_init E A) (k_step E) (s, H)"
  shows "distinct (map h_addr H) \<and> (\<forall>g \<in> set H. \<forall>h \<in> set H. h_addr g \<noteq> h_addr h \<longrightarrow> apart g h) \<and> (\<forall>h \<in> set H. inside A h \<and> check_addr s (h_addr h) (h_indx h))"
proof -
  have k: "kok A H s" using kmalloc_reach [OF assms] by simp
  obtain R F where "kinv R F H s" using k kok_def by blast
  thus ?thesis using kinv_held_distinct kok_apart [OF k] kok_inside [OF k] kok_check_addr [OF k] by blast
qed

theorem kmalloc_blocks_apart_witness: "inside (4096, 16384) (block_of 4096 2 4096)"
  using kmalloc_blocks_apart [OF demo_reach] by simp

text \<open>
  Property C29. In every reachable state the statistics of each type count exactly the blocks held and their bytes, and the
  blocks of a bucket that are not free are exactly those held.
\<close>

theorem kmalloc_accounts_exact:
  assumes "reach (k_init E A) (k_step E) (s, H)"
  shows "(\<forall>t. ks_inuse (stats s t) = int (length [h \<leftarrow> H. h_type h = t]) \<and>
            ks_memuse (stats s t) = (\<Sum>h \<leftarrow> [h \<leftarrow> H. h_type h = t]. int (h_bytes h))) \<and>
         (\<forall>b < 20. kb_total (bucket s b) - kb_totalfree (bucket s b) = int (length [h \<leftarrow> H. h_indx h = b]))"
proof -
  obtain R F where "kinv R F H s" using kmalloc_reach [OF assms] kok_def by blast
  thus ?thesis by (auto simp: kinv_def stats_ok_def buckets_ok_def lists_ok_def held_in_def)
qed

theorem kmalloc_accounts_exact_witness: "ks_memuse (stats demo_alloc 2) = 4096 \<and> kb_total (bucket demo_alloc 12) - kb_totalfree (bucket demo_alloc 12) = 1"
  using kmalloc_accounts_exact [OF demo_reach] by (simp add: block_of_def BUCKETINDX_def MAXALLOCSAVE_def NBPG_def)

text \<open>
  Property C28. \<^verbatim>\<open>malloc\<close> returns in every reachable state. It gives no block only when the caller may not wait, or has to
  wait at the limit of the type; a block it gives has the size asked for and overlaps no block in use. The only panic
  is that of a caller who may wait when the map is full and a compaction frees nothing.
\<close>

theorem malloc_returns_fresh:
  assumes "reach (k_init E A) (k_step E) (s, H)" and "nbytes \<le> 2 ^ 31 - NBPG" and "t < M_LAST"
  shows "\<exists>r. malloc E nbytes t waitok s = Some r \<and>
     (case r of Inl e \<Rightarrow> waitok \<and> e = Map_too_small
      | Inr (Null, _) \<Rightarrow> \<not> waitok
      | Inr (Asleep, _) \<Rightarrow> waitok
      | Inr (Addr a, _) \<Rightarrow> nbytes \<le> h_bytes (block_of nbytes t a) \<and> inside A (block_of nbytes t a) \<and>
          (\<forall>h \<in> set H. apart (block_of nbytes t a) h))"
proof -
  have "kmem_ok E A" "kok A H s" using kmalloc_reach [OF assms(1)] by auto
  from malloc_returns [OF this(2,1) assms(2), of t waitok] assms(3) obtain r where
    r: "malloc E nbytes t waitok s = Some r" "malloc_good A H nbytes t waitok r" by auto
  have "inside A (block_of nbytes t a) \<and> (\<forall>h \<in> set H. apart (block_of nbytes t a) h)" if k: "kok A (block_of nbytes t a # H) s'" for a s'
  proof -
    obtain R F where "kinv R F (block_of nbytes t a # H) s'" using k kok_def by blast
    hence "\<forall>h \<in> set H. h_addr (block_of nbytes t a) \<noteq> h_addr h" using kinv_held_distinct by force
    thus ?thesis using kok_apart [OF k, of "block_of nbytes t a"] kok_inside [OF k] by simp
  qed
  thus ?thesis using r by (auto simp: malloc_good_def split: sum.splits mres.splits)
qed

theorem malloc_returns_fresh_witness: "\<exists>r. malloc demo_kmem 100 3 False demo_alloc = Some r \<and> (\<forall>e. r \<noteq> Inl e)"
proof -
  obtain r where r: "malloc demo_kmem 100 3 False demo_alloc = Some r" and "case r of Inl e \<Rightarrow> False \<and> e = Map_too_small
      | Inr (Null, _) \<Rightarrow> \<not> False | Inr (Asleep, _) \<Rightarrow> False
      | Inr (Addr a, _) \<Rightarrow> 100 \<le> h_bytes (block_of 100 3 a) \<and> inside (4096, 16384) (block_of 100 3 a) \<and>
          (\<forall>h \<in> set [block_of 4096 2 4096]. apart (block_of 100 3 a) h)"
    using malloc_returns_fresh [OF demo_reach, of 100 3 False] by (auto simp: NBPG_def M_LAST_def)
  hence "r \<noteq> Inl e" for e by (cases r) simp_all
  thus ?thesis using r by blast
qed

text \<open>
  \<^verbatim>\<open>free\<close> of a block that is held never panics in a reachable state, and takes exactly its size off the use of
  its type, whether it goes back on its list or its pages go back to the map.
\<close>

lemma free_exact:
  assumes "reach (k_init E A) (k_step E) (s, H)" and "h \<in> set H"
  shows "\<exists>s'. free (h_addr h) (h_type h) s = Inr s' \<and>
     ks_memuse (stats s' (h_type h)) = ks_memuse (stats s (h_type h)) - int (h_bytes h) \<and>
     (\<forall>t. t \<noteq> h_type h \<longrightarrow> ks_memuse (stats s' t) = ks_memuse (stats s t)) \<and>
     reach (k_init E A) (k_step E) (s', remove1 h H)"
proof -
  have "kok A H s" using kmalloc_reach [OF assms(1)] by simp
  from free_kok [OF this assms(2)] obtain s' where
    f: "free (h_addr h) (h_type h) s = Inr s'" "charged (h_type h) (- 1) (- int (h_bytes h)) s s'" unfolding freed_from_def by blast
  have "reach (k_init E A) (k_step E) (s', remove1 h H)" by (rule reach_step [OF assms(1) k_release [OF assms(2) f(1)]])
  thus ?thesis using f by (auto simp: charged_def)
qed

theorem free_exact_example: "\<exists>s'. free 4096 2 demo_alloc = Inr s' \<and> ks_memuse (stats s' 2) = ks_memuse (stats demo_alloc 2) - 4096"
  using free_exact [OF demo_reach, of "block_of 4096 2 4096"] by (auto simp: block_of_def BUCKETINDX_def MAXALLOCSAVE_def NBPG_def)

end
