(* ===== verification/Fat.thy ===== *)
theory Fat
  imports Prelude
begin

text \<open>
  The file allocation table of the DOS file system: \<^verbatim>\<open>sys/msdosfs/msdosfs_fat.c\<close>, the macros of \<^verbatim>\<open>fat.h\<close>, \<^verbatim>\<open>denode.h\<close> and
  \<^verbatim>\<open>msdosfsmount.h\<close>, the geometry computed by \<^verbatim>\<open>mountmsdosfs\<close> (\<^verbatim>\<open>msdosfs_vfsops.c\<close>) and truncation (\<^verbatim>\<open>detrunc\<close> of
  \<^verbatim>\<open>msdosfs_denode.c\<close>).

  The device is an array of bytes, as the buffer cache shows it; a block number counts units of 512 bytes. A buffer is
  a function from offsets to bytes with its size, and an access outside it, or the use of an uninitialised variable,
  is \<open>None\<close>. Read errors are an argument: for the k-th read, the error and what the buffer then holds. Writes do not
  fail; their order is listed. The data of files is not modelled: reading and clearing their blocks, and writing
  directory entries (\<^verbatim>\<open>deupdat\<close>), are arguments or results. Cluster numbers and block numbers are natural numbers; what is
  stored_ent in 16 bits is reduced. \<^verbatim>\<open>pcbmap\<close> is called with a place for at least one result. \<^verbatim>\<open>fatentry\<close> is
  that of a kernel with \<^verbatim>\<open>DIAGNOSTIC\<close>; the counters of the cache's hits are left out.

  After the definitions: the table as an array of entries of 12 or 16 bits, and that setting an entry changes it alone, in all copies; the map of
  clusters in use, which allocation and freeing keep exact; chains of clusters and their release; the map made when mounting.
\<close>

section \<open>State\<close>

record fatcache =
  fc_frcn :: nat
  fc_fsrcn :: nat

record denode =
  de_StartCluster :: nat
  de_FileSize :: nat
  de_isdir :: bool
  de_isroot :: bool
  de_upd :: bool
  de_fc :: "fatcache list"

record msdosfsmount =
  pm_BytesPerSec :: nat
  pm_SectPerClust :: nat
  pm_FATs :: nat
  pm_FATsecs :: nat
  pm_fatblk :: nat
  pm_rootdirblk :: nat
  pm_rootdirsize :: nat
  pm_firstcluster :: nat
  pm_maxcluster :: nat
  pm_fatblocksize :: nat
  pm_fatblocksec :: nat
  pm_cnshift :: nat
  pm_waitonfat :: bool
  pm_freeclustercount :: u32
  pm_lookhere :: nat
  pm_inusemap :: "nat \<Rightarrow> u8"
  pm_fmod :: u32
  d_bytes :: "nat \<Rightarrow> u8"
  d_reads :: nat
  d_writes :: "(nat \<times> bool) list"

type_synonym ioenv = "nat \<Rightarrow> (errno \<times> (nat \<Rightarrow> u8)) option"
type_synonym buffer = "nat \<Rightarrow> u8"

definition DEV_BSIZE :: nat where "DEV_BSIZE = 512"
definition MAXBSIZE :: nat where "MAXBSIZE = 8192"
definition MSDOSFSROOT :: nat where "MSDOSFSROOT = 0"
definition MSDOSFSFREE :: nat where "MSDOSFSFREE = 0"
definition CLUST_FIRST :: nat where "CLUST_FIRST = 2"
definition CLUST_EOFE :: nat where "CLUST_EOFE = 0xffff"
definition FC_LASTMAP :: nat where "FC_LASTMAP = 0"
definition FC_LASTFC :: nat where "FC_LASTFC = 1"
definition FCE_EMPTY :: nat where "FCE_EMPTY = 0xffff"

definition MSDOSFSEOF :: "nat \<Rightarrow> bool" where
  "MSDOSFSEOF cn = (cn AND 0xfff8 = 0xfff8)"

definition FAT12 :: "msdosfsmount \<Rightarrow> bool" where
  "FAT12 s = (pm_maxcluster s \<le> 4086)"

definition FATOFS :: "msdosfsmount \<Rightarrow> nat \<Rightarrow> nat" where
  "FATOFS s cn = (if FAT12 s then cn * 3 div 2 else cn * 2)"

definition cntobn :: "msdosfsmount \<Rightarrow> nat \<Rightarrow> nat" where
  "cntobn s cn = (cn - CLUST_FIRST) * pm_SectPerClust s + pm_firstcluster s"

section \<open>Blocks of the table\<close>

definition fatblock :: "msdosfsmount \<Rightarrow> nat \<Rightarrow> nat \<times> nat \<times> nat" where
  "fatblock s ofs = (let bn = ofs div pm_fatblocksize s * pm_fatblocksec s;
       sz = (if bn \<le> pm_FATsecs s then min (pm_fatblocksec s) (pm_FATsecs s - bn) else pm_fatblocksec s) * pm_BytesPerSec s
     in (bn + pm_fatblk s, sz, ofs mod pm_fatblocksize s))"

definition bread :: "ioenv \<Rightarrow> nat \<Rightarrow> msdosfsmount \<Rightarrow> errno option \<times> buffer \<times> msdosfsmount" where
  "bread E bn s = (case E (d_reads s) of
       None \<Rightarrow> (None, \<lambda>o'. d_bytes s (bn * DEV_BSIZE + o'), s\<lparr>d_reads := d_reads s + 1\<rparr>)
     | Some (e, junk) \<Rightarrow> (Some e, junk, s\<lparr>d_reads := d_reads s + 1\<rparr>))"

definition bwrite :: "nat \<Rightarrow> nat \<Rightarrow> buffer \<Rightarrow> msdosfsmount \<Rightarrow> msdosfsmount" where
  "bwrite bn sz buf s = s\<lparr>d_bytes := (\<lambda>a. if bn * DEV_BSIZE \<le> a \<and> a < bn * DEV_BSIZE + sz then buf (a - bn * DEV_BSIZE) else d_bytes s a),
     d_writes := d_writes s @ [(bn, pm_waitonfat s)]\<rparr>"

definition getushort :: "nat \<Rightarrow> buffer \<Rightarrow> nat \<Rightarrow> nat option" where
  "getushort sz buf i = (if i + 1 < sz then Some (unat (buf i) + 256 * unat (buf (i + 1))) else None)"

definition putushort :: "nat \<Rightarrow> buffer \<Rightarrow> nat \<Rightarrow> nat \<Rightarrow> buffer option" where
  "putushort sz buf i v = (if i + 1 < sz then Some (buf(i := of_nat v, i + 1 := of_nat (v div 256))) else None)"

fun updateotherfats :: "nat \<Rightarrow> nat \<Rightarrow> nat \<Rightarrow> buffer \<Rightarrow> msdosfsmount \<Rightarrow> msdosfsmount" where
  "updateotherfats 0 fatbn sz buf s = s"
| "updateotherfats (Suc n) fatbn sz buf s = updateotherfats n (fatbn + pm_FATsecs s) sz buf (bwrite (fatbn + pm_FATsecs s) sz buf s)"

text \<open>What \<^verbatim>\<open>fatentry\<close>, \<^verbatim>\<open>pcbmap\<close> make of the 16 bits at an entry, and what \<^verbatim>\<open>fatentry\<close> puts there.\<close>

definition fat_get :: "msdosfsmount \<Rightarrow> nat \<Rightarrow> nat \<Rightarrow> nat" where
  "fat_get s cn w = (if FAT12 s then
       let r = (if odd cn then drop_bit 4 w else w) AND 0x0fff in if r AND 0x0ff0 = 0x0ff0 then r OR 0xf000 else r
     else w)"

definition fat_put :: "msdosfsmount \<Rightarrow> nat \<Rightarrow> nat \<Rightarrow> nat \<Rightarrow> nat" where
  "fat_put s cn w new = (if FAT12 s then (if odd cn then (w AND 0x000f) OR push_bit 4 new else (w AND 0xf000) OR new) else new)"

text \<open>The error of the read is not looked at.\<close>

definition fatentry :: "ioenv \<Rightarrow> bool \<Rightarrow> bool \<Rightarrow> nat \<Rightarrow> nat \<Rightarrow> msdosfsmount \<Rightarrow> ((errno + nat) \<times> msdosfsmount) option" where
  "fatentry E getf setf cn new s =
     (if \<not> getf \<and> \<not> setf then Some (Inl EINVAL, s)
      else if cn < CLUST_FIRST \<or> pm_maxcluster s < cn then Some (Inl EINVAL, s)
      else case fatblock s (FATOFS s cn) of (bn, sz, bo) \<Rightarrow>
        case bread E bn s of (error, buf, s) \<Rightarrow>
        (case getushort sz buf bo of None \<Rightarrow> None
         | Some w \<Rightarrow>
            let old = (if getf then fat_get s cn w else 0) in
            if \<not> setf then Some (Inr old, s)
            else (case putushort sz buf bo (fat_put s cn w new) of None \<Rightarrow> None
                  | Some buf \<Rightarrow>
                     let s = updateotherfats (pm_FATs s - 1) bn sz buf s; s = bwrite bn sz buf s
                     in Some (Inr old, s\<lparr>pm_fmod := pm_fmod s + 1\<rparr>))))"

section \<open>Allocation\<close>

definition usemap_alloc :: "nat \<Rightarrow> msdosfsmount \<Rightarrow> msdosfsmount" where
  "usemap_alloc cn s = s\<lparr>pm_inusemap := (pm_inusemap s)(cn div 8 := pm_inusemap s (cn div 8) OR push_bit (cn mod 8) 1),
     pm_freeclustercount := pm_freeclustercount s - 1, pm_lookhere := cn + 1\<rparr>"

definition usemap_free :: "nat \<Rightarrow> msdosfsmount \<Rightarrow> msdosfsmount" where
  "usemap_free cn s = s\<lparr>pm_freeclustercount := pm_freeclustercount s + 1,
     pm_inusemap := (pm_inusemap s)(cn div 8 := pm_inusemap s (cn div 8) AND NOT (push_bit (cn mod 8) 1)),
     pm_lookhere := (if cn < pm_lookhere s then cn else pm_lookhere s)\<rparr>"

definition clusterfree :: "ioenv \<Rightarrow> nat \<Rightarrow> msdosfsmount \<Rightarrow> ((errno + nat) \<times> msdosfsmount) option" where
  "clusterfree E cn s = (case fatentry E True True cn MSDOSFSFREE s of
       None \<Rightarrow> None
     | Some (Inl e, s) \<Rightarrow> Some (Inl e, s)
     | Some (Inr old, s) \<Rightarrow> Some (Inr old, usemap_free cn s))"

fun scan_map :: "(nat \<Rightarrow> u8) \<Rightarrow> nat list \<Rightarrow> nat option" where
  "scan_map um [] = None"
| "scan_map um (i # js) = (if um i \<noteq> 0xff then
       (case find (\<lambda>b. um i AND push_bit b 1 = 0) [0..<8] of Some b \<Rightarrow> Some (i * 8 + b) | None \<Rightarrow> scan_map um js)
     else scan_map um js)"

definition clusteralloc :: "ioenv \<Rightarrow> nat \<Rightarrow> msdosfsmount \<Rightarrow> ((errno + nat) \<times> msdosfsmount) option" where
  "clusteralloc E fillwith s = (case scan_map (pm_inusemap s) [pm_lookhere s div 8..<pm_maxcluster s div 8 + 1] of
       None \<Rightarrow> Some (Inl ENOSPC, s)
     | Some cn \<Rightarrow>
        (case fatentry E False True cn fillwith s of
           None \<Rightarrow> None
         | Some (Inl e, s) \<Rightarrow> Some (Inl e, s)
         | Some (Inr _, s) \<Rightarrow> Some (Inr cn, usemap_alloc cn s)))"

definition chain_turn :: "ioenv \<Rightarrow> nat \<times> msdosfsmount \<Rightarrow> (nat \<times> msdosfsmount) + (errno option \<times> msdosfsmount) option" where
  "chain_turn E x = (case x of (cn, s) \<Rightarrow>
     if CLUST_FIRST \<le> cn \<and> cn \<le> pm_maxcluster s then
       (case clusterfree E cn s of None \<Rightarrow> Inr None | Some (Inl e, s) \<Rightarrow> Inr (Some (Some e, s)) | Some (Inr next, s) \<Rightarrow> Inl (next, s))
     else Inr (Some (None, s)))"

text \<open>A cluster that is reached again has been marked free, so no chain takes more turns than there are clusters.\<close>

definition freeclusterchain :: "ioenv \<Rightarrow> nat \<Rightarrow> msdosfsmount \<Rightarrow> (errno option \<times> msdosfsmount) option" where
  "freeclusterchain E cn s = (case run_fuel (chain_turn E) (pm_maxcluster s + 3) (cn, s) of None \<Rightarrow> None | Some r \<Rightarrow> r)"

section \<open>Filling in the map\<close>

fun fill_loop :: "ioenv \<Rightarrow> nat list \<Rightarrow> (nat \<times> buffer) option \<Rightarrow> msdosfsmount \<Rightarrow> (errno option \<times> msdosfsmount) option" where
  "fill_loop E [] bp s = Some (None, s)"
| "fill_loop E (cn # cns) bp s = (let ofs = FATOFS s cn; bo = ofs mod pm_fatblocksize s;
       (error, bp, s) = (if bo = 0 \<or> bp = None then
            (case fatblock s ofs of (bn, sz, _) \<Rightarrow> case bread E bn s of (error, buf, s) \<Rightarrow> (error, Some (sz, buf), s))
          else (None, bp, s)) in
     case error of Some e \<Rightarrow> Some (Some e, s)
     | None \<Rightarrow>
        (case bp of None \<Rightarrow> None
         | Some (sz, buf) \<Rightarrow>
            (case getushort sz buf bo of None \<Rightarrow> None
             | Some w \<Rightarrow>
                let readcn = (if FAT12 s then (if odd cn then drop_bit 4 w else w) AND 0x0fff else w)
                in fill_loop E cns (Some (sz, buf)) (if readcn = 0 then usemap_free cn s else s))))"

definition fillinusemap :: "ioenv \<Rightarrow> msdosfsmount \<Rightarrow> (errno option \<times> msdosfsmount) option" where
  "fillinusemap E s = fill_loop E [CLUST_FIRST..<pm_maxcluster s + 1] None
     (s\<lparr>pm_inusemap := (\<lambda>i. if i < pm_maxcluster s div 8 + 1 then 0xff else pm_inusemap s i),
        pm_freeclustercount := 0, pm_lookhere := pm_maxcluster s + 1\<rparr>)"

section \<open>Files\<close>

definition fc_setcache :: "nat \<Rightarrow> nat \<Rightarrow> nat \<Rightarrow> denode \<Rightarrow> denode" where
  "fc_setcache i frcn fsrcn dep = dep\<lparr>de_fc := (de_fc dep)[i := \<lparr>fc_frcn = frcn mod 65536, fc_fsrcn = fsrcn mod 65536\<rparr>]\<rparr>"

definition fc_closest :: "nat \<Rightarrow> fatcache \<Rightarrow> fatcache option \<Rightarrow> fatcache option" where
  "fc_closest findcn e closest = (if fc_frcn e \<noteq> FCE_EMPTY \<and> fc_frcn e \<le> findcn \<and> (closest = None \<or> fc_frcn (the closest) < fc_frcn e)
     then Some e else closest)"

definition fc_lookup :: "nat \<Rightarrow> denode \<Rightarrow> nat \<times> nat \<Rightarrow> nat \<times> nat" where
  "fc_lookup findcn dep start = (case fold (fc_closest findcn) (de_fc dep) None of None \<Rightarrow> start | Some e \<Rightarrow> (fc_frcn e, fc_fsrcn e))"

definition fc_purge :: "nat \<Rightarrow> denode \<Rightarrow> denode" where
  "fc_purge frcn dep = dep\<lparr>de_fc := map (\<lambda>e. if fc_frcn e \<noteq> FCE_EMPTY \<and> frcn \<le> fc_frcn e then e\<lparr>fc_frcn := FCE_EMPTY\<rparr> else e) (de_fc dep)\<rparr>"

datatype mapres = Mapped nat nat | Beyond nat | Failed errno

fun pcb_loop :: "ioenv \<Rightarrow> nat \<Rightarrow> nat \<Rightarrow> nat \<Rightarrow> nat option \<Rightarrow> (nat \<times> buffer) option \<Rightarrow> msdosfsmount \<Rightarrow>
    ((errno + nat \<times> nat \<times> nat option) \<times> msdosfsmount) option" where
  "pcb_loop E 0 i cn prevcn bp s = Some (Inr (i, cn, prevcn), s)"
| "pcb_loop E (Suc n) i cn prevcn bp s =
     (if MSDOSFSEOF cn then Some (Inr (i, cn, prevcn), s)
      else case fatblock s (FATOFS s cn) of (bn, sz, bo) \<Rightarrow>
        let (error, buf, s) = (case bp of Some (bp_bn, buf) \<Rightarrow> if bn \<noteq> bp_bn then bread E bn s else (None, buf, s) | None \<Rightarrow> bread E bn s) in
        (case error of Some e \<Rightarrow> Some (Inl e, s)
         | None \<Rightarrow>
            (case getushort sz buf bo of None \<Rightarrow> None
             | Some w \<Rightarrow> pcb_loop E n (i + 1) (fat_get s cn w) (Some cn) (Some (bn, buf)) s)))"

definition pcbmap :: "ioenv \<Rightarrow> nat \<Rightarrow> denode \<Rightarrow> msdosfsmount \<Rightarrow> (mapres \<times> denode \<times> msdosfsmount) option" where
  "pcbmap E findcn dep s =
     (if de_StartCluster dep = MSDOSFSROOT then
        (if de_isdir dep then
           (if pm_rootdirsize s < findcn * pm_SectPerClust s then Some (Beyond (pm_rootdirsize s div pm_SectPerClust s), dep, s)
            else Some (Mapped (pm_rootdirblk s + findcn * pm_SectPerClust s) MSDOSFSROOT, dep, s))
         else Some (Beyond 0, dep, s))
      else case fc_lookup findcn dep (0, de_StartCluster dep) of (i, cn) \<Rightarrow>
        (case pcb_loop E (findcn - i) i cn None None s of
           None \<Rightarrow> None
         | Some (Inl e, s) \<Rightarrow> Some (Failed e, dep, s)
         | Some (Inr (i, cn, prevcn), s) \<Rightarrow>
            if \<not> MSDOSFSEOF cn then Some (Mapped (cntobn s cn) cn, fc_setcache FC_LASTMAP i cn dep, s)
            else (case prevcn of None \<Rightarrow> None | Some p \<Rightarrow> Some (Beyond i, fc_setcache FC_LASTFC (i - 1) p dep, s))))"

text \<open>The block that \<^verbatim>\<open>extendfile\<close> gets a cleared buffer for: of the device for directories, of the file otherwise;
  none, although the call succeeds, if the file has a cluster 65535.\<close>

datatype newblock = Devblock nat | Fileblock nat | Unset

definition extend_alloc :: "ioenv \<Rightarrow> denode \<Rightarrow> msdosfsmount \<Rightarrow> ((errno + newblock \<times> nat) \<times> denode \<times> msdosfsmount) option" where
  "extend_alloc E dep s = (case clusteralloc E CLUST_EOFE s of
       None \<Rightarrow> None
     | Some (Inl e, s) \<Rightarrow> Some (Inl e, dep, s)
     | Some (Inr cn, s) \<Rightarrow>
        let finish = (\<lambda>frcn dep s. Some (Inr (if de_isdir dep then Devblock (cntobn s cn) else Fileblock frcn, cn), fc_setcache FC_LASTFC frcn cn dep, s)) in
        if de_StartCluster dep = 0 then finish 0 (dep\<lparr>de_StartCluster := cn mod 65536\<rparr>) s
        else (case fatentry E False True (fc_fsrcn (de_fc dep ! FC_LASTFC)) cn s of
               None \<Rightarrow> None
             | Some (Inl e, s) \<Rightarrow> (case clusterfree E cn s of None \<Rightarrow> None | Some (_, s) \<Rightarrow> Some (Inl e, dep, s))
             | Some (Inr _, s) \<Rightarrow> finish (fc_frcn (de_fc dep ! FC_LASTFC) + 1) dep s))"

definition extendfile :: "ioenv \<Rightarrow> denode \<Rightarrow> msdosfsmount \<Rightarrow> ((errno + newblock \<times> nat) \<times> denode \<times> msdosfsmount) option" where
  "extendfile E dep s =
     (if de_isroot dep then Some (Inl ENOSPC, dep, s)
      else if fc_frcn (de_fc dep ! FC_LASTFC) = FCE_EMPTY \<and> de_StartCluster dep \<noteq> 0 then
        (case pcbmap E 0xffff dep s of
           None \<Rightarrow> None
         | Some (Beyond _, dep, s) \<Rightarrow> extend_alloc E dep s
         | Some (Mapped _ _, dep, s) \<Rightarrow> Some (Inr (Unset, 0), dep, s)
         | Some (Failed e, dep, s) \<Rightarrow> Some (Inl e, dep, s))
      else extend_alloc E dep s)"


text \<open>
  Truncation. \<open>zero\<close> is what reading the new last block for clearing its end gives, \<open>upd\<close> the result of \<^verbatim>\<open>deupdat\<close>; the
  result is the error returned.
\<close>

definition trunc_free :: "ioenv \<Rightarrow> nat \<Rightarrow> errno option \<Rightarrow> denode \<Rightarrow> msdosfsmount \<Rightarrow> (errno option \<times> denode \<times> msdosfsmount) option" where
  "trunc_free E chaintofree upd dep s =
     (if chaintofree \<noteq> 0 \<and> \<not> MSDOSFSEOF chaintofree then
        (case freeclusterchain E chaintofree s of None \<Rightarrow> None | Some (_, s) \<Rightarrow> Some (upd, dep, s))
      else Some (upd, dep, s))"

definition trunc_tail :: "errno option \<Rightarrow> nat \<Rightarrow> denode \<Rightarrow> msdosfsmount \<Rightarrow> errno option \<times> denode" where
  "trunc_tail zero length' dep s = (let dep = fc_purge ((length' + (2 ^ pm_cnshift s - 1)) mod 2 ^ 32 div 2 ^ pm_cnshift s) dep in
     if length' mod 2 ^ pm_cnshift s \<noteq> 0 \<and> zero \<noteq> None then (zero, dep)
     else (None, dep\<lparr>de_FileSize := length', de_upd := True\<rparr>))"

definition detrunc :: "ioenv \<Rightarrow> errno option \<Rightarrow> errno option \<Rightarrow> nat \<Rightarrow> denode \<Rightarrow> msdosfsmount \<Rightarrow> (errno option \<times> denode \<times> msdosfsmount) option" where
  "detrunc E zero upd length' dep s =
     (if de_isroot dep then Some (Some EINVAL, dep, s)
      else if de_FileSize dep \<le> length' then Some (upd, dep\<lparr>de_upd := True\<rparr>, s)
      else if length' = 0 then
        (let chaintofree = de_StartCluster dep in
         case trunc_tail zero length' (dep\<lparr>de_StartCluster := 0\<rparr>) s of
           (Some e, dep) \<Rightarrow> Some (Some e, dep, s)
         | (None, dep) \<Rightarrow> trunc_free E chaintofree upd dep s)
      else
        (let last = (length' - 1) div 2 ^ pm_cnshift s in
         case pcbmap E last dep s of
           None \<Rightarrow> None
         | Some (Beyond _, dep, s) \<Rightarrow> Some (Some E2BIG, dep, s)
         | Some (Failed e, dep, s) \<Rightarrow> Some (Some e, dep, s)
         | Some (Mapped _ eofentry, dep, s) \<Rightarrow>
            (case trunc_tail zero length' dep s of
               (Some e, dep) \<Rightarrow> Some (Some e, dep, s)
             | (None, dep) \<Rightarrow>
                (case fatentry E True True eofentry CLUST_EOFE s of
                   None \<Rightarrow> None
                 | Some (Inl e, s) \<Rightarrow> Some (Some e, dep, s)
                 | Some (Inr chaintofree, s) \<Rightarrow> trunc_free E chaintofree upd (fc_setcache FC_LASTFC last eofentry dep) s))))"

section \<open>Mounting\<close>

text \<open>The fields of the boot sector that \<^verbatim>\<open>mountmsdosfs\<close> uses. What it leaves uninitialised is zero.\<close>

record bpb =
  bpbBytesPerSec :: nat
  bpbSecPerClust :: nat
  bpbResSectors :: nat
  bpbFATs :: nat
  bpbRootDirEnts :: nat
  bpbSectors :: nat
  bpbFATsecs :: nat
  bpbSecPerTrack :: nat
  bpbHeads :: nat
  bpbHugeSectors :: nat

definition mount_geometry :: "bpb \<Rightarrow> nat \<Rightarrow> (nat \<Rightarrow> u8) \<Rightarrow> msdosfsmount" where
  "mount_geometry b cnshift bytes = (let
     hugesectors = (if bpbSectors b = 0 then bpbHugeSectors b else bpbSectors b);
     fatblk = bpbResSectors b;
     rootdirblk = fatblk + bpbFATs b * bpbFATsecs b;
     rootdirsize = bpbRootDirEnts b * 32 div bpbBytesPerSec b;
     firstcluster = rootdirblk + rootdirsize;
     maxcluster = (hugesectors + 2 ^ 32 - firstcluster) mod 2 ^ 32 div bpbSecPerClust b + 1;
     fatblocksize = (if maxcluster \<le> 4086 then 3 * bpbBytesPerSec b else MAXBSIZE)
   in \<lparr>pm_BytesPerSec = bpbBytesPerSec b, pm_SectPerClust = bpbSecPerClust b, pm_FATs = bpbFATs b, pm_FATsecs = bpbFATsecs b,
       pm_fatblk = fatblk, pm_rootdirblk = rootdirblk, pm_rootdirsize = rootdirsize, pm_firstcluster = firstcluster,
       pm_maxcluster = maxcluster, pm_fatblocksize = fatblocksize, pm_fatblocksec = fatblocksize div bpbBytesPerSec b,
       pm_cnshift = cnshift, pm_waitonfat = False, pm_freeclustercount = 0, pm_lookhere = 0, pm_inusemap = (\<lambda>_. 0), pm_fmod = 0,
       d_bytes = bytes, d_reads = 0, d_writes = []\<rparr>)"

text \<open>The shift for clusters of \<open>bpc\<close> bytes, a power of two.\<close>

definition mount_shift :: "nat \<Rightarrow> errno + nat" where
  "mount_shift bpc = (if bpc = 0 then Inl EINVAL
     else case find (bit bpc) [0..<32] of None \<Rightarrow> Inr 0 | Some i \<Rightarrow> if 2 ^ i = bpc then Inr i else Inl EINVAL)"

definition mount_fat :: "ioenv \<Rightarrow> bpb \<Rightarrow> bool \<Rightarrow> bool \<Rightarrow> (nat \<Rightarrow> u8) \<Rightarrow> (errno + msdosfsmount) option" where
  "mount_fat E b ronly sync bytes =
     (if bpbBytesPerSec b = 0 \<or> bpbSecPerClust b = 0 \<or> bpbHeads b = 0 \<or> 255 < bpbHeads b \<or> bpbSecPerTrack b = 0 \<or> 63 < bpbSecPerTrack b then Some (Inl EINVAL)
      else case mount_shift (bpbSecPerClust b * bpbBytesPerSec b) of
        Inl e \<Rightarrow> Some (Inl e)
      | Inr cnshift \<Rightarrow>
         (case fillinusemap E (mount_geometry b cnshift bytes) of
            None \<Rightarrow> None
          | Some (Some e, s) \<Rightarrow> Some (Inl e)
          | Some (None, s) \<Rightarrow> Some (Inr (s\<lparr>pm_waitonfat := sync, pm_fmod := (if ronly then pm_fmod s else 1)\<rparr>))))"

section \<open>Bits of an entry\<close>

lemma and_fff: "(w :: nat) AND 0xfff = w mod 4096"
  using take_bit_eq_mask [of 12 w] by (simp add: mask_eq_exp_minus_1 take_bit_eq_mod)

lemma and_f: "(w :: nat) AND 0xf = w mod 16"
  using take_bit_eq_mask [of 4 w] by (simp add: mask_eq_exp_minus_1 take_bit_eq_mod)

lemma and_high: "(w :: nat) AND push_bit k (mask n) = push_bit k (take_bit n (drop_bit k w))"
  by (rule bit_eqI) (auto simp: bit_simps)

lemma and_f000: "(w :: nat) AND 0xf000 = w div 4096 mod 16 * 4096"
  using and_high [of w 12 4] by (simp add: mask_eq_exp_minus_1 push_bit_eq_mult drop_bit_eq_div take_bit_eq_mod)

lemma and_ff0: "(w :: nat) AND 0xff0 = w div 16 mod 256 * 16"
  using and_high [of w 4 8] by (simp add: mask_eq_exp_minus_1 push_bit_eq_mult drop_bit_eq_div take_bit_eq_mod)

lemma and_fff8: "(w :: nat) AND 0xfff8 = w div 8 mod 8192 * 8"
  using and_high [of w 3 13] by (simp add: mask_eq_exp_minus_1 push_bit_eq_mult drop_bit_eq_div take_bit_eq_mod)

lemma or_low: "(r :: nat) < 2 ^ k \<Longrightarrow> push_bit k q OR r = q * 2 ^ k + r"
proof -
  assume r: "r < 2 ^ k"
  have "push_bit k q AND r = 0"
  proof (rule bit_eqI)
    fix n
    have "\<not> bit r n" if "k \<le> n"
    proof -
      have "r < 2 ^ n" using r power_increasing [OF that, of "2 :: nat"] by linarith
      thus ?thesis by (simp add: bit_iff_odd)
    qed
    thus "bit (push_bit k q AND r) n = bit 0 n" by (auto simp: bit_simps)
  qed
  from disjunctive_add_eq_or [OF this] show ?thesis by (simp add: push_bit_eq_mult)
qed

lemma or_div: "((a :: nat) OR b) div 4096 = (a div 4096) OR (b div 4096)"
  using drop_bit_or [of 12 a b] by (simp add: drop_bit_eq_div)

lemma or_mod: "((a :: nat) OR b) mod 4096 = (a mod 4096) OR (b mod 4096)"
  using take_bit_or [of 12 a b] by (simp add: take_bit_eq_mod)

lemma eof_iff: "cn < 65536 \<Longrightarrow> MSDOSFSEOF cn = (65528 \<le> cn)"
  unfolding MSDOSFSEOF_def and_fff8 by simp linarith

text \<open>Twelve bits as the code reads them: the numbers from \<open>0xff0\<close> on stand for those of a table of 16 bits.\<close>

definition wide12 :: "nat \<Rightarrow> nat" where
  "wide12 r = (if 0xff0 \<le> r then r + 0xf000 else r)"

lemma fat_get_eq: "fat_get s cn w = (if FAT12 s then wide12 ((if odd cn then w div 16 else w) mod 4096) else w)"
proof -
  have "(if r AND 0xff0 = 0xff0 then r OR 0xf000 else r) = wide12 r" if "r < 4096" for r :: nat
  proof -
    have "(r AND 0xff0 = 0xff0) = (0xff0 \<le> r)" unfolding and_ff0 using that by simp linarith
    moreover have "r OR 0xf000 = r + 0xf000" using or_low [of r 12 15] that by (simp add: push_bit_eq_mult or.commute)
    ultimately show ?thesis by (simp add: wide12_def)
  qed
  thus ?thesis unfolding fat_get_def Let_def and_fff by (simp add: drop_bit_eq_div)
qed

lemma fat_put_odd: "FAT12 s \<Longrightarrow> odd cn \<Longrightarrow> fat_put s cn w new = w mod 16 + 16 * new"
  using or_low [of "w mod 16" 4 new] by (simp add: fat_put_def and_f or.commute)

lemma fat_put_even: "FAT12 s \<Longrightarrow> even cn \<Longrightarrow> new < 4096 \<Longrightarrow> w < 65536 \<Longrightarrow> fat_put s cn w new = w div 4096 * 4096 + new"
  using or_low [of new 12 "w div 4096 mod 16"] by (simp add: fat_put_def and_f000 push_bit_eq_mult)

section \<open>The table as an array\<close>

definition fbyte :: "msdosfsmount \<Rightarrow> nat \<Rightarrow> u8" where
  "fbyte s i = d_bytes s (pm_fatblk s * 512 + i)"

definition fword :: "msdosfsmount \<Rightarrow> nat \<Rightarrow> nat" where
  "fword s i = unat (fbyte s i) + 256 * unat (fbyte s (i + 1))"

definition ent :: "msdosfsmount \<Rightarrow> nat \<Rightarrow> nat" where
  "ent s cn = fat_get s cn (fword s (FATOFS s cn))"

definition fat_wf :: "msdosfsmount \<Rightarrow> bool" where
  "fat_wf s = (pm_BytesPerSec s = 512 \<and> pm_fatblocksize s = (if FAT12 s then 1536 else 8192) \<and> pm_fatblocksec s = pm_fatblocksize s div 512 \<and>
     1 \<le> pm_FATs s \<and> FATOFS s (pm_maxcluster s) + 1 < pm_FATsecs s * 512 \<and> pm_maxcluster s < 0xfff0)"

text \<open>What no operation changes.\<close>

definition same_geo :: "msdosfsmount \<Rightarrow> msdosfsmount \<Rightarrow> bool" where
  "same_geo s s' = (pm_BytesPerSec s' = pm_BytesPerSec s \<and> pm_SectPerClust s' = pm_SectPerClust s \<and> pm_FATs s' = pm_FATs s \<and> pm_FATsecs s' = pm_FATsecs s \<and>
     pm_fatblk s' = pm_fatblk s \<and> pm_rootdirblk s' = pm_rootdirblk s \<and> pm_rootdirsize s' = pm_rootdirsize s \<and> pm_firstcluster s' = pm_firstcluster s \<and>
     pm_maxcluster s' = pm_maxcluster s \<and> pm_fatblocksize s' = pm_fatblocksize s \<and> pm_fatblocksec s' = pm_fatblocksec s \<and>
     pm_cnshift s' = pm_cnshift s \<and> pm_waitonfat s' = pm_waitonfat s)"

lemma same_geo_refl [simp]: "same_geo s s" by (simp add: same_geo_def)

lemma same_geo_trans: "same_geo s s' \<Longrightarrow> same_geo s' s'' \<Longrightarrow> same_geo s s''" by (simp add: same_geo_def)

lemma same_geo_eqs: "same_geo s s' \<Longrightarrow> FAT12 s' = FAT12 s" "same_geo s s' \<Longrightarrow> FATOFS s' = FATOFS s" "same_geo s s' \<Longrightarrow> fat_wf s' = fat_wf s"
  "same_geo s s' \<Longrightarrow> pm_maxcluster s' = pm_maxcluster s" "same_geo s s' \<Longrightarrow> fat_get s' = fat_get s"
  by (simp_all add: same_geo_def FAT12_def FATOFS_def fat_wf_def fat_get_def fun_eq_iff)

definition same_map :: "msdosfsmount \<Rightarrow> msdosfsmount \<Rightarrow> bool" where
  "same_map s s' = (pm_inusemap s' = pm_inusemap s \<and> pm_freeclustercount s' = pm_freeclustercount s \<and> pm_lookhere s' = pm_lookhere s)"

lemma fword_less: "fword s i < 65536"
proof -
  have "unat (fbyte s i) < 256" "unat (fbyte s (i + 1)) < 256" using unsigned_less [of "fbyte s i", where ?'a = nat] unsigned_less [of "fbyte s (i + 1)", where ?'a = nat] by simp_all
  thus ?thesis by (simp add: fword_def)
qed

lemma ent_less: "ent s cn < 65536"
  using fword_less [of s] by (auto simp: ent_def fat_get_eq wide12_def)

lemma FATOFS_mono: "cn \<le> m \<Longrightarrow> FATOFS s cn \<le> FATOFS s m"
  by (simp add: FATOFS_def div_le_mono)

text \<open>An entry lies in the block read for it, the block in the table.\<close>

lemma fatblock_in:
  assumes "fat_wf s" and "cn \<le> pm_maxcluster s"
  obtains rb sz bo where "fatblock s (FATOFS s cn) = (pm_fatblk s + rb, sz, bo)" "bo + 1 < sz" "rb * 512 + bo = FATOFS s cn" "rb * 512 + sz \<le> pm_FATsecs s * 512"
proof -
  define o' where "o' = FATOFS s cn"
  let ?fs = "pm_fatblocksize s" let ?q = "o' div ?fs" let ?b = "o' mod ?fs"
  have o': "o' + 1 < pm_FATsecs s * 512" using FATOFS_mono [OF assms(2), of s] assms(1) by (simp add: o'_def fat_wf_def)
  have fs: "?fs = (if FAT12 s then 1536 else 8192)" "pm_fatblocksec s * 512 = ?fs" using assms(1) by (simp_all add: fat_wf_def)
  have qb: "?q * ?fs + ?b = o'" by simp
  have b1: "?b + 1 < ?fs"
  proof (cases "FAT12 s")
    case True
    hence "o' = 3 * (cn div 2) \<or> o' = 3 * (cn div 2) + 1" unfolding o'_def FATOFS_def by simp presburger
    hence "o' mod 3 \<noteq> 2" by presburger
    moreover have "o' mod 1536 mod 3 = o' mod 3" by (rule mod_mod_cancel) simp
    ultimately have "o' mod 1536 \<noteq> 1535" by auto
    moreover have "o' mod 1536 < 1536" by simp
    ultimately show ?thesis unfolding fs(1) using True by simp
  next
    case False
    hence "o' = 2 * cn" by (simp add: o'_def FATOFS_def)
    hence "even (o' mod 8192)" by (simp add: dvd_mod)
    moreover have "o' mod 8192 < 8192" by simp
    ultimately have "o' mod 8192 \<noteq> 8191" "o' mod 8192 < 8192" by auto
    thus ?thesis unfolding fs(1) using False by simp
  qed
  let ?rb = "?q * pm_fatblocksec s"
  have rb: "?rb * 512 = ?q * ?fs" using fs(2) by (metis mult.assoc)
  have le: "?rb < pm_FATsecs s" using qb rb o' by linarith
  let ?sz = "min (pm_fatblocksec s) (pm_FATsecs s - ?rb) * 512"
  have sz: "?sz = min ?fs (pm_FATsecs s * 512 - ?q * ?fs)" unfolding nat_mult_min_left diff_mult_distrib fs(2) rb ..
  have "?b + 1 < ?sz" unfolding sz min_less_iff_conj using b1 qb o' by linarith
  moreover have "fatblock s o' = (pm_fatblk s + ?rb, ?sz, ?b)" using le assms(1) by (simp add: fatblock_def Let_def fat_wf_def)
  moreover have "?rb * 512 + ?sz \<le> pm_FATsecs s * 512" unfolding sz rb using qb o' by linarith
  moreover have "?rb * 512 + ?b = FATOFS s cn" unfolding o'_def [symmetric] rb by (rule qb)
  ultimately show ?thesis using that o'_def by blast
qed

section \<open>One entry\<close>

text \<open>No read fails.\<close>

definition no_errors :: ioenv where
  "no_errors k = None"

lemma bread_ok: "bread no_errors bn s = (None, \<lambda>i. d_bytes s (bn * 512 + i), s\<lparr>d_reads := d_reads s + 1\<rparr>)"
  by (simp add: bread_def no_errors_def DEV_BSIZE_def)

lemma bwrite_geo [simp]: "same_geo s (bwrite bn sz buf s)" "same_map s (bwrite bn sz buf s)" "pm_FATsecs (bwrite bn sz buf s) = pm_FATsecs s"
  by (simp_all add: bwrite_def same_geo_def same_map_def)

lemma updateotherfats_geo: "same_geo s (updateotherfats n bn sz buf s) \<and> same_map s (updateotherfats n bn sz buf s)"
proof (induction n arbitrary: bn s)
  case 0 show ?case by (simp add: same_map_def)
next
  case (Suc n)
  let ?s = "bwrite (bn + pm_FATsecs s) sz buf s" let ?u = "updateotherfats n (bn + pm_FATsecs s) sz buf ?s"
  have "same_geo s ?u" using same_geo_trans [OF bwrite_geo(1) conjunct1 [OF Suc.IH]] .
  moreover have "same_map s ?u" using Suc.IH [of ?s "bn + pm_FATsecs s"] bwrite_geo(2) [of s "bn + pm_FATsecs s" sz buf] by (simp add: same_map_def)
  ultimately show ?case by simp
qed

lemma bwrite_bytes: "d_bytes (bwrite bn sz buf s) a = (if bn * 512 \<le> a \<and> a < bn * 512 + sz then buf (a - bn * 512) else d_bytes s a)"
  by (simp add: bwrite_def DEV_BSIZE_def)

text \<open>The copies: block by block, and nothing else.\<close>

lemma updateotherfats_outside:
  assumes "sz \<le> pm_FATsecs s * 512" and "a < (bn + pm_FATsecs s) * 512 \<or> (bn + n * pm_FATsecs s) * 512 + sz \<le> a"
  shows "d_bytes (updateotherfats n bn sz buf s) a = d_bytes s a"
  using assms
proof (induction n arbitrary: bn s)
  case (Suc n)
  let ?F = "pm_FATsecs s" let ?s = "bwrite (bn + ?F) sz buf s"
  have "sz \<le> pm_FATsecs ?s * 512" using Suc.prems by simp
  moreover have "a < (bn + ?F + pm_FATsecs ?s) * 512 \<or> (bn + ?F + n * pm_FATsecs ?s) * 512 + sz \<le> a" using Suc.prems(2) by (auto simp: algebra_simps)
  ultimately have "d_bytes (updateotherfats n (bn + ?F) sz buf ?s) a = d_bytes ?s a" by (rule Suc.IH)
  moreover have "\<not> ((bn + ?F) * 512 \<le> a \<and> a < (bn + ?F) * 512 + sz)" using Suc.prems(2) by (auto simp: algebra_simps)
  ultimately show ?case by (auto simp: bwrite_bytes)
qed simp

lemma updateotherfats_copy:
  assumes "sz \<le> pm_FATsecs s * 512" and "1 \<le> i" and "i \<le> n" and "k < pm_FATsecs s * 512"
  shows "d_bytes (updateotherfats n bn sz buf s) ((bn + i * pm_FATsecs s) * 512 + k) = (if k < sz then buf k else d_bytes s ((bn + i * pm_FATsecs s) * 512 + k))"
  using assms
proof (induction n arbitrary: bn s i)
  case (Suc n)
  let ?F = "pm_FATsecs s" let ?s = "bwrite (bn + ?F) sz buf s"
  have sz: "sz \<le> pm_FATsecs ?s * 512" using Suc.prems by simp
  show ?case
  proof (cases "i = 1")
    case True
    have "d_bytes (updateotherfats n (bn + ?F) sz buf ?s) ((bn + ?F) * 512 + k) = d_bytes ?s ((bn + ?F) * 512 + k)"
      by (rule updateotherfats_outside [OF sz]) (use Suc.prems in auto)
    thus ?thesis using True by (auto simp: bwrite_bytes)
  next
    case False
    have e: "(bn + ?F + (i - 1) * ?F) * 512 = (bn + i * ?F) * 512" using Suc.prems(2) False by (cases i) auto
    have "2 * ?F * 512 \<le> i * ?F * 512" using Suc.prems(2) False by (intro mult_le_mono1) simp
    hence "\<not> (bn + i * ?F) * 512 + k < (bn + ?F) * 512 + sz" using Suc.prems(1) unfolding add_mult_distrib by linarith
    hence "d_bytes ?s ((bn + i * ?F) * 512 + k) = d_bytes s ((bn + i * ?F) * 512 + k)" by (simp add: bwrite_bytes)
    moreover have "d_bytes (updateotherfats n (bn + ?F) sz buf ?s) ((bn + ?F + (i - 1) * ?F) * 512 + k) =
        (if k < sz then buf k else d_bytes ?s ((bn + ?F + (i - 1) * ?F) * 512 + k))"
      by (rule Suc.IH [of ?s "i - 1" "bn + ?F", unfolded bwrite_geo(3)]) (use Suc.prems False in auto)
    ultimately show ?thesis unfolding e updateotherfats.simps by presburger
  qed
qed simp

definition mirrored :: "msdosfsmount \<Rightarrow> bool" where
  "mirrored s = (\<forall>i < pm_FATs s. \<forall>k < pm_FATsecs s * 512. d_bytes s ((pm_fatblk s + i * pm_FATsecs s) * 512 + k) = fbyte s k)"

definition outside_fat :: "msdosfsmount \<Rightarrow> nat \<Rightarrow> bool" where
  "outside_fat s a = (a < pm_fatblk s * 512 \<or> (pm_fatblk s + pm_FATs s * pm_FATsecs s) * 512 \<le> a)"

text \<open>A block written to all copies.\<close>

lemma write_all_fats:
  fixes buf :: buffer
  assumes FATs: "1 \<le> pm_FATs s" and fit: "rb * 512 + sz \<le> pm_FATsecs s * 512"
  defines "s' \<equiv> bwrite (pm_fatblk s + rb) sz buf (updateotherfats (pm_FATs s - 1) (pm_fatblk s + rb) sz buf s)"
  shows "k < pm_FATsecs s * 512 \<Longrightarrow> fbyte s' k = (if rb * 512 \<le> k \<and> k < rb * 512 + sz then buf (k - rb * 512) else fbyte s k)"
    and "same_geo s s'" and "same_map s s'" and "mirrored s \<Longrightarrow> mirrored s'" and "outside_fat s a \<Longrightarrow> d_bytes s' a = d_bytes s a"
proof -
  let ?bn = "pm_fatblk s + rb" let ?F = "pm_FATsecs s" let ?N = "pm_FATs s - 1" let ?u = "updateotherfats ?N ?bn sz buf s"
  have sz: "sz \<le> ?F * 512" using fit by simp
  note ug = updateotherfats_geo [of s ?N ?bn sz buf]
  show geo: "same_geo s s'" using ug bwrite_geo(1) same_geo_trans unfolding s'_def by blast
  show "same_map s s'" using ug bwrite_geo(2) [of ?u ?bn sz buf] unfolding s'_def by (auto simp: same_map_def)
  have fb: "pm_fatblk s' = pm_fatblk s" "pm_FATs s' = pm_FATs s" "pm_FATsecs s' = ?F" using geo by (simp_all add: same_geo_def)
  show b0: "fbyte s' k = (if rb * 512 \<le> k \<and> k < rb * 512 + sz then buf (k - rb * 512) else fbyte s k)" if k: "k < ?F * 512" for k
  proof -
    have "d_bytes ?u (pm_fatblk s * 512 + k) = d_bytes s (pm_fatblk s * 512 + k)"
      by (rule updateotherfats_outside [OF sz]) (use k in \<open>auto simp: algebra_simps\<close>)
    moreover have "pm_fatblk s * 512 + k - ?bn * 512 = k - rb * 512" by simp
    moreover have "fbyte s' k = d_bytes s' (pm_fatblk s * 512 + k)" by (simp add: fbyte_def fb)
    ultimately show ?thesis by (auto simp: s'_def bwrite_bytes fbyte_def)
  qed
  show "d_bytes s' a = d_bytes s a" if out: "outside_fat s a"
  proof -
    obtain m where m: "pm_FATs s = Suc m" using FATs by (cases "pm_FATs s") auto
    have "a < (?bn + ?F) * 512 \<or> (?bn + ?N * ?F) * 512 + sz \<le> a" using out fit m by (auto simp: outside_fat_def algebra_simps)
    hence "d_bytes ?u a = d_bytes s a" by (rule updateotherfats_outside [OF sz])
    moreover have "\<not> (?bn * 512 \<le> a \<and> a < ?bn * 512 + sz)" using out fit m by (auto simp: outside_fat_def algebra_simps)
    ultimately show ?thesis by (auto simp: s'_def bwrite_bytes)
  qed
  assume mir: "mirrored s"
  show "mirrored s'" unfolding mirrored_def fb
  proof (intro allI impI)
    fix i k assume i: "i < pm_FATs s" and k: "k < ?F * 512"
    let ?a = "(pm_fatblk s + i * ?F) * 512 + k"
    have old: "d_bytes s ?a = fbyte s k" using mir i k by (simp add: mirrored_def)
    show "d_bytes s' ?a = fbyte s' k"
    proof (cases "i = 0")
      case True thus ?thesis by (simp add: fbyte_def fb)
    next
      case False
      hence "?F * 512 \<le> i * ?F * 512" by (cases i) simp_all
      hence nb: "\<not> ?a < ?bn * 512 + sz" using fit unfolding add_mult_distrib by linarith
      have "d_bytes ?u ?a = (if rb * 512 \<le> k \<and> k < rb * 512 + sz then buf (k - rb * 512) else d_bytes s ?a)"
      proof (cases "rb * 512 \<le> k")
        case True
        have e: "?a = (?bn + i * ?F) * 512 + (k - rb * 512)" using True by (simp add: algebra_simps)
        have c: "d_bytes ?u ((?bn + i * ?F) * 512 + (k - rb * 512)) =
            (if k - rb * 512 < sz then buf (k - rb * 512) else d_bytes s ((?bn + i * ?F) * 512 + (k - rb * 512)))"
          by (rule updateotherfats_copy [OF sz]) (use False i k in auto)
        have "(k - rb * 512 < sz) = (k < rb * 512 + sz)" using True by linarith
        thus ?thesis unfolding e c using True by presburger
      next
        case kl: False
        show ?thesis
        proof (cases "i = 1")
          case True
          have "d_bytes ?u ?a = d_bytes s ?a" by (rule updateotherfats_outside [OF sz]) (use kl True in \<open>auto simp: algebra_simps\<close>)
          thus ?thesis using kl by simp
        next
          case i1: False
          have e: "?a = (?bn + (i - 1) * ?F) * 512 + (?F * 512 + k - rb * 512)" using False kl fit by (cases i) (auto simp: algebra_simps)
          have c: "d_bytes ?u ((?bn + (i - 1) * ?F) * 512 + (?F * 512 + k - rb * 512)) = (if ?F * 512 + k - rb * 512 < sz then buf (?F * 512 + k - rb * 512)
              else d_bytes s ((?bn + (i - 1) * ?F) * 512 + (?F * 512 + k - rb * 512)))"
            by (rule updateotherfats_copy [OF sz]) (use False i1 i kl fit k in auto)
          have "\<not> ?F * 512 + k - rb * 512 < sz" using fit by simp
          thus ?thesis unfolding e c using kl by presburger
        qed
      qed
      thus ?thesis using nb b0 [OF k] old by (simp add: s'_def bwrite_bytes)
    qed
  qed
qed

text \<open>What all operations on the table have in common: its copies stay equal, and nothing outside it changes.\<close>

definition table_only :: "msdosfsmount \<Rightarrow> msdosfsmount \<Rightarrow> bool" where
  "table_only s s' = (same_geo s s' \<and> (mirrored s \<longrightarrow> mirrored s') \<and> (\<forall>a. outside_fat s a \<longrightarrow> d_bytes s' a = d_bytes s a))"

lemma table_only_refl [simp]: "table_only s s" by (simp add: table_only_def)

lemma table_only_trans: "table_only s s' \<Longrightarrow> table_only s' s'' \<Longrightarrow> table_only s s''"
  by (auto simp: table_only_def same_geo_def outside_fat_def)

lemma table_only_geo: "table_only s s' \<Longrightarrow> same_geo s s'" by (simp add: table_only_def)

lemma fbyte_reads [simp]: "fbyte (s\<lparr>d_reads := k\<rparr>) = fbyte s" by (simp add: fbyte_def fun_eq_iff)

lemma ent_reads [simp]: "ent (s\<lparr>d_reads := k\<rparr>) = ent s" "FATOFS (s\<lparr>d_reads := k\<rparr>) = FATOFS s" "FAT12 (s\<lparr>d_reads := k\<rparr>) = FAT12 s"
  "fat_get (s\<lparr>d_reads := k\<rparr>) = fat_get s" "fat_put (s\<lparr>d_reads := k\<rparr>) = fat_put s"
  by (simp_all add: ent_def fword_def FATOFS_def FAT12_def fat_get_def fat_put_def fun_eq_iff)

lemma table_only_reads [simp]: "table_only s (s\<lparr>d_reads := k\<rparr>)"
  by (auto simp: table_only_def same_geo_def mirrored_def fbyte_def)

lemma table_only_fmod [simp]: "table_only s (s\<lparr>pm_fmod := k\<rparr>)"
  by (auto simp: table_only_def same_geo_def mirrored_def fbyte_def)

lemma fatentry_get:
  assumes wf: "fat_wf s" and cn: "CLUST_FIRST \<le> cn" "cn \<le> pm_maxcluster s"
  shows "fatentry no_errors True False cn new s = Some (Inr (ent s cn), s\<lparr>d_reads := d_reads s + 1\<rparr>)"
proof -
  obtain rb sz bo where b: "fatblock s (FATOFS s cn) = (pm_fatblk s + rb, sz, bo)" "bo + 1 < sz" "rb * 512 + bo = FATOFS s cn"
    using fatblock_in [OF wf cn(2)] by metis
  have "(pm_fatblk s + rb) * 512 + bo = pm_fatblk s * 512 + FATOFS s cn" using b(3) by simp
  hence "getushort sz (\<lambda>i. d_bytes s ((pm_fatblk s + rb) * 512 + i)) bo = Some (fword s (FATOFS s cn))"
    using b(2) by (simp add: getushort_def fword_def fbyte_def add.assoc)
  thus ?thesis using b(1) cn by (simp add: fatentry_def bread_ok ent_def Let_def)
qed

text \<open>The two bytes of a word.\<close>

definition word_put :: "nat \<Rightarrow> nat \<Rightarrow> (nat \<Rightarrow> u8) \<Rightarrow> nat \<Rightarrow> u8" where
  "word_put i v f = f(i := of_nat v, i + 1 := of_nat (v div 256))"

lemma fatentry_set:
  assumes wf: "fat_wf s" and cn: "CLUST_FIRST \<le> cn" "cn \<le> pm_maxcluster s"
  shows "\<exists>s'. fatentry no_errors g True cn new s = Some (Inr (if g then ent s cn else 0), s') \<and> table_only s s' \<and> same_map s s' \<and>
     (\<forall>k < pm_FATsecs s * 512. fbyte s' k = word_put (FATOFS s cn) (fat_put s cn (fword s (FATOFS s cn)) new) (fbyte s) k)"
proof -
  obtain rb sz bo where b: "fatblock s (FATOFS s cn) = (pm_fatblk s + rb, sz, bo)" "bo + 1 < sz" "rb * 512 + bo = FATOFS s cn" "rb * 512 + sz \<le> pm_FATsecs s * 512"
    using fatblock_in [OF wf cn(2)] by metis
  let ?buf = "\<lambda>i. d_bytes s ((pm_fatblk s + rb) * 512 + i)" let ?v = "fat_put s cn (fword s (FATOFS s cn)) new" let ?r = "s\<lparr>d_reads := d_reads s + 1\<rparr>"
  let ?b2 = "word_put bo ?v ?buf"
  have "(pm_fatblk s + rb) * 512 + bo = pm_fatblk s * 512 + FATOFS s cn" using b(3) by simp
  hence w: "getushort sz ?buf bo = Some (fword s (FATOFS s cn))" using b(2) by (simp add: getushort_def fword_def fbyte_def add.assoc)
  have p: "putushort sz ?buf bo ?v = Some ?b2" using b(2) by (simp add: putushort_def word_put_def)
  define s1 where "s1 = bwrite (pm_fatblk s + rb) sz ?b2 (updateotherfats (pm_FATs s - 1) (pm_fatblk s + rb) sz ?b2 ?r)"
  have F: "1 \<le> pm_FATs ?r" "rb * 512 + sz \<le> pm_FATsecs ?r * 512" using wf b(4) by (simp_all add: fat_wf_def)
  have rr: "pm_FATs ?r = pm_FATs s" "pm_fatblk ?r = pm_fatblk s" "pm_FATsecs ?r = pm_FATsecs s" "fbyte ?r = fbyte s" by simp_all
  note wa = write_all_fats [OF F, where buf = ?b2, unfolded rr, folded s1_def]
  let ?s = "s1\<lparr>pm_fmod := pm_fmod s1 + 1\<rparr>"
  have e: "fatentry no_errors g True cn new s = Some (Inr (if g then ent s cn else 0), ?s)"
    using b(1) cn w p by (simp add: fatentry_def bread_ok ent_def Let_def s1_def)
  have "fbyte ?s k = word_put (FATOFS s cn) ?v (fbyte s) k" if k: "k < pm_FATsecs s * 512" for k
  proof -
    have "fbyte ?s k = fbyte s1 k" by (simp add: fbyte_def)
    also have "\<dots> = (if rb * 512 \<le> k \<and> k < rb * 512 + sz then ?b2 (k - rb * 512) else fbyte s k)" using wa(1) [of k] k by simp
    also have "\<dots> = word_put (FATOFS s cn) ?v (fbyte s) k"
    proof (cases "rb * 512 \<le> k \<and> k < rb * 512 + sz")
      case True
      hence "?buf (k - rb * 512) = fbyte s k" by (simp add: fbyte_def)
      moreover have "(k - rb * 512 = bo) = (k = FATOFS s cn)" "(k - rb * 512 = bo + 1) = (k = FATOFS s cn + 1)" using True b(3) by auto
      ultimately show ?thesis using True by (simp add: word_put_def)
    next
      case False
      hence "k \<noteq> FATOFS s cn" "k \<noteq> FATOFS s cn + 1" using b(2,3) by auto
      hence "word_put (FATOFS s cn) ?v (fbyte s) k = fbyte s k" by (simp add: word_put_def)
      thus ?thesis using False by presburger
    qed
    finally show ?thesis .
  qed
  moreover have "table_only s ?s"
  proof -
    have "table_only ?r s1" using wa(2,4,5) by (simp add: table_only_def)
    hence "table_only s s1" using table_only_trans table_only_reads by blast
    thus ?thesis using table_only_trans table_only_fmod by blast
  qed
  moreover have "same_map s ?s" using wa(3) by (simp add: same_map_def)
  ultimately show ?thesis using e by blast
qed

subsection \<open>Entries\<close>

lemma word_put_same: "unat (word_put i v f i) + 256 * unat (word_put i v f (i + 1)) = v mod 65536"
proof -
  have "unat (of_nat v :: u8) = v mod 256" "unat (of_nat (v div 256) :: u8) = v div 256 mod 256" by (simp_all add: unat_of_nat)
  moreover have "v mod 256 + 256 * (v div 256 mod 256) = v mod 65536" using mod_mult2_eq [of v 256 256] by simp
  ultimately show ?thesis by (simp add: word_put_def)
qed

lemma entry_in_table: "fat_wf s \<Longrightarrow> c \<le> pm_maxcluster s \<Longrightarrow> FATOFS s c + 1 < pm_FATsecs s * 512"
  using FATOFS_mono [of c "pm_maxcluster s" s] by (simp add: fat_wf_def)

lemma ent_put16:
  assumes wf: "fat_wf s" "\<not> FAT12 s" and geo: "same_geo s s'" and cn: "cn \<le> pm_maxcluster s" and c: "c \<le> pm_maxcluster s"
    and b: "\<forall>k < pm_FATsecs s * 512. fbyte s' k = word_put (FATOFS s cn) (fat_put s cn (fword s (FATOFS s cn)) new) (fbyte s) k"
  shows "ent s' c = (if c = cn then new mod 65536 else ent s c)"
proof -
  have v: "fat_put s cn w new = new" for w using wf(2) by (simp add: fat_put_def)
  have "fbyte s' (2 * c) = word_put (2 * cn) new (fbyte s) (2 * c)" "fbyte s' (2 * c + 1) = word_put (2 * cn) new (fbyte s) (2 * c + 1)"
    using b entry_in_table [OF wf(1) c] wf(2) by (simp_all add: v FATOFS_def mult.commute)
  moreover have "c \<noteq> cn \<Longrightarrow> word_put (2 * cn) new (fbyte s) (2 * c) = fbyte s (2 * c) \<and> word_put (2 * cn) new (fbyte s) (2 * c + 1) = fbyte s (2 * c + 1)"
  proof -
    assume "c \<noteq> cn"
    hence "2 * c \<noteq> 2 * cn" "2 * c \<noteq> 2 * cn + 1" "2 * c + 1 \<noteq> 2 * cn" "2 * c + 1 \<noteq> 2 * cn + 1" by presburger+
    thus ?thesis by (simp add: word_put_def)
  qed
  ultimately have "fword s' (2 * c) = (if c = cn then new mod 65536 else fword s (2 * c))" using word_put_same [of "2 * cn" new "fbyte s"] by (simp add: fword_def)
  thus ?thesis using wf(2) same_geo_eqs(1,2) [OF geo] by (simp add: ent_def fat_get_def FATOFS_def mult.commute)
qed

text \<open>Two entries of 12 bits share three bytes.\<close>

lemma byte_less: "unat (b :: u8) < 256" using unsigned_less [of b, where ?'a = nat] by simp

lemma div_mod_16: "(v :: nat) mod 256 div 16 = v div 16 mod 16"
  using mod_mult2_eq [of v 16 16] by simp

lemma split_word: "(v :: nat) mod 256 + 256 * (v div 256 mod 256 mod 16) = v mod 4096" "v div 256 mod 256 div 16 = v div 4096 mod 16"
  "v mod 256 div 16 + 16 * (v div 256 mod 256) = v div 16 mod 4096" "v mod 256 mod 16 = v mod 16"
proof -
  show "v mod 256 mod 16 = v mod 16" by (rule mod_mod_cancel) simp
  have "v div 256 mod 256 mod 16 = v div 256 mod 16" by (rule mod_mod_cancel) simp
  thus "v mod 256 + 256 * (v div 256 mod 256 mod 16) = v mod 4096" using mod_mult2_eq [of v 256 16] by simp
  show "v div 256 mod 256 div 16 = v div 4096 mod 16" unfolding div_mod_16 div_mult2_eq [symmetric] by simp
  have "v div 16 div 16 = v div 256" by (simp add: div_mult2_eq [symmetric])
  thus "v mod 256 div 16 + 16 * (v div 256 mod 256) = v div 16 mod 4096" unfolding div_mod_16 using mod_mult2_eq [of "v div 16" 16 256] by simp
qed

lemma join_word: "x < 256 \<Longrightarrow> (x + 256 * y) mod 4096 = x + 256 * (y mod 16)" "y < 256 \<Longrightarrow> x < 256 \<Longrightarrow> (y + 256 * x) div 16 mod 4096 = y div 16 + 16 * x"
  "x < 256 \<Longrightarrow> y < 256 \<Longrightarrow> (x + 256 * y) div 4096 = y div 16" "(y + 256 * x) mod 16 = y mod 16" for x y :: nat
proof -
  show "(x + 256 * y) mod 4096 = x + 256 * (y mod 16)" if "x < 256" using mod_mult2_eq [of "x + 256 * y" 256 16] that by simp
  show "(x + 256 * y) div 4096 = y div 16" if "x < 256" "y < 256" using div_mult2_eq [of "x + 256 * y" 256 16] that by simp
  have e: "y + 256 * x = y + 16 * x * 16" by simp
  show "(y + 256 * x) mod 16 = y mod 16" unfolding e by (rule mod_mult_self1)
  have d: "(y + 16 * x * 16) div 16 = 16 * x + y div 16" by simp
  show "(y + 256 * x) div 16 mod 4096 = y div 16 + 16 * x" if "y < 256" "x < 256" unfolding e d using that mod_less [of "16 * x + y div 16" 4096] by linarith
qed

lemma ent12:
  assumes "FAT12 s"
  shows "ent s (2 * m) = wide12 (unat (fbyte s (3 * m)) + 256 * (unat (fbyte s (3 * m + 1)) mod 16))"
    and "ent s (2 * m + 1) = wide12 (unat (fbyte s (3 * m + 1)) div 16 + 16 * unat (fbyte s (3 * m + 2)))"
proof -
  have o: "FATOFS s (2 * m) = 3 * m" "FATOFS s (2 * m + 1) = 3 * m + 1" using assms by (simp_all add: FATOFS_def)
  note ar = join_word(1) [OF byte_less] join_word(2) [OF byte_less byte_less]
  show "ent s (2 * m) = wide12 (unat (fbyte s (3 * m)) + 256 * (unat (fbyte s (3 * m + 1)) mod 16))"
    unfolding ent_def fat_get_eq o fword_def using assms ar(1) by simp
  have "3 * m + 1 + 1 = 3 * m + 2" by simp
  thus "ent s (2 * m + 1) = wide12 (unat (fbyte s (3 * m + 1)) div 16 + 16 * unat (fbyte s (3 * m + 2)))"
    unfolding ent_def fat_get_eq o fword_def using assms ar(2) by simp
qed

lemma word_put_bytes: "unat (word_put i v f i) = v mod 256" "unat (word_put i v f (i + 1)) = v div 256 mod 256" "j \<noteq> i \<Longrightarrow> j \<noteq> i + 1 \<Longrightarrow> word_put i v f j = f j"
  by (simp_all add: word_put_def unat_of_nat)

lemma ent_put12_even:
  assumes F: "FAT12 s" "FAT12 s'" and b: "fbyte s' (3 * m) = word_put (3 * m) v (fbyte s) (3 * m)" "fbyte s' (3 * m + 1) = word_put (3 * m) v (fbyte s) (3 * m + 1)"
    and c: "c \<Longrightarrow> fbyte s' (3 * m + 2) = word_put (3 * m) v (fbyte s) (3 * m + 2)"
  shows "ent s' (2 * m) = wide12 (v mod 4096)" and "c \<Longrightarrow> v div 4096 mod 16 = fword s (3 * m) div 4096 \<Longrightarrow> ent s' (2 * m + 1) = ent s (2 * m + 1)"
    and "c \<Longrightarrow> v div 4096 mod 16 = 15 \<Longrightarrow> ent s' (2 * m + 1) = wide12 (15 + 16 * unat (fbyte s (3 * m + 2)))"
proof -
  note ar = split_word(1,2) [of v]
  have w: "fword s (3 * m) div 4096 = unat (fbyte s (3 * m + 1)) div 16" unfolding fword_def by (rule join_word(3) [OF byte_less byte_less])
  have ub: "unat (fbyte s' (3 * m)) = v mod 256" "unat (fbyte s' (3 * m + 1)) = v div 256 mod 256"
    unfolding b word_put_bytes(1,2) by (rule refl)+
  have u2: "c \<Longrightarrow> fbyte s' (3 * m + 2) = fbyte s (3 * m + 2)" using c word_put_bytes(3) [of "3 * m + 2" "3 * m" v "fbyte s"] by simp
  show "ent s' (2 * m) = wide12 (v mod 4096)" unfolding ent12(1) [OF F(2)] ub ar(1) ..
  show "ent s' (2 * m + 1) = ent s (2 * m + 1)" if c "v div 4096 mod 16 = fword s (3 * m) div 4096"
    unfolding ent12(2) [OF F(2)] ent12(2) [OF F(1)] ub ar(2) that(2) w u2 [OF that(1)] ..
  show "ent s' (2 * m + 1) = wide12 (15 + 16 * unat (fbyte s (3 * m + 2)))" if c "v div 4096 mod 16 = 15"
    unfolding ent12(2) [OF F(2)] ub ar(2) that(2) u2 [OF that(1)] ..
qed

lemma ent_put12_odd:
  assumes F: "FAT12 s" "FAT12 s'" and b: "fbyte s' (3 * m) = word_put (3 * m + 1) v (fbyte s) (3 * m)" "fbyte s' (3 * m + 1) = word_put (3 * m + 1) v (fbyte s) (3 * m + 1)"
    "fbyte s' (3 * m + 2) = word_put (3 * m + 1) v (fbyte s) (3 * m + 2)" and v: "v = fword s (3 * m + 1) mod 16 + 16 * new"
  shows "ent s' (2 * m + 1) = wide12 (new mod 4096)" and "ent s' (2 * m) = ent s (2 * m)"
proof -
  note ar = split_word(3,4) [of v]
  have w: "fword s (3 * m + 1) mod 16 = unat (fbyte s (3 * m + 1)) mod 16" unfolding fword_def by (rule join_word(4))
  have "3 * m + 2 = (3 * m + 1) + 1" by simp
  hence ub: "unat (fbyte s' (3 * m + 1)) = v mod 256" "unat (fbyte s' (3 * m + 2)) = v div 256 mod 256" "fbyte s' (3 * m) = fbyte s (3 * m)"
    using word_put_bytes(2) [of "3 * m + 1" v "fbyte s"] unfolding b word_put_bytes(1) by (rule_tac refl, simp, rule_tac word_put_bytes(3)) simp_all
  have vn: "v div 16 = new" "v mod 16 = unat (fbyte s (3 * m + 1)) mod 16" unfolding v w [symmetric] by simp_all
  show "ent s' (2 * m + 1) = wide12 (new mod 4096)" unfolding ent12(2) [OF F(2)] ub ar(1) vn(1) ..
  show "ent s' (2 * m) = ent s (2 * m)" unfolding ent12(1) [OF F(2)] ent12(1) [OF F(1)] ub ar(2) vn(2) ..
qed

text \<open>
  The values that fit: in a table of 12 bits \<^verbatim>\<open>fatentry\<close> does not mask the new contents of an even entry, so its upper
  bits go into the next entry.
\<close>

definition put_ok :: "msdosfsmount \<Rightarrow> nat \<Rightarrow> nat \<Rightarrow> bool" where
  "put_ok s cn new = (FAT12 s \<longrightarrow> odd cn \<or> new < 4096)"

definition stored_ent :: "msdosfsmount \<Rightarrow> nat \<Rightarrow> nat" where
  "stored_ent s new = (if FAT12 s then wide12 (new mod 4096) else new mod 65536)"

lemma FATOFS12: "FAT12 s \<Longrightarrow> FATOFS s x = 3 * (x div 2) + x mod 2"
proof -
  have "x * 3 div 2 = 3 * (x div 2) + x mod 2" by presburger
  thus "FAT12 s \<Longrightarrow> ?thesis" by (simp add: FATOFS_def)
qed

lemma ent_put12_other:
  assumes F: "FAT12 s" "FAT12 s'" and ne: "c div 2 \<noteq> cn div 2" and b: "\<forall>k < n. fbyte s' k = word_put (FATOFS s cn) v (fbyte s) k" and c: "FATOFS s c + 1 < n"
  shows "ent s' c = ent s c"
proof -
  have "c mod 2 < 2" "cn mod 2 < 2" by simp_all
  hence "FATOFS s c \<noteq> FATOFS s cn" "FATOFS s c \<noteq> FATOFS s cn + 1" "FATOFS s c + 1 \<noteq> FATOFS s cn" "FATOFS s c + 1 \<noteq> FATOFS s cn + 1"
    unfolding FATOFS12 [OF F(1)] using ne by linarith+
  hence "fword s' (FATOFS s c) = fword s (FATOFS s c)" using b c by (simp add: fword_def word_put_def)
  moreover have "FATOFS s' c = FATOFS s c" using F by (simp add: FATOFS_def)
  ultimately show ?thesis using F by (simp add: ent_def fat_get_def)
qed

lemma ent_put12:
  assumes wf: "fat_wf s" "FAT12 s" and geo: "same_geo s s'" and cn: "cn \<le> pm_maxcluster s" and c: "c \<le> pm_maxcluster s"
    and b: "\<forall>k < pm_FATsecs s * 512. fbyte s' k = word_put (FATOFS s cn) (fat_put s cn (fword s (FATOFS s cn)) new) (fbyte s) k"
    and ok: "put_ok s cn new"
  shows "ent s' c = (if c = cn then stored_ent s new else ent s c)"
proof (cases "c div 2 = cn div 2")
  case False
  have "FAT12 s'" using wf(2) same_geo_eqs(1) [OF geo] by simp
  hence "ent s' c = ent s c" by (rule ent_put12_other [OF wf(2) _ False b entry_in_table [OF wf(1) c]])
  thus ?thesis using False by auto
next
  case pair: True
  let ?m = "cn div 2" let ?v = "fat_put s cn (fword s (FATOFS s cn)) new" let ?n = "pm_FATsecs s * 512"
  have F: "FAT12 s" "FAT12 s'" using wf(2) same_geo_eqs(1) [OF geo] by simp_all
  note cin = entry_in_table [OF wf(1) cn] entry_in_table [OF wf(1) c]
  show ?thesis
  proof (cases "odd cn")
    case True
    hence m: "cn = 2 * ?m + 1" by simp
    hence o: "FATOFS s cn = 3 * ?m + 1" unfolding FATOFS12 [OF F(1)] using True by (simp add: odd_iff_mod_2_eq_one)
    note v = fat_put_odd [OF F(1) True, of "fword s (FATOFS s cn)" new]
    note b' = b [unfolded o, rule_format, of "3 * ?m"] b [unfolded o, rule_format, of "3 * ?m + 1"] b [unfolded o, rule_format, of "3 * ?m + 2"]
    have l: "3 * ?m < ?n" "3 * ?m + 1 < ?n" "3 * ?m + 2 < ?n" using cin(1) o by linarith+
    note r = ent_put12_odd [OF F b'(1) [OF l(1)] b'(2) [OF l(2)] b'(3) [OF l(3)] v [unfolded o]]
    have "c = 2 * ?m \<or> c = 2 * ?m + 1" using pair by presburger
    thus ?thesis using r m F(1) by (auto simp: stored_ent_def)
  next
    case False
    hence m: "cn = 2 * ?m" by simp
    have new: "new < 4096" using ok F(1) False by (simp add: put_ok_def)
    have o: "FATOFS s cn = 3 * ?m" unfolding FATOFS12 [OF F(1)] using False by simp
    have v: "?v = fword s (FATOFS s cn) div 4096 * 4096 + new" using fat_put_even [OF F(1) _ new fword_less] False by simp
    note b' = b [unfolded o, rule_format, of "3 * ?m"] b [unfolded o, rule_format, of "3 * ?m + 1"] b [unfolded o, rule_format, of "3 * ?m + 2"]
    have l: "3 * ?m < ?n" "3 * ?m + 1 < ?n" using cin(1) o by linarith+
    note r = ent_put12_even [OF F b'(1) [OF l(1)] b'(2) [OF l(2)] b'(3)]
    have v': "?v mod 4096 = new" "?v div 4096 mod 16 = fword s (FATOFS s cn) div 4096" unfolding v using new fword_less [of s "FATOFS s cn"] by auto
    have "c = 2 * ?m \<or> c = 2 * ?m + 1" using pair by presburger
    thus ?thesis
    proof
      assume "c = 2 * ?m" thus ?thesis using r(1) m v'(1) o new F(1) by (simp add: stored_ent_def)
    next
      assume c1: "c = 2 * ?m + 1"
      hence "FATOFS s c = 3 * ?m + 1" using F(1) by (simp add: FATOFS_def)
      hence "3 * ?m + 2 < ?n" using cin(2) by linarith
      hence "ent s' (2 * ?m + 1) = ent s (2 * ?m + 1)" using r(2) v'(2) unfolding o by blast
      thus ?thesis using c1 m by simp
    qed
  qed
qed

text \<open>Setting an entry.\<close>

lemma fatentry_put:
  assumes wf: "fat_wf s" and cn: "CLUST_FIRST \<le> cn" "cn \<le> pm_maxcluster s" and ok: "put_ok s cn new"
  obtains s' where "fatentry no_errors g True cn new s = Some (Inr (if g then ent s cn else 0), s')" "table_only s s'" "same_map s s'"
     "\<forall>c \<le> pm_maxcluster s. ent s' c = (if c = cn then stored_ent s new else ent s c)"
proof -
  obtain s' where s': "fatentry no_errors g True cn new s = Some (Inr (if g then ent s cn else 0), s')" "table_only s s'" "same_map s s'"
    "\<forall>k < pm_FATsecs s * 512. fbyte s' k = word_put (FATOFS s cn) (fat_put s cn (fword s (FATOFS s cn)) new) (fbyte s) k" using fatentry_set [OF wf cn] by metis
  have "ent s' c = (if c = cn then stored_ent s new else ent s c)" if "c \<le> pm_maxcluster s" for c
  proof (cases "FAT12 s")
    case True from ent_put12 [OF wf this table_only_geo [OF s'(2)] cn(2) \<open>c \<le> pm_maxcluster s\<close> s'(4) ok] show ?thesis .
  next
    case False from ent_put16 [OF wf this table_only_geo [OF s'(2)] cn(2) \<open>c \<le> pm_maxcluster s\<close> s'(4)] show ?thesis using False by (simp add: stored_ent_def)
  qed
  thus thesis using that s' by blast
qed

lemma or_15: "(x :: nat) mod 16 OR 15 = 15"
proof (rule bit_eqI)
  fix n have "bit (15 :: nat) n = (n < 4)" using bit_mask_iff [of 4 n, where ?'a = nat] by (simp add: mask_eq_exp_minus_1)
  moreover have "bit (x mod 16) n \<Longrightarrow> n < 4" using bit_take_bit_iff [of 4 x n] by (simp add: take_bit_eq_mod)
  ultimately show "bit (x mod 16 OR 15) n = bit (15 :: nat) n" by (auto simp: bit_or_iff)
qed

lemma wide12_low: "wide12 (15 + 16 * q) = wide12 (r + 16 * q) OR 15" if "r < 16" for r q :: nat
proof -
  have e: "r + 16 * q + 61440 = r + 16 * (q + 3840)" by simp
  have o: "(r + 16 * k) OR 15 = 15 + 16 * k" for k
  proof -
    have "15 + 16 * k = push_bit 4 k OR 15" using or_low [of 15 4 k] by simp
    moreover have "r + 16 * k = push_bit 4 k OR r" using or_low [of r 4 k] that by simp
    moreover have "r OR 15 = 15" using or_15 [of r] that by simp
    ultimately show ?thesis by (simp add: or.assoc)
  qed
  have c: "(0xff0 \<le> r + 16 * q) = (0xff0 \<le> 15 + 16 * q)" using that by presburger
  show ?thesis unfolding wide12_def c using o [of q] o [of "q + 3840"] by (simp add: add.assoc)
qed

lemma fatentry_overflow:
  assumes wf: "fat_wf s" "FAT12 s" and cn: "CLUST_FIRST \<le> cn" "cn + 1 \<le> pm_maxcluster s" "even cn"
  obtains s' where "fatentry no_errors g True cn CLUST_EOFE s = Some (Inr (if g then ent s cn else 0), s')" "table_only s s'" "same_map s s'" "ent s' cn = 0xffff"
     "ent s' (cn + 1) = ent s (cn + 1) OR 0xf" "\<forall>c \<le> pm_maxcluster s. c \<noteq> cn \<longrightarrow> c \<noteq> cn + 1 \<longrightarrow> ent s' c = ent s c"
proof -
  let ?v = "fat_put s cn (fword s (FATOFS s cn)) CLUST_EOFE" let ?m = "cn div 2" let ?n = "pm_FATsecs s * 512"
  have cm: "cn \<le> pm_maxcluster s" using cn by simp
  obtain s' where s': "fatentry no_errors g True cn CLUST_EOFE s = Some (Inr (if g then ent s cn else 0), s')" "table_only s s'" "same_map s s'"
    "\<forall>k < ?n. fbyte s' k = word_put (FATOFS s cn) ?v (fbyte s) k" using fatentry_set [OF wf(1) cn(1) cm] by metis
  have F: "FAT12 s" "FAT12 s'" using wf(2) same_geo_eqs(1) [OF table_only_geo [OF s'(2)]] by simp_all
  have m: "cn = 2 * ?m" using cn(3) by simp
  have o: "FATOFS s cn = 3 * ?m" "FATOFS s (cn + 1) = 3 * ?m + 1" unfolding FATOFS12 [OF F(1)] using cn(3) by (simp_all add: mod2_eq_if)
  have "?v div 4096 = (fword s (FATOFS s cn) AND 0xf000) div 4096 OR 15" "?v mod 4096 = (fword s (FATOFS s cn) AND 0xf000) mod 4096 OR 4095"
    using F(1) cn(3) by (simp_all add: fat_put_def or_div or_mod CLUST_EOFE_def)
  hence "?v div 4096 = fword s (FATOFS s cn) div 4096 mod 16 OR 15" "?v mod 4096 = 4095" by (simp_all add: and_f000)
  hence v: "?v div 4096 mod 16 = 15" "?v mod 4096 = 4095" by (simp_all add: or_15)
  have l: "3 * ?m < ?n" "3 * ?m + 1 < ?n" "3 * ?m + 2 < ?n" using entry_in_table [OF wf(1) cn(2)] o(2) by linarith+
  note b = s'(4) [unfolded o(1), rule_format]
  note r = ent_put12_even [OF F b [OF l(1)] b [OF l(2)] b [OF l(3)]]
  have "ent s' (2 * ?m) = wide12 4095" using r(1) v(2) unfolding o(1) by simp
  hence "ent s' cn = 0xffff" using m by (simp add: wide12_def)
  moreover have "ent s' (2 * ?m + 1) = wide12 (15 + 16 * unat (fbyte s (3 * ?m + 2)))" using r(3) v(1) unfolding o(1) by blast
  hence "ent s' (cn + 1) = ent s (cn + 1) OR 15" unfolding m [symmetric]
    using wide12_low [of "unat (fbyte s (3 * ?m + 1)) div 16"] byte_less [of "fbyte s (3 * ?m + 1)"] ent12(2) [OF F(1), of ?m] m by simp
  moreover have "ent s' c = ent s c" if "c \<le> pm_maxcluster s" "c \<noteq> cn" "c \<noteq> cn + 1" for c
  proof (rule ent_put12_other [OF F _ s'(4) entry_in_table [OF wf(1) that(1)]])
    show "c div 2 \<noteq> cn div 2" using that cn(3) by presburger
  qed
  ultimately show thesis using that s' by blast
qed

section \<open>The map of clusters in use\<close>

definition inuse :: "msdosfsmount \<Rightarrow> nat \<Rightarrow> bool" where
  "inuse s cn = bit (pm_inusemap s (cn div 8)) (cn mod 8)"

definition clusters :: "msdosfsmount \<Rightarrow> nat set" where
  "clusters s = {CLUST_FIRST..pm_maxcluster s}"

definition free_clusters :: "msdosfsmount \<Rightarrow> nat set" where
  "free_clusters s = {cn \<in> clusters s. ent s cn = 0}"

text \<open>The map agrees with the table, bits that stand for no cluster are set; the count is that of the free entries, and no
  free cluster is below \<^verbatim>\<open>pm_lookhere\<close>.\<close>

definition map_exact :: "msdosfsmount \<Rightarrow> bool" where
  "map_exact s = ((\<forall>cn < 8 * (pm_maxcluster s div 8 + 1). inuse s cn = (cn \<notin> free_clusters s)) \<and>
     pm_freeclustercount s = of_nat (card (free_clusters s)) \<and> (\<forall>cn \<in> free_clusters s. pm_lookhere s \<le> cn))"

lemma clusters_iff: "cn \<in> clusters s \<longleftrightarrow> CLUST_FIRST \<le> cn \<and> cn \<le> pm_maxcluster s" by (simp add: clusters_def)

lemma free_finite [simp]: "finite (free_clusters s)" by (simp add: free_clusters_def clusters_def)

lemma cluster_in_map: "cn \<le> pm_maxcluster s \<Longrightarrow> cn < 8 * (pm_maxcluster s div 8 + 1)"
  by presburger

lemma bit_byte: "bit (2 ^ k :: u8) n = (n = k)" if "k < 8" for k n
  using that by (auto simp: bit_simps)

lemma split8: "(c :: nat) = cn \<longleftrightarrow> c div 8 = cn div 8 \<and> c mod 8 = cn mod 8"
  using div_mult_mod_eq [of c 8] div_mult_mod_eq [of cn 8] by metis

lemma inuse_alloc: "inuse (usemap_alloc cn s) c = (c = cn \<or> inuse s c)"
  unfolding inuse_def split8 [of c cn] by (auto simp: usemap_alloc_def bit_or_iff bit_byte)

lemma inuse_free: "inuse (usemap_free cn s) c = (c \<noteq> cn \<and> inuse s c)"
proof -
  have "bit (x AND NOT (push_bit k 1)) n = (n \<noteq> k \<and> bit x n)" if "k < 8" "n < 8" for x :: u8 and k n
    using that by (auto simp: bit_and_iff bit_not_iff bit_byte)
  thus ?thesis unfolding inuse_def split8 [of c cn] by (auto simp: usemap_free_def)
qed

text \<open>The search of the map finds the first clear bit.\<close>

lemma find_bit: "find (\<lambda>b. (m :: u8) AND 2 ^ b = 0) [0..<8] = find (\<lambda>b. \<not> bit m b) [0..<8]"
proof (rule find_cong [OF refl])
  fix b assume "b \<in> set [0..<8 :: nat]" hence b: "b < 8" by simp
  have "bit (m AND 2 ^ b) n = (n = b \<and> bit m b)" for n using b by (auto simp: bit_and_iff bit_byte)
  thus "(m AND 2 ^ b = 0) = (\<not> bit m b)" by (metis bit_eq_iff bit_0_eq bot_fun_def bot_bool_def)
qed

lemma full_byte: "(m :: u8) = 0xff \<longleftrightarrow> (\<forall>b < 8. bit m b)"
proof -
  have "bit (0xff :: u8) b" if "b < 8" for b using that bit_mask_iff [of 8 b, where ?'a = u8] by (simp add: mask_eq_exp_minus_1)
  thus ?thesis by (auto intro!: bit_word_eqI)
qed

lemma find_bit_Some: "find (\<lambda>b. \<not> bit (m :: u8) b) [0..<8] = Some b \<longleftrightarrow> b < 8 \<and> \<not> bit m b \<and> (\<forall>k < b. bit m k)"
  unfolding find_Some_iff by auto

lemma find_bit_None: "find (\<lambda>b. \<not> bit (m :: u8) b) [0..<8] = None \<longleftrightarrow> m = 0xff"
  unfolding find_None_iff full_byte by auto

definition mbit :: "(nat \<Rightarrow> u8) \<Rightarrow> nat \<Rightarrow> bool" where
  "mbit um c = bit (um (c div 8)) (c mod 8)"

lemma mbit_byte: "um i = 0xff \<Longrightarrow> 8 * i \<le> c \<Longrightarrow> c < 8 * i + 8 \<Longrightarrow> mbit um c"
proof -
  assume a: "um i = 0xff" "8 * i \<le> c" "c < 8 * i + 8"
  hence "c div 8 = i" by linarith
  thus "mbit um c" using a(1) full_byte [of "um i"] by (simp add: mbit_def)
qed

lemma scan_map_spec: "case scan_map um [a..<b] of None \<Rightarrow> \<forall>c. 8 * a \<le> c \<longrightarrow> c < 8 * b \<longrightarrow> mbit um c
   | Some cn \<Rightarrow> 8 * a \<le> cn \<and> cn < 8 * b \<and> \<not> mbit um cn \<and> (\<forall>c. 8 * a \<le> c \<longrightarrow> c < cn \<longrightarrow> mbit um c)"
proof (induction "b - a" arbitrary: a)
  case 0 thus ?case by simp
next
  case (Suc n)
  hence ab: "a < b" "n = b - (a + 1)" by simp_all
  have e: "[a..<b] = a # [a + 1..<b]" using ab(1) by (simp add: upt_conv_Cons)
  show ?case
  proof (cases "um a = 0xff")
    case True
    have all: "mbit um c" if "8 * a \<le> c" "\<not> 8 * (a + 1) \<le> c" for c using mbit_byte [of um, OF True that(1)] that(2) by simp
    show ?thesis unfolding e using Suc(1) [OF ab(2)] True all by (auto split: option.splits)
  next
    case False
    then obtain k where k: "find (\<lambda>b. \<not> bit (um a) b) [0..<8] = Some k" using find_bit_None [of "um a"] by (cases "find (\<lambda>b. \<not> bit (um a) b) [0..<8]") auto
    hence k': "k < 8" "\<not> bit (um a) k" "\<forall>j < k. bit (um a) j" using find_bit_Some [of "um a" k] by auto
    have "scan_map um [a..<b] = Some (a * 8 + k)" unfolding e using False k by (simp add: find_bit)
    moreover have "mbit um c" if "8 * a \<le> c" "c < a * 8 + k" for c
    proof -
      have "c div 8 = a" using that k'(1) by linarith
      moreover from this have "c mod 8 = c - 8 * a" using minus_mult_div_eq_mod [of c 8] by simp
      ultimately show ?thesis using k'(3) that by (auto simp: mbit_def)
    qed
    moreover have "\<not> mbit um (a * 8 + k)" using k'(1,2) by (simp add: mbit_def)
    ultimately show ?thesis using k'(1) ab(1) by simp
  qed
qed

section \<open>Allocating and freeing\<close>

lemma map_update_geo [simp]: "same_geo s (usemap_alloc cn s)" "same_geo s (usemap_free cn s)" "d_bytes (usemap_alloc cn s) = d_bytes s" "d_bytes (usemap_free cn s) = d_bytes s"
  by (simp_all add: usemap_alloc_def usemap_free_def same_geo_def)

lemma table_only_bytes: "same_geo s s' \<Longrightarrow> d_bytes s' = d_bytes s \<Longrightarrow> table_only s s'"
  by (auto simp: table_only_def mirrored_def same_geo_def fbyte_def)

lemma ent_bytes: "same_geo s s' \<Longrightarrow> d_bytes s' = d_bytes s \<Longrightarrow> ent s' = ent s"
  using same_geo_eqs [of s s'] by (simp add: ent_def fword_def fbyte_def fun_eq_iff same_geo_def)

lemma map_update_ent [simp]: "ent (usemap_alloc cn s) = ent s" "ent (usemap_free cn s) = ent s"
  by (rule ent_bytes; simp)+

lemma clusters_geo: "same_geo s s' \<Longrightarrow> clusters s' = clusters s" by (simp add: clusters_def same_geo_def)

lemma free_iff: "same_geo s s' \<Longrightarrow> x \<in> free_clusters s' \<longleftrightarrow> x \<in> clusters s \<and> ent s' x = 0"
  using clusters_geo [of s s'] by (simp add: free_clusters_def)

lemma inuse_same: "same_map s s' \<Longrightarrow> inuse s' = inuse s" by (simp add: same_map_def inuse_def fun_eq_iff)

lemma clusterfree_spec:
  assumes wf: "fat_wf s" and cn: "cn \<in> clusters s"
  obtains s' where "clusterfree no_errors cn s = Some (Inr (ent s cn), s')" "table_only s s'" "\<forall>c \<in> clusters s. ent s' c = (if c = cn then 0 else ent s c)"
    "\<forall>c. inuse s' c = (c \<noteq> cn \<and> inuse s c)" "pm_freeclustercount s' = pm_freeclustercount s + 1" "pm_lookhere s' = min cn (pm_lookhere s)"
proof -
  have ok: "put_ok s cn 0" and st: "stored_ent s 0 = 0" by (simp_all add: put_ok_def stored_ent_def wide12_def)
  have c: "CLUST_FIRST \<le> cn" "cn \<le> pm_maxcluster s" using cn by (simp_all add: clusters_iff)
  obtain s1 where s1: "fatentry no_errors True True cn 0 s = Some (Inr (ent s cn), s1)" "table_only s s1" "same_map s s1"
     "\<forall>c \<le> pm_maxcluster s. ent s1 c = (if c = cn then 0 else ent s c)" using fatentry_put [OF wf c ok, of True] unfolding st by (metis (full_types))
  let ?s = "usemap_free cn s1"
  show thesis
  proof (rule that [of ?s])
    show "clusterfree no_errors cn s = Some (Inr (ent s cn), ?s)" using s1(1) by (simp add: clusterfree_def MSDOSFSFREE_def)
    show "table_only s ?s" using s1(2) table_only_trans table_only_bytes [of s1 ?s] by simp
    show "\<forall>c \<in> clusters s. ent ?s c = (if c = cn then 0 else ent s c)" using s1(4) by (simp add: clusters_iff)
    show "\<forall>c. inuse ?s c = (c \<noteq> cn \<and> inuse s c)" by (simp add: inuse_free inuse_same [OF s1(3)])
    show "pm_freeclustercount ?s = pm_freeclustercount s + 1" "pm_lookhere ?s = min cn (pm_lookhere s)"
      using s1(3) by (simp_all add: usemap_free_def same_map_def min_def)
  qed
qed

lemma clusterfree_exact:
  assumes wf: "fat_wf s" and cn: "cn \<in> clusters s" and used: "ent s cn \<noteq> 0" and me: "map_exact s"
    and s': "clusterfree no_errors cn s = Some (Inr (ent s cn), s')"
  shows "map_exact s'" and "free_clusters s' = insert cn (free_clusters s)"
proof -
  obtain t where "clusterfree no_errors cn s = Some (Inr (ent s cn), t)" and t: "table_only s t" "\<forall>c \<in> clusters s. ent t c = (if c = cn then 0 else ent s c)"
    "\<forall>c. inuse t c = (c \<noteq> cn \<and> inuse s c)" "pm_freeclustercount t = pm_freeclustercount s + 1" "pm_lookhere t = min cn (pm_lookhere s)"
    using clusterfree_spec [OF wf cn] by metis
  hence ts: "t = s'" using s' by simp
  have geo: "same_geo s t" using t(1) by (rule table_only_geo)
  show F: "free_clusters s' = insert cn (free_clusters s)" unfolding ts [symmetric] free_clusters_def clusters_geo [OF geo] using t(2) cn by auto
  have "cn \<notin> free_clusters s" using used by (simp add: free_clusters_def)
  hence "card (free_clusters s') = card (free_clusters s) + 1" unfolding F by simp
  thus "map_exact s'" using me F t(3,4,5) same_geo_eqs(4) [OF geo] unfolding ts [symmetric] map_exact_def by auto
qed

text \<open>An allocation takes the lowest free cluster.\<close>

lemma clusteralloc_spec:
  assumes wf: "fat_wf s" and me: "map_exact s" and ok: "\<And>cn. cn \<in> free_clusters s \<Longrightarrow> put_ok s cn v" and v: "stored_ent s v \<noteq> 0"
  shows "if free_clusters s = {} then clusteralloc no_errors v s = Some (Inl ENOSPC, s)
     else \<exists>s'. clusteralloc no_errors v s = Some (Inr (Min (free_clusters s)), s') \<and> table_only s s' \<and> map_exact s' \<and>
        (\<forall>c \<in> clusters s. ent s' c = (if c = Min (free_clusters s) then stored_ent s v else ent s c))"
proof -
  let ?F = "free_clusters s" let ?m = "8 * (pm_maxcluster s div 8 + 1)"
  have map: "\<forall>c < ?m. mbit (pm_inusemap s) c = (c \<notin> ?F)" using me by (simp add: map_exact_def inuse_def mbit_def)
  have F: "c \<in> ?F \<Longrightarrow> 8 * (pm_lookhere s div 8) \<le> c \<and> c < ?m \<and> c \<in> clusters s" for c
    using me cluster_in_map [of c s] by (auto simp: map_exact_def free_clusters_def clusters_iff)
  note sc = scan_map_spec [where um = "pm_inusemap s" and a = "pm_lookhere s div 8" and b = "pm_maxcluster s div 8 + 1"]
  show ?thesis
  proof (cases "?F = {}")
    case True
    have "scan_map (pm_inusemap s) [pm_lookhere s div 8..<pm_maxcluster s div 8 + 1] = None"
      using sc map True by (auto split: option.splits)
    thus ?thesis using True by (simp add: clusteralloc_def)
  next
    case False
    let ?c = "Min ?F"
    have c: "?c \<in> ?F" using Min_in [OF free_finite False] .
    have "scan_map (pm_inusemap s) [pm_lookhere s div 8..<pm_maxcluster s div 8 + 1] = Some ?c"
    proof (cases "scan_map (pm_inusemap s) [pm_lookhere s div 8..<pm_maxcluster s div 8 + 1]")
      case None thus ?thesis using sc map F [OF c] c by auto
    next
      case (Some cn)
      hence cn: "cn < ?m" "\<not> mbit (pm_inusemap s) cn" "\<forall>c. 8 * (pm_lookhere s div 8) \<le> c \<longrightarrow> c < cn \<longrightarrow> mbit (pm_inusemap s) c" using sc by auto
      hence "cn \<in> ?F" using map by blast
      moreover have "\<not> ?c < cn" using cn(3) map F [OF c] c by blast
      ultimately have "cn = ?c" using Min_le [OF free_finite, of cn s] by linarith
      thus ?thesis using Some by simp
    qed
    moreover obtain s1 where s1: "fatentry no_errors False True ?c v s = Some (Inr 0, s1)" "table_only s s1" "same_map s s1"
     "\<forall>c \<le> pm_maxcluster s. ent s1 c = (if c = ?c then stored_ent s v else ent s c)" using fatentry_put [OF wf _ _ ok [OF c], of False] F [OF c] by (auto simp: clusters_iff)
    ultimately have a: "clusteralloc no_errors v s = Some (Inr ?c, usemap_alloc ?c s1)" by (simp add: clusteralloc_def)
    let ?s = "usemap_alloc ?c s1"
    have to: "table_only s ?s" using s1(2) table_only_trans table_only_bytes [of s1 ?s] by simp
    have ent: "\<forall>c \<in> clusters s. ent ?s c = (if c = ?c then stored_ent s v else ent s c)" using s1(4) by (simp add: clusters_iff)
    have F': "free_clusters ?s = ?F - {?c}" 
    proof (rule set_eqI)
      fix x
      have "(x \<in> free_clusters ?s) = (x \<in> clusters s \<and> ent ?s x = 0)" using free_iff [OF table_only_geo [OF to]] .
      thus "(x \<in> free_clusters ?s) = (x \<in> ?F - {?c})" using ent v free_iff [OF same_geo_refl, of x s] by (auto split: if_splits)
    qed
    have "?c + 1 \<le> x" if "x \<in> ?F - {?c}" for x using that Min_le [OF free_finite, of x s] by (auto simp: Suc_le_eq le_neq_trans)
    moreover have "card ?F = card (?F - {?c}) + 1" using c card_Suc_Diff1 [OF free_finite c] by simp
    moreover have "pm_maxcluster ?s = pm_maxcluster s" "pm_freeclustercount ?s = pm_freeclustercount s - 1" "pm_lookhere ?s = ?c + 1"
      using s1(3) same_geo_eqs(4) [OF table_only_geo [OF to]] by (simp_all add: usemap_alloc_def same_map_def)
    ultimately have "map_exact ?s" using me F' unfolding map_exact_def inuse_alloc inuse_same [OF s1(3)] by auto
    thus ?thesis using a to ent False by auto
  qed
qed

section \<open>Chains\<close>

text \<open>The clusters from one to an entry that is none.\<close>

fun chain :: "msdosfsmount \<Rightarrow> nat list \<Rightarrow> nat \<Rightarrow> bool" where
  "chain s [] e = True"
| "chain s (c # cs) e = (c \<in> clusters s \<and> ent s c = hd (cs @ [e]) \<and> chain s cs e)"

lemma chain_append: "chain s (xs @ ys) e \<longleftrightarrow> chain s xs (hd (ys @ [e])) \<and> chain s ys e"
proof (induction xs)
  case (Cons c xs) show ?case using Cons by (cases xs) auto
qed simp

lemma chain_set: "chain s cs e \<Longrightarrow> set cs \<subseteq> clusters s"
  by (induction cs) auto

lemma chain_nth: "chain s cs e \<Longrightarrow> i < length cs \<Longrightarrow> cs ! i \<in> clusters s \<and> ent s (cs ! i) = (cs @ [e]) ! Suc i"
proof (induction cs arbitrary: i)
  case (Cons c cs) thus ?case by (cases i; cases cs) auto
qed simp

lemma chain_cong: "same_geo s s' \<Longrightarrow> \<forall>c \<in> set cs. ent s' c = ent s c \<Longrightarrow> chain s' cs e = chain s cs e"
  by (induction cs) (auto simp: clusters_geo)

lemma chain_unique: "chain s (c # xs) e \<Longrightarrow> chain s (c # ys) e \<Longrightarrow> e \<notin> clusters s \<Longrightarrow> xs = ys"
proof (induction xs arbitrary: c ys)
  case Nil thus ?case by (cases ys) auto
next
  case (Cons x xs) thus ?case by (cases ys) auto
qed

lemma chain_distinct: "chain s cs e \<Longrightarrow> e \<notin> clusters s \<Longrightarrow> distinct cs"
proof (induction cs)
  case (Cons c cs)
  have "c \<notin> set cs"
  proof
    assume "c \<in> set cs"
    then obtain xs ys where cs: "cs = xs @ c # ys" using split_list by metis
    have "chain s (c # ys) e" using Cons.prems(1) unfolding cs by (simp add: chain_append)
    hence "cs = ys" using chain_unique [OF Cons.prems(1) _ Cons.prems(2)] by blast
    thus False using cs by simp
  qed
  thus ?case using Cons by simp
qed simp

lemma chain_length:
  assumes "chain s cs e" and "e \<notin> clusters s"
  shows "length cs \<le> pm_maxcluster s - 1"
proof -
  have "length cs = card (set cs)" using chain_distinct [OF assms] by (simp add: distinct_card)
  also have "\<dots> \<le> card (clusters s)" by (rule card_mono [OF _ chain_set [OF assms(1)]]) (simp add: clusters_def)
  finally show ?thesis by (simp add: clusters_def CLUST_FIRST_def)
qed

lemma chain_used: "chain s cs e \<Longrightarrow> e \<noteq> 0 \<Longrightarrow> c \<in> set cs \<Longrightarrow> ent s c \<noteq> 0"
proof (induction cs)
  case (Cons d cs) thus ?case by (cases cs) (auto simp: clusters_iff CLUST_FIRST_def)
qed simp

subsection \<open>Freeing a chain\<close>

definition used_clusters :: "msdosfsmount \<Rightarrow> nat set" where
  "used_clusters s = {cn \<in> clusters s. ent s cn \<noteq> 0}"

definition free_rank :: "nat \<times> msdosfsmount \<Rightarrow> nat" where
  "free_rank x = (if fst x \<in> clusters (snd x) then card (used_clusters (snd x)) + 1 else 0)"

lemma used_finite [simp]: "finite (used_clusters s)" by (simp add: used_clusters_def clusters_def)

interpretation fcc: ranked_loop "chain_turn no_errors" "\<lambda>(cn, s). fat_wf s \<and> table_only s0 s" free_rank "\<lambda>r. \<exists>s'. r = Some (None, s') \<and> table_only s0 s'" for s0
proof (unfold_locales, goal_cases)
  case (1 x x')
  obtain cn s where x: "x = (cn, s)" by (cases x)
  have cn: "cn \<in> clusters s" using 1 by (auto simp: x chain_turn_def clusters_iff split: if_splits)
  obtain t where t: "clusterfree no_errors cn s = Some (Inr (ent s cn), t)" "table_only s t" "\<forall>c \<in> clusters s. ent t c = (if c = cn then 0 else ent s c)"
    using clusterfree_spec [OF _ cn] 1 x by (metis case_prod_conv)
  have x': "x' = (ent s cn, t)" using 1 t(1) cn by (simp add: x chain_turn_def clusters_iff)
  have geo: "same_geo s t" using t(2) by (rule table_only_geo)
  have U: "used_clusters t = used_clusters s - {cn}" unfolding used_clusters_def clusters_geo [OF geo] using t(3) by (auto split: if_splits)
  have "free_rank (ent s cn, t) < free_rank (cn, s)"
  proof (cases "ent s cn = 0")
    case True thus ?thesis using cn by (simp add: free_rank_def clusters_iff CLUST_FIRST_def)
  next
    case False
    hence "card (used_clusters t) < card (used_clusters s)" unfolding U using cn by (intro psubset_card_mono [OF used_finite]) (auto simp: used_clusters_def)
    thus ?thesis using cn by (simp add: free_rank_def)
  qed
  moreover have "fat_wf t" "table_only s0 t" using 1 x same_geo_eqs(3) [OF geo] table_only_trans t(2) by auto
  ultimately show ?case by (simp add: x x')
next
  case (2 x r)
  obtain cn s where x: "x = (cn, s)" by (cases x)
  have "cn \<notin> clusters s"
  proof
    assume cn: "cn \<in> clusters s"
    then obtain t where "clusterfree no_errors cn s = Some (Inr (ent s cn), t)" using clusterfree_spec [OF _ cn] 2 x by (metis case_prod_conv)
    thus False using 2 cn by (simp add: x chain_turn_def clusters_iff)
  qed
  thus ?case using 2 by (auto simp: x chain_turn_def clusters_iff)
qed

lemma used_card: "card (used_clusters s) \<le> pm_maxcluster s"
proof -
  have "card (used_clusters s) \<le> card (clusters s)" by (rule card_mono) (auto simp: used_clusters_def clusters_def)
  thus ?thesis by (simp add: clusters_def CLUST_FIRST_def)
qed

lemma free_chain_run:
  assumes "fat_wf s" and "chain s cs e" and "e \<notin> clusters s" and "e \<noteq> 0" and "length cs < n"
  shows "\<exists>s'. run_fuel (chain_turn no_errors) n (hd (cs @ [e]), s) = Some (Some (None, s')) \<and> table_only s s' \<and>
     (\<forall>c \<in> clusters s. ent s' c = (if c \<in> set cs then 0 else ent s c)) \<and> (map_exact s \<longrightarrow> map_exact s')"
  using assms
proof (induction cs arbitrary: s n)
  case Nil
  then obtain m where "n = Suc m" by (cases n) auto
  thus ?case using Nil by (auto simp: chain_turn_def clusters_iff)
next
  case (Cons c cs)
  then obtain m where n: "n = Suc m" "length cs < m" by (cases n) auto
  have c: "c \<in> clusters s" "ent s c = hd (cs @ [e])" "chain s cs e" "c \<notin> set cs" using Cons.prems(2) chain_distinct [OF Cons.prems(2,3)] by simp_all
  obtain t where t: "clusterfree no_errors c s = Some (Inr (ent s c), t)" "table_only s t" "\<forall>d \<in> clusters s. ent t d = (if d = c then 0 else ent s d)"
    using clusterfree_spec [OF Cons.prems(1) c(1)] by metis
  have geo: "same_geo s t" using t(2) by (rule table_only_geo)
  have "chain t cs e" using c(3,4) t(3) chain_set [OF c(3)] by (subst chain_cong [OF geo]) auto
  then obtain s' where s': "run_fuel (chain_turn no_errors) m (hd (cs @ [e]), t) = Some (Some (None, s'))" "table_only t s'"
     "\<forall>d \<in> clusters t. ent s' d = (if d \<in> set cs then 0 else ent t d)" "map_exact t \<longrightarrow> map_exact s'"
    using Cons.IH [of t m] Cons.prems n same_geo_eqs(3) [OF geo] clusters_geo [OF geo] by auto
  have "run_fuel (chain_turn no_errors) n (hd ((c # cs) @ [e]), s) = Some (Some (None, s'))"
    using s'(1) t(1) c(1,2) n by (simp add: chain_turn_def clusters_iff)
  moreover have "table_only s s'" using t(2) s'(2) by (rule table_only_trans)
  moreover have "\<forall>d \<in> clusters s. ent s' d = (if d \<in> set (c # cs) then 0 else ent s d)" using s'(3) t(3) clusters_geo [OF geo] by simp
  moreover have "map_exact s \<longrightarrow> map_exact s'" using clusterfree_exact(1) [OF Cons.prems(1) c(1) _ _ t(1)] chain_used [OF Cons.prems(2,4)] s'(4) by simp
  ultimately show ?case by blast
qed

lemma freeclusterchain_exact:
  assumes "fat_wf s" and "chain s cs e" and "e \<notin> clusters s" and "e \<noteq> 0"
  obtains s' where "freeclusterchain no_errors (hd (cs @ [e])) s = Some (None, s')" "table_only s s'"
     "\<forall>c \<in> clusters s. ent s' c = (if c \<in> set cs then 0 else ent s c)" "map_exact s \<longrightarrow> map_exact s'"
proof -
  have "length cs < pm_maxcluster s + 3" using chain_length [OF assms(2,3)] by simp
  from free_chain_run [OF assms this] obtain s' where "run_fuel (chain_turn no_errors) (pm_maxcluster s + 3) (hd (cs @ [e]), s) = Some (Some (None, s'))"
    "table_only s s'" "\<forall>c \<in> clusters s. ent s' c = (if c \<in> set cs then 0 else ent s c)" "map_exact s \<longrightarrow> map_exact s'" by blast
  thus thesis using that by (simp add: freeclusterchain_def)
qed

section \<open>Reading the table when mounting\<close>

text \<open>What \<^verbatim>\<open>fatblock\<close> has read for an entry.\<close>

definition fat_block_of :: "msdosfsmount \<Rightarrow> nat \<Rightarrow> nat \<times> buffer" where
  "fat_block_of s cn = (case fatblock s (FATOFS s cn) of (bn, sz, bo) \<Rightarrow> (sz, \<lambda>i. d_bytes s (bn * 512 + i)))"

lemma block_get:
  assumes wf: "fat_wf s" and cn: "cn \<le> pm_maxcluster s" and b: "fatblock s (FATOFS s cn) = (bn, sz, bo)"
  shows "getushort sz (\<lambda>i. d_bytes s (bn * 512 + i)) bo = Some (fword s (FATOFS s cn))"
proof -
  obtain rb where r: "bn = pm_fatblk s + rb" "bo + 1 < sz" "rb * 512 + bo = FATOFS s cn" using fatblock_in [OF wf cn] b by (metis Pair_inject)
  have "(pm_fatblk s + rb) * 512 + bo = pm_fatblk s * 512 + FATOFS s cn" using r(3) by simp
  thus ?thesis using r(1,2) by (simp add: getushort_def fword_def fbyte_def add.assoc)
qed

lemma fatblock_geo: "same_geo s s' \<Longrightarrow> fatblock s' = fatblock s"
  by (simp add: fatblock_def same_geo_def fun_eq_iff Let_def)

lemma pred_div: "0 < n \<Longrightarrow> c mod n \<noteq> 0 \<Longrightarrow> (c - 1) div n = c div n" for c n :: nat
proof (rule div_nat_eqI)
  assume n: "0 < n" "c mod n \<noteq> 0"
  have "n * (c div n) + c mod n = c" "c mod n < n" using n by simp_all
  thus "n * (c div n) \<le> c - 1" "c - 1 < n * Suc (c div n)" using n(2) unfolding mult_Suc_right by linarith+
qed

text \<open>Entries of one block follow each other.\<close>

lemma block_step:
  assumes wf: "fat_wf s" and c: "1 \<le> c" and bo: "FATOFS s c mod pm_fatblocksize s \<noteq> 0"
  shows "FATOFS s c div pm_fatblocksize s = FATOFS s (c - 1) div pm_fatblocksize s"
proof (cases "FAT12 s")
  case True
  have "FATOFS s x = 3 * (x div 2) + x mod 2" for x by (rule FATOFS12 [OF True])
  hence d: "FATOFS s x div 3 = x div 2" for x by simp
  have q: "FATOFS s x div 1536 = x div 1024" for x using div_mult2_eq [of "FATOFS s x" 3 512] div_mult2_eq [of x 2 512] d [of x] by simp
  have "c mod 1024 \<noteq> 0"
  proof
    assume "c mod 1024 = 0"
    then obtain k where "c = 1024 * k" using mod_0_imp_dvd dvdE by metis
    hence "FATOFS s c = 1536 * k" by (simp add: FATOFS12 [OF True])
    thus False using bo wf True by (simp add: fat_wf_def)
  qed
  hence "c div 1024 = (c - 1) div 1024" using pred_div [of 1024 c] by simp
  thus ?thesis using q wf True by (simp add: fat_wf_def)
next
  case False
  have e: "FATOFS s x = 2 * x" for x using False by (simp add: FATOFS_def)
  have q: "2 * x div 8192 = x div 4096" for x :: nat using div_mult2_eq [of "2 * x" 2 4096] by simp
  have "c mod 4096 \<noteq> 0"
  proof
    assume "c mod 4096 = 0"
    then obtain k where "c = 4096 * k" using mod_0_imp_dvd dvdE by metis
    thus False using bo wf False e by (simp add: fat_wf_def)
  qed
  hence "c div 4096 = (c - 1) div 4096" using pred_div [of 4096 c] by simp
  thus ?thesis using q wf False e by (simp add: fat_wf_def)
qed

lemma raw_zero: "fat_get s cn w = 0 \<longleftrightarrow> (if FAT12 s then (if odd cn then drop_bit 4 w else w) AND 0x0fff else w) = 0"
  unfolding fat_get_eq and_fff by (simp add: wide12_def drop_bit_eq_div)

text \<open>The clusters from \<open>c\<close> on remain.\<close>

definition fill_inv :: "msdosfsmount \<Rightarrow> nat \<Rightarrow> (nat \<times> buffer) option \<Rightarrow> msdosfsmount \<Rightarrow> bool" where
  "fill_inv s0 c bp s = (same_geo s0 s \<and> d_bytes s = d_bytes s0 \<and> (bp = None \<or> bp = Some (fat_block_of s0 (c - 1))) \<and>
     (let F = {x \<in> free_clusters s0. x < c} in (\<forall>x < 8 * (pm_maxcluster s0 div 8 + 1). inuse s x = (x \<notin> F)) \<and>
        pm_freeclustercount s = of_nat (card F) \<and> (\<forall>x \<in> F. pm_lookhere s \<le> x)))"

lemma fill_inv_step:
  assumes inv: "fill_inv s0 c bp s" and c: "c \<in> clusters s0"
  shows "fill_inv s0 (Suc c) (Some (fat_block_of s0 c)) (if ent s0 c = 0 then usemap_free c s else s)"
proof -
  let ?F = "\<lambda>c. {x \<in> free_clusters s0. x < c}"
  show ?thesis
  proof (cases "ent s0 c = 0")
    case True
    hence F: "?F (Suc c) = insert c (?F c)" using c by (auto simp: free_clusters_def less_Suc_eq)
    hence "card (?F (Suc c)) = card (?F c) + 1" by simp
    moreover have "pm_freeclustercount (usemap_free c s) = pm_freeclustercount s + 1" "pm_lookhere (usemap_free c s) = min c (pm_lookhere s)"
      by (simp_all add: usemap_free_def min_def)
    ultimately show ?thesis using inv True F same_geo_trans [OF _ map_update_geo(2)] unfolding fill_inv_def Let_def by (auto simp: inuse_free)
  next
    case False
    hence "?F (Suc c) = ?F c" by (auto simp: free_clusters_def less_Suc_eq)
    thus ?thesis using inv False unfolding fill_inv_def Let_def by simp
  qed
qed

lemma fill_turn:
  assumes wf: "fat_wf s0" and inv: "fill_inv s0 c bp s" and c: "c \<in> clusters s0" and bp: "c = CLUST_FIRST \<or> bp \<noteq> None"
  shows "\<exists>k. fill_loop no_errors (c # cs) bp s = fill_loop no_errors cs (Some (fat_block_of s0 c)) ((if ent s0 c = 0 then usemap_free c s else s)\<lparr>d_reads := k\<rparr>)"
proof -
  obtain bn sz bo where b: "fatblock s0 (FATOFS s0 c) = (bn, sz, bo)" by (cases "fatblock s0 (FATOFS s0 c)")
  let ?buf = "\<lambda>i. d_bytes s0 (bn * 512 + i)"
  have geo: "same_geo s0 s" and byt: "d_bytes s = d_bytes s0" using inv by (simp_all add: fill_inv_def)
  have bl: "fat_block_of s0 c = (sz, ?buf)" using b by (simp add: fat_block_of_def)
  have fb: "fatblock s (FATOFS s c) = (bn, sz, bo)" unfolding fatblock_geo [OF geo] same_geo_eqs(2) [OF geo] by (rule b)
  have bo: "bo = FATOFS s c mod pm_fatblocksize s" using fb by (simp add: fatblock_def Let_def)
  have g: "getushort sz ?buf bo = Some (fword s0 (FATOFS s0 c))" using block_get [OF wf _ b] c by (simp add: clusters_iff)
  have z: "((if FAT12 s then (if odd c then drop_bit 4 w else w) AND 0x0fff else w) = 0) = (fat_get s0 c w = 0)" for w
    using raw_zero [of s0 c w] same_geo_eqs(1) [OF geo] by simp
  have e: "(fat_get s0 c (fword s0 (FATOFS s0 c)) = 0) = (ent s0 c = 0)" by (simp add: ent_def)
  show ?thesis
  proof (cases "FATOFS s c mod pm_fatblocksize s = 0 \<or> bp = None")
    case True
    have cm: "(if b then usemap_free c (s\<lparr>d_reads := k\<rparr>) else s\<lparr>d_reads := k\<rparr>) = (if b then usemap_free c s else s)\<lparr>d_reads := k\<rparr>" for b k by (simp add: usemap_free_def)
    show ?thesis using True b fb g z [of "fword s0 (FATOFS s0 c)"] e unfolding bl
      by (intro exI [of _ "d_reads s + 1"]) (simp add: bread_ok byt bo [symmetric] cm Let_def)
  next
    case False
    hence c1: "1 \<le> c" "bp = Some (fat_block_of s0 (c - 1))" using inv c by (auto simp: fill_inv_def clusters_iff CLUST_FIRST_def)
    have "FATOFS s0 c div pm_fatblocksize s0 = FATOFS s0 (c - 1) div pm_fatblocksize s0"
      using block_step [OF wf c1(1)] False same_geo_eqs(2) [OF geo] geo by (simp add: same_geo_def)
    hence "fat_block_of s0 (c - 1) = fat_block_of s0 c" by (simp add: fat_block_of_def fatblock_def Let_def)
    moreover have "(if b then usemap_free c s else s)\<lparr>d_reads := d_reads s\<rparr> = (if b then usemap_free c s else s)" for b by (simp add: usemap_free_def)
    ultimately show ?thesis using False c1(2) g z [of "fword s0 (FATOFS s0 c)"] e unfolding bl
      by (intro exI [of _ "d_reads s"]) (simp add: bo [symmetric] Let_def)
  qed
qed

lemma fill_inv_reads: "fill_inv s0 c bp (s\<lparr>d_reads := k\<rparr>) = fill_inv s0 c bp s"
  by (simp add: fill_inv_def same_geo_def inuse_def Let_def)

lemma fill_loop_ok:
  assumes wf: "fat_wf s0" and inv: "fill_inv s0 c bp s" and c: "CLUST_FIRST \<le> c" "c \<le> pm_maxcluster s0 + 1" and bp: "c = CLUST_FIRST \<or> bp \<noteq> None"
  shows "\<exists>s' bp'. fill_loop no_errors [c..<pm_maxcluster s0 + 1] bp s = Some (None, s') \<and> fill_inv s0 (pm_maxcluster s0 + 1) bp' s'"
  using inv c bp
proof (induction "pm_maxcluster s0 + 1 - c" arbitrary: c bp s)
  case 0
  hence "c = pm_maxcluster s0 + 1" by simp
  thus ?case using 0 by auto
next
  case (Suc n)
  hence lt: "c < pm_maxcluster s0 + 1" by simp
  hence cl: "c \<in> clusters s0" using Suc by (simp add: clusters_iff)
  note e = upt_conv_Cons [OF lt]
  obtain k where t: "fill_loop no_errors [c..<pm_maxcluster s0 + 1] bp s =
     fill_loop no_errors [Suc c..<pm_maxcluster s0 + 1] (Some (fat_block_of s0 c)) ((if ent s0 c = 0 then usemap_free c s else s)\<lparr>d_reads := k\<rparr>)"
    using fill_turn [OF wf Suc.prems(1) cl Suc.prems(4)] unfolding e by blast
  show ?case unfolding t by (rule Suc.hyps(1)) (use Suc.hyps(2) Suc.prems cl fill_inv_step [OF Suc.prems(1) cl] in \<open>auto simp: fill_inv_reads clusters_iff\<close>)
qed

lemma fillinusemap_ok:
  assumes wf: "fat_wf s" and cap: "1 \<le> pm_maxcluster s"
  obtains s' where "fillinusemap no_errors s = Some (None, s')" "same_geo s s'" "d_bytes s' = d_bytes s" "map_exact s'"
proof -
  let ?s = "s\<lparr>pm_inusemap := (\<lambda>i. if i < pm_maxcluster s div 8 + 1 then 0xff else pm_inusemap s i), pm_freeclustercount := 0, pm_lookhere := pm_maxcluster s + 1\<rparr>"
  have F: "{x \<in> free_clusters s. x < CLUST_FIRST} = {}" by (auto simp: free_clusters_def clusters_iff)
  have "inuse ?s x" if "x < 8 * (pm_maxcluster s div 8 + 1)" for x
  proof -
    have "x div 8 < pm_maxcluster s div 8 + 1" using that div_less_iff_less_mult [of 8 x "pm_maxcluster s div 8 + 1"] by (simp add: mult.commute)
    thus ?thesis using full_byte [of "0xff"] by (simp add: inuse_def)
  qed
  hence "fill_inv s CLUST_FIRST None ?s" unfolding fill_inv_def Let_def F by (simp add: same_geo_def)
  moreover have "CLUST_FIRST \<le> pm_maxcluster s + 1" using cap by (simp add: CLUST_FIRST_def)
  ultimately obtain s' bp' where s': "fillinusemap no_errors s = Some (None, s')" "fill_inv s (pm_maxcluster s + 1) bp' s'"
    using fill_loop_ok [OF wf, of CLUST_FIRST None ?s] unfolding fillinusemap_def by auto
  have "{x \<in> free_clusters s. x < pm_maxcluster s + 1} = free_clusters s" by (auto simp: free_clusters_def clusters_iff)
  moreover have geo: "same_geo s s'" "d_bytes s' = d_bytes s" using s'(2) by (simp_all add: fill_inv_def)
  moreover have "free_clusters s' = free_clusters s" using free_iff [OF geo(1)] ent_bytes [OF geo] by (auto simp: free_clusters_def)
  ultimately have "map_exact s'" using s'(2) same_geo_eqs(4) [OF geo(1)] by (simp add: map_exact_def fill_inv_def Let_def)
  thus thesis using that s'(1) geo by blast
qed

section \<open>Properties\<close>

text \<open>
  Property C36. With the block sizes that \<^verbatim>\<open>mountmsdosfs\<close> sets, the two bytes of every entry, also of a 12-bit entry that crosses a
  sector, lie in the one block read for it, which is no larger than a buffer and lies in the table.
\<close>

theorem fatblock_bounds:
  assumes "fat_wf s" and "cn \<in> clusters s"
  shows "case fatblock s (FATOFS s cn) of (bn, sz, bo) \<Rightarrow> bo + 1 < sz \<and> sz \<le> MAXBSIZE \<and> pm_fatblk s \<le> bn \<and> bn * 512 + sz \<le> (pm_fatblk s + pm_FATsecs s) * 512 \<and>
     bn * 512 + bo = pm_fatblk s * 512 + FATOFS s cn"
proof -
  obtain rb sz bo where b: "fatblock s (FATOFS s cn) = (pm_fatblk s + rb, sz, bo)" "bo + 1 < sz" "rb * 512 + bo = FATOFS s cn" "rb * 512 + sz \<le> pm_FATsecs s * 512"
    using fatblock_in [OF assms(1)] assms(2) unfolding clusters_iff by metis
  have "sz \<le> pm_fatblocksec s * pm_BytesPerSec s" using b(1) by (auto simp: fatblock_def Let_def split: if_splits)
  also have "\<dots> \<le> MAXBSIZE" using assms(1) by (simp add: fat_wf_def MAXBSIZE_def)
  finally show ?thesis using b(2,3,4) unfolding b(1) by simp
qed

text \<open>A floppy disk with a table of 12 bits, and a disk with one of 16 bits; all clusters are free.\<close>

definition ex12 :: msdosfsmount where
  "ex12 = mount_geometry \<lparr>bpbBytesPerSec = 512, bpbSecPerClust = 1, bpbResSectors = 1, bpbFATs = 2, bpbRootDirEnts = 16, bpbSectors = 1007, bpbFATsecs = 3,
     bpbSecPerTrack = 18, bpbHeads = 2, bpbHugeSectors = 0\<rparr> 9 (\<lambda>_. 0)"

definition ex_bpb :: bpb where
  "ex_bpb = \<lparr>bpbBytesPerSec = 512, bpbSecPerClust = 1, bpbResSectors = 1, bpbFATs = 2, bpbRootDirEnts = 16, bpbSectors = 5041, bpbFATsecs = 20,
     bpbSecPerTrack = 17, bpbHeads = 4, bpbHugeSectors = 0\<rparr>"

definition ex16 :: msdosfsmount where
  "ex16 = mount_geometry ex_bpb 9 (\<lambda>_. 0)"

lemma ex12_wf: "fat_wf ex12 \<and> FAT12 ex12 \<and> pm_maxcluster ex12 = 1000"
  by (simp add: ex12_def mount_geometry_def Let_def fat_wf_def FAT12_def FATOFS_def)

lemma ex16_wf: "fat_wf ex16 \<and> \<not> FAT12 ex16 \<and> pm_maxcluster ex16 = 5000"
  by (simp add: ex16_def ex_bpb_def mount_geometry_def Let_def fat_wf_def FAT12_def FATOFS_def MAXBSIZE_def)

theorem fatblock_bounds_witness:
  "fat_wf ex12 \<and> 341 \<in> clusters ex12 \<and> (case fatblock ex12 (FATOFS ex12 341) of (bn, sz, bo) \<Rightarrow> bo + 1 < sz \<and> sz \<le> MAXBSIZE \<and> pm_fatblk ex12 \<le> bn \<and>
     bn * 512 + sz \<le> (pm_fatblk ex12 + pm_FATsecs ex12) * 512 \<and> bn * 512 + bo = pm_fatblk ex12 * 512 + FATOFS ex12 341)"
proof -
  have c: "fat_wf ex12" "341 \<in> clusters ex12" using ex12_wf by (simp_all add: clusters_iff CLUST_FIRST_def)
  show ?thesis using c fatblock_bounds [OF c] by simp
qed

text \<open>
  Property C35. Setting an entry gives back the old contents if asked for; afterwards every entry reads as before but this one, which reads as the
  new contents; the copies of the table stay equal, and no byte outside the table changes. For a table of 12 bits this holds for odd clusters and for
  contents of 12 bits.
\<close>

theorem fatentry_exact:
  assumes "fat_wf s" and "cn \<in> clusters s" and "put_ok s cn v"
  shows "\<exists>s'. fatentry no_errors g True cn v s = Some (Inr (if g then ent s cn else 0), s') \<and>
     (\<forall>c \<in> clusters s. \<exists>s''. fatentry no_errors True False c 0 s' = Some (Inr (if c = cn then stored_ent s v else ent s c), s'')) \<and>
     (mirrored s \<longrightarrow> mirrored s') \<and> (\<forall>a. outside_fat s a \<longrightarrow> d_bytes s' a = d_bytes s a)"
proof -
  have cn: "CLUST_FIRST \<le> cn" "cn \<le> pm_maxcluster s" using assms(2) by (simp_all add: clusters_iff)
  obtain s' where s': "fatentry no_errors g True cn v s = Some (Inr (if g then ent s cn else 0), s')" "table_only s s'"
     "\<forall>c \<le> pm_maxcluster s. ent s' c = (if c = cn then stored_ent s v else ent s c)" using fatentry_put [OF assms(1) cn assms(3)] by metis
  have "fat_wf s'" "pm_maxcluster s' = pm_maxcluster s" using same_geo_eqs(3,4) [OF table_only_geo [OF s'(2)]] assms(1) by simp_all
  hence "\<forall>c \<in> clusters s. \<exists>s''. fatentry no_errors True False c 0 s' = Some (Inr (if c = cn then stored_ent s v else ent s c), s'')"
    using fatentry_get [of s'] s'(3) by (auto simp: clusters_iff)
  thus ?thesis using s'(1,2) by (auto simp: table_only_def)
qed

theorem fatentry_exact_witness:
  "fat_wf ex12 \<and> 3 \<in> clusters ex12 \<and> put_ok ex12 3 0xffff \<and> (\<exists>s'. fatentry no_errors True True 3 0xffff ex12 = Some (Inr (if True then ent ex12 3 else 0), s') \<and>
     (\<forall>c \<in> clusters ex12. \<exists>s''. fatentry no_errors True False c 0 s' = Some (Inr (if c = 3 then stored_ent ex12 0xffff else ent ex12 c), s'')) \<and>
     (mirrored ex12 \<longrightarrow> mirrored s') \<and> (\<forall>a. outside_fat ex12 a \<longrightarrow> d_bytes s' a = d_bytes ex12 a))"
proof -
  have c: "fat_wf ex12" "3 \<in> clusters ex12" "put_ok ex12 3 0xffff" using ex12_wf by (simp_all add: clusters_iff CLUST_FIRST_def put_ok_def)
  show ?thesis using c fatentry_exact [OF c, of True] by blast
qed

text \<open>
  In a table of 12 bits, marking an even cluster as the end of a file, as every extension of a file does, also sets the low four bits of
  the entry of the next cluster: a free cluster no longer reads as free, and the chain of another file is led astray.
\<close>

theorem fat12_eof_overflow:
  assumes "fat_wf s" and "FAT12 s" and "CLUST_FIRST \<le> cn" and "cn + 1 \<le> pm_maxcluster s" and "even cn"
  shows "\<exists>s'. fatentry no_errors g True cn CLUST_EOFE s = Some (Inr (if g then ent s cn else 0), s') \<and> ent s' cn = 0xffff \<and> ent s' (cn + 1) = ent s (cn + 1) OR 0xf"
  using fatentry_overflow [OF assms] by metis

text \<open>
  Freeing a chain returns for every table, also when the chain runs into itself or into the chain of another file.
\<close>

theorem freeclusterchain_returns:
  assumes "fat_wf s"
  shows "\<exists>s'. freeclusterchain no_errors cn s = Some (None, s') \<and> table_only s s'"
proof -
  have "free_rank (cn, s) < pm_maxcluster s + 3" using used_card [of s] by (simp add: free_rank_def)
  hence "\<exists>r. run_fuel (chain_turn no_errors) (pm_maxcluster s + 3) (cn, s) = Some r \<and> (\<exists>s'. r = Some (None, s') \<and> table_only s s')"
    using fcc.run_returns [of s "(cn, s)"] assms by simp
  thus ?thesis by (auto simp: freeclusterchain_def)
qed

lemma fill_loop_geo: "fill_loop E cns bp s = Some (r, s') \<Longrightarrow> same_geo s s'"
proof (induction cns arbitrary: bp s)
  case (Cons cn cns)
  let ?R = "if FATOFS s cn mod pm_fatblocksize s = 0 \<or> bp = None then (case fatblock s (FATOFS s cn) of (bn, sz, _) \<Rightarrow> case bread E bn s of (error, buf, s) \<Rightarrow> (error, Some (sz, buf), s)) else (None, bp, s)"
  obtain err bp1 s1 where R: "?R = (err, bp1, s1)" by (cases ?R)
  have g: "same_geo s s1" using R by (auto simp: bread_def same_geo_def split: if_splits prod.splits option.splits)
  have f: "same_geo s (if z then usemap_free cn s1 else s1)" for z using g same_geo_trans [OF g map_update_geo(2)] by simp
  show ?case
  proof (cases err)
    case None
    then obtain sz buf w where b: "bp1 = Some (sz, buf)" "getushort sz buf (FATOFS s cn mod pm_fatblocksize s) = Some w"
      using Cons.prems R by (cases bp1) (auto simp: Let_def split: option.splits)
    define z where "z = ((if FAT12 s1 then (if odd cn then drop_bit 4 w else w) AND 0x0fff else w) = 0)"
    have "fill_loop E cns (Some (sz, buf)) (if z then usemap_free cn s1 else s1) = Some (r, s')" using Cons.prems R None b by (simp add: Let_def z_def)
    from Cons.IH [OF this] show ?thesis using f same_geo_trans by blast
  next
    case (Some e)
    thus ?thesis using Cons.prems R g by (simp add: Let_def)
  qed
qed simp

text \<open>After mounting, the map of clusters in use, the count of free clusters and \<^verbatim>\<open>pm_lookhere\<close> are those of the table.\<close>

theorem mount_map_exact:
  assumes "mount_fat no_errors b ronly sync bytes = Some (Inr s)" and "fat_wf s"
  shows "map_exact s \<and> d_bytes s = bytes"
proof -
  obtain k t where t: "fillinusemap no_errors (mount_geometry b k bytes) = Some (None, t)" "s = t\<lparr>pm_waitonfat := sync, pm_fmod := (if ronly then pm_fmod t else 1)\<rparr>"
    using assms(1) by (auto simp: mount_fat_def split: if_splits sum.splits option.splits)
  let ?g = "mount_geometry b k bytes"
  have "same_geo ?g t" using t(1) fill_loop_geo by (fastforce simp: fillinusemap_def same_geo_def)
  hence "fat_wf ?g" using same_geo_eqs(3) [of ?g t] assms(2) t(2) by (simp add: fat_wf_def FAT12_def FATOFS_def)
  moreover have "1 \<le> pm_maxcluster ?g" by (simp add: mount_geometry_def Let_def)
  ultimately obtain u where u: "fillinusemap no_errors ?g = Some (None, u)" "d_bytes u = d_bytes ?g" "map_exact u" using fillinusemap_ok by metis
  hence "map_exact t" "d_bytes t = bytes" using t(1) by (simp_all add: mount_geometry_def Let_def)
  moreover have "ent s = ent t" using t(2) by (simp add: ent_def fword_def fbyte_def FATOFS_def FAT12_def fat_get_def fun_eq_iff)
  ultimately show ?thesis using t(2) by (simp add: map_exact_def inuse_def free_clusters_def clusters_def)
qed

end
