(* ===== verification/Fat_files.thy ===== *)
theory Fat_files
  imports Fat
begin

text \<open>
  Files in the file allocation table: the chain of each file, the two-entry cache of its clusters, mapping of file clusters
  (\<^verbatim>\<open>pcbmap\<close>), extension (\<^verbatim>\<open>extendfile\<close>) and truncation (\<^verbatim>\<open>detrunc\<close>). With a table of 16 bits and no read errors, the chains
  of the files stay apart and the map of clusters in use stays exact.
\<close>

section \<open>A file and its chain\<close>

definition chain_end :: "msdosfsmount \<Rightarrow> nat list \<Rightarrow> nat" where
  "chain_end s cs = (if cs = [] then 0xffff else ent s (last cs))"

definition file_chain :: "msdosfsmount \<Rightarrow> nat list \<Rightarrow> bool" where
  "file_chain s cs = (chain s cs (chain_end s cs) \<and> 0xfff8 \<le> chain_end s cs)"

text \<open>A cache entry is empty or right; the second one is empty or stands for the last cluster.\<close>

definition cache_ok :: "nat list \<Rightarrow> denode \<Rightarrow> bool" where
  "cache_ok cs dep = (length (de_fc dep) = 2 \<and>
     (\<forall>e \<in> set (de_fc dep). fc_frcn e = FCE_EMPTY \<or> fc_frcn e < length cs \<and> fc_fsrcn e = cs ! fc_frcn e) \<and>
     (fc_frcn (de_fc dep ! FC_LASTFC) = FCE_EMPTY \<or> fc_frcn (de_fc dep ! FC_LASTFC) + 1 = length cs))"

definition file_ok :: "msdosfsmount \<Rightarrow> denode \<Rightarrow> nat list \<Rightarrow> bool" where
  "file_ok s dep cs = (\<not> de_isroot dep \<and> de_StartCluster dep = (if cs = [] then 0 else hd cs) \<and> file_chain s cs \<and> cache_ok cs dep)"

lemma file_chainI: "chain s cs e \<Longrightarrow> 0xfff8 \<le> e \<Longrightarrow> file_chain s cs"
proof -
  assume c: "chain s cs e" "0xfff8 \<le> e"
  show ?thesis
  proof (cases "cs = []")
    case False
    hence "ent s (cs ! (length cs - 1)) = (cs @ [e]) ! length cs" using chain_nth [OF c(1), of "length cs - 1"] by simp
    hence "chain_end s cs = e" using False by (simp add: chain_end_def last_conv_nth)
    thus ?thesis using c by (simp add: file_chain_def)
  qed (simp add: file_chain_def chain_end_def)
qed

lemma chain_end_eof: "0xfff8 \<le> chain_end s cs \<Longrightarrow> MSDOSFSEOF (chain_end s cs)"
  using eof_iff [of "chain_end s cs"] ent_less [of s "last cs"] by (auto simp: chain_end_def)

lemma cluster_small: "fat_wf s \<Longrightarrow> c \<in> clusters s \<Longrightarrow> 2 \<le> c \<and> c < 0xfff0 \<and> \<not> MSDOSFSEOF c"
  using eof_iff [of c] by (auto simp: fat_wf_def clusters_iff CLUST_FIRST_def)

lemma file_chain_facts:
  assumes wf: "fat_wf s" and fc: "file_chain s cs"
  obtains e where "chain s cs e" "e \<notin> clusters s" "e \<noteq> 0" "MSDOSFSEOF e" "0xfff8 \<le> e" "distinct cs" "length cs < 0xfff0" "set cs \<subseteq> clusters s"
    "\<forall>c \<in> set cs. ent s c \<noteq> 0"
proof -
  let ?e = "chain_end s cs"
  have c: "chain s cs ?e" "0xfff8 \<le> ?e" using fc by (simp_all add: file_chain_def)
  have e: "?e \<notin> clusters s" "?e \<noteq> 0" using c(2) cluster_small [OF wf, of ?e] by auto
  have "length cs < 0xfff0" using chain_length [OF c(1) e(1)] wf by (auto simp: fat_wf_def)
  thus thesis using that c e chain_end_eof chain_distinct [OF c(1) e(1)] chain_set [OF c(1)] chain_used [OF c(1) e(2)] by blast
qed

lemma file_chain_cong: "same_geo s s' \<Longrightarrow> \<forall>c \<in> set cs. ent s' c = ent s c \<Longrightarrow> file_chain s' cs = file_chain s cs"
  using chain_cong [of s s' cs] by (simp add: file_chain_def chain_end_def)

lemma file_ok_cong: "same_geo s s' \<Longrightarrow> \<forall>c \<in> set cs. ent s' c = ent s c \<Longrightarrow> file_ok s' dep cs = file_ok s dep cs"
  using file_chain_cong [of s s' cs] by (simp add: file_ok_def)

subsection \<open>The cache\<close>

lemma cache_ok_two: "cache_ok cs dep \<Longrightarrow> \<exists>x y. de_fc dep = [x, y]"
  by (auto simp: cache_ok_def numeral_2_eq_2 length_Suc_conv)

lemma fold_closest:
  assumes "\<forall>e \<in> set es. P e" and "\<forall>e. closest = Some e \<longrightarrow> P e \<and> fc_frcn e \<noteq> FCE_EMPTY \<and> fc_frcn e \<le> n"
  shows "fold (fc_closest n) es closest = Some e \<Longrightarrow> P e \<and> fc_frcn e \<noteq> FCE_EMPTY \<and> fc_frcn e \<le> n"
  using assms
proof (induction es arbitrary: closest)
  case (Cons x es)
  show ?case by (rule Cons.IH [of "fc_closest n x closest"]) (use Cons.prems in \<open>auto simp: fc_closest_def split: if_splits\<close>)
qed simp

lemma fc_lookup_right:
  assumes co: "cache_ok cs dep" and ne: "cs \<noteq> []"
  obtains i where "fc_lookup n dep (0, hd cs) = (i, cs ! i)" "i \<le> n" "i < length cs"
proof (cases "fold (fc_closest n) (de_fc dep) None")
  case None thus thesis using that [of 0] ne by (simp add: fc_lookup_def hd_conv_nth)
next
  case (Some e)
  have "(fc_frcn e = FCE_EMPTY \<or> fc_frcn e < length cs \<and> fc_fsrcn e = cs ! fc_frcn e) \<and> fc_frcn e \<noteq> FCE_EMPTY \<and> fc_frcn e \<le> n"
    by (rule fold_closest [OF _ _ Some, where P = "\<lambda>e. fc_frcn e = FCE_EMPTY \<or> fc_frcn e < length cs \<and> fc_fsrcn e = cs ! fc_frcn e"]) (use co in \<open>auto simp: cache_ok_def\<close>)
  thus thesis using that [of "fc_frcn e"] Some by (auto simp: fc_lookup_def)
qed

lemma setcache_map:
  assumes "cache_ok cs dep" and "i < length cs" and "length cs < 65536" and "cs ! i < 65536"
  shows "cache_ok cs (fc_setcache FC_LASTMAP i (cs ! i) dep)"
  using cache_ok_two [OF assms(1)] assms by (auto simp: cache_ok_def fc_setcache_def FC_LASTMAP_def FC_LASTFC_def)

lemma setcache_last:
  assumes "cache_ok ds dep" and "cs \<noteq> []" and "length cs < 65536" and "last cs < 65536" and old: "\<forall>e \<in> set (de_fc dep). fc_frcn e = FCE_EMPTY \<or> fc_frcn e < length cs \<and> fc_fsrcn e = cs ! fc_frcn e"
  shows "cache_ok cs (fc_setcache FC_LASTFC (length cs - 1) (last cs) dep)" and "fc_frcn (de_fc (fc_setcache FC_LASTFC (length cs - 1) (last cs) dep) ! FC_LASTFC) = length cs - 1"
    and "fc_fsrcn (de_fc (fc_setcache FC_LASTFC (length cs - 1) (last cs) dep) ! FC_LASTFC) = last cs"
proof -
  obtain x y where d: "de_fc dep = [x, y]" using cache_ok_two [OF assms(1)] by blast
  have l: "length cs - 1 < length cs" "(length cs - 1) mod 65536 = length cs - 1" "last cs mod 65536 = last cs" "last cs = cs ! (length cs - 1)"
    using assms by (simp_all add: last_conv_nth)
  have lt: "length cs - 1 + 1 = length cs" using assms(2) by (cases cs) auto
  show "cache_ok cs (fc_setcache FC_LASTFC (length cs - 1) (last cs) dep)" using old d l(1,2) l(4) l(3) lt by (simp add: cache_ok_def fc_setcache_def FC_LASTFC_def)
  show "fc_frcn (de_fc (fc_setcache FC_LASTFC (length cs - 1) (last cs) dep) ! FC_LASTFC) = length cs - 1"
    "fc_fsrcn (de_fc (fc_setcache FC_LASTFC (length cs - 1) (last cs) dep) ! FC_LASTFC) = last cs" using d l by (simp_all add: fc_setcache_def FC_LASTFC_def)
qed

section \<open>Mapping\<close>

lemma pcb_loop_ok:
  assumes wf: "fat_wf s" and ch: "chain s cs e" and eof: "MSDOSFSEOF e" and i: "i \<le> length cs" "i = length cs \<longrightarrow> p = Some (last cs)"
    and bp: "bp = None \<or> (\<exists>bn. bp = Some (bn, \<lambda>i. d_bytes s (bn * 512 + i)))"
  shows "\<exists>k p'. pcb_loop no_errors n i ((cs @ [e]) ! i) p bp (s\<lparr>d_reads := r\<rparr>) =
     Some (Inr (min (i + n) (length cs), (cs @ [e]) ! min (i + n) (length cs), p'), s\<lparr>d_reads := k\<rparr>) \<and> (length cs \<le> i + n \<longrightarrow> p' = Some (last cs))"
  using i bp
proof (induction n arbitrary: i p bp r)
  case 0 thus ?case by (intro exI [of _ r] exI [of _ p]) auto
next
  case (Suc n)
  show ?case
  proof (cases "i = length cs")
    case True
    hence "pcb_loop no_errors (Suc n) i ((cs @ [e]) ! i) p bp (s\<lparr>d_reads := r\<rparr>) = Some (Inr (i, e, p), s\<lparr>d_reads := r\<rparr>)" using eof by simp
    thus ?thesis using Suc.prems True by (intro exI [of _ r] exI [of _ p]) simp
  next
    case False
    hence il: "i < length cs" using Suc.prems by simp
    note cn = chain_nth [OF ch il]
    let ?cn = "cs ! i" let ?s = "s\<lparr>d_reads := r\<rparr>"
    obtain bn sz bo where b: "fatblock s (FATOFS s ?cn) = (bn, sz, bo)" by (cases "fatblock s (FATOFS s ?cn)")
    let ?buf = "\<lambda>i. d_bytes s (bn * 512 + i)"
    have fb: "fatblock ?s (FATOFS s ?cn) = (bn, sz, bo)" using b fatblock_geo [of s ?s] by (simp add: same_geo_def)
    have g: "getushort sz ?buf bo = Some (fword s (FATOFS s ?cn))" using block_get [OF wf _ b] cn by (simp add: clusters_iff)
    have nxt: "fat_get s ?cn (fword s (FATOFS s ?cn)) = (cs @ [e]) ! Suc i" using cn by (simp add: ent_def)
    have rd: "\<exists>r'. (case bp of Some (bp_bn, buf) \<Rightarrow> if bn \<noteq> bp_bn then bread no_errors bn ?s else (None, buf, ?s) | None \<Rightarrow> bread no_errors bn ?s) = (None, ?buf, s\<lparr>d_reads := r'\<rparr>)"
      using Suc.prems(3) by (auto simp: bread_ok)
    then obtain r' where r': "(case bp of Some (bp_bn, buf) \<Rightarrow> if bn \<noteq> bp_bn then bread no_errors bn ?s else (None, buf, ?s) | None \<Rightarrow> bread no_errors bn ?s) =
      (None, ?buf, s\<lparr>d_reads := r'\<rparr>)" ..
    have "pcb_loop no_errors (Suc n) i ?cn p bp ?s = pcb_loop no_errors n (i + 1) ((cs @ [e]) ! Suc i) (Some ?cn) (Some (bn, ?buf)) (s\<lparr>d_reads := r'\<rparr>)"
      using cluster_small [OF wf conjunct1 [OF cn]] by (simp add: fb r' g nxt)
    moreover have "(cs @ [e]) ! i = ?cn" using il by (simp add: nth_append)
    moreover have "Suc i = length cs \<longrightarrow> Some ?cn = Some (last cs)" 
    proof
      assume l: "Suc i = length cs"
      hence "cs \<noteq> []" by auto
      thus "Some ?cn = Some (last cs)" using last_conv_nth [of cs] l [symmetric] by simp
    qed
    ultimately show ?thesis using Suc.IH [of "Suc i" "Some ?cn" "Some (bn, ?buf)" r'] il by (simp add: il Suc_leI)
  qed
qed

text \<open>A cluster of the file, or its length in clusters.\<close>

lemma pcbmap_ok:
  assumes wf: "fat_wf s" and ok: "file_ok s dep cs" and ne: "cs \<noteq> []"
  obtains dep' k where "pcbmap no_errors n dep s = Some (if n < length cs then Mapped (cntobn s (cs ! n)) (cs ! n) else Beyond (length cs), dep', s\<lparr>d_reads := k\<rparr>)"
    "file_ok s dep' cs" "dep' = dep\<lparr>de_fc := de_fc dep'\<rparr>" "length cs \<le> n \<longrightarrow> fc_frcn (de_fc dep' ! FC_LASTFC) = length cs - 1 \<and> fc_fsrcn (de_fc dep' ! FC_LASTFC) = last cs"
proof -
  have co: "cache_ok cs dep" and fc: "file_chain s cs" and st: "de_StartCluster dep = hd cs" using ok ne by (simp_all add: file_ok_def)
  obtain e where e: "chain s cs e" "MSDOSFSEOF e" "length cs < 0xfff0" "set cs \<subseteq> clusters s" using file_chain_facts [OF wf fc] by metis
  have small: "c \<in> set cs \<Longrightarrow> 2 \<le> c \<and> c < 65520 \<and> \<not> MSDOSFSEOF c" for c using cluster_small [OF wf] e(4) by blast
  obtain i where i: "fc_lookup n dep (0, hd cs) = (i, cs ! i)" "i \<le> n" "i < length cs" using fc_lookup_right [OF co ne] .
  obtain k p' where l: "pcb_loop no_errors (n - i) i (cs ! i) None None s = Some (Inr (min n (length cs), (cs @ [e]) ! min n (length cs), p'), s\<lparr>d_reads := k\<rparr>)"
    "length cs \<le> n \<longrightarrow> p' = Some (last cs)"
    using pcb_loop_ok [OF wf e(1,2), of i None None "n - i" "d_reads s"] i by (auto simp: nth_append)
  have "hd cs \<noteq> MSDOSFSROOT" using small [of "hd cs"] ne by (auto simp: MSDOSFSROOT_def)
  hence p: "pcbmap no_errors n dep s = (if \<not> MSDOSFSEOF ((cs @ [e]) ! min n (length cs)) then Some (Mapped (cntobn s ((cs @ [e]) ! min n (length cs))) ((cs @ [e]) ! min n (length cs)),
        fc_setcache FC_LASTMAP (min n (length cs)) ((cs @ [e]) ! min n (length cs)) dep, s\<lparr>d_reads := k\<rparr>)
      else (case p' of None \<Rightarrow> None | Some p \<Rightarrow> Some (Beyond (min n (length cs)), fc_setcache FC_LASTFC (min n (length cs) - 1) p dep, s\<lparr>d_reads := k\<rparr>)))"
    using l(1) i st by (simp add: pcbmap_def cntobn_def)
  show thesis
  proof (cases "n < length cs")
    case True
    let ?d = "fc_setcache FC_LASTMAP n (cs ! n) dep"
    have c: "cs ! n \<in> set cs" using True by simp
    have "cache_ok cs ?d" using setcache_map [OF co True] e(3) small [OF c] by simp
    hence "file_ok s ?d cs" using ok by (simp add: file_ok_def fc_setcache_def)
    moreover have "pcbmap no_errors n dep s = Some (Mapped (cntobn s (cs ! n)) (cs ! n), ?d, s\<lparr>d_reads := k\<rparr>)" using p small [OF c] True by (simp add: nth_append)
    ultimately show thesis using that [of ?d k] True by (simp add: fc_setcache_def)
  next
    case False
    let ?d = "fc_setcache FC_LASTFC (length cs - 1) (last cs) dep"
    have c: "last cs \<in> set cs" using ne by simp
    have d: "cache_ok cs ?d" "fc_frcn (de_fc ?d ! FC_LASTFC) = length cs - 1" "fc_fsrcn (de_fc ?d ! FC_LASTFC) = last cs"
      using setcache_last [OF co ne] e(3) small [OF c] co by (simp_all add: cache_ok_def)
    have "file_ok s ?d cs" using ok d(1) by (simp add: file_ok_def fc_setcache_def)
    moreover have "pcbmap no_errors n dep s = Some (Beyond (length cs), ?d, s\<lparr>d_reads := k\<rparr>)" using p l(2) e(2) False by (simp add: nth_append)
    ultimately show thesis using that [of ?d k] False d(2,3) by (simp add: fc_setcache_def)
  qed
qed

section \<open>Extension\<close>

lemma map_exact_same: "same_geo s s' \<Longrightarrow> same_map s s' \<Longrightarrow> free_clusters s' = free_clusters s \<Longrightarrow> map_exact s \<Longrightarrow> map_exact s'"
  using inuse_same [of s s'] same_geo_eqs(4) [of s s'] by (simp add: map_exact_def same_map_def)

lemma map_exact_reads [simp]: "map_exact (s\<lparr>d_reads := k\<rparr>) = map_exact s"
  by (simp add: map_exact_def inuse_def free_clusters_def clusters_def)

lemma reads_simps [simp]: "same_geo s (s\<lparr>d_reads := k\<rparr>)" "clusters (s\<lparr>d_reads := k\<rparr>) = clusters s" "free_clusters (s\<lparr>d_reads := k\<rparr>) = free_clusters s" "fat_wf (s\<lparr>d_reads := k\<rparr>) = fat_wf s"
  "file_ok (s\<lparr>d_reads := k\<rparr>) dep cs = file_ok s dep cs" "cntobn (s\<lparr>d_reads := k\<rparr>) = cntobn s"
proof -
  show g: "same_geo s (s\<lparr>d_reads := k\<rparr>)" by (simp add: same_geo_def)
  show "clusters (s\<lparr>d_reads := k\<rparr>) = clusters s" "free_clusters (s\<lparr>d_reads := k\<rparr>) = free_clusters s" by (simp_all add: clusters_def free_clusters_def)
  show "fat_wf (s\<lparr>d_reads := k\<rparr>) = fat_wf s" using same_geo_eqs(3) [OF g] .
  show "file_ok (s\<lparr>d_reads := k\<rparr>) dep cs = file_ok s dep cs" by (rule file_ok_cong [OF g]) simp
  show "cntobn (s\<lparr>d_reads := k\<rparr>) = cntobn s" by (simp add: cntobn_def fun_eq_iff)
qed

text \<open>Setting an entry in use to another value in use.\<close>

lemma fatentry_relink:
  assumes wf: "fat_wf s" "\<not> FAT12 s" and cn: "cn \<in> clusters s" "ent s cn \<noteq> 0" and v: "v \<noteq> 0" "v < 65536" and me: "map_exact s"
  obtains s' where "fatentry no_errors g True cn v s = Some (Inr (if g then ent s cn else 0), s')" "table_only s s'" "map_exact s'"
     "\<forall>c \<in> clusters s. ent s' c = (if c = cn then v else ent s c)"
proof -
  have c: "CLUST_FIRST \<le> cn" "cn \<le> pm_maxcluster s" using cn(1) by (simp_all add: clusters_iff)
  have ok: "put_ok s cn v" and st: "stored_ent s v = v" using wf(2) v by (simp_all add: put_ok_def stored_ent_def)
  obtain s' where s': "fatentry no_errors g True cn v s = Some (Inr (if g then ent s cn else 0), s')" "table_only s s'" "same_map s s'"
     "\<forall>c \<le> pm_maxcluster s. ent s' c = (if c = cn then v else ent s c)" using fatentry_put [OF wf(1) c ok, of g] unfolding st by metis
  have ent: "\<forall>c \<in> clusters s. ent s' c = (if c = cn then v else ent s c)" using s'(4) by (simp add: clusters_iff)
  have "free_clusters s' = free_clusters s"
  proof (rule set_eqI)
    fix x show "(x \<in> free_clusters s') = (x \<in> free_clusters s)"
      using free_iff [OF table_only_geo [OF s'(2)], of x] free_iff [OF same_geo_refl, of x s] ent cn(2) v(1) by (auto split: if_splits)
  qed
  hence "map_exact s'" using map_exact_same [OF table_only_geo [OF s'(2)] s'(3) _ me] by simp
  thus thesis using that s'(1,2) ent by blast
qed

lemma cache_append:
  assumes "cache_ok cs dep" and "e \<in> set (de_fc dep)"
  shows "fc_frcn e = FCE_EMPTY \<or> fc_frcn e < length (cs @ [c]) \<and> fc_fsrcn e = (cs @ [c]) ! fc_frcn e"
  using assms by (auto simp: cache_ok_def nth_append)

text \<open>The allocated cluster becomes the last of the chain.\<close>

lemma extend_alloc_ok:
  assumes wf: "fat_wf s" "\<not> FAT12 s" and me: "map_exact s" and ok: "file_ok s dep cs" and fr: "free_clusters s \<noteq> {}"
    and lc: "cs \<noteq> [] \<longrightarrow> fc_frcn (de_fc dep ! FC_LASTFC) = length cs - 1 \<and> fc_fsrcn (de_fc dep ! FC_LASTFC) = last cs"
  defines "c \<equiv> Min (free_clusters s)"
  obtains dep' s' where "extend_alloc no_errors dep s = Some (Inr (if de_isdir dep then Devblock (cntobn s c) else Fileblock (length cs), c), dep', s')"
    "table_only s s'" "map_exact s'" "file_ok s' dep' (cs @ [c])" "\<forall>d \<in> clusters s - set (cs @ [c]). ent s' d = ent s d"
    "dep' = dep\<lparr>de_fc := de_fc dep', de_StartCluster := de_StartCluster dep'\<rparr>"
proof -
  have co: "cache_ok cs dep" and fc: "file_chain s cs" and st: "de_StartCluster dep = (if cs = [] then 0 else hd cs)" and nr: "\<not> de_isroot dep" using ok by (simp_all add: file_ok_def)
  obtain e where e: "chain s cs e" "length cs < 0xfff0" "set cs \<subseteq> clusters s" "\<forall>c \<in> set cs. ent s c \<noteq> 0" "distinct cs" using file_chain_facts [OF wf(1) fc] by metis
  have cf: "c \<in> free_clusters s" unfolding c_def by (rule Min_in [OF free_finite fr])
  hence cc: "c \<in> clusters s" "ent s c = 0" "c \<notin> set cs" using e(4) by (auto simp: free_clusters_def)
  note csm = cluster_small [OF wf(1) cc(1)]
  have st16: "stored_ent s CLUST_EOFE = 0xffff" using wf(2) by (simp add: stored_ent_def CLUST_EOFE_def)
  obtain s1 where s1: "clusteralloc no_errors CLUST_EOFE s = Some (Inr c, s1)" "table_only s s1" "map_exact s1" "\<forall>d \<in> clusters s. ent s1 d = (if d = c then 0xffff else ent s d)"
  proof -
    have "put_ok s cn CLUST_EOFE" for cn using wf(2) by (simp add: put_ok_def)
    with clusteralloc_spec [OF wf(1) me, of CLUST_EOFE, unfolded st16] fr show thesis using that unfolding c_def by auto
  qed
  note geo1 = table_only_geo [OF s1(2)]
  have cnt: "cntobn s1 = cntobn s" using geo1 by (simp add: cntobn_def same_geo_def fun_eq_iff)
  let ?fin = "\<lambda>dep. fc_setcache FC_LASTFC (length cs) c dep"
  have cache: "cache_ok (cs @ [c]) (?fin (dep\<lparr>de_StartCluster := x\<rparr>))" for x
    using setcache_last(1) [of cs "dep\<lparr>de_StartCluster := x\<rparr>" "cs @ [c]"] co e(2) csm cache_append [OF co] by (simp add: cache_ok_def)
  show thesis
  proof (cases "cs = []")
    case True
    let ?d = "?fin (dep\<lparr>de_StartCluster := c\<rparr>)"
    have "file_chain s1 [c]" using s1(4) cc(1) geo1 by (intro file_chainI [of _ _ "0xffff"]) (simp_all add: clusters_geo)
    hence "file_ok s1 ?d (cs @ [c])" using cache [of c] nr True by (simp add: file_ok_def fc_setcache_def)
    moreover have "extend_alloc no_errors dep s = Some (Inr (if de_isdir dep then Devblock (cntobn s c) else Fileblock (length cs), c), ?d, s1)"
      using s1(1) st True csm cnt by (simp add: extend_alloc_def Let_def fc_setcache_def)
    ultimately show thesis using that [of ?d s1] s1 True by (simp add: fc_setcache_def)
  next
    case False
    let ?l = "last cs" let ?d = "?fin dep"
    have l: "?l \<in> clusters s1" "ent s1 ?l \<noteq> 0" using e(3,4) False s1(4) cc(3) clusters_geo [OF geo1] by (auto simp: subset_iff)
    have f16: "\<not> FAT12 s1" "fat_wf s1" using wf same_geo_eqs [OF geo1] by simp_all
    have cv: "c \<noteq> 0" "c < 65536" using csm by auto
    obtain s2 where s2: "fatentry no_errors False True ?l c s1 = Some (Inr 0, s2)" "table_only s1 s2" "map_exact s2" "\<forall>d \<in> clusters s1. ent s2 d = (if d = ?l then c else ent s1 d)"
      using fatentry_relink [OF f16(2,1) l cv s1(3), of False] by (metis (full_types))
    note to = table_only_trans [OF s1(2) s2(2)] note geo = table_only_geo [OF this]
    have ent: "\<forall>d \<in> clusters s. ent s2 d = (if d = ?l then c else if d = c then 0xffff else ent s d)" using s2(4) s1(4) clusters_geo [OF geo1] by simp
    obtain xs where xs: "cs = xs @ [?l]" using False by (metis append_butlast_last_id)
    have "chain s2 xs ?l"
    proof -
      have "chain s xs ?l" "?l \<notin> set xs" using e(1,5) xs chain_append [of s xs "[?l]" e] by (metis append_Cons list.sel(1), metis distinct_append list.set_intros(1) disjoint_iff)
      moreover have "\<forall>d \<in> set xs. ent s2 d = ent s d" using ent e(3) cc(3) xs calculation(2) by (metis Un_iff set_append subsetD)
      ultimately show ?thesis using chain_cong [OF geo] by blast
    qed
    hence "chain s2 ((xs @ [?l]) @ [c]) 0xffff" using ent l(1) cc clusters_geo [OF geo] clusters_geo [OF geo1] xs unfolding append.assoc chain_append
      by (metis append_Cons append_Nil chain.simps list.sel(1) last_in_set False)
    hence "file_chain s2 (cs @ [c])" unfolding xs [symmetric] by (rule file_chainI) simp
    moreover have "cache_ok (cs @ [c]) ?d" using cache [of 0] by (simp add: cache_ok_def fc_setcache_def)
    ultimately have "file_ok s2 ?d (cs @ [c])" using nr st False by (simp add: file_ok_def fc_setcache_def)
    moreover have "extend_alloc no_errors dep s = Some (Inr (if de_isdir dep then Devblock (cntobn s c) else Fileblock (length cs), c), ?d, s2)"
    proof -
      have "cntobn s2 = cntobn s" using geo by (simp add: cntobn_def same_geo_def fun_eq_iff)
      moreover have "de_StartCluster dep \<noteq> 0" using st False e(3) cluster_small [OF wf(1), of "hd cs"] by (auto simp: subset_iff)
      moreover have "length cs - 1 + 1 = length cs" using False by (cases cs) auto
      ultimately show ?thesis using s1(1) s2(1) lc False by (simp add: extend_alloc_def Let_def fc_setcache_def)
    qed
    moreover have "\<forall>d \<in> clusters s - set (cs @ [c]). ent s2 d = ent s d" using ent False by auto
    ultimately show thesis using that [of ?d s2] to s2(3) by (simp add: fc_setcache_def)
  qed
qed

text \<open>The cache entry for the last cluster is filled in first.\<close>

lemma extendfile_prepare:
  assumes wf: "fat_wf s" and ok: "file_ok s dep cs"
  obtains dep1 k where "extendfile no_errors dep s = extend_alloc no_errors dep1 (s\<lparr>d_reads := k\<rparr>)" "file_ok s dep1 cs" "dep1 = dep\<lparr>de_fc := de_fc dep1\<rparr>"
    "cs \<noteq> [] \<longrightarrow> fc_frcn (de_fc dep1 ! FC_LASTFC) = length cs - 1 \<and> fc_fsrcn (de_fc dep1 ! FC_LASTFC) = last cs"
proof -
  have co: "cache_ok cs dep" and fc: "file_chain s cs" and st: "de_StartCluster dep = (if cs = [] then 0 else hd cs)" and nr: "\<not> de_isroot dep" using ok by (simp_all add: file_ok_def)
  obtain e where e: "length cs < 0xfff0" "set cs \<subseteq> clusters s" using file_chain_facts [OF wf fc] by metis
  have start: "cs \<noteq> [] \<Longrightarrow> de_StartCluster dep \<noteq> 0" using st e(2) cluster_small [OF wf, of "hd cs"] by (auto simp: subset_iff)
  show thesis
  proof (cases "fc_frcn (de_fc dep ! FC_LASTFC) = FCE_EMPTY \<and> cs \<noteq> []")
    case True
    have le: "\<not> 0xffff < length cs" "length cs \<le> 0xffff" using e(1) by simp_all
    obtain dep1 k where d: "pcbmap no_errors 0xffff dep s = Some (if 0xffff < length cs then Mapped (cntobn s (cs ! 0xffff)) (cs ! 0xffff) else Beyond (length cs), dep1, s\<lparr>d_reads := k\<rparr>)"
        "file_ok s dep1 cs" "dep1 = dep\<lparr>de_fc := de_fc dep1\<rparr>" "length cs \<le> 0xffff \<longrightarrow> fc_frcn (de_fc dep1 ! FC_LASTFC) = length cs - 1 \<and> fc_fsrcn (de_fc dep1 ! FC_LASTFC) = last cs"
      using pcbmap_ok [OF wf ok conjunct2 [OF True]] .
    show thesis by (rule that [of dep1 k]) (use d le nr True start in \<open>simp_all add: extendfile_def\<close>)
  next
    case False
    have "fc_frcn (de_fc dep ! FC_LASTFC) = length cs - 1 \<and> fc_fsrcn (de_fc dep ! FC_LASTFC) = last cs" if ne: "cs \<noteq> []"
    proof -
      have "de_fc dep ! FC_LASTFC \<in> set (de_fc dep)" using co by (simp add: cache_ok_def FC_LASTFC_def)
      hence "fc_frcn (de_fc dep ! FC_LASTFC) + 1 = length cs" "fc_fsrcn (de_fc dep ! FC_LASTFC) = cs ! fc_frcn (de_fc dep ! FC_LASTFC)"
        using co False ne by (auto simp: cache_ok_def)
      moreover from this(1) have "fc_frcn (de_fc dep ! FC_LASTFC) = length cs - 1" by simp
      ultimately show ?thesis using ne by (simp add: last_conv_nth)
    qed
    moreover have "extendfile no_errors dep s = extend_alloc no_errors dep s" using False nr st by (auto simp: extendfile_def)
    ultimately show thesis using that [of dep "d_reads s"] ok by simp
  qed
qed

lemma extendfile_ok:
  assumes wf: "fat_wf s" "\<not> FAT12 s" and me: "map_exact s" and ok: "file_ok s dep cs" and fr: "free_clusters s \<noteq> {}"
  defines "c \<equiv> Min (free_clusters s)"
  obtains dep' s' where "extendfile no_errors dep s = Some (Inr (if de_isdir dep then Devblock (cntobn s c) else Fileblock (length cs), c), dep', s')"
    "table_only s s'" "map_exact s'" "file_ok s' dep' (cs @ [c])" "\<forall>d \<in> clusters s - set (cs @ [c]). ent s' d = ent s d"
proof -
  obtain dep1 k where d: "extendfile no_errors dep s = extend_alloc no_errors dep1 (s\<lparr>d_reads := k\<rparr>)" "file_ok s dep1 cs" "dep1 = dep\<lparr>de_fc := de_fc dep1\<rparr>"
    "cs \<noteq> [] \<longrightarrow> fc_frcn (de_fc dep1 ! FC_LASTFC) = length cs - 1 \<and> fc_fsrcn (de_fc dep1 ! FC_LASTFC) = last cs" using extendfile_prepare [OF wf(1) ok] .
  let ?r = "s\<lparr>d_reads := k\<rparr>"
  have r: "fat_wf ?r" "\<not> FAT12 ?r" "map_exact ?r" "file_ok ?r dep1 cs" "free_clusters ?r \<noteq> {}" using wf me d(2) fr by simp_all
  have dir: "de_isdir dep1 = de_isdir dep" using d(3) by (metis denode.select_convs(3) denode.surjective denode.update_convs(6))
  obtain dep' s' where e: "extend_alloc no_errors dep1 ?r = Some (Inr (if de_isdir dep then Devblock (cntobn s c) else Fileblock (length cs), c), dep', s')"
    "table_only ?r s'" "map_exact s'" "file_ok s' dep' (cs @ [c])" "\<forall>d \<in> clusters s - set (cs @ [c]). ent s' d = ent s d"
    using extend_alloc_ok [OF r d(4)] unfolding dir reads_simps ent_reads c_def by metis
  show thesis using that [OF _ table_only_trans [OF table_only_reads e(2)] e(3,4,5)] d(1) e(1) by simp
qed

lemma extendfile_full:
  assumes wf: "fat_wf s" "\<not> FAT12 s" and me: "map_exact s" and ok: "file_ok s dep cs" and fr: "free_clusters s = {}"
  obtains dep' k where "extendfile no_errors dep s = Some (Inl ENOSPC, dep', s\<lparr>d_reads := k\<rparr>)" "file_ok s dep' cs"
proof -
  obtain dep1 k where d: "extendfile no_errors dep s = extend_alloc no_errors dep1 (s\<lparr>d_reads := k\<rparr>)" "file_ok s dep1 cs" using extendfile_prepare [OF wf(1) ok] .
  let ?r = "s\<lparr>d_reads := k\<rparr>"
  have "fat_wf ?r" "map_exact ?r" "free_clusters ?r = {}" "stored_ent ?r CLUST_EOFE \<noteq> 0" using wf me fr by (simp_all add: stored_ent_def CLUST_EOFE_def)
  hence "clusteralloc no_errors CLUST_EOFE ?r = Some (Inl ENOSPC, ?r)" using clusteralloc_spec [of ?r CLUST_EOFE] by simp
  thus thesis using that [of dep1 k] d by (simp add: extend_alloc_def)
qed

section \<open>Truncation\<close>

lemma purge_cache:
  assumes "cache_ok cs dep"
  shows "cache_ok cs (fc_purge n dep)" and "n \<le> m \<Longrightarrow> e \<in> set (de_fc (fc_purge n dep)) \<Longrightarrow> fc_frcn e = FCE_EMPTY \<or> fc_frcn e < length (take m cs) \<and> fc_fsrcn e = take m cs ! fc_frcn e"
  using cache_ok_two [OF assms] assms by (auto simp: cache_ok_def fc_purge_def FC_LASTFC_def split: if_splits)

text \<open>At most as many cached clusters remain as the first \<open>l\<close> bytes of a file take.\<close>

lemma purge_count: "0 < l \<Longrightarrow> (l + (2 ^ k - 1)) mod 2 ^ 32 div 2 ^ k \<le> (l - 1) div 2 ^ k + (1 :: nat)"
proof -
  assume "0 < l"
  hence "l + (2 ^ k - 1) = (l - 1) + 2 ^ k" by (simp add: algebra_simps)
  moreover have "((l - 1) + 2 ^ k) div 2 ^ k = (l - 1) div 2 ^ k + (1 :: nat)" by (rule div_add_self2) simp
  moreover have "(l + (2 ^ k - 1)) mod 2 ^ 32 div 2 ^ k \<le> (l + (2 ^ k - 1)) div 2 ^ k" by (rule div_le_mono) (rule mod_less_eq_dividend)
  ultimately show ?thesis by presburger
qed

definition zero_fails :: "errno option \<Rightarrow> nat \<Rightarrow> msdosfsmount \<Rightarrow> bool" where
  "zero_fails zero l s = (l mod 2 ^ pm_cnshift s \<noteq> 0 \<and> zero \<noteq> None)"

text \<open>How many clusters of a chain remain.\<close>

definition trunc_keep :: "errno option \<Rightarrow> nat \<Rightarrow> denode \<Rightarrow> nat list \<Rightarrow> msdosfsmount \<Rightarrow> nat" where
  "trunc_keep zero l dep cs s = (if de_FileSize dep \<le> l then length cs else if l = 0 then 0
     else if (l - 1) div 2 ^ pm_cnshift s < length cs \<and> \<not> zero_fails zero l s then (l - 1) div 2 ^ pm_cnshift s + 1 else length cs)"

text \<open>Cutting a chain after one of its clusters.\<close>

lemma chain_cut:
  assumes wf: "fat_wf s" "\<not> FAT12 s" and me: "map_exact s" and fc: "file_chain s cs" and n: "n < length cs"
  obtains s1 s2 where "fatentry no_errors True True (cs ! n) CLUST_EOFE s = Some (Inr (ent s (cs ! n)), s1)"
    "\<And>dep upd. trunc_free no_errors (ent s (cs ! n)) upd dep s1 = Some (upd, dep, s2)"
    "table_only s s2" "map_exact s2" "file_chain s2 (take (n + 1) cs)" "\<forall>d \<in> clusters s - set cs. ent s2 d = ent s d" "\<forall>d \<in> set (drop (n + 1) cs). ent s2 d = 0"
proof -
  obtain e where e: "chain s cs e" "e \<notin> clusters s" "e \<noteq> 0" "MSDOSFSEOF e" "distinct cs" "set cs \<subseteq> clusters s" "\<forall>c \<in> set cs. ent s c \<noteq> 0" using file_chain_facts [OF wf(1) fc] by metis
  let ?c = "cs ! n" let ?t = "drop (n + 1) cs" let ?h = "take n cs"
  have c: "?c \<in> set cs" "?c \<in> clusters s" "ent s ?c \<noteq> 0" using n e(6,7) by auto
  have eof: "CLUST_EOFE \<noteq> 0" "CLUST_EOFE < 65536" by (simp_all add: CLUST_EOFE_def)
  obtain s1 where s1: "fatentry no_errors True True ?c CLUST_EOFE s = Some (Inr (ent s ?c), s1)" "table_only s s1" "map_exact s1"
     "\<forall>d \<in> clusters s. ent s1 d = (if d = ?c then 0xffff else ent s d)"
    using fatentry_relink [OF wf c(2,3) eof me, of True] unfolding CLUST_EOFE_def by (metis (full_types))
  note geo1 = table_only_geo [OF s1(2)]
  have cs: "cs = ?h @ ?c # ?t" using n by (simp add: id_take_nth_drop)
  have ch: "chain s ?h ?c" "chain s ?t e" "ent s ?c = hd (?t @ [e])" using e(1) cs chain_append [of s ?h "?c # ?t" e] by (metis append_Cons chain.simps(2) list.sel(1))+
  have dj: "?c \<notin> set ?h" "?c \<notin> set ?t" "set ?h \<inter> set ?t = {}" using e(5) cs by (metis distinct.simps(2) distinct_append disjoint_iff list.set_intros)+
  have sub: "set ?h \<subseteq> clusters s" "set ?t \<subseteq> clusters s" using e(6) set_take_subset [of n cs] set_drop_subset [of "n + 1" cs] by blast+
  have t1: "chain s1 ?t e" using chain_cong [OF geo1, of ?t e] s1(4) dj(2) sub(2) ch(2) by (metis subsetD)
  have wf1: "fat_wf s1" "e \<notin> clusters s1" using wf e(2) same_geo_eqs(3) [OF geo1] clusters_geo [OF geo1] by simp_all
  obtain s2 where s2: "\<And>dep upd. trunc_free no_errors (ent s ?c) upd dep s1 = Some (upd, dep, s2)" "table_only s1 s2" "map_exact s2"
     "\<forall>d \<in> clusters s1. ent s2 d = (if d \<in> set ?t then 0 else ent s1 d)"
  proof (cases "?t = []")
    case True
    hence "trunc_free no_errors (ent s ?c) upd dep s1 = Some (upd, dep, s1)" for upd dep using ch(3) e(4) by (simp add: trunc_free_def)
    thus ?thesis using that [of s1] s1(3) True by simp
  next
    case False
    hence "ent s ?c \<in> clusters s" using ch(3) sub(2) by (metis hd_append2 hd_in_set subsetD)
    hence "ent s ?c \<noteq> 0 \<and> \<not> MSDOSFSEOF (ent s ?c)" using cluster_small [OF wf(1), of "ent s ?c"] by auto
    moreover obtain s2 where f: "freeclusterchain no_errors (ent s ?c) s1 = Some (None, s2)" "table_only s1 s2"
     "\<forall>d \<in> clusters s1. ent s2 d = (if d \<in> set ?t then 0 else ent s1 d)" "map_exact s1 \<longrightarrow> map_exact s2" using freeclusterchain_exact [OF wf1(1) t1 wf1(2) e(3)] unfolding ch(3) .
    ultimately show ?thesis using that [of s2] s1(3) by (simp add: trunc_free_def)
  qed
  note to = table_only_trans [OF s1(2) s2(2)] note geo = table_only_geo [OF this]
  have ent: "\<forall>d \<in> clusters s. ent s2 d = (if d \<in> set ?t then 0 else if d = ?c then 0xffff else ent s d)" using s1(4) s2(4) clusters_geo [OF geo1] by simp
  have "chain s2 ?h ?c" using chain_cong [OF geo, of ?h ?c] ch(1) ent dj sub(1) by (metis disjoint_iff subsetD)
  hence "chain s2 (?h @ [?c]) 0xffff" using ent c(2) dj(2) clusters_geo [OF geo] by (simp add: chain_append)
  moreover have "take (n + 1) cs = ?h @ [?c]" using n by (simp add: take_Suc_conv_app_nth)
  ultimately have "file_chain s2 (take (n + 1) cs)" by (simp add: file_chainI)
  moreover have "\<forall>d \<in> clusters s - set cs. ent s2 d = ent s d" using ent c(1) set_drop_subset [of "n + 1" cs] by auto
  moreover have "\<forall>d \<in> set ?t. ent s2 d = 0" using ent sub(2) by auto
  ultimately show thesis using that [of s1 s2] s1(1) s2(1,3) to by blast
qed

lemma trunc_tail_eq:
  "trunc_tail zero l dep s = (let d = fc_purge ((l + (2 ^ pm_cnshift s - 1)) mod 2 ^ 32 div 2 ^ pm_cnshift s) dep in
     if zero_fails zero l s then (zero, d) else (None, d\<lparr>de_FileSize := l, de_upd := True\<rparr>))"
  by (simp add: trunc_tail_def zero_fails_def Let_def)

lemma file_ok_fields: "de_StartCluster d' = de_StartCluster d \<Longrightarrow> de_isroot d' = de_isroot d \<Longrightarrow> cache_ok cs d' \<Longrightarrow> file_ok s d cs \<Longrightarrow> file_ok s d' cs"
  by (simp add: file_ok_def)

text \<open>What truncation does: the chain is cut, what is cut off is free, nothing else changes.\<close>

definition cut_to :: "msdosfsmount \<Rightarrow> msdosfsmount \<Rightarrow> nat list \<Rightarrow> nat \<Rightarrow> bool" where
  "cut_to s s' cs n = (table_only s s' \<and> map_exact s' \<and> (\<forall>d \<in> clusters s - set cs. ent s' d = ent s d) \<and> (\<forall>d \<in> set (drop n cs). ent s' d = 0))"

lemma cut_to_reads: "map_exact s \<Longrightarrow> cut_to s (s\<lparr>d_reads := k\<rparr>) cs (length cs)"
  by (simp add: cut_to_def)

lemma detrunc_all:
  assumes wf: "fat_wf s" and me: "map_exact s" and ok: "file_ok s dep cs" and l: "0 < de_FileSize dep"
  obtains dep' s' where "detrunc no_errors zero upd 0 dep s = Some (upd, dep', s')" "file_ok s' dep' []" "cut_to s s' cs 0" "de_FileSize dep' = 0"
proof -
  have co: "cache_ok cs dep" and fc: "file_chain s cs" and st: "de_StartCluster dep = (if cs = [] then 0 else hd cs)" and nr: "\<not> de_isroot dep" using ok by (simp_all add: file_ok_def)
  obtain e where e: "chain s cs e" "e \<notin> clusters s" "e \<noteq> 0" "set cs \<subseteq> clusters s" using file_chain_facts [OF wf fc] by metis
  let ?d = "(fc_purge 0 (dep\<lparr>de_StartCluster := 0\<rparr>))\<lparr>de_FileSize := 0, de_upd := True\<rparr>"
  have "(2 ^ pm_cnshift s - 1) mod 2 ^ 32 < (2 :: nat) ^ pm_cnshift s" using mod_less_eq_dividend [of "2 ^ pm_cnshift s - 1 :: nat" "2 ^ 32"] by (rule le_less_trans) simp
  hence "(2 ^ pm_cnshift s - 1) mod 2 ^ 32 div (2 :: nat) ^ pm_cnshift s = 0" by (rule div_less)
  hence "trunc_tail zero 0 (dep\<lparr>de_StartCluster := 0\<rparr>) s = (None, ?d)" by (simp add: trunc_tail_eq zero_fails_def Let_def)
  hence dt: "detrunc no_errors zero upd 0 dep s = trunc_free no_errors (de_StartCluster dep) upd ?d s" using nr l by (simp add: detrunc_def Let_def)
  have "fc_frcn x = FCE_EMPTY" if "x \<in> set (de_fc ?d)" for x using that purge_cache(2) [OF co, of 0 0 x] by (simp add: fc_purge_def)
  moreover have "length (de_fc ?d) = 2" using co by (simp add: cache_ok_def fc_purge_def)
  ultimately have "cache_ok [] ?d" using nth_mem [of FC_LASTFC "de_fc ?d"] unfolding cache_ok_def FC_LASTFC_def by simp
  hence f: "file_ok t ?d []" for t using nr by (simp add: file_ok_def file_chain_def chain_end_def fc_purge_def)
  obtain s' where s': "trunc_free no_errors (de_StartCluster dep) upd ?d s = Some (upd, ?d, s')" "cut_to s s' cs 0"
  proof (cases "cs = []")
    case True thus ?thesis using that [of s] st me by (simp add: trunc_free_def cut_to_def)
  next
    case False
    hence "hd cs \<in> clusters s" using e(4) by auto
    hence n: "hd cs \<noteq> 0 \<and> \<not> MSDOSFSEOF (hd cs)" using cluster_small [OF wf, of "hd cs"] by auto
    obtain s' where s': "freeclusterchain no_errors (hd (cs @ [e])) s = Some (None, s')" "table_only s s'" "\<forall>c \<in> clusters s. ent s' c = (if c \<in> set cs then 0 else ent s c)"
      "map_exact s \<longrightarrow> map_exact s'" using freeclusterchain_exact [OF wf e(1,2,3)] .
    moreover have "cut_to s s' cs 0" using s' me e(4) by (auto simp: cut_to_def)
    ultimately show ?thesis using that [of s'] n st False by (simp add: trunc_free_def)
  qed
  show thesis by (rule that [OF _ f s'(2)]) (use dt s'(1) in simp_all)
qed

lemma detrunc_part:
  assumes wf: "fat_wf s" "\<not> FAT12 s" and me: "map_exact s" and ok: "file_ok s dep cs" and l: "0 < l" "l < de_FileSize dep" and n: "(l - 1) div 2 ^ pm_cnshift s < length cs"
  obtains dep' s' where "detrunc no_errors zero upd l dep s = Some (if zero_fails zero l s then zero else upd, dep', s')"
    "file_ok s' dep' (take (trunc_keep zero l dep cs s) cs)" "cut_to s s' cs (trunc_keep zero l dep cs s)"
proof -
  let ?n = "(l - 1) div 2 ^ pm_cnshift s" let ?c = "cs ! ?n"
  have ne: "cs \<noteq> []" and nr: "\<not> de_isroot dep" and fc: "file_chain s cs" using n ok by (auto simp: file_ok_def)
  obtain e where e: "length cs < 0xfff0" "set cs \<subseteq> clusters s" using file_chain_facts [OF wf(1) fc] by metis
  obtain d1 k where d1: "pcbmap no_errors ?n dep s = Some (if ?n < length cs then Mapped (cntobn s ?c) ?c else Beyond (length cs), d1, s\<lparr>d_reads := k\<rparr>)"
    "file_ok s d1 cs" "d1 = dep\<lparr>de_fc := de_fc d1\<rparr>" using pcbmap_ok [OF wf(1) ok ne] .
  let ?r = "s\<lparr>d_reads := k\<rparr>" let ?k = "(l + (2 ^ pm_cnshift s - 1)) mod 2 ^ 32 div 2 ^ pm_cnshift s" let ?p = "fc_purge ?k d1"
  have co: "cache_ok cs d1" using d1(2) by (simp add: file_ok_def)
  have pc: "?k \<le> ?n + 1" by (rule purge_count [OF l(1)])
  have tt: "trunc_tail zero l d1 ?r = (if zero_fails zero l s then (zero, ?p) else (None, ?p\<lparr>de_FileSize := l, de_upd := True\<rparr>))"
  proof -
    have "pm_cnshift ?r = pm_cnshift s" by simp
    thus ?thesis unfolding trunc_tail_eq Let_def zero_fails_def by simp
  qed
  show thesis
  proof (cases "zero_fails zero l s")
    case True
    then obtain z where z: "zero = Some z" by (auto simp: zero_fails_def)
    have "file_ok s ?p cs" using file_ok_fields [OF _ _ purge_cache(1) [OF co] d1(2)] by (simp add: fc_purge_def)
    moreover have "detrunc no_errors zero upd l dep s = Some (zero, ?p, ?r)" using d1(1) n tt True z nr l by (simp add: detrunc_def Let_def)
    moreover have "trunc_keep zero l dep cs s = length cs" using True l by (simp add: trunc_keep_def)
    ultimately show thesis using that [of ?p ?r] True cut_to_reads [OF me] by simp
  next
    case False
    let ?q = "?p\<lparr>de_FileSize := l, de_upd := True\<rparr>" let ?d = "fc_setcache FC_LASTFC ?n ?c ?q" let ?t = "take (?n + 1) cs"
    have r: "fat_wf ?r" "\<not> FAT12 ?r" "map_exact ?r" "file_chain ?r cs" using wf me fc file_chain_cong [of s ?r cs] by simp_all
    obtain s1 s2 where s: "fatentry no_errors True True ?c CLUST_EOFE ?r = Some (Inr (ent ?r ?c), s1)" "\<And>dep upd. trunc_free no_errors (ent ?r ?c) upd dep s1 = Some (upd, dep, s2)"
      "table_only ?r s2" "map_exact s2" "file_chain s2 ?t" "\<forall>d \<in> clusters ?r - set cs. ent s2 d = ent ?r d" "\<forall>d \<in> set (drop (?n + 1) cs). ent s2 d = 0"
      using chain_cut [OF r n] by metis
    have lt: "?t \<noteq> []" "length ?t = ?n + 1" "last ?t = ?c" using n ne by (simp_all add: take_Suc_conv_app_nth)
    have "?c \<in> clusters s" using e(2) n by auto
    hence "last ?t < 65536" using cluster_small [OF wf(1)] lt(3) by fastforce
    hence "cache_ok ?t ?d" using setcache_last(1) [OF _ lt(1), of cs ?q] purge_cache(1) [OF co, where n = ?k] purge_cache(2) [OF co pc] lt e(1) n by (simp add: cache_ok_def [of cs])
    moreover have "de_StartCluster d1 = hd cs" "\<not> de_isroot d1" using d1(2) ne by (simp_all add: file_ok_def)
    moreover have "hd ?t = hd cs" using ne by (cases cs) simp_all
    ultimately have "file_ok s2 ?d ?t" using s(5) lt(1) by (simp add: file_ok_def fc_setcache_def fc_purge_def)
    moreover have "detrunc no_errors zero upd l dep s = Some (upd, ?d, s2)" using d1(1) n tt False nr l s(1,2) by (simp add: detrunc_def Let_def)
    moreover have "trunc_keep zero l dep cs s = ?n + 1" using False l n by (simp add: trunc_keep_def)
    moreover have "cut_to s s2 cs (?n + 1)" using s(3,4,6,7) table_only_trans [OF table_only_reads s(3)] by (simp add: cut_to_def)
    ultimately show thesis using that [of ?d s2] False by simp
  qed
qed

lemma detrunc_beyond:
  assumes wf: "fat_wf s" and me: "map_exact s" and ok: "file_ok s dep cs" and l: "0 < l" "l < de_FileSize dep" and n: "length cs \<le> (l - 1) div 2 ^ pm_cnshift s"
  obtains r dep' k where "detrunc no_errors zero upd l dep s = Some (r, dep', s\<lparr>d_reads := k\<rparr>)" "file_ok s dep' cs" "de_isdir dep \<longrightarrow> cs \<noteq> [] \<Longrightarrow> r = Some E2BIG"
proof -
  let ?n = "(l - 1) div 2 ^ pm_cnshift s"
  have nr: "\<not> de_isroot dep" and st: "de_StartCluster dep = (if cs = [] then 0 else hd cs)" and co: "cache_ok cs dep" using ok by (simp_all add: file_ok_def)
  show thesis
  proof (cases "cs = []")
    case False
    obtain d1 k where d1: "pcbmap no_errors ?n dep s = Some (if ?n < length cs then Mapped (cntobn s (cs ! ?n)) (cs ! ?n) else Beyond (length cs), d1, s\<lparr>d_reads := k\<rparr>)"
      "file_ok s d1 cs" using pcbmap_ok [OF wf ok False] by metis
    hence "detrunc no_errors zero upd l dep s = Some (Some E2BIG, d1, s\<lparr>d_reads := k\<rparr>)" using n nr l by (simp add: detrunc_def Let_def)
    thus thesis using that d1(2) by blast
  next
    case True
    have e: "s\<lparr>d_reads := d_reads s\<rparr> = s" by simp
    let ?p = "fc_purge ((l + (2 ^ pm_cnshift s - 1)) mod 2 ^ 32 div 2 ^ pm_cnshift s) dep"
    have p: "file_ok s ?p cs" "file_ok s (?p\<lparr>de_FileSize := l, de_upd := True\<rparr>) cs"
      using file_ok_fields [OF _ _ purge_cache(1) [OF co] ok] by (simp_all add: fc_purge_def file_ok_def cache_ok_def)
    show thesis
    proof (cases "de_isdir dep \<and> ?n * pm_SectPerClust s \<le> pm_rootdirsize s")
      case dir: True
      hence m: "pcbmap no_errors ?n dep s = Some (Mapped (pm_rootdirblk s + ?n * pm_SectPerClust s) MSDOSFSROOT, dep, s)"
        using st True by (simp add: pcbmap_def MSDOSFSROOT_def)
      show thesis
      proof (cases "zero_fails zero l s")
        case z: True
        then obtain x where x: "zero = Some x" by (auto simp: zero_fails_def)
        have "detrunc no_errors zero upd l dep s = Some (zero, ?p, s\<lparr>d_reads := d_reads s\<rparr>)" using m nr l z x by (simp add: detrunc_def Let_def trunc_tail_eq)
        thus thesis by (rule that [OF _ p(1)]) (use dir True in simp)
      next
        case z: False
        have "fatentry no_errors True True MSDOSFSROOT CLUST_EOFE s = Some (Inl EINVAL, s)" by (simp add: fatentry_def MSDOSFSROOT_def CLUST_FIRST_def)
        hence "detrunc no_errors zero upd l dep s = Some (Some EINVAL, ?p\<lparr>de_FileSize := l, de_upd := True\<rparr>, s\<lparr>d_reads := d_reads s\<rparr>)" using m nr l z by (simp add: detrunc_def Let_def trunc_tail_eq)
        thus thesis by (rule that [OF _ p(2)]) (use dir True in simp)
      qed
    next
      case dir: False
      hence "\<exists>x. pcbmap no_errors ?n dep s = Some (Beyond x, dep, s)" using st True by (auto simp: pcbmap_def MSDOSFSROOT_def)
      then obtain x where "pcbmap no_errors ?n dep s = Some (Beyond x, dep, s)" ..
      hence "detrunc no_errors zero upd l dep s = Some (Some E2BIG, dep, s\<lparr>d_reads := d_reads s\<rparr>)" using nr l by (simp add: detrunc_def Let_def)
      thus thesis using that ok by blast
    qed
  qed
qed

definition trunc_result :: "errno option \<Rightarrow> errno option \<Rightarrow> nat \<Rightarrow> denode \<Rightarrow> nat list \<Rightarrow> msdosfsmount \<Rightarrow> errno option" where
  "trunc_result zero upd l dep cs s = (if de_FileSize dep \<le> l \<or> l = 0 then upd else if (l - 1) div 2 ^ pm_cnshift s < length cs then (if zero_fails zero l s then zero else upd) else Some E2BIG)"

lemma detrunc_ok:
  assumes wf: "fat_wf s" "\<not> FAT12 s" and me: "map_exact s" and ok: "file_ok s dep cs"
  obtains r dep' s' where "detrunc no_errors zero upd l dep s = Some (r, dep', s')" "file_ok s' dep' (take (trunc_keep zero l dep cs s) cs)" "cut_to s s' cs (trunc_keep zero l dep cs s)"
    "de_isdir dep \<longrightarrow> cs \<noteq> [] \<Longrightarrow> r = trunc_result zero upd l dep cs s"
proof -
  consider (grow) "de_FileSize dep \<le> l" | (all) "l = 0" "0 < de_FileSize dep" | (part) "0 < l" "l < de_FileSize dep" "(l - 1) div 2 ^ pm_cnshift s < length cs"
    | (beyond) "0 < l" "l < de_FileSize dep" "length cs \<le> (l - 1) div 2 ^ pm_cnshift s" by linarith
  thus thesis
  proof cases
    case grow
    have "detrunc no_errors zero upd l dep s = Some (upd, dep\<lparr>de_upd := True\<rparr>, s)" using grow ok by (simp add: detrunc_def file_ok_def)
    moreover have "file_ok s (dep\<lparr>de_upd := True\<rparr>) cs" using ok by (simp add: file_ok_def cache_ok_def)
    moreover have "cut_to s s cs (length cs)" using me by (simp add: cut_to_def)
    ultimately show thesis using that grow by (simp add: trunc_keep_def trunc_result_def)
  next
    case all
    obtain dep' s' where "detrunc no_errors zero upd 0 dep s = Some (upd, dep', s')" "file_ok s' dep' []" "cut_to s s' cs 0" using detrunc_all [OF wf(1) me ok all(2)] by metis
    thus thesis using that all by (simp add: trunc_keep_def trunc_result_def)
  next
    case part
    obtain dep' s' where d: "detrunc no_errors zero upd l dep s = Some (if zero_fails zero l s then zero else upd, dep', s')"
      "file_ok s' dep' (take (trunc_keep zero l dep cs s) cs)" "cut_to s s' cs (trunc_keep zero l dep cs s)" using detrunc_part [OF wf me ok part] .
    show thesis by (rule that [OF d]) (use part in \<open>simp add: trunc_result_def\<close>)
  next
    case beyond
    obtain r dep' k where d: "detrunc no_errors zero upd l dep s = Some (r, dep', s\<lparr>d_reads := k\<rparr>)" "file_ok s dep' cs" "de_isdir dep \<longrightarrow> cs \<noteq> [] \<Longrightarrow> r = Some E2BIG"
      using detrunc_beyond [OF wf(1) me ok beyond] by metis
    have t: "trunc_keep zero l dep cs s = length cs" "trunc_result zero upd l dep cs s = Some E2BIG" using beyond by (simp_all add: trunc_keep_def trunc_result_def)
    show thesis by (rule that [OF d(1)]) (use d t cut_to_reads [OF me] in simp_all)
  qed
qed

section \<open>All files\<close>

definition files_ok :: "msdosfsmount \<Rightarrow> denode list \<Rightarrow> nat list list \<Rightarrow> bool" where
  "files_ok s ds css = (length css = length ds \<and> (\<forall>i < length ds. file_ok s (ds ! i) (css ! i)) \<and>
     (\<forall>i < length ds. \<forall>j < length ds. i \<noteq> j \<longrightarrow> set (css ! i) \<inter> set (css ! j) = {}))"

definition fs_ok :: "msdosfsmount \<Rightarrow> denode list \<Rightarrow> nat list list \<Rightarrow> bool" where
  "fs_ok s ds css = (fat_wf s \<and> \<not> FAT12 s \<and> map_exact s \<and> files_ok s ds css)"

text \<open>One file changes, within its old and new clusters.\<close>

lemma fs_ok_update:
  assumes ok: "fs_ok s ds css" and i: "i < length ds" and to: "table_only s s'" and me: "map_exact s'" and f: "file_ok s' d' cs'"
    and same: "\<forall>d \<in> clusters s - set (css ! i) - set cs'. ent s' d = ent s d" and sub: "set cs' \<subseteq> set (css ! i) \<union> free_clusters s"
  shows "fs_ok s' (ds[i := d']) (css[i := cs'])"
proof -
  note geo = table_only_geo [OF to]
  have wf: "fat_wf s" and fo: "files_ok s ds css" using ok by (simp_all add: fs_ok_def)
  have len: "length css = length ds" using fo by (simp add: files_ok_def)
  have other: "set (css ! j) \<inter> set cs' = {} \<and> file_ok s' (ds ! j) (css ! j)" if j: "j < length ds" "j \<noteq> i" for j
  proof -
    have fj: "file_ok s (ds ! j) (css ! j)" and dj: "set (css ! j) \<inter> set (css ! i) = {}" using fo j i by (simp_all add: files_ok_def)
    have "file_chain s (css ! j)" using fj by (simp add: file_ok_def)
    hence cj: "set (css ! j) \<subseteq> clusters s" "\<forall>c \<in> set (css ! j). ent s c \<noteq> 0" using file_chain_facts [OF wf] by metis+
    have d2: "set (css ! j) \<inter> set cs' = {}" using sub dj cj(2) unfolding free_clusters_def by blast
    hence "\<forall>c \<in> set (css ! j). ent s' c = ent s c" using same cj(1) dj by blast
    thus ?thesis using d2 fj file_ok_cong [OF geo] by blast
  qed
  have "file_ok s' (ds[i := d'] ! j) (css[i := cs'] ! j)" if "j < length ds" for j using that other f i len by (cases "j = i") auto
  moreover have "set (css[i := cs'] ! j) \<inter> set (css[i := cs'] ! k) = {}" if "j < length ds" "k < length ds" "j \<noteq> k" for j k
    using that other [of j] other [of k] fo len by (cases "j = i"; cases "k = i") (auto simp: files_ok_def)
  ultimately have "files_ok s' (ds[i := d']) (css[i := cs'])" using len by (simp add: files_ok_def)
  thus ?thesis using ok me same_geo_eqs(1,3) [OF geo] by (simp add: fs_ok_def)
qed

lemma fs_file: "fs_ok s ds css \<Longrightarrow> i < length ds \<Longrightarrow> file_ok s (ds ! i) (css ! i)"
  by (simp add: fs_ok_def files_ok_def)

lemma fs_used: "fs_ok s ds css \<Longrightarrow> i < length ds \<Longrightarrow> c \<in> set (css ! i) \<Longrightarrow> c \<in> clusters s \<and> ent s c \<noteq> 0"
  using fs_file [of s ds css i] file_chain_facts [of s "css ! i"] by (metis file_ok_def fs_ok_def subsetD)

lemma fs_extend:
  assumes ok: "fs_ok s ds css" and i: "i < length ds" and fr: "free_clusters s \<noteq> {}"
  defines "c \<equiv> Min (free_clusters s)"
  obtains d' s' where "extendfile no_errors (ds ! i) s = Some (Inr (if de_isdir (ds ! i) then Devblock (cntobn s c) else Fileblock (length (css ! i)), c), d', s')"
    "fs_ok s' (ds[i := d']) (css[i := css ! i @ [c]])" "free_clusters s' = free_clusters s - {c}"
proof -
  let ?cs = "css ! i"
  have p: "fat_wf s" "\<not> FAT12 s" "map_exact s" using ok by (simp_all add: fs_ok_def)
  obtain d' s' where e: "extendfile no_errors (ds ! i) s = Some (Inr (if de_isdir (ds ! i) then Devblock (cntobn s c) else Fileblock (length ?cs), c), d', s')"
    "table_only s s'" "map_exact s'" "file_ok s' d' (?cs @ [c])" "\<forall>d \<in> clusters s - set (?cs @ [c]). ent s' d = ent s d"
    using extendfile_ok [OF p fs_file [OF ok i] fr] unfolding c_def .
  have c: "c \<in> free_clusters s" unfolding c_def by (rule Min_in [OF free_finite fr])
  have o: "fs_ok s' (ds[i := d']) (css[i := ?cs @ [c]])" by (rule fs_ok_update [OF ok i e(2,3,4)]) (use e(5) c in auto)
  have len: "length css = length ds" using ok by (simp add: fs_ok_def files_ok_def)
  have used: "x \<in> set (?cs @ [c]) \<Longrightarrow> ent s' x \<noteq> 0" for x using fs_used [OF o, of i x] i len by simp
  have "x \<in> free_clusters s' \<longleftrightarrow> x \<in> free_clusters s - {c}" for x
    unfolding free_iff [OF table_only_geo [OF e(2)]] using used [of x] e(5) fs_used [OF ok i, of x] by (cases "x \<in> set (?cs @ [c])") (auto simp: free_clusters_def)
  thus thesis using that e(1) o by blast
qed

lemma fs_extend_full:
  assumes ok: "fs_ok s ds css" and i: "i < length ds" and fr: "free_clusters s = {}"
  obtains d' s' where "extendfile no_errors (ds ! i) s = Some (Inl ENOSPC, d', s')" "fs_ok s' (ds[i := d']) css" "free_clusters s' = {}"
proof -
  have p: "fat_wf s" "\<not> FAT12 s" "map_exact s" using ok by (simp_all add: fs_ok_def)
  obtain d' k where e: "extendfile no_errors (ds ! i) s = Some (Inl ENOSPC, d', s\<lparr>d_reads := k\<rparr>)" "file_ok s d' (css ! i)" using extendfile_full [OF p fs_file [OF ok i] fr] .
  have "fs_ok (s\<lparr>d_reads := k\<rparr>) (ds[i := d']) (css[i := css ! i])" by (rule fs_ok_update [OF ok i]) (use e(2) p in auto)
  thus thesis using that e(1) fr by simp
qed

lemma fs_trunc:
  fixes zero :: "errno option" and l :: nat
  assumes ok: "fs_ok s ds css" and i: "i < length ds"
  defines "n \<equiv> trunc_keep zero l (ds ! i) (css ! i) s"
  obtains r d' s' where "detrunc no_errors zero upd l (ds ! i) s = Some (r, d', s')" "fs_ok s' (ds[i := d']) (css[i := take n (css ! i)])"
    "free_clusters s' = free_clusters s \<union> set (drop n (css ! i))" "de_isdir (ds ! i) \<longrightarrow> css ! i \<noteq> [] \<Longrightarrow> r = trunc_result zero upd l (ds ! i) (css ! i) s"
proof -
  let ?cs = "css ! i"
  have p: "fat_wf s" "\<not> FAT12 s" "map_exact s" using ok by (simp_all add: fs_ok_def)
  obtain r d' s' where e: "detrunc no_errors zero upd l (ds ! i) s = Some (r, d', s')" "file_ok s' d' (take n ?cs)" "cut_to s s' ?cs n"
    "de_isdir (ds ! i) \<longrightarrow> ?cs \<noteq> [] \<Longrightarrow> r = trunc_result zero upd l (ds ! i) ?cs s" using detrunc_ok [OF p fs_file [OF ok i]] unfolding n_def by metis
  have to: "table_only s s'" and me: "map_exact s'" and same: "\<forall>d \<in> clusters s - set ?cs. ent s' d = ent s d" and z: "\<forall>d \<in> set (drop n ?cs). ent s' d = 0"
    using e(3) by (simp_all add: cut_to_def)
  have sp: "set ?cs = set (take n ?cs) \<union> set (drop n ?cs)" by (metis append_take_drop_id set_append)
  have o: "fs_ok s' (ds[i := d']) (css[i := take n ?cs])" by (rule fs_ok_update [OF ok i to me e(2)]) (use same sp in auto)
  have len: "length css = length ds" using ok by (simp add: fs_ok_def files_ok_def)
  have used: "x \<in> set (take n ?cs) \<Longrightarrow> ent s' x \<noteq> 0" for x using fs_used [OF o, of i x] i len by simp
  have "x \<in> free_clusters s' \<longleftrightarrow> x \<in> free_clusters s \<union> set (drop n ?cs)" for x
    unfolding free_iff [OF table_only_geo [OF to]] using used [of x] z same sp fs_used [OF ok i, of x] by (cases "x \<in> set ?cs") (auto simp: free_clusters_def)
  thus thesis using that e(1,4) o by blast
qed

lemma fs_map:
  assumes ok: "fs_ok s ds css" and i: "i < length ds" and r: "pcbmap no_errors n (ds ! i) s = Some (r, d', s')"
  shows "fs_ok s' (ds[i := d']) css"
proof (cases "css ! i = []")
  case True
  hence "de_StartCluster (ds ! i) = 0" using fs_file [OF ok i] by (simp add: file_ok_def)
  hence "d' = ds ! i" "s' = s" using r by (auto simp: pcbmap_def MSDOSFSROOT_def split: if_splits)
  thus ?thesis using ok by simp
next
  case False
  have wf: "fat_wf s" "map_exact s" using ok by (simp_all add: fs_ok_def)
  obtain k where k: "file_ok s d' (css ! i)" "s' = s\<lparr>d_reads := k\<rparr>" using pcbmap_ok [OF wf(1) fs_file [OF ok i] False, of n] r by (metis Pair_inject option.inject)
  have "fs_ok (s\<lparr>d_reads := k\<rparr>) (ds[i := d']) (css[i := css ! i])" by (rule fs_ok_update [OF ok i]) (use k(1) wf in auto)
  thus ?thesis using k(2) by simp
qed

section \<open>Sequences of operations\<close>

text \<open>
  A disk is mounted, its files have chains that end and share no cluster. Then files are read, extended, truncated and created; the size in the directory
  entry is set by the callers and may be anything.
\<close>

definition fat_init :: "msdosfsmount \<times> denode list \<Rightarrow> bool" where
  "fat_init = (\<lambda>(s, ds). fat_wf s \<and> \<not> FAT12 s \<and> (\<exists>b ronly sync bytes. mount_fat no_errors b ronly sync bytes = Some (Inr s)) \<and> (\<exists>css. files_ok s ds css))"

definition empty_cache :: "fatcache list" where
  "empty_cache = replicate 2 \<lparr>fc_frcn = FCE_EMPTY, fc_fsrcn = 0\<rparr>"

inductive fat_step :: "msdosfsmount \<times> denode list \<Rightarrow> msdosfsmount \<times> denode list \<Rightarrow> bool" where
  fat_map: "i < length ds \<Longrightarrow> pcbmap no_errors n (ds ! i) s = Some (r, d', s') \<Longrightarrow> fat_step (s, ds) (s', ds[i := d'])"
| fat_extend: "i < length ds \<Longrightarrow> extendfile no_errors (ds ! i) s = Some (r', d', s') \<Longrightarrow> fat_step (s, ds) (s', ds[i := d'])"
| fat_trunc: "i < length ds \<Longrightarrow> detrunc no_errors zero upd l (ds ! i) s = Some (r'', d', s') \<Longrightarrow> fat_step (s, ds) (s', ds[i := d'])"
| fat_size: "i < length ds \<Longrightarrow> fat_step (s, ds) (s, ds[i := (ds ! i)\<lparr>de_FileSize := l, de_upd := u\<rparr>])"
| fat_create: "de_StartCluster d = 0 \<Longrightarrow> \<not> de_isroot d \<Longrightarrow> de_fc d = empty_cache \<Longrightarrow> fat_step (s, ds) (s, ds @ [d])"

definition fat_inv :: "msdosfsmount \<times> denode list \<Rightarrow> bool" where
  "fat_inv = (\<lambda>(s, ds). \<exists>css. fs_ok s ds css)"

lemma empty_file_ok: "de_StartCluster d = 0 \<Longrightarrow> \<not> de_isroot d \<Longrightarrow> de_fc d = empty_cache \<Longrightarrow> file_ok s d []"
  by (simp add: file_ok_def file_chain_def chain_end_def cache_ok_def empty_cache_def FC_LASTFC_def)

lemma fs_size:
  assumes ok: "fs_ok s ds css" and i: "i < length ds"
  shows "fs_ok s (ds[i := (ds ! i)\<lparr>de_FileSize := l, de_upd := u\<rparr>]) css"
proof -
  have "file_ok s ((ds ! i)\<lparr>de_FileSize := l, de_upd := u\<rparr>) (css ! i)" using fs_file [OF ok i] by (simp add: file_ok_def cache_ok_def)
  hence "fs_ok s (ds[i := (ds ! i)\<lparr>de_FileSize := l, de_upd := u\<rparr>]) (css[i := css ! i])" using ok by (intro fs_ok_update [OF ok i]) (auto simp: fs_ok_def)
  thus ?thesis by simp
qed

lemma fs_create:
  assumes ok: "fs_ok s ds css" and d: "file_ok s d []"
  shows "fs_ok s (ds @ [d]) (css @ [[]])"
proof -
  have f: "files_ok s ds css" and len: "length css = length ds" using ok by (simp_all add: fs_ok_def files_ok_def)
  have "file_ok s ((ds @ [d]) ! i) ((css @ [[]]) ! i)" if "i < length ds + 1" for i
    using that f d len by (cases "i = length ds") (simp_all add: nth_append files_ok_def)
  moreover have "set ((css @ [[]]) ! i) \<inter> set ((css @ [[]]) ! j) = {}" if "i < length ds + 1" "j < length ds + 1" "i \<noteq> j" for i j
    using that f len by (cases "i = length ds"; cases "j = length ds") (simp_all add: nth_append files_ok_def)
  ultimately have "files_ok s (ds @ [d]) (css @ [[]])" using len by (simp add: files_ok_def)
  thus ?thesis using ok by (simp add: fs_ok_def)
qed

lemma fat_inv_step:
  assumes "fs_ok s ds css" and "fat_step (s, ds) t"
  shows "fat_inv t"
  using assms(2)
proof cases
  case (fat_map i n r d' s')
  thus ?thesis using fs_map [OF assms(1) fat_map(2,3)] by (auto simp: fat_inv_def)
next
  case (fat_extend i r' d' s')
  show ?thesis
  proof (cases "free_clusters s = {}")
    case True
    then obtain d2 s2 where "extendfile no_errors (ds ! i) s = Some (Inl ENOSPC, d2, s2)" "fs_ok s2 (ds[i := d2]) css" using fs_extend_full [OF assms(1) fat_extend(2)] by metis
    thus ?thesis using fat_extend by (auto simp: fat_inv_def)
  next
    case False
    obtain r2 d2 s2 css2 where "extendfile no_errors (ds ! i) s = Some (Inr r2, d2, s2)" "fs_ok s2 (ds[i := d2]) css2" using fs_extend [OF assms(1) fat_extend(2) False] by metis
    thus ?thesis using fat_extend by (auto simp: fat_inv_def)
  qed
next
  case (fat_trunc i zero upd l r'' d' s')
  obtain r2 d2 s2 css2 where "detrunc no_errors zero upd l (ds ! i) s = Some (r2, d2, s2)" "fs_ok s2 (ds[i := d2]) css2" using fs_trunc [OF assms(1) fat_trunc(2)] by metis
  thus ?thesis using fat_trunc by (auto simp: fat_inv_def)
next
  case (fat_size i l u)
  thus ?thesis using fs_size [OF assms(1) fat_size(2)] by (auto simp: fat_inv_def)
next
  case (fat_create d)
  thus ?thesis using fs_create [OF assms(1) empty_file_ok [OF fat_create(2,3,4)]] by (auto simp: fat_inv_def)
qed

interpretation fat: invariant_system fat_init fat_step fat_inv
proof (unfold_locales, goal_cases)
  case (1 x)
  obtain s ds where x: "x = (s, ds)" by (cases x)
  from 1 obtain b ronly sync bytes css where m: "mount_fat no_errors b ronly sync bytes = Some (Inr s)" "fat_wf s" "\<not> FAT12 s" "files_ok s ds css"
    by (auto simp: x fat_init_def)
  have "map_exact s" using mount_map_exact [OF m(1,2)] by simp
  thus ?case using m by (auto simp: x fat_inv_def fs_ok_def)
next
  case (2 x t) thus ?case using fat_inv_step by (auto simp: fat_inv_def)
qed

section \<open>Properties\<close>

text \<open>A mounted disk with a file of two clusters.\<close>

definition ex_fat_bytes :: "nat \<Rightarrow> u8" where
  "ex_fat_bytes = (\<lambda>_. 0)(516 := 3, 518 := 0xff, 519 := 0xff)"

definition ex_mounted :: msdosfsmount where
  "ex_mounted = projr (the (mount_fat no_errors ex_bpb False False ex_fat_bytes))"

definition ex_fat_file :: denode where
  "ex_fat_file = \<lparr>de_StartCluster = 2, de_FileSize = 1024, de_isdir = False, de_isroot = False, de_upd = False, de_fc = empty_cache\<rparr>"

lemma ex_mounted_ok: "fs_ok ex_mounted [ex_fat_file] [[2, 3]]" "fat_init (ex_mounted, [ex_fat_file])"
proof -
  let ?g = "mount_geometry ex_bpb 9 ex_fat_bytes"
  have geo: "same_geo ex16 ?g" by (simp add: same_geo_def ex16_def mount_geometry_def Let_def)
  have w: "fat_wf ?g" "1 \<le> pm_maxcluster ?g" using ex16_wf same_geo_eqs [OF geo] by simp_all
  obtain s where s: "fillinusemap no_errors ?g = Some (None, s)" "same_geo ?g s" "d_bytes s = d_bytes ?g" using fillinusemap_ok [OF w] by metis
  let ?m = "s\<lparr>pm_waitonfat := False, pm_fmod := 1\<rparr>"
  have sh: "mount_shift 512 = Inr 9" by code_simp
  have mf: "mount_fat no_errors ex_bpb False False ex_fat_bytes = Some (Inr ?m)" using s(1) sh by (simp add: mount_fat_def ex_bpb_def)
  hence m: "ex_mounted = ?m" by (simp add: ex_mounted_def)
  have "same_geo ?g ?m" using s(2) by (simp add: same_geo_def mount_geometry_def Let_def)
  hence geo': "same_geo ex16 ?m" using geo same_geo_trans by blast
  have g: "fat_wf ?m" "\<not> FAT12 ?m" using ex16_wf same_geo_eqs(1,3) [OF geo'] by simp_all
  have me: "map_exact ?m" "d_bytes ?m = ex_fat_bytes" using mount_map_exact [OF mf g(1)] by simp_all
  have k: "pm_fatblk ?m = 1" using geo' by (simp add: same_geo_def ex16_def ex_bpb_def mount_geometry_def Let_def)
  have "fword ?m 4 = 3" "fword ?m 6 = 0xffff" unfolding fword_def fbyte_def k me(2) by (simp_all add: ex_fat_bytes_def)
  hence e: "ent ?m 2 = 3" "ent ?m 3 = 0xffff" using g(2) by (simp_all add: ent_def fat_get_def FATOFS_def)
  have "clusters ?m = {2..5000}" using clusters_geo [OF geo'] ex16_wf by (simp add: clusters_def CLUST_FIRST_def)
  hence "file_chain ?m [2, 3]" using e by (simp add: file_chain_def chain_end_def)
  hence f: "files_ok ?m [ex_fat_file] [[2, 3]]" by (simp add: files_ok_def file_ok_def ex_fat_file_def cache_ok_def empty_cache_def FC_LASTFC_def)
  show "fs_ok ex_mounted [ex_fat_file] [[2, 3]]" unfolding fs_ok_def m using g f me(1) by blast
  show "fat_init (ex_mounted, [ex_fat_file])" unfolding fat_init_def m prod.case using g f mf by blast
qed

text \<open>
  Property C31. After any sequence of reads, extensions, truncations and creations of files on a mounted disk with a table of 16 bits, every file has a
  chain of clusters that ends, no cluster is in two files, every cluster of a file is marked in use, the map, the count of free clusters and
  \<^verbatim>\<open>pm_lookhere\<close> agree with the table, and the cached clusters of every file are right.
\<close>

theorem fat_chains_apart:
  assumes "reach fat_init fat_step (s, ds)"
  shows "\<exists>css. files_ok s ds css \<and> map_exact s \<and> (\<forall>i < length ds. \<forall>c \<in> set (css ! i). inuse s c)"
proof -
  obtain css where ok: "fs_ok s ds css" using fat.reach_inv [OF assms] by (auto simp: fat_inv_def)
  have "inuse s c" if "i < length ds" "c \<in> set (css ! i)" for i c
    using fs_used [OF ok that] ok cluster_in_map [of c s] by (auto simp: fs_ok_def map_exact_def free_clusters_def clusters_iff)
  thus ?thesis using ok by (auto simp: fs_ok_def)
qed

theorem fat_chains_apart_witness:
  "reach fat_init fat_step (ex_mounted, [ex_fat_file]) \<and> (\<exists>css. files_ok ex_mounted [ex_fat_file] css \<and> map_exact ex_mounted \<and> (\<forall>i < length [ex_fat_file]. \<forall>c \<in> set (css ! i). inuse ex_mounted c))"
proof -
  have r: "reach fat_init fat_step (ex_mounted, [ex_fat_file])" using ex_mounted_ok(2) by (rule reach_init)
  show ?thesis using r fat_chains_apart [OF r] by blast
qed

text \<open>What extension and truncation are: operations on the set of free clusters and the chains of the files.\<close>

definition spec_extend :: "nat \<Rightarrow> nat set \<times> nat list list \<Rightarrow> nat set \<times> nat list list" where
  "spec_extend i = (\<lambda>(F, css). if F = {} then (F, css) else (F - {Min F}, css[i := css ! i @ [Min F]]))"

definition spec_trunc :: "nat \<Rightarrow> nat \<Rightarrow> nat set \<times> nat list list \<Rightarrow> nat set \<times> nat list list" where
  "spec_trunc i n = (\<lambda>(F, css). (F \<union> set (drop n (css ! i)), css[i := take n (css ! i)]))"

text \<open>
  Property C32. With a table of 16 bits and no read errors \<^verbatim>\<open>extendfile\<close> appends the lowest free cluster to the chain of the file and changes no other chain; it returns the
  cluster and the block to be cleared, and fails, with \<^verbatim>\<open>ENOSPC\<close> and without a change, exactly when no cluster is free.
\<close>

theorem extendfile_refines:
  assumes "fs_ok s ds css" and "i < length ds"
  shows "\<exists>r d' s'. extendfile no_errors (ds ! i) s = Some (r, d', s') \<and>
     (case spec_extend i (free_clusters s, css) of (F, css') \<Rightarrow> fs_ok s' (ds[i := d']) css' \<and> free_clusters s' = F) \<and>
     (let c = Min (free_clusters s) in r = (if free_clusters s = {} then Inl ENOSPC else Inr (if de_isdir (ds ! i) then Devblock (cntobn s c) else Fileblock (length (css ! i)), c)))"
proof (cases "free_clusters s = {}")
  case True
  obtain d' s' where "extendfile no_errors (ds ! i) s = Some (Inl ENOSPC, d', s')" "fs_ok s' (ds[i := d']) css" "free_clusters s' = {}" using fs_extend_full [OF assms True] .
  thus ?thesis using True by (simp add: spec_extend_def)
next
  case False
  let ?c = "Min (free_clusters s)"
  obtain d' s' where "extendfile no_errors (ds ! i) s = Some (Inr (if de_isdir (ds ! i) then Devblock (cntobn s ?c) else Fileblock (length (css ! i)), ?c), d', s')"
    "fs_ok s' (ds[i := d']) (css[i := css ! i @ [?c]])" "free_clusters s' = free_clusters s - {?c}" using fs_extend [OF assms False] .
  thus ?thesis using False by (simp add: spec_extend_def Let_def)
qed

theorem extendfile_refines_witness:
  "fs_ok ex_mounted [ex_fat_file] [[2, 3]] \<and> (0 :: nat) < length [ex_fat_file] \<and> (\<exists>r d' s'. extendfile no_errors ([ex_fat_file] ! 0) ex_mounted = Some (r, d', s') \<and>
     (case spec_extend 0 (free_clusters ex_mounted, [[2, 3]]) of (F, css') \<Rightarrow> fs_ok s' ([ex_fat_file][0 := d']) css' \<and> free_clusters s' = F) \<and>
     (let c = Min (free_clusters ex_mounted) in r = (if free_clusters ex_mounted = {} then Inl ENOSPC
        else Inr (if de_isdir ([ex_fat_file] ! 0) then Devblock (cntobn ex_mounted c) else Fileblock (length ([[2, 3]] ! 0 :: nat list)), c))))"
proof -
  have c: "fs_ok ex_mounted [ex_fat_file] [[2, 3]]" "(0 :: nat) < length [ex_fat_file]" by (simp_all add: ex_mounted_ok)
  show ?thesis using c extendfile_refines [OF c] by blast
qed

text \<open>
  Property C33. With a table of 16 bits and no read errors \<^verbatim>\<open>detrunc\<close> keeps the clusters that the new length needs, frees exactly the others of the file and changes no
  other chain. It returns the error of the update of the directory entry, the error of clearing the last block, then the chain is whole, or
  \<^verbatim>\<open>E2BIG\<close> when the chain is shorter than the new length.
\<close>

theorem detrunc_refines:
  assumes "fs_ok s ds css" and "i < length ds"
  shows "\<exists>r d' s'. detrunc no_errors zero upd l (ds ! i) s = Some (r, d', s') \<and>
     (case spec_trunc i (trunc_keep zero l (ds ! i) (css ! i) s) (free_clusters s, css) of (F, css') \<Rightarrow> fs_ok s' (ds[i := d']) css' \<and> free_clusters s' = F) \<and>
     ((de_isdir (ds ! i) \<longrightarrow> css ! i \<noteq> []) \<longrightarrow> r = trunc_result zero upd l (ds ! i) (css ! i) s)"
proof -
  let ?n = "trunc_keep zero l (ds ! i) (css ! i) s"
  obtain r d' s' where "detrunc no_errors zero upd l (ds ! i) s = Some (r, d', s')" "fs_ok s' (ds[i := d']) (css[i := take ?n (css ! i)])"
    "free_clusters s' = free_clusters s \<union> set (drop ?n (css ! i))" "(de_isdir (ds ! i) \<longrightarrow> css ! i \<noteq> []) \<longrightarrow> r = trunc_result zero upd l (ds ! i) (css ! i) s"
    using fs_trunc [OF assms, where zero = zero and l = l and upd = upd] by metis
  thus ?thesis by (simp add: spec_trunc_def)
qed

theorem detrunc_refines_witness:
  "fs_ok ex_mounted [ex_fat_file] [[2, 3]] \<and> (0 :: nat) < length [ex_fat_file] \<and> (\<exists>r d' s'. detrunc no_errors None (Some EIO) 512 ([ex_fat_file] ! 0) ex_mounted = Some (r, d', s') \<and>
     (case spec_trunc 0 (trunc_keep None 512 ([ex_fat_file] ! 0) ([[2, 3]] ! 0) ex_mounted) (free_clusters ex_mounted, [[2, 3]]) of
        (F, css') \<Rightarrow> fs_ok s' ([ex_fat_file][0 := d']) css' \<and> free_clusters s' = F) \<and>
     ((de_isdir ([ex_fat_file] ! 0) \<longrightarrow> [[2, 3]] ! 0 \<noteq> ([] :: nat list)) \<longrightarrow> r = trunc_result None (Some EIO) 512 ([ex_fat_file] ! 0) ([[2, 3]] ! 0) ex_mounted))"
proof -
  have c: "fs_ok ex_mounted [ex_fat_file] [[2, 3]]" "(0 :: nat) < length [ex_fat_file]" by (simp_all add: ex_mounted_ok)
  show ?thesis using c detrunc_refines [OF c, where zero = None and upd = "Some EIO" and l = 512] by blast
qed

text \<open>
  Property C34. For a file with a chain, and whatever its cache holds of that chain, \<^verbatim>\<open>pcbmap\<close> gives the block and the number of the cluster asked for, or,
  beyond the end, \<^verbatim>\<open>E2BIG\<close> and the number of clusters of the file; its cache stays right and the disk is not changed. This holds for both widths of the table.
\<close>

theorem pcbmap_exact:
  assumes "fat_wf s" and "file_ok s dep cs" and "cs \<noteq> []"
  shows "\<exists>dep' s'. pcbmap no_errors n dep s = Some (if n < length cs then Mapped (cntobn s (cs ! n)) (cs ! n) else Beyond (length cs), dep', s') \<and>
     file_ok s' dep' cs \<and> same_geo s s' \<and> d_bytes s' = d_bytes s"
proof -
  obtain dep' k where "pcbmap no_errors n dep s = Some (if n < length cs then Mapped (cntobn s (cs ! n)) (cs ! n) else Beyond (length cs), dep', s\<lparr>d_reads := k\<rparr>)" "file_ok s dep' cs"
    using pcbmap_ok [OF assms, of n] by metis
  thus ?thesis by (intro exI [of _ dep'] exI [of _ "s\<lparr>d_reads := k\<rparr>"]) simp
qed

theorem pcbmap_exact_witness:
  "fat_wf ex_mounted \<and> file_ok ex_mounted ex_fat_file [2, 3] \<and> [2, 3 :: nat] \<noteq> [] \<and> (\<exists>dep' s'. pcbmap no_errors 1 ex_fat_file ex_mounted =
       Some (if 1 < length [2, 3 :: nat] then Mapped (cntobn ex_mounted ([2, 3] ! 1)) ([2, 3] ! 1) else Beyond (length [2, 3 :: nat]), dep', s') \<and>
     file_ok s' dep' [2, 3] \<and> same_geo ex_mounted s' \<and> d_bytes s' = d_bytes ex_mounted)"
proof -
  have w: "fat_wf ex_mounted" "file_ok ex_mounted ex_fat_file [2, 3]" using ex_mounted_ok(1) fs_file [OF ex_mounted_ok(1), of 0] by (simp_all add: fs_ok_def)
  have c: "fat_wf ex_mounted" "file_ok ex_mounted ex_fat_file [2, 3]" "[2, 3 :: nat] \<noteq> []" by (simp_all add: w)
  show ?thesis using c pcbmap_exact [OF c, of 1] by blast
qed

end
