(* ===== verification/Spec2Isabelle.thy ===== *)
theory Spec2Isabelle
  imports Bpf Cred Lockf Timers Dosconv Pgrp Ppp_opts Vjc Ncache Descrip Mbuf Kmalloc_inv Fat_files
begin

text \<open>
  A verification of parts of the BSD/386 1.1 kernel (\<^verbatim>\<open>src/sys\<close>): the code in which the kernel decides
  who may do what, orders concurrent requests and interprets what others send it. The repository is a
  whole operating system; the kernel is its core, and this development takes those of its parts that
  are complete in the repository and whose correctness is more than moving data.

  \<^bold>\<open>Parts and their interplay.\<close> A process has credentials (\<open>Cred\<close>), which \<^verbatim>\<open>fork\<close> shares with its child
  and which the time calls (\<open>Timers\<close>) ask for privilege; it belongs to a process group and session
  (\<open>Pgrp\<close>, which extends the process table and the id search of \<^verbatim>\<open>fork1\<close>). Its descriptors refer to open
  files that processes share (\<open>Descrip\<close>); open files carry advisory locks (\<open>Lockf\<close>); names of files are remembered in a cache (\<open>Ncache\<close>); a DOS file system stores times
  and names in its own format (\<open>Dosconv\<close>) and the places of its files in a table of links (\<open>Fat\<close>). A network
  tap runs filter programs on packets (\<open>Bpf\<close>); a serial line negotiates its parameters and carries IP
  (\<open>Ppp\<close>), with TCP headers compressed (\<open>Vjc\<close>). Packets are chains of buffers (\<open>Mbuf\<close>), of which \<open>Bpf\<close> and \<open>Ppp\<close> use
  the bytes only. All of them get their memory from the allocator (\<open>Kmalloc\<close>), whose answers the others take as
  arguments.

  \<^bold>\<open>Theories and sources.\<close>
  \<^item> \<open>Prelude\<close>: integer widths, errors (\<open>errno\<close>), loops with fuel (\<open>run_fuel\<close>), reachability; the locales
    \<open>ranked_loop\<close> (a loop with a measure returns), \<open>invariant_system\<close> (an invariant of a step relation
    holds in every reachable state) and \<open>codec\<close> (an encoding that can be read back is injective).
  \<^item> \<open>Bpf\<close>: \<^verbatim>\<open>net/bpf_filter.c\<close>. The interpreter \<open>bpf_filter\<close> runs one instruction per turn; every access
    outside its object is an explicit fault. \<open>bpf_validate\<close> as written. Shown: accepted programs with
    forward jumps return, and, with bounded absolute loads, do not fault on flat buffers; the mbuf extractors read the right word,
    or fault, in exactly described cases; programs the validator should not accept.
  \<^item> \<open>Cred\<close>: \<^verbatim>\<open>kern/kern_prot.c\<close>, identities. A heap of reference-counted \<^verbatim>\<open>ucred\<close>s that processes share.
    Shown over all interleavings of calls: counts are exact, no call changes the identity another
    process sees, an unprivileged process keeps to the ids it started with, dropping root is for good.
  \<^item> \<open>Lockf\<close>: \<^verbatim>\<open>ufs/ufs_lockf.c\<close>. The list of granted locks and the requests asleep on them; a step
    relation over setting, clearing, waking and interruption. Shown, for ranges that go to the end of
    file or end before byte \<open>2\<^sup>3\<^sup>1 - 1\<close>: mutual exclusion by bytes, no lost wakeup, the exact effect of granting
    and releasing on every byte, the overlap search; and that exclusion fails for a range that ends there.
  \<^item> \<open>Timers\<close>: \<^verbatim>\<open>kern/kern_time.c\<close>. Shown: the real timer is reloaded without drift and its loop ends;
    reading back a timer; the carry of \<open>itimerdecr\<close>; the rounding of \<open>adjtime\<close>.
  \<^item> \<open>Dosconv\<close>: \<^verbatim>\<open>msdosfs/msdosfs_conv.c\<close> with its static caches. Shown: times and names survive both
    conversions, unless the stale cache is used; the cases in which it is, or a bad month.
  \<^item> \<open>Pgrp\<close>: \<^verbatim>\<open>kern/kern_proc.c\<close>, the group calls of \<^verbatim>\<open>kern/kern_prot.c\<close>, and \<^verbatim>\<open>fork1\<close> of \<^verbatim>\<open>kern/kern_fork.c\<close>
    without the address space. Shown: job control and session counts, member lists and hash agree
    after any sequence of calls; \<open>setpgid\<close> and \<open>setsid\<close> do exactly what they should; the id search ends
    with an unused id, except in a described case.
  \<^item> \<open>Ppp\<close>, \<open>Ppp_fsm\<close>, \<open>Ppp_opts\<close>: \<^verbatim>\<open>net/ppp_fsm.c\<close>, \<^verbatim>\<open>ppp_lcp.c\<close>, \<^verbatim>\<open>ppp_ipcp.c\<close>, \<^verbatim>\<open>ppp_frame.c\<close>. One record per
    link. \<open>Ppp\<close> is the model; \<open>Ppp_fsm\<close> shows, over a step relation of packets, timers, modem and user
    events, that IP is only started on an opened link (as long as no callout expires in a state that does not
    run the timer; one that does is an example), and that closing ends; \<open>Ppp_opts\<close> shows that the
    answer to a Configure-Request is the one determined by the verdicts on its options, when those to be
    sent back fit one mbuf, and what happens for a longer list and for an option of length 0.
  \<^item> \<open>Vjc\<close>: \<^verbatim>\<open>net/slcompress.c\<close>. Shown: compressing and decompressing over a line that loses nothing
    gives back every list of packets; the ring of states is a cache in order of use.
  \<^item> \<open>Ncache\<close>: \<^verbatim>\<open>kern/vfs_cache.c\<close>. Entries in a hash table and a chain in order of use. Shown, over a step
    relation of the cache together with the directories it describes: what the cache answers is what
    the directory says; unmounting takes all names of a file system out.
  \<^item> \<open>Mbuf\<close>: \<^verbatim>\<open>kern/uipc_mbuf.c\<close> and the macros of \<^verbatim>\<open>sys/mbuf.h\<close>. Chains of mbufs with shared clusters. Shown, over a
    step relation of all operations: reference counts, free list and totals are exact; \<open>m_copym\<close>, \<open>m_adj\<close> and
    \<open>m_pullup\<close> have the effect on the bytes of a chain that they should, and no other chain changes.
  \<^item> \<open>Kmalloc\<close>, \<open>Kmalloc_inv\<close>: \<^verbatim>\<open>kern/kern_malloc.c\<close>. Buckets of free blocks linked through their first words, with the
    compaction of long lists. \<open>Kmalloc\<close> is the model, and shows that a compaction is a partition of the list; \<open>Kmalloc_inv\<close>
    shows, over a step relation of calls: blocks in use never overlap, the accounts are exact, \<open>malloc\<close> always returns
    and panics only for a full map, \<open>free\<close> never does.
  \<^item> \<open>Fat\<close>, \<open>Fat_files\<close>: \<^verbatim>\<open>msdosfs/msdosfs_fat.c\<close>, \<^verbatim>\<open>detrunc\<close> of \<^verbatim>\<open>msdosfs_denode.c\<close> and the geometry of \<^verbatim>\<open>mountmsdosfs\<close>. The device is
    an array of bytes, the table a stretch of it with entries of 12 or 16 bits. \<open>Fat\<close> is the model, and shows that an entry lies in
    the block read for it, that setting it changes nothing else (except the next entry, in a case of 12 bits that is described), and that
    the map of clusters in use is exact after mounting; \<open>Fat_files\<close> shows that mapping finds the clusters of a file, that extension and truncation refine
    appending to and cutting of a list of clusters, and that files never share a cluster.
  \<^item> \<open>Descrip\<close>: \<^verbatim>\<open>kern/kern_descrip.c\<close>. Tables of descriptors and the files they share. Shown, over a step
    relation of the calls, forks and exits, as long as no count overflows: the count of a file is the number of slots that hold it, and
    no call panics but \<open>fstat\<close> on a file of an unknown type; \<open>fdalloc\<close> gives the lowest free descriptor; the exact effect of \<open>dup2\<close>; a copied table
    has the same files.

  \<^bold>\<open>State and operations.\<close> A structure of the code is a record with the same field names, an operation
  a function from the state to the state and its result; a panic or an access outside an object is a
  value (\<open>None\<close> or a fault), and so is the use of an uninitialised value; an error number is returned as the code returns it. Structures that are
  shared through pointers are at addresses of a map; linked lists are lists. What the code asks of
  parts outside the repository (\<^verbatim>\<open>copyin\<close>, \<^verbatim>\<open>MALLOC\<close>, \<^verbatim>\<open>tsleep\<close>, \<^verbatim>\<open>timeout\<close>, \<^verbatim>\<open>psignal\<close>, drivers) is an
  argument, a step of its own, or a call that is listed. Integers are words of the i386's widths where
  they can wrap, otherwise \<open>int\<close> or \<open>nat\<close> with the wrap-around written out.

  \<^bold>\<open>Bounds and fuel.\<close> Loops over lists are structural. The others have fuel, and that the fuel is enough
  is a theorem: a filter program of \<open>n\<close> instructions with forward jumps needs at most \<open>n\<close> turns; the
  reload of the real timer as many turns as intervals have passed; the search for a process id 60002
  turns; the walk up the process tree as many steps as there are processes; the option loops one
  turn per byte of the packet; draining the deferred queue one turn per packet; the search of the ring
  sixteen turns; the growth of a descriptor table as many turns as the limit, its halving as many as its
  size; pulling up one turn per mbuf; \<open>malloc\<close> two turns per free block and two more, a compaction one turn per free chunk; freeing a chain of clusters one turn per cluster and two more, also for a chain in a circle; the scan of a file system's names \<open>(n + 1)\<^sup>2\<close> turns for \<open>n\<close> entries. Programs and packets for which a loop does not end are the subject of theorems of
  their own (\<open>bpf_validate_accepts_loop\<close>, \<open>zero_option_hangs\<close>).

  \<^bold>\<open>Not modelled.\<close> The machine-dependent code (\<^verbatim>\<open>sys/i386\<close> and the other ports), device drivers, virtual
  memory, the buffer cache and file systems other than the parts above, TCP/IP and the other protocol
  families, NFS, and everything outside the kernel: libraries, commands, compilers, games, X11 and the
  contributed software. Many core files of the kernel (\<^verbatim>\<open>kern_exit.c\<close>, \<^verbatim>\<open>kern_synch.c\<close>, \<^verbatim>\<open>kern_clock.c\<close>,
  \<^verbatim>\<open>kern_sig.c\<close>, \<^verbatim>\<open>vfs_syscalls.c\<close>, \<^verbatim>\<open>tty.c\<close>) are not in the repository, which is why signals, sleeping and
  exit appear as arguments and steps only. Statistics counters of the header compressor and debugging
  output are left out. Of the DOS file system,
  the vnode operations, the search of directories and the data of files are left out: they are buffer I/O.
  Read errors of the table are in the model of \<open>Fat\<close>, the theorems about sequences of operations are for disks without them.
\<close>

end
